(* ===== verification/Varint.thy ===== *)
theory Varint
  imports Prelude
begin

text \<open>
  The consensus varint, \<open>crates/wow-serialize/src/varint.rs\<close>, and the error type of the crate,
  \<open>crates/wow-serialize/src/error.rs\<close>. The loops are recursive functions over the same
  variables. Shown here: a written varint is read back, at every destination width it fits;
  whatever the strict reader accepts is the one encoding of the value it returns; the length
  functions and the fixed-buffer writer agree with the writer.
\<close>

section \<open>Errors\<close>

datatype serial_error =
    UnexpectedEof
  | VarintOverflow
  | VarintNonCanonical
  | VarintTooLong
  | UnknownVariantTag u8
  | LimitExceeded string
  | InvalidValue string
  | BadEpeeSignature
  | UnknownEpeeType u8
  | RecursionLimit
  | MissingField string
  | TypeMismatch string string
  | BadPodBlobLength nat nat
  | NameTooLong

type_synonym 'a serial_result = "serial_error + 'a"

section \<open>Writing\<close>

definition MAX_VARINT_LEN_U64 :: usize where "MAX_VARINT_LEN_U64 = 10"

function varint_len_loop :: "u64 \<Rightarrow> usize \<Rightarrow> usize" where
  "varint_len_loop v n = (if 0x80 \<le> v then varint_len_loop (drop_bit 7 v) (n + 1) else n)"
  by pat_completeness auto
termination
  by (relation "measure (\<lambda>(v, n). unat v)") (auto simp: drop_bit_7_less)

definition varint_len :: "u64 \<Rightarrow> usize" where
  "varint_len v = varint_len_loop v 1"

definition varint_cont_byte :: "u64 \<Rightarrow> u8" where
  "varint_cont_byte v = (ucast v AND 0x7f) OR 0x80"

function write_varint :: "bytes \<Rightarrow> u64 \<Rightarrow> bytes" where
  "write_varint out v =
     (if 0x80 \<le> v then write_varint (out @ [varint_cont_byte v]) (drop_bit 7 v)
      else out @ [ucast v])"
  by pat_completeness auto
termination
  by (relation "measure (\<lambda>(out, v). unat v)") (auto simp: drop_bit_7_less)

text \<open>\<open>None\<close> is the panic of an index past the end of the buffer.\<close>

function write_varint_to_loop :: "bytes \<Rightarrow> usize \<Rightarrow> u64 \<Rightarrow> (bytes \<times> usize) option" where
  "write_varint_to_loop buf n v =
     (if n < length buf then
        if 0x80 \<le> v then write_varint_to_loop (buf[n := varint_cont_byte v]) (n + 1) (drop_bit 7 v)
        else Some (buf[n := ucast v], n + 1)
      else None)"
  by pat_completeness auto
termination
  by (relation "measure (\<lambda>(buf, n, v). unat v)") (auto simp: drop_bit_7_less)

definition write_varint_to :: "bytes \<Rightarrow> u64 \<Rightarrow> (bytes \<times> usize) option" where
  "write_varint_to buf v = write_varint_to_loop buf 0 v"

section \<open>Reading\<close>

record varint_read =
  vr_value :: u64
  vr_len :: usize
  vr_truncated :: bool

text \<open>
  The argument \<open>rest\<close> is \<open>input[read..]\<close>, so \<open>input.get(read)\<close> is its head.
\<close>

fun read_varint_loop :: "nat \<Rightarrow> bytes \<Rightarrow> u64 \<Rightarrow> nat \<Rightarrow> usize \<Rightarrow> varint_read serial_result" where
  "read_varint_loop bits [] value shift n =
     Inr \<lparr>vr_value = value, vr_len = n, vr_truncated = True\<rparr>"
| "read_varint_loop bits (byte # rest) value shift n =
     (if bits \<le> shift + 7 \<and> bits \<le> shift then Inl VarintOverflow
      else if bits \<le> shift + 7 \<and> 2 ^ (bits - shift) \<le> unat byte then Inl VarintOverflow
      else if byte = 0 \<and> shift \<noteq> 0 then Inl VarintNonCanonical
      else
        let value' = value OR push_bit shift (ucast (byte AND 0x7f)) in
        if byte AND 0x80 = 0
        then Inr \<lparr>vr_value = value', vr_len = n + 1, vr_truncated = False\<rparr>
        else read_varint_loop bits rest value' (shift + 7) (n + 1))"

definition read_varint_bits :: "bytes \<Rightarrow> nat \<Rightarrow> varint_read serial_result" where
  "read_varint_bits input bits = read_varint_loop bits input 0 0 0"

definition read_varint :: "bytes \<Rightarrow> (u64 \<times> usize) serial_result" where
  "read_varint input =
     and_then (read_varint_bits input 64) (\<lambda>r.
       if vr_truncated r then Inl UnexpectedEof else Inr (vr_value r, vr_len r))"

declare varint_len_loop.simps [simp del] write_varint.simps [simp del]
  write_varint_to_loop.simps [simp del]

section \<open>The writer appends\<close>

function varint_bytes :: "u64 \<Rightarrow> bytes" where
  "varint_bytes v =
     (if 0x80 \<le> v then varint_cont_byte v # varint_bytes (drop_bit 7 v) else [ucast v])"
  by pat_completeness auto
termination
  by (relation "measure unat") (auto simp: drop_bit_7_less)

declare varint_bytes.simps [simp del]

lemma write_varint_append: "write_varint out v = out @ varint_bytes v"
proof (induction out v rule: write_varint.induct)
  case (1 out v)
  then show ?case
    by (simp add: write_varint.simps [of out v] varint_bytes.simps [of v])
qed

lemma varint_bytes_nonempty [simp]: "varint_bytes v \<noteq> []"
  by (subst varint_bytes.simps) simp

lemma length_varint_bytes_pos [simp]: "1 \<le> length (varint_bytes v)"
  using varint_bytes_nonempty [of v] by (cases "varint_bytes v") auto

section \<open>Round trip\<close>

lemma low7_and: "(x :: u8) AND 0x7f = take_bit 7 x"
proof -
  have "(0x7f :: u8) = mask 7" by (simp add: mask_eq_exp_minus_1)
  then show ?thesis by (simp only: take_bit_eq_mask)
qed

lemma bit_0x80: "bit (0x80 :: u8) n \<longleftrightarrow> n = 7"
proof -
  have "(0x80 :: u8) = 2 ^ 7" by simp
  then show ?thesis by (simp only: bit_exp_iff) (auto simp: possible_bit_word)
qed

lemma top_bit_clear: "(b :: u8) AND 0x80 = 0 \<longleftrightarrow> \<not> bit b 7"
proof
  assume z: "b AND 0x80 = 0"
  have "bit (b AND 0x80) 7 \<longleftrightarrow> bit b 7"
    by (simp add: bit_and_iff bit_0x80 del: bit_numeral_word_iff)
  with z show "\<not> bit b 7" by simp
next
  assume "\<not> bit b 7"
  then show "b AND 0x80 = 0"
    by (intro bit_eqI) (auto simp: bit_and_iff bit_0x80 simp del: bit_numeral_word_iff)
qed

lemma varint_split:
  "(ucast (varint_cont_byte w AND 0x7f) :: u64) OR push_bit 7 (drop_bit 7 w) = w"
proof (rule bit_eqI)
  fix n :: nat
  have "7 \<le> n \<Longrightarrow> 7 + (n - 7) = n" by simp
  then show "bit ((ucast (varint_cont_byte w AND 0x7f) :: u64) OR push_bit 7 (drop_bit 7 w)) n
      \<longleftrightarrow> bit w n"
    by (cases "n < 7") (auto simp: low7_and varint_cont_byte_def bit_simps bit_0x80
        dest: bit_imp_le_length)
qed

lemma varint_push_split:
  "push_bit s (ucast (varint_cont_byte w AND 0x7f)) OR push_bit (s + 7) (drop_bit 7 w)
    = push_bit s (w :: u64)"
proof -
  have "push_bit (s + 7) (drop_bit 7 w) = push_bit s (push_bit 7 (drop_bit 7 w))"
    by (simp add: push_bit_push_bit add.commute)
  then show ?thesis
    by (simp only: varint_split push_bit_or [symmetric])
qed

lemma varint_cont_byte_props [simp]:
  "bit (varint_cont_byte w) 7" "varint_cont_byte w \<noteq> 0"
proof -
  show *: "bit (varint_cont_byte w) 7"
    by (simp add: varint_cont_byte_def bit_simps bit_0x80)
  then show "varint_cont_byte w \<noteq> 0" by auto
qed

lemma u8_less_128: "unat (b :: u8) < 128 \<longleftrightarrow> \<not> bit b 7"
proof -
  have "bit b 7 \<longleftrightarrow> bit (unat b) 7" by (simp add: bit_unsigned_iff)
  also have "\<dots> \<longleftrightarrow> odd (unat b div 128)" by (simp add: bit_iff_odd)
  also have "\<dots> \<longleftrightarrow> \<not> unat b < 128"
  proof -
    have "unat b div 128 < 2" using unat_bound [of b] by (simp add: less_mult_imp_div_less)
    then show ?thesis by (cases "unat b div 128") auto
  qed
  finally show ?thesis by simp
qed

lemma varint_small_byte:
  assumes "\<not> 0x80 \<le> (w :: u64)"
  shows "unat (ucast w :: u8) = unat w" "ucast ((ucast w :: u8) AND 0x7f) = w"
    "(ucast w :: u8) AND 0x80 = 0"
proof -
  from assms have w: "unat w < 128" by (simp add: word_le_nat_alt)
  then show *: "unat (ucast w :: u8) = unat w"
    by (simp add: unsigned_ucast_eq take_bit_eq_mod)
  with w have "\<not> bit (ucast w :: u8) 7" by (simp add: u8_less_128 [symmetric])
  then show "(ucast w :: u8) AND 0x80 = 0" by (simp add: top_bit_clear)
  have "unat ((ucast w :: u8) AND 0x7f) = unat w mod 128"
    by (simp add: low7_and unat_take_bit_mod *)
  with w show "ucast ((ucast w :: u8) AND 0x7f) = w"
    by (simp add: word_unat_eq_iff unsigned_ucast_eq take_bit_eq_mod)
qed

lemma read_varint_loop_bytes:
  assumes "unat w < 2 ^ (bits - shift)" "shift < bits" "bits \<le> 64" "shift = 0 \<or> w \<noteq> 0"
  shows "read_varint_loop bits (varint_bytes w @ rest) acc shift n =
    Inr \<lparr>vr_value = acc OR push_bit shift w, vr_len = n + length (varint_bytes w),
      vr_truncated = False\<rparr>"
  using assms
proof (induction w arbitrary: acc shift n rule: varint_bytes.induct)
  case (1 w)
  show ?case
  proof (cases "0x80 \<le> w")
    case True
    then have w: "128 \<le> unat w" by (simp add: word_le_nat_alt)
    with 1 have "(2::nat) ^ 7 < 2 ^ (bits - shift)" by simp
    then have s: "shift + 7 < bits" using power_less_imp_less_exp [of "2::nat" 7 "bits - shift"] by simp
    have "bits - shift = 7 + (bits - (shift + 7))" using s by simp
    with 1(2) have "unat w < 2 ^ 7 * 2 ^ (bits - (shift + 7))"
      by (metis power_add)
    then have b: "unat (drop_bit 7 w) < 2 ^ (bits - (shift + 7))"
      by (simp add: unat_drop_bit_div less_mult_imp_div_less mult.commute)
    have nz: "drop_bit 7 w \<noteq> 0"
      using w by (auto simp: unat_drop_bit_div word_unat_eq_iff [of "drop_bit 7 w"] div_eq_0_iff)
    have "read_varint_loop bits (varint_bytes w @ rest) acc shift n =
        read_varint_loop bits (varint_bytes (drop_bit 7 w) @ rest)
          (acc OR push_bit shift (ucast (varint_cont_byte w AND 0x7f))) (shift + 7) (n + 1)"
      using True s by (simp add: varint_bytes.simps [of w] top_bit_clear Let_def)
    then show ?thesis
      using 1(1) [OF True b s 1(4)] nz True
      by (simp add: varint_bytes.simps [of w] or.assoc varint_push_split)
  next
    case False
    have nz: "\<not> ((ucast w :: u8) = 0 \<and> shift \<noteq> 0)"
      using 1(5) varint_small_byte(1) [OF False] by (auto simp: word_unat_eq_iff)
    show ?thesis
      using 1(2,3) nz False varint_small_byte [OF False]
      by (simp add: varint_bytes.simps [of w] Let_def)
  qed
qed

lemma read_varint_bits_bytes:
  assumes "unat v < 2 ^ bits" "0 < bits" "bits \<le> 64"
  shows "read_varint_bits (varint_bytes v @ rest) bits =
    Inr \<lparr>vr_value = v, vr_len = length (varint_bytes v), vr_truncated = False\<rparr>"
  using read_varint_loop_bytes [of v bits 0 rest 0 0] assms by (simp add: read_varint_bits_def)

section \<open>Canonicity\<close>

lemma varint_join:
  assumes b: "bit b 7" and w: "unat w < 2 ^ 57" "w \<noteq> 0"
  defines "v \<equiv> (ucast (b AND 0x7f) :: u64) OR push_bit 7 w"
  shows "varint_bytes v = b # varint_bytes w"
    and "push_bit s v = push_bit s (ucast (b AND 0x7f)) OR push_bit (s + 7) w"
    and "unat v = unat (b AND 0x7f) + 128 * unat w"
proof -
  have low: "unat (b AND 0x7f) < 128" by (simp add: low7_and unat_take_bit_mod)
  have "v = ucast (b AND 0x7f) + push_bit 7 w" unfolding v_def
    by (rule disjunctive_add [symmetric]) (auto simp: low7_and bit_simps)
  moreover have "unat (push_bit 7 w) = 128 * unat w"
    using w(1) by (simp add: push_bit_eq_mult unat_word_ariths)
  moreover have "unat (ucast (b AND 0x7f) :: u64) = unat (b AND 0x7f)"
    using low by (simp add: unsigned_ucast_eq take_bit_eq_mod)
  ultimately show u: "unat v = unat (b AND 0x7f) + 128 * unat w"
    using low w(1) by (simp add: unat_word_ariths)
  then have "unat (drop_bit 7 v) = unat w" using low by (simp add: unat_drop_bit_div)
  then have d: "drop_bit 7 v = w" by (simp add: word_unat_eq_iff)
  have "0 < unat w" using w(2) by (simp add: unat_gt_0)
  with u have ge: "0x80 \<le> v" by (simp add: word_le_nat_alt)
  have "varint_cont_byte v = b"
    using b by (intro bit_eqI)
      (auto simp: varint_cont_byte_def v_def low7_and bit_simps bit_0x80 less_Suc_eq
        simp del: bit_numeral_word_iff dest: bit_imp_le_length)
  with ge d show "varint_bytes v = b # varint_bytes w" by (simp add: varint_bytes.simps [of v])
  show "push_bit s v = push_bit s (ucast (b AND 0x7f)) OR push_bit (s + 7) w"
    by (simp add: v_def push_bit_or push_bit_push_bit add.commute)
qed

lemma read_varint_loop_canonical:
  assumes "read_varint_loop bits input acc shift n = Inr r" "\<not> vr_truncated r" "bits \<le> 64"
  shows "\<exists>w. n + length (varint_bytes w) = vr_len r \<and> take (vr_len r - n) input = varint_bytes w \<and>
    vr_value r = acc OR push_bit shift w \<and> unat w < 2 ^ (bits - shift) \<and> (shift = 0 \<or> w \<noteq> 0)"
  using assms
proof (induction bits input acc shift n rule: read_varint_loop.induct)
  case (1 bits acc shift n)
  then show ?case by auto
next
  case (2 bits b rest acc shift n)
  let ?low = "ucast (b AND 0x7f) :: u64"
  from 2(2) have g: "\<not> (bits \<le> shift + 7 \<and> bits \<le> shift)"
    "\<not> (bits \<le> shift + 7 \<and> 2 ^ (bits - shift) \<le> unat b)" "\<not> (b = 0 \<and> shift \<noteq> 0)"
    by (auto split: if_splits)
  show ?case
  proof (cases "b AND 0x80 = 0")
    case True
    then have b: "unat b < 128" by (simp add: top_bit_clear u8_less_128)
    have c: "ucast (ucast b :: u64) = b"
      by (rule bit_eqI) (auto simp: bit_simps dest: bit_imp_le_length)
    have l: "?low = ucast b"
      using b by (simp add: word_unat_eq_iff low7_and unat_take_bit_mod)
    have vb: "varint_bytes (ucast b) = [b]"
      using b c by (subst varint_bytes.simps) (simp add: word_le_nat_alt)
    have bound: "unat b < 2 ^ (bits - shift)"
    proof (cases "bits \<le> shift + 7")
      case True
      with g show ?thesis by simp
    next
      case False
      then have "(2::nat) ^ 7 \<le> 2 ^ (bits - shift)" by (intro power_increasing) auto
      with b show ?thesis by simp
    qed
    have "r = \<lparr>vr_value = acc OR push_bit shift ?low, vr_len = n + 1, vr_truncated = False\<rparr>"
      using 2(2) g True by (simp add: Let_def split: if_splits)
    moreover have "shift = 0 \<or> (ucast b :: u64) \<noteq> 0"
      using g by (auto simp: word_unat_eq_iff)
    ultimately show ?thesis
      using vb bound unfolding l by (intro exI [of _ "ucast b"]) simp
  next
    case False
    then have b7: "bit b 7" by (simp add: top_bit_clear)
    from 2(2) g False have rec: "read_varint_loop bits rest (acc OR push_bit shift ?low) (shift + 7) (n + 1) = Inr r"
      by (simp add: Let_def split: if_splits)
    from 2(1) [OF g refl False rec 2(3,4)] obtain w where
      w: "n + 1 + length (varint_bytes w) = vr_len r" "take (vr_len r - (n + 1)) rest = varint_bytes w"
        "vr_value r = (acc OR push_bit shift ?low) OR push_bit (shift + 7) w"
        "unat w < 2 ^ (bits - (shift + 7))" "w \<noteq> 0"
      by auto
    have "(2::nat) ^ (bits - (shift + 7)) \<le> 2 ^ 57"
      using 2(4) by (intro power_increasing) auto
    with w(4) have w57: "unat w < 2 ^ 57" by simp
    let ?v = "?low OR push_bit 7 w"
    note j = varint_join [OF b7 w57 w(5)]
    have "0 < unat w" using w(5) by (simp add: unat_gt_0)
    with w(4) have s: "shift + 7 < bits" by (cases "shift + 7 < bits") auto
    then have e: "bits - shift = 7 + (bits - (shift + 7))" by simp
    have low: "unat (b AND 0x7f) < 128" by (simp add: low7_and unat_take_bit_mod)
    then have "unat ?v < 2 ^ 7 * 2 ^ (bits - (shift + 7))"
      using w(4) j(3) by simp
    then have "unat ?v < 2 ^ (bits - shift)" unfolding e power_add .
    moreover have "vr_len r - n = Suc (vr_len r - (n + 1))" using w(1) by simp
    moreover have "?v \<noteq> 0" using j(3) w(5) by (auto simp: word_unat_eq_iff)
    ultimately show ?thesis
      using w j by (intro exI [of _ ?v]) (simp add: or.assoc)
  qed
qed

section \<open>Lengths and the fixed buffer\<close>

lemma varint_len_loop_eq: "varint_len_loop v n + 1 = n + length (varint_bytes v)"
proof (induction v n rule: varint_len_loop.induct)
  case (1 v n)
  then show ?case
    by (simp add: varint_len_loop.simps [of v n] varint_bytes.simps [of v])
qed

lemma varint_len_eq [len_simps]: "varint_len v = length (varint_bytes v)"
  using varint_len_loop_eq [of v 1] by (simp add: varint_len_def)

lemma length_varint_bytes_le:
  "unat v < 2 ^ (7 * k) \<Longrightarrow> 0 < k \<Longrightarrow> length (varint_bytes v) \<le> k"
proof (induction k arbitrary: v)
  case 0
  then show ?case by simp
next
  case (Suc k)
  show ?case
  proof (cases "0x80 \<le> v")
    case True
    then have "128 \<le> unat v" by (simp add: word_le_nat_alt)
    with Suc.prems have k: "0 < k" by (cases k) auto
    have "unat (drop_bit 7 v) < 2 ^ (7 * k)"
      using Suc.prems by (simp add: unat_drop_bit_div power_add less_mult_imp_div_less mult.commute)
    then have "length (varint_bytes (drop_bit 7 v)) \<le> k" by (rule Suc.IH) (rule k)
    then show ?thesis using True by (simp add: varint_bytes.simps [of v])
  qed (simp add: varint_bytes.simps [of v])
qed

lemma length_varint_bytes_le_10: "length (varint_bytes v) \<le> 10"
proof -
  have "unat v < 2 ^ (7 * 10)" using unat_bound [of v] by simp
  then show ?thesis by (rule length_varint_bytes_le) simp
qed

lemma write_varint_to_loop_eq:
  "n + length (varint_bytes v) \<le> length buf \<Longrightarrow>
    write_varint_to_loop buf n v =
      Some (take n buf @ varint_bytes v @ drop (n + length (varint_bytes v)) buf, n + length (varint_bytes v))"
proof (induction buf n v rule: write_varint_to_loop.induct)
  case (1 buf n v)
  then have n: "n < length buf" using length_varint_bytes_pos [of v] by linarith
  show ?case
  proof (cases "0x80 \<le> v")
    case True
    have "Suc n + length (varint_bytes (drop_bit 7 v)) \<le> length (buf[n := varint_cont_byte v])"
      using 1(2) True by (simp add: varint_bytes.simps [of v])
    then show ?thesis
      using 1(1) [OF n True] n True
      by (simp add: write_varint_to_loop.simps [of buf n v] varint_bytes.simps [of v]
          take_Suc_conv_app_nth upd_conv_take_nth_drop add.commute)
  next
    case False
    then show ?thesis using n
      by (simp add: write_varint_to_loop.simps [of buf n v] varint_bytes.simps [of v]
          upd_conv_take_nth_drop)
  qed
qed

section \<open>Properties\<close>

text \<open>A varint written anywhere is read back at every destination width its value fits, with
  its length, whatever follows it.\<close>

theorem varint_roundtrip:
  assumes "unat v < 2 ^ bits" "0 < bits" "bits \<le> 64"
  shows "read_varint_bits (drop (length out) (write_varint out v) @ rest) bits =
    Inr \<lparr>vr_value = v, vr_len = varint_len v, vr_truncated = False\<rparr>"
  using read_varint_bits_bytes [OF assms] by (simp add: write_varint_append varint_len_eq)

theorem varint_roundtrip_witness:
  "read_varint_bits (drop (length [7 :: u8]) (write_varint [7] 300) @ [9]) 32 =
    Inr \<lparr>vr_value = 300, vr_len = varint_len 300, vr_truncated = False\<rparr>"
  by (rule varint_roundtrip) simp_all

text \<open>The strict reader accepts one encoding per value: the bytes it consumed are those the
  writer produces for the value it returned.\<close>

theorem read_varint_canonical:
  assumes "read_varint input = Inr (v, n)"
  shows "take n input = write_varint [] v \<and> n = varint_len v"
proof -
  obtain r where "read_varint_loop 64 input 0 0 0 = Inr r" "\<not> vr_truncated r" "v = vr_value r" "n = vr_len r"
    using assms by (auto simp: read_varint_def read_varint_bits_def split: if_splits)
  with read_varint_loop_canonical [of 64 input 0 0 0 r] show ?thesis
    by (auto simp: write_varint_append varint_len_eq)
qed

theorem read_varint_canonical_witness: "take 2 [0xac, 0x02, 0x55] = write_varint [] 300 \<and> 2 = varint_len 300"
  by (rule read_varint_canonical [of "[0xac, 0x02, 0x55]"])
    (simp add: read_varint_def read_varint_bits_def Let_def)

text \<open>Every value fits ten bytes, and on a buffer with that much room the fixed-buffer
  writer cannot panic and leaves the bytes of the growing writer at its start, the rest alone.\<close>

theorem write_varint_to_agrees:
  assumes "MAX_VARINT_LEN_U64 \<le> length buf"
  shows "varint_len v \<le> MAX_VARINT_LEN_U64 \<and>
    write_varint_to buf v = Some (write_varint [] v @ drop (varint_len v) buf, varint_len v)"
  using assms length_varint_bytes_le_10 [of v] write_varint_to_loop_eq [of 0 v buf]
  by (simp add: MAX_VARINT_LEN_U64_def write_varint_to_def write_varint_append varint_len_eq)

theorem write_varint_to_agrees_witness:
  "varint_len 5 \<le> MAX_VARINT_LEN_U64 \<and>
    write_varint_to (replicate 10 0xee) 5 = Some (write_varint [] 5 @ drop (varint_len 5) (replicate 10 0xee), varint_len 5)"
  by (rule write_varint_to_agrees) (simp add: MAX_VARINT_LEN_U64_def)

end
