(* ===== verification/Binary.thy ===== *)
theory Binary
  imports Varint
begin

text \<open>
  The binary archive, \<open>crates/wow-serialize/src/binary.rs\<close>: the \<open>Reader\<close> cursor and the
  append-only \<open>Writer\<close>.

  A method of \<open>Reader\<close> is a \<open>'a parser\<close>: it takes the cursor and returns an error or the value
  with the moved cursor. \<open>p_bind\<close> sequences two of them as \<open>?\<close> does. A \<open>Writer\<close> is the vector
  it wraps, and every writing method takes it and returns it longer.

  The locale \<open>codec\<close> is the contract of a pair of a writer and a reader: the writer only
  appends, and the reader, placed at what was written, returns the value and stops exactly at
  its end, whatever follows. From these two laws it derives that encodings are prefix-free and
  injective, and that the loops over vectors round-trip. The locale \<open>safe_reader\<close> is the
  contract of a reader alone: it never leaves the blob and never moves back. Both are
  interpreted on every reader of the archive, here and in the theories of the types.
\<close>

section \<open>The cursor\<close>

record reader =
  rd_buf :: bytes
  rd_pos :: usize

type_synonym 'a parser = "reader \<Rightarrow> ('a \<times> reader) serial_result"

definition p_return :: "'a \<Rightarrow> 'a parser" where
  "p_return x = (\<lambda>r. Inr (x, r))"

definition p_fail :: "serial_error \<Rightarrow> 'a parser" where
  "p_fail e = (\<lambda>r. Inl e)"

definition p_bind :: "'a parser \<Rightarrow> ('a \<Rightarrow> 'b parser) \<Rightarrow> 'b parser" where
  "p_bind m f = (\<lambda>r. and_then (m r) (\<lambda>(x, r'). f x r'))"

definition reader_new :: "bytes \<Rightarrow> reader" where
  "reader_new b = \<lparr>rd_buf = b, rd_pos = 0\<rparr>"

definition reader_pos :: "usize parser" where
  "reader_pos = (\<lambda>r. Inr (rd_pos r, r))"

definition remaining :: "reader \<Rightarrow> usize" where
  "remaining r = length (rd_buf r) - rd_pos r"

definition p_remaining :: "usize parser" where
  "p_remaining = (\<lambda>r. Inr (remaining r, r))"

definition reader_is_empty :: "reader \<Rightarrow> bool" where
  "reader_is_empty r \<longleftrightarrow> length (rd_buf r) \<le> rd_pos r"

text \<open>
  \<open>self.pos.checked_add(n)\<close> overflows only where the sum is past the end of every buffer, and
  both failures are \<open>UnexpectedEof\<close>.
\<close>

definition reader_take :: "usize \<Rightarrow> bytes parser" where
  "reader_take n = (\<lambda>r.
     let e = rd_pos r + n in
     if length (rd_buf r) < e then Inl UnexpectedEof
     else Inr (take n (drop (rd_pos r) (rd_buf r)), r\<lparr>rd_pos := e\<rparr>))"

definition read_array :: "usize \<Rightarrow> bytes parser" where
  "read_array n = reader_take n"

definition read_u8 :: "u8 parser" where
  "read_u8 = p_bind (reader_take 1) (\<lambda>s. p_return (s ! 0))"

definition read_u16_le :: "u16 parser" where
  "read_u16_le = p_bind (read_array 2) (\<lambda>s. p_return (u16_from_le_bytes s))"

definition read_u32_le :: "u32 parser" where
  "read_u32_le = p_bind (read_array 4) (\<lambda>s. p_return (u32_from_le_bytes s))"

definition read_u64_le :: "u64 parser" where
  "read_u64_le = p_bind (read_array 8) (\<lambda>s. p_return (u64_from_le_bytes s))"

definition reader_varint_bits :: "nat \<Rightarrow> u64 parser" where
  "reader_varint_bits bits = (\<lambda>r.
     and_then (read_varint_bits (drop (rd_pos r) (rd_buf r)) bits) (\<lambda>v.
       Inr (vr_value v, r\<lparr>rd_pos := rd_pos r + vr_len v\<rparr>)))"

definition reader_varint :: "u64 parser" where
  "reader_varint = reader_varint_bits 64"

definition read_varint_u8 :: "u8 parser" where
  "read_varint_u8 = p_bind (reader_varint_bits 8) (\<lambda>v. p_return (ucast v))"

definition read_varint_u32 :: "u32 parser" where
  "read_varint_u32 = p_bind (reader_varint_bits 32) (\<lambda>v. p_return (ucast v))"

definition read_len :: "usize \<Rightarrow> string \<Rightarrow> usize parser" where
  "read_len limit what = p_bind reader_varint (\<lambda>v.
     let n = unat v in
     if limit < n then p_fail (LimitExceeded what)
     else p_bind p_remaining (\<lambda>rem.
       if rem < n then p_fail UnexpectedEof else p_return n))"

definition read_bytes_prefixed :: "usize \<Rightarrow> string \<Rightarrow> bytes parser" where
  "read_bytes_prefixed limit what = p_bind (read_len limit what) reader_take"

text \<open>\<open>for _ in 0..n { v.push(read(r)?) }\<close>\<close>

fun read_n :: "'a parser \<Rightarrow> nat \<Rightarrow> 'a list parser" where
  "read_n p 0 = p_return []"
| "read_n p (Suc n) = p_bind p (\<lambda>x. p_bind (read_n p n) (\<lambda>xs. p_return (x # xs)))"

section \<open>The writer\<close>

type_synonym writer = bytes

definition write_bytes :: "writer \<Rightarrow> bytes \<Rightarrow> writer" where "write_bytes w b = w @ b"
definition write_u8 :: "writer \<Rightarrow> u8 \<Rightarrow> writer" where "write_u8 w v = w @ [v]"
definition write_u16_le :: "writer \<Rightarrow> u16 \<Rightarrow> writer" where "write_u16_le w v = w @ u16_to_le_bytes v"
definition write_u32_le :: "writer \<Rightarrow> u32 \<Rightarrow> writer" where "write_u32_le w v = w @ u32_to_le_bytes v"
definition write_u64_le :: "writer \<Rightarrow> u64 \<Rightarrow> writer" where "write_u64_le w v = w @ u64_to_le_bytes v"
definition writer_varint :: "writer \<Rightarrow> u64 \<Rightarrow> writer" where "writer_varint w v = write_varint w v"

definition write_bytes_prefixed :: "writer \<Rightarrow> bytes \<Rightarrow> writer" where
  "write_bytes_prefixed w b = write_bytes (writer_varint w (word_of_nat (length b))) b"

definition varint_size :: "u64 \<Rightarrow> usize" where
  "varint_size v = varint_len v"

lemmas writer_defs = write_bytes_def write_u8_def write_u16_le_def write_u32_le_def write_u64_le_def
  writer_varint_def write_varint_append

lemma write_bytes_prefixed_eq:
  "write_bytes_prefixed w b = w @ varint_bytes (word_of_nat (length b)) @ b"
  by (simp add: write_bytes_prefixed_def writer_defs)

section \<open>Readers at a position\<close>

definition reader_at :: "bytes \<Rightarrow> bytes \<Rightarrow> reader" where
  "reader_at pre post = \<lparr>rd_buf = pre @ post, rd_pos = length pre\<rparr>"

lemma reader_new_at: "reader_new b = reader_at [] b"
  by (simp add: reader_new_def reader_at_def)

lemma remaining_at [simp]: "remaining (reader_at pre post) = length post"
  by (simp add: remaining_def reader_at_def)

lemma p_bind_simps [simp]:
  "p_bind m f r = and_then (m r) (\<lambda>(x, r'). f x r')"
  "p_return x r = Inr (x, r)"
  "p_fail e r = Inl e"
  "p_remaining r = Inr (remaining r, r)"
  "reader_pos r = Inr (rd_pos r, r)"
  by (simp_all add: p_bind_def p_return_def p_fail_def p_remaining_def reader_pos_def)

lemma reader_at_pos [simp]: "rd_pos (reader_at pre post) = length pre"
  by (simp add: reader_at_def)

lemma reader_at_split:
  "rd_pos r \<le> length (rd_buf r) \<Longrightarrow> r = reader_at (take (rd_pos r) (rd_buf r)) (drop (rd_pos r) (rd_buf r))"
  by (cases r) (simp add: reader_at_def)

lemma reader_take_at:
  "reader_take n (reader_at pre post) =
     (if length post < n then Inl UnexpectedEof
      else Inr (take n post, reader_at (pre @ take n post) (drop n post)))"
  by (simp add: reader_take_def reader_at_def Let_def min_absorb2)

lemma reader_take_append [codec_simps]:
  "length b = n \<Longrightarrow> reader_take n (reader_at pre (b @ post)) = Inr (b, reader_at (pre @ b) post)"
  by (simp add: reader_take_at)

lemma read_array_append [codec_simps]:
  "length b = n \<Longrightarrow> read_array n (reader_at pre (b @ post)) = Inr (b, reader_at (pre @ b) post)"
  by (simp add: read_array_def reader_take_append)

lemma read_u8_Cons [codec_simps]:
  "read_u8 (reader_at pre (b # post)) = Inr (b, reader_at (pre @ [b]) post)"
  by (simp add: read_u8_def reader_take_at)

lemma reader_varint_bits_at [codec_simps]:
  "unat v < 2 ^ bits \<Longrightarrow> 0 < bits \<Longrightarrow> bits \<le> 64 \<Longrightarrow>
    reader_varint_bits bits (reader_at pre (varint_bytes v @ post)) =
      Inr (v, reader_at (pre @ varint_bytes v) post)"
  by (simp add: reader_varint_bits_def reader_at_def read_varint_bits_bytes)

lemma reader_varint_at [codec_simps]:
  "reader_varint (reader_at pre (varint_bytes v @ post)) =
     Inr (v, reader_at (pre @ varint_bytes v) post)"
  using unat_bound [of v] by (simp add: reader_varint_def reader_varint_bits_at)

lemma read_len_at [codec_simps]:
  "n < 2 ^ 64 \<Longrightarrow> n \<le> limit \<Longrightarrow> n \<le> length post \<Longrightarrow>
    read_len limit what (reader_at pre (varint_bytes (word_of_nat n) @ post)) =
      Inr (n, reader_at (pre @ varint_bytes (word_of_nat n)) post)"
  by (simp add: read_len_def reader_varint_at Let_def)

lemma read_bytes_prefixed_at [codec_simps]:
  "length b < 2 ^ 64 \<Longrightarrow> length b \<le> limit \<Longrightarrow>
    read_bytes_prefixed limit what (reader_at pre (varint_bytes (word_of_nat (length b)) @ b @ post)) =
      Inr (b, reader_at (pre @ varint_bytes (word_of_nat (length b)) @ b) post)"
  by (simp add: read_bytes_prefixed_def read_len_at reader_take_append)

section \<open>The contract of a writer and its reader\<close>

locale codec =
  fixes wr :: "writer \<Rightarrow> 'a \<Rightarrow> writer"
    and rd :: "'a parser"
    and wf :: "'a \<Rightarrow> bool"
  assumes wr_append: "wr w x = w @ wr [] x"
    and rd_wr: "wf x \<Longrightarrow> rd (reader_at pre (wr [] x @ post)) = Inr (x, reader_at (pre @ wr [] x) post)"
begin

lemma prefix_free:
  assumes "wf x" "wf y" "wr [] x @ p = wr [] y @ q"
  shows "x = y \<and> p = q"
proof -
  have "rd (reader_at [] (wr [] x @ p)) = rd (reader_at [] (wr [] y @ q))"
    using assms(3) by simp
  then have "x = y" using rd_wr [OF assms(1), of "[]" p] rd_wr [OF assms(2), of "[]" q] by simp
  with assms(3) show ?thesis by simp
qed

lemma injective: "wf x \<Longrightarrow> wf y \<Longrightarrow> wr [] x = wr [] y \<Longrightarrow> x = y"
  using prefix_free [of x y "[]" "[]"] by simp

lemma foldl_wr_append: "foldl wr w xs = w @ foldl wr [] xs"
proof (induction xs arbitrary: w)
  case Nil
  then show ?case by simp
next
  case (Cons x xs)
  have "foldl wr (w @ wr [] x) xs = (w @ wr [] x) @ foldl wr [] xs" by (rule Cons)
  moreover have "foldl wr (wr [] x) xs = wr [] x @ foldl wr [] xs" by (rule Cons)
  ultimately show ?case by (simp add: wr_append [of w x])
qed

lemma foldl_wr_Cons: "foldl wr [] (x # xs) = wr [] x @ foldl wr [] xs"
  using foldl_wr_append [of "wr [] x" xs] by simp

lemma read_n_foldl:
  "(\<And>x. x \<in> set xs \<Longrightarrow> wf x) \<Longrightarrow>
    read_n rd (length xs) (reader_at pre (foldl wr [] xs @ post)) =
      Inr (xs, reader_at (pre @ foldl wr [] xs) post)"
proof (induction xs arbitrary: pre)
  case Nil
  then show ?case by simp
next
  case (Cons x xs)
  have "wf x" using Cons.prems by simp
  then show ?case
    using Cons.IH [of "pre @ wr [] x"] Cons.prems
    unfolding foldl_wr_Cons by (simp add: rd_wr)
qed

lemma read_n_exact:
  "(\<And>x. x \<in> set xs \<Longrightarrow> wf x) \<Longrightarrow> length xs = n \<Longrightarrow>
    read_n rd n (reader_at pre (foldl wr [] xs @ post)) = Inr (xs, reader_at (pre @ foldl wr [] xs) post)"
  using read_n_foldl [of xs pre post] by blast

lemma read_new: "wf x \<Longrightarrow> rd (reader_new (wr [] x @ post)) = Inr (x, reader_at (wr [] x) post)"
  using rd_wr [of x "[]" post] by (simp add: reader_new_at)

end

locale sized_codec = codec +
  assumes wr_nonempty: "wr [] x \<noteq> []"
begin

lemma length_foldl_wr: "length xs \<le> length (foldl wr [] xs)"
proof (induction xs)
  case Nil
  then show ?case by simp
next
  case (Cons x xs)
  have "1 \<le> length (wr [] x)" using wr_nonempty [of x] by (cases "wr [] x") auto
  with Cons show ?case unfolding foldl_wr_Cons by simp
qed

end

section \<open>The contract of a reader alone\<close>

locale safe_reader =
  fixes rd :: "'a parser"
  assumes stays: "rd_pos r \<le> length (rd_buf r) \<Longrightarrow> rd r = Inr (x, r') \<Longrightarrow>
    rd_buf r' = rd_buf r \<and> rd_pos r \<le> rd_pos r' \<and> rd_pos r' \<le> length (rd_buf r)"
begin

lemma new_in_blob:
  assumes "rd (reader_new b) = Inr (x, r)"
  shows "rd_buf r = b \<and> rd_pos r \<le> length b"
  using stays [OF _ assms] by (simp add: reader_new_def)

end

lemma safe_bind [safe_intros]:
  assumes m: "safe_reader m" and f: "\<And>x. safe_reader (f x)"
  shows "safe_reader (p_bind m f)"
proof
  fix r y r'
  assume r: "rd_pos r \<le> length (rd_buf r)" and "p_bind m f r = Inr (y, r')"
  then obtain x s where ms: "m r = Inr (x, s)" and fs: "f x s = Inr (y, r')" by auto
  from safe_reader.stays [OF m r ms] have s: "rd_buf s = rd_buf r" "rd_pos r \<le> rd_pos s"
    "rd_pos s \<le> length (rd_buf s)" by auto
  from safe_reader.stays [OF f s(3) fs] s
  show "rd_buf r' = rd_buf r \<and> rd_pos r \<le> rd_pos r' \<and> rd_pos r' \<le> length (rd_buf r)" by simp
qed

lemma safe_basic [safe_intros]:
  "safe_reader (p_return x)" "safe_reader (p_fail e)" "safe_reader p_remaining" "safe_reader reader_pos"
  by (unfold_locales; auto)+

lemma safe_if [safe_intros]:
  "(c \<Longrightarrow> safe_reader p) \<Longrightarrow> (\<not> c \<Longrightarrow> safe_reader q) \<Longrightarrow> safe_reader (if c then p else q)"
  by simp

lemma safe_take [safe_intros]: "safe_reader (reader_take n)"
  by unfold_locales (auto simp: reader_take_def Let_def split: if_splits)

lemma safe_array [safe_intros]: "safe_reader (read_array n)"
  unfolding read_array_def by (rule safe_take)

lemma read_varint_loop_len:
  "read_varint_loop bits input acc shift n = Inr r \<Longrightarrow> vr_len r \<le> n + length input"
  by (induction bits input acc shift n rule: read_varint_loop.induct)
    (auto simp: Let_def split: if_splits)

lemma safe_varint_bits [safe_intros]: "safe_reader (reader_varint_bits bits)"
proof
  fix r x r'
  assume r: "rd_pos r \<le> length (rd_buf r)" and "reader_varint_bits bits r = Inr (x, r')"
  then obtain v where v: "read_varint_bits (drop (rd_pos r) (rd_buf r)) bits = Inr v"
    and r': "r' = r\<lparr>rd_pos := rd_pos r + vr_len v\<rparr>"
    by (auto simp: reader_varint_bits_def)
  from v have "vr_len v \<le> length (drop (rd_pos r) (rd_buf r))"
    unfolding read_varint_bits_def using read_varint_loop_len by fastforce
  with r r' show "rd_buf r' = rd_buf r \<and> rd_pos r \<le> rd_pos r' \<and> rd_pos r' \<le> length (rd_buf r)"
    by simp
qed

lemma safe_primitives [safe_intros]:
  "safe_reader read_u8" "safe_reader read_u16_le" "safe_reader read_u32_le" "safe_reader read_u64_le"
  "safe_reader reader_varint" "safe_reader read_varint_u8" "safe_reader read_varint_u32"
  unfolding read_u8_def read_u16_le_def read_u32_le_def read_u64_le_def reader_varint_def
    read_varint_u8_def read_varint_u32_def
  by (intro safe_intros)+

lemma safe_len [safe_intros]: "safe_reader (read_len limit what)"
  unfolding read_len_def Let_def by (intro safe_intros)

lemma safe_bytes_prefixed [safe_intros]: "safe_reader (read_bytes_prefixed limit what)"
  unfolding read_bytes_prefixed_def by (intro safe_intros)

lemma safe_read_n [safe_intros]: "safe_reader p \<Longrightarrow> safe_reader (read_n p n)"
  by (induction n) (auto intro!: safe_intros)

interpretation varint_rd: safe_reader reader_varint
  by (intro safe_intros)

interpretation bytes_rd: safe_reader "read_bytes_prefixed limit what" for limit what
  by (intro safe_intros)

section \<open>The primitive codecs\<close>

interpretation varint_c: sized_codec writer_varint reader_varint "\<lambda>_. True"
  by unfold_locales (simp_all add: writer_defs reader_varint_at)

interpretation varint32_c: sized_codec writer_varint "reader_varint_bits 32" "\<lambda>v. unat v < 2 ^ 32"
  by unfold_locales (simp_all add: writer_defs reader_varint_bits_at)

interpretation u8_c: sized_codec write_u8 read_u8 "\<lambda>_. True"
  by unfold_locales (simp_all add: writer_defs read_u8_Cons)

interpretation u16_c: sized_codec write_u16_le read_u16_le "\<lambda>_. True"
  by unfold_locales (simp_all add: writer_defs read_u16_le_def read_array_append)

interpretation u32_c: sized_codec write_u32_le read_u32_le "\<lambda>_. True"
  by unfold_locales (simp_all add: writer_defs read_u32_le_def read_array_append)

interpretation u64_c: sized_codec write_u64_le read_u64_le "\<lambda>_. True"
  by unfold_locales (simp_all add: writer_defs read_u64_le_def read_array_append)

interpretation array_c: codec write_bytes "read_array n" "\<lambda>b. length b = n" for n
  by unfold_locales (simp_all add: write_bytes_def read_array_append)

interpretation bytes_c: sized_codec write_bytes_prefixed "read_bytes_prefixed limit what"
  "\<lambda>b. length b < 2 ^ 64 \<and> length b \<le> limit" for limit what
  by unfold_locales (simp_all add: write_bytes_prefixed_eq read_bytes_prefixed_at)

lemma foldl_write_bytes: "foldl write_bytes w xs = w @ concat xs"
  by (induction xs arbitrary: w) (simp_all add: write_bytes_def)

lemma read_n_array [codec_simps]:
  "(\<And>x. x \<in> set xs \<Longrightarrow> length x = k) \<Longrightarrow> length xs = n \<Longrightarrow>
    read_n (read_array k) n (reader_at pre (concat xs @ post)) = Inr (xs, reader_at (pre @ concat xs) post)"
  using array_c.read_n_foldl [of xs k pre post] by (auto simp: foldl_write_bytes)

end
