(* ===== verification/Rct.thy ===== *)
theory Rct
  imports Binary
begin

text \<open>
  RingCT signatures, \<open>crates/wow-types/src/rct.rs\<close>: the signature types, the proofs, and the
  two halves \<open>rctSigBase\<close> and \<open>rctSigPrunable\<close> with their readers and writers. Points and
  scalars are the 32-byte strings the wire carries.

  The lengths of most vectors are not on the wire: they come from \<open>(type, inputs, outputs,
  mixin)\<close>. The predicates \<open>wf_rct_base\<close> and \<open>wf_rct_prunable\<close> say which signature sets have
  the shape those numbers dictate, and the round trip holds for exactly them.
\<close>

section \<open>The signature types\<close>

datatype RctType =
    RctNull | RctFull | RctSimple | RctFullBulletproof | RctSimpleBulletproof | RctBulletproof
  | RctBulletproof2 | RctClsag | RctBulletproofPlus | RctBulletproofPlusFullCommit

definition RctType_from_u8 :: "u8 \<Rightarrow> RctType serial_result" where
  "RctType_from_u8 v =
     (if v = 0 then Inr RctNull
      else if v = 1 then Inr RctFull
      else if v = 2 then Inr RctSimple
      else if v = 3 then Inr RctFullBulletproof
      else if v = 4 then Inr RctSimpleBulletproof
      else if v = 5 then Inr RctBulletproof
      else if v = 6 then Inr RctBulletproof2
      else if v = 7 then Inr RctClsag
      else if v = 8 then Inr RctBulletproofPlus
      else if v = 9 then Inr RctBulletproofPlusFullCommit
      else Inl (InvalidValue ''unknown RCT type''))"

fun RctType_as_u8 :: "RctType \<Rightarrow> u8" where
  "RctType_as_u8 RctNull = 0"
| "RctType_as_u8 RctFull = 1"
| "RctType_as_u8 RctSimple = 2"
| "RctType_as_u8 RctFullBulletproof = 3"
| "RctType_as_u8 RctSimpleBulletproof = 4"
| "RctType_as_u8 RctBulletproof = 5"
| "RctType_as_u8 RctBulletproof2 = 6"
| "RctType_as_u8 RctClsag = 7"
| "RctType_as_u8 RctBulletproofPlus = 8"
| "RctType_as_u8 RctBulletproofPlusFullCommit = 9"

definition rct_is_null :: "RctType \<Rightarrow> bool" where
  "rct_is_null t \<longleftrightarrow> t = RctNull"

definition is_bulletproof :: "RctType \<Rightarrow> bool" where
  "is_bulletproof t \<longleftrightarrow>
     t \<in> {RctFullBulletproof, RctSimpleBulletproof, RctBulletproof, RctBulletproof2, RctClsag}"

definition is_bulletproof_plus :: "RctType \<Rightarrow> bool" where
  "is_bulletproof_plus t \<longleftrightarrow> t \<in> {RctBulletproofPlus, RctBulletproofPlusFullCommit}"

definition is_old_bulletproof :: "RctType \<Rightarrow> bool" where
  "is_old_bulletproof t \<longleftrightarrow> t \<in> {RctFullBulletproof, RctSimpleBulletproof}"

definition is_clsag :: "RctType \<Rightarrow> bool" where
  "is_clsag t \<longleftrightarrow> t \<in> {RctClsag, RctBulletproofPlus, RctBulletproofPlusFullCommit}"

definition is_bp_plus_legacy :: "RctType \<Rightarrow> bool" where
  "is_bp_plus_legacy t \<longleftrightarrow> t = RctBulletproofPlus"

definition has_short_ecdh :: "RctType \<Rightarrow> bool" where
  "has_short_ecdh t \<longleftrightarrow>
     t \<in> {RctBulletproof2, RctClsag, RctBulletproofPlus, RctBulletproofPlusFullCommit}"

definition has_prunable_pseudo_outs :: "RctType \<Rightarrow> bool" where
  "has_prunable_pseudo_outs t \<longleftrightarrow>
     t \<in> {RctSimpleBulletproof, RctBulletproof, RctBulletproof2, RctClsag, RctBulletproofPlus,
        RctBulletproofPlusFullCommit}"

definition mg_elements :: "RctType \<Rightarrow> usize \<Rightarrow> usize" where
  "mg_elements t inputs =
     (if t \<in> {RctSimple, RctBulletproof, RctBulletproof2, RctSimpleBulletproof} then inputs else 1)"

definition mg_ss2 :: "RctType \<Rightarrow> usize \<Rightarrow> usize" where
  "mg_ss2 t inputs =
     (if t \<in> {RctSimple, RctBulletproof, RctBulletproof2, RctSimpleBulletproof} then 2 else inputs + 1)"

section \<open>The proofs\<close>

type_synonym key32 = bytes

definition zero32 :: key32 where "zero32 = replicate 32 0"

record EcdhInfo =
  ecdh_mask :: key32
  ecdh_amount :: key32

record Bulletproof =
  bp_a :: key32
  bp_s :: key32
  bp_t1 :: key32
  bp_t2 :: key32
  bp_taux :: key32
  bp_mu :: key32
  bp_l :: "key32 list"
  bp_r :: "key32 list"
  bp_a_scalar :: key32
  bp_b :: key32
  bp_t :: key32

record BulletproofPlus =
  bpp_a :: key32
  bpp_a1 :: key32
  bpp_b :: key32
  bpp_r1 :: key32
  bpp_s1 :: key32
  bpp_d1 :: key32
  bpp_l :: "key32 list"
  bpp_r :: "key32 list"

text \<open>\<open>max_amounts\<close> of both kinds of proof, as a function of the length of \<open>L\<close>.\<close>

definition max_amounts :: "key32 list \<Rightarrow> usize option" where
  "max_amounts l =
     (if length l < 6 then None
      else let n = length l - 6 in if 64 \<le> n then None else Some (2 ^ n))"

record RangeSig =
  asig_s0 :: "key32 list"
  asig_s1 :: "key32 list"
  asig_ee :: key32
  rs_ci :: "key32 list"

record Clsag =
  clsag_s :: "key32 list"
  clsag_c1 :: key32
  clsag_d :: key32

record MgSig =
  mg_ss :: "key32 list list"
  mg_cc :: key32

record RctSignatures =
  rct_ty :: RctType
  txn_fee :: u64
  pseudo_outs_base :: "key32 list"
  ecdh_info :: "EcdhInfo list"
  out_pk :: "key32 list"
  range_sigs :: "RangeSig list"
  bulletproofs :: "Bulletproof list"
  bulletproofs_plus :: "BulletproofPlus list"
  mgs :: "MgSig list"
  clsags :: "Clsag list"
  pseudo_outs :: "key32 list"

definition RctSignatures_default :: "RctType \<Rightarrow> RctSignatures" where
  "RctSignatures_default t =
     \<lparr>rct_ty = t, txn_fee = 0, pseudo_outs_base = [], ecdh_info = [], out_pk = [], range_sigs = [],
      bulletproofs = [], bulletproofs_plus = [], mgs = [], clsags = [], pseudo_outs = []\<rparr>"

definition RctSignatures_null :: RctSignatures where
  "RctSignatures_null = RctSignatures_default RctNull"

section \<open>Reading and writing the proofs\<close>

definition read_point_vec :: "string \<Rightarrow> key32 list parser" where
  "read_point_vec what = p_bind p_remaining (\<lambda>rem.
     p_bind (read_len (rem div 32) what) (\<lambda>n. read_n (read_array 32) n))"

definition write_point_vec :: "writer \<Rightarrow> key32 list \<Rightarrow> writer" where
  "write_point_vec w v = foldl write_bytes (writer_varint w (word_of_nat (length v))) v"

definition read_bulletproof :: "Bulletproof parser" where
  "read_bulletproof =
     p_bind (read_array 32) (\<lambda>a. p_bind (read_array 32) (\<lambda>s.
     p_bind (read_array 32) (\<lambda>t1. p_bind (read_array 32) (\<lambda>t2.
     p_bind (read_array 32) (\<lambda>taux. p_bind (read_array 32) (\<lambda>mu.
     p_bind (read_point_vec ''bp.L'') (\<lambda>l. p_bind (read_point_vec ''bp.R'') (\<lambda>r.
     p_bind (read_array 32) (\<lambda>a_scalar. p_bind (read_array 32) (\<lambda>b. p_bind (read_array 32) (\<lambda>t.
     p_return \<lparr>bp_a = a, bp_s = s, bp_t1 = t1, bp_t2 = t2, bp_taux = taux, bp_mu = mu, bp_l = l,
       bp_r = r, bp_a_scalar = a_scalar, bp_b = b, bp_t = t\<rparr>)))))))))))"

definition write_bulletproof :: "writer \<Rightarrow> Bulletproof \<Rightarrow> writer" where
  "write_bulletproof w b =
     (let w = foldl write_bytes w [bp_a b, bp_s b, bp_t1 b, bp_t2 b, bp_taux b, bp_mu b];
          w = write_point_vec w (bp_l b);
          w = write_point_vec w (bp_r b)
      in foldl write_bytes w [bp_a_scalar b, bp_b b, bp_t b])"

definition read_bulletproof_plus :: "BulletproofPlus parser" where
  "read_bulletproof_plus =
     p_bind (read_array 32) (\<lambda>a. p_bind (read_array 32) (\<lambda>a1. p_bind (read_array 32) (\<lambda>b.
     p_bind (read_array 32) (\<lambda>r1. p_bind (read_array 32) (\<lambda>s1. p_bind (read_array 32) (\<lambda>d1.
     p_bind (read_point_vec ''bpp.L'') (\<lambda>l. p_bind (read_point_vec ''bpp.R'') (\<lambda>r.
     p_return \<lparr>bpp_a = a, bpp_a1 = a1, bpp_b = b, bpp_r1 = r1, bpp_s1 = s1, bpp_d1 = d1,
       bpp_l = l, bpp_r = r\<rparr>))))))))"

definition write_bulletproof_plus :: "writer \<Rightarrow> BulletproofPlus \<Rightarrow> writer" where
  "write_bulletproof_plus w b =
     (let w = foldl write_bytes w [bpp_a b, bpp_a1 b, bpp_b b, bpp_r1 b, bpp_s1 b, bpp_d1 b];
          w = write_point_vec w (bpp_l b)
      in write_point_vec w (bpp_r b))"

definition read_range_sig :: "RangeSig parser" where
  "read_range_sig =
     p_bind (read_n (read_array 32) 64) (\<lambda>s0. p_bind (read_n (read_array 32) 64) (\<lambda>s1.
     p_bind (read_array 32) (\<lambda>ee. p_bind (read_n (read_array 32) 64) (\<lambda>ci.
     p_return \<lparr>asig_s0 = s0, asig_s1 = s1, asig_ee = ee, rs_ci = ci\<rparr>))))"

definition write_range_sig :: "writer \<Rightarrow> RangeSig \<Rightarrow> writer" where
  "write_range_sig w rs =
     (let w = foldl write_bytes w (asig_s0 rs);
          w = foldl write_bytes w (asig_s1 rs);
          w = write_bytes w (asig_ee rs)
      in foldl write_bytes w (rs_ci rs))"

text \<open>The bodies of the loops over the ring signatures.\<close>

definition read_clsag :: "usize \<Rightarrow> Clsag parser" where
  "read_clsag mixin =
     p_bind (read_n (read_array 32) (mixin + 1)) (\<lambda>s. p_bind (read_array 32) (\<lambda>c1.
     p_bind (read_array 32) (\<lambda>d. p_return \<lparr>clsag_s = s, clsag_c1 = c1, clsag_d = d\<rparr>)))"

definition write_clsag :: "writer \<Rightarrow> Clsag \<Rightarrow> writer" where
  "write_clsag w c = write_bytes (write_bytes (foldl write_bytes w (clsag_s c)) (clsag_c1 c)) (clsag_d c)"

definition read_mg :: "usize \<Rightarrow> usize \<Rightarrow> MgSig parser" where
  "read_mg ss2 mixin =
     p_bind (read_n (read_n (read_array 32) ss2) (mixin + 1)) (\<lambda>ss. p_bind (read_array 32) (\<lambda>cc.
     p_return \<lparr>mg_ss = ss, mg_cc = cc\<rparr>))"

definition write_mg :: "writer \<Rightarrow> MgSig \<Rightarrow> writer" where
  "write_mg w m = write_bytes (foldl (foldl write_bytes) w (mg_ss m)) (mg_cc m)"

section \<open>The base half\<close>

definition read_ecdh :: "RctType \<Rightarrow> EcdhInfo parser" where
  "read_ecdh ty =
     (if has_short_ecdh ty then
        p_bind (read_array 8) (\<lambda>a. p_return \<lparr>ecdh_mask = zero32, ecdh_amount = a @ drop 8 zero32\<rparr>)
      else
        p_bind (read_array 32) (\<lambda>m. p_bind (read_array 32) (\<lambda>a.
          p_return \<lparr>ecdh_mask = m, ecdh_amount = a\<rparr>)))"

definition write_ecdh :: "RctType \<Rightarrow> writer \<Rightarrow> EcdhInfo \<Rightarrow> writer" where
  "write_ecdh ty w e =
     (if has_short_ecdh ty then write_bytes w (take 8 (ecdh_amount e))
      else write_bytes (write_bytes w (ecdh_mask e)) (ecdh_amount e))"

definition read_base :: "usize \<Rightarrow> usize \<Rightarrow> RctSignatures parser" where
  "read_base inputs outputs = p_bind read_u8 (\<lambda>b.
     case RctType_from_u8 b of Inl e \<Rightarrow> p_fail e | Inr ty \<Rightarrow>
       let rv = RctSignatures_default ty in
       if rct_is_null ty then p_return rv
       else
         p_bind reader_varint (\<lambda>fee.
         p_bind (if ty = RctSimple then read_n (read_array 32) inputs else p_return []) (\<lambda>pob.
         p_bind (read_n (read_ecdh ty) outputs) (\<lambda>ecdh.
         p_bind (read_n (read_array 32) outputs) (\<lambda>pk.
         p_return (rv\<lparr>txn_fee := fee, pseudo_outs_base := pob, ecdh_info := ecdh, out_pk := pk\<rparr>))))))"

definition write_base :: "writer \<Rightarrow> RctSignatures \<Rightarrow> writer" where
  "write_base w rv =
     (let w = write_u8 w (RctType_as_u8 (rct_ty rv)) in
      if rct_is_null (rct_ty rv) then w
      else
        let w = writer_varint w (txn_fee rv);
            w = (if rct_ty rv = RctSimple then foldl write_bytes w (pseudo_outs_base rv) else w);
            w = foldl (write_ecdh (rct_ty rv)) w (ecdh_info rv)
        in foldl write_bytes w (out_pk rv))"

section \<open>The prunable half\<close>

text \<open>The sum of \<open>max_amounts\<close> is a \<open>usize\<close> sum, so it wraps at \<open>2 ^ 64\<close>.\<close>

definition total_max_amounts :: "key32 list list \<Rightarrow> usize" where
  "total_max_amounts ls =
     sum_list (map (\<lambda>l. case max_amounts l of None \<Rightarrow> 0 | Some n \<Rightarrow> n) ls) mod 2 ^ 64"

definition read_range_proofs :: "RctSignatures \<Rightarrow> usize \<Rightarrow> RctSignatures parser" where
  "read_range_proofs rv outputs =
     (let ty = rct_ty rv in
      if ty = RctSimpleBulletproof \<or> ty = RctFullBulletproof then
        p_bind (read_n read_bulletproof outputs) (\<lambda>bs.
          p_return (rv\<lparr>bulletproofs := bulletproofs rv @ bs\<rparr>))
      else if ty = RctBulletproofPlus \<or> ty = RctBulletproofPlusFullCommit then
        p_bind (reader_varint_bits 32) (\<lambda>nbp.
          let nbp = unat nbp in
          if outputs < nbp then p_fail (LimitExceeded ''nbp > outputs'')
          else p_bind (read_n read_bulletproof_plus nbp) (\<lambda>bs.
            let rv = rv\<lparr>bulletproofs_plus := bulletproofs_plus rv @ bs\<rparr> in
            if total_max_amounts (map bpp_l (bulletproofs_plus rv)) < outputs
            then p_fail (LimitExceeded ''n_bulletproof_plus_max_amounts < outputs'')
            else p_return rv))
      else if ty = RctBulletproof \<or> ty = RctBulletproof2 \<or> ty = RctClsag then
        p_bind (if ty = RctBulletproof then p_bind read_u32_le (\<lambda>n. p_return (ucast n :: u64))
                else reader_varint_bits 32) (\<lambda>nbp.
          let nbp = unat nbp in
          if outputs < nbp then p_fail (LimitExceeded ''nbp > outputs'')
          else p_bind (read_n read_bulletproof nbp) (\<lambda>bs.
            let rv = rv\<lparr>bulletproofs := bulletproofs rv @ bs\<rparr> in
            if total_max_amounts (map bp_l (bulletproofs rv)) < outputs
            then p_fail (LimitExceeded ''n_bulletproof_max_amounts < outputs'')
            else p_return rv))
      else if ty = RctFull \<or> ty = RctSimple then
        p_bind (read_n read_range_sig outputs) (\<lambda>rs.
          p_return (rv\<lparr>range_sigs := range_sigs rv @ rs\<rparr>))
      else p_return rv)"

definition read_ring_sigs :: "RctSignatures \<Rightarrow> usize \<Rightarrow> usize \<Rightarrow> RctSignatures parser" where
  "read_ring_sigs rv inputs mixin =
     (if is_clsag (rct_ty rv) then
        p_bind (read_n (read_clsag mixin) inputs) (\<lambda>cs. p_return (rv\<lparr>clsags := clsags rv @ cs\<rparr>))
      else if \<not> rct_is_null (rct_ty rv) then
        p_bind (read_n (read_mg (mg_ss2 (rct_ty rv) inputs) mixin) (mg_elements (rct_ty rv) inputs)) (\<lambda>ms.
          p_return (rv\<lparr>mgs := mgs rv @ ms\<rparr>))
      else p_return rv)"

definition read_prunable :: "RctSignatures \<Rightarrow> usize \<Rightarrow> usize \<Rightarrow> usize \<Rightarrow> RctSignatures parser" where
  "read_prunable rv inputs outputs mixin =
     p_bind (read_range_proofs rv outputs) (\<lambda>rv.
     p_bind (read_ring_sigs rv inputs mixin) (\<lambda>rv.
       if has_prunable_pseudo_outs (rct_ty rv) then
         p_bind (read_n (read_array 32) inputs) (\<lambda>ps.
           p_return (rv\<lparr>pseudo_outs := pseudo_outs rv @ ps\<rparr>))
       else p_return rv))"

definition write_range_proofs :: "writer \<Rightarrow> RctSignatures \<Rightarrow> writer" where
  "write_range_proofs w rv =
     (let ty = rct_ty rv in
      if ty = RctSimpleBulletproof \<or> ty = RctFullBulletproof then
        foldl write_bulletproof w (bulletproofs rv)
      else if ty = RctBulletproofPlus \<or> ty = RctBulletproofPlusFullCommit then
        foldl write_bulletproof_plus (writer_varint w (word_of_nat (length (bulletproofs_plus rv))))
          (bulletproofs_plus rv)
      else if ty = RctBulletproof then
        foldl write_bulletproof (write_u32_le w (word_of_nat (length (bulletproofs rv)))) (bulletproofs rv)
      else if ty = RctBulletproof2 \<or> ty = RctClsag then
        foldl write_bulletproof (writer_varint w (word_of_nat (length (bulletproofs rv)))) (bulletproofs rv)
      else if ty = RctFull \<or> ty = RctSimple then foldl write_range_sig w (range_sigs rv)
      else w)"

definition write_prunable :: "writer \<Rightarrow> RctSignatures \<Rightarrow> writer" where
  "write_prunable w rv =
     (if rct_is_null (rct_ty rv) then w
      else
        let w = write_range_proofs w rv;
            w = (if is_clsag (rct_ty rv) then foldl write_clsag w (clsags rv) else foldl write_mg w (mgs rv))
        in if has_prunable_pseudo_outs (rct_ty rv) then foldl write_bytes w (pseudo_outs rv) else w)"

definition effective_pseudo_outs :: "RctSignatures \<Rightarrow> key32 list" where
  "effective_pseudo_outs rv = (if rct_ty rv = RctSimple then pseudo_outs_base rv else pseudo_outs rv)"

text \<open>\<open>try_fold(0usize, |a, b| a.checked_add(b.max_amounts()?))\<close>\<close>

fun fold_max_amounts :: "usize \<Rightarrow> key32 list list \<Rightarrow> usize option" where
  "fold_max_amounts a [] = Some a"
| "fold_max_amounts a (l # ls) =
     (case max_amounts l of None \<Rightarrow> None
      | Some m \<Rightarrow> if a + m < 2 ^ 64 then fold_max_amounts (a + m) ls else None)"

definition n_padded_outputs :: "RctSignatures \<Rightarrow> usize option" where
  "n_padded_outputs rv =
     (if is_bulletproof_plus (rct_ty rv) then fold_max_amounts 0 (map bpp_l (bulletproofs_plus rv))
      else if is_bulletproof (rct_ty rv) then fold_max_amounts 0 (map bp_l (bulletproofs rv))
      else None)"

section \<open>Well-formed proofs\<close>

definition keys32 :: "key32 list \<Rightarrow> bool" where
  "keys32 ks \<longleftrightarrow> (\<forall>k \<in> set ks. length k = 32)"

definition wf_bulletproof :: "Bulletproof \<Rightarrow> bool" where
  "wf_bulletproof b \<longleftrightarrow>
     keys32 [bp_a b, bp_s b, bp_t1 b, bp_t2 b, bp_taux b, bp_mu b, bp_a_scalar b, bp_b b, bp_t b] \<and>
     keys32 (bp_l b) \<and> keys32 (bp_r b) \<and> length (bp_l b) < 2 ^ 64 \<and> length (bp_r b) < 2 ^ 64"

definition wf_bulletproof_plus :: "BulletproofPlus \<Rightarrow> bool" where
  "wf_bulletproof_plus b \<longleftrightarrow>
     keys32 [bpp_a b, bpp_a1 b, bpp_b b, bpp_r1 b, bpp_s1 b, bpp_d1 b] \<and>
     keys32 (bpp_l b) \<and> keys32 (bpp_r b) \<and> length (bpp_l b) < 2 ^ 64 \<and> length (bpp_r b) < 2 ^ 64"

definition wf_range_sig :: "RangeSig \<Rightarrow> bool" where
  "wf_range_sig rs \<longleftrightarrow>
     keys32 (asig_s0 rs) \<and> length (asig_s0 rs) = 64 \<and> keys32 (asig_s1 rs) \<and> length (asig_s1 rs) = 64 \<and>
     length (asig_ee rs) = 32 \<and> keys32 (rs_ci rs) \<and> length (rs_ci rs) = 64"

definition wf_clsag :: "usize \<Rightarrow> Clsag \<Rightarrow> bool" where
  "wf_clsag mixin c \<longleftrightarrow>
     keys32 (clsag_s c) \<and> length (clsag_s c) = mixin + 1 \<and> length (clsag_c1 c) = 32 \<and> length (clsag_d c) = 32"

definition wf_mg :: "usize \<Rightarrow> usize \<Rightarrow> MgSig \<Rightarrow> bool" where
  "wf_mg ss2 mixin m \<longleftrightarrow>
     (\<forall>row \<in> set (mg_ss m). keys32 row \<and> length row = ss2) \<and> length (mg_ss m) = mixin + 1 \<and>
     length (mg_cc m) = 32"

definition wf_ecdh :: "RctType \<Rightarrow> EcdhInfo \<Rightarrow> bool" where
  "wf_ecdh ty e \<longleftrightarrow>
     length (ecdh_mask e) = 32 \<and> length (ecdh_amount e) = 32 \<and>
     (has_short_ecdh ty \<longrightarrow> ecdh_mask e = zero32 \<and> drop 8 (ecdh_amount e) = drop 8 zero32)"

section \<open>The proofs round-trip\<close>

lemma read_n_keys [codec_simps]:
  "keys32 ks \<Longrightarrow> length ks = n \<Longrightarrow>
    read_n (read_array 32) n (reader_at pre (concat ks @ post)) = Inr (ks, reader_at (pre @ concat ks) post)"
  by (rule read_n_array) (auto simp: keys32_def)

lemma write_point_vec_eq:
  "write_point_vec w v = w @ varint_bytes (word_of_nat (length v)) @ concat v"
  by (simp add: write_point_vec_def foldl_write_bytes writer_defs)

lemma read_point_vec_at [codec_simps]:
  assumes "keys32 v" "length v < 2 ^ 64"
  shows "read_point_vec what (reader_at pre (varint_bytes (word_of_nat (length v)) @ concat v @ post)) =
    Inr (v, reader_at (pre @ varint_bytes (word_of_nat (length v)) @ concat v) post)"
proof -
  have "length (concat v) = 32 * length v"
    by (rule length_concat_const) (use assms in \<open>auto simp: keys32_def\<close>)
  then show ?thesis using assms
    by (simp add: read_point_vec_def read_len_at read_n_keys)
qed

lemma safe_point_vec [safe_intros]: "safe_reader (read_point_vec what)"
  unfolding read_point_vec_def by (intro safe_intros)

interpretation point_vec_c: sized_codec write_point_vec "read_point_vec what"
  "\<lambda>v. keys32 v \<and> length v < 2 ^ 64" for what
  by unfold_locales (simp_all add: write_point_vec_eq read_point_vec_at)

interpretation bulletproof_c: codec write_bulletproof read_bulletproof wf_bulletproof
  by unfold_locales
    (simp_all add: write_bulletproof_def read_bulletproof_def wf_bulletproof_def keys32_def [of "_ # _"]
      write_bytes_def write_point_vec_eq read_array_append read_point_vec_at)

interpretation bulletproof_plus_c: codec write_bulletproof_plus read_bulletproof_plus wf_bulletproof_plus
  by unfold_locales
    (simp_all add: write_bulletproof_plus_def read_bulletproof_plus_def wf_bulletproof_plus_def
      keys32_def [of "_ # _"] write_bytes_def write_point_vec_eq read_array_append read_point_vec_at)

interpretation range_sig_c: codec write_range_sig read_range_sig wf_range_sig
  by unfold_locales
    (simp_all add: write_range_sig_def read_range_sig_def wf_range_sig_def foldl_write_bytes
      write_bytes_def read_array_append read_n_keys)

interpretation clsag_c: codec write_clsag "read_clsag mixin" "wf_clsag mixin" for mixin
  by unfold_locales
    (simp_all add: write_clsag_def read_clsag_def wf_clsag_def foldl_write_bytes write_bytes_def
      read_array_append read_n_keys del: read_n.simps)

interpretation row_c: codec "foldl write_bytes" "read_n (read_array 32) n"
  "\<lambda>ks. keys32 ks \<and> length ks = n" for n
  by unfold_locales (simp_all add: foldl_write_bytes read_n_keys)

interpretation mg_c: codec write_mg "read_mg ss2 mixin" "wf_mg ss2 mixin" for ss2 mixin
proof unfold_locales
  fix w :: writer and m
  show "write_mg w m = w @ write_mg [] m"
    by (simp add: write_mg_def write_bytes_def row_c.foldl_wr_append [of w])
next
  fix m pre post
  assume m: "wf_mg ss2 mixin m"
  then have rows: "\<And>row. row \<in> set (mg_ss m) \<Longrightarrow> keys32 row \<and> length row = ss2"
    and len: "length (mg_ss m) = mixin + 1" and cc: "length (mg_cc m) = 32"
    by (auto simp: wf_mg_def)
  show "read_mg ss2 mixin (reader_at pre (write_mg [] m @ post)) =
      Inr (m, reader_at (pre @ write_mg [] m) post)"
    using row_c.read_n_foldl [of "mg_ss m" ss2 pre, OF rows] cc unfolding len
    by (simp add: read_mg_def write_mg_def write_bytes_def read_array_append del: read_n.simps)
qed

interpretation ecdh_c: codec "write_ecdh ty" "read_ecdh ty" "wf_ecdh ty" for ty
proof unfold_locales
  fix w :: writer and e
  show "write_ecdh ty w e = w @ write_ecdh ty [] e" by (simp add: write_ecdh_def write_bytes_def)
next
  fix e pre post
  assume e: "wf_ecdh ty e"
  have "has_short_ecdh ty \<Longrightarrow> take 8 (ecdh_amount e) @ drop 8 zero32 = ecdh_amount e"
    using e append_take_drop_id [of 8 "ecdh_amount e"] by (simp add: wf_ecdh_def)
  with e show "read_ecdh ty (reader_at pre (write_ecdh ty [] e @ post)) =
      Inr (e, reader_at (pre @ write_ecdh ty [] e) post)"
    by (cases "has_short_ecdh ty")
      (auto simp: read_ecdh_def write_ecdh_def wf_ecdh_def write_bytes_def read_array_append)
qed

section \<open>The two halves round-trip\<close>

definition rct_base_of :: "RctSignatures \<Rightarrow> RctSignatures" where
  "rct_base_of rv = rv\<lparr>range_sigs := [], bulletproofs := [], bulletproofs_plus := [], mgs := [],
     clsags := [], pseudo_outs := []\<rparr>"

definition wf_rct_base :: "usize \<Rightarrow> usize \<Rightarrow> RctSignatures \<Rightarrow> bool" where
  "wf_rct_base inputs outputs rv \<longleftrightarrow>
     rct_base_of rv = rv \<and>
     (if rct_is_null (rct_ty rv) then rv = RctSignatures_null
      else (if rct_ty rv = RctSimple then keys32 (pseudo_outs_base rv) \<and> length (pseudo_outs_base rv) = inputs
            else pseudo_outs_base rv = []) \<and>
        (\<forall>e \<in> set (ecdh_info rv). wf_ecdh (rct_ty rv) e) \<and> length (ecdh_info rv) = outputs \<and>
        keys32 (out_pk rv) \<and> length (out_pk rv) = outputs)"

text \<open>The proofs a type carries, and the vectors it leaves empty.\<close>

definition wf_range_proofs :: "usize \<Rightarrow> RctSignatures \<Rightarrow> bool" where
  "wf_range_proofs outputs rv \<longleftrightarrow>
     (let ty = rct_ty rv in
      (if ty = RctSimpleBulletproof \<or> ty = RctFullBulletproof
         then (\<forall>b \<in> set (bulletproofs rv). wf_bulletproof b) \<and> length (bulletproofs rv) = outputs
       else if ty = RctBulletproof \<or> ty = RctBulletproof2 \<or> ty = RctClsag
         then (\<forall>b \<in> set (bulletproofs rv). wf_bulletproof b) \<and> length (bulletproofs rv) \<le> outputs \<and>
           length (bulletproofs rv) < 2 ^ 32 \<and> outputs \<le> total_max_amounts (map bp_l (bulletproofs rv))
       else bulletproofs rv = []) \<and>
      (if is_bulletproof_plus ty
         then (\<forall>b \<in> set (bulletproofs_plus rv). wf_bulletproof_plus b) \<and>
           length (bulletproofs_plus rv) \<le> outputs \<and> length (bulletproofs_plus rv) < 2 ^ 32 \<and>
           outputs \<le> total_max_amounts (map bpp_l (bulletproofs_plus rv))
       else bulletproofs_plus rv = []) \<and>
      (if ty = RctFull \<or> ty = RctSimple
         then (\<forall>s \<in> set (range_sigs rv). wf_range_sig s) \<and> length (range_sigs rv) = outputs
       else range_sigs rv = []))"

definition wf_rct_prunable :: "usize \<Rightarrow> usize \<Rightarrow> usize \<Rightarrow> RctSignatures \<Rightarrow> bool" where
  "wf_rct_prunable inputs outputs mixin rv \<longleftrightarrow>
     \<not> rct_is_null (rct_ty rv) \<and> wf_range_proofs outputs rv \<and>
     (if is_clsag (rct_ty rv) then (\<forall>c \<in> set (clsags rv). wf_clsag mixin c) \<and> length (clsags rv) = inputs
      else clsags rv = []) \<and>
     (if is_clsag (rct_ty rv) then mgs rv = []
      else (\<forall>m \<in> set (mgs rv). wf_mg (mg_ss2 (rct_ty rv) inputs) mixin m) \<and>
        length (mgs rv) = mg_elements (rct_ty rv) inputs) \<and>
     (if has_prunable_pseudo_outs (rct_ty rv) then keys32 (pseudo_outs rv) \<and> length (pseudo_outs rv) = inputs
      else pseudo_outs rv = [])"

lemma RctType_u8_roundtrip [simp]: "RctType_from_u8 (RctType_as_u8 t) = Inr t"
  by (cases t) (simp_all add: RctType_from_u8_def)

lemma write_base_prunable_free: "write_base w (rct_base_of rv) = write_base w rv"
  by (simp add: write_base_def rct_base_of_def Let_def)

interpretation rct_base_c: sized_codec write_base "read_base inputs outputs" "wf_rct_base inputs outputs"
  for inputs outputs
proof unfold_locales
  fix w :: writer and rv
  have f: "foldl (write_ecdh ty) (w @ x) es = w @ foldl (write_ecdh ty) x es" for ty w x es
    using ecdh_c.foldl_wr_append [of ty "w @ x" es] ecdh_c.foldl_wr_append [of ty x es] by simp
  show "write_base w rv = w @ write_base [] rv"
    using f [of _ w] f [of _ "[]"] by (simp add: write_base_def Let_def writer_defs foldl_write_bytes f)
  have "foldl (write_ecdh ty) (b # x) es \<noteq> []" for ty b x es
    using f [of ty "[b]" x es] by simp
  then show "write_base [] rv \<noteq> []"
    by (simp add: write_base_def Let_def writer_defs foldl_write_bytes)
next
  fix rv pre post
  assume rv: "wf_rct_base inputs outputs rv"
  let ?ty = "rct_ty rv"
  let ?e = "foldl (write_ecdh ?ty) [] (ecdh_info rv)"
  show "read_base inputs outputs (reader_at pre (write_base [] rv @ post)) =
      Inr (rv, reader_at (pre @ write_base [] rv) post)"
  proof (cases "rct_is_null ?ty")
    case True
    have z: "RctType_from_u8 0 = Inr RctNull" by (simp add: RctType_from_u8_def)
    have t: "rct_ty rv = RctNull" and d: "rv = RctSignatures_default RctNull"
      using rv True by (simp_all add: wf_rct_base_def RctSignatures_null_def rct_is_null_def)
    have w: "write_base [] rv = [0]" by (simp add: write_base_def t rct_is_null_def write_u8_def)
    show ?thesis unfolding w
      by (simp add: read_base_def read_u8_Cons z rct_is_null_def d)
  next
    case False
    let ?p = "if ?ty = RctSimple then concat (pseudo_outs_base rv) else []"
    have bytes: "write_base [] rv = RctType_as_u8 ?ty # varint_bytes (txn_fee rv) @ ?p @ ?e @ concat (out_pk rv)"
      using False by (simp add: write_base_def Let_def writer_defs foldl_write_bytes
          ecdh_c.foldl_wr_append [of _ "_ # _" "ecdh_info rv"])
    have pob: "(if ?ty = RctSimple then read_n (read_array 32) inputs else p_return [])
        (reader_at pre' (?p @ post')) = Inr (pseudo_outs_base rv, reader_at (pre' @ ?p) post')" for pre' post'
      using rv False by (simp add: wf_rct_base_def read_n_keys split: if_splits)
    have ecdh: "read_n (read_ecdh ?ty) outputs (reader_at pre' (?e @ post')) =
        Inr (ecdh_info rv, reader_at (pre' @ ?e) post')" for pre' post'
      using rv False ecdh_c.read_n_foldl [of "ecdh_info rv" ?ty pre' post']
      by (simp add: wf_rct_base_def)
    have rec: "RctSignatures_default ?ty\<lparr>txn_fee := txn_fee rv, pseudo_outs_base := pseudo_outs_base rv,
        ecdh_info := ecdh_info rv, out_pk := out_pk rv\<rparr> = rct_base_of rv"
      by (simp add: RctSignatures_default_def rct_base_of_def)
    have pk: "keys32 (out_pk rv)" "length (out_pk rv) = outputs" and b: "rct_base_of rv = rv"
      using rv False by (simp_all add: wf_rct_base_def)
    show ?thesis
      unfolding bytes using False
      by (simp add: read_base_def read_u8_Cons Let_def reader_varint_at pob ecdh read_n_keys pk rec b
          del: if_split)
  qed
qed


lemma unat_word_of_nat_small: "n < 2 ^ 32 \<Longrightarrow> unat (word_of_nat n :: u64) = n"
  by (simp add: unat_of_nat)

lemma read_count32_at [codec_simps]:
  "n < 2 ^ 32 \<Longrightarrow> reader_varint_bits 32 (reader_at pre (varint_bytes (word_of_nat n) @ post)) =
     Inr (word_of_nat n, reader_at (pre @ varint_bytes (word_of_nat n)) post)"
  by (rule reader_varint_bits_at) (simp_all add: unat_word_of_nat_small)

lemma read_u32_le_at [codec_simps]:
  "read_u32_le (reader_at pre (u32_to_le_bytes v @ post)) = Inr (v, reader_at (pre @ u32_to_le_bytes v) post)"
  using u32_c.rd_wr [where x = v and pre = pre and post = post] by (simp add: write_u32_le_def)

lemma ucast_count32: "n < 2 ^ 32 \<Longrightarrow> unat (ucast (word_of_nat n :: u32) :: u64) = n"
  by (simp add: unat_ucast_mod unat_of_nat)

lemmas foldl_proofs_append =
  bulletproof_c.foldl_wr_append [of "_ @ _"] bulletproof_plus_c.foldl_wr_append [of "_ @ _"]
  bulletproof_c.foldl_wr_append [of "varint_bytes _"] bulletproof_plus_c.foldl_wr_append [of "varint_bytes _"]
  bulletproof_c.foldl_wr_append [of "u32_to_le_bytes _"]

lemma write_range_proofs_append: "write_range_proofs w rv = w @ write_range_proofs [] rv"
  using bulletproof_c.foldl_wr_append [of w] range_sig_c.foldl_wr_append [of w]
  by (simp add: write_range_proofs_def Let_def writer_defs foldl_proofs_append)

lemma read_range_proofs_at [codec_simps]:
  assumes "wf_range_proofs outputs rv" "\<not> rct_is_null (rct_ty rv)"
  shows "read_range_proofs (rct_base_of rv) outputs (reader_at pre (write_range_proofs [] rv @ post)) =
    Inr (rv\<lparr>mgs := [], clsags := [], pseudo_outs := []\<rparr>, reader_at (pre @ write_range_proofs [] rv) post)"
proof -
  note bp = bulletproof_c.read_n_exact [of "bulletproofs rv"]
  note bpp = bulletproof_plus_c.read_n_exact [of "bulletproofs_plus rv"]
  note rs = range_sig_c.read_n_exact [of "range_sigs rv"]
  show ?thesis
    using assms
    by (cases "rct_ty rv")
      (simp_all add: wf_range_proofs_def write_range_proofs_def read_range_proofs_def rct_base_of_def
        Let_def rct_is_null_def is_bulletproof_plus_def writer_defs foldl_proofs_append
        bp bpp rs read_count32_at unat_word_of_nat_small read_u32_le_at ucast_count32)
qed

lemma read_ring_sigs_at [codec_simps]:
  assumes "wf_rct_prunable inputs outputs mixin rv"
  defines "bytes \<equiv> if is_clsag (rct_ty rv) then foldl write_clsag [] (clsags rv) else foldl write_mg [] (mgs rv)"
  shows "read_ring_sigs (rv\<lparr>mgs := [], clsags := [], pseudo_outs := []\<rparr>) inputs mixin
      (reader_at pre (bytes @ post)) = Inr (rv\<lparr>pseudo_outs := []\<rparr>, reader_at (pre @ bytes) post)"
proof (cases "is_clsag (rct_ty rv)")
  case True
  then have c: "\<And>c. c \<in> set (clsags rv) \<Longrightarrow> wf_clsag mixin c" "length (clsags rv) = inputs" "mgs rv = []"
    using assms(1) by (auto simp: wf_rct_prunable_def)
  show ?thesis using True c(3) clsag_c.read_n_foldl [of "clsags rv" mixin pre post, OF c(1)] c(2)
    by (simp add: read_ring_sigs_def bytes_def)
next
  case False
  then have m: "\<And>m. m \<in> set (mgs rv) \<Longrightarrow> wf_mg (mg_ss2 (rct_ty rv) inputs) mixin m"
    "length (mgs rv) = mg_elements (rct_ty rv) inputs" "clsags rv = []" "\<not> rct_is_null (rct_ty rv)"
    using assms(1) by (auto simp: wf_rct_prunable_def)
  show ?thesis
    using False m(3,4) mg_c.read_n_foldl [of "mgs rv" "mg_ss2 (rct_ty rv) inputs" mixin pre post, OF m(1)] m(2)
    by (simp add: read_ring_sigs_def bytes_def)
qed

lemma write_prunable_eq:
  assumes "\<not> rct_is_null (rct_ty rv)"
  shows "write_prunable w rv = w @ write_range_proofs [] rv @
    (if is_clsag (rct_ty rv) then foldl write_clsag [] (clsags rv) else foldl write_mg [] (mgs rv)) @
    (if has_prunable_pseudo_outs (rct_ty rv) then concat (pseudo_outs rv) else [])"
  using assms write_range_proofs_append [of w rv] clsag_c.foldl_wr_append [of "w @ write_range_proofs [] rv"]
    mg_c.foldl_wr_append [of "w @ write_range_proofs [] rv"]
  by (simp add: write_prunable_def Let_def foldl_write_bytes)

lemma read_prunable_at [codec_simps]:
  assumes rv: "wf_rct_prunable inputs outputs mixin rv"
  shows "read_prunable (rct_base_of rv) inputs outputs mixin (reader_at pre (write_prunable [] rv @ post)) =
    Inr (rv, reader_at (pre @ write_prunable [] rv) post)"
proof -
  have n: "\<not> rct_is_null (rct_ty rv)" and w: "wf_range_proofs outputs rv"
    and ps: "has_prunable_pseudo_outs (rct_ty rv) \<Longrightarrow> keys32 (pseudo_outs rv) \<and> length (pseudo_outs rv) = inputs"
      "\<not> has_prunable_pseudo_outs (rct_ty rv) \<Longrightarrow> pseudo_outs rv = []"
    using rv by (auto simp: wf_rct_prunable_def split: if_splits)
  let ?b = "if is_clsag (rct_ty rv) then foldl write_clsag [] (clsags rv) else foldl write_mg [] (mgs rv)"
  note rs = read_ring_sigs_at [OF rv]
  show ?thesis
    unfolding write_prunable_eq [OF n]
    by (cases "has_prunable_pseudo_outs (rct_ty rv)")
      (simp_all add: read_prunable_def read_range_proofs_at [OF w n] rs ps read_n_keys del: if_split)
qed


section \<open>The readers stay inside the blob\<close>

lemma safe_case_sum [safe_intros]:
  "(\<And>e. safe_reader (f e)) \<Longrightarrow> (\<And>x. safe_reader (g x)) \<Longrightarrow> safe_reader (case m of Inl e \<Rightarrow> f e | Inr x \<Rightarrow> g x)"
  by (cases m) auto

lemma safe_proofs [safe_intros]:
  "safe_reader read_bulletproof" "safe_reader read_bulletproof_plus" "safe_reader read_range_sig"
  "safe_reader (read_clsag mixin)" "safe_reader (read_mg ss2 mixin)" "safe_reader (read_ecdh ty)"
  unfolding read_bulletproof_def read_bulletproof_plus_def read_range_sig_def read_clsag_def read_mg_def
    read_ecdh_def
  by (intro safe_intros)+

interpretation rct_base_rd: safe_reader "read_base inputs outputs" for inputs outputs
  unfolding read_base_def Let_def by (intro safe_intros)

lemma safe_read_base [safe_intros]: "safe_reader (read_base inputs outputs)"
  by (rule rct_base_rd.safe_reader_axioms)

interpretation rct_prunable_rd: safe_reader "read_prunable rv inputs outputs mixin" for rv inputs outputs mixin
  unfolding read_prunable_def read_range_proofs_def read_ring_sigs_def Let_def by (intro safe_intros)

lemma safe_read_prunable [safe_intros]: "safe_reader (read_prunable rv inputs outputs mixin)"
  by (rule rct_prunable_rd.safe_reader_axioms)

end
