(* ===== verification/Tx.thy ===== *)
theory Tx
  imports Rct
begin

text \<open>
  Transactions, \<open>crates/wow-types/src/tx.rs\<close> (with the limits of \<open>limits.rs\<close> and the
  \<open>Signature\<close> of \<open>crates/wow-crypto/src/types.rs\<close>): inputs, output targets, the prefix and the
  whole transaction, read from and written to the binary archive, the checks of \<open>expand\<close>, and
  the fee. Shown here: a transaction of the right shape is read back from its own bytes, with
  the two recorded sizes; every size a parse records lies inside the blob; the base-only reader
  agrees with the full one on whole blobs; the fee and the absolute offsets are the exact sums
  whenever they are returned.
\<close>

section \<open>Limits\<close>

definition CURRENT_TRANSACTION_VERSION :: u64 where "CURRENT_TRANSACTION_VERSION = 2"
definition RCT_DIM_MAX :: usize where "RCT_DIM_MAX = 0xffffffff"

section \<open>Output targets\<close>

datatype TxOutTarget =
    OutToKey key32
  | OutToTaggedKey key32 u8
  | OutToScript "key32 list" bytes
  | OutToScriptHash bytes

fun TxOutTarget_tag :: "TxOutTarget \<Rightarrow> u8" where
  "TxOutTarget_tag (OutToKey _) = 0x02"
| "TxOutTarget_tag (OutToTaggedKey _ _) = 0x03"
| "TxOutTarget_tag (OutToScript _ _) = 0x00"
| "TxOutTarget_tag (OutToScriptHash _) = 0x01"

fun TxOutTarget_public_key :: "TxOutTarget \<Rightarrow> key32 option" where
  "TxOutTarget_public_key (OutToKey k) = Some k"
| "TxOutTarget_public_key (OutToTaggedKey k _) = Some k"
| "TxOutTarget_public_key _ = None"

fun TxOutTarget_view_tag :: "TxOutTarget \<Rightarrow> u8 option" where
  "TxOutTarget_view_tag (OutToTaggedKey _ t) = Some t"
| "TxOutTarget_view_tag _ = None"

definition TxOutTarget_write :: "writer \<Rightarrow> TxOutTarget \<Rightarrow> writer" where
  "TxOutTarget_write w t =
     (let w = write_u8 w (TxOutTarget_tag t) in
      case t of
        OutToKey key \<Rightarrow> write_bytes w key
      | OutToTaggedKey key view_tag \<Rightarrow> write_u8 (write_bytes w key) view_tag
      | OutToScript keys script \<Rightarrow>
          write_bytes_prefixed (foldl write_bytes (writer_varint w (word_of_nat (length keys))) keys) script
      | OutToScriptHash hash \<Rightarrow> write_bytes w hash)"

definition TxOutTarget_read :: "TxOutTarget parser" where
  "TxOutTarget_read = p_bind read_u8 (\<lambda>tag.
     if tag = 0x02 then p_bind (read_array 32) (\<lambda>key. p_return (OutToKey key))
     else if tag = 0x03 then
       p_bind (read_array 32) (\<lambda>key. p_bind read_u8 (\<lambda>vt. p_return (OutToTaggedKey key vt)))
     else if tag = 0x00 then
       p_bind p_remaining (\<lambda>rem. p_bind (read_len (rem div 32) ''txout keys'') (\<lambda>n.
       p_bind (read_n (read_array 32) n) (\<lambda>keys.
       p_bind p_remaining (\<lambda>rem. p_bind (read_bytes_prefixed rem ''script'') (\<lambda>script.
       p_return (OutToScript keys script))))))
     else if tag = 0x01 then p_bind (read_array 32) (\<lambda>hash. p_return (OutToScriptHash hash))
     else p_fail (UnknownVariantTag tag))"

section \<open>Inputs\<close>

datatype TxIn =
    Gen u64
  | ToKey u64 "u64 list" key32
  | ToScript bytes u64 bytes
  | ToScriptHash bytes u64 TxOutTarget bytes

fun TxIn_tag :: "TxIn \<Rightarrow> u8" where
  "TxIn_tag (Gen _) = 0xff"
| "TxIn_tag (ToKey _ _ _) = 0x02"
| "TxIn_tag (ToScript _ _ _) = 0x00"
| "TxIn_tag (ToScriptHash _ _ _ _) = 0x01"

fun signature_size :: "TxIn \<Rightarrow> usize" where
  "signature_size (Gen _) = 0"
| "signature_size (ToKey _ key_offsets _) = length key_offsets"
| "signature_size (ToScript _ _ _) = 0"
| "signature_size (ToScriptHash _ _ _ _) = 0"

fun ring_size :: "TxIn \<Rightarrow> usize option" where
  "ring_size (ToKey _ key_offsets _) = Some (length key_offsets)"
| "ring_size _ = None"

text \<open>The loop of \<open>absolute_key_offsets\<close>: \<open>first\<close> is \<open>i == 0\<close>.\<close>

fun absolute_offsets_loop :: "bool \<Rightarrow> u64 \<Rightarrow> u64 list \<Rightarrow> u64 list option" where
  "absolute_offsets_loop first acc [] = Some []"
| "absolute_offsets_loop first acc (rel # rels) =
     (case (if first then Some rel else checked_add acc rel) of None \<Rightarrow> None
      | Some acc' \<Rightarrow> map_option ((#) acc') (absolute_offsets_loop False acc' rels))"

fun absolute_key_offsets :: "TxIn \<Rightarrow> u64 list option" where
  "absolute_key_offsets (ToKey _ key_offsets _) = absolute_offsets_loop True 0 key_offsets"
| "absolute_key_offsets _ = None"

definition TxIn_write :: "writer \<Rightarrow> TxIn \<Rightarrow> writer" where
  "TxIn_write w i =
     (let w = write_u8 w (TxIn_tag i) in
      case i of
        Gen height \<Rightarrow> writer_varint w height
      | ToKey amount key_offsets k_image \<Rightarrow>
          write_bytes
            (foldl writer_varint (writer_varint (writer_varint w amount) (word_of_nat (length key_offsets)))
              key_offsets) k_image
      | ToScript prev prevout sigset \<Rightarrow>
          write_bytes_prefixed (writer_varint (write_bytes w prev) prevout) sigset
      | ToScriptHash prev prevout script sigset \<Rightarrow>
          write_bytes_prefixed
            (TxOutTarget_write (writer_varint (write_bytes w prev) prevout) script) sigset)"

definition TxIn_read :: "TxIn parser" where
  "TxIn_read = p_bind read_u8 (\<lambda>tag.
     if tag = 0xff then p_bind reader_varint (\<lambda>height. p_return (Gen height))
     else if tag = 0x02 then
       p_bind reader_varint (\<lambda>amount.
       p_bind p_remaining (\<lambda>rem. p_bind (read_len rem ''key_offsets'') (\<lambda>n.
       p_bind (read_n reader_varint n) (\<lambda>key_offsets.
       p_bind (read_array 32) (\<lambda>k_image. p_return (ToKey amount key_offsets k_image))))))
     else if tag = 0x00 then
       p_bind (read_array 32) (\<lambda>prev. p_bind reader_varint (\<lambda>prevout.
       p_bind p_remaining (\<lambda>rem. p_bind (read_bytes_prefixed rem ''sigset'') (\<lambda>sigset.
       p_return (ToScript prev prevout sigset)))))
     else if tag = 0x01 then
       p_bind (read_array 32) (\<lambda>prev. p_bind reader_varint (\<lambda>prevout.
       p_bind TxOutTarget_read (\<lambda>script.
       p_bind p_remaining (\<lambda>rem. p_bind (read_bytes_prefixed rem ''sigset'') (\<lambda>sigset.
       p_return (ToScriptHash prev prevout script sigset))))))
     else p_fail (UnknownVariantTag tag))"

section \<open>Outputs and the prefix\<close>

record TxOut =
  out_amount :: u64
  out_target :: TxOutTarget

definition TxOut_write :: "writer \<Rightarrow> TxOut \<Rightarrow> writer" where
  "TxOut_write w out = TxOutTarget_write (writer_varint w (out_amount out)) (out_target out)"

definition TxOut_read :: "TxOut parser" where
  "TxOut_read = p_bind reader_varint (\<lambda>amount. p_bind TxOutTarget_read (\<lambda>target.
     p_return \<lparr>out_amount = amount, out_target = target\<rparr>))"

record TransactionPrefix =
  version :: u64
  unlock_time :: u64
  vin :: "TxIn list"
  vout :: "TxOut list"
  extra :: bytes

definition prefix_write :: "writer \<Rightarrow> TransactionPrefix \<Rightarrow> writer" where
  "prefix_write w p =
     (let w = writer_varint w (version p);
          w = writer_varint w (unlock_time p);
          w = writer_varint w (word_of_nat (length (vin p)));
          w = foldl TxIn_write w (vin p);
          w = writer_varint w (word_of_nat (length (vout p)));
          w = foldl TxOut_write w (vout p)
      in write_bytes_prefixed w (extra p))"

definition prefix_read :: "TransactionPrefix parser" where
  "prefix_read = p_bind reader_varint (\<lambda>v.
     if v = 0 \<or> CURRENT_TRANSACTION_VERSION < v then p_fail (InvalidValue ''transaction version'')
     else
       p_bind reader_varint (\<lambda>unlock.
       p_bind p_remaining (\<lambda>rem. p_bind (read_len rem ''vin'') (\<lambda>n_vin.
       p_bind (read_n TxIn_read n_vin) (\<lambda>ins.
       p_bind p_remaining (\<lambda>rem. p_bind (read_len rem ''vout'') (\<lambda>n_vout.
       p_bind (read_n TxOut_read n_vout) (\<lambda>outs.
       p_bind p_remaining (\<lambda>rem. p_bind (read_bytes_prefixed rem ''tx_extra'') (\<lambda>ext.
       p_return \<lparr>version = v, unlock_time = unlock, vin = ins, vout = outs, extra = ext\<rparr>))))))))))"

fun is_gen :: "TxIn \<Rightarrow> bool" where
  "is_gen (Gen _) = True"
| "is_gen _ = False"

definition is_miner_tx :: "TransactionPrefix \<Rightarrow> bool" where
  "is_miner_tx p \<longleftrightarrow> length (vin p) = 1 \<and> is_gen (vin p ! 0)"

section \<open>The transaction\<close>

record Signature =
  sig_c :: key32
  sig_r :: key32

definition Signature_to_bytes :: "Signature \<Rightarrow> bytes" where
  "Signature_to_bytes s = sig_c s @ sig_r s"

definition Signature_from_bytes :: "bytes \<Rightarrow> Signature" where
  "Signature_from_bytes b = \<lparr>sig_c = take 32 b, sig_r = drop 32 b\<rparr>"

record Transaction =
  tx_prefix :: TransactionPrefix
  tx_signatures :: "Signature list list"
  rct_signatures :: RctSignatures
  prefix_size :: usize
  unprunable_size :: usize

definition read_signature :: "Signature parser" where
  "read_signature = p_bind (read_array 64) (\<lambda>b. p_return (Signature_from_bytes b))"

fun read_signature_rows :: "TxIn list \<Rightarrow> Signature list list parser" where
  "read_signature_rows [] = p_return []"
| "read_signature_rows (i # is) =
     p_bind (read_n read_signature (signature_size i)) (\<lambda>row.
     p_bind (read_signature_rows is) (\<lambda>rows. p_return (row # rows)))"

text \<open>\<open>key_offsets.len().wrapping_sub(1)\<close> when \<open>vin[0]\<close> is a \<open>txin_to_key\<close>, else 0.\<close>

definition rct_mixin :: "TxIn \<Rightarrow> usize" where
  "rct_mixin i =
     (case i of ToKey _ key_offsets _ \<Rightarrow>
        (if length key_offsets = 0 then 2 ^ 64 - 1 else length key_offsets - 1)
      | _ \<Rightarrow> 0)"

definition read_parts :: "bool \<Rightarrow> Transaction parser" where
  "read_parts base_only =
     p_bind reader_pos (\<lambda>start. p_bind prefix_read (\<lambda>p. p_bind reader_pos (\<lambda>pos.
       let psize = pos - start in
       if version p = 1 then
         p_bind (if base_only then p_return [] else read_signature_rows (vin p)) (\<lambda>sigs.
           p_return \<lparr>tx_prefix = p, tx_signatures = sigs, rct_signatures = RctSignatures_null,
             prefix_size = psize, unprunable_size = psize\<rparr>)
       else if vin p \<noteq> [] then
         let inputs = length (vin p); outputs = length (vout p); mixin = rct_mixin (vin p ! 0) in
         if RCT_DIM_MAX \<le> inputs \<or> RCT_DIM_MAX \<le> outputs \<or> RCT_DIM_MAX \<le> mixin
         then p_fail (LimitExceeded ''rct dimension'')
         else
           p_bind (read_base inputs outputs) (\<lambda>rv. p_bind reader_pos (\<lambda>pos.
           let usize = pos - start in
           p_bind (if \<not> base_only \<and> \<not> rct_is_null (rct_ty rv)
                   then read_prunable rv inputs outputs mixin else p_return rv) (\<lambda>rv.
           p_return \<lparr>tx_prefix = p, tx_signatures = [], rct_signatures = rv,
             prefix_size = psize, unprunable_size = usize\<rparr>)))
       else
         p_return \<lparr>tx_prefix = p, tx_signatures = [], rct_signatures = RctSignatures_null,
           prefix_size = psize, unprunable_size = psize\<rparr>)))"

definition Transaction_read :: "Transaction parser" where
  "Transaction_read = read_parts False"

definition Transaction_read_base :: "Transaction parser" where
  "Transaction_read_base = read_parts True"

definition expand :: "Transaction \<Rightarrow> unit serial_result" where
  "expand tx =
     (let p = tx_prefix tx; rv = rct_signatures tx; n_outputs = length (vout p) in
      if version p < 2 then Inr ()
      else
        and_then
          (if is_bulletproof_plus (rct_ty rv) then
             if length (bulletproofs_plus rv) \<noteq> 1 then Inl (InvalidValue ''bulletproofs_plus.len() != 1'')
             else
               let bp = bulletproofs_plus rv ! 0 in
               if length (bpp_l bp) < 6 then Inl (InvalidValue ''bulletproofs_plus[0].L.len() < 6'')
               else and_then (ok_or (max_amounts (bpp_l bp)) (LimitExceeded ''bpp max_amounts'')) (\<lambda>m.
                 if m < n_outputs then Inl (LimitExceeded ''bpp max outputs < vout'') else Inr ())
           else Inr ()) (\<lambda>_.
        and_then
          (if rct_ty rv \<in> {RctBulletproof, RctBulletproof2, RctClsag} then
             if length (bulletproofs rv) \<noteq> 1 then Inl (InvalidValue ''bulletproofs.len() != 1'')
             else
               let bp = bulletproofs rv ! 0 in
               if length (bp_l bp) < 6 then Inl (InvalidValue ''bulletproofs[0].L.len() < 6'')
               else if rct_ty rv = RctBulletproof then
                 and_then (ok_or (max_amounts (bp_l bp)) (LimitExceeded ''bp max_amounts'')) (\<lambda>m.
                   if m < n_outputs then Inl (LimitExceeded ''bp max outputs < vout'') else Inr ())
               else Inr ()
           else Inr ()) (\<lambda>_.
        if \<not> rct_is_null (rct_ty rv) \<and> length (out_pk rv) \<noteq> n_outputs
        then Inl (InvalidValue ''outPk.len() != vout.len()'')
        else Inr ())))"

definition from_blob :: "bytes \<Rightarrow> Transaction serial_result" where
  "from_blob blob =
     and_then (Transaction_read (reader_new blob)) (\<lambda>(tx, r). and_then (expand tx) (\<lambda>_. Inr tx))"

definition from_blob_base_only :: "bytes \<Rightarrow> Transaction serial_result" where
  "from_blob_base_only blob = and_then (Transaction_read_base (reader_new blob)) (\<lambda>(tx, r). Inr tx)"

definition write_signature :: "writer \<Rightarrow> Signature \<Rightarrow> writer" where
  "write_signature w s = write_bytes w (Signature_to_bytes s)"

definition Transaction_write :: "writer \<Rightarrow> Transaction \<Rightarrow> writer" where
  "Transaction_write w tx =
     (let p = tx_prefix tx; rv = rct_signatures tx; w = prefix_write w p in
      if version p = 1 then foldl (foldl write_signature) w (tx_signatures tx)
      else if vin p \<noteq> [] then
        let w = write_base w rv in if \<not> rct_is_null (rct_ty rv) then write_prunable w rv else w
      else w)"

fun in_amount :: "TxIn \<Rightarrow> u64" where
  "in_amount (ToKey amount _ _) = amount"
| "in_amount _ = 0"

fun checked_sum :: "u64 \<Rightarrow> u64 list \<Rightarrow> u64 option" where
  "checked_sum acc [] = Some acc"
| "checked_sum acc (a # as) = (case checked_add acc a of None \<Rightarrow> None | Some acc' \<Rightarrow> checked_sum acc' as)"

definition fee :: "Transaction \<Rightarrow> u64 option" where
  "fee tx =
     (if version (tx_prefix tx) = 1 then
        case checked_sum 0 (map in_amount (vin (tx_prefix tx))) of None \<Rightarrow> None
        | Some input_sum \<Rightarrow>
            case checked_sum 0 (map out_amount (vout (tx_prefix tx))) of None \<Rightarrow> None
            | Some output_sum \<Rightarrow> checked_sub input_sum output_sum
      else Some (txn_fee (rct_signatures tx)))"

section \<open>Well-formed transactions\<close>

fun wf_target :: "TxOutTarget \<Rightarrow> bool" where
  "wf_target (OutToKey k) \<longleftrightarrow> length k = 32"
| "wf_target (OutToTaggedKey k _) \<longleftrightarrow> length k = 32"
| "wf_target (OutToScript keys script) \<longleftrightarrow> keys32 keys \<and> length keys < 2 ^ 64 \<and> length script < 2 ^ 64"
| "wf_target (OutToScriptHash h) \<longleftrightarrow> length h = 32"

fun wf_txin :: "TxIn \<Rightarrow> bool" where
  "wf_txin (Gen _) \<longleftrightarrow> True"
| "wf_txin (ToKey _ offs ki) \<longleftrightarrow> length offs < 2 ^ 64 \<and> length ki = 32"
| "wf_txin (ToScript prev _ sigset) \<longleftrightarrow> length prev = 32 \<and> length sigset < 2 ^ 64"
| "wf_txin (ToScriptHash prev _ script sigset) \<longleftrightarrow> length prev = 32 \<and> wf_target script \<and> length sigset < 2 ^ 64"

definition wf_prefix :: "TransactionPrefix \<Rightarrow> bool" where
  "wf_prefix p \<longleftrightarrow>
     (version p = 1 \<or> version p = 2) \<and>
     (\<forall>i \<in> set (vin p). wf_txin i) \<and> length (vin p) < 2 ^ 64 \<and>
     (\<forall>out \<in> set (vout p). wf_target (out_target out)) \<and> length (vout p) < 2 ^ 64 \<and>
     length (extra p) < 2 ^ 64"

definition wf_signature :: "Signature \<Rightarrow> bool" where
  "wf_signature s \<longleftrightarrow> length (sig_c s) = 32 \<and> length (sig_r s) = 32"

definition wf_rct :: "usize \<Rightarrow> usize \<Rightarrow> usize \<Rightarrow> RctSignatures \<Rightarrow> bool" where
  "wf_rct inputs outputs mixin rv \<longleftrightarrow>
     wf_rct_base inputs outputs (rct_base_of rv) \<and>
     (if rct_is_null (rct_ty rv) then rv = RctSignatures_null else wf_rct_prunable inputs outputs mixin rv)"

definition wf_tx_body :: "Transaction \<Rightarrow> bool" where
  "wf_tx_body tx \<longleftrightarrow>
     (let p = tx_prefix tx; rv = rct_signatures tx in
      if version p = 1 then
        rv = RctSignatures_null \<and>
        list_all2 (\<lambda>i row. length row = signature_size i \<and> (\<forall>s \<in> set row. wf_signature s))
          (vin p) (tx_signatures tx)
      else if vin p \<noteq> [] then
        tx_signatures tx = [] \<and> length (vin p) < RCT_DIM_MAX \<and> length (vout p) < RCT_DIM_MAX \<and>
        rct_mixin (vin p ! 0) < RCT_DIM_MAX \<and>
        wf_rct (length (vin p)) (length (vout p)) (rct_mixin (vin p ! 0)) rv
      else tx_signatures tx = [] \<and> rv = RctSignatures_null)"

definition wf_sizes :: "Transaction \<Rightarrow> bool" where
  "wf_sizes tx \<longleftrightarrow>
     prefix_size tx = length (prefix_write [] (tx_prefix tx)) \<and>
     unprunable_size tx =
       (if version (tx_prefix tx) \<noteq> 1 \<and> vin (tx_prefix tx) \<noteq> []
        then length (write_base (prefix_write [] (tx_prefix tx)) (rct_signatures tx))
        else length (prefix_write [] (tx_prefix tx)))"

definition wf_tx :: "Transaction \<Rightarrow> bool" where
  "wf_tx tx \<longleftrightarrow> wf_prefix (tx_prefix tx) \<and> wf_tx_body tx \<and> wf_sizes tx"

section \<open>Round trip\<close>

lemma foldl_append_law:
  assumes "\<And>w x. f w x = w @ f [] x"
  shows "foldl f w xs = w @ foldl f [] xs"
proof (induction xs arbitrary: w)
  case (Cons x xs)
  show ?case using Cons [of "f w x"] Cons [of "f [] x"] assms [of w x] by simp
qed simp

lemma TxOutTarget_write_append: "TxOutTarget_write w t = w @ TxOutTarget_write [] t"
  by (cases t) (simp_all add: TxOutTarget_write_def Let_def writer_defs foldl_write_bytes write_bytes_prefixed_eq)

interpretation target_c: sized_codec TxOutTarget_write TxOutTarget_read wf_target
proof unfold_locales
  fix w :: writer and t
  show "TxOutTarget_write w t = w @ TxOutTarget_write [] t" by (rule TxOutTarget_write_append)
next
  fix t pre post
  assume "wf_target t"
  then show "TxOutTarget_read (reader_at pre (TxOutTarget_write [] t @ post)) =
      Inr (t, reader_at (pre @ TxOutTarget_write [] t) post)"
    by (cases t) (auto simp: TxOutTarget_write_def TxOutTarget_read_def writer_defs foldl_write_bytes
        write_bytes_prefixed_eq read_u8_Cons read_array_append read_len_at read_n_keys read_bytes_prefixed_at
        length_concat_const keys32_def)
next
  fix t
  show "TxOutTarget_write [] t \<noteq> []"
    by (cases t) (simp_all add: TxOutTarget_write_def writer_defs foldl_write_bytes write_bytes_prefixed_eq)
qed


lemma foldl_varint_append: "foldl writer_varint w xs = w @ foldl writer_varint [] xs"
  by (rule varint_c.foldl_wr_append)

lemma TxIn_write_append: "TxIn_write w i = w @ TxIn_write [] i"
proof (cases i)
  case (ToKey a offs ki)
  have "foldl writer_varint (w @ x) offs = w @ foldl writer_varint x offs" for x
    using foldl_varint_append [of "w @ x" offs] foldl_varint_append [of x offs] by simp
  then show ?thesis using ToKey by (simp add: TxIn_write_def Let_def writer_defs)
next
  case (ToScriptHash prev prevout script sigset)
  have "TxOutTarget_write (w @ x) script = w @ TxOutTarget_write x script" for x
    using TxOutTarget_write_append [of "w @ x" script] TxOutTarget_write_append [of x script] by simp
  then show ?thesis using ToScriptHash
    by (simp add: TxIn_write_def Let_def writer_defs write_bytes_prefixed_eq)
qed (simp_all add: TxIn_write_def Let_def writer_defs write_bytes_prefixed_eq)

lemma TxIn_write_bytes:
  "TxIn_write [] (Gen h) = 0xff # varint_bytes h"
  "TxIn_write [] (ToKey a offs ki) =
     0x02 # varint_bytes a @ varint_bytes (word_of_nat (length offs)) @ foldl writer_varint [] offs @ ki"
  "TxIn_write [] (ToScript prev n s) =
     0x00 # prev @ varint_bytes n @ varint_bytes (word_of_nat (length s)) @ s"
  "TxIn_write [] (ToScriptHash prev n t s) =
     0x01 # prev @ varint_bytes n @ TxOutTarget_write [] t @ varint_bytes (word_of_nat (length s)) @ s"
  by (simp_all add: TxIn_write_def Let_def writer_defs write_bytes_prefixed_eq
      foldl_varint_append [of "_ # _"] TxOutTarget_write_append [of "_ # _"])

interpretation txin_c: sized_codec TxIn_write TxIn_read wf_txin
proof unfold_locales
  fix w :: writer and i
  show "TxIn_write w i = w @ TxIn_write [] i" by (rule TxIn_write_append)
next
  fix i pre post
  assume i: "wf_txin i"
  show "TxIn_read (reader_at pre (TxIn_write [] i @ post)) = Inr (i, reader_at (pre @ TxIn_write [] i) post)"
  proof (cases i)
    case (ToKey a offs ki)
    have "length offs \<le> length (foldl writer_varint [] offs)" by (rule varint_c.length_foldl_wr)
    then show ?thesis using i ToKey
      by (simp add: TxIn_read_def TxIn_write_bytes read_u8_Cons reader_varint_at read_len_at
          varint_c.read_n_exact read_array_append)
  qed (use i in \<open>simp_all add: TxIn_read_def TxIn_write_bytes read_u8_Cons reader_varint_at
      read_array_append read_bytes_prefixed_at target_c.rd_wr\<close>)
next
  fix i
  show "TxIn_write [] i \<noteq> []" by (cases i) (simp_all add: TxIn_write_bytes)
qed

lemma TxOut_write_eq: "TxOut_write w out = w @ varint_bytes (out_amount out) @ TxOutTarget_write [] (out_target out)"
  using TxOutTarget_write_append [of "w @ varint_bytes (out_amount out)"]
  by (simp add: TxOut_write_def writer_defs)

interpretation txout_c: sized_codec TxOut_write TxOut_read "\<lambda>out. wf_target (out_target out)"
  by unfold_locales (simp_all add: TxOut_write_eq TxOut_read_def reader_varint_at target_c.rd_wr)

lemma prefix_write_eq:
  "prefix_write w p = w @ varint_bytes (version p) @ varint_bytes (unlock_time p) @
     varint_bytes (word_of_nat (length (vin p))) @ foldl TxIn_write [] (vin p) @
     varint_bytes (word_of_nat (length (vout p))) @ foldl TxOut_write [] (vout p) @
     varint_bytes (word_of_nat (length (extra p))) @ extra p"
proof -
  have i: "foldl TxIn_write (x @ y) is = x @ foldl TxIn_write y is" for x y "is"
    using txin_c.foldl_wr_append [of "x @ y" "is"] txin_c.foldl_wr_append [of y "is"] by simp
  have out: "foldl TxOut_write (x @ y) os = x @ foldl TxOut_write y os" for x y os
    using txout_c.foldl_wr_append [of "x @ y" os] txout_c.foldl_wr_append [of y os] by simp
  show ?thesis
    using txin_c.foldl_wr_append [of "varint_bytes (word_of_nat (length (vin p)))"]
      txout_c.foldl_wr_append [of "varint_bytes (word_of_nat (length (vout p)))"]
    by (simp add: prefix_write_def Let_def writer_defs write_bytes_prefixed_eq i out)
qed

interpretation prefix_c: sized_codec prefix_write prefix_read wf_prefix
proof unfold_locales
  fix w :: writer and p
  show "prefix_write w p = w @ prefix_write [] p" by (simp add: prefix_write_eq)
next
  fix p pre post
  assume p: "wf_prefix p"
  have li: "length (vin p) \<le> length (foldl TxIn_write [] (vin p))" by (rule txin_c.length_foldl_wr)
  have lo: "length (vout p) \<le> length (foldl TxOut_write [] (vout p))" by (rule txout_c.length_foldl_wr)
  have v: "version p \<noteq> 0" "\<not> CURRENT_TRANSACTION_VERSION < version p"
    using p by (auto simp: wf_prefix_def CURRENT_TRANSACTION_VERSION_def)
  show "prefix_read (reader_at pre (prefix_write [] p @ post)) =
      Inr (p, reader_at (pre @ prefix_write [] p) post)"
    using p li lo v
    by (simp add: prefix_read_def prefix_write_eq reader_varint_at read_len_at wf_prefix_def
        txin_c.read_n_exact txout_c.read_n_exact read_bytes_prefixed_at del: read_n.simps)
next
  fix p
  show "prefix_write [] p \<noteq> []" by (simp add: prefix_write_eq)
qed

interpretation signature_c: codec write_signature read_signature wf_signature
  by unfold_locales
    (simp_all add: write_signature_def read_signature_def Signature_to_bytes_def Signature_from_bytes_def
      wf_signature_def write_bytes_def read_array_append [of "_ @ _", simplified])

lemma read_signature_rows_at [codec_simps]:
  assumes "list_all2 (\<lambda>i row. length row = signature_size i \<and> (\<forall>s \<in> set row. wf_signature s)) is rows"
  shows "read_signature_rows is (reader_at pre (foldl (foldl write_signature) [] rows @ post)) =
    Inr (rows, reader_at (pre @ foldl (foldl write_signature) [] rows) post)"
  using assms
proof (induction "is" rows arbitrary: pre rule: list_all2_induct)
  case Nil
  then show ?case by simp
next
  case (Cons i "is" row rows)
  have a: "foldl (foldl write_signature) w xs = w @ foldl (foldl write_signature) [] xs" for w xs
    by (rule foldl_append_law) (rule signature_c.foldl_wr_append)
  show ?case
    using Cons signature_c.read_n_exact [of row "signature_size i" pre]
    by (simp add: a [of "foldl write_signature [] row"])
qed


lemma foldl_rows_append: "foldl (foldl write_signature) w xs = w @ foldl (foldl write_signature) [] xs"
  by (rule foldl_append_law) (rule signature_c.foldl_wr_append)

lemma write_prunable_append: "write_prunable w rv = w @ write_prunable [] rv"
  by (cases "rct_is_null (rct_ty rv)") (simp_all add: write_prunable_eq, simp add: write_prunable_def)

text \<open>What follows the prefix.\<close>

definition tx_rct_bytes :: "Transaction \<Rightarrow> bytes" where
  "tx_rct_bytes tx =
     (if version (tx_prefix tx) \<noteq> 1 \<and> vin (tx_prefix tx) \<noteq> [] then write_base [] (rct_signatures tx) else [])"

definition tx_tail_bytes :: "Transaction \<Rightarrow> bytes" where
  "tx_tail_bytes tx =
     (if version (tx_prefix tx) = 1 then foldl (foldl write_signature) [] (tx_signatures tx)
      else if vin (tx_prefix tx) \<noteq> [] then write_prunable [] (rct_signatures tx) else [])"

lemma Transaction_write_eq:
  "Transaction_write w tx = w @ prefix_write [] (tx_prefix tx) @ tx_rct_bytes tx @ tx_tail_bytes tx"
proof -
  let ?p = "prefix_write [] (tx_prefix tx)" and ?b = "write_base [] (rct_signatures tx)"
  have "prefix_write w (tx_prefix tx) = w @ ?p" by (simp add: prefix_write_eq)
  moreover have "write_base (w @ ?p) (rct_signatures tx) = (w @ ?p) @ ?b" by (rule rct_base_c.wr_append)
  moreover have "write_prunable (w @ ?p @ ?b) (rct_signatures tx) =
      (w @ ?p @ ?b) @ write_prunable [] (rct_signatures tx)"
    by (rule write_prunable_append)
  moreover have "rct_is_null (rct_ty (rct_signatures tx)) \<Longrightarrow> write_prunable [] (rct_signatures tx) = []"
    by (simp add: write_prunable_def)
  moreover have "foldl (foldl write_signature) (w @ ?p) (tx_signatures tx) =
      (w @ ?p) @ foldl (foldl write_signature) [] (tx_signatures tx)"
    by (rule foldl_rows_append)
  ultimately show ?thesis
    by (simp add: Transaction_write_def Let_def tx_rct_bytes_def tx_tail_bytes_def)
qed

lemma wf_sizes_eq:
  "wf_sizes tx \<longleftrightarrow> prefix_size tx = length (prefix_write [] (tx_prefix tx)) \<and>
     unprunable_size tx = length (prefix_write [] (tx_prefix tx)) + length (tx_rct_bytes tx)"
  using rct_base_c.wr_append [of "prefix_write [] (tx_prefix tx)" "rct_signatures tx"]
  by (auto simp: wf_sizes_def tx_rct_bytes_def)

lemma rct_base_of_type [simp]: "rct_ty (rct_base_of rv) = rct_ty rv"
  by (simp add: rct_base_of_def)

lemma write_base_of [simp]: "write_base w (rct_base_of rv) = write_base w rv"
  by (simp add: write_base_def rct_base_of_def Let_def)

lemma read_rct_at:
  assumes "wf_rct inputs outputs mixin rv"
  shows "read_base inputs outputs (reader_at pre (write_base [] rv @ post)) =
      Inr (rct_base_of rv, reader_at (pre @ write_base [] rv) post)"
  using rct_base_c.rd_wr [of inputs outputs "rct_base_of rv" pre post] assms by (simp add: wf_rct_def)

lemma read_rct_tail_at:
  assumes "wf_rct inputs outputs mixin rv"
  shows "(if \<not> rct_is_null (rct_ty rv) then read_prunable (rct_base_of rv) inputs outputs mixin
      else p_return (rct_base_of rv)) (reader_at pre (write_prunable [] rv @ post)) =
      Inr (rv, reader_at (pre @ write_prunable [] rv) post)"
proof (cases "rct_is_null (rct_ty rv)")
  case True
  then have "rct_base_of rv = rv" "write_prunable [] rv = []"
    using assms by (auto simp: wf_rct_def write_prunable_def rct_base_of_def RctSignatures_null_def
        RctSignatures_default_def)
  with True show ?thesis by simp
qed (use assms in \<open>simp add: wf_rct_def read_prunable_at\<close>)

interpretation tx_c: sized_codec Transaction_write Transaction_read wf_tx
proof unfold_locales
  fix w :: writer and tx
  show "Transaction_write w tx = w @ Transaction_write [] tx" by (simp add: Transaction_write_eq)
next
  fix tx pre post
  assume tx: "wf_tx tx"
  let ?p = "tx_prefix tx"
  have p: "wf_prefix ?p" and b: "wf_tx_body tx" and s: "wf_sizes tx" using tx by (simp_all add: wf_tx_def)
  note rp = prefix_c.rd_wr [OF p]
  have sz: "prefix_size tx = length (prefix_write [] ?p)"
    "unprunable_size tx = length (prefix_write [] ?p) + length (tx_rct_bytes tx)"
    using s by (simp_all add: wf_sizes_eq)
  have eq: "tx = \<lparr>tx_prefix = ?p, tx_signatures = tx_signatures tx, rct_signatures = rct_signatures tx,
      prefix_size = length (prefix_write [] ?p),
      unprunable_size = length (prefix_write [] ?p) + length (tx_rct_bytes tx)\<rparr>"
    using sz by simp
  consider (v1) "version ?p = 1" | (rct) "version ?p \<noteq> 1" "vin ?p \<noteq> []" | (none) "version ?p \<noteq> 1" "vin ?p = []"
    by blast
  then show "Transaction_read (reader_at pre (Transaction_write [] tx @ post)) =
      Inr (tx, reader_at (pre @ Transaction_write [] tx) post)"
  proof cases
    case v1
    then show ?thesis using b eq
      by (simp add: Transaction_read_def read_parts_def Transaction_write_eq tx_rct_bytes_def tx_tail_bytes_def
          Let_def rp read_signature_rows_at wf_tx_body_def)
  next
    case rct
    then have w: "wf_rct (length (vin ?p)) (length (vout ?p)) (rct_mixin (vin ?p ! 0)) (rct_signatures tx)"
      and d: "length (vin ?p) < RCT_DIM_MAX" "length (vout ?p) < RCT_DIM_MAX" "rct_mixin (vin ?p ! 0) < RCT_DIM_MAX"
      and e: "tx_signatures tx = []"
      using b by (simp_all add: wf_tx_body_def Let_def)
    show ?thesis using rct d e eq
      by (simp add: Transaction_read_def read_parts_def Transaction_write_eq tx_rct_bytes_def tx_tail_bytes_def
          Let_def rp read_rct_at [OF w] read_rct_tail_at [OF w] del: if_split)
  next
    case none
    then show ?thesis using b eq
      by (simp add: Transaction_read_def read_parts_def Transaction_write_eq tx_rct_bytes_def tx_tail_bytes_def
          Let_def rp wf_tx_body_def)
  qed
next
  fix tx
  show "Transaction_write [] tx \<noteq> []" by (simp add: Transaction_write_eq prefix_write_eq)
qed

section \<open>The readers stay inside the blob\<close>

interpretation target_rd: safe_reader TxOutTarget_read
  unfolding TxOutTarget_read_def by (intro safe_intros)

lemmas [safe_intros] = target_rd.safe_reader_axioms

interpretation txin_rd: safe_reader TxIn_read
  unfolding TxIn_read_def by (intro safe_intros)

lemmas [safe_intros] = txin_rd.safe_reader_axioms

interpretation txout_rd: safe_reader TxOut_read
  unfolding TxOut_read_def by (intro safe_intros)

lemmas [safe_intros] = txout_rd.safe_reader_axioms

interpretation prefix_rd: safe_reader prefix_read
  unfolding prefix_read_def by (intro safe_intros)

lemmas [safe_intros] = prefix_rd.safe_reader_axioms

lemma safe_signature_rows [safe_intros]: "safe_reader (read_signature_rows is)"
proof (induction "is")
  case Nil
  show ?case unfolding read_signature_rows.simps by (intro safe_intros)
next
  case (Cons i "is")
  then show ?case unfolding read_signature_rows.simps read_signature_def by (intro safe_intros)
qed

interpretation tx_rd: safe_reader "read_parts base_only" for base_only
  unfolding read_parts_def Let_def by (intro safe_intros)


lemma read_parts_rctE:
  assumes "read_parts base_only r = Inr (tx, r')" "prefix_read r = Inr (p, r1)" "version p \<noteq> 1" "vin p \<noteq> []"
  obtains rv r2 rv' where "read_base (length (vin p)) (length (vout p)) r1 = Inr (rv, r2)"
    and "(if \<not> base_only \<and> \<not> rct_is_null (rct_ty rv)
        then read_prunable rv (length (vin p)) (length (vout p)) (rct_mixin (vin p ! 0))
        else p_return rv) r2 = Inr (rv', r')"
    and "tx = \<lparr>tx_prefix = p, tx_signatures = [], rct_signatures = rv',
       prefix_size = rd_pos r1 - rd_pos r, unprunable_size = rd_pos r2 - rd_pos r\<rparr>"
    and "length (vin p) < RCT_DIM_MAX" "length (vout p) < RCT_DIM_MAX" "rct_mixin (vin p ! 0) < RCT_DIM_MAX"
proof -
  have "\<exists>rv r2 rv'. read_base (length (vin p)) (length (vout p)) r1 = Inr (rv, r2) \<and>
      (if \<not> base_only \<and> \<not> rct_is_null (rct_ty rv)
        then read_prunable rv (length (vin p)) (length (vout p)) (rct_mixin (vin p ! 0))
        else p_return rv) r2 = Inr (rv', r') \<and>
      tx = \<lparr>tx_prefix = p, tx_signatures = [], rct_signatures = rv',
        prefix_size = rd_pos r1 - rd_pos r, unprunable_size = rd_pos r2 - rd_pos r\<rparr>"
    and "\<not> (RCT_DIM_MAX \<le> length (vin p) \<or> RCT_DIM_MAX \<le> length (vout p) \<or> RCT_DIM_MAX \<le> rct_mixin (vin p ! 0))"
    using assms by (auto simp: read_parts_def Let_def split: if_split_asm)
  then show thesis using that by (auto simp: not_le)
qed

lemma read_parts_sizes:
  assumes "read_parts base_only r = Inr (tx, r')" "rd_pos r \<le> length (rd_buf r)"
  shows "prefix_size tx \<le> unprunable_size tx \<and> unprunable_size tx \<le> rd_pos r' - rd_pos r"
proof -
  let ?ok = "\<lambda>a b. rd_buf b = rd_buf a \<and> rd_pos a \<le> rd_pos b \<and> rd_pos b \<le> length (rd_buf b)"
  obtain p r1 where p: "prefix_read r = Inr (p, r1)"
    using assms(1) by (auto simp: read_parts_def)
  have r1: "?ok r r1" using prefix_rd.stays [OF assms(2) p] by simp
  consider (v1) "version p = 1" | (rct) "version p \<noteq> 1" "vin p \<noteq> []" | (none) "version p \<noteq> 1" "vin p = []"
    by blast
  then show ?thesis
  proof cases
    case v1
    then obtain sigs where sigs: "(if base_only then p_return [] else read_signature_rows (vin p)) r1 = Inr (sigs, r')"
      and tx: "prefix_size tx = rd_pos r1 - rd_pos r" "unprunable_size tx = rd_pos r1 - rd_pos r"
      using assms(1) by (auto simp: read_parts_def p Let_def)
    have "safe_reader (if base_only then p_return [] else read_signature_rows (vin p))"
      by (intro safe_intros)
    from safe_reader.stays [OF this _ sigs] r1 tx show ?thesis by (auto intro!: diff_le_mono)
  next
    case rct
    from read_parts_rctE [OF assms(1) p this] obtain rv r2 rv' where
      rv: "read_base (length (vin p)) (length (vout p)) r1 = Inr (rv, r2)"
      and rv': "(if \<not> base_only \<and> \<not> rct_is_null (rct_ty rv)
          then read_prunable rv (length (vin p)) (length (vout p)) (rct_mixin (vin p ! 0))
          else p_return rv) r2 = Inr (rv', r')"
      and "tx = \<lparr>tx_prefix = p, tx_signatures = [], rct_signatures = rv',
         prefix_size = rd_pos r1 - rd_pos r, unprunable_size = rd_pos r2 - rd_pos r\<rparr>"
      by blast
    then have tx: "prefix_size tx = rd_pos r1 - rd_pos r" "unprunable_size tx = rd_pos r2 - rd_pos r"
      by simp_all
    have r2: "?ok r1 r2" using rct_base_rd.stays [OF _ rv] r1 by auto
    have "safe_reader (if \<not> base_only \<and> \<not> rct_is_null (rct_ty rv)
        then read_prunable rv (length (vin p)) (length (vout p)) (rct_mixin (vin p ! 0)) else p_return rv)"
      by (intro safe_intros)
    from safe_reader.stays [OF this _ rv'] r1 r2 tx show ?thesis by (auto intro!: diff_le_mono)
  next
    case none
    then show ?thesis using assms(1) r1 by (auto simp: read_parts_def p Let_def)
  qed
qed

lemma from_blob_bounds:
  assumes "from_blob blob = Inr tx"
  shows "prefix_size tx \<le> unprunable_size tx \<and> unprunable_size tx \<le> length blob"
proof -
  obtain r where r: "read_parts False (reader_new blob) = Inr (tx, r)"
    using assms by (auto simp: from_blob_def Transaction_read_def)
  have "prefix_size tx \<le> unprunable_size tx \<and> unprunable_size tx \<le> rd_pos r - rd_pos (reader_new blob)"
    by (rule read_parts_sizes [OF r]) (simp add: reader_new_def)
  moreover have "rd_pos r \<le> length blob" using tx_rd.new_in_blob [OF r] by simp
  ultimately show ?thesis by linarith
qed

section \<open>The base-only reader\<close>

lemma read_base_is_base: "read_base inputs outputs r = Inr (rv, r') \<Longrightarrow> rct_base_of rv = rv"
  by (cases "read_u8 r"; cases "RctType_from_u8 (fst (projr (read_u8 r)))")
    (auto simp: read_base_def Let_def rct_base_of_def RctSignatures_default_def split: if_split_asm)

lemma read_range_proofs_base:
  "read_range_proofs rv outputs r = Inr (rv', r') \<Longrightarrow> rct_base_of rv' = rct_base_of rv"
  by (cases "rct_ty rv") (auto simp: read_range_proofs_def Let_def rct_base_of_def split: if_splits)

lemma read_ring_sigs_base:
  "read_ring_sigs rv inputs mixin r = Inr (rv', r') \<Longrightarrow> rct_base_of rv' = rct_base_of rv"
  by (auto simp: read_ring_sigs_def rct_base_of_def split: if_splits)

lemma read_prunable_base:
  assumes "read_prunable rv inputs outputs mixin r = Inr (rv', r')"
  shows "rct_base_of rv' = rct_base_of rv"
proof -
  obtain rv1 r1 rv2 r2 where 1: "read_range_proofs rv outputs r = Inr (rv1, r1)"
    and 2: "read_ring_sigs rv1 inputs mixin r1 = Inr (rv2, r2)"
    and 3: "rv' = rv2 \<or> (\<exists>ps. rv' = rv2\<lparr>pseudo_outs := ps\<rparr>)"
    using assms by (auto simp: read_prunable_def split: if_splits)
  show ?thesis using read_range_proofs_base [OF 1] read_ring_sigs_base [OF 2] 3
    by (auto simp: rct_base_of_def)
qed

definition tx_base_of :: "Transaction \<Rightarrow> Transaction" where
  "tx_base_of tx = tx\<lparr>tx_signatures := [], rct_signatures := rct_base_of (rct_signatures tx)\<rparr>"

lemma read_parts_base:
  assumes "read_parts False r = Inr (tx, r')"
  shows "\<exists>r''. read_parts True r = Inr (tx_base_of tx, r'')"
proof -
  have null: "rct_base_of RctSignatures_null = RctSignatures_null"
    by (simp add: rct_base_of_def RctSignatures_null_def RctSignatures_default_def)
  obtain p r1 where p: "prefix_read r = Inr (p, r1)"
    using assms(1) by (auto simp: read_parts_def)
  consider (v1) "version p = 1" | (rct) "version p \<noteq> 1" "vin p \<noteq> []" | (none) "version p \<noteq> 1" "vin p = []"
    by blast
  then show ?thesis
  proof cases
    case rct
    from read_parts_rctE [OF assms(1) p this] obtain rv r2 rv' where
      rv: "read_base (length (vin p)) (length (vout p)) r1 = Inr (rv, r2)"
      and rv': "(if \<not> False \<and> \<not> rct_is_null (rct_ty rv)
          then read_prunable rv (length (vin p)) (length (vout p)) (rct_mixin (vin p ! 0))
          else p_return rv) r2 = Inr (rv', r')"
      and tx: "tx = \<lparr>tx_prefix = p, tx_signatures = [], rct_signatures = rv',
         prefix_size = rd_pos r1 - rd_pos r, unprunable_size = rd_pos r2 - rd_pos r\<rparr>"
      by blast
    have "rct_base_of rv' = rct_base_of rv"
      using rv' by (auto dest: read_prunable_base split: if_splits)
    with read_base_is_base [OF rv] have "rct_base_of rv' = rv" by simp
    then show ?thesis using rct assms rv tx
      by (auto simp: read_parts_def p Let_def tx_base_of_def split: if_splits)
  qed (use assms in \<open>auto simp: read_parts_def p Let_def tx_base_of_def null\<close>)
qed

section \<open>Sums\<close>

lemma checked_sum_Some:
  "checked_sum acc xs = Some s \<longleftrightarrow> unat acc + sum_list (map unat xs) < 2 ^ 64 \<and>
     s = word_of_nat (unat acc + sum_list (map unat xs))"
proof (induction xs arbitrary: acc)
  case Nil
  then show ?case using unat_bound [of acc] by auto
next
  case (Cons a as)
  show ?case
  proof (cases "unat acc + unat a < 2 ^ 64")
    case True
    then have "unat (acc + a) = unat acc + unat a" by (intro unat_add_no_wrap) simp
    with True Cons [of "acc + a"] show ?thesis by (simp add: checked_add_def add.assoc)
  qed (auto simp: checked_add_def)
qed

fun running_sums :: "nat \<Rightarrow> nat list \<Rightarrow> nat list" where
  "running_sums acc [] = []"
| "running_sums acc (x # xs) = (acc + x) # running_sums (acc + x) xs"

lemma absolute_offsets_loop_Some:
  "absolute_offsets_loop False acc xs = Some ys \<longleftrightarrow>
     unat acc + sum_list (map unat xs) < 2 ^ 64 \<and> map unat ys = running_sums (unat acc) (map unat xs)"
proof (induction xs arbitrary: acc ys)
  case Nil
  then show ?case using unat_bound [of acc] by auto
next
  case (Cons a as)
  show ?case
  proof (cases "unat acc + unat a < 2 ^ 64")
    case True
    then have u: "unat (acc + a) = unat acc + unat a" by (intro unat_add_no_wrap) simp
    show ?thesis using True u Cons [of "acc + a" "tl ys"]
      by (cases ys) (auto simp: checked_add_def add.assoc word_unat_eq_iff)
  qed (auto simp: checked_add_def)
qed



section \<open>Properties\<close>

text \<open>A two-member-ring transaction with one tagged output, of RingCT type 8.\<close>

definition sample_tx :: Transaction where
  "sample_tx =
     \<lparr>tx_prefix = \<lparr>version = 2, unlock_time = 0, vin = [ToKey 0 [3, 200] (replicate 32 7)],
        vout = [\<lparr>out_amount = 0, out_target = OutToTaggedKey (replicate 32 9) 0x5a\<rparr>], extra = [1, 2]\<rparr>,
      tx_signatures = [],
      rct_signatures = \<lparr>rct_ty = RctBulletproofPlus, txn_fee = 1000, pseudo_outs_base = [],
        ecdh_info = [\<lparr>ecdh_mask = zero32, ecdh_amount = [1, 2, 3, 4, 5, 6, 7, 8] @ replicate 24 0\<rparr>],
        out_pk = [replicate 32 4], range_sigs = [], bulletproofs = [],
        bulletproofs_plus = [\<lparr>bpp_a = zero32, bpp_a1 = zero32, bpp_b = zero32, bpp_r1 = zero32,
          bpp_s1 = zero32, bpp_d1 = zero32, bpp_l = replicate 6 zero32, bpp_r = replicate 6 zero32\<rparr>],
        mgs = [], clsags = [\<lparr>clsag_s = replicate 2 zero32, clsag_c1 = zero32, clsag_d = zero32\<rparr>],
        pseudo_outs = [replicate 32 5]\<rparr>,
      prefix_size = 80, unprunable_size = 123\<rparr>"


lemmas wf_tx_defs = wf_tx_def wf_prefix_def wf_tx_body_def wf_rct_def wf_rct_base_def
  wf_rct_prunable_def wf_range_proofs_def keys32_def zero32_def wf_ecdh_def has_short_ecdh_def rct_is_null_def
  rct_base_of_def RctSignatures_null_def rct_mixin_def RCT_DIM_MAX_def is_clsag_def is_bulletproof_plus_def
  has_prunable_pseudo_outs_def wf_clsag_def wf_bulletproof_plus_def total_max_amounts_def max_amounts_def

lemma wf_sample_tx: "wf_tx sample_tx" and wf_sample_tx_9:
  "wf_tx (sample_tx\<lparr>tx_prefix := (tx_prefix sample_tx)\<lparr>unlock_time := 9\<rparr>\<rparr>)"
proof -
  have "wf_sizes sample_tx" and "wf_sizes (sample_tx\<lparr>tx_prefix := (tx_prefix sample_tx)\<lparr>unlock_time := 9\<rparr>\<rparr>)"
    by (simp_all add: sample_tx_def wf_sizes_def prefix_write_def write_base_def writer_defs write_bytes_prefixed_eq
        TxIn_write_def TxOut_write_def TxOutTarget_write_def write_ecdh_def varint_bytes.simps
        rct_is_null_def has_short_ecdh_def word_le_nat_alt)
  then show "wf_tx sample_tx" "wf_tx (sample_tx\<lparr>tx_prefix := (tx_prefix sample_tx)\<lparr>unlock_time := 9\<rparr>\<rparr>)"
    by (simp_all add: sample_tx_def wf_tx_defs)
qed

text \<open>C3. A well-formed transaction written to bytes and read back, whatever bytes precede and
  follow it, is the same transaction, with the same recorded sizes, and the reader stops exactly
  behind it.\<close>

theorem tx_roundtrip:
  assumes "wf_tx tx"
  shows "Transaction_read (reader_at pre (Transaction_write [] tx @ post)) =
    Inr (tx, reader_at (pre @ Transaction_write [] tx) post)"
  using assms by (rule tx_c.rd_wr)

theorem tx_roundtrip_witness:
  "Transaction_read (reader_at [1, 2] (Transaction_write [] sample_tx @ [3])) =
    Inr (sample_tx, reader_at ([1, 2] @ Transaction_write [] sample_tx) [3])"
  by (rule tx_roundtrip) (rule wf_sample_tx)

text \<open>No two well-formed transactions share an encoding, and none is a proper prefix of
  another's: what follows a transaction in a stream never changes how it is read.\<close>

theorem tx_prefix_free:
  assumes "wf_tx tx" "wf_tx tx'"
  shows "Transaction_write [] tx @ p = Transaction_write [] tx' @ q \<longleftrightarrow> tx = tx' \<and> p = q"
  using tx_c.prefix_free [OF assms] by auto

theorem tx_prefix_free_witness:
  "Transaction_write [] sample_tx @ [0] \<noteq> Transaction_write [] (sample_tx\<lparr>tx_prefix := (tx_prefix sample_tx)\<lparr>unlock_time := 9\<rparr>\<rparr>) @ [0]"
  by (subst tx_prefix_free [OF wf_sample_tx wf_sample_tx_9]) (simp add: sample_tx_def)

text \<open>The sizes a successful parse records are offsets into the blob, in order: the slices
  the transaction hash takes of the blob are always in range.\<close>

theorem from_blob_sizes:
  assumes "from_blob blob = Inr tx"
  shows "prefix_size tx \<le> unprunable_size tx \<and> unprunable_size tx \<le> length blob"
  using assms by (rule from_blob_bounds)

lemma from_blob_sample: "from_blob (Transaction_write [] sample_tx) = Inr sample_tx"
proof -
  have "Transaction_read (reader_new (Transaction_write [] sample_tx @ [])) =
      Inr (sample_tx, reader_at (Transaction_write [] sample_tx) [])"
    by (rule tx_c.read_new) (rule wf_sample_tx)
  moreover have "expand sample_tx = Inr ()"
    by (simp add: expand_def sample_tx_def is_bulletproof_plus_def max_amounts_def)
  ultimately show ?thesis by (simp add: from_blob_def)
qed

theorem from_blob_sizes_witness: "(80 :: nat) \<le> 123 \<and> 123 \<le> length (Transaction_write [] sample_tx)"
  using from_blob_sizes [OF from_blob_sample] by (simp add: sample_tx_def)

text \<open>On a blob the full parser accepts, the base-only parser, which reads neither the v1
  signatures nor the prunable half, returns the same prefix, the same sizes and the same RingCT
  base.\<close>

theorem from_blob_base_only_agrees:
  assumes "from_blob blob = Inr tx"
  shows "from_blob_base_only blob = Inr (tx_base_of tx)"
proof -
  obtain r where "read_parts False (reader_new blob) = Inr (tx, r)"
    using assms by (auto simp: from_blob_def Transaction_read_def)
  from read_parts_base [OF this] show ?thesis
    by (auto simp: from_blob_base_only_def Transaction_read_base_def)
qed

theorem from_blob_base_only_agrees_witness:
  "from_blob_base_only (Transaction_write [] sample_tx) = Inr (tx_base_of sample_tx)"
  by (rule from_blob_base_only_agrees) (rule from_blob_sample)

text \<open>A version 2 transaction whose first input has an empty ring is refused with the
  dimension error, the wrapped \<open>mixin\<close> being far above the limit.\<close>

theorem empty_ring_refused:
  assumes "wf_prefix p" "version p = 2" "vin p = ToKey amount [] k_image # ins"
  shows "from_blob (prefix_write [] p @ rest) = Inl (LimitExceeded ''rct dimension'')"
  using assms prefix_c.rd_wr [OF assms(1), of "[]" rest]
  by (simp add: from_blob_def Transaction_read_def read_parts_def reader_new_at Let_def rct_mixin_def
      RCT_DIM_MAX_def)

theorem empty_ring_refused_witness:
  "from_blob (prefix_write []
     \<lparr>version = 2, unlock_time = 0, vin = [ToKey 0 [] (replicate 32 7)], vout = [], extra = []\<rparr> @ [8, 8]) =
    Inl (LimitExceeded ''rct dimension'')"
  by (rule empty_ring_refused) (simp_all add: wf_prefix_def)

text \<open>The fee of a version 1 transaction is returned exactly when neither sum of amounts
  overflows and the inputs cover the outputs, and then it is the difference of the true sums.\<close>

theorem fee_v1_exact:
  assumes "version (tx_prefix tx) = 1"
  shows "fee tx = Some f \<longleftrightarrow>
    sum_list (map (unat \<circ> in_amount) (vin (tx_prefix tx))) < 2 ^ 64 \<and>
    sum_list (map (unat \<circ> in_amount) (vin (tx_prefix tx))) =
      sum_list (map (unat \<circ> out_amount) (vout (tx_prefix tx))) + unat f"
proof -
  let ?i = "sum_list (map (unat \<circ> in_amount) (vin (tx_prefix tx)))"
  let ?o = "sum_list (map (unat \<circ> out_amount) (vout (tx_prefix tx)))"
  have i: "checked_sum 0 (map in_amount (vin (tx_prefix tx))) =
      (if ?i < 2 ^ 64 then Some (word_of_nat ?i) else None)"
    using checked_sum_Some [of 0 "map in_amount (vin (tx_prefix tx))"]
    by (cases "checked_sum 0 (map in_amount (vin (tx_prefix tx)))") auto
  have out: "checked_sum 0 (map out_amount (vout (tx_prefix tx))) =
      (if ?o < 2 ^ 64 then Some (word_of_nat ?o) else None)"
    using checked_sum_Some [of 0 "map out_amount (vout (tx_prefix tx))"]
    by (cases "checked_sum 0 (map out_amount (vout (tx_prefix tx)))") auto
  have "checked_sub (word_of_nat ?i) (word_of_nat ?o) = Some f \<longleftrightarrow> ?i = ?o + unat f"
    if "?i < 2 ^ 64" "?o < 2 ^ 64"
    using that by (auto simp: checked_sub_def word_le_nat_alt unat_sub word_unat_eq_iff)
  then show ?thesis using assms by (auto simp: fee_def i out)
qed

theorem fee_v1_exact_witness:
  "fee (sample_tx\<lparr>tx_prefix := \<lparr>version = 1, unlock_time = 0, vin = [ToKey 10 [1] zero32, ToKey 5 [1] zero32],
     vout = [\<lparr>out_amount = 12, out_target = OutToKey zero32\<rparr>], extra = []\<rparr>\<rparr>) = Some 3"
  by (subst fee_v1_exact) simp_all

text \<open>The absolute offsets of a ring are returned exactly when their total fits 64 bits,
  and then they are the running sums of the relative ones, computed without wrapping.\<close>

theorem absolute_key_offsets_exact:
  "absolute_key_offsets (ToKey amount offs k_image) = Some ys \<longleftrightarrow>
     sum_list (map unat offs) < 2 ^ 64 \<and> map unat ys = running_sums 0 (map unat offs)"
proof (cases offs)
  case (Cons x xs)
  show ?thesis
    using absolute_offsets_loop_Some [of x xs "tl ys"] unat_bound [of x] unfolding Cons
    by (cases ys) (auto simp: word_unat_eq_iff)
qed auto

end
