(* ===== verification/TxExtra.thy ===== *)
theory TxExtra
  imports Tx
begin

text \<open>
  The \<open>tx_extra\<close> field, \<open>crates/wow-types/src/tx_extra.rs\<close>: its fields, the parser that keeps
  whatever it recovered, the lookups on its result and the serializer. The parser's loop over the
  index \<open>i\<close> is a recursive function; \<open>parse_extra_field\<close> is the body of its \<open>match\<close>, with \<open>None\<close>
  for an unknown tag, \<open>Inl\<close> for a malformed field and \<open>Inr\<close> for a field and the index behind it.
  Where the code adds a length from the blob to the index, the sum is taken modulo \<open>2 ^ 64\<close>.
\<close>

section \<open>Fields\<close>

datatype TxExtraField =
    Padding usize
  | Pubkey key32
  | Nonce bytes
  | MergeMining u64 bytes
  | AdditionalPubkeys "key32 list"
  | MysteriousMinergate bytes

datatype TxExtraError = BadPadding | PaddingTooLong | NonceTooLong | Truncated | BadVarint

record ParsedExtra =
  extra_fields :: "TxExtraField list"
  stopped_at_unknown_tag :: "u8 option"
  extra_error :: "TxExtraError option"

definition TX_EXTRA_NONCE_MAX_COUNT :: usize where "TX_EXTRA_NONCE_MAX_COUNT = 255"
definition TX_EXTRA_PADDING_MAX_COUNT :: usize where "TX_EXTRA_PADDING_MAX_COUNT = 255"

section \<open>Lookups\<close>

fun find_map :: "('a \<Rightarrow> 'b option) \<Rightarrow> 'a list \<Rightarrow> 'b option" where
  "find_map f [] = None"
| "find_map f (x # xs) = (case f x of None \<Rightarrow> find_map f xs | Some y \<Rightarrow> Some y)"

definition tx_pubkey :: "ParsedExtra \<Rightarrow> key32 option" where
  "tx_pubkey p = find_map (\<lambda>f. case f of Pubkey k \<Rightarrow> Some k | _ \<Rightarrow> None) (extra_fields p)"

definition additional_pubkeys :: "ParsedExtra \<Rightarrow> key32 list option" where
  "additional_pubkeys p = find_map (\<lambda>f. case f of AdditionalPubkeys k \<Rightarrow> Some k | _ \<Rightarrow> None) (extra_fields p)"

definition payment_id :: "ParsedExtra \<Rightarrow> bytes option" where
  "payment_id p = find_map (\<lambda>f. case f of
      Nonce n \<Rightarrow> if length n = 33 \<and> n ! 0 = 0x00 then Some (drop 1 n) else None | _ \<Rightarrow> None) (extra_fields p)"

definition encrypted_payment_id :: "ParsedExtra \<Rightarrow> bytes option" where
  "encrypted_payment_id p = find_map (\<lambda>f. case f of
      Nonce n \<Rightarrow> if length n = 9 \<and> n ! 0 = 0x01 then Some (drop 1 n) else None | _ \<Rightarrow> None) (extra_fields p)"

section \<open>Parsing\<close>

text \<open>\<open>extra.get(i..i + len)\<close> with the end computed in \<open>usize\<close>.\<close>

definition get_from :: "bytes \<Rightarrow> usize \<Rightarrow> usize \<Rightarrow> bytes option" where
  "get_from buf i len = slice_get buf i ((i + len) mod 2 ^ 64)"

fun zero_run :: "bytes \<Rightarrow> usize" where
  "zero_run [] = 0"
| "zero_run (b # bs) = (if b = 0 then zero_run bs + 1 else 0)"

function chunks32 :: "bytes \<Rightarrow> key32 list" where
  "chunks32 b = (if length b < 32 then [] else take 32 b # chunks32 (drop 32 b))"
  by pat_completeness auto
termination by (relation "measure length") auto

declare chunks32.simps [simp del]

definition parse_padding :: "bytes \<Rightarrow> usize \<Rightarrow> usize \<Rightarrow> TxExtraError + (TxExtraField \<times> usize)" where
  "parse_padding buf field_start i =
     (let n = zero_run (drop i buf); i = i + n; total = i - field_start in
      if TX_EXTRA_PADDING_MAX_COUNT < total then Inl PaddingTooLong
      else if i < length buf then Inl BadPadding
      else Inr (Padding (n + 1), i))"

definition parse_extra_varint :: "bytes \<Rightarrow> TxExtraError + (u64 \<times> usize)" where
  "parse_extra_varint b = (case read_varint b of Inl _ \<Rightarrow> Inl BadVarint | Inr x \<Rightarrow> Inr x)"

definition parse_merge_mining :: "bytes \<Rightarrow> usize \<Rightarrow> TxExtraError + (TxExtraField \<times> usize)" where
  "parse_merge_mining buf i =
     and_then (parse_extra_varint (drop i buf)) (\<lambda>(blob_len, used).
       let i = i + used; blob_len = unat blob_len in
       and_then (ok_or (get_from buf i blob_len) Truncated) (\<lambda>body.
         let i = i + blob_len in
         and_then (parse_extra_varint body) (\<lambda>(depth, d_used).
         and_then (ok_or (slice_get body d_used (d_used + 32)) Truncated) (\<lambda>root.
           Inr (MergeMining depth root, i)))))"

definition parse_additional :: "bytes \<Rightarrow> usize \<Rightarrow> TxExtraError + (TxExtraField \<times> usize)" where
  "parse_additional buf i =
     and_then (parse_extra_varint (drop i buf)) (\<lambda>(count, used).
       let i = i + used; count = unat count in
       and_then (ok_or (if i \<le> length buf \<and> count * 32 < 2 ^ 64
           then slice_get (drop i buf) 0 (count * 32) else None) Truncated) (\<lambda>body.
         Inr (AdditionalPubkeys (chunks32 body), i + count * 32)))"

definition parse_extra_field :: "bytes \<Rightarrow> usize \<Rightarrow> (TxExtraError + (TxExtraField \<times> usize)) option" where
  "parse_extra_field buf field_start =
     (let t = buf ! field_start; i = field_start + 1 in
      if t = 0x00 then Some (parse_padding buf field_start i)
      else if t = 0x01 then
        Some (and_then (ok_or (slice_get buf i (i + 32)) Truncated) (\<lambda>k. Inr (Pubkey k, i + 32)))
      else if t = 0x02 then
        Some (and_then (parse_extra_varint (drop i buf)) (\<lambda>(len, used).
          let i = i + used; len = unat len in
          if TX_EXTRA_NONCE_MAX_COUNT < len then Inl NonceTooLong
          else and_then (ok_or (get_from buf i len) Truncated) (\<lambda>n. Inr (Nonce n, i + len))))
      else if t = 0x03 then Some (parse_merge_mining buf i)
      else if t = 0x04 then Some (parse_additional buf i)
      else if t = 0xDE then
        Some (and_then (parse_extra_varint (drop i buf)) (\<lambda>(len, used).
          let i = i + used; len = unat len in
          and_then (ok_or (get_from buf i len) Truncated) (\<lambda>b. Inr (MysteriousMinergate b, i + len))))
      else None)"

lemma parse_extra_field_advances:
  "parse_extra_field buf i = Some (Inr (f, j)) \<Longrightarrow> i < j"
  by (auto simp: parse_extra_field_def parse_padding_def parse_merge_mining_def parse_additional_def
      Let_def split: if_splits)

function parse_tx_extra_loop :: "bytes \<Rightarrow> usize \<Rightarrow> ParsedExtra \<Rightarrow> ParsedExtra" where
  "parse_tx_extra_loop buf i out =
     (if i < length buf then
        case parse_extra_field buf i of
          None \<Rightarrow> out\<lparr>stopped_at_unknown_tag := Some (buf ! i)\<rparr>
        | Some (Inl e) \<Rightarrow> out\<lparr>extra_error := Some e\<rparr>
        | Some (Inr (f, j)) \<Rightarrow> parse_tx_extra_loop buf j (out\<lparr>extra_fields := extra_fields out @ [f]\<rparr>)
      else out)"
  by pat_completeness auto
termination
  by (relation "measure (\<lambda>(buf, i, out). length buf - i)") (auto dest: parse_extra_field_advances)

declare parse_tx_extra_loop.simps [simp del]

definition parse_tx_extra :: "bytes \<Rightarrow> ParsedExtra" where
  "parse_tx_extra buf =
     parse_tx_extra_loop buf 0 \<lparr>extra_fields = [], stopped_at_unknown_tag = None, extra_error = None\<rparr>"

section \<open>Serializing\<close>

fun field_tag :: "TxExtraField \<Rightarrow> u8" where
  "field_tag (Padding _) = 0x00"
| "field_tag (Pubkey _) = 0x01"
| "field_tag (Nonce _) = 0x02"
| "field_tag (MergeMining _ _) = 0x03"
| "field_tag (AdditionalPubkeys _) = 0x04"
| "field_tag (MysteriousMinergate _) = 0xDE"

definition write_field :: "bytes \<Rightarrow> TxExtraField \<Rightarrow> bytes" where
  "write_field out f =
     (let out = out @ [field_tag f] in
      case f of
        Padding len \<Rightarrow> out @ replicate (len - 1) 0
      | Pubkey k \<Rightarrow> out @ k
      | Nonce n \<Rightarrow> write_varint out (word_of_nat (length n)) @ n
      | MergeMining depth merkle_root \<Rightarrow>
          let body = write_varint [] depth @ merkle_root in write_varint out (word_of_nat (length body)) @ body
      | AdditionalPubkeys keys \<Rightarrow> foldl (@) (write_varint out (word_of_nat (length keys))) keys
      | MysteriousMinergate b \<Rightarrow> write_varint out (word_of_nat (length b)) @ b)"

definition serialize_tx_extra :: "TxExtraField list \<Rightarrow> bool \<Rightarrow> bytes" where
  "serialize_tx_extra fs sort_fields =
     foldl write_field [] (if sort_fields then sort_key field_tag fs else fs)"

section \<open>Round trip\<close>

lemma zero_run_replicate [simp]: "zero_run (replicate n 0 @ bs) = n + zero_run bs"
  by (induction n) auto

lemma zero_run_replicate_end [simp]: "zero_run (replicate n 0) = n"
  using zero_run_replicate [of n "[]"] by simp

lemma chunks32_concat: "keys32 ks \<Longrightarrow> chunks32 (concat ks) = ks"
proof (induction ks)
  case Nil
  show ?case by (simp add: chunks32.simps)
next
  case (Cons k ks)
  then have "length k = 32" "keys32 ks" by (simp_all add: keys32_def)
  with Cons.IH show ?case by (subst chunks32.simps) simp
qed

lemma length_concat_keys: "keys32 ks \<Longrightarrow> length (concat ks) = 32 * length ks"
  by (rule length_concat_const) (simp add: keys32_def)

lemma parse_extra_varint_at [codec_simps]:
  "parse_extra_varint (varint_bytes v @ post) = Inr (v, length (varint_bytes v))"
  using read_varint_bits_bytes [of v 64 post] unat_bound [of v]
  by (simp add: parse_extra_varint_def read_varint_def)

lemma get_from_at [codec_simps]:
  "length pre + length b < 2 ^ 64 \<Longrightarrow> get_from (pre @ b @ post) (length pre) (length b) = Some b"
  by (simp add: get_from_def slice_get_def)

lemma foldl_append_concat: "foldl (@) w xs = w @ concat xs"
  by (induction xs arbitrary: w) auto

fun wf_field :: "TxExtraField \<Rightarrow> bool" where
  "wf_field (Padding len) \<longleftrightarrow> 1 \<le> len \<and> len \<le> TX_EXTRA_PADDING_MAX_COUNT"
| "wf_field (Pubkey k) \<longleftrightarrow> length k = 32"
| "wf_field (Nonce n) \<longleftrightarrow> length n \<le> TX_EXTRA_NONCE_MAX_COUNT"
| "wf_field (MergeMining depth root) \<longleftrightarrow> length root = 32"
| "wf_field (AdditionalPubkeys ks) \<longleftrightarrow> keys32 ks"
| "wf_field (MysteriousMinergate b) \<longleftrightarrow> True"

fun is_padding :: "TxExtraField \<Rightarrow> bool" where
  "is_padding (Padding _) = True"
| "is_padding _ = False"

lemma write_field_bytes:
  "write_field [] (Padding len) = 0x00 # replicate (len - 1) 0"
  "write_field [] (Pubkey k) = 0x01 # k"
  "write_field [] (Nonce n) = 0x02 # varint_bytes (word_of_nat (length n)) @ n"
  "write_field [] (MergeMining depth root) =
     0x03 # varint_bytes (word_of_nat (length (varint_bytes depth @ root))) @ varint_bytes depth @ root"
  "write_field [] (AdditionalPubkeys ks) = 0x04 # varint_bytes (word_of_nat (length ks)) @ concat ks"
  "write_field [] (MysteriousMinergate b) = 0xDE # varint_bytes (word_of_nat (length b)) @ b"
  by (simp_all add: write_field_def write_varint_append foldl_append_concat)

lemma write_field_append: "write_field w f = w @ write_field [] f"
  by (cases f) (simp_all add: write_field_def Let_def write_varint_append foldl_append_concat)

lemma parse_extra_field_at:
  assumes "wf_field f" "is_padding f \<Longrightarrow> post = []" "length pre + length (write_field [] f) < 2 ^ 64"
  shows "parse_extra_field (pre @ write_field [] f @ post) (length pre) =
    Some (Inr (f, length pre + length (write_field [] f)))"
proof (cases f)
  case (Padding len)
  then show ?thesis using assms
    by (simp add: parse_extra_field_def parse_padding_def write_field_bytes Let_def)
next
  case (Pubkey k)
  then show ?thesis using assms
    by (simp add: parse_extra_field_def write_field_bytes slice_get_def)
next
  case (Nonce n)
  let ?v = "varint_bytes (word_of_nat (length n))"
  have "get_from ((pre @ 0x02 # ?v) @ n @ post) (length (pre @ 0x02 # ?v)) (length n) = Some n"
    by (rule get_from_at) (use assms Nonce in \<open>simp add: write_field_bytes\<close>)
  then show ?thesis using assms Nonce
    by (simp add: parse_extra_field_def write_field_bytes parse_extra_varint_at Let_def
        TX_EXTRA_NONCE_MAX_COUNT_def add.assoc)
next
  case (MergeMining depth root)
  define b where "b = varint_bytes depth @ root"
  let ?v = "varint_bytes (word_of_nat (length b))"
  have w: "write_field [] f = 0x03 # ?v @ b" by (simp add: MergeMining write_field_bytes b_def)
  have n: "length b < 2 ^ 64" using assms(3) by (simp add: w)
  have "get_from ((pre @ 0x03 # ?v) @ b @ post) (length (pre @ 0x03 # ?v)) (length b) = Some b"
    by (rule get_from_at) (use assms in \<open>simp add: w\<close>)
  moreover have "parse_extra_varint b = Inr (depth, length (varint_bytes depth))"
    by (simp add: b_def parse_extra_varint_at)
  moreover have "slice_get b (length (varint_bytes depth)) (length (varint_bytes depth) + 32) = Some root"
    using assms(1) MergeMining by (simp add: b_def slice_get_def)
  ultimately show ?thesis using n unfolding w
    by (simp add: parse_extra_field_def parse_merge_mining_def parse_extra_varint_at Let_def MergeMining)
next
  case (AdditionalPubkeys ks)
  have "length (concat ks) = 32 * length ks" "chunks32 (concat ks) = ks"
    using assms AdditionalPubkeys by (simp_all add: length_concat_keys chunks32_concat)
  then show ?thesis using assms AdditionalPubkeys
    by (simp add: parse_extra_field_def parse_additional_def write_field_bytes parse_extra_varint_at Let_def
        slice_get_def add.assoc mult.commute)
next
  case (MysteriousMinergate b)
  let ?v = "varint_bytes (word_of_nat (length b))"
  have "get_from ((pre @ 0xDE # ?v) @ b @ post) (length (pre @ 0xDE # ?v)) (length b) = Some b"
    by (rule get_from_at) (use assms MysteriousMinergate in \<open>simp add: write_field_bytes\<close>)
  then show ?thesis using assms MysteriousMinergate
    by (simp add: parse_extra_field_def write_field_bytes parse_extra_varint_at Let_def add.assoc)
qed

lemma foldl_write_field: "foldl write_field w fs = w @ foldl write_field [] fs"
  by (rule foldl_append_law) (rule write_field_append)

lemma foldl_write_field_Cons: "foldl write_field [] (f # fs) = write_field [] f @ foldl write_field [] fs"
  using foldl_write_field [of "write_field [] f" fs] by simp

lemma write_field_nonempty [simp]: "write_field [] f \<noteq> []"
  by (cases f) (simp_all add: write_field_bytes)

lemma parse_tx_extra_loop_at:
  assumes "\<And>f. f \<in> set fs \<Longrightarrow> wf_field f" "\<And>f. f \<in> set (butlast fs) \<Longrightarrow> \<not> is_padding f"
    "length pre + length (foldl write_field [] fs) < 2 ^ 64"
  shows "parse_tx_extra_loop (pre @ foldl write_field [] fs) (length pre) out =
    out\<lparr>extra_fields := extra_fields out @ fs\<rparr>"
  using assms
proof (induction fs arbitrary: pre out)
  case Nil
  show ?case by (simp add: parse_tx_extra_loop.simps)
next
  case (Cons f fs)
  let ?b = "write_field [] f" and ?r = "foldl write_field [] fs"
  have len: "length pre + length ?b + length ?r < 2 ^ 64" using Cons.prems(3)
    by (simp add: foldl_write_field_Cons del: foldl_Cons)
  have "parse_extra_field (pre @ ?b @ ?r) (length pre) = Some (Inr (f, length pre + length ?b))"
  proof (rule parse_extra_field_at)
    show "is_padding f \<Longrightarrow> ?r = []" using Cons.prems(2) [of f] by (cases fs) auto
  qed (use Cons.prems len in auto)
  then have "parse_tx_extra_loop (pre @ ?b @ ?r) (length pre) out =
      parse_tx_extra_loop ((pre @ ?b) @ ?r) (length (pre @ ?b)) (out\<lparr>extra_fields := extra_fields out @ [f]\<rparr>)"
    by (subst parse_tx_extra_loop.simps) simp
  also have "\<dots> = out\<lparr>extra_fields := extra_fields out @ f # fs\<rparr>"
  proof (subst Cons.IH)
    show "\<not> is_padding g" if "g \<in> set (butlast fs)" for g
      using Cons.prems(2) [of g] that by (cases fs) auto
  qed (use Cons.prems len in auto)
  finally show ?case by (simp only: foldl_write_field_Cons append_assoc)
qed

section \<open>Properties\<close>

text \<open>C38. Fields that fit their limits, padding only at the end, are parsed back from what the
  serializer writes, in the order it wrote them, with no error and no unknown tag.\<close>

theorem tx_extra_roundtrip:
  assumes "\<forall>f \<in> set fs. wf_field f" "gs = (if sort_fields then sort_key field_tag fs else fs)"
    "\<forall>f \<in> set (butlast gs). \<not> is_padding f" "length (serialize_tx_extra fs sort_fields) < 2 ^ 64"
  shows "parse_tx_extra (serialize_tx_extra fs sort_fields) =
    \<lparr>extra_fields = gs, stopped_at_unknown_tag = None, extra_error = None\<rparr>"
proof -
  have "set gs = set fs" using assms(2) by simp
  then show ?thesis using parse_tx_extra_loop_at [of gs "[]"] assms(1,3,4)
    unfolding serialize_tx_extra_def assms(2) [symmetric] by (simp add: parse_tx_extra_def)
qed

theorem tx_extra_roundtrip_witness:
  "parse_tx_extra (serialize_tx_extra [Nonce [1, 2, 3], Pubkey (replicate 32 1)] True) =
    \<lparr>extra_fields = [Pubkey (replicate 32 1), Nonce [1, 2, 3]],
      stopped_at_unknown_tag = None, extra_error = None\<rparr>"
  by (rule tx_extra_roundtrip)
    (simp_all add: TX_EXTRA_NONCE_MAX_COUNT_def TX_EXTRA_PADDING_MAX_COUNT_def serialize_tx_extra_def
      write_field_def write_varint.simps word_le_nat_alt)

text \<open>The sorted form puts the paddings, of the smallest tag, before the other fields.\<close>

lemma insort_after: "\<forall>a \<in> set as. f a < f x \<Longrightarrow> insort_key f x (as @ bs) = as @ insort_key f x bs"
  by (induction as) auto

lemma sort_key_least_first:
  fixes f :: "'b \<Rightarrow> 'a::len word"
  shows "sort_key f xs = filter (\<lambda>x. f x = 0) xs @ sort_key f (filter (\<lambda>x. f x \<noteq> 0) xs)"
proof (induction xs)
  case (Cons x xs)
  show ?case
  proof (cases "f x = 0")
    case True
    then show ?thesis using Cons by (simp add: insort_is_Cons)
  next
    case False
    then have "\<forall>a \<in> set (filter (\<lambda>x. f x = 0) xs). f a < f x" by (simp add: word_gt_0)
    from insort_after [OF this] False Cons show ?thesis by simp
  qed
qed simp

lemma field_tag_zero: "field_tag f = 0 \<longleftrightarrow> is_padding f"
  by (cases f) simp_all

text \<open>The bytes all paddings of a list take.\<close>

definition padding_bytes :: "TxExtraField list \<Rightarrow> nat" where
  "padding_bytes fs = sum_list (map (\<lambda>f. length (write_field [] f)) (filter is_padding fs))"

lemma paddings_are_zeros: "\<forall>f \<in> set ps. is_padding f \<Longrightarrow>
    foldl write_field [] ps = replicate (sum_list (map (\<lambda>f. length (write_field [] f)) ps)) 0"
proof (induction ps)
  case (Cons p ps)
  then obtain n where p: "p = Padding n" by (cases p) auto
  have "write_field [] p = replicate (length (write_field [] p)) 0" by (simp add: p write_field_def replicate_append_same flip: replicate_Suc)
  then show ?case using Cons by (simp add: foldl_write_field_Cons replicate_add del: foldl.simps)
qed simp

lemma field_starts_with_tag: "\<exists>r. write_field [] f = field_tag f # r"
  by (cases f) (simp_all add: write_field_bytes)

lemma parse_leading_zeros:
  assumes "0 < n" "t \<noteq> 0"
  shows "parse_tx_extra (replicate n 0 @ t # r) =
    \<lparr>extra_fields = [], stopped_at_unknown_tag = None,
     extra_error = Some (if TX_EXTRA_PADDING_MAX_COUNT < n then PaddingTooLong else BadPadding)\<rparr>"
proof -
  have "drop 1 (replicate n 0 @ t # r) = replicate (n - 1) 0 @ t # r" using assms(1) by (cases n) simp_all
  then have "zero_run (drop 1 (replicate n 0 @ t # r)) = n - 1" using assms(2) by simp
  then have "parse_extra_field (replicate n 0 @ t # r) 0 =
      Some (Inl (if TX_EXTRA_PADDING_MAX_COUNT < n then PaddingTooLong else BadPadding))"
    using assms(1) by (simp add: parse_extra_field_def parse_padding_def Let_def nth_append)
  then show ?thesis by (simp add: parse_tx_extra_def parse_tx_extra_loop.simps)
qed

text \<open>C40. The sorted form of any list of fields that has padding and something else cannot be read back: the
  paddings come first, the parser takes them for one that has to run to the end, and answers with an
  error and no field at all.\<close>

theorem sorted_padding_unparsable:
  assumes "\<exists>f \<in> set fs. is_padding f" "\<exists>f \<in> set fs. \<not> is_padding f"
  shows "parse_tx_extra (serialize_tx_extra fs True) =
    \<lparr>extra_fields = [], stopped_at_unknown_tag = None,
     extra_error = Some (if TX_EXTRA_PADDING_MAX_COUNT < padding_bytes fs then PaddingTooLong else BadPadding)\<rparr>"
proof -
  let ?q = "sort_key field_tag (filter (\<lambda>f. \<not> is_padding f) fs)"
  have "set ?q \<noteq> {}" using assms(2) by auto
  then obtain g gs where q: "?q = g # gs" by (cases ?q) auto
  then have "g \<in> set ?q" by simp
  then have g: "field_tag g \<noteq> 0" by (simp add: field_tag_zero)
  have "filter is_padding fs \<noteq> []" using assms(1) by (auto simp: filter_empty_conv)
  then have "0 < padding_bytes fs" by (cases "filter is_padding fs") (simp_all add: padding_bytes_def)
  have "serialize_tx_extra fs True = foldl write_field [] (filter is_padding fs @ ?q)"
    using sort_key_least_first [of field_tag fs] by (simp add: serialize_tx_extra_def field_tag_zero)
  also have "\<dots> = replicate (padding_bytes fs) 0 @ write_field [] g @ foldl write_field [] gs"
  proof -
    have "foldl write_field [] (filter is_padding fs) = replicate (padding_bytes fs) 0" by (simp add: paddings_are_zeros padding_bytes_def)
    then have "foldl write_field [] (filter is_padding fs @ ?q) = foldl write_field (replicate (padding_bytes fs) 0) (g # gs)" by (simp add: q)
    also have "\<dots> = replicate (padding_bytes fs) 0 @ foldl write_field [] (g # gs)" by (rule foldl_write_field)
    finally show ?thesis by (simp only: foldl_write_field_Cons)
  qed
  finally show ?thesis
    using field_starts_with_tag [of g] parse_leading_zeros [OF \<open>0 < padding_bytes fs\<close> g] by auto
qed

theorem sorted_padding_unparsable_witness:
  "parse_tx_extra (serialize_tx_extra [Nonce [1, 2], Padding 3, Pubkey (replicate 32 1)] True) =
      \<lparr>extra_fields = [], stopped_at_unknown_tag = None, extra_error = Some BadPadding\<rparr>"
  using sorted_padding_unparsable [of "[Nonce [1, 2], Padding 3, Pubkey (replicate 32 1)]"]
  by (simp add: TX_EXTRA_PADDING_MAX_COUNT_def padding_bytes_def write_field_bytes)

end
