(* ===== verification/Keccak.thy ===== *)
theory Keccak
  imports Prelude
begin

text \<open>
  Keccak-f[1600] and Keccak-256 with the original padding, \<open>crates/wow-crypto/src/keccak.rs\<close>. The
  state is the list of its 25 lanes; the loops of the code, which update the array in place, are
  folds over the same indices. The round is shown to be the textbook composition of
  \<open>\<theta>\<close>, \<open>\<rho>\<close>, \<open>\<pi>\<close>, \<open>\<chi>\<close>
  and \<open>\<iota>\<close> on the 5 by 5 matrix of lanes.
\<close>

section \<open>The permutation\<close>

definition HASH_DATA_AREA :: usize where "HASH_DATA_AREA = 136"
definition HASH_STATE_BYTES :: usize where "HASH_STATE_BYTES = 200"

definition RC :: "u64 list" where
  "RC = [0x0000000000000001, 0x0000000000008082, 0x800000000000808a, 0x8000000080008000,
    0x000000000000808b, 0x0000000080000001, 0x8000000080008081, 0x8000000000008009,
    0x000000000000008a, 0x0000000000000088, 0x0000000080008009, 0x000000008000000a,
    0x000000008000808b, 0x800000000000008b, 0x8000000000008089, 0x8000000000008003,
    0x8000000000008002, 0x8000000000000080, 0x000000000000800a, 0x800000008000000a,
    0x8000000080008081, 0x8000000000008080, 0x0000000080000001, 0x8000000080008008]"

definition ROTC :: "nat list" where
  "ROTC = [1, 3, 6, 10, 15, 21, 28, 36, 45, 55, 2, 14, 27, 41, 56, 8, 25, 43, 62, 18, 39, 61, 20, 44]"

definition PILN :: "usize list" where
  "PILN = [10, 7, 11, 17, 18, 3, 5, 16, 8, 21, 24, 4, 15, 23, 19, 13, 12, 2, 20, 14, 22, 9, 6, 1]"

definition keccak_theta :: "u64 list \<Rightarrow> u64 list" where
  "keccak_theta st =
     (let bc = map (\<lambda>i. st ! i XOR st ! (i + 5) XOR st ! (i + 10) XOR st ! (i + 15) XOR st ! (i + 20)) [0..<5] in
      foldl (\<lambda>st i.
        let t = bc ! ((i + 4) mod 5) XOR word_rotl 1 (bc ! ((i + 1) mod 5)) in
        foldl (\<lambda>st j. st[j + i := st ! (j + i) XOR t]) st [0, 5, 10, 15, 20]) st [0..<5])"

definition keccak_rho_pi :: "u64 list \<Rightarrow> u64 list" where
  "keccak_rho_pi st =
     fst (foldl (\<lambda>(st, t) i. (st[PILN ! i := word_rotl (ROTC ! i) t], st ! (PILN ! i))) (st, st ! 1) [0..<24])"

definition keccak_chi :: "u64 list \<Rightarrow> u64 list" where
  "keccak_chi st =
     foldl (\<lambda>st j.
       let bc = take 5 (drop j st) in
       foldl (\<lambda>st i. st[j + i := bc ! i XOR (NOT (bc ! ((i + 1) mod 5)) AND bc ! ((i + 2) mod 5))]) st [0..<5])
     st [0, 5, 10, 15, 20]"

definition keccak_round :: "u64 list \<Rightarrow> u64 \<Rightarrow> u64 list" where
  "keccak_round st rc =
     (let st = keccak_chi (keccak_rho_pi (keccak_theta st)) in st[0 := st ! 0 XOR rc])"

definition keccakf :: "u64 list \<Rightarrow> u64 list" where
  "keccakf st = foldl keccak_round st RC"

section \<open>The sponge\<close>

fun absorb_loop :: "u64 list \<Rightarrow> usize \<Rightarrow> bytes list \<Rightarrow> u64 list" where
  "absorb_loop st i [] = st"
| "absorb_loop st i (w # ws) = absorb_loop (st[i := st ! i XOR u64_from_le_bytes w]) (i + 1) ws"

text \<open>\<open>as_chunks::<n>()\<close>: the full chunks, and the remainder.\<close>

fun as_chunks :: "nat \<Rightarrow> bytes \<Rightarrow> bytes list \<times> bytes" where
  "as_chunks n b =
     (if n = 0 \<or> length b < n then ([], b)
      else let (cs, r) = as_chunks n (drop n b) in (take n b # cs, r))"

declare as_chunks.simps [simp del]

definition absorb :: "u64 list \<Rightarrow> bytes \<Rightarrow> u64 list" where
  "absorb st block = absorb_loop st 0 (fst (as_chunks 8 block))"

definition last_block :: "bytes \<Rightarrow> bytes" where
  "last_block rem =
     (let last = rem @ replicate (HASH_DATA_AREA - length rem) 0;
          last = last[length rem := 0x01]
      in last[HASH_DATA_AREA - 1 := last ! (HASH_DATA_AREA - 1) OR 0x80])"

definition sponge :: "bytes \<Rightarrow> u64 list" where
  "sponge data =
     (let (blocks, rem) = as_chunks HASH_DATA_AREA data;
          st = foldl (\<lambda>st block. keccakf (absorb st block)) (replicate 25 0) blocks
      in keccakf (absorb st (last_block rem)))"

definition keccak256 :: "bytes \<Rightarrow> bytes" where
  "keccak256 data = concat (map u64_to_le_bytes (take 4 (sponge data)))"

definition keccak1600 :: "bytes \<Rightarrow> bytes" where
  "keccak1600 data = concat (map u64_to_le_bytes (take 25 (sponge data)))"

section \<open>The round is the textbook round\<close>

text \<open>A lane of the matrix, and the steps of the round by coordinates.\<close>

definition lane :: "u64 list \<Rightarrow> nat \<Rightarrow> nat \<Rightarrow> u64" where "lane st x y = st ! (x mod 5 + 5 * (y mod 5))"

definition matrix :: "(nat \<Rightarrow> nat \<Rightarrow> u64) \<Rightarrow> u64 list" where
  "matrix f = map (\<lambda>k. f (k mod 5) (k div 5)) [0..<25]"

definition theta_col :: "u64 list \<Rightarrow> nat \<Rightarrow> u64" where
  "theta_col st x = lane st x 0 XOR lane st x 1 XOR lane st x 2 XOR lane st x 3 XOR lane st x 4"

definition spec_theta :: "u64 list \<Rightarrow> u64 list" where
  "spec_theta st = matrix (\<lambda>x y. lane st x y XOR (theta_col st (x + 4) XOR word_rotl 1 (theta_col st (x + 1))))"

text \<open>The offsets of the specification: \<open>(t + 1) * (t + 2) / 2\<close> along the walk
  \<open>(x, y) \<mapsto> (y, 2 x + 3 y)\<close> from \<open>(1, 0)\<close>.\<close>

fun rho_walk :: "nat \<Rightarrow> nat \<times> nat" where
  "rho_walk 0 = (1, 0)"
| "rho_walk (Suc t) = (case rho_walk t of (x, y) \<Rightarrow> (y, (2 * x + 3 * y) mod 5))"

definition rho_offset :: "nat \<Rightarrow> nat \<Rightarrow> nat" where
  "rho_offset x y =
     (case find (\<lambda>t. rho_walk t = (x, y)) [0..<24] of None \<Rightarrow> 0 | Some t \<Rightarrow> (t + 1) * (t + 2) div 2 mod 64)"

definition spec_rho :: "u64 list \<Rightarrow> u64 list" where
  "spec_rho st = matrix (\<lambda>x y. word_rotl (rho_offset x y) (lane st x y))"

definition spec_pi :: "u64 list \<Rightarrow> u64 list" where
  "spec_pi st = matrix (\<lambda>x y. lane st (x + 3 * y) x)"

definition spec_chi :: "u64 list \<Rightarrow> u64 list" where
  "spec_chi st = matrix (\<lambda>x y. lane st x y XOR (NOT (lane st (x + 1) y) AND lane st (x + 2) y))"

definition spec_iota :: "u64 \<Rightarrow> u64 list \<Rightarrow> u64 list" where
  "spec_iota rc st = matrix (\<lambda>x y. if x = 0 \<and> y = 0 then lane st 0 0 XOR rc else lane st x y)"

lemma state_exhaust:
  assumes "length st = 25"
  obtains a0 a1 a2 a3 a4 a5 a6 a7 a8 a9 a10 a11 a12 a13 a14 a15 a16 a17 a18 a19 a20 a21 a22 a23 a24
  where "st = [a0, a1, a2, a3, a4, a5, a6, a7, a8, a9, a10, a11, a12, a13, a14, a15, a16, a17, a18,
    a19, a20, a21, a22, a23, a24]"
  using assms by (auto simp: numeral_eq_Suc length_Suc_conv)

lemma upt_5: "[0..<5] = [0, 1, 2, 3, 4]" by (simp add: upt_conv_Cons)

lemma theta_eq: "length st = 25 \<Longrightarrow> keccak_theta st = spec_theta st"
  by (erule state_exhaust)
    (simp add: keccak_theta_def spec_theta_def matrix_def theta_col_def lane_def upt_conv_Cons Let_def
      xor.assoc)

lemma chi_eq: "length st = 25 \<Longrightarrow> keccak_chi st = spec_chi st"
  by (erule state_exhaust)
    (simp add: keccak_chi_def spec_chi_def matrix_def lane_def upt_conv_Cons Let_def)

lemma rho_offsets:
  "rho_offset 0 0 = 0"
  "rho_offset (Suc 0) 0 = 1"
  "rho_offset 2 0 = 62"
  "rho_offset (Suc (Suc 0)) 0 = 62"
  "rho_offset 3 0 = 28"
  "rho_offset 4 0 = 27"
  "rho_offset 0 (Suc 0) = 36"
  "rho_offset (Suc 0) (Suc 0) = 44"
  "rho_offset 2 (Suc 0) = 6"
  "rho_offset 3 (Suc 0) = 55"
  "rho_offset 4 (Suc 0) = 20"
  "rho_offset 0 2 = 3"
  "rho_offset (Suc 0) 2 = 10"
  "rho_offset 2 2 = 43"
  "rho_offset 3 2 = 25"
  "rho_offset 4 2 = 39"
  "rho_offset 0 3 = 41"
  "rho_offset (Suc 0) 3 = 45"
  "rho_offset 2 3 = 15"
  "rho_offset 3 3 = 21"
  "rho_offset 4 3 = 8"
  "rho_offset 0 4 = 18"
  "rho_offset (Suc 0) 4 = 2"
  "rho_offset 2 4 = 61"
  "rho_offset 3 4 = 56"
  "rho_offset 4 4 = 14"
  by code_simp+

lemma rotl_0 [simp]: "word_rotl 0 (w :: u64) = w"
  by (rule bit_eqI) (simp add: bit_word_rotl_iff)

lemma rho_pi_eq: "length st = 25 \<Longrightarrow> keccak_rho_pi st = spec_pi (spec_rho st)"
  by (erule state_exhaust)
    (simp add: keccak_rho_pi_def spec_pi_def spec_rho_def matrix_def lane_def PILN_def ROTC_def upt_conv_Cons
      rho_offsets)

lemma length_matrix [simp]: "length (matrix f) = 25"
  by (simp add: matrix_def)

lemma length_spec_steps [simp]:
  "length (spec_theta st) = 25" "length (spec_rho st) = 25" "length (spec_pi st) = 25"
  "length (spec_chi st) = 25" "length (spec_iota rc st) = 25"
  by (simp_all add: spec_theta_def spec_rho_def spec_pi_def spec_chi_def spec_iota_def)

lemma iota_eq: "length st = 25 \<Longrightarrow> st[0 := st ! 0 XOR rc] = spec_iota rc st"
  by (erule state_exhaust) (simp add: spec_iota_def matrix_def lane_def upt_conv_Cons)

lemma round_eq:
  "length st = 25 \<Longrightarrow>
    keccak_round st rc = spec_iota rc (spec_chi (spec_pi (spec_rho (spec_theta st))))"
  by (simp add: keccak_round_def theta_eq rho_pi_eq chi_eq Let_def iota_eq)

lemma length_keccakf [simp]: "length st = 25 \<Longrightarrow> length (keccakf st) = 25"
proof -
  have "length st = 25 \<Longrightarrow> length (foldl keccak_round st rcs) = 25" for rcs
    by (induction rcs arbitrary: st) (simp_all add: round_eq)
  then show "length st = 25 \<Longrightarrow> length (keccakf st) = 25" by (simp add: keccakf_def)
qed

section \<open>Padding\<close>

lemma length_absorb_loop [simp]: "length (absorb_loop st i ws) = length st"
  by (induction st i ws rule: absorb_loop.induct) auto

lemma length_absorb [simp]: "length (absorb st b) = length st"
  by (simp add: absorb_def)

lemma length_absorb_blocks [simp]:
  "length st = 25 \<Longrightarrow> length (foldl (\<lambda>st b. keccakf (absorb st b)) st bs) = 25"
  by (induction bs arbitrary: st) auto

lemma length_sponge [simp]: "length (sponge data) = 25"
  by (simp add: sponge_def Let_def split: prod.split)

lemma as_chunks_Cons:
  "0 < n \<Longrightarrow> length b = n \<Longrightarrow>
    as_chunks n (b @ rest) = (b # fst (as_chunks n rest), snd (as_chunks n rest))"
  by (subst as_chunks.simps) (simp add: case_prod_beta)

lemma as_chunks_concat:
  "0 < n \<Longrightarrow> (\<And>b. b \<in> set bs \<Longrightarrow> length b = n) \<Longrightarrow> length r < n \<Longrightarrow> as_chunks n (concat bs @ r) = (bs, r)"
proof (induction bs)
  case Nil
  then show ?case by (subst as_chunks.simps) simp
qed (simp add: as_chunks_Cons)

lemma as_chunks_parts:
  assumes "0 < n"
  shows "concat (fst (as_chunks n b)) @ snd (as_chunks n b) = b \<and> length (snd (as_chunks n b)) < n \<and>
    (\<forall>c \<in> set (fst (as_chunks n b)). length c = n)"
  using assms
proof (induction n b rule: as_chunks.induct)
  case (1 n b)
  show ?case
  proof (cases "length b < n")
    case True
    then have "as_chunks n b = ([], b)" by (subst as_chunks.simps) simp
    with True show ?thesis by simp
  next
    case False
    then have e: "as_chunks n b = (take n b # fst (as_chunks n (drop n b)), snd (as_chunks n (drop n b)))"
      using 1(2) by (subst as_chunks.simps) (simp add: case_prod_beta)
    let ?c = "as_chunks n (drop n b)"
    have d: "concat (fst ?c) @ snd ?c = drop n b \<and> length (snd ?c) < n \<and> (\<forall>c \<in> set (fst ?c). length c = n)"
      by (rule 1(1)) (use False 1(2) in simp_all)
    then have "(take n b @ concat (fst ?c)) @ snd ?c = b"
      by (metis append_assoc append_take_drop_id)
    moreover have "length (take n b) = n" using False by simp
    then have "\<forall>c \<in> set (take n b # fst ?c). length c = n" using d by (metis set_ConsD)
    ultimately show ?thesis using d by (simp only: e fst_conv snd_conv concat.simps simp_thms)
  qed
qed

text \<open>The padding of the original Keccak: a \<open>1\<close> bit, zeros, and a final \<open>1\<close> bit, as bytes.\<close>

definition keccak_pad :: "usize \<Rightarrow> bytes" where
  "keccak_pad n =
     (let k = HASH_DATA_AREA - n mod HASH_DATA_AREA in
      if k = 1 then [0x81] else 0x01 # replicate (k - 2) 0 @ [0x80])"

lemma last_block_eq:
  assumes "length rem < HASH_DATA_AREA"
  shows "last_block rem = rem @ keccak_pad (length rem)"
proof (cases "HASH_DATA_AREA - length rem")
  case 0
  then show ?thesis using assms by simp
next
  case (Suc k)
  then have n: "HASH_DATA_AREA - Suc 0 = length rem + k" "HASH_DATA_AREA - length rem = Suc k"
    and m: "length rem mod HASH_DATA_AREA = length rem" using assms by auto
  show ?thesis
    by (cases k) (simp_all add: last_block_def keccak_pad_def n m Let_def list_update_append nth_append
        replicate_append_same [symmetric])
qed

lemma length_keccak_pad: "length (keccak_pad n) = HASH_DATA_AREA - n mod HASH_DATA_AREA"
proof -
  have "n mod HASH_DATA_AREA < HASH_DATA_AREA" by (simp add: HASH_DATA_AREA_def)
  then show ?thesis by (auto simp: keccak_pad_def Let_def)
qed

lemma sponge_eq:
  "sponge data = foldl (\<lambda>st b. keccakf (absorb st b)) (replicate 25 0)
     (fst (as_chunks HASH_DATA_AREA (data @ keccak_pad (length data))))"
proof -
  obtain bs r where c: "as_chunks HASH_DATA_AREA data = (bs, r)" by fastforce
  have p: "0 < HASH_DATA_AREA" by (simp add: HASH_DATA_AREA_def)
  from as_chunks_parts [OF this, of data] have d: "data = concat bs @ r" "length r < HASH_DATA_AREA"
    "\<And>b. b \<in> set bs \<Longrightarrow> length b = HASH_DATA_AREA" by (auto simp: c)
  have "length (concat bs) = HASH_DATA_AREA * length bs"
    using d(3) by (induction bs) auto
  then have m: "length data mod HASH_DATA_AREA = length r" using d(1,2) by simp
  then have pad: "keccak_pad (length data) = keccak_pad (length r)"
    using d(2) by (simp add: keccak_pad_def)
  have l: "length (last_block r) = HASH_DATA_AREA"
    using last_block_eq [OF d(2)] length_keccak_pad [of "length r"] d(2) by simp
  have "data @ keccak_pad (length data) = concat (bs @ [last_block r])"
    unfolding pad using last_block_eq [OF d(2)] by (simp add: d(1))
  moreover have "as_chunks HASH_DATA_AREA (concat (bs @ [last_block r]) @ []) = (bs @ [last_block r], [])"
    by (rule as_chunks_concat) (use p d(3) l in auto)
  ultimately show ?thesis by (simp add: sponge_def c)
qed

lemma length_keccak256 [simp, len_simps]: "length (keccak256 data) = 32"
proof -
  have "length (concat (map u64_to_le_bytes xs)) = 8 * length xs" for xs by (induction xs) auto
  then show ?thesis by (simp add: keccak256_def)
qed

section \<open>Properties\<close>

text \<open>C27. The permutation of the code, which rewrites the state in place with the two tables,
  is the 24-fold textbook round: column parities, rotation by the triangular offsets, the
  transposition \<open>(x, y) \<mapsto> (y, 2 x + 3 y)\<close>, the row map and the round constant.\<close>

theorem keccakf_textbook:
  assumes "length st = 25"
  shows "keccakf st = foldl (\<lambda>st rc. spec_iota rc (spec_chi (spec_pi (spec_rho (spec_theta st))))) st RC"
proof -
  have "length st = 25 \<Longrightarrow> foldl keccak_round st rcs =
      foldl (\<lambda>st rc. spec_iota rc (spec_chi (spec_pi (spec_rho (spec_theta st))))) st rcs" for st rcs
    by (induction rcs arbitrary: st) (simp_all add: round_eq)
  then show ?thesis using assms by (simp add: keccakf_def)
qed

theorem keccakf_textbook_witness:
  "keccakf (replicate 25 0) =
    foldl (\<lambda>st rc. spec_iota rc (spec_chi (spec_pi (spec_rho (spec_theta st))))) (replicate 25 0) RC"
  by (rule keccakf_textbook) simp

text \<open>Absorbing the whole blocks and then the block built in a buffer is absorbing the
  blocks of the padded message, and the digest has 32 bytes.\<close>

theorem keccak256_padded:
  "keccak256 data = concat (map u64_to_le_bytes (take 4
     (foldl (\<lambda>st b. keccakf (absorb st b)) (replicate 25 0)
       (fst (as_chunks HASH_DATA_AREA (data @ keccak_pad (length data))))))) \<and>
   length (keccak256 data) = 32"
  using length_keccak256 [of data] unfolding keccak256_def sponge_eq [symmetric] by simp

end
