(* ===== verification/Hash.thy ===== *)
theory Hash
  imports Keccak
begin

text \<open>
  \<open>cn_fast_hash\<close> and the transaction Merkle root, \<open>crates/wow-crypto/src/hash.rs\<close>. The root is
  computed in one buffer that is overwritten level by level; it is shown to be the root of the
  tree its documentation describes, and to bind its leaves: two different leaf lists of one
  length with the same root give a collision of \<open>cn_fast_hash\<close>.
\<close>

type_synonym Hash256 = bytes

definition NULL_HASH :: Hash256 where "NULL_HASH = replicate 32 0"

definition cn_fast_hash :: "bytes \<Rightarrow> Hash256" where "cn_fast_hash data = keccak256 data"

definition get_blob_hash :: "bytes \<Rightarrow> Hash256" where "get_blob_hash blob = cn_fast_hash blob"

definition TREE_HASH_MAX_COUNT :: usize where "TREE_HASH_MAX_COUNT = 0x10000000"

text \<open>\<open>while pow < count { pow <<= 1 }\<close>. The only caller passes at most \<open>TREE_HASH_MAX_COUNT\<close>,
  so the shift never overflows; \<open>pow\<close> starts at 2 and is never 0.\<close>

function tree_hash_cnt_loop :: "usize \<Rightarrow> usize \<Rightarrow> usize" where
  "tree_hash_cnt_loop pow leaves = (if 0 < pow \<and> pow < leaves then tree_hash_cnt_loop (pow * 2) leaves else pow)"
  by pat_completeness auto
termination by (relation "measure (\<lambda>(pow, leaves). leaves - pow)") auto

declare tree_hash_cnt_loop.simps [simp del]

definition tree_hash_cnt :: "usize \<Rightarrow> usize" where
  "tree_hash_cnt leaves = tree_hash_cnt_loop 2 leaves div 2"

definition hash_pair :: "Hash256 \<Rightarrow> Hash256 \<Rightarrow> Hash256" where
  "hash_pair a b = cn_fast_hash (a @ b)"

text \<open>The slots \<open>k..cnt\<close>, with the index \<open>i\<close> into the leaves advancing by two.\<close>

definition pair_leaves :: "Hash256 list \<Rightarrow> Hash256 list \<Rightarrow> usize \<Rightarrow> usize \<Rightarrow> Hash256 list \<times> usize" where
  "pair_leaves hashes ints k cnt =
     foldl (\<lambda>(ints, i) slot. (ints[slot := hash_pair (hashes ! i) (hashes ! (i + 1))], i + 2)) (ints, k) [k..<cnt]"

definition reduce_level :: "Hash256 list \<Rightarrow> usize \<Rightarrow> Hash256 list" where
  "reduce_level ints cnt =
     foldl (\<lambda>ints j. ints[j := hash_pair (ints ! (2 * j)) (ints ! (2 * j + 1))]) ints [0..<cnt]"

fun tree_reduce :: "Hash256 list \<Rightarrow> usize \<Rightarrow> Hash256" where
  "tree_reduce ints cnt =
     (if 2 < cnt then tree_reduce (reduce_level ints (cnt div 2)) (cnt div 2)
      else hash_pair (ints ! 0) (ints ! 1))"

declare tree_reduce.simps [simp del]

definition tree_hash :: "Hash256 list \<Rightarrow> Hash256 option" where
  "tree_hash hashes =
     (let leaves = length hashes in
      if leaves = 0 then None
      else if TREE_HASH_MAX_COUNT < leaves then None
      else if leaves = 1 then Some (hashes ! 0)
      else if leaves = 2 then Some (hash_pair (hashes ! 0) (hashes ! 1))
      else
        let cnt = tree_hash_cnt leaves;
            ints = replicate cnt NULL_HASH;
            k = 2 * cnt - leaves;
            ints = take k hashes @ drop k ints;
            ints = fst (pair_leaves hashes ints k cnt)
        in Some (tree_reduce ints cnt))"

section \<open>The number of slots\<close>

lemma tree_hash_cnt_loop_props:
  "pow = 2 ^ Suc m \<Longrightarrow> 2 ^ m < leaves \<Longrightarrow>
    \<exists>m'. tree_hash_cnt_loop pow leaves = 2 ^ Suc m' \<and> 2 ^ m' < leaves \<and> leaves \<le> 2 ^ Suc m'"
proof (induction pow leaves arbitrary: m rule: tree_hash_cnt_loop.induct)
  case (1 pow leaves)
  show ?case
  proof (cases "pow < leaves")
    case True
    have p: "0 < pow" using 1(2) by simp
    have "pow * 2 = 2 ^ Suc (Suc m)" "2 ^ Suc m < leaves" using 1(2) True by simp_all
    from 1(1) [OF _ this] p True show ?thesis by (simp add: tree_hash_cnt_loop.simps [of pow])
  next
    case False
    then have "tree_hash_cnt_loop pow leaves = 2 ^ Suc m"
      using 1 by (subst tree_hash_cnt_loop.simps) simp
    then show ?thesis using 1 False by (intro exI [of _ m]) simp
  qed
qed

lemma tree_hash_cnt_pow2:
  assumes "3 \<le> leaves"
  obtains m where "tree_hash_cnt leaves = 2 ^ Suc m" "2 ^ Suc m < leaves" "leaves \<le> 2 * 2 ^ Suc m"
proof -
  have "(2::nat) ^ 0 < leaves" using assms by simp
  from tree_hash_cnt_loop_props [OF _ this, of 2] obtain m' where
    m: "tree_hash_cnt_loop 2 leaves = 2 ^ Suc m'" "2 ^ m' < leaves" "leaves \<le> 2 ^ Suc m'" by auto
  have "m' \<noteq> 0" using m(3) assms by (cases m') auto
  then obtain m where "m' = Suc m" by (cases m') auto
  with m show thesis using that [of m] by (simp add: tree_hash_cnt_def)
qed

section \<open>The tree of the documentation\<close>

fun pair_up :: "Hash256 list \<Rightarrow> Hash256 list" where
  "pair_up (a # b # hs) = hash_pair a b # pair_up hs"
| "pair_up hs = hs"

lemma length_pair_up: "length (pair_up hs) = (length hs + 1) div 2"
  by (induction hs rule: pair_up.induct) auto

lemma nth_pair_up: "even (length hs) \<Longrightarrow> i < length hs div 2 \<Longrightarrow>
    pair_up hs ! i = hash_pair (hs ! (2 * i)) (hs ! (2 * i + 1))"
proof (induction hs arbitrary: i rule: pair_up.induct)
  case (1 a b hs)
  then show ?case by (cases i) auto
qed auto

function merkle_root :: "Hash256 list \<Rightarrow> Hash256" where
  "merkle_root hs = (if length hs \<le> 1 then hd hs else merkle_root (pair_up hs))"
  by pat_completeness auto
termination by (relation "measure length") (auto simp: length_pair_up)

declare merkle_root.simps [simp del]

lemma length_reduce_level [simp]: "length (reduce_level ints cnt) = length ints"
proof -
  have "length (foldl (\<lambda>ints j. ints[j := g ints j]) is xs) = length is" for g :: "'x list \<Rightarrow> nat \<Rightarrow> 'x" and "is" xs
    by (induction xs arbitrary: "is") auto
  then show ?thesis by (simp add: reduce_level_def)
qed

lemma reduce_level_nth:
  assumes "2 * cnt \<le> length ints" "i < length ints"
  shows "reduce_level ints cnt ! i =
    (if i < cnt then hash_pair (ints ! (2 * i)) (ints ! (2 * i + 1)) else ints ! i)"
  using assms
proof (induction cnt arbitrary: i)
  case 0
  then show ?case by (simp add: reduce_level_def)
next
  case (Suc n)
  let ?r = "reduce_level ints n"
  have "reduce_level ints (Suc n) = ?r[n := hash_pair (?r ! (2 * n)) (?r ! (2 * n + 1))]"
    by (simp add: reduce_level_def)
  with Suc show ?case by (auto simp: nth_list_update)
qed

lemma take_reduce_level:
  assumes "2 * cnt \<le> length ints"
  shows "take cnt (reduce_level ints cnt) = pair_up (take (2 * cnt) ints)"
  by (rule nth_equalityI)
    (use assms in \<open>simp_all add: length_pair_up nth_pair_up reduce_level_nth min_absorb2\<close>)

lemma tree_reduce_eq:
  "2 ^ Suc m \<le> length ints \<Longrightarrow> tree_reduce ints (2 ^ Suc m) = merkle_root (take (2 ^ Suc m) ints)"
proof (induction m arbitrary: ints)
  case 0
  then obtain a b r where "ints = a # b # r" by (cases ints; cases "tl ints") auto
  then show ?case by (simp add: tree_reduce.simps merkle_root.simps)
next
  case (Suc m)
  have "tree_reduce ints (2 ^ Suc (Suc m)) = tree_reduce (reduce_level ints (2 ^ Suc m)) (2 ^ Suc m)"
    using one_less_power [of "2 :: nat" "Suc m"] by (subst tree_reduce.simps) simp
  also have "\<dots> = merkle_root (take (2 ^ Suc m) (reduce_level ints (2 ^ Suc m)))"
    using Suc by simp
  also have "\<dots> = merkle_root (pair_up (take (2 * 2 ^ Suc m) ints))"
    using Suc.prems by (simp only: take_reduce_level power_Suc)
  also have "\<dots> = merkle_root (take (2 ^ Suc (Suc m)) ints)"
  proof -
    have "1 < 2 * (2::nat) ^ Suc m" using one_le_power [of "2 :: nat" "Suc m"] by linarith
    then show ?thesis using Suc.prems by (subst (2) merkle_root.simps) simp
  qed
  finally show ?case .
qed


lemma pair_leaves_eq:
  assumes "k \<le> cnt" "cnt \<le> length ints" "k + 2 * (cnt - k) \<le> length hashes"
  shows "pair_leaves hashes ints k cnt =
    (take k ints @ pair_up (take (2 * (cnt - k)) (drop k hashes)) @ drop cnt ints, k + 2 * (cnt - k))"
  using assms
proof (induction "cnt - k" arbitrary: cnt)
  case 0
  then show ?case by (simp add: pair_leaves_def)
next
  case (Suc n)
  then obtain c where c: "cnt = Suc c" "k \<le> c" by (cases cnt) auto
  let ?p = "\<lambda>c. pair_up (take (2 * (c - k)) (drop k hashes))"
  let ?xs = "take (2 * (c - k)) (drop k hashes)"
  have IH: "pair_leaves hashes ints k c = (take k ints @ ?p c @ drop c ints, k + 2 * (c - k))"
    using Suc c by simp
  have lp: "length (?p c) = c - k" using Suc c by (simp add: length_pair_up min_absorb2)
  have "pair_up (xs @ [a, b]) = pair_up xs @ [hash_pair a b]" if "even (length xs)" for xs a b
    using that by (induction xs rule: pair_up.induct) auto
  moreover have "take (2 * (Suc c - k)) (drop k hashes) =
      ?xs @ [hashes ! (k + 2 * (c - k)), hashes ! (k + 2 * (c - k) + 1)]"
    using Suc.prems c by (simp add: Suc_diff_le take_Suc_conv_app_nth)
  moreover have "even (length ?xs)" using Suc.prems c by (simp add: min_absorb2)
  ultimately have p: "?p (Suc c) = ?p c @ [hash_pair (hashes ! (k + 2 * (c - k))) (hashes ! (k + 2 * (c - k) + 1))]"
    by simp
  have "drop c ints = ints ! c # drop (Suc c) ints" using Suc.prems c by (simp add: Cons_nth_drop_Suc)
  moreover have "length (take k ints @ ?p c) = c" using lp Suc.prems c by simp
  ultimately have "(take k ints @ ?p c @ drop c ints)[c := h] = take k ints @ ?p c @ h # drop (Suc c) ints" for h
    by (metis append_assoc list_update_length)
  moreover have "pair_leaves hashes ints k cnt =
      (\<lambda>(ints, i) slot. (ints[slot := hash_pair (hashes ! i) (hashes ! (i + 1))], i + 2))
        (pair_leaves hashes ints k c) c"
    using c by (simp add: pair_leaves_def)
  ultimately show ?case using c p unfolding IH by (simp add: Suc_diff_le)
qed

section \<open>Binding\<close>

definition hash_collision :: "bytes \<Rightarrow> bytes \<Rightarrow> bool" where
  "hash_collision x y \<longleftrightarrow> x \<noteq> y \<and> cn_fast_hash x = cn_fast_hash y"

lemma length_cn_fast_hash [simp, len_simps]: "length (cn_fast_hash d) = 32"
  by (simp add: cn_fast_hash_def)

lemma length_hash_pair [simp, len_simps]: "length (hash_pair a b) = 32"
  by (simp add: hash_pair_def)

definition hashes32 :: "Hash256 list \<Rightarrow> bool" where "hashes32 hs \<longleftrightarrow> (\<forall>h \<in> set hs. length h = 32)"

text \<open>Two lists of messages, of which a pair at one position collides.\<close>

fun collides :: "bytes list \<Rightarrow> bytes list \<Rightarrow> bool" where
  "collides (x # xs) (y # ys) \<longleftrightarrow> hash_collision x y \<or> collides xs ys"
| "collides _ _ \<longleftrightarrow> False"

lemma collides_append [simp]: "length xs = length ys \<Longrightarrow> collides (xs @ us) (ys @ vs) \<longleftrightarrow> collides xs ys \<or> collides us vs"
  by (induction xs ys rule: list_induct2) auto

text \<open>What the tree hashes: the pairs of a level; of every level, from a list of nodes up.\<close>

fun pair_inputs :: "Hash256 list \<Rightarrow> bytes list" where
  "pair_inputs (a # b # hs) = (a @ b) # pair_inputs hs"
| "pair_inputs hs = []"

lemma length_pair_inputs: "length (pair_inputs hs) = length hs div 2"
  by (induction hs rule: pair_inputs.induct) auto

function merkle_inputs :: "Hash256 list \<Rightarrow> bytes list" where
  "merkle_inputs hs = (if length hs \<le> 1 then [] else pair_inputs hs @ merkle_inputs (pair_up hs))"
  by pat_completeness auto
termination by (relation "measure length") (auto simp: length_pair_up)

declare merkle_inputs.simps [simp del]

lemma hash_pair_binding:
  assumes "hash_pair a b = hash_pair c d" "length a = length c"
  shows "(a = c \<and> b = d) \<or> hash_collision (a @ b) (c @ d)"
  using assms by (auto simp: hash_collision_def hash_pair_def)

lemma hashes32_pair_up: "hashes32 hs \<Longrightarrow> hashes32 (pair_up hs)"
  by (induction hs rule: pair_up.induct) (auto simp: hashes32_def)

lemma pair_up_binding:
  "length xs = length ys \<Longrightarrow> hashes32 xs \<Longrightarrow> hashes32 ys \<Longrightarrow> pair_up xs = pair_up ys \<Longrightarrow>
    xs = ys \<or> collides (pair_inputs xs) (pair_inputs ys)"
proof (induction xs arbitrary: ys rule: pair_up.induct)
  case (1 a b hs)
  then obtain c d hs' where ys: "ys = c # d # hs'" by (cases ys; cases "tl ys") auto
  have "hash_pair a b = hash_pair c d" "length a = length c"
    using 1 by (simp_all add: ys hashes32_def)
  from hash_pair_binding [OF this] 1 show ?case by (auto simp: ys hashes32_def)
qed (auto simp: Suc_length_conv)

lemma merkle_root_binding:
  "length xs = length ys \<Longrightarrow> xs \<noteq> [] \<Longrightarrow> hashes32 xs \<Longrightarrow> hashes32 ys \<Longrightarrow> merkle_root xs = merkle_root ys \<Longrightarrow>
    xs = ys \<or> collides (merkle_inputs xs) (merkle_inputs ys)"
proof (induction xs arbitrary: ys rule: merkle_root.induct)
  case (1 xs)
  show ?case
  proof (cases "length xs \<le> 1")
    case True
    then obtain a b where "xs = [a]" "ys = [b]"
      using 1(2,3) by (cases xs; cases "tl xs"; cases ys; cases "tl ys") auto
    then show ?thesis using 1(6) by (simp add: merkle_root.simps)
  next
    case False
    then have "merkle_root (pair_up xs) = merkle_root (pair_up ys)"
      using 1(2,6) by (simp add: merkle_root.simps [of xs] merkle_root.simps [of ys])
    moreover have len: "length (pair_up xs) = length (pair_up ys)" using 1(2) by (simp add: length_pair_up)
    moreover have "pair_up xs \<noteq> []" using 1(3) by (cases xs rule: pair_up.cases) auto
    ultimately have "pair_up xs = pair_up ys \<or> collides (merkle_inputs (pair_up xs)) (merkle_inputs (pair_up ys))"
      using 1(1) [OF False] 1(4,5) by (simp add: hashes32_pair_up)
    then have "xs = ys \<or> collides (pair_inputs xs) (pair_inputs ys) \<or> collides (merkle_inputs (pair_up xs)) (merkle_inputs (pair_up ys))"
      using pair_up_binding [OF 1(2,4,5)] by blast
    then show ?thesis
      using False 1(2) by (simp add: merkle_inputs.simps [of xs] merkle_inputs.simps [of ys] length_pair_inputs)
  qed
qed

section \<open>Properties\<close>

text \<open>The leaves copied through and the slot count, as the documentation gives them.\<close>

definition leaf_level :: "Hash256 list \<Rightarrow> Hash256 list" where
  "leaf_level hs = (let k = 2 * tree_hash_cnt (length hs) - length hs in
     if length hs \<le> 2 then hs else take k hs @ pair_up (drop k hs))"

text \<open>The messages \<open>tree_hash\<close> passes to \<open>cn_fast_hash\<close>: the pairs of leaves, then level by level.\<close>

definition tree_inputs :: "Hash256 list \<Rightarrow> bytes list" where
  "tree_inputs hs = (let k = 2 * tree_hash_cnt (length hs) - length hs in
     (if length hs \<le> 2 then [] else pair_inputs (drop k hs)) @ merkle_inputs (leaf_level hs))"

lemma tree_hash_range: "tree_hash hs = Some r \<Longrightarrow> 0 < length hs \<and> length hs \<le> TREE_HASH_MAX_COUNT"
  by (cases "TREE_HASH_MAX_COUNT < length hs") (auto simp: tree_hash_def Let_def split: if_splits)

lemma tree_hash_Some:
  assumes "0 < length hs" "length hs \<le> TREE_HASH_MAX_COUNT"
  shows "tree_hash hs = Some (merkle_root (leaf_level hs))"
proof -
  consider "length hs = 1" | "length hs = 2" | "3 \<le> length hs" using assms(1) by linarith
  then show ?thesis
  proof cases
    case 1
    then obtain a where "hs = [a]" by (auto simp: length_Suc_conv)
    then show ?thesis using assms by (simp add: tree_hash_def leaf_level_def merkle_root.simps)
  next
    case 2
    then obtain a b where "hs = [a, b]" by (auto simp: length_Suc_conv numeral_2_eq_2)
    then show ?thesis using assms by (simp add: tree_hash_def leaf_level_def merkle_root.simps)
  next
    case 3
    then obtain m where m: "tree_hash_cnt (length hs) = 2 ^ Suc m" "2 ^ Suc m < length hs"
      "length hs \<le> 2 * 2 ^ Suc m" by (rule tree_hash_cnt_pow2)
    define cnt where "cnt = (2::nat) ^ Suc m"
    define k where "k = 2 * cnt - length hs"
    have k: "k \<le> cnt" "k + 2 * (cnt - k) = length hs" "k \<le> length hs" using m by (auto simp: k_def cnt_def)
    let ?ints = "take k hs @ drop k (replicate cnt NULL_HASH)"
    have "fst (pair_leaves hs ?ints k cnt) = take k hs @ pair_up (drop k hs)"
      using k by (subst pair_leaves_eq) (simp_all add: min_absorb2)
    moreover have "length (take k hs @ pair_up (drop k hs)) = cnt"
      using k by (simp add: length_pair_up)
    moreover have "tree_hash hs = Some (tree_reduce (fst (pair_leaves hs ?ints k cnt)) cnt)"
      using 3 assms m(1) unfolding tree_hash_def Let_def by (simp add: k_def cnt_def)
    moreover have "leaf_level hs = take k hs @ pair_up (drop k hs)"
      using 3 m(1) by (simp add: leaf_level_def Let_def k_def cnt_def)
    ultimately show ?thesis
      using tree_reduce_eq [of m "take k hs @ pair_up (drop k hs)"] k(1) unfolding cnt_def [symmetric] by (simp add: min_absorb2)
  qed
qed

lemma leaves_bound:
  assumes "hashes32 xs" "hashes32 ys" "length xs = length ys" "tree_hash xs = Some r" "tree_hash ys = Some r"
  shows "xs = ys \<or> collides (tree_inputs xs) (tree_inputs ys)"
proof -
  have n: "0 < length xs" "length xs \<le> TREE_HASH_MAX_COUNT" and m: "0 < length ys" "length ys \<le> TREE_HASH_MAX_COUNT"
    using assms(3) tree_hash_range [OF assms(4)] by simp_all
  have 32: "hashes32 (leaf_level hs)" if "hashes32 hs" for hs
    using that hashes32_pair_up [of "drop k hs" for k]
    by (auto simp: leaf_level_def Let_def hashes32_def dest: in_set_takeD in_set_dropD)
  have ne: "leaf_level xs \<noteq> []"
    using n(1) by (cases "drop (2 * tree_hash_cnt (length xs) - length xs) xs" rule: pair_up.cases)
      (auto simp: leaf_level_def Let_def)
  have len: "length (leaf_level xs) = length (leaf_level ys)"
    using assms(3) by (simp add: leaf_level_def length_pair_up Let_def)
  have "merkle_root (leaf_level xs) = merkle_root (leaf_level ys)"
    using tree_hash_Some [OF n] tree_hash_Some [OF m] assms(4,5) by simp
  from merkle_root_binding [OF len ne 32 [OF assms(1)] 32 [OF assms(2)] this]
  have up: "leaf_level xs = leaf_level ys \<or> collides (merkle_inputs (leaf_level xs)) (merkle_inputs (leaf_level ys))" .
  show ?thesis
  proof (cases "length xs \<le> 2")
    case True
    then show ?thesis using up assms(3) by (simp add: leaf_level_def tree_inputs_def)
  next
    case False
    define k where "k = 2 * tree_hash_cnt (length xs) - length xs"
    have low: "xs = ys \<or> collides (pair_inputs (drop k xs)) (pair_inputs (drop k ys))" if "leaf_level xs = leaf_level ys"
    proof -
      have "take k xs @ pair_up (drop k xs) = take k ys @ pair_up (drop k ys)"
        using that False assms(3) by (simp add: leaf_level_def Let_def k_def)
      then have t: "take k xs = take k ys" and p: "pair_up (drop k xs) = pair_up (drop k ys)"
        using assms(3) by simp_all
      have "drop k xs = drop k ys \<or> collides (pair_inputs (drop k xs)) (pair_inputs (drop k ys))"
        by (rule pair_up_binding [OF _ _ _ p])
          (use assms in \<open>auto simp: hashes32_def dest: in_set_dropD\<close>)
      then show ?thesis using t by (metis append_take_drop_id)
    qed
    have "tree_inputs xs = pair_inputs (drop k xs) @ merkle_inputs (leaf_level xs)"
      "tree_inputs ys = pair_inputs (drop k ys) @ merkle_inputs (leaf_level ys)"
      using False assms(3) by (simp_all add: tree_inputs_def Let_def k_def)
    moreover have "length (pair_inputs (drop k xs)) = length (pair_inputs (drop k ys))"
      using assms(3) by (simp add: length_pair_inputs)
    ultimately show ?thesis using up low by auto
  qed
qed

text \<open>C10. The in-place computation of the Merkle root is the root of the documented tree: the
  first \<open>2 * cnt - n\<close> leaves pass through, the others are paired, which leaves exactly \<open>cnt\<close>
  nodes, a power of two below the number \<open>n\<close> of leaves and at least half of it, and the levels
  above are paired in order. No leaf list of an accepted length is refused.\<close>

theorem tree_hash_is_merkle_root:
  "tree_hash hs =
    (if hs = [] \<or> TREE_HASH_MAX_COUNT < length hs then None else Some (merkle_root (leaf_level hs)))"
  using tree_hash_Some [of hs] by (auto simp: tree_hash_def Let_def)

text \<open>C11. The root binds the leaves: two lists of hashes of one accepted length with the same
  root are equal, or two different messages that the two computations hash at one and the same
  node of the tree have the same hash.\<close>

theorem tree_hash_binding:
  assumes "hashes32 xs" "hashes32 ys" "length xs = length ys" "tree_hash xs = Some r" "tree_hash ys = Some r"
  shows "xs = ys \<or> collides (tree_inputs xs) (tree_inputs ys)"
  using assms by (rule leaves_bound)

theorem tree_hash_binding_witness:
  "[replicate 32 1, replicate 32 2, replicate 32 3] = [replicate 32 1, replicate 32 2, replicate 32 (3 :: u8)] \<or>
    collides (tree_inputs [replicate 32 1, replicate 32 2, replicate 32 3]) (tree_inputs [replicate 32 1, replicate 32 2, replicate 32 3])"
proof (rule tree_hash_binding)
  let ?hs = "[replicate 32 1, replicate 32 2, replicate 32 (3 :: u8)]"
  show "tree_hash ?hs = Some (merkle_root (leaf_level ?hs))"
    by (rule tree_hash_Some) (simp_all add: TREE_HASH_MAX_COUNT_def)
  then show "tree_hash ?hs = Some (merkle_root (leaf_level ?hs))" .
qed (simp_all add: hashes32_def)

end
