(* ===== verification/Hashes.thy ===== *)
theory Hashes
  imports Hash Tx
begin

text \<open>
  Transaction hashes, \<open>crates/wow-types/src/hashes.rs\<close>. The version 2 hash is taken over slices
  of the blob the transaction was parsed from. Slices are written \<open>take\<close> and \<open>drop\<close>; the code's
  guards keep every blob_slice in range, which the sizes recorded by the parser guarantee.
\<close>

section \<open>The hashes\<close>

definition tx_prefix_hash :: "TransactionPrefix \<Rightarrow> Hash256" where
  "tx_prefix_hash prefix = cn_fast_hash (prefix_write [] prefix)"

definition tx_prefix_hash_from_blob :: "Transaction \<Rightarrow> bytes option \<Rightarrow> Hash256" where
  "tx_prefix_hash_from_blob tx blob =
     (case blob of
        Some b \<Rightarrow> if prefix_size tx \<le> length b then cn_fast_hash (take (prefix_size tx) b)
          else tx_prefix_hash (tx_prefix tx)
      | None \<Rightarrow> tx_prefix_hash (tx_prefix tx))"

definition blob_slice :: "bytes \<Rightarrow> usize \<Rightarrow> usize \<Rightarrow> bytes" where
  "blob_slice b i j = drop i (take j b)"

definition transaction_hash_from_blob :: "Transaction \<Rightarrow> bytes \<Rightarrow> Hash256 option" where
  "transaction_hash_from_blob tx blob =
     (if version (tx_prefix tx) = 1 then Some (cn_fast_hash blob)
      else if length blob < unprunable_size tx \<or> unprunable_size tx < prefix_size tx then None
      else
        let h0 = cn_fast_hash (take (prefix_size tx) blob);
            h1 = cn_fast_hash (blob_slice blob (prefix_size tx) (unprunable_size tx));
            h2 = (if rct_is_null (rct_ty (rct_signatures tx)) then NULL_HASH
                  else cn_fast_hash (drop (unprunable_size tx) blob))
        in Some (cn_fast_hash (h0 @ h1 @ h2)))"

definition tx_prunable_hash_from_blob :: "Transaction \<Rightarrow> bytes \<Rightarrow> Hash256 option" where
  "tx_prunable_hash_from_blob tx blob =
     (if rct_is_null (rct_ty (rct_signatures tx)) \<or> length blob < unprunable_size tx then None
      else Some (cn_fast_hash (drop (unprunable_size tx) blob)))"

definition transaction_hash :: "Transaction \<Rightarrow> Hash256 option" where
  "transaction_hash tx =
     (let blob = Transaction_write [] tx in
      if version (tx_prefix tx) = 1 then Some (cn_fast_hash blob)
      else
        let psize = length (prefix_write [] (tx_prefix tx));
            usize = (if vin (tx_prefix tx) = [] then psize
                     else length (write_base (prefix_write [] (tx_prefix tx)) (rct_signatures tx)));
            shadow = tx\<lparr>prefix_size := psize, unprunable_size := usize\<rparr>
        in transaction_hash_from_blob shadow blob)"

text \<open>The flat key list of the range proofs.\<close>

definition mlsag_kv :: "RctSignatures \<Rightarrow> bytes" where
  "mlsag_kv rct =
     (if is_bulletproof_plus (rct_ty rct) then
        concat (map (\<lambda>p. bpp_a p @ bpp_a1 p @ bpp_b p @ bpp_r1 p @ bpp_s1 p @ bpp_d1 p @
          concat (bpp_l p) @ concat (bpp_r p)) (bulletproofs_plus rct))
      else if is_bulletproof (rct_ty rct) then
        concat (map (\<lambda>p. bp_a p @ bp_s p @ bp_t1 p @ bp_t2 p @ bp_taux p @ bp_mu p @
          concat (bp_l p) @ concat (bp_r p) @ bp_a_scalar p @ bp_b p @ bp_t p) (bulletproofs rct))
      else
        concat (map (\<lambda>r. concat (asig_s0 r) @ concat (asig_s1 r) @ asig_ee r @ concat (rs_ci r)) (range_sigs rct)))"

definition pre_mlsag_hash :: "Hash256 \<Rightarrow> RctSignatures \<Rightarrow> usize \<Rightarrow> usize \<Rightarrow> Hash256" where
  "pre_mlsag_hash message rct inputs outputs =
     cn_fast_hash (message @ cn_fast_hash (write_base [] rct) @ cn_fast_hash (mlsag_kv rct))"

section \<open>Binding\<close>

lemma cn_fast_hash_binding: "cn_fast_hash x = cn_fast_hash y \<Longrightarrow> x = y \<or> hash_collision x y"
  by (auto simp: hash_collision_def)

text \<open>What the hash of a parsed blob with proofs hashes: its three slices, and the three hashes.\<close>

definition transaction_inputs :: "Transaction \<Rightarrow> bytes \<Rightarrow> bytes list" where
  "transaction_inputs tx blob =
     (let s0 = take (prefix_size tx) blob; s1 = blob_slice blob (prefix_size tx) (unprunable_size tx); s2 = drop (unprunable_size tx) blob
      in [s0, s1, s2, cn_fast_hash s0 @ cn_fast_hash s1 @ cn_fast_hash s2])"

lemma slices_append:
  "i \<le> j \<Longrightarrow> j \<le> length b \<Longrightarrow> take i b @ blob_slice b i j @ drop j b = b"
  unfolding blob_slice_def by (metis append_assoc append_take_drop_id min.absorb1 take_take)

lemma canonical_blob_hash:
  assumes "wf_tx tx"
  shows "transaction_hash_from_blob tx (Transaction_write [] tx) = transaction_hash tx"
proof (cases "version (tx_prefix tx) = 1")
  case True
  then show ?thesis by (simp add: transaction_hash_def transaction_hash_from_blob_def)
next
  case False
  then have "prefix_size tx = length (prefix_write [] (tx_prefix tx))"
    "unprunable_size tx = (if vin (tx_prefix tx) = [] then length (prefix_write [] (tx_prefix tx))
       else length (write_base (prefix_write [] (tx_prefix tx)) (rct_signatures tx)))"
    using assms by (auto simp: wf_tx_def wf_sizes_def)
  then show ?thesis using False by (simp add: transaction_hash_def transaction_hash_from_blob_def Let_def)
qed

section \<open>Properties\<close>

text \<open>For a well-formed transaction, hashing the blob it was written to with the sizes the
  parser recorded is hashing the transaction itself, which serializes again: the two entry
  points give the same identifier.\<close>

theorem transaction_hash_of_canonical_blob:
  assumes "wf_tx tx"
  shows "transaction_hash_from_blob tx (Transaction_write [] tx) = transaction_hash tx"
  using assms by (rule canonical_blob_hash)

theorem transaction_hash_of_canonical_blob_witness:
  "transaction_hash_from_blob sample_tx (Transaction_write [] sample_tx) = transaction_hash sample_tx"
  by (rule transaction_hash_of_canonical_blob) (rule wf_sample_tx)



end
