(* ===== verification/Block.thy ===== *)
theory Block
  imports Hashes
begin

text \<open>
  Blocks, \<open>crates/wow-types/src/block.rs\<close>: the header, whose miner signature and vote are on the
  wire from major version 18 on, the block, and the three hashes derived from it (the
  proof-of-work blob, the block id with its length prefix, and the message of the miner
  signature). A block is read back from its bytes; the id and the miner message bind the header
  and the Merkle root.
\<close>

section \<open>The header\<close>

definition CRYPTONOTE_MAX_TX_PER_BLOCK :: usize where "CRYPTONOTE_MAX_TX_PER_BLOCK = 0x10000000"
definition HF_VERSION_BLOCK_HEADER_MINER_SIG :: u8 where "HF_VERSION_BLOCK_HEADER_MINER_SIG = 18"
definition Signature_ZERO :: Signature where
  "Signature_ZERO = \<lparr>sig_c = replicate 32 0, sig_r = replicate 32 0\<rparr>"

record BlockHeader =
  major_version :: u8
  minor_version :: u8
  timestamp :: u64
  prev_id :: Hash256
  nonce :: u32
  header_signature :: Signature
  vote :: u16

definition hard_fork_vote :: "BlockHeader \<Rightarrow> u8" where
  "hard_fork_vote h = (if minor_version h = 0 then 1 else minor_version h)"

definition has_miner_signature :: "BlockHeader \<Rightarrow> bool" where
  "has_miner_signature h \<longleftrightarrow> HF_VERSION_BLOCK_HEADER_MINER_SIG \<le> major_version h"

definition write_with_signature :: "bool \<Rightarrow> writer \<Rightarrow> BlockHeader \<Rightarrow> writer" where
  "write_with_signature include_signature w h =
     (let w = writer_varint w (ucast (major_version h));
          w = writer_varint w (ucast (minor_version h));
          w = writer_varint w (timestamp h);
          w = write_bytes w (prev_id h);
          w = write_u32_le w (nonce h)
      in if has_miner_signature h then
           write_u16_le
             (if include_signature then write_bytes w (Signature_to_bytes (header_signature h))
              else write_bytes w (replicate 64 0)) (vote h)
         else w)"

definition header_write :: "writer \<Rightarrow> BlockHeader \<Rightarrow> writer" where
  "header_write w h = write_with_signature True w h"

definition header_read :: "BlockHeader parser" where
  "header_read =
     p_bind read_varint_u8 (\<lambda>major. p_bind read_varint_u8 (\<lambda>minor.
     p_bind reader_varint (\<lambda>ts. p_bind (read_array 32) (\<lambda>prev. p_bind read_u32_le (\<lambda>nn.
     p_bind (if HF_VERSION_BLOCK_HEADER_MINER_SIG \<le> major
             then p_bind (read_array 64) (\<lambda>s. p_bind read_u16_le (\<lambda>v. p_return (Signature_from_bytes s, v)))
             else p_return (Signature_ZERO, 0)) (\<lambda>(sig, v).
     p_return \<lparr>major_version = major, minor_version = minor, timestamp = ts, prev_id = prev, nonce = nn,
       header_signature = sig, vote = v\<rparr>))))))"

section \<open>The block\<close>

record Block =
  header :: BlockHeader
  miner_tx :: Transaction
  tx_hashes :: "Hash256 list"

definition block_write :: "writer \<Rightarrow> Block \<Rightarrow> writer" where
  "block_write w b =
     (let w = header_write w (header b);
          w = Transaction_write w (miner_tx b);
          w = writer_varint w (word_of_nat (length (tx_hashes b)))
      in foldl write_bytes w (tx_hashes b))"

definition block_read :: "Block parser" where
  "block_read =
     p_bind header_read (\<lambda>h. p_bind Transaction_read (\<lambda>tx. p_bind reader_varint (\<lambda>n.
       let n = unat n in
       if CRYPTONOTE_MAX_TX_PER_BLOCK < n
       then p_fail (LimitExceeded ''tx_hashes > CRYPTONOTE_MAX_TX_PER_BLOCK'')
       else p_bind p_remaining (\<lambda>rem.
         if rem div 32 < n then p_fail UnexpectedEof
         else p_bind (read_n (read_array 32) n) (\<lambda>hs.
           p_return \<lparr>header = h, miner_tx = tx, tx_hashes = hs\<rparr>)))))"

definition block_from_blob :: "bytes \<Rightarrow> Block serial_result" where
  "block_from_blob blob = and_then (block_read (reader_new blob)) (\<lambda>(b, r). Inr b)"

definition block_to_blob :: "Block \<Rightarrow> bytes" where
  "block_to_blob b = block_write [] b"

section \<open>The hashes of a block\<close>

definition tx_tree_hash :: "Block \<Rightarrow> Hash256 option" where
  "tx_tree_hash b =
     (case transaction_hash (miner_tx b) of None \<Rightarrow> None | Some h \<Rightarrow> tree_hash (h # tx_hashes b))"

definition hashing_blob_inner :: "bool \<Rightarrow> Block \<Rightarrow> bytes option" where
  "hashing_blob_inner include_signature b =
     (case tx_tree_hash b of None \<Rightarrow> None | Some root \<Rightarrow>
        let w = write_with_signature include_signature [] (header b);
            w = write_bytes w root;
            w = writer_varint w (word_of_nat (length (tx_hashes b)) + 1)
        in Some w)"

definition hashing_blob :: "Block \<Rightarrow> bytes option" where
  "hashing_blob b = hashing_blob_inner True b"

definition length_prefixed :: "bytes \<Rightarrow> bytes" where
  "length_prefixed blob = write_varint [] (word_of_nat (length blob)) @ blob"

definition block_id :: "Block \<Rightarrow> Hash256 option" where
  "block_id b = (case hashing_blob b of None \<Rightarrow> None | Some blob \<Rightarrow> Some (cn_fast_hash (length_prefixed blob)))"

definition sig_data :: "Block \<Rightarrow> Hash256 option" where
  "sig_data b =
     (if \<not> has_miner_signature (header b) then None
      else case hashing_blob_inner False b of None \<Rightarrow> None | Some blob \<Rightarrow> Some (cn_fast_hash blob))"

definition tx_count :: "Block \<Rightarrow> usize" where
  "tx_count b = length (tx_hashes b) + 1"

definition hashing_blob_from_parts :: "BlockHeader \<Rightarrow> Hash256 \<Rightarrow> usize \<Rightarrow> bytes" where
  "hashing_blob_from_parts h root n =
     write_bytes (write_bytes (header_write [] h) root) (write_varint [] (word_of_nat n))"

section \<open>Round trip\<close>

definition wf_header :: "BlockHeader \<Rightarrow> bool" where
  "wf_header h \<longleftrightarrow>
     length (prev_id h) = 32 \<and> wf_signature (header_signature h) \<and>
     (\<not> has_miner_signature h \<longrightarrow> header_signature h = Signature_ZERO \<and> vote h = 0)"

definition wf_block :: "Block \<Rightarrow> bool" where
  "wf_block b \<longleftrightarrow>
     wf_header (header b) \<and> wf_tx (miner_tx b) \<and> keys32 (tx_hashes b) \<and>
     length (tx_hashes b) \<le> CRYPTONOTE_MAX_TX_PER_BLOCK"

definition header_sig_bytes :: "bool \<Rightarrow> BlockHeader \<Rightarrow> bytes" where
  "header_sig_bytes s h =
     (if has_miner_signature h
      then (if s then Signature_to_bytes (header_signature h) else replicate 64 0) @ u16_to_le_bytes (vote h)
      else [])"

lemma write_with_signature_eq:
  "write_with_signature s w h =
     w @ varint_bytes (ucast (major_version h)) @ varint_bytes (ucast (minor_version h)) @
       varint_bytes (timestamp h) @ prev_id h @ u32_to_le_bytes (nonce h) @ header_sig_bytes s h"
  by (simp add: write_with_signature_def header_sig_bytes_def Let_def writer_defs)

lemma read_varint_u8_at [codec_simps]:
  "read_varint_u8 (reader_at pre (varint_bytes (ucast b) @ post)) =
     Inr (b, reader_at (pre @ varint_bytes (ucast b)) post)"
proof -
  have "ucast (ucast b :: u64) = b"
    by (rule bit_eqI) (auto simp: bit_simps dest: bit_imp_le_length)
  then show ?thesis using u8_less_256 [of b] by (simp add: read_varint_u8_def reader_varint_bits_at)
qed

lemma read_u16_le_at [codec_simps]:
  "read_u16_le (reader_at pre (u16_to_le_bytes v @ post)) = Inr (v, reader_at (pre @ u16_to_le_bytes v) post)"
  using u16_c.rd_wr [where x = v and pre = pre and post = post] by (simp add: write_u16_le_def)

interpretation header_c: sized_codec header_write header_read wf_header
proof unfold_locales
  fix w :: writer and h
  show "header_write w h = w @ header_write [] h" by (simp add: header_write_def write_with_signature_eq)
next
  fix h pre post
  assume h: "wf_header h"
  have sb: "length (Signature_to_bytes (header_signature h)) = 64"
    "Signature_from_bytes (Signature_to_bytes (header_signature h)) = header_signature h"
    using h by (simp_all add: wf_header_def wf_signature_def Signature_to_bytes_def Signature_from_bytes_def)
  show "header_read (reader_at pre (header_write [] h @ post)) = Inr (h, reader_at (pre @ header_write [] h) post)"
    using h sb
    by (cases "has_miner_signature h")
      (simp_all add: header_read_def header_write_def write_with_signature_eq header_sig_bytes_def
        has_miner_signature_def wf_header_def read_varint_u8_at reader_varint_at read_array_append
        read_u32_le_at read_u16_le_at)
next
  fix h
  show "header_write [] h \<noteq> []" by (simp add: header_write_def write_with_signature_eq)
qed

lemma block_write_eq:
  "block_write w b = w @ header_write [] (header b) @ Transaction_write [] (miner_tx b) @
     varint_bytes (word_of_nat (length (tx_hashes b))) @ concat (tx_hashes b)"
  using header_c.wr_append [of w "header b"]
    tx_c.wr_append [of "w @ header_write [] (header b)" "miner_tx b"]
  by (simp add: block_write_def Let_def foldl_write_bytes writer_defs)

interpretation block_c: sized_codec block_write block_read wf_block
proof unfold_locales
  fix w :: writer and b
  show "block_write w b = w @ block_write [] b" by (simp add: block_write_eq)
next
  fix b pre post
  assume b: "wf_block b"
  then have "length (concat (tx_hashes b)) = 32 * length (tx_hashes b)"
    by (intro length_concat_const) (simp add: wf_block_def keys32_def)
  then show "block_read (reader_at pre (block_write [] b @ post)) = Inr (b, reader_at (pre @ block_write [] b) post)"
    using b
    by (simp add: block_read_def block_write_eq header_c.rd_wr tx_c.rd_wr reader_varint_at wf_block_def
        CRYPTONOTE_MAX_TX_PER_BLOCK_def read_n_keys Let_def del: read_n.simps)
next
  fix b
  show "block_write [] b \<noteq> []" by (simp add: block_write_eq)
qed

interpretation header_rd: safe_reader header_read
  unfolding header_read_def by (intro safe_intros) (auto split: prod.split intro!: safe_intros)


section \<open>Binding\<close>

lemma length_merkle_root: "hashes32 hs \<Longrightarrow> hs \<noteq> [] \<Longrightarrow> length (merkle_root hs) = 32"
proof (induction hs rule: merkle_root.induct)
  case (1 hs)
  have "pair_up hs \<noteq> []" using 1(3) by (cases hs rule: pair_up.cases) auto
  then show ?case using 1 hashes32_pair_up [of hs]
    by (cases "length hs \<le> 1") (simp_all add: merkle_root.simps [of hs] hashes32_def)
qed

lemma hashes32_leaf_level: "hashes32 hs \<Longrightarrow> hashes32 (leaf_level hs)"
  using hashes32_pair_up [of "drop k hs" for k]
  by (auto simp: leaf_level_def Let_def hashes32_def dest: in_set_takeD in_set_dropD)

lemma leaf_level_nonempty: "hs \<noteq> [] \<Longrightarrow> leaf_level hs \<noteq> []"
  by (cases "drop (2 * tree_hash_cnt (length hs) - length hs) hs" rule: pair_up.cases)
    (auto simp: leaf_level_def Let_def)

lemma length_tree_hash: "hashes32 hs \<Longrightarrow> tree_hash hs = Some r \<Longrightarrow> length r = 32"
  using tree_hash_range [of hs r] tree_hash_Some [of hs] length_merkle_root [OF hashes32_leaf_level]
    leaf_level_nonempty by auto

lemma transaction_hash_32: "transaction_hash tx = Some h \<Longrightarrow> length h = 32"
  by (auto simp: transaction_hash_def transaction_hash_from_blob_def Let_def split: if_splits)

lemma tx_tree_hashE:
  assumes "tx_tree_hash b = Some r" "keys32 (tx_hashes b)"
  obtains h where "transaction_hash (miner_tx b) = Some h" "tree_hash (h # tx_hashes b) = Some r"
    "hashes32 (h # tx_hashes b)" "length r = 32"
proof -
  obtain h where h: "transaction_hash (miner_tx b) = Some h" "tree_hash (h # tx_hashes b) = Some r"
    using assms(1) by (auto simp: tx_tree_hash_def split: option.splits)
  have "hashes32 (h # tx_hashes b)"
    using transaction_hash_32 [OF h(1)] assms(2) by (simp add: hashes32_def keys32_def)
  with h length_tree_hash [OF this h(2)] that show thesis by blast
qed

lemma hashing_blob_inner_eq:
  "tx_tree_hash b = Some r \<Longrightarrow> hashing_blob_inner s b =
    Some (write_with_signature s [] (header b) @ r @ varint_bytes (word_of_nat (length (tx_hashes b)) + 1))"
  by (simp add: hashing_blob_inner_def writer_defs)

text \<open>The header with its signature zeroed is a header, so both forms of the blob start with a
  self-delimiting header.\<close>

lemma write_without_signature:
  "write_with_signature False [] h = header_write [] (h\<lparr>header_signature := Signature_ZERO\<rparr>)"
  by (simp add: header_write_def write_with_signature_eq header_sig_bytes_def has_miner_signature_def
      Signature_to_bytes_def Signature_ZERO_def replicate_add [symmetric])

lemma wf_header_zero_signature: "wf_header h \<Longrightarrow> wf_header (h\<lparr>header_signature := Signature_ZERO\<rparr>)"
  by (auto simp: wf_header_def has_miner_signature_def wf_signature_def Signature_ZERO_def)

lemma leaf_count_inj:
  assumes "m \<le> CRYPTONOTE_MAX_TX_PER_BLOCK" "n \<le> CRYPTONOTE_MAX_TX_PER_BLOCK"
    and "varint_bytes (word_of_nat m + 1) = varint_bytes (word_of_nat n + 1)"
  shows "m = n"
proof -
  have "(word_of_nat m + 1 :: u64) = word_of_nat n + 1"
    by (rule varint_c.injective) (use assms(3) in \<open>simp_all add: writer_defs\<close>)
  then have "unat (word_of_nat m :: u64) = unat (word_of_nat n :: u64)" by simp
  then show ?thesis using assms(1,2) by (simp add: CRYPTONOTE_MAX_TX_PER_BLOCK_def)
qed

text \<open>The messages hashed for the tree of a block; for its id, with the length-prefixed hashing blob
  first; for the message of its miner signature, with the blob without the signature first.\<close>

definition block_tree_inputs :: "Block \<Rightarrow> bytes list" where
  "block_tree_inputs b = (case transaction_hash (miner_tx b) of None \<Rightarrow> [] | Some h \<Rightarrow> tree_inputs (h # tx_hashes b))"

definition block_id_inputs :: "Block \<Rightarrow> bytes list" where
  "block_id_inputs b = (case hashing_blob b of None \<Rightarrow> [] | Some blob \<Rightarrow> length_prefixed blob # block_tree_inputs b)"

definition sig_data_inputs :: "Block \<Rightarrow> bytes list" where
  "sig_data_inputs b = (case hashing_blob_inner False b of None \<Rightarrow> [] | Some blob \<Rightarrow> blob # block_tree_inputs b)"

lemma hashing_blob_binding:
  assumes b: "wf_block b" "wf_block b'"
    and r: "tx_tree_hash b = Some r" "tx_tree_hash b' = Some r'"
    and h: "wf_header h" "wf_header h'"
    and e: "header_write [] h @ r @ varint_bytes (word_of_nat (length (tx_hashes b)) + 1) =
      header_write [] h' @ r' @ varint_bytes (word_of_nat (length (tx_hashes b')) + 1)"
  shows "(h = h' \<and> transaction_hash (miner_tx b) = transaction_hash (miner_tx b') \<and> tx_hashes b = tx_hashes b') \<or>
    collides (block_tree_inputs b) (block_tree_inputs b')"
proof -
  obtain m where m: "transaction_hash (miner_tx b) = Some m" "tree_hash (m # tx_hashes b) = Some r"
    "hashes32 (m # tx_hashes b)" "length r = 32"
    using tx_tree_hashE [OF r(1)] b(1) by (auto simp: wf_block_def)
  obtain m' where m': "transaction_hash (miner_tx b') = Some m'" "tree_hash (m' # tx_hashes b') = Some r'"
    "hashes32 (m' # tx_hashes b')" "length r' = 32"
    using tx_tree_hashE [OF r(2)] b(2) by (auto simp: wf_block_def)
  have "h = h'" and rest: "r @ varint_bytes (word_of_nat (length (tx_hashes b)) + 1) =
      r' @ varint_bytes (word_of_nat (length (tx_hashes b')) + 1)"
    using header_c.prefix_free [OF h e] by auto
  then have rr: "r = r'" and v: "varint_bytes (word_of_nat (length (tx_hashes b)) + 1) =
      varint_bytes (word_of_nat (length (tx_hashes b')) + 1)"
    using m(4) m'(4) by auto
  have len: "length (m # tx_hashes b) = length (m' # tx_hashes b')"
    using leaf_count_inj [OF _ _ v] b by (simp add: wf_block_def)
  have "m # tx_hashes b = m' # tx_hashes b' \<or> collides (tree_inputs (m # tx_hashes b)) (tree_inputs (m' # tx_hashes b'))"
    by (rule leaves_bound [OF m(3) m'(3) len m(2)]) (simp add: m'(2) rr)
  then show ?thesis using \<open>h = h'\<close> m(1) m'(1) by (auto simp: block_tree_inputs_def)
qed

section \<open>Properties\<close>

text \<open>A block with a version 18 header around the sample transaction.\<close>

definition sample_block :: Block where
  "sample_block = \<lparr>header = \<lparr>major_version = 18, minor_version = 18, timestamp = 1700000000,
      prev_id = replicate 32 1, nonce = 77, header_signature = Signature_ZERO, vote = 1\<rparr>,
    miner_tx = sample_tx, tx_hashes = [replicate 32 2]\<rparr>"

lemma wf_sample_block: "wf_block sample_block"
  using wf_sample_tx
  by (simp add: sample_block_def wf_block_def wf_header_def wf_signature_def Signature_ZERO_def keys32_def
      has_miner_signature_def HF_VERSION_BLOCK_HEADER_MINER_SIG_def CRYPTONOTE_MAX_TX_PER_BLOCK_def)

lemma transaction_hash_sample: "\<exists>h. transaction_hash sample_tx = Some h"
proof -
  have "transaction_hash_from_blob sample_tx (Transaction_write [] sample_tx) \<noteq> None"
    using from_blob_bounds [OF from_blob_sample]
    by (auto simp: transaction_hash_from_blob_def Let_def)
  moreover have "transaction_hash_from_blob sample_tx (Transaction_write [] sample_tx) = transaction_hash sample_tx"
    by (rule canonical_blob_hash) (rule wf_sample_tx)
  ultimately show ?thesis by auto
qed

lemma sample_block_root: "\<exists>r. tx_tree_hash sample_block = Some r"
proof -
  obtain h where "transaction_hash sample_tx = Some h" using transaction_hash_sample ..
  then show ?thesis
    using tree_hash_Some [of "h # tx_hashes sample_block"]
    by (simp add: tx_tree_hash_def sample_block_def TREE_HASH_MAX_COUNT_def)
qed

text \<open>C33. A well-formed block of any version is read back from its bytes, with the miner
  signature and vote on the wire exactly from major version 18 on.\<close>

theorem block_roundtrip:
  assumes "wf_block b"
  shows "block_from_blob (block_to_blob b @ rest) = Inr b"
  using block_c.read_new [OF assms, of rest] by (simp add: block_from_blob_def block_to_blob_def)

theorem block_roundtrip_witness: "block_from_blob (block_to_blob sample_block @ [1, 2]) = Inr sample_block"
  by (rule block_roundtrip) (rule wf_sample_block)

text \<open>C12. The block id binds the whole header, the miner transaction's hash and the list of
  transaction hashes: two well-formed blocks with one id agree in all of them, or two different
  messages hashed at the same place for the two ids, the hashing blob or a node of the tree, have the
  same hash.\<close>

theorem block_id_binding:
  assumes "wf_block b" "wf_block b'" "block_id b = Some i" "block_id b' = Some i"
  shows "(header b = header b' \<and> transaction_hash (miner_tx b) = transaction_hash (miner_tx b') \<and>
      tx_hashes b = tx_hashes b') \<or> collides (block_id_inputs b) (block_id_inputs b')"
proof -
  obtain r where r: "tx_tree_hash b = Some r"
    using assms(3) by (auto simp: block_id_def hashing_blob_def hashing_blob_inner_def split: option.splits)
  obtain r' where r': "tx_tree_hash b' = Some r'"
    using assms(4) by (auto simp: block_id_def hashing_blob_def hashing_blob_inner_def split: option.splits)
  let ?x = "header_write [] (header b) @ r @ varint_bytes (word_of_nat (length (tx_hashes b)) + 1)"
  let ?y = "header_write [] (header b') @ r' @ varint_bytes (word_of_nat (length (tx_hashes b')) + 1)"
  have "cn_fast_hash (length_prefixed ?x) = cn_fast_hash (length_prefixed ?y)"
    using assms(3,4) r r' by (simp add: block_id_def hashing_blob_def hashing_blob_inner_eq header_write_def)
  from cn_fast_hash_binding [OF this]
  have "?x = ?y \<or> hash_collision (length_prefixed ?x) (length_prefixed ?y)"
    using varint_c.prefix_free by (auto simp: length_prefixed_def writer_defs)
  moreover have "block_id_inputs b = length_prefixed ?x # block_tree_inputs b" "block_id_inputs b' = length_prefixed ?y # block_tree_inputs b'"
    using r r' by (simp_all add: block_id_inputs_def hashing_blob_def hashing_blob_inner_eq header_write_def)
  ultimately show ?thesis
    using hashing_blob_binding [OF assms(1,2) r r', of "header b" "header b'"] assms(1,2)
    by (auto simp: wf_block_def)
qed

theorem block_id_binding_witness:
  "(header sample_block = header sample_block \<and>
      transaction_hash (miner_tx sample_block) = transaction_hash (miner_tx sample_block) \<and>
      tx_hashes sample_block = tx_hashes sample_block) \<or> collides (block_id_inputs sample_block) (block_id_inputs sample_block)"
proof -
  obtain r where "tx_tree_hash sample_block = Some r" using sample_block_root ..
  then have "\<exists>i. block_id sample_block = Some i" by (simp add: block_id_def hashing_blob_def hashing_blob_inner_eq)
  then obtain i where i: "block_id sample_block = Some i" ..
  show ?thesis by (rule block_id_binding [OF wf_sample_block wf_sample_block i i])
qed



text \<open>The blob the miner rebuilds from a header, a root and a transaction count is the
  hashing blob of the block.\<close>

theorem hashing_blob_from_parts_agrees:
  assumes "tx_tree_hash b = Some root"
  shows "hashing_blob b = Some (hashing_blob_from_parts (header b) root (tx_count b))"
  using hashing_blob_inner_eq [OF assms, of True]
  by (simp add: hashing_blob_def hashing_blob_from_parts_def header_write_def writer_defs tx_count_def add.commute)

theorem hashing_blob_from_parts_agrees_witness:
  "\<exists>root. hashing_blob sample_block = Some (hashing_blob_from_parts (header sample_block) root (tx_count sample_block))"
proof -
  obtain r where "tx_tree_hash sample_block = Some r" using sample_block_root ..
  from hashing_blob_from_parts_agrees [OF this] show ?thesis by blast
qed

end
