(* ===== verification/TxWeight.thy ===== *)
theory TxWeight
  imports Tx
begin

text \<open>
  Transaction weight and the Bulletproof clawback, \<open>crates/wow-types/src/weight.rs\<close>. The loop that
  finds the logarithm of the padded output count shifts a \<open>usize\<close>, whose shift amount is taken
  modulo 64 in the release profile: it does not return for counts above \<open>2 ^ 63\<close>. It is a partial
  function, \<open>None\<close> standing for a run that does not return, and its termination is a theorem.
\<close>

section \<open>The clawback\<close>

partial_function (option) nlr_loop :: "usize \<Rightarrow> usize \<Rightarrow> usize option" where
  "nlr_loop n_padded nlr =
     (if 2 ^ (nlr mod 64) < n_padded then nlr_loop n_padded ((nlr + 1) mod 2 ^ 64) else Some nlr)"

definition clawback_fields :: "RctType \<Rightarrow> usize" where
  "clawback_fields ty = (if is_bulletproof_plus ty then 6 else 9)"

definition clawback :: "RctType \<Rightarrow> usize \<Rightarrow> usize \<Rightarrow> u64 option" where
  "clawback ty n_outputs n_padded =
     (let bp_base = (32 * (clawback_fields ty + 7 * 2)) div 2 in
      if n_padded \<le> 2 then Some 0
      else case nlr_loop n_padded 0 of None \<Rightarrow> None | Some nlr \<Rightarrow>
        let nlr = nlr + 6;
            bp_size = 32 * (clawback_fields ty + 2 * nlr);
            lhs = saturating_mul (word_of_nat bp_base) (word_of_nat n_padded)
        in Some (saturating_sub lhs (word_of_nat bp_size) * 4 div 5))"

definition get_transaction_weight :: "Transaction \<Rightarrow> usize \<Rightarrow> u64 option" where
  "get_transaction_weight tx blob_size =
     (let blob = word_of_nat blob_size; ty = rct_ty (rct_signatures tx) in
      if version (tx_prefix tx) < 2 then Some blob
      else if \<not> is_bulletproof ty \<and> \<not> is_bulletproof_plus ty then Some blob
      else if length (vout (tx_prefix tx)) \<le> 2 then Some blob
      else if is_old_bulletproof ty then Some blob
      else case n_padded_outputs (rct_signatures tx) of
        None \<Rightarrow> Some blob
      | Some n_padded \<Rightarrow>
          map_option (\<lambda>c. blob + c) (clawback ty (length (vout (tx_prefix tx))) n_padded))"

section \<open>The loop\<close>

lemma nlr_loop_from:
  assumes "n \<le> 2 ^ k" "k < 64" "j \<le> k" "\<And>i. i < k \<Longrightarrow> 2 ^ i < n"
  shows "nlr_loop n j = Some k"
  using assms(3)
proof (induction "k - j" arbitrary: j)
  case 0
  then show ?case using assms(1,2) by (subst nlr_loop.simps) simp
next
  case (Suc d)
  then have "2 ^ j < n" "j < 64" using assms(2,4) by auto
  moreover have "nlr_loop n (Suc j) = Some k" by (rule Suc(1)) (use Suc in auto)
  ultimately show ?case by (subst nlr_loop.simps) simp
qed

lemma nlr_loop_pow2: "k < 64 \<Longrightarrow> nlr_loop (2 ^ k) 0 = Some k"
  by (rule nlr_loop_from) auto

lemma ceil_log_exists:
  assumes "(n::nat) \<le> 2 ^ m" "1 < n"
  obtains k where "n \<le> 2 ^ k" "k \<le> m" "\<And>i. i < k \<Longrightarrow> 2 ^ i < n"
proof -
  define k where "k = (LEAST k. n \<le> 2 ^ k)"
  have "n \<le> 2 ^ k" unfolding k_def by (rule LeastI) (rule assms(1))
  moreover have "k \<le> m" unfolding k_def by (rule Least_le) (rule assms(1))
  moreover have "2 ^ i < n" if "i < k" for i using not_less_Least [of i "\<lambda>k. n \<le> 2 ^ k"] that
    by (simp add: k_def)
  ultimately show thesis using that by blast
qed

lemma nlr_loop_returns:
  assumes "n \<le> 2 ^ 63" "1 < n"
  shows "\<exists>k. nlr_loop n 0 = Some k"
proof -
  obtain k where k: "n \<le> 2 ^ k" "k \<le> 63" "\<And>i. i < k \<Longrightarrow> 2 ^ i < n"
    using ceil_log_exists [OF assms] by blast
  show ?thesis using nlr_loop_from [OF k(1) _ _ k(3), of 0] k(2) by auto
qed

lemma nlr_loop_diverges:
  assumes "2 ^ 63 < n"
  shows "nlr_loop n j = None"
proof -
  have "n \<le> 2 ^ 63" if "nlr_loop n j = Some k" for k
  proof (rule nlr_loop.raw_induct [of "\<lambda>n j k. n \<le> 2 ^ 63", OF _ that])
    fix f :: "nat \<Rightarrow> nat \<Rightarrow> nat option" and n j k
    assume IH: "\<And>n j k. f n j = Some k \<Longrightarrow> n \<le> 2 ^ 63"
      and f: "(if 2 ^ (j mod 64) < n then f n ((j + 1) mod 2 ^ 64) else Some j) = Some k"
    have "(2::nat) ^ (j mod 64) \<le> 2 ^ 63" by (intro power_increasing) auto
    with IH f show "n \<le> 2 ^ 63" by (auto split: if_splits)
  qed
  then show ?thesis using assms by (cases "nlr_loop n j") auto
qed

lemma nlr_loop_values:
  assumes "nlr_loop n 0 = Some k" "1 < n"
  shows "n \<le> 2 ^ k \<and> k < 64 \<and> (\<forall>i < k. 2 ^ i < n)"
proof -
  have "n \<le> 2 ^ 63" using nlr_loop_diverges [of n 0] assms(1) by (cases "n \<le> 2 ^ 63") auto
  then obtain m where m: "n \<le> 2 ^ m" "m \<le> 63" "\<And>i. i < m \<Longrightarrow> 2 ^ i < n"
    using ceil_log_exists [OF _ assms(2)] by blast
  then have "nlr_loop n 0 = Some m" by (intro nlr_loop_from) auto
  with assms(1) m show ?thesis by auto
qed


section \<open>The value of the clawback\<close>

lemma word_eq_word_of_nat: "unat w = n \<Longrightarrow> w = word_of_nat n"
  by auto

lemma clawback_exact:
  assumes "2 < n" "n \<le> 2 ^ 50"
  obtains k where "n \<le> 2 ^ k" "k \<le> 50" "\<And>i. i < k \<Longrightarrow> 2 ^ i < n"
    and "clawback ty outs n = Some (word_of_nat
      ((16 * (clawback_fields ty + 14) * n - 32 * (clawback_fields ty + 2 * (k + 6))) * 4 div 5))"
proof -
  obtain k where k: "n \<le> 2 ^ k" "k \<le> 50" "\<And>i. i < k \<Longrightarrow> 2 ^ i < n"
    using ceil_log_exists [of n 50] assms by auto
  have loop: "nlr_loop n 0 = Some k" by (rule nlr_loop_from) (use k in auto)
  define b where "b = 16 * (clawback_fields ty + 14)"
  define s where "s = 32 * (clawback_fields ty + 2 * (k + 6))"
  have b: "b \<le> 368" and s: "s < 2 ^ 64" using k(2) by (simp_all add: clawback_fields_def b_def s_def)
  have l: "b * n \<le> 368 * 2 ^ 50" using b assms(2) by (intro mult_mono) auto
  have u: "unat (word_of_nat b :: u64) = b" "unat (word_of_nat n :: u64) = n"
    using b assms(2) by simp_all
  let ?d = "saturating_sub (saturating_mul (word_of_nat b) (word_of_nat n)) (word_of_nat s) :: u64"
  have "unat (saturating_mul (word_of_nat b) (word_of_nat n) :: u64) = b * n"
    using l unfolding unat_saturating_mul u by simp
  then have d: "unat ?d = b * n - s" using s unfolding unat_saturating_sub by simp
  have "unat (?d * 4 div 5) = (b * n - s) * 4 div 5" using l d by (simp add: unat_div unat_word_ariths)
  then have "?d * 4 div 5 = word_of_nat ((b * n - s) * 4 div 5)" by (rule word_eq_word_of_nat)
  moreover have "(32 * (clawback_fields ty + 7 * 2)) div 2 = b" by (simp add: b_def)
  ultimately have "clawback ty outs n = Some (word_of_nat ((b * n - s) * 4 div 5))"
    using assms(1) loop by (simp add: clawback_def Let_def s_def)
  then show thesis using that [OF k] by (simp add: b_def s_def)
qed

lemma max_amounts_le: "max_amounts l = Some n \<Longrightarrow> 1 \<le> n \<and> n \<le> 2 ^ 63"
proof -
  assume "max_amounts l = Some n"
  then obtain k where "n = 2 ^ k" "k < 64" by (auto simp: max_amounts_def Let_def split: if_splits)
  moreover from this have "(2::nat) ^ k \<le> 2 ^ 63" by (intro power_increasing) auto
  ultimately show ?thesis by simp
qed

lemma expand_single_proof:
  assumes "expand tx = Inr ()" "\<not> version (tx_prefix tx) < 2"
    and "is_bulletproof (rct_ty (rct_signatures tx)) \<or> is_bulletproof_plus (rct_ty (rct_signatures tx))"
    and "\<not> is_old_bulletproof (rct_ty (rct_signatures tx))"
    and "n_padded_outputs (rct_signatures tx) = Some n"
  shows "n \<le> 2 ^ 63"
proof -
  let ?rv = "rct_signatures tx"
  have "\<exists>l. max_amounts l = Some n"
  proof (cases "is_bulletproof_plus (rct_ty ?rv)")
    case True
    then have "length (bulletproofs_plus ?rv) = 1"
      using assms(1,2) by (auto simp: expand_def Let_def split: if_splits)
    then obtain p where "bulletproofs_plus ?rv = [p]" by (auto simp: length_Suc_conv)
    then show ?thesis using assms(5) True by (auto simp: n_padded_outputs_def split: option.splits if_splits)
  next
    case False
    then have "rct_ty ?rv \<in> {RctBulletproof, RctBulletproof2, RctClsag}"
      using assms(3,4) by (auto simp: is_bulletproof_def is_old_bulletproof_def)
    then have "length (bulletproofs ?rv) = 1"
      using assms(1,2) False by (auto simp: expand_def Let_def split: if_splits)
    then obtain p where "bulletproofs ?rv = [p]" by (auto simp: length_Suc_conv)
    then show ?thesis using assms(5) False by (auto simp: n_padded_outputs_def split: option.splits if_splits)
  qed
  then show ?thesis using max_amounts_le by blast
qed

section \<open>Properties\<close>

text \<open>The clawback is exact for every padded output count up to \<open>2 ^ 50\<close>, far beyond what a
  block can hold: no operation saturates or wraps, and the logarithm is the ceiling one.\<close>

theorem clawback_formula:
  assumes "2 < n" "n \<le> 2 ^ 50"
  shows "\<exists>k. n \<le> 2 ^ k \<and> (\<forall>i < k. 2 ^ i < n) \<and>
    clawback ty outs n = Some (word_of_nat
      ((16 * (clawback_fields ty + 14) * n - 32 * (clawback_fields ty + 2 * (k + 6))) * 4 div 5))"
  using clawback_exact [OF assms, of ty outs] by metis

theorem clawback_formula_witness:
  "\<exists>k. 16 \<le> (2::nat) ^ k \<and> (\<forall>i < k. 2 ^ i < (16::nat)) \<and>
    clawback RctBulletproofPlus 16 16 = Some (word_of_nat
      ((16 * (clawback_fields RctBulletproofPlus + 14) * 16 -
        32 * (clawback_fields RctBulletproofPlus + 2 * (k + 6))) * 4 div 5))"
  by (rule clawback_formula) simp_all

text \<open>C37. Weighing a transaction that \<open>from_blob\<close> accepted always returns, although the
  logarithm loop does not return for every count: \<open>expand\<close> leaves one proof, and one proof pads
  to at most \<open>2 ^ 63\<close> outputs.\<close>

theorem weight_of_parsed_returns:
  assumes "from_blob blob = Inr tx"
  shows "\<exists>w. get_transaction_weight tx blob_size = Some w"
proof -
  have ex: "expand tx = Inr ()" using assms by (auto simp: from_blob_def)
  have "\<exists>c. clawback ty outs n = Some c" if "n \<le> 2 ^ 63" for ty outs n
    using nlr_loop_returns [OF that] by (auto simp: clawback_def Let_def)
  then show ?thesis
    using expand_single_proof [OF ex] by (auto simp: get_transaction_weight_def Let_def split: option.split)
qed

theorem weight_of_parsed_returns_witness: "\<exists>w. get_transaction_weight sample_tx 900 = Some w"
  by (rule weight_of_parsed_returns) (rule from_blob_sample)

text \<open>C39. Called with a padded output count above \<open>2 ^ 63\<close>, which two proofs of a transaction that
  was only read give, the clawback never returns.\<close>

theorem clawback_diverges:
  assumes "2 ^ 63 < n"
  shows "clawback ty outs n = None"
  using assms nlr_loop_diverges [OF assms] by (simp add: clawback_def)

theorem clawback_diverges_witness: "clawback RctBulletproofPlus 3 (2 ^ 63 + 2 ^ 62) = None"
  by (rule clawback_diverges) simp

end
