(* ===== verification/Constants.thy ===== *)
theory Constants
  imports Prelude
begin

text \<open>
  The consensus constants, \<open>crates/wow-consensus/src/constants.rs\<close>, that the other theories use,
  and the network of \<open>crates/wow-types/src/address.rs\<close>. Derived constants are written as the code
  derives them.
\<close>

datatype Network = Mainnet | Testnet | Stagenet | Fakechain

definition COIN :: u64 where "COIN = 100000000000"
definition DIFFICULTY_TARGET_V2 :: u64 where "DIFFICULTY_TARGET_V2 = 300"

definition BLOCKCHAIN_TIMESTAMP_CHECK_WINDOW :: usize where "BLOCKCHAIN_TIMESTAMP_CHECK_WINDOW = 60"
definition BLOCKCHAIN_TIMESTAMP_CHECK_WINDOW_V2 :: usize where "BLOCKCHAIN_TIMESTAMP_CHECK_WINDOW_V2 = 11"
definition CRYPTONOTE_BLOCK_FUTURE_TIME_LIMIT :: u64 where "CRYPTONOTE_BLOCK_FUTURE_TIME_LIMIT = 7200"
definition CRYPTONOTE_BLOCK_FUTURE_TIME_LIMIT_V2 :: u64 where "CRYPTONOTE_BLOCK_FUTURE_TIME_LIMIT_V2 = 600"
definition CRYPTONOTE_MAX_BLOCK_NUMBER :: u64 where "CRYPTONOTE_MAX_BLOCK_NUMBER = 500000000"
definition CRYPTONOTE_DEFAULT_TX_SPENDABLE_AGE :: u64 where "CRYPTONOTE_DEFAULT_TX_SPENDABLE_AGE = 4"
definition CRYPTONOTE_MINED_MONEY_UNLOCK_WINDOW :: u64 where "CRYPTONOTE_MINED_MONEY_UNLOCK_WINDOW = 60"
definition CRYPTONOTE_MINED_MONEY_UNLOCK_WINDOW_V2 :: u64 where "CRYPTONOTE_MINED_MONEY_UNLOCK_WINDOW_V2 = 288"
definition CRYPTONOTE_LOCKED_TX_ALLOWED_DELTA_BLOCKS :: u64 where "CRYPTONOTE_LOCKED_TX_ALLOWED_DELTA_BLOCKS = 1"
definition CRYPTONOTE_LOCKED_TX_ALLOWED_DELTA_SECONDS_V2 :: u64 where
  "CRYPTONOTE_LOCKED_TX_ALLOWED_DELTA_SECONDS_V2 = 300"

definition MONEY_SUPPLY :: u64 where "MONEY_SUPPLY = - 1"
definition EMISSION_SPEED_FACTOR_PER_MINUTE :: nat where "EMISSION_SPEED_FACTOR_PER_MINUTE = 24"
definition FINAL_SUBSIDY_PER_MINUTE :: u64 where "FINAL_SUBSIDY_PER_MINUTE = 0"
definition BASE_REWARD_CLAMP_THRESHOLD :: u64 where "BASE_REWARD_CLAMP_THRESHOLD = 100000000"
definition EMISSION_SPEED_FACTOR :: nat where
  "EMISSION_SPEED_FACTOR = EMISSION_SPEED_FACTOR_PER_MINUTE - (unat DIFFICULTY_TARGET_V2 div 60 - 1)"

definition BLOCK_GRANTED_FULL_REWARD_ZONE_V1 :: u64 where "BLOCK_GRANTED_FULL_REWARD_ZONE_V1 = 20000"
definition BLOCK_GRANTED_FULL_REWARD_ZONE_V2 :: u64 where "BLOCK_GRANTED_FULL_REWARD_ZONE_V2 = 60000"
definition BLOCK_GRANTED_FULL_REWARD_ZONE_V5 :: u64 where "BLOCK_GRANTED_FULL_REWARD_ZONE_V5 = 300000"
definition LONG_TERM_BLOCK_WEIGHT_WINDOW_SIZE :: u64 where "LONG_TERM_BLOCK_WEIGHT_WINDOW_SIZE = 100000"
definition SHORT_TERM_BLOCK_WEIGHT_SURGE_FACTOR :: u64 where "SHORT_TERM_BLOCK_WEIGHT_SURGE_FACTOR = 50"
definition CRYPTONOTE_REWARD_BLOCKS_WINDOW :: usize where "CRYPTONOTE_REWARD_BLOCKS_WINDOW = 100"

definition get_min_block_weight :: "u8 \<Rightarrow> u64" where
  "get_min_block_weight version =
     (if version < 2 then BLOCK_GRANTED_FULL_REWARD_ZONE_V1
      else if version < 5 then BLOCK_GRANTED_FULL_REWARD_ZONE_V2
      else BLOCK_GRANTED_FULL_REWARD_ZONE_V5)"

definition FEE_PER_BYTE :: u64 where "FEE_PER_BYTE = 300000"
definition FEE_PER_KB :: u64 where "FEE_PER_KB = 2000000000"
definition DYNAMIC_FEE_PER_KB_BASE_FEE :: u64 where "DYNAMIC_FEE_PER_KB_BASE_FEE = 2000000000"
definition DYNAMIC_FEE_PER_KB_BASE_BLOCK_REWARD :: u64 where
  "DYNAMIC_FEE_PER_KB_BASE_BLOCK_REWARD = 10000000000000"
definition DYNAMIC_FEE_PER_KB_BASE_FEE_V5 :: u64 where
  "DYNAMIC_FEE_PER_KB_BASE_FEE_V5 =
     DYNAMIC_FEE_PER_KB_BASE_FEE * BLOCK_GRANTED_FULL_REWARD_ZONE_V2 div BLOCK_GRANTED_FULL_REWARD_ZONE_V5"
definition DYNAMIC_FEE_REFERENCE_TRANSACTION_WEIGHT :: u64 where
  "DYNAMIC_FEE_REFERENCE_TRANSACTION_WEIGHT = 3000"

definition DIFFICULTY_WINDOW :: usize where "DIFFICULTY_WINDOW = 720"
definition DIFFICULTY_WINDOW_V2 :: usize where "DIFFICULTY_WINDOW_V2 = 60"
definition DIFFICULTY_WINDOW_V3 :: usize where "DIFFICULTY_WINDOW_V3 = 144"
definition DIFFICULTY_LAG :: usize where "DIFFICULTY_LAG = 15"
definition DIFFICULTY_LAG_V2 :: usize where "DIFFICULTY_LAG_V2 = 3"
definition DIFFICULTY_CUT :: usize where "DIFFICULTY_CUT = 60"
definition DIFFICULTY_CUT_V2 :: usize where "DIFFICULTY_CUT_V2 = 12"
definition DIFFICULTY_BLOCKS_COUNT :: usize where "DIFFICULTY_BLOCKS_COUNT = DIFFICULTY_WINDOW + DIFFICULTY_LAG"
definition DIFFICULTY_BLOCKS_COUNT_V2 :: usize where "DIFFICULTY_BLOCKS_COUNT_V2 = DIFFICULTY_WINDOW_V2 + 1"
definition DIFFICULTY_BLOCKS_COUNT_V3 :: usize where "DIFFICULTY_BLOCKS_COUNT_V3 = DIFFICULTY_WINDOW_V3 + 1"
definition DIFFICULTY_BLOCKS_COUNT_V4 :: usize where
  "DIFFICULTY_BLOCKS_COUNT_V4 = DIFFICULTY_WINDOW_V3 + DIFFICULTY_LAG_V2"

lemmas window_defs = DIFFICULTY_WINDOW_def DIFFICULTY_WINDOW_V2_def DIFFICULTY_WINDOW_V3_def DIFFICULTY_LAG_def
  DIFFICULTY_LAG_V2_def DIFFICULTY_CUT_def DIFFICULTY_CUT_V2_def DIFFICULTY_BLOCKS_COUNT_def
  DIFFICULTY_BLOCKS_COUNT_V2_def DIFFICULTY_BLOCKS_COUNT_V3_def DIFFICULTY_BLOCKS_COUNT_V4_def

end
