(* ===== verification/PowDifficulty.thy ===== *)
theory PowDifficulty
  imports Prelude
begin

text \<open>
  The proof-of-work check, \<open>crates/wow-types/src/difficulty.rs\<close>: a 256-bit by 128-bit
  multiplication in 64-bit limbs with explicit carries, reporting whether the product fits 256
  bits. It is shown to be the comparison its documentation states.
\<close>

section \<open>The check\<close>

type_synonym Difficulty = u128

text \<open>The inner loop over the limbs of the hash; \<open>idx\<close> is \<open>i + j\<close>.\<close>

fun mul_limbs :: "u64 list \<Rightarrow> u64 \<Rightarrow> u64 list \<Rightarrow> usize \<Rightarrow> u128 \<Rightarrow> u64 list \<times> u128" where
  "mul_limbs [] di prods idx carry = (prods, carry)"
| "mul_limbs (hj # hs) di prods idx carry =
     (let cur = ucast (prods ! idx) + ucast hj * ucast di + carry in
      mul_limbs hs di (prods[idx := ucast cur]) (idx + 1) (drop_bit 64 cur))"

function carry_loop :: "u64 list \<Rightarrow> usize \<Rightarrow> u128 \<Rightarrow> u64 list \<times> u128" where
  "carry_loop prods k carry =
     (if carry \<noteq> 0 \<and> k < length prods then
        let cur = ucast (prods ! k) + carry in carry_loop (prods[k := ucast cur]) (k + 1) (drop_bit 64 cur)
      else (prods, carry))"
  by pat_completeness auto
termination by (relation "measure (\<lambda>(prods, k, carry). length prods - k)") auto

declare carry_loop.simps [simp del]

text \<open>The outer loop over the limbs of the difficulty; \<open>None\<close> is the early return of \<open>false\<close>.\<close>

fun mul_rows :: "u64 list \<Rightarrow> u64 list \<Rightarrow> usize \<Rightarrow> u64 list \<Rightarrow> u64 list option" where
  "mul_rows h [] i prods = Some prods"
| "mul_rows h (di # ds) i prods =
     (if di = 0 then mul_rows h ds (i + 1) prods
      else
        let (prods, carry) = mul_limbs h di prods i 0;
            (prods, carry) = carry_loop prods (i + length h) carry
        in if carry \<noteq> 0 then None else mul_rows h ds (i + 1) prods)"

definition hash_limbs :: "bytes \<Rightarrow> u64 list" where
  "hash_limbs hash = map (\<lambda>i. u64_from_le_bytes (take 8 (drop (i * 8) hash))) [0, 1, 2, 3]"

definition mul_256_by_128_fits :: "bytes \<Rightarrow> u128 \<Rightarrow> bool" where
  "mul_256_by_128_fits hash difficulty =
     (let d = [ucast difficulty, ucast (drop_bit 64 difficulty)] in
      case mul_rows (hash_limbs hash) d 0 (replicate 6 0) of None \<Rightarrow> False
      | Some prods \<Rightarrow> prods ! 4 = 0 \<and> prods ! 5 = 0)"

definition check_hash :: "bytes \<Rightarrow> Difficulty \<Rightarrow> bool" where
  "check_hash hash difficulty = (if difficulty = 0 then False else mul_256_by_128_fits hash difficulty)"

definition accumulate :: "Difficulty \<Rightarrow> Difficulty \<Rightarrow> Difficulty option" where
  "accumulate cumulative next_d = checked_add cumulative next_d"

definition split_difficulty :: "Difficulty \<Rightarrow> u64 \<times> u64" where
  "split_difficulty d = (ucast d, ucast (drop_bit 64 d))"

definition join_difficulty :: "u64 \<Rightarrow> u64 \<Rightarrow> Difficulty" where
  "join_difficulty lo hi = push_bit 64 (ucast hi) OR ucast lo"

section \<open>Values of limbs\<close>

fun lv :: "u64 list \<Rightarrow> nat" where
  "lv [] = 0"
| "lv (x # xs) = unat x + 2 ^ 64 * lv xs"

lemma lv_update:
  "i < length p \<Longrightarrow> lv (p[i := x]) + unat (p ! i) * 2 ^ (64 * i) = lv p + unat x * 2 ^ (64 * i)"
proof (induction p arbitrary: i)
  case (Cons a p)
  show ?case
  proof (cases i)
    case (Suc j)
    then have "2 ^ 64 * (lv (p[j := x]) + unat (p ! j) * 2 ^ (64 * j)) = 2 ^ 64 * (lv p + unat x * 2 ^ (64 * j))"
      using Cons by simp
    then show ?thesis by (simp add: Suc power_add algebra_simps)
  qed simp
qed simp

lemma lv_zeros: "lv (replicate n 0) = 0"
  by (induction n) simp_all

lemma lv_append: "lv (xs @ ys) = lv xs + 2 ^ (64 * length xs) * lv ys"
  by (induction xs) (simp_all add: power_add algebra_simps)

lemma lv_less: "lv p < 2 ^ (64 * length p)"
proof (induction p)
  case (Cons a p)
  have "unat a < 2 ^ 64" using unat_bound [of a] by simp
  moreover have "lv p + 1 \<le> 2 ^ (64 * length p)" using Cons by simp
  then have "2 ^ 64 * (lv p + 1) \<le> 2 ^ 64 * 2 ^ (64 * length p)" by (intro mult_left_mono) auto
  ultimately show ?case by (simp add: power_add)
qed simp

lemma unat_ucast_64_128 [simp]: "unat (ucast (x :: u64) :: u128) = unat x"
  using unat_bound [of x] by (simp add: unat_ucast_mod)

lemma mul_step:
  fixes p h d :: u64 and c :: u128
  assumes "unat c < 2 ^ 64"
  defines "cur \<equiv> ucast p + ucast h * ucast d + c"
  shows "unat cur = unat p + unat h * unat d + unat c"
    and "unat (ucast cur :: u64) + 2 ^ 64 * unat (drop_bit 64 cur) = unat p + unat h * unat d + unat c"
    and "unat (drop_bit 64 cur) < 2 ^ 64"
proof -
  have b: "unat h \<le> 2 ^ 64 - 1" "unat d \<le> 2 ^ 64 - 1" and p: "unat p \<le> 2 ^ 64 - 1"
    using unat_bound [of h] unat_bound [of d] unat_bound [of p] by simp_all
  have m: "unat h * unat d \<le> (2 ^ 64 - 1) * (2 ^ 64 - 1)" by (rule mult_le_mono [OF b])
  then have hd: "unat (ucast h * ucast d :: u128) = unat h * unat d"
    by (subst unat_mult_no_wrap) simp_all
  then have "unat (ucast p + ucast h * ucast d :: u128) = unat p + unat h * unat d"
    using m p by (subst unat_add_no_wrap) simp_all
  then show u: "unat cur = unat p + unat h * unat d + unat c"
    unfolding cur_def using m p assms(1) by (subst unat_add_no_wrap) simp_all
  have "unat (ucast cur :: u64) = unat cur mod 2 ^ 64" by (simp add: unat_ucast_mod)
  moreover have "unat (drop_bit 64 cur) = unat cur div 2 ^ 64" by (rule unat_drop_bit_div)
  ultimately show "unat (ucast cur :: u64) + 2 ^ 64 * unat (drop_bit 64 cur) = unat p + unat h * unat d + unat c"
    using u by (simp only: mod_mult_div_eq)
  have "unat cur < 2 ^ 64 * 2 ^ 64" using unat_bound [of cur] by simp
  then show "unat (drop_bit 64 cur) < 2 ^ 64"
    by (simp add: unat_drop_bit_div less_mult_imp_div_less)
qed

lemma mul_limbs_value:
  assumes "idx + length h \<le> length p" "unat c < 2 ^ 64" "mul_limbs h d p idx c = (p', c')"
  shows "length p' = length p \<and> unat c' < 2 ^ 64 \<and>
    lv p' + unat c' * 2 ^ (64 * (idx + length h)) = lv p + (lv h * unat d + unat c) * 2 ^ (64 * idx)"
  using assms
proof (induction h d p idx c arbitrary: p' c' rule: mul_limbs.induct)
  case (2 hj hs d p idx c)
  define cur where "cur = ucast (p ! idx) + ucast hj * ucast d + c"
  have c: "unat (ucast cur :: u64) + 2 ^ 64 * unat (drop_bit 64 cur) = unat (p ! idx) + unat hj * unat d + unat c"
    "unat (drop_bit 64 cur) < 2 ^ 64"
    using mul_step [OF 2(3), of "p ! idx" hj d] by (simp_all add: cur_def)
  have idx: "idx < length p" using 2(2) by simp
  have rec: "mul_limbs hs d (p[idx := ucast cur]) (idx + 1) (drop_bit 64 cur) = (p', c')"
    using 2(4) by (simp add: cur_def Let_def)
  have IH: "length p' = length p \<and> unat c' < 2 ^ 64 \<and>
      lv p' + unat c' * 2 ^ (64 * (idx + 1 + length hs)) =
        lv (p[idx := ucast cur]) + (lv hs * unat d + unat (drop_bit 64 cur)) * 2 ^ (64 * (idx + 1))"
    using 2(1) [OF cur_def _ c(2) rec] 2(2) by simp
  let ?B = "2 ^ (64 * idx) :: nat"
  have "lv (p[idx := ucast cur]) + unat (p ! idx) * ?B = lv p + unat (ucast cur :: u64) * ?B"
    by (rule lv_update [OF idx])
  moreover have "(unat (ucast cur :: u64) + 2 ^ 64 * unat (drop_bit 64 cur)) * ?B =
      (unat (p ! idx) + unat hj * unat d + unat c) * ?B" using c(1) by simp
  ultimately have "lv (p[idx := ucast cur]) + unat (drop_bit 64 cur) * (2 ^ 64 * ?B) =
      lv p + (unat hj * unat d + unat c) * ?B"
    by (simp add: algebra_simps)
  moreover have "2 ^ (64 * (idx + 1)) = 2 ^ 64 * ?B" by (simp add: power_add)
  ultimately show ?case using IH by (simp add: algebra_simps)
qed simp

lemma carry_loop_value:
  assumes "k \<le> length p" "unat c < 2 ^ 64" "carry_loop p k c = (p', c')"
  shows "length p' = length p \<and>
    lv p' + unat c' * 2 ^ (64 * length p) = lv p + unat c * 2 ^ (64 * k)"
  using assms
proof (induction p k c arbitrary: p' c' rule: carry_loop.induct)
  case (1 p k c)
  show ?case
  proof (cases "c \<noteq> 0 \<and> k < length p")
    case True
    define cur where "cur = ucast (p ! k) + c"
    have e: "cur = ucast (p ! k) + ucast (0 :: u64) * ucast (0 :: u64) + c" by (simp add: cur_def)
    have c: "unat (ucast cur :: u64) + 2 ^ 64 * unat (drop_bit 64 cur) = unat (p ! k) + unat c"
      "unat (drop_bit 64 cur) < 2 ^ 64"
      using mul_step [OF 1(3), of "p ! k" 0 0] unfolding e by simp_all
    have rec: "carry_loop (p[k := ucast cur]) (k + 1) (drop_bit 64 cur) = (p', c')"
      using 1(4) True by (simp add: carry_loop.simps [of p k c] cur_def Let_def)
    have IH: "length p' = length p \<and> lv p' + unat c' * 2 ^ (64 * length p) =
        lv (p[k := ucast cur]) + unat (drop_bit 64 cur) * 2 ^ (64 * (k + 1))"
      using 1(1) [OF True cur_def _ c(2) rec] True by simp
    let ?B = "2 ^ (64 * k) :: nat"
    have "lv (p[k := ucast cur]) + unat (p ! k) * ?B = lv p + unat (ucast cur :: u64) * ?B"
      by (rule lv_update) (use True in simp)
    moreover have "(unat (ucast cur :: u64) + 2 ^ 64 * unat (drop_bit 64 cur)) * ?B =
        (unat (p ! k) + unat c) * ?B" using c(1) by simp
    ultimately have "lv (p[k := ucast cur]) + unat (drop_bit 64 cur) * (2 ^ 64 * ?B) = lv p + unat c * ?B"
      by (simp add: algebra_simps)
    moreover have "2 ^ (64 * (k + 1)) = 2 ^ 64 * ?B" by (simp add: power_add)
    ultimately show ?thesis using IH by (simp add: algebra_simps)
  next
    case False
    then have "p' = p" "c' = c" using 1(4) by (simp_all add: carry_loop.simps [of p k c] split: if_splits)
    moreover have "unat c * 2 ^ (64 * length p) = unat c * 2 ^ (64 * k)"
      using False 1(2) by (cases "k = length p") auto
    ultimately show ?thesis by simp
  qed
qed

lemma mul_rows_value:
  assumes "i + length h + length d \<le> length p" "lv p + lv h * lv d * 2 ^ (64 * i) < 2 ^ (64 * length p)"
  shows "\<exists>p'. mul_rows h d i p = Some p' \<and> length p' = length p \<and> lv p' = lv p + lv h * lv d * 2 ^ (64 * i)"
  using assms
proof (induction h d i p rule: mul_rows.induct)
  case (2 h di ds i p)
  let ?B = "2 ^ (64 * i) :: nat"
  have tot: "lv p + lv h * lv (di # ds) * ?B =
      (lv p + lv h * unat di * ?B) + lv h * lv ds * 2 ^ (64 * (i + 1))"
    by (simp add: power_add algebra_simps)
  show ?case
  proof (cases "di = 0")
    case True
    then have e: "lv h * lv (di # ds) * ?B = lv h * lv ds * 2 ^ (64 * (i + 1))"
      by (simp add: power_add algebra_simps)
    show ?thesis using 2(1) [OF True] 2(3,4) True unfolding e by simp
  next
    case False
    obtain p1 c1 where m: "mul_limbs h di p i 0 = (p1, c1)" by fastforce
    have m1: "length p1 = length p" "unat c1 < 2 ^ 64"
      "lv p1 + unat c1 * 2 ^ (64 * (i + length h)) = lv p + lv h * unat di * ?B"
      using mul_limbs_value [OF _ _ m] 2(3) by simp_all
    obtain p2 c2 where c: "carry_loop p1 (i + length h) c1 = (p2, c2)" by fastforce
    have c2: "length p2 = length p" "lv p2 + unat c2 * 2 ^ (64 * length p) = lv p + lv h * unat di * ?B"
      using carry_loop_value [OF _ m1(2) c] 2(3) m1 by simp_all
    have "lv p2 + unat c2 * 2 ^ (64 * length p) < 2 ^ (64 * length p)" using c2(2) 2(4) tot by linarith
    then have "unat c2 = 0" by (cases "unat c2") auto
    then have z: "c2 = 0" "lv p2 = lv p + lv h * unat di * ?B" using c2(2) by (simp_all add: unat_eq_zero)
    have "\<exists>p'. mul_rows h ds (i + 1) p2 = Some p' \<and> length p' = length p2 \<and>
        lv p' = lv p2 + lv h * lv ds * 2 ^ (64 * (i + 1))"
      using 2(2) [OF False m [symmetric] refl c [symmetric] refl] z c2(1) 2(3,4) tot by simp
    then show ?thesis using False m c z c2(1) tot by (simp add: add.assoc)
  qed
qed simp


section \<open>The hash and the difficulty as limbs\<close>

lemma unat_u64_from_le_bytes: "length b = 8 \<Longrightarrow> unat (u64_from_le_bytes b) = le_nat b"
  using le_nat_less [of b] by (simp add: u64_from_le_bytes_def)

lemma lv_hash_limbs:
  assumes "length hash = 32"
  shows "lv (hash_limbs hash) = le_nat hash"
proof -
  let ?c = "\<lambda>i. take 8 (drop (i * 8) hash)"
  have "hash = ?c 0 @ ?c 1 @ ?c 2 @ ?c 3"
  proof -
    have "hash = take 8 hash @ take 8 (drop 8 hash) @ take 8 (drop 8 (drop 8 hash)) @ drop 8 (drop 8 (drop 8 hash))"
      by (metis append_take_drop_id)
    then show ?thesis using assms by simp
  qed
  then have "le_nat hash = le_nat (?c 0 @ ?c 1 @ ?c 2 @ ?c 3)" by simp
  also have "\<dots> = le_nat (?c 0) + 2 ^ 64 * (le_nat (?c 1) + 2 ^ 64 * (le_nat (?c 2) + 2 ^ 64 * le_nat (?c 3)))"
    using assms by (simp only: le_nat_append) (simp add: algebra_simps)
  also have "\<dots> = lv (hash_limbs hash)"
    using assms by (simp add: hash_limbs_def unat_u64_from_le_bytes)
  finally show ?thesis ..
qed

lemma lv_difficulty_limbs: "lv [ucast d, ucast (drop_bit 64 d)] = unat (d :: u128)"
proof -
  have "unat d div 2 ^ 64 < 2 ^ 64" using unat_bound [of d] by (simp add: less_mult_imp_div_less)
  then show ?thesis by (simp add: unat_ucast_mod unat_drop_bit_div)
qed

lemma top_limbs_zero:
  assumes "length p = 6"
  shows "p ! 4 = 0 \<and> p ! 5 = 0 \<longleftrightarrow> lv p < 2 ^ 256"
proof -
  obtain a b c d e f where p: "p = [a, b, c, d, e, f]"
    using assms by (auto simp: length_Suc_conv numeral_eq_Suc)
  have low: "lv [a, b, c, d] < 2 ^ 256" using lv_less [of "[a, b, c, d]"] by simp
  have "lv p = lv [a, b, c, d] + 2 ^ 256 * lv [e, f]" using lv_append [of "[a, b, c, d]" "[e, f]"] by (simp add: p)
  moreover have "lv [e, f] = 0 \<longleftrightarrow> e = 0 \<and> f = 0" by (simp add: unat_eq_zero)
  ultimately show ?thesis using low by (cases "lv [e, f]") (auto simp: p simp del: lv.simps)
qed

section \<open>Properties\<close>

text \<open>C6. The proof-of-work check accepts a hash exactly when the difficulty is not zero and the
  product of the hash, read as a little-endian 256-bit number, with the difficulty is below
  \<open>2 ^ 256\<close>; the limb multiplication never loses a carry.\<close>

theorem check_hash_correct:
  assumes "length hash = 32"
  shows "check_hash hash d \<longleftrightarrow> d \<noteq> 0 \<and> le_nat hash * unat d < 2 ^ 256"
proof -
  let ?d = "[ucast d, ucast (drop_bit 64 d)] :: u64 list"
  have v: "lv (hash_limbs hash) * lv ?d = le_nat hash * unat d"
    using lv_hash_limbs [OF assms] lv_difficulty_limbs [of d] by simp
  have "le_nat hash < 2 ^ 256" using le_nat_less [of hash] assms by simp
  moreover have "unat d < 2 ^ 128" using unat_bound [of d] by simp
  moreover have z: "lv (replicate 6 0) = 0" by (rule lv_zeros)
  moreover have l: "length (hash_limbs hash) = 4" by (simp add: hash_limbs_def)
  ultimately have "le_nat hash * unat d < 2 ^ 256 * 2 ^ 128" by (intro mult_strict_mono) auto
  then have "\<exists>p. mul_rows (hash_limbs hash) ?d 0 (replicate 6 0) = Some p \<and> length p = 6 \<and>
      lv p = le_nat hash * unat d"
    using mul_rows_value [of 0 "hash_limbs hash" ?d "replicate 6 0"] v z l
    by (simp del: lv.simps)
  then obtain p where p: "mul_rows (hash_limbs hash) ?d 0 (replicate 6 0) = Some p" "length p = 6"
    "lv p = le_nat hash * unat d" by blast
  show ?thesis using top_limbs_zero [OF p(2)] p(1,3) by (simp add: check_hash_def mul_256_by_128_fits_def)
qed

theorem check_hash_correct_witness:
  "check_hash (replicate 31 0 @ [0x80]) 2 \<longleftrightarrow>
    (2 :: u128) \<noteq> 0 \<and> le_nat (replicate 31 0 @ [0x80]) * unat (2 :: u128) < 2 ^ 256"
  by (rule check_hash_correct) simp

text \<open>Splitting a difficulty into the pair the storage keeps and joining it again is the
  identity, in both orders.\<close>

theorem split_join_difficulty:
  "(case split_difficulty d of (lo, hi) \<Rightarrow> join_difficulty lo hi) = d \<and>
   split_difficulty (join_difficulty lo hi) = (lo, hi)"
proof -
  have "push_bit 64 (ucast (ucast (drop_bit 64 d) :: u64)) OR ucast (ucast d :: u64) = d"
    by (rule bit_eqI) (auto simp: bit_simps dest: bit_imp_le_length)
  moreover have "(ucast (push_bit 64 (ucast hi) OR ucast lo :: u128) :: u64) = lo"
    by (rule bit_eqI) (auto simp: bit_simps dest: bit_imp_le_length)
  moreover have "(ucast (drop_bit 64 (push_bit 64 (ucast hi) OR ucast lo :: u128)) :: u64) = hi"
    by (rule bit_eqI) (auto simp: bit_simps dest: bit_imp_le_length)
  ultimately show ?thesis by (simp add: split_difficulty_def join_difficulty_def)
qed

end
