(* ===== verification/Difficulty.thy ===== *)
theory Difficulty
  imports Constants PowDifficulty "HOL-Library.Signed_Division"
begin

text \<open>
  The difficulty algorithms, \<open>crates/wow-consensus/src/difficulty.rs\<close>. Version 2 computes in
  IEEE double precision and is an argument of the dispatcher; the five integer algorithms and the
  256-bit helper arithmetic are modelled with their widths (\<open>i64\<close> is a 64-bit word with the signed
  comparisons and division). \<open>None\<close> is a panic: of a slice index out of range, of a division by zero, of
  the one signed division that overflows. Versions 1 and 6 have the first when fewer difficulties than
  timestamps are passed.
\<close>

section \<open>Selection\<close>

datatype Algorithm = V1 | V2 | V3 | V4 | V5 | V6

definition difficulty_target :: u64 where "difficulty_target = DIFFICULTY_TARGET_V2"

definition difficulty_blocks_count :: "u8 \<Rightarrow> usize" where
  "difficulty_blocks_count version =
     (if 20 \<le> version then DIFFICULTY_BLOCKS_COUNT_V4
      else if version \<le> 17 \<and> 11 \<le> version then DIFFICULTY_BLOCKS_COUNT_V3
      else if version \<le> 10 \<and> 8 \<le> version then DIFFICULTY_BLOCKS_COUNT_V2
      else DIFFICULTY_BLOCKS_COUNT)"

definition select_algorithm :: "u8 \<Rightarrow> Algorithm" where
  "select_algorithm version =
     (if 20 \<le> version then V6
      else if version \<le> 17 \<and> 11 \<le> version then V5
      else if version = 10 then V4
      else if version = 9 then V3
      else if version = 8 then V2
      else V1)"

record Override =
  ov_algorithm :: Algorithm
  ov_from :: u64
  ov_to :: u64
  ov_difficulty :: Difficulty
  ov_mainnet_only :: bool

definition OVERRIDES :: "Override list" where
  "OVERRIDES =
    [\<lparr>ov_algorithm = V1, ov_from = 331170, ov_to = 331890, ov_difficulty = 100000000, ov_mainnet_only = True\<rparr>,
     \<lparr>ov_algorithm = V4, ov_from = 0, ov_to = 63470, ov_difficulty = 100000069, ov_mainnet_only = True\<rparr>,
     \<lparr>ov_algorithm = V5, ov_from = 81769, ov_to = 81912, ov_difficulty = 10000000, ov_mainnet_only = True\<rparr>,
     \<lparr>ov_algorithm = V5, ov_from = 307686, ov_to = 307686, ov_difficulty = 25800000, ov_mainnet_only = True\<rparr>,
     \<lparr>ov_algorithm = V5, ov_from = 307692, ov_to = 307692, ov_difficulty = 1890000, ov_mainnet_only = True\<rparr>,
     \<lparr>ov_algorithm = V5, ov_from = 307735, ov_to = 307735, ov_difficulty = 17900000, ov_mainnet_only = True\<rparr>,
     \<lparr>ov_algorithm = V5, ov_from = 307742, ov_to = 307742, ov_difficulty = 21300000, ov_mainnet_only = True\<rparr>,
     \<lparr>ov_algorithm = V5, ov_from = 307750, ov_to = 307750, ov_difficulty = 10900000, ov_mainnet_only = True\<rparr>,
     \<lparr>ov_algorithm = V5, ov_from = 307766, ov_to = 307766, ov_difficulty = 2960000, ov_mainnet_only = True\<rparr>]"

definition TESTNET_EARLY_DIFFICULTY :: Difficulty where "TESTNET_EARLY_DIFFICULTY = 100"

definition is_test_network :: "Network \<Rightarrow> bool" where
  "is_test_network net \<longleftrightarrow> net = Testnet \<or> net = Stagenet"

section \<open>256-bit arithmetic\<close>

definition mul_u128 :: "u128 \<Rightarrow> u128 \<Rightarrow> u128 \<times> u128" where
  "mul_u128 a b =
     (let a_lo = ucast (ucast a :: u64); a_hi = drop_bit 64 a;
          b_lo = ucast (ucast b :: u64); b_hi = drop_bit 64 b;
          ll = a_lo * b_lo; lh = a_lo * b_hi; hl = a_hi * b_lo; hh = a_hi * b_hi;
          m = ucast (- 1 :: u64) :: u128;
          mid = drop_bit 64 ll + (lh AND m) + (hl AND m);
          lo = (ll AND m) OR push_bit 64 mid;
          hi = hh + drop_bit 64 lh + drop_bit 64 hl + drop_bit 64 mid
      in (lo, hi))"

definition add_u256 :: "u128 \<Rightarrow> u128 \<Rightarrow> u128 \<Rightarrow> u128 \<times> u128" where
  "add_u256 lo hi add =
     (let nlo = lo + add; carry = \<not> unat lo + unat add < 2 ^ 128 in
      (nlo, hi + (if carry then 1 else 0)))"

text \<open>The loop over the limbs from the top one down: quotient limbs and remainder.\<close>

fun div_limbs :: "u64 \<Rightarrow> u128 \<Rightarrow> u64 list \<Rightarrow> u64 list" where
  "div_limbs d rem [] = []"
| "div_limbs d rem (limb # limbs) =
     (let cur = push_bit 64 rem OR ucast limb in
      ucast (cur div ucast d) # div_limbs d (cur mod ucast d) limbs)"

definition div_u256_by_u64 :: "u128 \<Rightarrow> u128 \<Rightarrow> u64 \<Rightarrow> u128 \<times> u128" where
  "div_u256_by_u64 lo hi d =
     (let q = div_limbs d 0 [ucast (drop_bit 64 hi), ucast hi, ucast (drop_bit 64 lo), ucast lo] in
      (ucast (q ! 3) OR push_bit 64 (ucast (q ! 2)), ucast (q ! 1) OR push_bit 64 (ucast (q ! 0))))"

definition ceil_div_256 :: "Difficulty \<Rightarrow> u64 \<Rightarrow> u64 \<Rightarrow> Difficulty" where
  "ceil_div_256 total_work target time_span =
     (let (lo, hi) = mul_u128 total_work (ucast target);
          (lo, hi) = add_u256 lo hi (ucast (time_span - 1));
          (q_lo, q_hi) = div_u256_by_u64 lo hi time_span
      in if q_hi \<noteq> 0 then 0 else q_lo)"

section \<open>Versions 1 and 6\<close>

text \<open>The common tail: sort the timestamps, cut, and divide.\<close>

definition cut_bounds :: "usize \<Rightarrow> usize \<Rightarrow> usize \<times> usize" where
  "cut_bounds len span =
     (if len \<le> span then (0, len) else let cb = (len - span + 1) div 2 in (cb, cb + span))"

definition cut_difficulty :: "u64 list \<Rightarrow> Difficulty list \<Rightarrow> usize \<Rightarrow> u64 \<Rightarrow> Difficulty option" where
  "cut_difficulty timestamps cumulative span target =
     (let timestamps = sort timestamps;
          (cut_begin, cut_end) = cut_bounds (length timestamps) span
      in Option.bind (list_get timestamps (cut_end - 1)) (\<lambda>t_hi. Option.bind (list_get timestamps cut_begin) (\<lambda>t_lo.
         let time_span = t_hi - t_lo;
             time_span = (if time_span = 0 then 1 else time_span)
         in case (list_get cumulative (cut_end - 1), list_get cumulative cut_begin) of
              (Some hi, Some lo) \<Rightarrow> Some (ceil_div_256 (hi - lo) target time_span)
            | _ \<Rightarrow> None)))"

definition next_difficulty_v1 :: "u64 list \<Rightarrow> Difficulty list \<Rightarrow> u64 \<Rightarrow> u64 \<Rightarrow> Network \<Rightarrow> Difficulty option" where
  "next_difficulty_v1 timestamps cumulative target height net =
     (if is_test_network net \<and> height \<le> word_of_nat DIFFICULTY_WINDOW then Some TESTNET_EARLY_DIFFICULTY
      else
        let big = DIFFICULTY_WINDOW < length timestamps;
            timestamps = (if big then take DIFFICULTY_WINDOW timestamps else timestamps);
            cumulative = (if big then take DIFFICULTY_WINDOW cumulative else cumulative)
        in
          if length timestamps \<le> 1 then Some 1
          else if net = Mainnet \<and> 331170 \<le> height \<and> height \<le> 331170 + word_of_nat DIFFICULTY_WINDOW
          then Some 100000000
          else cut_difficulty timestamps cumulative (DIFFICULTY_WINDOW - 2 * DIFFICULTY_CUT) target)"

definition next_difficulty_v6 :: "u64 list \<Rightarrow> Difficulty list \<Rightarrow> u64 \<Rightarrow> u64 \<Rightarrow> Network \<Rightarrow> Difficulty option" where
  "next_difficulty_v6 timestamps cumulative target height net =
     (if is_test_network net \<and> height \<le> word_of_nat DIFFICULTY_WINDOW then Some TESTNET_EARLY_DIFFICULTY
      else
        let big = DIFFICULTY_WINDOW_V3 < length timestamps;
            timestamps = (if big then take DIFFICULTY_WINDOW_V3 timestamps else timestamps);
            cumulative = (if big then take DIFFICULTY_WINDOW_V3 cumulative else cumulative)
        in
          if length timestamps \<le> 1 then Some 1
          else cut_difficulty timestamps cumulative (DIFFICULTY_WINDOW_V3 - 2 * DIFFICULTY_CUT_V2) target)"

section \<open>Version 3\<close>

text \<open>\<open>i64\<close>: signed minimum, maximum and truncating division of 64-bit words.\<close>

definition smax :: "u64 \<Rightarrow> u64 \<Rightarrow> u64" where "smax a b = (if sint a \<le> sint b then b else a)"
definition smin :: "u64 \<Rightarrow> u64 \<Rightarrow> u64" where "smin a b = (if sint b < sint a then b else a)"

definition i64_div :: "u64 \<Rightarrow> u64 \<Rightarrow> u64 option" where
  "i64_div a b = (if b = 0 \<or> a = push_bit 63 1 \<and> b = - 1 then None else Some (word_of_int (sint a sdiv sint b)))"

fun v3_loop :: "u64 list \<Rightarrow> nat list \<Rightarrow> u64 \<times> u64 \<Rightarrow> (u64 \<times> u64) option" where
  "v3_loop timestamps [] acc = Some acc"
| "v3_loop timestamps (i # is) (l, sum_3_st) =
     Option.bind (list_get timestamps i) (\<lambda>now. Option.bind (list_get timestamps (i - 1)) (\<lambda>before.
       let t = DIFFICULTY_TARGET_V2;
           st = smax (- 4 * t) (smin (now - before) (6 * t))
       in v3_loop timestamps is (l + st * word_of_nat i, if DIFFICULTY_WINDOW_V2 - 3 < i then sum_3_st + st else sum_3_st)))"

definition next_difficulty_v3 :: "u64 list \<Rightarrow> Difficulty list \<Rightarrow> u64 \<Rightarrow> Network \<Rightarrow> Difficulty option" where
  "next_difficulty_v3 timestamps cumulative height net =
     (let t = DIFFICULTY_TARGET_V2; n = DIFFICULTY_WINDOW_V2 in
      if is_test_network net \<and> height \<le> word_of_nat DIFFICULTY_WINDOW then Some TESTNET_EARLY_DIFFICULTY
      else if length timestamps < n + 1 \<or> length cumulative < n + 1 then Some 1
      else
        Option.bind (v3_loop timestamps [1..<n + 1] (0, 0)) (\<lambda>(l, sum_3_st).
        if l = 0 then Some 1
        else
          Option.bind (list_get cumulative n) (\<lambda>c_n. Option.bind (list_get cumulative 0) (\<lambda>c_0.
          Option.bind (list_get cumulative (n - 1)) (\<lambda>c_prev.
          let work = ucast (c_n - c_0) :: u64; prev_d = ucast (c_n - c_prev) :: u64 in
          Option.bind (i64_div (work * t * (word_of_nat n + 1) * 99) (100 * 2 * l)) (\<lambda>next_d.
          Option.bind (i64_div (prev_d * 67) 100) (\<lambda>lo. Option.bind (i64_div (prev_d * 150) 100) (\<lambda>hi.
          Option.bind (i64_div (8 * t) 10) (\<lambda>fast. Option.bind (i64_div (prev_d * 108) 100) (\<lambda>up.
          let next_d = smax lo (smin next_d hi);
              next_d = (if sint sum_3_st < sint fast then smax next_d up else next_d)
          in Some (ucast next_d)))))))))))"

section \<open>Version 4\<close>

text \<open>\<open>i = 10 ^ e\<close> in the loop that zeroes insignificant digits.\<close>

fun zero_digits_loop :: "nat \<Rightarrow> 'a::len word \<Rightarrow> 'a word" where
  "zero_digits_loop 0 d = d"
| "zero_digits_loop (Suc e) d =
     (let i = 10 ^ Suc e in if i * 100 < d then ((d + i div 2) div i) * i else zero_digits_loop e d)"

definition zero_insignificant_digits :: "u64 \<Rightarrow> u64" where
  "zero_insignificant_digits d = zero_digits_loop 9 d"

definition zero_insignificant_digits_u128 :: "u128 \<Rightarrow> u128" where
  "zero_insignificant_digits_u128 d = zero_digits_loop 9 d"

text \<open>\<open>TS[i] = max(timestamps[i], TS[i-1])\<close>\<close>

fun monotonise :: "u64 list \<Rightarrow> nat list \<Rightarrow> u64 list \<Rightarrow> u64 list option" where
  "monotonise timestamps [] ts = Some ts"
| "monotonise timestamps (i # is) ts =
     Option.bind (list_get timestamps i) (\<lambda>x. Option.bind (list_get ts (i - 1)) (\<lambda>p.
       if i < length ts then monotonise timestamps is (ts[i := max x p]) else None))"

definition v4_solve_time :: "u64 list \<Rightarrow> nat \<Rightarrow> u64 option" where
  "v4_solve_time ts i =
     (let t = DIFFICULTY_TARGET_V2 in
      Option.bind (list_get ts i) (\<lambda>a. Option.bind (list_get ts (i - 1)) (\<lambda>b.
      Option.bind (if 4 < i \<and> 5 * t < a - b then map_option (\<lambda>c. b - c < (14 * t) div 10) (list_get ts (i - 4)) else Some False) (\<lambda>four.
      if four then Some (2 * t)
      else
        Option.bind (if 7 < i \<and> 5 * t < a - b then map_option (\<lambda>c. b - c < 4 * t) (list_get ts (i - 7)) else Some False) (\<lambda>seven.
        Some (if seven then 2 * t else min (5 * t) (a - b)))))))"

fun v4_loop :: "u64 list \<Rightarrow> nat list \<Rightarrow> u64 \<Rightarrow> u64 option" where
  "v4_loop ts [] l = Some l"
| "v4_loop ts (i # is) l = Option.bind (v4_solve_time ts i) (\<lambda>st. v4_loop ts is (l + st * word_of_nat i))"

definition word_div :: "'a::len word \<Rightarrow> 'a word \<Rightarrow> 'a word option" where
  "word_div a b = (if b = 0 then None else Some (a div b))"

definition next_difficulty_v4 :: "u64 list \<Rightarrow> Difficulty list \<Rightarrow> u64 \<Rightarrow> Network \<Rightarrow> Difficulty option" where
  "next_difficulty_v4 timestamps cumulative height net =
     (let t = DIFFICULTY_TARGET_V2; nn = DIFFICULTY_WINDOW_V2; n = word_of_nat nn :: u64 in
      if is_test_network net \<and> height \<le> word_of_nat DIFFICULTY_WINDOW then Some TESTNET_EARLY_DIFFICULTY
      else if net = Mainnet \<and> height \<le> 63469 + 1 then Some 100000069
      else if length timestamps < nn + 1 \<or> length cumulative < nn + 1 then Some 1
      else
        Option.bind (list_get timestamps 0) (\<lambda>t0.
        Option.bind (monotonise timestamps [1..<nn + 1] ((replicate (nn + 1) 0)[0 := t0])) (\<lambda>ts.
        Option.bind (v4_loop ts [1..<nn + 1] 0) (\<lambda>l.
        let l = (if l < n * n * t div 20 then n * n * t div 20 else l) in
        Option.bind (list_get cumulative nn) (\<lambda>c_n. Option.bind (list_get cumulative 0) (\<lambda>c_0.
        let avg_d = ucast ((c_n - c_0) div word_of_nat nn) :: u64 in
        Option.bind (if 2000000 * n * n * t < avg_d then map_option (\<lambda>q. q * (n * (n + 1) * t * 97)) (word_div avg_d (200 * l))
                     else word_div (avg_d * n * (n + 1) * t * 97) (200 * l)) (\<lambda>next_d.
        Option.bind (list_get cumulative (nn - 1)) (\<lambda>c_prev.
        Option.bind (list_get ts nn) (\<lambda>ts_n. Option.bind (list_get ts (nn - 1)) (\<lambda>ts_1. Option.bind (list_get ts (nn - 2)) (\<lambda>ts_2.
        Option.bind (list_get ts (nn - 3)) (\<lambda>ts_3. Option.bind (list_get ts (nn - 10)) (\<lambda>ts_10.
        let prev_d = ucast (c_n - c_prev) :: u64;
            next_d = (if ts_n - ts_1 < (2 * t) div 10 \<or> ts_n - ts_2 < (5 * t) div 10 \<or> ts_n - ts_3 < (8 * t) div 10
                      then max next_d (min ((prev_d * 110) div 100) ((105 * avg_d) div 100)) else next_d);
            next_d = zero_insignificant_digits next_d;
            next_d = (if 100000 < next_d then ((next_d + 500) div 1000) * 1000 + min 999 ((ts_n - ts_10) div 10) else next_d)
        in Some (ucast next_d))))))))))))))"

section \<open>Version 5\<close>

fun v5_loop :: "u64 list \<Rightarrow> nat list \<Rightarrow> u64 \<Rightarrow> u128 \<Rightarrow> u128 option" where
  "v5_loop timestamps [] previous l = Some l"
| "v5_loop timestamps (i # is) previous l =
     Option.bind (list_get timestamps i) (\<lambda>x.
       let this = (if previous < x then x else previous + 1)
       in v5_loop timestamps is this (l + word_of_nat i * ucast (min (6 * DIFFICULTY_TARGET_V2) (this - previous))))"

definition v5_correction :: "u64 \<Rightarrow> Difficulty option" where
  "v5_correction height =
     (if height = 307686 then Some 25800000
      else if height = 307692 then Some 1890000
      else if height = 307735 then Some 17900000
      else if height = 307742 then Some 21300000
      else if height = 307750 then Some 10900000
      else if height = 307766 then Some 2960000
      else None)"

definition next_difficulty_v5 :: "u64 list \<Rightarrow> Difficulty list \<Rightarrow> u64 \<Rightarrow> Network \<Rightarrow> Difficulty option" where
  "next_difficulty_v5 timestamps cumulative height net =
     (let t = DIFFICULTY_TARGET_V2; nn = DIFFICULTY_WINDOW_V3; n = word_of_nat nn :: u64 in
      if is_test_network net \<and> height \<le> word_of_nat DIFFICULTY_WINDOW then Some TESTNET_EARLY_DIFFICULTY
      else if net = Mainnet \<and> 81769 \<le> height \<and> height < 81769 + n then Some 10000000
      else if net = Mainnet \<and> v5_correction height \<noteq> None then v5_correction height
      else if length timestamps < nn + 1 \<or> length cumulative < nn + 1 then Some 1
      else
        Option.bind (list_get timestamps 0) (\<lambda>t0.
        Option.bind (v5_loop timestamps [1..<nn + 1] (t0 - t) 0) (\<lambda>l.
        let fl = ucast (n * n * t div 20) :: u128;
            l = (if l < fl then fl else l) in
        Option.bind (list_get cumulative nn) (\<lambda>c_n. Option.bind (list_get cumulative 0) (\<lambda>c_0.
        let avg_d = (c_n - c_0) div word_of_nat nn;
            scale = ucast (n * (n + 1) * t * 99) :: u128 in
        Option.bind
          (if 2000000 * ucast (n * n * t) < avg_d \<and> height < 307800 then map_option (\<lambda>q. q * scale) (word_div avg_d (200 * l))
           else if ucast (- 1 :: u64) div scale < avg_d \<and> 307800 < height then map_option (\<lambda>q. q * scale) (word_div avg_d (200 * l))
           else word_div (avg_d * scale) (200 * l)) (\<lambda>next_d.
        Some (zero_insignificant_digits_u128 next_d)))))))"

section \<open>Dispatch\<close>

definition next_difficulty ::
  "(u64 list \<Rightarrow> Difficulty list \<Rightarrow> u64 \<Rightarrow> u64 \<Rightarrow> Network \<Rightarrow> Difficulty option) \<Rightarrow>
    u8 \<Rightarrow> u64 list \<Rightarrow> Difficulty list \<Rightarrow> u64 \<Rightarrow> Network \<Rightarrow> Difficulty option" where
  "next_difficulty v2 version timestamps cumulative height net =
     (case select_algorithm version of
        V6 \<Rightarrow> next_difficulty_v6 timestamps cumulative difficulty_target height net
      | V5 \<Rightarrow> next_difficulty_v5 timestamps cumulative height net
      | V4 \<Rightarrow> next_difficulty_v4 timestamps cumulative height net
      | V3 \<Rightarrow> next_difficulty_v3 timestamps cumulative height net
      | V2 \<Rightarrow> v2 timestamps cumulative difficulty_target height net
      | V1 \<Rightarrow> next_difficulty_v1 timestamps cumulative difficulty_target height net)"


section \<open>Correctness of the 256-bit arithmetic\<close>

lemma and_low64: "(x :: u128) AND ucast (- 1 :: u64) = take_bit 64 x"
proof -
  have "(ucast (- 1 :: u64) :: u128) = mask 64"
    by (rule bit_eqI) (auto simp: bit_simps)
  then show ?thesis by (simp add: take_bit_eq_mask)
qed

lemma ucast_ucast_64: "(ucast (ucast (x :: u128) :: u64) :: u128) = take_bit 64 x"
  by (rule bit_eqI) (auto simp: bit_simps dest: bit_imp_le_length)

lemma unat_or_push_64:
  fixes a b :: u128
  assumes "unat a < 2 ^ 64"
  shows "unat (a OR push_bit 64 b) = unat a + 2 ^ 64 * (unat b mod 2 ^ 64)"
proof -
  have "a = take_bit 64 a" using assms by (simp add: word_unat_eq_iff unat_take_bit_mod)
  then have a: "bit a n \<Longrightarrow> n < 64" for n by (metis bit_take_bit_iff)
  have "a OR push_bit 64 b = a + push_bit 64 b"
    by (rule disjunctive_add [symmetric]) (use a in \<open>force simp: bit_simps\<close>)
  moreover have "unat (push_bit 64 b) = 2 ^ 64 * (unat b mod 2 ^ 64)"
    using mult_mod_right [of "2 ^ 64" "unat b" "2 ^ 64"]
    by (simp add: push_bit_eq_mult unat_word_ariths mult.commute)
  ultimately show ?thesis using assms by (simp add: unat_word_ariths)
qed


lemma unat_sum4:
  fixes w x y z :: u128
  shows "unat w + unat x + unat y + unat z < 2 ^ 128 \<Longrightarrow> unat (w + x + y + z) = unat w + unat x + unat y + unat z"
  by (simp add: unat_word_ariths)

lemma mul_u128_value:
  "unat (fst (mul_u128 a b)) + 2 ^ 128 * unat (snd (mul_u128 a b)) = unat a * unat b"
proof -
  define B where "B = (2::nat) ^ 64"
  define al ah bl bh where "al = unat a mod B" and "ah = unat a div B" and "bl = unat b mod B" and "bh = unat b div B"
  have less: "al < B" "ah < B" "bl < B" "bh < B"
    using unat_bound [of a] unat_bound [of b]
    by (simp_all add: al_def ah_def bl_def bh_def B_def less_mult_imp_div_less)
  have prod: "x * y \<le> (B - 1) * (B - 1)" if "x < B" "y < B" for x y
    using that by (intro mult_le_mono) auto
  let ?al = "take_bit 64 a" and ?ah = "drop_bit 64 a" and ?bl = "take_bit 64 b" and ?bh = "drop_bit 64 b"
  have u: "unat ?al = al" "unat ?ah = ah" "unat ?bl = bl" "unat ?bh = bh"
    by (simp_all add: al_def ah_def bl_def bh_def B_def unat_take_bit_mod unat_drop_bit_div)
  have m: "unat (x * y :: u128) = unat x * unat y" if "unat x < B" "unat y < B" for x y
    using prod [OF that] by (intro unat_mult_no_wrap) (simp add: B_def)
  define ll lh hl hh where "ll = al * bl" and "lh = al * bh" and "hl = ah * bl" and "hh = ah * bh"
  have p: "unat (?al * ?bl) = ll" "unat (?al * ?bh) = lh" "unat (?ah * ?bl) = hl" "unat (?ah * ?bh) = hh"
    using m u less by (simp_all add: ll_def lh_def hl_def hh_def)
  define mid where "mid = ll div B + lh mod B + hl mod B"
  have bounds: "ll \<le> (B - 1) * (B - 1)" "lh \<le> (B - 1) * (B - 1)" "hl \<le> (B - 1) * (B - 1)" "hh \<le> (B - 1) * (B - 1)"
    using prod less by (simp_all add: ll_def lh_def hl_def hh_def)
  let ?mid = "drop_bit 64 (?al * ?bl) + take_bit 64 (?al * ?bh) + take_bit 64 (?ah * ?bl)"
  have parts: "unat (drop_bit 64 (?al * ?bl)) = ll div B" "unat (take_bit 64 (?al * ?bh)) = lh mod B"
    "unat (take_bit 64 (?ah * ?bl)) = hl mod B"
    by (simp_all add: unat_drop_bit_div unat_take_bit_mod p B_def)
  have small: "ll div B < B" "lh mod B < B" "hl mod B < B" "lh div B < B" "hl div B < B"
    using bounds by (auto simp: B_def less_mult_imp_div_less)
  have um: "unat ?mid = mid"
    using small by (simp add: unat_word_ariths parts mid_def B_def)
  have lo: "unat (take_bit 64 (?al * ?bl) OR push_bit 64 ?mid) = ll mod B + B * (mid mod B)"
    by (subst unat_or_push_64) (simp_all add: unat_take_bit_mod p um B_def)
  have d: "B * (x mod B) + B * (B * (x div B)) = B * x" for x
    by (metis distrib_left mod_mult_div_eq)
  have "ll mod B + B * (mid mod B) + B * B * (hh + lh div B + hl div B + mid div B) =
      ll mod B + B * (ll div B + lh mod B + hl mod B) + B * B * (hh + lh div B + hl div B)"
    unfolding mid_def [symmetric] using d [of mid] by (simp add: algebra_simps)
  also have "\<dots> = ll + B * (lh + hl) + B * B * hh"
    using mod_mult_div_eq [of ll B] d [of lh] d [of hl] by (simp add: algebra_simps)
  also have "\<dots> = (al + B * ah) * (bl + B * bh)" by (simp add: ll_def lh_def hl_def hh_def algebra_simps)
  also have "\<dots> = unat a * unat b"
    using mod_mult_div_eq [of "unat a" B] mod_mult_div_eq [of "unat b" B] by (simp add: al_def ah_def bl_def bh_def)
  finally have tot: "ll mod B + B * (mid mod B) + B * B * (hh + lh div B + hl div B + mid div B) = unat a * unat b" .
  have "unat a * unat b < B * B * (B * B)"
    using unat_bound [of a] unat_bound [of b] by (intro mult_strict_mono) (simp_all add: B_def)
  then have "B * B * (hh + lh div B + hl div B + mid div B) < B * B * (B * B)" using tot by linarith
  then have "hh + lh div B + hl div B + mid div B < 2 ^ 128" by (simp add: B_def)
  moreover have q: "unat (drop_bit 64 (?al * ?bh)) = lh div B" "unat (drop_bit 64 (?ah * ?bl)) = hl div B"
    "unat (drop_bit 64 ?mid) = mid div B"
    by (simp_all only: unat_drop_bit_div p um B_def)
  ultimately have hi: "unat (?ah * ?bh + drop_bit 64 (?al * ?bh) + drop_bit 64 (?ah * ?bl) + drop_bit 64 ?mid) =
      hh + lh div B + hl div B + mid div B"
    by (subst unat_sum4) (simp_all only: p q)
  have e: "mul_u128 a b = (take_bit 64 (?al * ?bl) OR push_bit 64 ?mid,
      ?ah * ?bh + drop_bit 64 (?al * ?bh) + drop_bit 64 (?ah * ?bl) + drop_bit 64 ?mid)"
    by (simp add: mul_u128_def Let_def and_low64 ucast_ucast_64)
  show ?thesis using lo hi e tot by (simp add: B_def)
qed


lemma add_u256_value:
  assumes "unat lo + 2 ^ 128 * unat hi + unat a < 2 ^ 256"
  shows "unat (fst (add_u256 lo hi a)) + 2 ^ 128 * unat (snd (add_u256 lo hi a)) = unat lo + 2 ^ 128 * unat hi + unat a"
proof (cases "unat lo + unat a < 2 ^ 128")
  case True
  then show ?thesis by (simp add: add_u256_def unat_word_ariths)
next
  case False
  have "unat lo < 2 ^ 128" "unat a < 2 ^ 128" using unat_bound [of lo] unat_bound [of a] by simp_all
  then have m: "(unat lo + unat a) mod 2 ^ 128 = unat lo + unat a - 2 ^ 128"
    using False by (subst le_mod_geq) auto
  have "2 ^ 128 * (unat hi + 1) < 2 ^ 128 * 2 ^ 128" using assms False by simp
  then have "unat hi + 1 < 2 ^ 128" by simp
  then have "unat (hi + 1) = unat hi + 1" by (simp add: unat_word_ariths)
  then show ?thesis using False m by (simp add: add_u256_def unat_word_ariths)
qed

fun bval :: "u64 list \<Rightarrow> nat" where
  "bval [] = 0"
| "bval (x # xs) = unat x * 2 ^ (64 * length xs) + bval xs"

lemma length_div_limbs [simp]: "length (div_limbs d r ls) = length ls"
  by (induction d r ls rule: div_limbs.induct) (simp_all add: Let_def)

lemma divide_scaled: "(c::nat) * p + v = d * (c div d * p) + (c mod d * p + v)"
proof -
  have "c * p = (d * (c div d) + c mod d) * p" by simp
  then show ?thesis by (simp only: distrib_right mult.assoc add.assoc)
qed

lemma div_limbs_value:
  assumes "unat r < unat d"
  shows "bval (div_limbs d r ls) = (unat r * 2 ^ (64 * length ls) + bval ls) div unat d"
  using assms
proof (induction d r ls rule: div_limbs.induct)
  case (1 d r)
  then show ?case by simp
next
  case (2 d r x xs)
  let ?B = "(2::nat) ^ 64" and ?P = "(2::nat) ^ (64 * length xs)"
  define cur where "cur = push_bit 64 r OR ucast x"
  have r: "unat r < ?B" using 2(2) unat_bound [of d] by simp
  have "unat (ucast x OR push_bit 64 r :: u128) = unat x + ?B * unat r"
    using unat_bound [of x] r by (subst unat_or_push_64) simp_all
  then have c: "unat cur = unat x + ?B * unat r" by (simp add: cur_def or.commute)
  have d: "0 < unat d" using 2(2) by simp
  have "unat cur < unat d * ?B"
  proof -
    have "?B * (unat r + 1) \<le> ?B * unat d" using 2(2) by (intro mult_left_mono) auto
    then show ?thesis using c unat_bound [of x] by (simp add: mult.commute)
  qed
  then have "unat cur div unat d < ?B" by (simp add: less_mult_imp_div_less mult.commute)
  then have q: "unat (ucast (cur div ucast d) :: u64) = unat cur div unat d"
    by (simp add: unat_ucast_mod unat_div)
  have m: "unat (cur mod ucast d) = unat cur mod unat d" by (simp add: unat_mod)
  then have "unat (cur mod ucast d) < unat d" using d by simp
  from 2(1) [OF cur_def this]
  have IH: "bval (div_limbs d (cur mod ucast d) xs) = (unat cur mod unat d * ?P + bval xs) div unat d"
    by (simp add: m)
  have "unat r * 2 ^ (64 * length (x # xs)) + bval (x # xs) = unat cur * ?P + bval xs"
    by (simp add: c power_add algebra_simps)
  also have "\<dots> = unat d * (unat cur div unat d * ?P) + (unat cur mod unat d * ?P + bval xs)"
    by (rule divide_scaled)
  finally have eq: "unat r * 2 ^ (64 * length (x # xs)) + bval (x # xs) =
      unat d * (unat cur div unat d * ?P) + (unat cur mod unat d * ?P + bval xs)" .
  have "(unat r * 2 ^ (64 * length (x # xs)) + bval (x # xs)) div unat d =
      unat cur div unat d * ?P + (unat cur mod unat d * ?P + bval xs) div unat d"
    unfolding eq using d by simp
  then show ?case using IH q by (simp add: cur_def Let_def)
qed

lemma div_u256_value:
  assumes "d \<noteq> 0"
  shows "unat (fst (div_u256_by_u64 lo hi d)) + 2 ^ 128 * unat (snd (div_u256_by_u64 lo hi d)) =
    (unat lo + 2 ^ 128 * unat hi) div unat d"
proof -
  let ?ls = "[ucast (drop_bit 64 hi), ucast hi, ucast (drop_bit 64 lo), ucast lo] :: u64 list"
  have half: "unat (ucast x :: u64) = unat x mod 2 ^ 64" "unat x div 2 ^ 64 mod 2 ^ 64 = unat x div 2 ^ 64"
    for x :: u128
    using unat_bound [of x] by (simp_all add: unat_ucast_mod less_mult_imp_div_less)
  obtain a b c e where q: "div_limbs d 0 ?ls = [a, b, c, e]"
    using length_div_limbs [of d 0 ?ls] by (auto simp: length_Suc_conv numeral_eq_Suc simp del: length_div_limbs div_limbs.simps)
  have "unat d \<noteq> 0" using assms by (simp add: unat_eq_zero)
  then have v: "bval [a, b, c, e] = bval ?ls div unat d" using div_limbs_value [of 0 d ?ls] q by simp
  have "bval ?ls = (unat hi div 2 ^ 64 * 2 ^ 64 + unat hi mod 2 ^ 64) * 2 ^ 128 + (unat lo div 2 ^ 64 * 2 ^ 64 + unat lo mod 2 ^ 64)"
  proof -
    have "a * 2 ^ (64 * 3) + (b * 2 ^ (64 * 2) + (c * 2 ^ (64 * 1) + (e * 2 ^ (64 * 0) + 0))) =
        (a * 2 ^ 64 + b) * 2 ^ 128 + (c * 2 ^ 64 + e)" for a b c e :: nat by simp
    moreover have "bval ?ls = unat hi div 2 ^ 64 * 2 ^ (64 * 3) + (unat hi mod 2 ^ 64 * 2 ^ (64 * 2) +
        (unat lo div 2 ^ 64 * 2 ^ (64 * 1) + (unat lo mod 2 ^ 64 * 2 ^ (64 * 0) + 0)))"
      by (simp only: bval.simps half(1) unat_drop_bit_div half(2)) simp
    ultimately show ?thesis by (simp only:)
  qed
  then have "bval ?ls = unat lo + 2 ^ 128 * unat hi"
    by (simp only: div_mult_mod_eq) simp
  moreover have j: "unat (ucast y OR push_bit 64 (ucast x) :: u128) = unat y + 2 ^ 64 * unat x" for x y :: u64
    using unat_bound [of x] unat_bound [of y] by (subst unat_or_push_64) simp_all
  ultimately show ?thesis using v q by (simp add: div_u256_by_u64_def j algebra_simps)
qed

lemma ceil_div_256_eq:
  fixes w :: u128 and t s :: u64
  assumes "s \<noteq> 0"
  defines "q \<equiv> (unat w * unat t + unat s - 1) div unat s"
  shows "ceil_div_256 w t s = (if q < 2 ^ 128 then word_of_nat q else 0)"
proof -
  obtain lo hi where m: "mul_u128 w (ucast t) = (lo, hi)" by fastforce
  have ut: "unat (ucast t :: u128) = unat t" using unat_bound [of t] by (simp add: unat_ucast_mod)
  have 1: "unat lo + 2 ^ 128 * unat hi = unat w * unat t"
    using mul_u128_value [of w "ucast t"] m ut by simp
  have s1: "unat (s - 1) = unat s - 1" using assms(1) by (simp add: unat_minus_one)
  have us: "unat (ucast (s - 1) :: u128) = unat s - 1"
    using unat_bound [of "s - 1"] s1 by (simp add: unat_ucast_mod)
  have s0: "0 < unat s" using assms(1) by (simp add: unat_gt_0)
  have "unat w * unat t \<le> (2 ^ 128 - 1) * (2 ^ 64 - 1)"
    using unat_bound [of w] unat_bound [of t] by (intro mult_le_mono) simp_all
  then have b: "unat lo + 2 ^ 128 * unat hi + unat (ucast (s - 1) :: u128) < 2 ^ 256"
    using 1 us unat_bound [of s] by simp
  obtain lo' hi' where a: "add_u256 lo hi (ucast (s - 1)) = (lo', hi')" by fastforce
  have 2: "unat lo' + 2 ^ 128 * unat hi' = unat w * unat t + unat s - 1"
    using add_u256_value [OF b] a 1 us s0 by simp
  obtain ql qh where d: "div_u256_by_u64 lo' hi' s = (ql, qh)" by fastforce
  have 3: "unat ql + 2 ^ 128 * unat qh = q"
    using div_u256_value [OF assms(1), of lo' hi'] d 2 by (simp add: q_def)
  have ql: "unat ql < 2 ^ 128" using unat_bound [of ql] by simp
  show ?thesis
  proof (cases "qh = 0")
    case True
    then have "q = unat ql" using 3 by simp
    then show ?thesis using True ql by (simp add: ceil_div_256_def m a d)
  next
    case False
    then have "1 \<le> unat qh" using unat_gt_0 [of qh] by simp
    then have "\<not> q < 2 ^ 128" using 3 by (simp add: not_less)
    then show ?thesis using False by (simp add: ceil_div_256_def m a d)
  qed
qed


section \<open>The cut\<close>

lemma cut_bounds_in_range:
  assumes "cut_bounds len span = (a, b)" "2 \<le> len" "2 \<le> span"
  shows "a < b \<and> b \<le> len \<and> a < b - 1"
proof (cases "len \<le> span")
  case True
  then show ?thesis using assms by (simp add: cut_bounds_def)
next
  case False
  then have a: "a = (len - span + 1) div 2" "b = a + span" using assms(1) by (simp_all add: cut_bounds_def Let_def)
  moreover have "(len - span + 1) div 2 \<le> len - span" using False by simp
  ultimately have "b \<le> len" using False by linarith
  then show ?thesis using a(2) assms(3) by linarith
qed

lemma cut_difficulty_returns:
  assumes "2 \<le> length ts" "length ts \<le> length cum" "2 \<le> span"
  shows "\<exists>d. cut_difficulty ts cum span target = Some d"
proof -
  obtain a b where ab: "cut_bounds (length ts) span = (a, b)" by fastforce
  have "a < length ts" "b - 1 < length ts" "a < length cum" "b - 1 < length cum"
    using cut_bounds_in_range [OF ab assms(1,3)] assms(2) by auto
  then show ?thesis by (simp add: cut_difficulty_def ab Let_def)
qed

text \<open>A chain with constant solve time and constant difficulty.\<close>

definition steady_at :: "nat \<Rightarrow> nat \<Rightarrow> nat \<Rightarrow> nat" where "steady_at c d i = c + d * i"

definition steady :: "nat \<Rightarrow> nat \<Rightarrow> usize \<Rightarrow> 'a::len word list" where
  "steady c d len = map (\<lambda>i. word_of_nat (steady_at c d i)) [0..<len]"

lemma steady_at_mono: "i \<le> j \<Longrightarrow> steady_at c d i \<le> steady_at c d j"
  by (simp add: steady_at_def)

lemma steady_at_diff: "i \<le> j \<Longrightarrow> steady_at c d j = steady_at c d i + d * (j - i)"
  by (simp add: steady_at_def algebra_simps diff_mult_distrib2)

lemma length_steady [simp]: "length (steady c d len) = len"
  by (simp add: steady_def)

lemma nth_steady [simp]: "i < len \<Longrightarrow> steady c d len ! i = word_of_nat (steady_at c d i)"
  by (simp add: steady_def)

lemma unat_steady:
  "steady_at c d len < 2 ^ LENGTH('a) \<Longrightarrow> i \<le> len \<Longrightarrow> unat (word_of_nat (steady_at c d i) :: 'a::len word) = steady_at c d i"
  using steady_at_mono [of i len c d] by (simp add: unat_of_nat)

lemma sort_steady:
  assumes "steady_at c d len < 2 ^ LENGTH('a)"
  shows "sort (steady c d len :: 'a::len word list) = steady c d len"
proof -
  have "sorted (steady c d len :: 'a word list)"
    unfolding sorted_iff_nth_mono_less
    using unat_steady [OF assms] steady_at_mono by (auto simp: word_le_nat_alt)
  then show ?thesis by (rule sorted_sort_id)
qed

lemma steady_difference:
  assumes "i \<le> j"
  shows "(word_of_nat (steady_at c d j) - word_of_nat (steady_at c d i) :: 'a::len word) = word_of_nat (d * (j - i))"
  by (simp add: steady_at_diff [OF assms])

lemma cut_difficulty_steady:
  assumes len: "2 \<le> len" "2 \<le> span" and t: "0 < unat target"
    and bt: "steady_at t0 (unat target) len < 2 ^ 64" and bd: "steady_at c0 d len < 2 ^ 128"
  shows "cut_difficulty (steady t0 (unat target) len) (steady c0 d len) span target = Some (word_of_nat d)"
proof -
  obtain a b where ab: "cut_bounds len span = (a, b)" by fastforce
  have r: "a < b" "b \<le> len" "a < b - 1" using cut_bounds_in_range [OF ab len] by auto
  define n where "n = b - 1 - a"
  have n: "0 < n" "n < len" using r by (simp_all add: n_def)
  define p where "p = unat target * n"
  define w where "w = d * n"
  have "steady_at t0 (unat target) n < 2 ^ 64" "steady_at c0 d n < 2 ^ 128"
    using n(2) bt bd steady_at_mono [of n len t0 "unat target"] steady_at_mono [of n len c0 d] by linarith+
  then have p: "0 < p" "p < 2 ^ 64" "w < 2 ^ 128"
    using n(1) t by (simp_all add: p_def w_def steady_at_def)
  have ts: "word_of_nat (steady_at t0 (unat target) (b - 1)) - word_of_nat (steady_at t0 (unat target) a) = (word_of_nat p :: u64)"
    using r steady_difference [of a "b - 1" t0 "unat target", where 'a = 64] by (simp only: p_def n_def)
  have cum: "word_of_nat (steady_at c0 d (b - 1)) - word_of_nat (steady_at c0 d a) = (word_of_nat w :: u128)"
    using r steady_difference [of a "b - 1" c0 d, where 'a = 128] by (simp only: w_def n_def)
  have us: "unat (word_of_nat p :: u64) = p" using p by simp
  then have s0: "(word_of_nat p :: u64) \<noteq> 0" using p(1) by (metis less_irrefl unat_0)
  have ne: "word_of_nat (steady_at t0 (unat target) (b - 1)) \<noteq> (word_of_nat (steady_at t0 (unat target) a) :: u64)" using s0 ts by auto
  have ud: "unat (word_of_nat w :: u128) = w" using p(3) by (simp add: unat_of_nat)
  have e: "w * unat target + p - 1 = (p - 1) + d * p" using p(1) by (simp add: p_def w_def algebra_simps)
  have "(p - 1 + d * p) div p = d + (p - 1) div p" by (rule div_mult_self1) (use p(1) in simp)
  then have "(w * unat target + p - 1) div p = d" unfolding e using p(1) by simp
  moreover have "d \<le> w" using n(1) by (cases n) (simp_all add: w_def)
  then have "d < 2 ^ 128" using p(3) by (rule le_less_trans)
  ultimately have "ceil_div_256 (word_of_nat w) target (word_of_nat p) = word_of_nat d"
    using ceil_div_256_eq [OF s0, of "word_of_nat w" target] us ud by simp
  moreover have "sort (steady t0 (unat target) len :: u64 list) = steady t0 (unat target) len"
    by (rule sort_steady) (use bt in simp)
  ultimately show ?thesis
    using r s0 ts cum ne by (simp add: cut_difficulty_def ab)
qed

section \<open>Rounding\<close>

lemma zero_digits_loop_bounds:
  fixes d :: "'a::len word"
  assumes "64 \<le> LENGTH('a)" "unat d + 10 ^ 9 < 2 ^ LENGTH('a)" "e \<le> 9"
  shows "\<exists>k. k \<le> e \<and> 10 ^ k dvd unat (zero_digits_loop e d) \<and>
    2 * unat (zero_digits_loop e d) \<le> 2 * unat d + 10 ^ k \<and> 2 * unat d \<le> 2 * unat (zero_digits_loop e d) + 10 ^ k \<and>
    (k = 0 \<or> 10 ^ k * 100 < unat d)"
  using assms(3)
proof (induction e)
  case 0
  show ?case by (intro exI [of _ 0]) simp
next
  case (Suc e)
  define i where "i = (10::nat) ^ Suc e"
  have i9: "i \<le> 10 ^ 9" unfolding i_def using Suc.prems by (intro power_increasing) auto
  have pow: "(2::nat) ^ 64 \<le> 2 ^ LENGTH('a)" using assms(1) by (intro power_increasing) auto
  have ui: "unat (10 ^ Suc e :: 'a word) = i"
  proof -
    have "(10 ^ Suc e :: 'a word) = word_of_nat i" by (simp add: i_def)
    then show ?thesis using i9 pow by (simp add: unat_of_nat)
  qed
  have u100: "unat (10 ^ Suc e * 100 :: 'a word) = i * 100"
  proof -
    have "(10 ^ Suc e * 100 :: 'a word) = word_of_nat (i * 100)" by (simp add: i_def)
    then have "unat (10 ^ Suc e * 100 :: 'a word) = i * 100 mod 2 ^ LENGTH('a)" by (simp only: unat_of_nat)
    moreover have "i * 100 < 2 ^ 64" using i9 by simp
    then have "i * 100 < 2 ^ LENGTH('a)" using pow by (rule less_le_trans)
    ultimately show ?thesis by simp
  qed
  show ?case
  proof (cases "i * 100 < unat d")
    case True
    define r where "r = (unat d + i div 2) div i * i"
    have ipos: "0 < i" "even i" by (simp_all add: i_def)
    have u2: "unat (10 ^ Suc e div 2 :: 'a word) = i div 2"
    proof -
      have "unat (word_of_nat 2 :: 'a word) = 2 mod 2 ^ LENGTH('a)" by (rule unat_of_nat)
      moreover have "(2::nat) < 2 ^ LENGTH('a)" by (rule less_le_trans [OF _ pow]) simp
      ultimately have "unat (2 :: 'a word) = 2" by simp
      then show ?thesis using ui by (simp add: unat_div)
    qed
    have "unat d + i div 2 < 2 ^ LENGTH('a)" using assms(2) i9 by linarith
    then have ud: "unat (d + 10 ^ Suc e div 2) = unat d + i div 2"
      using u2 by (subst unat_add_no_wrap) simp_all
    have rle: "r \<le> unat d + i div 2" by (simp add: r_def)
    have "unat ((d + 10 ^ Suc e div 2) div 10 ^ Suc e) = (unat d + i div 2) div i"
      using ud ui by (simp only: unat_div)
    then have "unat ((d + 10 ^ Suc e div 2) div 10 ^ Suc e * 10 ^ Suc e) = r"
      using ui le_less_trans [OF rle \<open>unat d + i div 2 < 2 ^ LENGTH('a)\<close>]
      unfolding r_def by (subst unat_mult_no_wrap) simp_all
    moreover have "10 ^ Suc e * 100 < d" using True u100 by (simp add: word_less_nat_alt)
    ultimately have z: "unat (zero_digits_loop (Suc e) d) = r" by (simp add: Let_def)
    have "unat d + i div 2 < r + i"
      using ipos(1) mod_less_divisor [of i "unat d + i div 2"] div_mult_mod_eq [of "unat d + i div 2" i]
      unfolding r_def by linarith
    then have "2 * unat d \<le> 2 * r + i" using ipos(2) by presburger
    moreover have "2 * r \<le> 2 * unat d + i" using rle ipos(2) by presburger
    moreover have "i dvd r" by (simp add: r_def)
    ultimately show ?thesis using True z by (intro exI [of _ "Suc e"]) (simp add: i_def)
  next
    case False
    then have "\<not> 10 ^ Suc e * 100 < d" using u100 by (simp add: word_less_nat_alt)
    then have "zero_digits_loop (Suc e) d = zero_digits_loop e d" by (simp add: Let_def)
    then show ?thesis using Suc by (metis le_SucI Suc_leD)
  qed
qed


section \<open>Overrides\<close>

lemma v1_override:
  assumes "2 \<le> length timestamps" "331170 \<le> height" "height \<le> 331890"
  shows "next_difficulty_v1 timestamps cumulative target height Mainnet = Some 100000000"
  using assms by (simp add: next_difficulty_v1_def is_test_network_def window_defs Let_def)

lemma v4_override: "height \<le> 63470 \<Longrightarrow> next_difficulty_v4 timestamps cumulative height Mainnet = Some 100000069"
  by (simp add: next_difficulty_v4_def is_test_network_def)

lemma v5_reset:
  assumes "81769 \<le> height" "height \<le> 81912"
  shows "next_difficulty_v5 timestamps cumulative height Mainnet = Some 10000000"
proof -
  have "height < 81913" using assms(2) by (simp add: word_le_nat_alt word_less_nat_alt)
  then show ?thesis using assms(1) by (simp add: next_difficulty_v5_def is_test_network_def window_defs)
qed

lemma v5_corrected:
  assumes "v5_correction height = Some d"
  shows "next_difficulty_v5 timestamps cumulative height Mainnet = Some d"
proof -
  have "307686 \<le> height" using assms by (auto simp: v5_correction_def split: if_splits)
  then have "\<not> height < 81913" by (simp add: word_le_nat_alt word_less_nat_alt)
  then show ?thesis using assms by (simp add: next_difficulty_v5_def is_test_network_def window_defs)
qed

section \<open>No panic\<close>

lemma word_of_nat_plus_mult: "word_of_nat a + word_of_nat b * word_of_nat c = word_of_nat (a + b * c)"
  by simp

lemma times_200_nonzero:
  assumes "0 < m" "200 * m < 2 ^ LENGTH('a)"
  shows "200 * (word_of_nat m :: 'a::len word) \<noteq> 0"
proof -
  have "200 * (word_of_nat m :: 'a word) = word_of_nat (200 * m)" by simp
  moreover have "unat (word_of_nat (200 * m) :: 'a word) = 200 * m"
    using assms(2) by (simp only: unat_of_nat mod_less)
  ultimately show ?thesis using assms(1) by (metis mult_is_0 neq0_conv unat_0 zero_neq_numeral)
qed

text \<open>Version 3: the weighted sum stays within \<open>1800 * 60\<close> for each of the sixty terms.\<close>

lemma v3_solve_time_bounds: "- 1200 \<le> sint (smax (- 4 * DIFFICULTY_TARGET_V2) (smin st (6 * DIFFICULTY_TARGET_V2)))"
  "sint (smax (- 4 * DIFFICULTY_TARGET_V2) (smin st (6 * DIFFICULTY_TARGET_V2))) \<le> 1800"
proof -
  have c: "sint (- 4 * DIFFICULTY_TARGET_V2) = - 1200" "sint (6 * DIFFICULTY_TARGET_V2) = 1800"
    by (simp_all add: DIFFICULTY_TARGET_V2_def)
  show "- 1200 \<le> sint (smax (- 4 * DIFFICULTY_TARGET_V2) (smin st (6 * DIFFICULTY_TARGET_V2)))"
    "sint (smax (- 4 * DIFFICULTY_TARGET_V2) (smin st (6 * DIFFICULTY_TARGET_V2))) \<le> 1800"
    using c by (auto simp: smax_def smin_def)
qed

lemma v3_loop_returns:
  "(\<forall>i \<in> set is. i < length ts \<and> i \<le> 60) \<Longrightarrow>
    \<exists>m s'. v3_loop ts is (word_of_int k, s) = Some (word_of_int m, s') \<and> \<bar>m\<bar> \<le> \<bar>k\<bar> + 108000 * int (length is)"
proof (induction "is" arbitrary: k s)
  case (Cons i "is")
  let ?st = "smax (- 4 * DIFFICULTY_TARGET_V2) (smin (ts ! i - ts ! (i - 1)) (6 * DIFFICULTY_TARGET_V2))"
  let ?s = "if DIFFICULTY_WINDOW_V2 - 3 < i then s + ?st else s"
  have i: "i < length ts" "i - 1 < length ts" "i \<le> 60" using Cons.prems by auto
  have w: "word_of_int k + ?st * word_of_nat i = (word_of_int (k + sint ?st * int i) :: u64)" by simp
  have "\<bar>sint ?st\<bar> \<le> 1800" using v3_solve_time_bounds [of "ts ! i - ts ! (i - 1)"] by linarith
  then have "\<bar>sint ?st * int i\<bar> \<le> 1800 * 60" unfolding abs_mult using i(3) by (intro mult_mono) auto
  then have b: "\<bar>k + sint ?st * int i\<bar> \<le> \<bar>k\<bar> + 108000" by linarith
  have step: "v3_loop ts (i # is) (word_of_int k, s) = v3_loop ts is (word_of_int (k + sint ?st * int i), ?s)"
    unfolding w [symmetric] using i(1,2) by (simp add: Let_def)
  have "\<forall>i \<in> set is. i < length ts \<and> i \<le> 60" using Cons.prems by simp
  from Cons.IH [OF this, of "k + sint ?st * int i" ?s] obtain m s' where
    m: "v3_loop ts is (word_of_int (k + sint ?st * int i), ?s) = Some (word_of_int m, s')"
      "\<bar>m\<bar> \<le> \<bar>k + sint ?st * int i\<bar> + 108000 * int (length is)" by (elim exE conjE)
  have "\<bar>m\<bar> \<le> \<bar>k\<bar> + 108000 * int (length (i # is))" using m(2) b by simp
  then show ?case unfolding step m(1) by blast
qed (auto intro: exI [of _ k for k])

lemma i64_div_even: "even b \<Longrightarrow> b \<noteq> 0 \<Longrightarrow> i64_div a b = Some (word_of_int (sint a sdiv sint b))"
  by (auto simp: i64_div_def)

lemma v3_divisor:
  assumes "\<bar>m\<bar> \<le> 6480000" "word_of_int m \<noteq> (0 :: u64)"
  shows "200 * (word_of_int m :: u64) \<noteq> 0"
proof -
  have e: "200 * (word_of_int m :: u64) = word_of_int (200 * m)" by simp
  have "m \<noteq> 0" using assms(2) by auto
  then have "\<not> (2 ^ 64 :: int) dvd 200 * m" using assms(1) dvd_imp_le_int [of "200 * m" "2 ^ 64"] by (auto simp: abs_mult)
  then show "200 * (word_of_int m :: u64) \<noteq> 0" unfolding e by (simp only: word_of_int_eq_0_iff len_bit0 len_num1) simp
qed

lemma v3_returns: "\<exists>d. next_difficulty_v3 timestamps cumulative height net = Some d"
proof (cases "61 \<le> length timestamps \<and> 61 \<le> length cumulative")
  case True
  then obtain m s where l: "v3_loop timestamps [1..<61] (0, 0) = Some (word_of_int m, s)" "\<bar>m\<bar> \<le> 6480000"
    using v3_loop_returns [of "[1..<61]" timestamps 0 0] by auto
  have "cumulative \<noteq> []" using True by auto
  with l show ?thesis
    using True v3_divisor [OF l(2)] by (cases "word_of_int m = (0 :: u64)") (simp_all add: next_difficulty_v3_def Let_def window_defs i64_div_even)
qed (auto simp: next_difficulty_v3_def Let_def window_defs)

text \<open>Version 4.\<close>

lemma monotonise_returns:
  "(\<forall>i \<in> set is. i < length timestamps \<and> i < length ts) \<Longrightarrow>
    \<exists>ts'. monotonise timestamps is ts = Some ts' \<and> length ts' = length ts"
proof (induction "is" arbitrary: ts)
  case (Cons i "is")
  then have "i - 1 < length ts" by auto
  with Cons show ?case using Cons.IH [of "ts[i := max (timestamps ! i) (ts ! (i - 1))]"] by simp
qed simp

lemma v4_solve_time_returns:
  assumes "i < length ts"
  shows "\<exists>st. v4_solve_time ts i = Some (word_of_nat st) \<and> st \<le> 1500"
proof -
  have "\<exists>st. v4_solve_time ts i = Some st \<and> unat st \<le> 1500"
    using assms by (auto simp: v4_solve_time_def Let_def DIFFICULTY_TARGET_V2_def word_le_nat_alt min_def less_imp_diff_less)
  then obtain st where "v4_solve_time ts i = Some st" "unat st \<le> 1500" by (elim exE conjE)
  then show ?thesis by (intro exI [of _ "unat st"]) simp
qed

lemma v4_loop_returns:
  "(\<forall>i \<in> set is. i < length ts \<and> i \<le> 60) \<Longrightarrow>
    \<exists>m. v4_loop ts is (word_of_nat k) = Some (word_of_nat m) \<and> m \<le> k + 90000 * length is"
proof (induction "is" arbitrary: k)
  case (Cons i "is")
  then obtain st where st: "v4_solve_time ts i = Some (word_of_nat st)" "st \<le> 1500"
    using v4_solve_time_returns [of i ts] by auto
  have "\<forall>i \<in> set is. i < length ts \<and> i \<le> 60" "i \<le> 60" using Cons.prems by simp_all
  from Cons.IH [OF this(1), of "k + st * i"] obtain m where
    m: "v4_loop ts is (word_of_nat (k + st * i)) = Some (word_of_nat m)" "m \<le> k + st * i + 90000 * length is" by (elim exE conjE)
  have "st * i \<le> 1500 * 60" using st(2) \<open>i \<le> 60\<close> by (rule mult_le_mono)
  then have "m \<le> k + 90000 * length (i # is)" using m(2) by simp
  moreover have "v4_loop ts (i # is) (word_of_nat k) = Some (word_of_nat m)" using m(1) st(1) by simp
  ultimately show ?case by blast
qed auto

lemma v4_returns: "\<exists>d. next_difficulty_v4 timestamps cumulative height net = Some d"
proof (cases "61 \<le> length timestamps \<and> 61 \<le> length cumulative")
  case True
  obtain ts where ts: "monotonise timestamps [1..<61] ((replicate 61 0)[0 := timestamps ! 0]) = Some ts" "length ts = 61"
    using True monotonise_returns [of "[1..<61]" timestamps "(replicate 61 0)[0 := timestamps ! 0]"] by auto
  obtain m where m: "v4_loop ts [1..<61] 0 = Some (word_of_nat m)" "m \<le> 5400000"
    using v4_loop_returns [of "[1..<61]" ts 0] ts(2) by auto
  have "unat (word_of_nat m :: u64) = m" using m(2) by simp
  then have "200 * (word_of_nat m :: u64) \<noteq> 0" if "\<not> (word_of_nat m :: u64) < 54000"
    using that m(2) by (intro times_200_nonzero) (auto simp: word_less_nat_alt)
  moreover have "cumulative \<noteq> []" "timestamps \<noteq> []" using True by auto
  ultimately show ?thesis
    using True ts m(1)
    by (simp add: next_difficulty_v4_def Let_def window_defs DIFFICULTY_TARGET_V2_def word_div_def list_get_def)
qed (auto simp: next_difficulty_v4_def Let_def window_defs)

text \<open>Version 5.\<close>

lemma v5_loop_returns:
  "(\<forall>i \<in> set is. i < length timestamps \<and> i \<le> 144) \<Longrightarrow>
    \<exists>m. v5_loop timestamps is previous (word_of_nat k) = Some (word_of_nat m) \<and> m \<le> k + 259200 * length is"
proof (induction "is" arbitrary: k previous)
  case (Cons i "is")
  let ?now = "if previous < timestamps ! i then timestamps ! i else previous + 1"
  let ?d = "min (6 * DIFFICULTY_TARGET_V2) (?now - previous)"
  have "unat ?d \<le> 1800" by (simp add: DIFFICULTY_TARGET_V2_def word_le_nat_alt min_def)
  moreover have i: "i < length timestamps" "i \<le> 144" "\<forall>i \<in> set is. i < length timestamps \<and> i \<le> 144" using Cons.prems by simp_all
  ultimately have le: "i * unat ?d \<le> 144 * 1800" by (intro mult_le_mono)
  have "word_of_nat k + word_of_nat i * ucast ?d = (word_of_nat (k + i * unat ?d) :: u128)" by simp
  then have step: "v5_loop timestamps (i # is) previous (word_of_nat k) = v5_loop timestamps is ?now (word_of_nat (k + i * unat ?d))"
    using i(1) by (simp only: v5_loop.simps list_get_in_range Option.bind.simps Let_def)
  from Cons.IH [OF i(3), of ?now "k + i * unat ?d"] obtain m where
    m: "v5_loop timestamps is ?now (word_of_nat (k + i * unat ?d)) = Some (word_of_nat m)" "m \<le> k + i * unat ?d + 259200 * length is"
    by (elim exE conjE)
  have "m \<le> k + 259200 * length (i # is)" using m(2) le by simp
  then show ?case unfolding step m(1) by blast
qed auto

lemma v5_returns: "\<exists>d. next_difficulty_v5 timestamps cumulative height net = Some d"
proof (cases "145 \<le> length timestamps \<and> 145 \<le> length cumulative")
  case True
  obtain m where m: "v5_loop timestamps [1..<145] (timestamps ! 0 - 300) 0 = Some (word_of_nat m)" "m \<le> 37324800"
    using v5_loop_returns [of "[1..<145]" timestamps "timestamps ! 0 - 300" 0] True by auto
  have "unat (word_of_nat m :: u128) = m" using m(2) by (simp add: unat_of_nat)
  then have "200 * (word_of_nat m :: u128) \<noteq> 0" if "\<not> (word_of_nat m :: u128) < 311040"
    using that m(2) by (intro times_200_nonzero) (auto simp: word_less_nat_alt)
  moreover have "cumulative \<noteq> []" "timestamps \<noteq> []" using True by auto
  ultimately show ?thesis
    using True m(1)
    by (simp add: next_difficulty_v5_def Let_def window_defs DIFFICULTY_TARGET_V2_def word_div_def list_get_def)
qed (auto simp: next_difficulty_v5_def Let_def window_defs)

section \<open>Properties\<close>

text \<open>C26. The 256-bit quotient of the difficulty algorithms is exact: total work times target
  over the time span, rounded up, or 0 exactly when that does not fit 128 bits.\<close>

theorem ceil_div_256_correct:
  assumes "time_span \<noteq> 0"
  shows "ceil_div_256 total_work target time_span =
    (let q = (unat total_work * unat target + unat time_span - 1) div unat time_span in
     if q < 2 ^ 128 then word_of_nat q else 0)"
  using ceil_div_256_eq [OF assms] by (simp add: Let_def)

theorem ceil_div_256_correct_witness:
  "ceil_div_256 1000 300 7 =
    (let q = (unat (1000 :: u128) * unat (300 :: u64) + unat (7 :: u64) - 1) div unat (7 :: u64) in
     if q < 2 ^ 128 then word_of_nat q else 0)"
  by (rule ceil_div_256_correct) simp

text \<open>A steady chain holds its difficulty: whatever the window, when every block took the
  target time and had difficulty \<open>d\<close>, versions 1 and 6 return \<open>d\<close> again.\<close>

theorem steady_chain_keeps_difficulty:
  assumes "2 \<le> len" "len \<le> DIFFICULTY_WINDOW_V3" "\<not> is_test_network net"
    and "steady_at t0 (unat difficulty_target) len < 2 ^ 64" "steady_at c0 d len < 2 ^ 128"
    and "height < 331170"
  shows "next_difficulty_v6 (steady t0 (unat difficulty_target) len) (steady c0 d len) difficulty_target height net =
      Some (word_of_nat d) \<and>
    next_difficulty_v1 (steady t0 (unat difficulty_target) len) (steady c0 d len) difficulty_target height net =
      Some (word_of_nat d)"
proof -
  have t: "0 < unat difficulty_target" by (simp add: difficulty_target_def DIFFICULTY_TARGET_V2_def)
  note c = cut_difficulty_steady [OF assms(1) _ t assms(4,5)]
  have "c \<Longrightarrow> \<not> 331170 \<le> height" for c using assms(6) by (simp add: not_le)
  then show ?thesis
    using assms(1-3) c [of "DIFFICULTY_WINDOW_V3 - 2 * DIFFICULTY_CUT_V2"] c [of "DIFFICULTY_WINDOW - 2 * DIFFICULTY_CUT"]
    by (simp add: next_difficulty_v6_def next_difficulty_v1_def window_defs)
qed

theorem steady_chain_keeps_difficulty_witness:
  "next_difficulty_v6 (steady 1600000000 (unat difficulty_target) 144) (steady 5 1000 144) difficulty_target 100000 Mainnet =
      Some (word_of_nat 1000) \<and>
    next_difficulty_v1 (steady 1600000000 (unat difficulty_target) 144) (steady 5 1000 144) difficulty_target 100000 Mainnet =
      Some (word_of_nat 1000)"
  by (rule steady_chain_keeps_difficulty)
    (simp_all add: window_defs is_test_network_def steady_at_def difficulty_target_def DIFFICULTY_TARGET_V2_def)



text \<open>The table of overrides tells the truth: at every height of an entry its algorithm
  returns the entry's difficulty on mainnet, once two timestamps are known.\<close>

theorem overrides_hold:
  assumes "ov \<in> set OVERRIDES" "ov_from ov \<le> height" "height \<le> ov_to ov" "2 \<le> length timestamps"
  shows "(case ov_algorithm ov of
      V1 \<Rightarrow> next_difficulty_v1 timestamps cumulative target height Mainnet
    | V4 \<Rightarrow> next_difficulty_v4 timestamps cumulative height Mainnet
    | V5 \<Rightarrow> next_difficulty_v5 timestamps cumulative height Mainnet
    | _ \<Rightarrow> None) = Some (ov_difficulty ov)"
proof -
  consider "ov_algorithm ov = V1" "331170 \<le> height" "height \<le> 331890" "ov_difficulty ov = 100000000"
    | "ov_algorithm ov = V4" "height \<le> 63470" "ov_difficulty ov = 100000069"
    | "ov_algorithm ov = V5" "81769 \<le> height" "height \<le> 81912" "ov_difficulty ov = 10000000"
    | "ov_algorithm ov = V5" "v5_correction height = Some (ov_difficulty ov)"
    using assms(1-3) by (auto simp: OVERRIDES_def v5_correction_def dest: antisym)
  then show ?thesis
    by cases (simp_all add: v1_override [OF assms(4)] v4_override v5_reset v5_corrected)
qed

theorem overrides_hold_witness:
  "(case V5 of
      V1 \<Rightarrow> next_difficulty_v1 [1, 2] [] 300 307692 Mainnet
    | V4 \<Rightarrow> next_difficulty_v4 [1, 2] [] 307692 Mainnet
    | V5 \<Rightarrow> next_difficulty_v5 [1, 2] [] 307692 Mainnet
    | _ \<Rightarrow> None) = Some 1890000"
  using overrides_hold [of "\<lparr>ov_algorithm = V5, ov_from = 307692, ov_to = 307692, ov_difficulty = 1890000,
      ov_mainnet_only = True\<rparr>" 307692 "[1, 2]" "[]" 300]
  by (simp add: OVERRIDES_def)

text \<open>The number of blocks collected for a version is what the algorithm of that version
  needs: the window plus the lag for 1 and 6, one more than the window for the others.\<close>

theorem blocks_count_fits_algorithm:
  "difficulty_blocks_count version = (case select_algorithm version of
     V1 \<Rightarrow> DIFFICULTY_WINDOW + DIFFICULTY_LAG
   | V5 \<Rightarrow> DIFFICULTY_WINDOW_V3 + 1
   | V6 \<Rightarrow> DIFFICULTY_WINDOW_V3 + DIFFICULTY_LAG_V2
   | _ \<Rightarrow> DIFFICULTY_WINDOW_V2 + 1)"
proof -
  have "version = 8 \<or> version = 9 \<or> version = 10" if "version \<le> 10" "8 \<le> version"
    using that by (auto simp: word_le_nat_alt word_unat_eq_iff)
  then show ?thesis
    by (auto simp: difficulty_blocks_count_def select_algorithm_def window_defs)
qed

text \<open>Zeroing insignificant digits rounds to the nearest multiple of a power of ten that is
  at most a hundredth of the value, and changes nothing else.\<close>

theorem zero_insignificant_digits_rounds:
  assumes "unat d + 10 ^ 9 < 2 ^ 64"
  shows "\<exists>k. 10 ^ k dvd unat (zero_insignificant_digits d) \<and>
    2 * unat (zero_insignificant_digits d) \<le> 2 * unat d + 10 ^ k \<and>
    2 * unat d \<le> 2 * unat (zero_insignificant_digits d) + 10 ^ k \<and> (k = 0 \<or> 10 ^ k * 100 < unat d)"
  using zero_digits_loop_bounds [of d 9] assms unfolding zero_insignificant_digits_def by auto

theorem zero_insignificant_digits_rounds_witness:
  "\<exists>k. 10 ^ k dvd unat (zero_insignificant_digits 123456789) \<and>
    2 * unat (zero_insignificant_digits 123456789) \<le> 2 * unat (123456789 :: u64) + 10 ^ k \<and>
    2 * unat (123456789 :: u64) \<le> 2 * unat (zero_insignificant_digits 123456789) + 10 ^ k \<and>
    (k = 0 \<or> 10 ^ k * 100 < unat (123456789 :: u64))"
  by (rule zero_insignificant_digits_rounds) simp

end
