(* ===== verification/HardFork.thy ===== *)
theory HardFork
  imports Constants
begin

text \<open>
  The hard-fork tables and the two version functions over them,
  \<open>crates/wow-consensus/src/hardfork.rs\<close>, and the feature gates of its module \<open>gates\<close>. The locale
  \<open>fork_table\<close> holds what the code relies on of a table (rows ascending in both columns) and the
  facts that follow; it is interpreted for the three tables.
\<close>

section \<open>Tables\<close>

record Fork =
  fork_version :: u8
  fork_height :: u64

definition mk_fork :: "u8 \<Rightarrow> u64 \<Rightarrow> Fork" where
  "mk_fork v h = \<lparr>fork_version = v, fork_height = h\<rparr>"

definition MAINNET_HARD_FORKS :: "Fork list" where
  "MAINNET_HARD_FORKS =
    [mk_fork 7 1, mk_fork 8 6969, mk_fork 9 53666, mk_fork 10 63469, mk_fork 11 81769, mk_fork 12 82069,
     mk_fork 13 114969, mk_fork 14 115257, mk_fork 15 160777, mk_fork 16 253999, mk_fork 17 254287,
     mk_fork 18 331170, mk_fork 19 331458, mk_fork 20 514000]"

definition TESTNET_HARD_FORKS :: "Fork list" where
  "TESTNET_HARD_FORKS =
    [mk_fork 7 1, mk_fork 8 5, mk_fork 9 10, mk_fork 10 15, mk_fork 11 20, mk_fork 12 25, mk_fork 13 30,
     mk_fork 14 35, mk_fork 15 40, mk_fork 16 45, mk_fork 17 50, mk_fork 18 55, mk_fork 19 60, mk_fork 20 65,
     mk_fork 21 70]"

definition STAGENET_HARD_FORKS :: "Fork list" where
  "STAGENET_HARD_FORKS =
    [mk_fork 7 1, mk_fork 8 5, mk_fork 9 10, mk_fork 10 15, mk_fork 11 20, mk_fork 12 25, mk_fork 13 30,
     mk_fork 14 35, mk_fork 15 40, mk_fork 16 45, mk_fork 17 50, mk_fork 18 55, mk_fork 19 60, mk_fork 20 65]"

definition ORIGINAL_VERSION :: u8 where "ORIGINAL_VERSION = 1"

definition Network_config :: "Network \<Rightarrow> Network" where
  "Network_config net = (case net of Fakechain \<Rightarrow> Mainnet | other \<Rightarrow> other)"

definition hard_fork_table :: "Network \<Rightarrow> Fork list" where
  "hard_fork_table network =
     (case Network_config network of
        Mainnet \<Rightarrow> MAINNET_HARD_FORKS
      | Fakechain \<Rightarrow> MAINNET_HARD_FORKS
      | Testnet \<Rightarrow> TESTNET_HARD_FORKS
      | Stagenet \<Rightarrow> STAGENET_HARD_FORKS)"

section \<open>Versions\<close>

record HardFork =
  hf_network :: Network
  hf_forks :: "Fork list"

definition HardFork_new :: "Network \<Rightarrow> HardFork" where
  "HardFork_new network = \<lparr>hf_network = network, hf_forks = hard_fork_table network\<rparr>"

text \<open>The loop over the rows in reverse order.\<close>

fun ideal_loop :: "u64 \<Rightarrow> Fork list \<Rightarrow> u8" where
  "ideal_loop height [] = ORIGINAL_VERSION"
| "ideal_loop height (fork # forks) =
     (if fork_height fork \<le> height then fork_version fork else ideal_loop height forks)"

definition ideal_version :: "HardFork \<Rightarrow> u64 \<Rightarrow> u8" where
  "ideal_version hf height = ideal_loop height (rev (drop 1 (hf_forks hf)))"

definition ideal_version_top :: "HardFork \<Rightarrow> u8" where
  "ideal_version_top hf = (if hf_forks hf = [] then ORIGINAL_VERSION else fork_version (last (hf_forks hf)))"

text \<open>The loop with its early \<open>break\<close>.\<close>

fun required_loop :: "u64 \<Rightarrow> u8 \<Rightarrow> Fork list \<Rightarrow> u8" where
  "required_loop height v [] = v"
| "required_loop height v (fork # forks) =
     (if fork_height fork \<le> height then required_loop height (fork_version fork) forks else v)"

definition required_version :: "HardFork \<Rightarrow> u64 \<Rightarrow> u8" where
  "required_version hf height =
     required_loop height (case hf_forks hf of [] \<Rightarrow> ORIGINAL_VERSION | f # _ \<Rightarrow> fork_version f) (hf_forks hf)"

definition hf_check :: "HardFork \<Rightarrow> u64 \<Rightarrow> u8 \<Rightarrow> u8 \<Rightarrow> bool" where
  "hf_check hf height major_version block_vote =
     (let required = required_version hf height in major_version = required \<and> required \<le> block_vote)"

definition earliest_height :: "HardFork \<Rightarrow> u8 \<Rightarrow> u64 option" where
  "earliest_height hf version = map_option fork_height (find (\<lambda>f. fork_version f = version) (hf_forks hf))"

definition is_active :: "HardFork \<Rightarrow> u8 \<Rightarrow> u64 \<Rightarrow> bool" where
  "is_active hf version height =
     (case earliest_height hf version of None \<Rightarrow> False | Some h \<Rightarrow> h \<le> height)"

section \<open>Feature gates\<close>

definition HF_VERSION_DYNAMIC_FEE :: u8 where "HF_VERSION_DYNAMIC_FEE = 4"
definition HF_VERSION_ENFORCE_RCT :: u8 where "HF_VERSION_ENFORCE_RCT = 6"
definition HF_VERSION_MIN_MIXIN_7 :: u8 where "HF_VERSION_MIN_MIXIN_7 = 7"
definition HF_VERSION_MIN_MIXIN_21 :: u8 where "HF_VERSION_MIN_MIXIN_21 = 9"
definition HF_VERSION_PER_BYTE_FEE :: u8 where "HF_VERSION_PER_BYTE_FEE = 12"
definition HF_VERSION_SMALLER_BP :: u8 where "HF_VERSION_SMALLER_BP = 13"
definition HF_VERSION_LONG_TERM_BLOCK_WEIGHT :: u8 where "HF_VERSION_LONG_TERM_BLOCK_WEIGHT = 13"
definition RX_BLOCK_VERSION :: u8 where "RX_BLOCK_VERSION = 13"
definition HF_VERSION_MIN_2_OUTPUTS :: u8 where "HF_VERSION_MIN_2_OUTPUTS = 15"
definition HF_VERSION_MIN_V2_COINBASE_TX :: u8 where "HF_VERSION_MIN_V2_COINBASE_TX = 15"
definition HF_VERSION_SAME_MIXIN :: u8 where "HF_VERSION_SAME_MIXIN = 15"
definition HF_VERSION_REJECT_SIGS_IN_COINBASE :: u8 where "HF_VERSION_REJECT_SIGS_IN_COINBASE = 15"
definition HF_VERSION_ENFORCE_MIN_AGE :: u8 where "HF_VERSION_ENFORCE_MIN_AGE = 15"
definition HF_VERSION_EFFECTIVE_SHORT_TERM_MEDIAN_IN_PENALTY :: u8 where
  "HF_VERSION_EFFECTIVE_SHORT_TERM_MEDIAN_IN_PENALTY = 15"
definition HF_VERSION_EXACT_COINBASE :: u8 where "HF_VERSION_EXACT_COINBASE = 16"
definition HF_VERSION_CLSAG :: u8 where "HF_VERSION_CLSAG = 16"
definition HF_VERSION_DETERMINISTIC_UNLOCK_TIME :: u8 where "HF_VERSION_DETERMINISTIC_UNLOCK_TIME = 16"
definition HF_VERSION_DYNAMIC_UNLOCK :: u8 where "HF_VERSION_DYNAMIC_UNLOCK = 16"
definition HF_VERSION_FIXED_UNLOCK :: u8 where "HF_VERSION_FIXED_UNLOCK = 18"
definition HF_VERSION_BULLETPROOF_PLUS :: u8 where "HF_VERSION_BULLETPROOF_PLUS = 18"
definition gates_HF_VERSION_BLOCK_HEADER_MINER_SIG :: u8 where "gates_HF_VERSION_BLOCK_HEADER_MINER_SIG = 18"
definition HF_VERSION_VIEW_TAGS :: u8 where "HF_VERSION_VIEW_TAGS = 20"
definition HF_VERSION_2021_SCALING :: u8 where "HF_VERSION_2021_SCALING = 20"
definition HF_VERSION_BP_PLUS_FULL_COMMIT :: u8 where "HF_VERSION_BP_PLUS_FULL_COMMIT = 21"

section \<open>Ascending tables\<close>

definition fork_less :: "Fork \<Rightarrow> Fork \<Rightarrow> bool" where
  "fork_less a b \<longleftrightarrow> fork_version a < fork_version b \<and> fork_height a < fork_height b"

text \<open>The rows reached at a height, and the loop as the last of them.\<close>

definition reached :: "u64 \<Rightarrow> Fork list \<Rightarrow> Fork list" where
  "reached height forks = filter (\<lambda>f. fork_height f \<le> height) forks"

lemma none_reached_after:
  "sorted_wrt fork_less (f # fs) \<Longrightarrow> \<not> fork_height f \<le> height \<Longrightarrow> reached height fs = []"
  by (auto simp: reached_def filter_empty_conv fork_less_def)

lemma required_loop_last:
  "sorted_wrt fork_less fs \<Longrightarrow>
     required_loop height v fs = (if reached height fs = [] then v else fork_version (last (reached height fs)))"
proof (induction fs arbitrary: v)
  case Nil
  then show ?case by (simp add: reached_def)
next
  case (Cons f fs)
  show ?case
  proof (cases "fork_height f \<le> height")
    case True
    with Cons show ?thesis by (auto simp: reached_def)
  next
    case False
    with none_reached_after [OF Cons.prems] show ?thesis by (simp add: reached_def)
  qed
qed

lemma ideal_loop_last:
  "ideal_loop height fs =
     (if reached height (rev fs) = [] then ORIGINAL_VERSION else fork_version (last (reached height (rev fs))))"
  by (induction fs) (auto simp: reached_def)

locale fork_table =
  fixes forks :: "Fork list"
  assumes ascending: "sorted_wrt fork_less forks"
    and two_rows: "2 \<le> length forks"
begin

lemma nonempty: "forks \<noteq> []"
  using two_rows by auto

lemma hd_least: "f \<in> set forks \<Longrightarrow> fork_version (hd forks) \<le> fork_version f \<and> fork_height (hd forks) \<le> fork_height f"
  using ascending nonempty by (cases forks) (auto simp: fork_less_def order_less_imp_le)

lemma required_eq:
  "hf_forks hf = forks \<Longrightarrow> required_version hf h =
     (if reached h forks = [] then fork_version (hd forks) else fork_version (last (reached h forks)))"
  using required_loop_last [OF ascending] nonempty
  by (cases forks) (simp_all add: required_version_def)

lemma versions_distinct: "f \<in> set forks \<Longrightarrow> g \<in> set forks \<Longrightarrow> fork_version f = fork_version g \<Longrightarrow> f = g"
  using ascending
proof (induction forks)
  case (Cons a fs)
  then show ?case by (auto simp: fork_less_def)
qed simp

lemma heights_follow_versions:
  "f \<in> set forks \<Longrightarrow> g \<in> set forks \<Longrightarrow> fork_version f \<le> fork_version g \<Longrightarrow> fork_height f \<le> fork_height g"
  using ascending
proof (induction forks)
  case (Cons a fs)
  then show ?case by (auto simp: fork_less_def)
qed simp

lemma earliest_height_row: "hf_forks hf = forks \<Longrightarrow> f \<in> set forks \<Longrightarrow> earliest_height hf (fork_version f) = Some (fork_height f)"
proof -
  assume hf: "hf_forks hf = forks" and f: "f \<in> set forks"
  then obtain g where g: "find (\<lambda>x. fork_version x = fork_version f) forks = Some g"
    by (cases "find (\<lambda>x. fork_version x = fork_version f) forks") (auto simp: find_None_iff)
  then have "g \<in> set forks" "fork_version g = fork_version f"
    by (auto simp: find_Some_iff)
  with f have "g = f" using versions_distinct by metis
  with g hf show ?thesis by (simp add: earliest_height_def)
qed

lemma reached_sorted: "sorted_wrt fork_less (reached h forks)"
  unfolding reached_def using ascending by (rule sorted_wrt_filter)

lemma last_greatest: "f \<in> set (reached h forks) \<Longrightarrow> fork_version f \<le> fork_version (last (reached h forks))"
proof -
  assume f: "f \<in> set (reached h forks)"
  then have ne: "reached h forks \<noteq> []" by auto
  with f reached_sorted [of h] have "f = last (reached h forks) \<or> fork_less f (last (reached h forks))"
    by (cases "reached h forks" rule: rev_cases) (auto simp: sorted_wrt_append)
  then show ?thesis by (auto simp: fork_less_def)
qed

lemma required_in_table: "hf_forks hf = forks \<Longrightarrow> \<exists>f\<in>set forks. required_version hf h = fork_version f"
proof -
  assume hf: "hf_forks hf = forks"
  show ?thesis
  proof (cases "reached h forks = []")
    case True
    with hf nonempty show ?thesis by (auto simp: required_eq intro!: bexI [of _ "hd forks"])
  next
    case False
    then have "last (reached h forks) \<in> set forks"
      using last_in_set [OF False] by (auto simp: reached_def)
    with hf False show ?thesis by (auto simp: required_eq)
  qed
qed

lemma active_iff_required:
  assumes hf: "hf_forks hf = forks" and v: "f \<in> set forks" and h: "fork_height (hd forks) \<le> h"
  shows "is_active hf (fork_version f) h \<longleftrightarrow> fork_version f \<le> required_version hf h"
proof -
  have ne: "reached h forks \<noteq> []"
    using h nonempty by (auto simp: reached_def filter_empty_conv)
  have l: "last (reached h forks) \<in> set forks" "fork_height (last (reached h forks)) \<le> h"
    using last_in_set [OF ne] by (auto simp: reached_def)
  have "is_active hf (fork_version f) h \<longleftrightarrow> fork_height f \<le> h"
    by (simp add: is_active_def earliest_height_row [OF hf v])
  also have "\<dots> \<longleftrightarrow> fork_version f \<le> fork_version (last (reached h forks))"
  proof
    assume "fork_height f \<le> h"
    with v show "fork_version f \<le> fork_version (last (reached h forks))"
      by (intro last_greatest) (simp add: reached_def)
  next
    assume "fork_version f \<le> fork_version (last (reached h forks))"
    with v l heights_follow_versions show "fork_height f \<le> h" by (meson order_trans)
  qed
  finally show ?thesis by (simp add: required_eq [OF hf] ne)
qed

lemma required_mono:
  assumes hf: "hf_forks hf = forks" and le: "h \<le> h'"
  shows "required_version hf h \<le> required_version hf h'"
proof (cases "reached h forks = []")
  case True
  then have "required_version hf h = fork_version (hd forks)" by (simp add: required_eq [OF hf])
  moreover obtain f where "f \<in> set forks" "required_version hf h' = fork_version f"
    using required_in_table [OF hf] by blast
  ultimately show ?thesis using hd_least by simp
next
  case False
  from last_in_set [OF this] have "last (reached h forks) \<in> set (reached h' forks)"
    using le by (auto simp: reached_def)
  moreover from this have "reached h' forks \<noteq> []" by auto
  ultimately show ?thesis using False last_greatest by (simp add: required_eq [OF hf])
qed

lemma ideal_eq:
  assumes hf: "hf_forks hf = forks"
  shows "ideal_version hf h =
    (if fork_height (forks ! 1) \<le> h then required_version hf h else ORIGINAL_VERSION)"
proof -
  obtain a b fs where f: "forks = a # b # fs"
    using two_rows by (cases forks rule: list.exhaust [case_names Nil Cons]) (auto simp: Suc_le_length_iff numeral_2_eq_2)
  show ?thesis
  proof (cases "fork_height b \<le> h")
    case True
    with ascending f have "fork_height a \<le> h" by (auto simp: fork_less_def)
    with True f show ?thesis
      by (auto simp: required_eq [OF hf] ideal_version_def hf ideal_loop_last reached_def)
  next
    case False
    with ascending f have "reached h (b # fs) = []" by (auto simp: reached_def filter_empty_conv fork_less_def)
    with False f show ?thesis by (simp add: ideal_version_def hf ideal_loop_last)
  qed
qed

end

interpretation mainnet_forks: fork_table MAINNET_HARD_FORKS
  by unfold_locales (simp_all add: MAINNET_HARD_FORKS_def fork_less_def mk_fork_def)

interpretation testnet_forks: fork_table TESTNET_HARD_FORKS
  by unfold_locales (simp_all add: TESTNET_HARD_FORKS_def fork_less_def mk_fork_def)

interpretation stagenet_forks: fork_table STAGENET_HARD_FORKS
  by unfold_locales (simp_all add: STAGENET_HARD_FORKS_def fork_less_def mk_fork_def)

lemma network_table: "fork_table (hard_fork_table net)"
  using mainnet_forks.fork_table_axioms testnet_forks.fork_table_axioms stagenet_forks.fork_table_axioms
  by (cases net) (simp_all add: hard_fork_table_def Network_config_def)

lemma hf_forks_new [simp]: "hf_forks (HardFork_new net) = hard_fork_table net"
  by (simp add: HardFork_new_def)

lemma first_row_height: "fork_height (hd (hard_fork_table net)) = 1"
  by (cases net) (simp_all add: hard_fork_table_def Network_config_def MAINNET_HARD_FORKS_def
      TESTNET_HARD_FORKS_def STAGENET_HARD_FORKS_def mk_fork_def)

lemma second_row_height: "fork_height (hard_fork_table net ! 1) = (if net = Mainnet \<or> net = Fakechain then 6969 else 5)"
  by (cases net) (simp_all add: hard_fork_table_def Network_config_def MAINNET_HARD_FORKS_def
      TESTNET_HARD_FORKS_def STAGENET_HARD_FORKS_def mk_fork_def)

section \<open>Properties\<close>

text \<open>The two ways the code asks whether a feature is on agree: for every version of a network's
  table and every height from 1, the version is active exactly when the required block version has
  reached it.\<close>

theorem active_iff_required_version:
  assumes "v \<in> fork_version ` set (hard_fork_table net)" "1 \<le> height"
  shows "is_active (HardFork_new net) v height \<longleftrightarrow> v \<le> required_version (HardFork_new net) height"
  using assms fork_table.active_iff_required [OF network_table, of "HardFork_new net" net _ height]
  by (auto simp: first_row_height)

theorem active_iff_required_version_witness:
  "is_active (HardFork_new Mainnet) 13 114969 \<longleftrightarrow> 13 \<le> required_version (HardFork_new Mainnet) 114969"
  using active_iff_required_version [of 13 Mainnet 114969]
  by (simp add: hard_fork_table_def Network_config_def MAINNET_HARD_FORKS_def mk_fork_def)

text \<open>Block acceptance fixes the major version of every height, and along the chain it never
  goes down: of two accepted headers the higher one carries a version at least as large, and at one
  height the same.\<close>

theorem accepted_versions_ascend:
  assumes "hf_check (HardFork_new net) h m vote" "hf_check (HardFork_new net) h' m' vote'" "h \<le> h'"
  shows "m \<le> m' \<and> (h = h' \<longrightarrow> m = m')"
  using assms fork_table.required_mono [OF network_table, of "HardFork_new net" net h h']
  by (auto simp: hf_check_def Let_def)

theorem accepted_versions_ascend_witness:
  "hf_check (HardFork_new Mainnet) 6968 7 7 \<and> hf_check (HardFork_new Mainnet) 6969 8 20 \<and> (7 :: u8) \<le> 8"
proof -
  have a: "hf_check (HardFork_new Mainnet) 6968 7 7" and b: "hf_check (HardFork_new Mainnet) 6969 8 20"
    by (simp_all add: hf_check_def required_version_def hard_fork_table_def Network_config_def
        MAINNET_HARD_FORKS_def mk_fork_def)
  have "(7 :: u8) \<le> 8" using accepted_versions_ascend [OF a b] by simp
  with a b show ?thesis by simp
qed

text \<open>The version the handshake advertises: below the second row of the table it is the original
  version 1, from there on it is the required version.\<close>

theorem ideal_version_skips_first_row:
  "ideal_version (HardFork_new net) height =
    (if (if net = Mainnet \<or> net = Fakechain then 6969 else 5) \<le> height
     then required_version (HardFork_new net) height else ORIGINAL_VERSION)"
  using fork_table.ideal_eq [OF network_table, of "HardFork_new net" net height]
  by (simp only: second_row_height hf_forks_new)

end
