(* ===== verification/Emission.thy ===== *)
theory Emission
  imports PowDifficulty HardFork
begin

text \<open>
  Emission, \<open>crates/wow-consensus/src/emission.rs\<close>: the block reward with its weight penalty, the
  median, the accumulation of generated coins and the reward part of the coinbase check. The
  properties bound the reward by the unpenalised one for every input (the 64-bit wrap of the
  multiplicand and of twice the median included), show that the running supply never overflows, and
  balance the coinbase.
\<close>

section \<open>Definitions\<close>

datatype RewardError = BlockTooBig

definition get_block_reward :: "u64 \<Rightarrow> u64 \<Rightarrow> u64 \<Rightarrow> u8 \<Rightarrow> RewardError + u64" where
  "get_block_reward median_weight current_block_weight already_generated_coins version =
     (let target_minutes = DIFFICULTY_TARGET_V2 div 60;
          emission_speed_factor = EMISSION_SPEED_FACTOR_PER_MINUTE - (unat target_minutes - 1);
          base_reward = drop_bit emission_speed_factor (MONEY_SUPPLY - already_generated_coins);
          floor = FINAL_SUBSIDY_PER_MINUTE * target_minutes;
          base_reward = (if base_reward < floor then floor else base_reward);
          full_reward_zone = get_min_block_weight version;
          median_weight = max median_weight full_reward_zone
      in if current_block_weight \<le> median_weight then Inr base_reward
         else if 2 * median_weight < current_block_weight then Inl BlockTooBig
         else
           let multiplicand = (2 * median_weight - current_block_weight) * current_block_weight;
               product = (ucast base_reward :: u128) * ucast multiplicand;
               reward = (product div ucast median_weight) div ucast median_weight
           in Inr (ucast reward))"

definition base_reward :: "u64 \<Rightarrow> u64" where
  "base_reward already_generated_coins = drop_bit EMISSION_SPEED_FACTOR (MONEY_SUPPLY - already_generated_coins)"

definition get_mid :: "u64 \<Rightarrow> u64 \<Rightarrow> u64" where
  "get_mid a b = a div 2 + b div 2 + ((a mod 2) + (b mod 2)) div 2"

definition median :: "u64 list \<Rightarrow> u64" where
  "median values =
     (if values = [] then 0
      else if length values = 1 then values ! 0
      else
        let values = sort values; n = length values div 2 in
        if length values mod 2 = 1 then values ! n else get_mid (values ! (n - 1)) (values ! n))"

definition accumulate_generated_coins :: "u64 \<Rightarrow> u64 \<Rightarrow> u64" where
  "accumulate_generated_coins previous adjusted_base_reward = saturating_add previous adjusted_base_reward"

record MinerReward =
  adjusted_base_reward :: u64
  partial :: bool

datatype MinerRewardError = Overspend | NotExact | Overflow

definition validate_miner_reward :: "u8 \<Rightarrow> u64 \<Rightarrow> u64 \<Rightarrow> u64 \<Rightarrow> MinerRewardError + MinerReward" where
  "validate_miner_reward version base fee money_in_use =
     and_then (ok_or (checked_add base fee) Overflow) (\<lambda>total.
       if total < money_in_use then Inl Overspend
       else if version < 2 \<or> HF_VERSION_EXACT_COINBASE \<le> version then
         (if total \<noteq> money_in_use then Inl NotExact
          else Inr \<lparr>adjusted_base_reward = base, partial = False\<rparr>)
       else
         and_then (ok_or (checked_sub money_in_use fee) Overspend) (\<lambda>claimed.
           if base < claimed then Inl Overspend
           else Inr \<lparr>adjusted_base_reward = claimed, partial = (total \<noteq> money_in_use)\<rparr>))"

definition accumulate_difficulty :: "Difficulty \<Rightarrow> Difficulty \<Rightarrow> Difficulty option" where
  "accumulate_difficulty cumulative next_d = checked_add cumulative next_d"

section \<open>The median\<close>

lemma unat_get_mid: "unat (get_mid a b) = (unat a + unat b) div 2"
proof -
  have a: "unat a < 2 ^ 64" and b: "unat b < 2 ^ 64" using unat_bound [of a] unat_bound [of b] by simp_all
  have p: "unat ((a mod 2) + (b mod 2)) = unat a mod 2 + unat b mod 2"
    by (subst unat_add_no_wrap) (simp_all add: unat_mod add_less_mono [of _ 2 _ 2, THEN order_less_trans])
  have q: "unat (a div 2 + b div 2) = unat a div 2 + unat b div 2"
    using a b by (subst unat_add_no_wrap) (auto simp: unat_div)
  have r: "unat (((a mod 2) + (b mod 2)) div 2) = (unat a mod 2 + unat b mod 2) div 2"
    by (simp add: unat_div p)
  have e: "unat a div 2 + unat b div 2 + (unat a mod 2 + unat b mod 2) div 2 = (unat a + unat b) div 2"
    for a b :: u64 by presburger
  have bound: "unat a div 2 + unat b div 2 + (unat a mod 2 + unat b mod 2) div 2 < 2 ^ 64"
    unfolding e using a b by simp
  have "unat (get_mid a b) = unat a div 2 + unat b div 2 + (unat a mod 2 + unat b mod 2) div 2"
    unfolding get_mid_def using bound by (subst unat_add_no_wrap) (simp_all add: p q r)
  also have "\<dots> = (unat a + unat b) div 2" by (rule e)
  finally show ?thesis .
qed

lemma get_mid_between: "a \<le> b \<Longrightarrow> a \<le> get_mid a b \<and> get_mid a b \<le> b"
  by (simp add: word_le_nat_alt unat_get_mid) linarith

lemma median_sort:
  "xs \<noteq> [] \<Longrightarrow> median xs =
     (let s = sort xs; n = length xs div 2 in if length xs mod 2 = 1 then s ! n else get_mid (s ! (n - 1)) (s ! n))"
  by (cases xs; cases "tl xs") (auto simp: median_def Let_def)

lemma median_perm: "mset xs = mset ys \<Longrightarrow> median xs = median ys"
proof (cases "xs = []")
  case False
  assume m: "mset xs = mset ys"
  then have "sort xs = sort ys" "length xs = length ys" "ys \<noteq> []"
    using False by (auto intro: properties_for_sort dest: mset_eq_length)
  with False show ?thesis by (simp add: median_sort)
qed auto

lemma sort_nth_between:
  "xs \<noteq> [] \<Longrightarrow> \<forall>x\<in>set xs. lo \<le> x \<and> x \<le> hi \<Longrightarrow> i < length xs \<Longrightarrow> lo \<le> sort xs ! i \<and> sort xs ! i \<le> hi"
  by (metis length_sort nth_mem set_sort)

lemma median_between:
  assumes ne: "xs \<noteq> []" and b: "\<forall>x\<in>set xs. lo \<le> x \<and> x \<le> hi"
  shows "lo \<le> median xs \<and> median xs \<le> hi"
proof -
  let ?n = "length xs div 2"
  have l: "?n < length xs" using ne by simp
  then have l': "?n - 1 < length xs" by (rule order_le_less_trans [OF diff_le_self])
  have s: "sort xs ! (?n - 1) \<le> sort xs ! ?n" using l by (intro sorted_nth_mono) auto
  note h = sort_nth_between [OF ne b l] and h' = sort_nth_between [OF ne b l']
  from h h' get_mid_between [OF s] have "lo \<le> get_mid (sort xs ! (?n - 1)) (sort xs ! ?n)"
    "get_mid (sort xs ! (?n - 1)) (sort xs ! ?n) \<le> hi" by (meson order_trans)+
  with h show ?thesis by (simp add: median_sort [OF ne] Let_def)
qed

section \<open>Rewards\<close>

lemma emission_shift: "EMISSION_SPEED_FACTOR = 20"
  by (simp add: EMISSION_SPEED_FACTOR_def EMISSION_SPEED_FACTOR_PER_MINUTE_def DIFFICULTY_TARGET_V2_def)

lemma unat_base_reward: "unat (base_reward g) = (2 ^ 64 - 1 - unat g) div 2 ^ 20"
proof -
  have "unat (MONEY_SUPPLY - g) = 2 ^ 64 - 1 - unat g"
    by (simp add: MONEY_SUPPLY_def unat_sub unat_max_word)
  then show ?thesis by (simp add: base_reward_def emission_shift unat_drop_bit_div)
qed

lemma base_reward_mono: "g \<le> g' \<Longrightarrow> base_reward g' \<le> base_reward g"
  by (simp add: word_le_nat_alt unat_base_reward div_le_mono)

text \<open>The reward function with its constants in place.\<close>

lemma get_block_reward_eq:
  "get_block_reward m c g v =
     (let M = max m (get_min_block_weight v) in
      if c \<le> M then Inr (base_reward g)
      else if 2 * M < c then Inl BlockTooBig
      else Inr (ucast ((ucast (base_reward g) * ucast ((2 * M - c) * c) :: u128) div ucast M div ucast M)))"
proof -
  have t: "DIFFICULTY_TARGET_V2 div 60 = 5" by (simp add: DIFFICULTY_TARGET_V2_def)
  have f: "EMISSION_SPEED_FACTOR_PER_MINUTE - 4 = EMISSION_SPEED_FACTOR"
    by (simp add: emission_shift EMISSION_SPEED_FACTOR_PER_MINUTE_def)
  show ?thesis
    by (simp add: get_block_reward_def t f FINAL_SUBSIDY_PER_MINUTE_def base_reward_def Let_def)
qed

lemma min_block_weight_bounds: "20000 \<le> get_min_block_weight v \<and> get_min_block_weight v \<le> 300000"
  by (simp add: get_min_block_weight_def BLOCK_GRANTED_FULL_REWARD_ZONE_V1_def BLOCK_GRANTED_FULL_REWARD_ZONE_V2_def
      BLOCK_GRANTED_FULL_REWARD_ZONE_V5_def)

lemma unat_ucast_u64_u128 [simp]: "unat (ucast (w :: u64) :: u128) = unat w"
  using unat_bound [of w] by (simp add: unat_ucast_mod)

text \<open>A median of \<open>2 ^ 63\<close> or more never reaches the penalty: twice it wraps below the block weight.\<close>

lemma no_penalty_wrap:
  fixes M c :: u64
  assumes "M < c" "c \<le> 2 * M"
  shows "unat (2 * M) = 2 * unat M"
proof (rule ccontr)
  assume a: "unat (2 * M) \<noteq> 2 * unat M"
  have "unat (2 * M) = 2 * unat M mod 2 ^ 64" by (simp add: unat_word_ariths)
  with a have "unat (2 * M) = 2 * unat M - 2 ^ 64" "2 ^ 64 \<le> 2 * unat M"
    using unat_bound [of M] by (auto simp: mod_if not_less split: if_splits)
  with assms unat_bound [of M] show False by (simp add: word_le_nat_alt word_less_nat_alt)
qed

lemma square_bound: "c \<le> 2 * M \<Longrightarrow> (2 * M - c) * c \<le> M * (M :: nat)"
proof -
  assume c: "c \<le> 2 * M"
  have "int ((2 * M - c) * c) = int (M * M) - (int M - int c) ^ 2"
    using c by (simp add: of_nat_diff power2_eq_square algebra_simps)
  then have "int ((2 * M - c) * c) \<le> int (M * M)" by simp
  then show ?thesis by linarith
qed

lemma mult_div_le: "p \<le> d \<Longrightarrow> b * p div d \<le> (b :: nat)"
proof (cases "d = 0")
  case False
  assume "p \<le> d"
  then have "b * p div d \<le> b * d div d" by (intro div_le_mono mult_le_mono2)
  with False show ?thesis by simp
qed simp

lemma unat_eq_of_nat: "unat x = n \<Longrightarrow> x = word_of_nat n"
  by auto

text \<open>The penalised reward, with the wrap of the 64-bit product written out.\<close>

lemma penalty_value:
  fixes M c b :: u64
  assumes "M < c" "c \<le> 2 * M"
  shows "unat (ucast ((ucast b * ucast ((2 * M - c) * c) :: u128) div ucast M div ucast M) :: u64) =
    unat b * ((2 * unat M - unat c) * unat c mod 2 ^ 64) div (unat M * unat M)"
proof -
  let ?p = "(2 * unat M - unat c) * unat c mod 2 ^ 64"
  have "unat (2 * M - c) = 2 * unat M - unat c"
    using assms(2) by (simp only: unat_sub no_penalty_wrap [OF assms])
  then have p: "unat ((2 * M - c) * c) = ?p"
    by (simp add: unat_word_ariths(2))
  have "unat b * ?p < 2 ^ 64 * 2 ^ 64"
    using unat_bound [of b] by (intro mult_strict_mono) auto
  then have "unat (ucast b * ucast ((2 * M - c) * c) :: u128) = unat b * ?p"
    by (subst unat_mult_no_wrap) (simp_all add: p)
  then have q: "unat ((ucast b * ucast ((2 * M - c) * c) :: u128) div ucast M div ucast M) =
      unat b * ?p div (unat M * unat M)"
    by (simp add: unat_div div_mult2_eq)
  from assms(2) have "unat c \<le> 2 * unat M" using no_penalty_wrap [OF assms] by (simp add: word_le_nat_alt)
  then have "?p \<le> unat M * unat M"
    by (rule order_trans [OF mod_less_eq_dividend square_bound])
  then have "unat b * ?p div (unat M * unat M) \<le> unat b"
    by (rule mult_div_le)
  with unat_bound [of b] q show ?thesis by (simp add: unat_ucast_mod)
qed


lemma get_block_reward_cases:
  assumes "get_block_reward m c g v = Inr r"
  obtains (full) "c \<le> max m (get_min_block_weight v)" "r = base_reward g"
  | (penalty) M where "M = max m (get_min_block_weight v)" "M < c" "c \<le> 2 * M"
      "unat r = unat (base_reward g) * ((2 * unat M - unat c) * unat c mod 2 ^ 64) div (unat M * unat M)"
  using assms penalty_value [of "max m (get_min_block_weight v)" c "base_reward g"]
  by (auto simp: get_block_reward_eq Let_def not_le not_less split: if_splits)

lemma reward_le_base: "get_block_reward m c g v = Inr r \<Longrightarrow> unat r \<le> unat (base_reward g)"
proof (erule get_block_reward_cases)
  fix M
  assume M: "M < c" "c \<le> 2 * M"
    "unat r = unat (base_reward g) * ((2 * unat M - unat c) * unat c mod 2 ^ 64) div (unat M * unat M)"
  from M(2) have "unat c \<le> 2 * unat M" using no_penalty_wrap [OF M(1,2)] by (simp add: word_le_nat_alt)
  then have "(2 * unat M - unat c) * unat c mod 2 ^ 64 \<le> unat M * unat M"
    by (rule order_trans [OF mod_less_eq_dividend square_bound])
  with M(3) show ?thesis by (simp add: mult_div_le)
qed simp

lemma supply_headroom: "unat r \<le> unat (base_reward g) \<Longrightarrow> unat g + unat r \<le> 2 ^ 64 - 1"
proof -
  assume "unat r \<le> unat (base_reward g)"
  then have "unat r \<le> 2 ^ 64 - 1 - unat g"
    unfolding unat_base_reward by (rule order_trans) (rule div_le_dividend)
  then show ?thesis using unat_bound [of g] by simp
qed

section \<open>Coinbase\<close>

lemma validate_miner_reward_cases:
  assumes "validate_miner_reward v b f m = Inr r"
  shows "unat m = unat (adjusted_base_reward r) + unat f"
    "adjusted_base_reward r \<le> b"
    "partial r \<longleftrightarrow> adjusted_base_reward r \<noteq> b"
    "v < 2 \<or> HF_VERSION_EXACT_COINBASE \<le> v \<Longrightarrow> adjusted_base_reward r = b"
proof -
  from assms obtain t where t: "checked_add b f = Some t" and le: "\<not> t < m"
    by (auto simp: validate_miner_reward_def split: if_splits)
  note tb = checked_add_Some [OF t]
  consider (exact) "v < 2 \<or> HF_VERSION_EXACT_COINBASE \<le> v" "t = m"
      "r = \<lparr>adjusted_base_reward = b, partial = False\<rparr>"
    | (claimed) x where "\<not> (v < 2 \<or> HF_VERSION_EXACT_COINBASE \<le> v)" "checked_sub m f = Some x" "x \<le> b"
      "r = \<lparr>adjusted_base_reward = x, partial = (t \<noteq> m)\<rparr>"
    using assms t by (auto simp: validate_miner_reward_def split: if_splits)
  then have all: "unat m = unat (adjusted_base_reward r) + unat f \<and> adjusted_base_reward r \<le> b \<and>
      (partial r \<longleftrightarrow> adjusted_base_reward r \<noteq> b) \<and>
      (v < 2 \<or> HF_VERSION_EXACT_COINBASE \<le> v \<longrightarrow> adjusted_base_reward r = b)"
  proof cases
    case exact
    then show ?thesis using tb by simp
  next
    case claimed
    with checked_sub_Some [OF claimed(2)] tb show ?thesis
      by (auto simp: word_unat_eq_iff)
  qed
  then show "unat m = unat (adjusted_base_reward r) + unat f" "adjusted_base_reward r \<le> b"
    "partial r \<longleftrightarrow> adjusted_base_reward r \<noteq> b"
    "v < 2 \<or> HF_VERSION_EXACT_COINBASE \<le> v \<Longrightarrow> adjusted_base_reward r = b" by blast+
qed

section \<open>Properties\<close>

text \<open>C28. The reward of an accepted block: the unpenalised reward up to the effective median, and
  above it \<open>base * (2M - w) * w / M\<^sup>2\<close> rounded down once, the two truncating divisions of the code
  being one; a block above twice the median is refused. The median is below \<open>2 ^ 32\<close>, so that the
  64-bit product does not wrap.\<close>

theorem block_reward_formula:
  assumes "m < 2 ^ 32"
  shows "get_block_reward m c g v =
    (let M = unat (max m (get_min_block_weight v)); w = unat c; b = unat (base_reward g) in
     if w \<le> M then Inr (base_reward g)
     else if 2 * M < w then Inl BlockTooBig
     else Inr (word_of_nat (b * ((2 * M - w) * w) div (M * M))))"
proof -
  let ?M = "max m (get_min_block_weight v)"
  have M: "unat ?M < 2 ^ 32"
    using assms min_block_weight_bounds [of v] by (auto simp: max_def word_less_nat_alt word_le_nat_alt)
  then have d: "unat (2 * ?M) = 2 * unat ?M" by (simp add: unat_word_ariths)
  have "(2 * unat ?M - unat c) * unat c < 2 ^ 64" if "unat c \<le> 2 * unat ?M"
  proof -
    have "(2 * unat ?M - unat c) * unat c \<le> unat ?M * unat ?M" using that by (rule square_bound)
    also have "\<dots> < 2 ^ 32 * 2 ^ 32" using M by (intro mult_strict_mono) auto
    finally show ?thesis by simp
  qed
  then have p: "Inr (ucast ((ucast (base_reward g) * ucast ((2 * ?M - c) * c) :: u128) div ucast ?M div ucast ?M)) =
      (Inr (word_of_nat (unat (base_reward g) * ((2 * unat ?M - unat c) * unat c) div (unat ?M * unat ?M))) :: RewardError + u64)"
    if "\<not> unat c \<le> unat ?M" "\<not> 2 * unat ?M < unat c"
    using that d penalty_value [of ?M c "base_reward g"]
    by (simp add: word_less_nat_alt word_le_nat_alt not_le not_less) (rule unat_eq_of_nat, simp)
  show ?thesis
    using p d unfolding get_block_reward_eq Let_def
    by (simp add: word_less_nat_alt word_le_nat_alt)
qed

theorem block_reward_formula_witness:
  "(300000 :: u64) < 2 ^ 32 \<and> get_block_reward 300000 450000 0 20 = Inr 13194139533311"
  using block_reward_formula [of 300000 450000 0 20]
  by (simp add: get_min_block_weight_def BLOCK_GRANTED_FULL_REWARD_ZONE_V5_def unat_base_reward Let_def)

text \<open>C14. The supply never overflows and the coinbase balances: when the reward of a block is granted
  on a supply \<open>g\<close> and the coinbase is validated against it, the coinbase pays out exactly the
  adjusted reward and the fees, the adjusted reward is at most the granted one, and adding it to
  the supply neither saturates nor wraps.\<close>

theorem coinbase_conserves_supply:
  assumes "get_block_reward m c g v = Inr b" "validate_miner_reward v b f money = Inr r"
  shows "unat money = unat (adjusted_base_reward r) + unat f \<and> adjusted_base_reward r \<le> b \<and>
    unat (accumulate_generated_coins g (adjusted_base_reward r)) = unat g + unat (adjusted_base_reward r)"
proof -
  note val = validate_miner_reward_cases [OF assms(2)]
  have "unat (adjusted_base_reward r) \<le> unat (base_reward g)"
    using val(2) reward_le_base [OF assms(1)] by (simp add: word_le_nat_alt)
  from supply_headroom [OF this] show ?thesis
    using val(1,2) by (simp add: accumulate_generated_coins_def unat_saturating_add)
qed

theorem coinbase_conserves_supply_witness:
  "get_block_reward 0 1 0 20 = Inr 17592186044415 \<and>
   validate_miner_reward 20 17592186044415 5 17592186044420 =
     Inr \<lparr>adjusted_base_reward = 17592186044415, partial = False\<rparr> \<and>
   unat (accumulate_generated_coins 0 17592186044415) = 17592186044415"
proof -
  have a: "get_block_reward 0 1 0 20 = Inr 17592186044415"
    by (simp add: get_block_reward_eq get_min_block_weight_def BLOCK_GRANTED_FULL_REWARD_ZONE_V5_def
        base_reward_def emission_shift MONEY_SUPPLY_def drop_bit_eq_div Let_def)
  have b: "validate_miner_reward 20 17592186044415 5 17592186044420 =
     Inr \<lparr>adjusted_base_reward = 17592186044415, partial = False\<rparr>"
    by (simp add: validate_miner_reward_def checked_add_def HF_VERSION_EXACT_COINBASE_def)
  from coinbase_conserves_supply [OF a b] a b show ?thesis by simp
qed

text \<open>Emission decays: for one block weight and median, the reward never rises as the supply
  grows, and no reward is left once less than \<open>2 ^ 20\<close> units of the supply remain.\<close>

theorem emission_decays:
  assumes "get_block_reward m c g v = Inr r" "get_block_reward m c g' v = Inr r'" "g \<le> g'"
  shows "r' \<le> r \<and> (2 ^ 64 - 2 ^ 20 \<le> unat g' \<longrightarrow> r' = 0)"
proof -
  have le: "unat (base_reward g') \<le> unat (base_reward g)"
    using base_reward_mono [OF assms(3)] by (simp add: word_le_nat_alt)
  have "r' \<le> r"
    using assms(1)
  proof (cases rule: get_block_reward_cases)
    case full
    with reward_le_base [OF assms(2)] le show ?thesis by (simp add: word_le_nat_alt)
  next
    case (penalty M)
    from assms(2) show ?thesis
    proof (cases rule: get_block_reward_cases)
      case full
      with penalty(1,2) show ?thesis by (meson leD)
    next
      case (penalty N)
      then show ?thesis
        using \<open>M = _\<close> \<open>unat r = _\<close> le by (simp add: word_le_nat_alt div_le_mono)
    qed
  qed
  moreover have "r' = 0" if "2 ^ 64 - 2 ^ 20 \<le> unat g'"
  proof -
    have "unat (base_reward g') = 0" using that by (simp add: unat_base_reward)
    with reward_le_base [OF assms(2)] show ?thesis by (simp add: unat_eq_zero)
  qed
  ultimately show ?thesis by simp
qed

theorem emission_decays_witness:
  "get_block_reward 0 1 0 20 = Inr 17592186044415 \<and> get_block_reward 0 1 (- 1) 20 = Inr 0 \<and>
   (0 :: u64) \<le> 17592186044415"
proof -
  have a: "get_block_reward 0 1 0 20 = Inr 17592186044415" and b: "get_block_reward 0 1 (- 1) 20 = Inr 0"
    by (simp_all add: get_block_reward_eq get_min_block_weight_def BLOCK_GRANTED_FULL_REWARD_ZONE_V5_def
        base_reward_def emission_shift MONEY_SUPPLY_def drop_bit_eq_div Let_def)
  from emission_decays [OF a b] a b show ?thesis by simp
qed

end
