(* ===== verification/OrdMap.thy ===== *)
theory OrdMap
  imports Prelude
begin

text \<open>
  The ordered map of the standard library, \<open>BTreeMap\<close>, as the list of its entries in key order,
  with the operations the code uses. The locale \<open>ordered_map\<close> states what the clients rely on and
  derives the laws of a map from values to positive counts, read as a multiset.
\<close>

section \<open>Operations\<close>

type_synonym ('k, 'v) btree = "('k \<times> 'v) list"

definition bt_new :: "('k, 'v) btree" where "bt_new = []"

definition bt_get :: "('k, 'v) btree \<Rightarrow> 'k \<Rightarrow> 'v option" where "bt_get m k = map_of m k"

fun bt_insert :: "'k::linorder \<Rightarrow> 'v \<Rightarrow> ('k, 'v) btree \<Rightarrow> ('k, 'v) btree" where
  "bt_insert k v [] = [(k, v)]"
| "bt_insert k v ((a, b) # m) =
     (if k < a then (k, v) # (a, b) # m else if k = a then (k, v) # m else (a, b) # bt_insert k v m)"

definition bt_remove :: "'k \<Rightarrow> ('k, 'v) btree \<Rightarrow> ('k, 'v) btree" where
  "bt_remove k m = filter (\<lambda>(a, b). a \<noteq> k) m"

definition bt_contains_key :: "('k, 'v) btree \<Rightarrow> 'k \<Rightarrow> bool" where
  "bt_contains_key m k = (bt_get m k \<noteq> None)"

definition bt_first_key :: "('k, 'v) btree \<Rightarrow> 'k option" where
  "bt_first_key m = (case m of [] \<Rightarrow> None | e # _ \<Rightarrow> Some (fst e))"

definition bt_last_key :: "('k, 'v) btree \<Rightarrow> 'k option" where
  "bt_last_key m = (if m = [] then None else Some (fst (last m)))"

definition bt_inv :: "('k::linorder, 'v) btree \<Rightarrow> bool" where
  "bt_inv m = sorted_wrt (<) (map fst m)"

section \<open>Laws\<close>

text \<open>The multiset a map of counts stands for.\<close>

definition bag :: "('k \<Rightarrow> nat option) \<Rightarrow> 'k multiset" where
  "bag g = Abs_multiset (\<lambda>k. case g k of None \<Rightarrow> 0 | Some c \<Rightarrow> c)"

lemma count_bag: "finite (dom g) \<Longrightarrow> count (bag g) k = (case g k of None \<Rightarrow> 0 | Some c \<Rightarrow> c)"
proof -
  assume "finite (dom g)"
  then have "finite {k. 0 < (case g k of None \<Rightarrow> 0 | Some c \<Rightarrow> c)}"
    by (rule rev_finite_subset) (auto split: option.splits)
  then show ?thesis by (simp add: bag_def)
qed

locale ordered_map =
  fixes inv :: "'m \<Rightarrow> bool"
    and empty :: 'm
    and get :: "'m \<Rightarrow> 'k::linorder \<Rightarrow> nat option"
    and insert :: "'k \<Rightarrow> nat \<Rightarrow> 'm \<Rightarrow> 'm"
    and remove :: "'k \<Rightarrow> 'm \<Rightarrow> 'm"
    and first_key last_key :: "'m \<Rightarrow> 'k option"
  assumes inv_empty: "inv empty"
    and inv_insert: "inv m \<Longrightarrow> inv (insert k c m)"
    and inv_remove: "inv m \<Longrightarrow> inv (remove k m)"
    and finite_dom: "finite (dom (get m))"
    and get_empty: "get empty = Map.empty"
    and get_insert: "inv m \<Longrightarrow> get (insert k c m) = (get m)(k \<mapsto> c)"
    and get_remove: "inv m \<Longrightarrow> get (remove k m) = (get m)(k := None)"
    and first_key: "inv m \<Longrightarrow> first_key m = Some k \<longleftrightarrow> k \<in> dom (get m) \<and> (\<forall>x\<in>dom (get m). k \<le> x)"
    and first_key_None: "inv m \<Longrightarrow> first_key m = None \<longleftrightarrow> dom (get m) = {}"
    and last_key: "inv m \<Longrightarrow> last_key m = Some k \<longleftrightarrow> k \<in> dom (get m) \<and> (\<forall>x\<in>dom (get m). x \<le> k)"
    and last_key_None: "inv m \<Longrightarrow> last_key m = None \<longleftrightarrow> dom (get m) = {}"
begin

lemma count_get: "count (bag (get m)) k = (case get m k of None \<Rightarrow> 0 | Some c \<Rightarrow> c)"
  by (rule count_bag) (rule finite_dom)

lemma bag_empty: "bag (get empty) = {#}"
  by (rule multiset_eqI) (simp add: count_bag get_empty)

lemma bag_bump:
  "inv m \<Longrightarrow> bag (get (insert k ((case get m k of None \<Rightarrow> 0 | Some c \<Rightarrow> c) + 1) m)) = add_mset k (bag (get m))"
  by (rule multiset_eqI) (simp add: count_bag finite_dom get_insert)

lemma bag_decrement: "inv m \<Longrightarrow> get m k = Some c \<Longrightarrow> bag (get (insert k (c - 1) m)) = bag (get m) - {#k#}"
  by (rule multiset_eqI) (auto simp: count_bag finite_dom get_insert)

lemma bag_drop: "inv m \<Longrightarrow> get m k = Some c \<Longrightarrow> \<not> 1 < c \<Longrightarrow> bag (get (remove k m)) = bag (get m) - {#k#}"
  by (rule multiset_eqI) (auto simp: count_bag finite_dom get_remove)

lemma set_bag: "0 \<notin> ran (get m) \<Longrightarrow> set_mset (bag (get m)) = dom (get m)"
proof -
  assume "0 \<notin> ran (get m)"
  then have "0 < count (bag (get m)) k \<longleftrightarrow> k \<in> dom (get m)" for k
    by (cases "get m k") (auto simp: count_get ran_def intro!: gr0I)
  then show ?thesis by (auto simp del: count_greater_zero_iff simp flip: count_greater_zero_iff)
qed

lemma last_key_bag: "inv m \<Longrightarrow> 0 \<notin> ran (get m) \<Longrightarrow>
    last_key m = Some k \<longleftrightarrow> k \<in># bag (get m) \<and> (\<forall>x\<in>#bag (get m). x \<le> k)"
  by (simp add: last_key set_bag)

lemma first_key_bag: "inv m \<Longrightarrow> 0 \<notin> ran (get m) \<Longrightarrow>
    first_key m = Some k \<longleftrightarrow> k \<in># bag (get m) \<and> (\<forall>x\<in>#bag (get m). k \<le> x)"
  by (simp add: first_key set_bag)

lemma last_key_None_bag: "inv m \<Longrightarrow> 0 \<notin> ran (get m) \<Longrightarrow> last_key m = None \<longleftrightarrow> bag (get m) = {#}"
  by (simp add: last_key_None set_bag flip: set_mset_eq_empty_iff)

lemma first_key_None_bag: "inv m \<Longrightarrow> 0 \<notin> ran (get m) \<Longrightarrow> first_key m = None \<longleftrightarrow> bag (get m) = {#}"
  by (simp add: first_key_None set_bag flip: set_mset_eq_empty_iff)

lemma get_of_member: "0 \<notin> ran (get m) \<Longrightarrow> k \<in># bag (get m) \<longleftrightarrow> (\<exists>c. get m k = Some c)"
  by (simp add: set_bag dom_def)

end

section \<open>The ordered list meets them\<close>

lemma fst_bt_insert: "fst ` set (bt_insert k v m) = Set.insert k (fst ` set m)"
  by (induction k v m rule: bt_insert.induct) auto

lemma bt_inv_insert: "bt_inv m \<Longrightarrow> bt_inv (bt_insert k v m)"
proof (induction k v m rule: bt_insert.induct)
  case (2 k v a b m)
  have "\<forall>x\<in>set (map fst (bt_insert k v m)). x = k \<or> x \<in> fst ` set m"
    using fst_bt_insert [of k v m] by auto
  with 2 show ?case by (fastforce simp: bt_inv_def)
qed (simp add: bt_inv_def)

lemma bt_get_insert: "bt_inv m \<Longrightarrow> bt_get (bt_insert k v m) = (bt_get m)(k \<mapsto> v)"
  unfolding bt_get_def bt_inv_def
  by (induction k v m rule: bt_insert.induct) (auto simp: fun_eq_iff)

lemma bt_inv_remove: "bt_inv m \<Longrightarrow> bt_inv (bt_remove k m)"
proof (induction m)
  case (Cons e m)
  then show ?case by (auto simp: bt_inv_def bt_remove_def)
qed (simp add: bt_inv_def bt_remove_def)

lemma bt_get_remove: "bt_get (bt_remove k m) = (bt_get m)(k := None)"
  unfolding bt_get_def bt_remove_def by (induction m) (auto simp: fun_eq_iff)

lemma dom_bt_get: "dom (bt_get m) = fst ` set m"
proof -
  have "bt_get m = map_of m" by (simp add: bt_get_def fun_eq_iff)
  then show ?thesis by (simp add: dom_map_of_conv_image_fst)
qed

lemma bt_first: "bt_inv m \<Longrightarrow> bt_first_key m = Some k \<longleftrightarrow> k \<in> fst ` set m \<and> (\<forall>x\<in>fst ` set m. k \<le> x)"
  by (cases m) (force simp: bt_inv_def bt_first_key_def)+

lemma bt_last: "bt_inv m \<Longrightarrow> bt_last_key m = Some k \<longleftrightarrow> k \<in> fst ` set m \<and> (\<forall>x\<in>fst ` set m. x \<le> k)"
  by (cases m rule: rev_cases) (force simp: bt_inv_def bt_last_key_def sorted_wrt_append)+

interpretation bt: ordered_map bt_inv bt_new bt_get bt_insert bt_remove bt_first_key bt_last_key
proof unfold_locales
  fix m :: "('a::linorder, nat) btree"
  show "bt_first_key m = None \<longleftrightarrow> dom (bt_get m) = {}" by (cases m) (auto simp: bt_first_key_def dom_bt_get)
  show "bt_last_key m = None \<longleftrightarrow> dom (bt_get m) = {}" by (cases m) (auto simp: bt_last_key_def dom_bt_get)
qed (simp_all add: bt_inv_insert bt_inv_remove bt_get_insert bt_get_remove dom_bt_get bt_first bt_last
    bt_new_def bt_inv_def [of "[]"] bt_get_def [of "[]"] fun_eq_iff)

end
