(* ===== verification/BlockWeight.thy ===== *)
theory BlockWeight
  imports Emission OrdMap
begin

text \<open>
  Block weight limits and the long-term weight window, \<open>crates/wow-consensus/src/weight.rs\<close>. The
  window keeps its values in two ordered maps of counts, a lower and an upper half, so that its
  median is read off their ends; the last section shows that it is the median of the last
  \<open>capacity\<close> pushed values. \<open>None\<close> stands for the panics of \<open>expect\<close>, \<open>assert!\<close> and \<open>unreachable!\<close>.
\<close>

section \<open>Limits\<close>

record WeightLimits =
  wl_median :: u64
  wl_limit :: u64
  long_term_effective_median :: "u64 option"

definition update_next_cumulative_weight_limit :: "u8 \<Rightarrow> u64 list \<Rightarrow> u64 \<Rightarrow> WeightLimits" where
  "update_next_cumulative_weight_limit hf_version short_term_weights long_term_median =
     (let full_reward_zone = get_min_block_weight hf_version;
          (m, ltem_opt) =
            (if hf_version < HF_VERSION_LONG_TERM_BLOCK_WEIGHT then (median short_term_weights, None)
             else
               let ltem = max BLOCK_GRANTED_FULL_REWARD_ZONE_V5 long_term_median;
                   stm = median short_term_weights;
                   effective =
                     (if HF_VERSION_2021_SCALING \<le> hf_version
                      then min (max ltem stm) (SHORT_TERM_BLOCK_WEIGHT_SURGE_FACTOR * ltem)
                      else min (max BLOCK_GRANTED_FULL_REWARD_ZONE_V5 stm) (SHORT_TERM_BLOCK_WEIGHT_SURGE_FACTOR * ltem))
               in (effective, Some ltem));
          m = (if m \<le> full_reward_zone then full_reward_zone else m)
      in \<lparr>wl_median = m, wl_limit = m * 2, long_term_effective_median = ltem_opt\<rparr>)"

definition next_long_term_block_weight :: "u8 \<Rightarrow> u64 \<Rightarrow> u64 \<Rightarrow> u64" where
  "next_long_term_block_weight hf_version block_weight long_term_median =
     (if hf_version < HF_VERSION_LONG_TERM_BLOCK_WEIGHT then block_weight
      else
        let ltem = max BLOCK_GRANTED_FULL_REWARD_ZONE_V5 long_term_median;
            (weight, short_term_constraint) =
              (if HF_VERSION_2021_SCALING \<le> hf_version
               then (max block_weight (ltem * 10 div 17), ltem + ltem * 7 div 10)
               else (block_weight, ltem + ltem * 2 div 5))
        in min weight short_term_constraint)"

definition long_term_window :: "u64 \<Rightarrow> u64" where
  "long_term_window db_height = min LONG_TERM_BLOCK_WEIGHT_WINDOW_SIZE db_height"

definition long_term_window_range :: "u64 \<Rightarrow> u64 \<times> u64" where
  "long_term_window_range db_height = (let n = long_term_window db_height in (db_height - n, db_height))"

definition long_term_median :: "u64 list \<Rightarrow> u64" where
  "long_term_median stored_long_term_weights = median stored_long_term_weights"

definition weight_limit :: "u64 \<Rightarrow> u64" where "weight_limit m = m * 2"

section \<open>The long-term window\<close>

record LongTermWeightWindow =
  capacity :: usize
  order :: "u64 list"
  lower :: "(u64, usize) btree"
  upper :: "(u64, usize) btree"
  lower_len :: usize
  upper_len :: usize

definition with_capacity :: "usize \<Rightarrow> LongTermWeightWindow option" where
  "with_capacity cap =
     (if 0 < cap
      then Some \<lparr>capacity = cap, order = [], lower = bt_new, upper = bt_new, lower_len = 0, upper_len = 0\<rparr>
      else None)"

definition window_new :: "LongTermWeightWindow option" where
  "window_new = with_capacity (unat LONG_TERM_BLOCK_WEIGHT_WINDOW_SIZE)"

definition window_len :: "LongTermWeightWindow \<Rightarrow> usize" where
  "window_len w = lower_len w + upper_len w"

definition window_is_empty :: "LongTermWeightWindow \<Rightarrow> bool" where
  "window_is_empty w = (window_len w = 0)"

definition max_lower :: "LongTermWeightWindow \<Rightarrow> u64 option" where "max_lower w = bt_last_key (lower w)"

definition min_upper :: "LongTermWeightWindow \<Rightarrow> u64 option" where "min_upper w = bt_first_key (upper w)"

text \<open>\<open>*map.entry(v).or_insert(0) += 1\<close>\<close>

definition bump :: "u64 \<Rightarrow> (u64, usize) btree \<Rightarrow> (u64, usize) btree" where
  "bump v m = bt_insert v ((case bt_get m v of None \<Rightarrow> 0 | Some c \<Rightarrow> c) + 1) m"

text \<open>\<open>match map.get_mut(&v) { Some(c) if *c > 1 => *c -= 1, _ => map.remove(&v) }\<close>\<close>

definition unbump :: "u64 \<Rightarrow> (u64, usize) btree \<Rightarrow> (u64, usize) btree" where
  "unbump v m =
     (case bt_get m v of
        Some c \<Rightarrow> if 1 < c then bt_insert v (c - 1) m else bt_remove v m
      | None \<Rightarrow> bt_remove v m)"

definition shift :: "u64 \<Rightarrow> bool \<Rightarrow> LongTermWeightWindow \<Rightarrow> LongTermWeightWindow" where
  "shift v lower_to_upper w =
     (if lower_to_upper
      then w\<lparr>lower := unbump v (lower w), lower_len := lower_len w - 1,
             upper := bump v (upper w), upper_len := upper_len w + 1\<rparr>
      else w\<lparr>upper := unbump v (upper w), upper_len := upper_len w - 1,
             lower := bump v (lower w), lower_len := lower_len w + 1\<rparr>)"

function rebalance_down :: "LongTermWeightWindow \<Rightarrow> LongTermWeightWindow option" where
  "rebalance_down w =
     (if upper_len w + 1 < lower_len w
      then case max_lower w of None \<Rightarrow> None | Some v \<Rightarrow> rebalance_down (shift v True w)
      else Some w)"
  by auto
termination
  by (relation "measure (\<lambda>w. lower_len w - upper_len w)") (auto simp: shift_def)

function rebalance_up :: "LongTermWeightWindow \<Rightarrow> LongTermWeightWindow option" where
  "rebalance_up w =
     (if lower_len w < upper_len w
      then case min_upper w of None \<Rightarrow> None | Some v \<Rightarrow> rebalance_up (shift v False w)
      else Some w)"
  by auto
termination
  by (relation "measure (\<lambda>w. upper_len w - lower_len w)") (auto simp: shift_def)

declare rebalance_down.simps [simp del] rebalance_up.simps [simp del]

definition rebalance :: "LongTermWeightWindow \<Rightarrow> LongTermWeightWindow option" where
  "rebalance w = Option.bind (rebalance_down w) rebalance_up"

definition window_insert :: "u64 \<Rightarrow> LongTermWeightWindow \<Rightarrow> LongTermWeightWindow option" where
  "window_insert v w =
     rebalance
       (if (case max_lower w of Some lo \<Rightarrow> lo < v | None \<Rightarrow> False)
        then w\<lparr>upper := bump v (upper w), upper_len := upper_len w + 1\<rparr>
        else w\<lparr>lower := bump v (lower w), lower_len := lower_len w + 1\<rparr>)"

definition window_remove :: "u64 \<Rightarrow> LongTermWeightWindow \<Rightarrow> LongTermWeightWindow option" where
  "window_remove v w =
     (if bt_contains_key (lower w) v
      then rebalance (w\<lparr>lower := unbump v (lower w), lower_len := lower_len w - 1\<rparr>)
      else if bt_contains_key (upper w) v
      then rebalance (w\<lparr>upper := unbump v (upper w), upper_len := upper_len w - 1\<rparr>)
      else None)"

definition push :: "LongTermWeightWindow \<Rightarrow> u64 \<Rightarrow> LongTermWeightWindow option" where
  "push w long_term_weight =
     Option.bind
       (if length (order w) = capacity w
        then case order w of [] \<Rightarrow> None | old # rest \<Rightarrow> window_remove old (w\<lparr>order := rest\<rparr>)
        else Some w)
       (\<lambda>w. window_insert long_term_weight (w\<lparr>order := order w @ [long_term_weight]\<rparr>))"

definition window_median :: "LongTermWeightWindow \<Rightarrow> u64" where
  "window_median w =
     (case (max_lower w, min_upper w) of
        (None, _) \<Rightarrow> 0
      | (Some lo, mu) \<Rightarrow>
          if window_len w mod 2 = 1 then lo
          else case mu of Some hi \<Rightarrow> get_mid lo hi | None \<Rightarrow> lo)"

definition window_next_long_term_block_weight :: "LongTermWeightWindow \<Rightarrow> u8 \<Rightarrow> u64 \<Rightarrow> u64" where
  "window_next_long_term_block_weight w hf_version block_weight =
     next_long_term_block_weight hf_version block_weight (window_median w)"

section \<open>Invariant\<close>

definition counts_ok :: "(u64, usize) btree \<Rightarrow> bool" where
  "counts_ok m \<longleftrightarrow> bt_inv m \<and> 0 \<notin> ran (bt_get m)"

definition low :: "LongTermWeightWindow \<Rightarrow> u64 multiset" where "low w = bag (bt_get (lower w))"
definition upp :: "LongTermWeightWindow \<Rightarrow> u64 multiset" where "upp w = bag (bt_get (upper w))"

text \<open>The halves hold the values of \<open>M\<close>, split by order, and the lengths count them.\<close>

definition halves :: "u64 multiset \<Rightarrow> LongTermWeightWindow \<Rightarrow> bool" where
  "halves M w \<longleftrightarrow> counts_ok (lower w) \<and> counts_ok (upper w) \<and> low w + upp w = M \<and>
     lower_len w = size (low w) \<and> upper_len w = size (upp w) \<and> (\<forall>x\<in>#low w. \<forall>y\<in>#upp w. x \<le> y)"

definition balanced :: "LongTermWeightWindow \<Rightarrow> bool" where
  "balanced w \<longleftrightarrow> upper_len w \<le> lower_len w \<and> lower_len w \<le> upper_len w + 1"

definition window_inv :: "LongTermWeightWindow \<Rightarrow> bool" where
  "window_inv w \<longleftrightarrow> halves (mset (order w)) w \<and> balanced w \<and> 0 < capacity w \<and> length (order w) \<le> capacity w"

lemma counts_ok_new: "counts_ok bt_new"
  by (simp add: counts_ok_def bt.inv_empty bt.get_empty)

lemma counts_ok_bump: "counts_ok m \<Longrightarrow> counts_ok (bump v m)"
  by (auto simp: counts_ok_def bump_def bt.inv_insert bt.get_insert ran_def split: if_splits)

lemma counts_ok_unbump: "counts_ok m \<Longrightarrow> counts_ok (unbump v m)"
  by (auto simp: counts_ok_def unbump_def bt.inv_insert bt.get_insert bt.inv_remove bt.get_remove ran_def
      split: if_splits option.splits)

lemma bag_of_bump: "counts_ok m \<Longrightarrow> bag (bt_get (bump v m)) = add_mset v (bag (bt_get m))"
  by (simp only: counts_ok_def bump_def bt.bag_bump)

lemma bag_of_unbump: "counts_ok m \<Longrightarrow> v \<in># bag (bt_get m) \<Longrightarrow> bag (bt_get (unbump v m)) = bag (bt_get m) - {#v#}"
  by (auto simp: counts_ok_def unbump_def bt.get_of_member bt.bag_decrement [simplified] bt.bag_drop)

lemma max_lower_Some: "counts_ok (lower w) \<Longrightarrow> max_lower w = Some v \<longleftrightarrow> v \<in># low w \<and> (\<forall>x\<in>#low w. x \<le> v)"
  by (simp add: counts_ok_def max_lower_def low_def bt.last_key_bag)

lemma max_lower_None: "counts_ok (lower w) \<Longrightarrow> max_lower w = None \<longleftrightarrow> low w = {#}"
  by (simp add: counts_ok_def max_lower_def low_def bt.last_key_None_bag)

lemma min_upper_Some: "counts_ok (upper w) \<Longrightarrow> min_upper w = Some v \<longleftrightarrow> v \<in># upp w \<and> (\<forall>x\<in>#upp w. v \<le> x)"
  by (simp add: counts_ok_def min_upper_def upp_def bt.first_key_bag)

lemma min_upper_None: "counts_ok (upper w) \<Longrightarrow> min_upper w = None \<longleftrightarrow> upp w = {#}"
  by (simp add: counts_ok_def min_upper_def upp_def bt.first_key_None_bag)

lemmas ends = max_lower_Some max_lower_None min_upper_Some min_upper_None

section \<open>Rebalancing\<close>

definition same_frame :: "LongTermWeightWindow \<Rightarrow> LongTermWeightWindow \<Rightarrow> bool" where
  "same_frame w w' \<longleftrightarrow> order w' = order w \<and> capacity w' = capacity w"

lemma shift_frame: "same_frame w (shift v b w)"
  by (simp add: same_frame_def shift_def)

lemma shift_down_halves:
  assumes h: "halves M w" and v: "max_lower w = Some v"
  shows "halves M (shift v True w)"
proof -
  from h have ok: "counts_ok (lower w)" "counts_ok (upper w)" by (auto simp: halves_def)
  from v ok have m: "v \<in># low w" "\<forall>x\<in>#low w. x \<le> v" by (simp_all add: ends)
  have l: "low (shift v True w) = low w - {#v#}" "upp (shift v True w) = add_mset v (upp w)"
    using ok m by (simp_all add: low_def upp_def shift_def bag_of_bump bag_of_unbump)
  have sub: "x \<in># low w" if "x \<in># low w - {#v#}" for x using that by (rule in_diffD)
  show ?thesis
    using h m ok sub unfolding halves_def l
    by (auto simp: shift_def counts_ok_bump counts_ok_unbump size_Diff_singleton)
qed

lemma shift_up_halves:
  assumes h: "halves M w" and v: "min_upper w = Some v"
  shows "halves M (shift v False w)"
proof -
  from h have ok: "counts_ok (lower w)" "counts_ok (upper w)" by (auto simp: halves_def)
  from v ok have m: "v \<in># upp w" "\<forall>x\<in>#upp w. v \<le> x" by (simp_all add: ends)
  have l: "upp (shift v False w) = upp w - {#v#}" "low (shift v False w) = add_mset v (low w)"
    using ok m by (simp_all add: low_def upp_def shift_def bag_of_bump bag_of_unbump)
  have sub: "x \<in># upp w" if "x \<in># upp w - {#v#}" for x using that by (rule in_diffD)
  show ?thesis
    using h m ok sub unfolding halves_def l
    by (auto simp: shift_def counts_ok_bump counts_ok_unbump size_Diff_singleton)
qed

lemma rebalance_down_ok:
  "halves M w \<Longrightarrow> \<exists>w'. rebalance_down w = Some w' \<and> halves M w' \<and> same_frame w w' \<and>
     lower_len w' \<le> upper_len w' + 1 \<and> (upper_len w \<le> lower_len w \<longrightarrow> upper_len w' \<le> lower_len w') \<and>
     (\<not> upper_len w + 1 < lower_len w \<longrightarrow> w' = w)"
proof (induction w rule: rebalance_down.induct)
  case (1 w)
  show ?case
  proof (cases "upper_len w + 1 < lower_len w")
    case True
    with 1(2) obtain v where v: "max_lower w = Some v"
      by (cases "max_lower w") (auto simp: halves_def ends)
    from shift_down_halves [OF 1(2) v] obtain w' where
      "rebalance_down (shift v True w) = Some w'" "halves M w'" "same_frame (shift v True w) w'"
      "lower_len w' \<le> upper_len w' + 1"
      "upper_len (shift v True w) \<le> lower_len (shift v True w) \<longrightarrow> upper_len w' \<le> lower_len w'"
      using 1(1) [OF True v] by blast
    moreover have "upper_len (shift v True w) \<le> lower_len (shift v True w)"
      using True by (simp add: shift_def)
    ultimately show ?thesis
      using True v shift_frame [of w v True] by (simp add: rebalance_down.simps [of w] same_frame_def)
  next
    case False
    with 1(2) show ?thesis by (simp add: rebalance_down.simps [of w] same_frame_def)
  qed
qed

lemma rebalance_up_ok:
  "halves M w \<Longrightarrow> lower_len w \<le> upper_len w + 1 \<Longrightarrow>
     \<exists>w'. rebalance_up w = Some w' \<and> halves M w' \<and> same_frame w w' \<and> balanced w'"
proof (induction w rule: rebalance_up.induct)
  case (1 w)
  show ?case
  proof (cases "lower_len w < upper_len w")
    case True
    with 1(2) obtain v where v: "min_upper w = Some v"
      by (cases "min_upper w") (auto simp: halves_def ends)
    have "lower_len (shift v False w) \<le> upper_len (shift v False w) + 1"
      using True by (simp add: shift_def)
    with 1(1) [OF True v] shift_up_halves [OF 1(2) v] show ?thesis
      using True v shift_frame [of w v False] by (auto simp: rebalance_up.simps [of w] same_frame_def)
  next
    case False
    with 1(2,3) show ?thesis by (simp add: rebalance_up.simps [of w] same_frame_def balanced_def)
  qed
qed

lemma rebalance_ok:
  assumes "halves M w"
  shows "\<exists>w'. rebalance w = Some w' \<and> halves M w' \<and> same_frame w w' \<and> balanced w'"
proof -
  from rebalance_down_ok [OF assms] obtain u where u: "rebalance_down w = Some u" "halves M u" "same_frame w u"
    "lower_len u \<le> upper_len u + 1" by blast
  from rebalance_up_ok [OF u(2,4)] u show ?thesis by (auto simp: rebalance_def same_frame_def)
qed

lemma window_insert_ok:
  assumes h: "halves M w" and b: "balanced w"
  shows "\<exists>w'. window_insert v w = Some w' \<and> halves (add_mset v M) w' \<and> same_frame w w' \<and> balanced w'"
proof -
  let ?u = "if (case max_lower w of Some lo \<Rightarrow> lo < v | None \<Rightarrow> False)
    then w\<lparr>upper := bump v (upper w), upper_len := upper_len w + 1\<rparr>
    else w\<lparr>lower := bump v (lower w), lower_len := lower_len w + 1\<rparr>"
  from h have ok: "counts_ok (lower w)" "counts_ok (upper w)" by (auto simp: halves_def)
  have "halves (add_mset v M) ?u"
  proof (cases "max_lower w")
    case None
    with ok h b have "low w = {#}" "upp w = {#}" by (auto simp: ends halves_def balanced_def)
    with None h ok show ?thesis
      by (auto simp: halves_def low_def upp_def bag_of_bump counts_ok_bump)
  next
    case (Some lo)
    then have lo: "lo \<in># low w" "\<forall>x\<in>#low w. x \<le> lo" using ok by (simp_all add: ends)
    show ?thesis
    proof (cases "lo < v")
      case True
      with lo have "\<forall>x\<in>#low w. x \<le> v" by auto
      with True Some h ok show ?thesis
        by (auto simp: halves_def low_def upp_def bag_of_bump counts_ok_bump)
    next
      case False
      moreover have "\<forall>y\<in>#upp w. lo \<le> y" using lo h by (auto simp: halves_def)
      ultimately have "\<forall>y\<in>#upp w. v \<le> y" by (auto simp: not_less intro: order_trans)
      with False Some h ok show ?thesis
        by (auto simp: halves_def low_def upp_def bag_of_bump counts_ok_bump)
    qed
  qed
  from rebalance_ok [OF this] show ?thesis
    by (simp add: window_insert_def same_frame_def split: if_splits)
qed

lemma window_remove_ok:
  assumes h: "halves M w" and v: "v \<in># M"
  shows "\<exists>w'. window_remove v w = Some w' \<and> halves (M - {#v#}) w' \<and> same_frame w w' \<and> balanced w'"
proof -
  from h have ok: "counts_ok (lower w)" "counts_ok (upper w)" by (auto simp: halves_def)
  have keys: "bt_contains_key (lower w) v \<longleftrightarrow> v \<in># low w" "bt_contains_key (upper w) v \<longleftrightarrow> v \<in># upp w"
    using ok by (auto simp: bt_contains_key_def low_def upp_def counts_ok_def bt.get_of_member)
  show ?thesis
  proof (cases "v \<in># low w")
    case True
    let ?u = "w\<lparr>lower := unbump v (lower w), lower_len := lower_len w - 1\<rparr>"
    have l: "low ?u = low w - {#v#}" "upp ?u = upp w" using ok True by (simp_all add: low_def upp_def bag_of_unbump)
    have "halves (M - {#v#}) ?u"
      using h ok True unfolding halves_def l
      by (auto simp: counts_ok_unbump size_Diff_singleton dest: in_diffD)
    from rebalance_ok [OF this] True keys show ?thesis by (simp add: window_remove_def same_frame_def)
  next
    case False
    with v h have u: "v \<in># upp w" by (auto simp: halves_def)
    let ?u = "w\<lparr>upper := unbump v (upper w), upper_len := upper_len w - 1\<rparr>"
    have l: "upp ?u = upp w - {#v#}" "low ?u = low w" using ok u by (simp_all add: low_def upp_def bag_of_unbump)
    have "halves (M - {#v#}) ?u"
      using h ok u unfolding halves_def l
      by (auto simp: counts_ok_unbump size_Diff_singleton dest: in_diffD)
    from rebalance_ok [OF this] False u keys show ?thesis by (simp add: window_remove_def same_frame_def)
  qed
qed

section \<open>The window is a queue of bounded length\<close>

text \<open>The abstract window: the last \<open>n\<close> pushed values.\<close>

definition last_n :: "nat \<Rightarrow> 'a list \<Rightarrow> 'a list" where
  "last_n n xs = drop (length xs - n) xs"

lemma with_capacity_inv: "with_capacity n = Some w \<Longrightarrow> window_inv w \<and> order w = [] \<and> capacity w = n"
  by (auto simp: with_capacity_def window_inv_def halves_def low_def upp_def bt.bag_empty balanced_def
      counts_ok_new split: if_splits)

lemma push_ok:
  assumes "window_inv w"
  shows "\<exists>w'. push w v = Some w' \<and> window_inv w' \<and> capacity w' = capacity w \<and>
    order w' = last_n (capacity w) (order w @ [v])"
proof -
  from assms have h: "halves (mset (order w)) w" and b: "balanced w" and c: "0 < capacity w"
    and l: "length (order w) \<le> capacity w" by (auto simp: window_inv_def)
  have frame: "halves M (w\<lparr>order := xs\<rparr>) \<longleftrightarrow> halves M w" "balanced (w\<lparr>order := xs\<rparr>) \<longleftrightarrow> balanced w" for M w xs
    by (simp_all add: halves_def low_def upp_def balanced_def)
  obtain u where u: "(if length (order w) = capacity w
      then case order w of [] \<Rightarrow> None | old # rest \<Rightarrow> window_remove old (w\<lparr>order := rest\<rparr>) else Some w) = Some u"
    "halves (mset (order u)) u" "balanced u" "capacity u = capacity w"
    "order u @ [v] = last_n (capacity w) (order w @ [v])"
  proof (cases "length (order w) = capacity w")
    case True
    with c obtain old rest where o: "order w = old # rest" by (cases "order w") auto
    have "halves (mset (order w)) (w\<lparr>order := rest\<rparr>)" using h frame by simp
    from window_remove_ok [OF this, of old] o obtain u where
      "window_remove old (w\<lparr>order := rest\<rparr>) = Some u" "halves (mset rest) u" "balanced u"
      "same_frame (w\<lparr>order := rest\<rparr>) u" by auto
    with True o show ?thesis by (intro that [of u]) (auto simp: same_frame_def last_n_def)
  next
    case False
    with h b l show ?thesis by (intro that [of w]) (auto simp: last_n_def)
  qed
  have "halves (mset (order u)) (u\<lparr>order := order u @ [v]\<rparr>)" "balanced (u\<lparr>order := order u @ [v]\<rparr>)"
    using u frame by simp_all
  from window_insert_ok [OF this, of v] obtain w' where
    "window_insert v (u\<lparr>order := order u @ [v]\<rparr>) = Some w'" "halves (mset (order u @ [v])) w'" "balanced w'"
    "order w' = order u @ [v]" "capacity w' = capacity u" by (auto simp: same_frame_def)
  with u c show ?thesis
    by (auto simp: push_def window_inv_def last_n_def)
qed

section \<open>The median\<close>

lemma sort_split:
  assumes "mset xs = A + B" "\<forall>x\<in>#A. \<forall>y\<in>#B. x \<le> (y :: 'a::linorder)"
  shows "sort xs = sorted_list_of_multiset A @ sorted_list_of_multiset B"
  using assms by (intro properties_for_sort) (auto simp: sorted_append)

lemma last_sorted_multiset:
  assumes "v \<in># A" "\<forall>x\<in>#A. x \<le> v"
  shows "sorted_list_of_multiset A ! (size A - 1) = v"
proof -
  let ?s = "sorted_list_of_multiset A"
  have len: "length ?s = size A" by (metis mset_sorted_list_of_multiset size_mset)
  from assms(1) obtain i where i: "i < length ?s" "?s ! i = v" by (auto simp: in_set_conv_nth simp flip: set_sorted_list_of_multiset)
  then have "?s ! i \<le> ?s ! (length ?s - 1)" by (intro sorted_nth_mono) auto
  moreover have "?s ! (length ?s - 1) \<in> set ?s" using i by (intro nth_mem) simp
  then have "?s ! (length ?s - 1) \<le> v" using assms(2) by simp
  ultimately show ?thesis using i len by simp
qed

lemma first_sorted_multiset:
  assumes "v \<in># A" "\<forall>x\<in>#A. v \<le> x"
  shows "sorted_list_of_multiset A ! 0 = v"
proof -
  let ?s = "sorted_list_of_multiset A"
  from assms(1) obtain i where i: "i < length ?s" "?s ! i = v" by (auto simp: in_set_conv_nth simp flip: set_sorted_list_of_multiset)
  then have "?s ! 0 \<le> ?s ! i" by (intro sorted_nth_mono) auto
  moreover have "?s ! 0 \<in> set ?s" using i by (cases ?s) auto
  then have "v \<le> ?s ! 0" using assms(2) by simp
  ultimately show ?thesis using i by simp
qed

lemma halves_median:
  assumes h: "halves (mset xs) w" and b: "balanced w"
  shows "window_median w = median xs"
proof (cases "max_lower w")
  case None
  with h b have "low w = {#}" "upp w = {#}" by (auto simp: ends halves_def balanced_def)
  with h have "xs = []" by (simp add: halves_def)
  with None show ?thesis by (simp add: window_median_def median_def)
next
  case (Some lo)
  let ?A = "sorted_list_of_multiset (low w)" and ?B = "sorted_list_of_multiset (upp w)"
  from h have ok: "counts_ok (lower w)" "counts_ok (upper w)"
    and lens: "lower_len w = size (low w)" "upper_len w = size (upp w)"
    and split: "mset xs = low w + upp w" "\<forall>x\<in>#low w. \<forall>y\<in>#upp w. x \<le> y" by (auto simp: halves_def)
  have s: "sort xs = ?A @ ?B" using split by (rule sort_split)
  have lA: "length ?A = lower_len w" and lB: "length ?B = upper_len w"
    unfolding lens by (metis mset_sorted_list_of_multiset size_mset)+
  have len: "length xs = lower_len w + upper_len w" using lA lB s by (metis length_append length_sort)
  from Some ok have lo: "lo \<in># low w" "\<forall>x\<in>#low w. x \<le> lo" by (simp_all add: ends)
  have A: "?A ! (lower_len w - 1) = lo" unfolding lens using lo by (rule last_sorted_multiset)
  have pos: "0 < lower_len w" using lo lens by (cases "low w") auto
  then have ne: "xs \<noteq> []" using len by auto
  show ?thesis
  proof (cases "length xs mod 2 = 1")
    case True
    with b len have "lower_len w = upper_len w + 1" by (auto simp: balanced_def le_Suc_eq)
    with True A pos show ?thesis
      using Some by (simp add: window_median_def window_len_def median_sort [OF ne] s len lA nth_append Let_def)
  next
    case False
    have e: "lower_len w = upper_len w"
    proof (rule ccontr)
      assume "lower_len w \<noteq> upper_len w"
      with b have "lower_len w = upper_len w + 1" by (auto simp: balanced_def)
      with False len show False by presburger
    qed
    with pos lens ok have "min_upper w \<noteq> None" by (auto simp: ends)
    then obtain hi where hi: "min_upper w = Some hi" by blast
    with ok have "hi \<in># upp w" "\<forall>x\<in>#upp w. hi \<le> x" by (simp_all add: ends)
    then have B: "?B ! 0 = hi" by (rule first_sorted_multiset)
    from False e A B pos hi show ?thesis
      using Some by (simp add: window_median_def window_len_def median_sort [OF ne] s len lA nth_append Let_def mult_2 [symmetric])
  qed
qed

section \<open>Properties\<close>

definition push_all :: "u64 list \<Rightarrow> LongTermWeightWindow \<Rightarrow> LongTermWeightWindow option" where
  "push_all vs w = foldl (\<lambda>mw v. Option.bind mw (\<lambda>w. push w v)) (Some w) vs"

lemma last_n_step: "last_n n (last_n n xs @ [v]) = last_n n (xs @ [v])"
  by (cases "length xs \<le> n") (auto simp: last_n_def Suc_diff_le)

lemma push_all_ok:
  assumes "window_inv w" "order w = []"
  shows "\<exists>w'. push_all vs w = Some w' \<and> window_inv w' \<and> capacity w' = capacity w \<and>
    order w' = last_n (capacity w) vs"
proof (induction vs rule: rev_induct)
  case Nil
  with assms show ?case by (simp add: push_all_def last_n_def)
next
  case (snoc v vs)
  then obtain w' where "push_all vs w = Some w'" "window_inv w'" "capacity w' = capacity w"
    "order w' = last_n (capacity w) vs" by blast
  with push_ok [of w' v] show ?case by (auto simp: push_all_def last_n_step)
qed

text \<open>C13. The window is a rolling median. A window of any capacity takes every sequence of pushes
  without reaching one of its panics or its \<open>unreachable!\<close>, holds the last \<open>capacity\<close> values in
  order, and the median it reads off the two halves is the median by sorting of those values.\<close>

theorem window_refines:
  assumes "with_capacity n = Some w0"
  shows "\<exists>w. push_all vs w0 = Some w \<and> order w = last_n n vs \<and> window_median w = median (last_n n vs)"
proof -
  from with_capacity_inv [OF assms] push_all_ok [of w0 vs] obtain w where
    "push_all vs w0 = Some w" "window_inv w" "order w = last_n n vs" by auto
  moreover from this have "window_median w = median (last_n n vs)"
    by (metis halves_median window_inv_def)
  ultimately show ?thesis by blast
qed

theorem window_refines_witness:
  "\<exists>w0 w. with_capacity 3 = Some w0 \<and> push_all [5, 9, 1, 7] w0 = Some w \<and> order w = [9, 1, 7] \<and> window_median w = 7"
proof -
  obtain w0 where w0: "with_capacity 3 = Some w0" by (simp add: with_capacity_def)
  have "last_n 3 [5, 9, 1, 7 :: u64] = [9, 1, 7]" "median [9, 1, 7 :: u64] = 7"
    by (simp_all add: last_n_def median_def word_le_nat_alt)
  with window_refines [OF w0, of "[5, 9, 1, 7]"] w0 show ?thesis by auto
qed

text \<open>The limit of the next block: with both medians below \<open>2 ^ 56\<close>, the median is never below
  the full reward zone, the limit is exactly twice it, and from fork 13 on the median stays within
  fifty times the long-term effective median, whatever the last hundred blocks weigh.\<close>

theorem weight_limit_bounds:
  assumes "\<forall>x\<in>set ws. x < 2 ^ 56" "ltm < 2 ^ 56"
  shows "let l = update_next_cumulative_weight_limit v ws ltm in
    get_min_block_weight v \<le> wl_median l \<and> unat (wl_limit l) = 2 * unat (wl_median l) \<and>
    (\<forall>e. long_term_effective_median l = Some e \<longrightarrow> 300000 \<le> e \<and> unat (wl_median l) \<le> 50 * unat e) \<and>
    (long_term_effective_median l = None \<longleftrightarrow> v < 13)"
proof -
  let ?l = "update_next_cumulative_weight_limit v ws ltm"
  have m: "median ws < 2 ^ 56"
  proof (cases "ws = []")
    case False
    have "\<forall>x\<in>set ws. 0 \<le> x \<and> x \<le> 2 ^ 56 - 1"
      using assms(1) by (auto simp: word_le_nat_alt word_less_nat_alt dest!: bspec)
    from median_between [OF False this] show ?thesis by (simp add: word_le_nat_alt word_less_nat_alt)
  qed (simp add: median_def)
  define e where "e = max 300000 ltm"
  have e: "300000 \<le> e" "unat e < 2 ^ 56" "unat (50 * e) = 50 * unat e"
    using assms(2) by (auto simp: e_def max_def word_less_nat_alt word_le_nat_alt unat_word_ariths)
  have e': "300000 \<le> unat e" using e(1) by (simp add: word_le_nat_alt)
  define x where "x = (if v < 13 then median ws else if 20 \<le> v then min (max e (median ws)) (50 * e)
    else min (max 300000 (median ws)) (50 * e))"
  have x: "unat x < 2 ^ 56" "v < 13 \<or> unat x \<le> 50 * unat e"
    using m e by (auto simp: x_def min_def max_def word_le_nat_alt word_less_nat_alt)
  define y where "y = (if x \<le> get_min_block_weight v then get_min_block_weight v else x)"
  have lt: "?l = \<lparr>wl_median = y, wl_limit = y * 2, long_term_effective_median = (if v < 13 then None else Some e)\<rparr>"
    by (simp add: update_next_cumulative_weight_limit_def x_def y_def e_def Let_def HF_VERSION_LONG_TERM_BLOCK_WEIGHT_def
        HF_VERSION_2021_SCALING_def BLOCK_GRANTED_FULL_REWARD_ZONE_V5_def SHORT_TERM_BLOCK_WEIGHT_SURGE_FACTOR_def)
  have z: "unat (get_min_block_weight v) \<le> 300000" using min_block_weight_bounds [of v] by (simp add: word_le_nat_alt)
  have y: "get_min_block_weight v \<le> y" "unat y < 2 ^ 56" "v < 13 \<or> unat y \<le> 50 * unat e"
    using x z e' by (auto simp: y_def)
  then show ?thesis using e by (auto simp: lt Let_def unat_word_ariths)
qed

theorem weight_limit_bounds_witness:
  "(\<lambda>l. 300000 \<le> wl_median l \<and> unat (wl_limit l) = 2 * unat (wl_median l) \<and>
     long_term_effective_median l = Some 300000 \<and> unat (wl_median l) \<le> 50 * 300000)
   (update_next_cumulative_weight_limit 20 [400000, 20000000, 90000000] 1000)"
  using weight_limit_bounds [of "[400000, 20000000, 90000000]" 1000 20]
  by (simp add: update_next_cumulative_weight_limit_def HF_VERSION_LONG_TERM_BLOCK_WEIGHT_def
        HF_VERSION_2021_SCALING_def BLOCK_GRANTED_FULL_REWARD_ZONE_V5_def SHORT_TERM_BLOCK_WEIGHT_SURGE_FACTOR_def
        get_min_block_weight_def median_def Let_def)

text \<open>The long-term weight stored for a block moves slowly: from fork 20 it stays between the
  long-term median divided by 1.7 and 1.7 times that median (both rounded down), and between forks
  13 and 19 it is at most 1.4 times the median, whatever the block weighs.\<close>

theorem long_term_weight_clamped:
  assumes "ltm < 2 ^ 56"
  shows "let e = max 300000 (unat ltm); w = unat (next_long_term_block_weight v bw ltm) in
    (20 \<le> v \<longrightarrow> w = min (max (unat bw) (e * 10 div 17)) (e + e * 7 div 10)) \<and>
    (13 \<le> v \<and> v < 20 \<longrightarrow> w = min (unat bw) (e + e * 2 div 5)) \<and>
    (v < 13 \<longrightarrow> w = unat bw)"
proof -
  define E where "E = max 300000 ltm"
  have E: "unat E = max 300000 (unat ltm)" "unat E < 2 ^ 56"
    using assms by (auto simp: E_def max_def word_less_nat_alt word_le_nat_alt)
  have a: "unat (E * 10 div 17) = unat E * 10 div 17" "unat (E + E * 7 div 10) = unat E + unat E * 7 div 10"
    "unat (E + E * 2 div 5) = unat E + unat E * 2 div 5"
    using E(2) by (auto simp: unat_div unat_word_ariths)
  have mm: "unat (min x y) = min (unat x) (unat y)" "unat (max x y) = max (unat x) (unat y)" for x y :: u64
    by (auto simp: min_def max_def word_le_nat_alt)
  have "next_long_term_block_weight v bw ltm =
      (if v < 13 then bw else if 20 \<le> v then min (max bw (E * 10 div 17)) (E + E * 7 div 10) else min bw (E + E * 2 div 5))"
    by (simp add: next_long_term_block_weight_def E_def Let_def HF_VERSION_LONG_TERM_BLOCK_WEIGHT_def
        HF_VERSION_2021_SCALING_def BLOCK_GRANTED_FULL_REWARD_ZONE_V5_def)
  moreover have "20 \<le> v \<Longrightarrow> \<not> v < 13" "13 \<le> v \<Longrightarrow> \<not> v < 13" "v < 20 \<Longrightarrow> \<not> 20 \<le> v"
    by (auto simp: word_le_nat_alt word_less_nat_alt)
  ultimately show ?thesis unfolding E(1) [symmetric] Let_def
    by (simp add: a mm)
qed

theorem long_term_weight_clamped_witness:
  "unat (next_long_term_block_weight 20 9000000 400000) = 680000 \<and> unat (next_long_term_block_weight 13 9000000 400000) = 560000"
  using long_term_weight_clamped [of 400000 20 9000000] long_term_weight_clamped [of 400000 13 9000000] by simp

end
