(* ===== verification/Timestamp.thy ===== *)
theory Timestamp
  imports Emission
begin

text \<open>
  Block timestamp rules, the adjusted time and the unlock rule,
  \<open>crates/wow-consensus/src/timestamp.rs\<close>. The wall clock is an argument, as in the code.
\<close>

section \<open>Definitions\<close>

definition future_time_limit :: "u8 \<Rightarrow> u64" where
  "future_time_limit hf_version =
     (if 8 \<le> hf_version then CRYPTONOTE_BLOCK_FUTURE_TIME_LIMIT_V2 else CRYPTONOTE_BLOCK_FUTURE_TIME_LIMIT)"

definition timestamp_check_window :: "u8 \<Rightarrow> usize" where
  "timestamp_check_window hf_version =
     (if 10 \<le> hf_version then BLOCKCHAIN_TIMESTAMP_CHECK_WINDOW_V2 else BLOCKCHAIN_TIMESTAMP_CHECK_WINDOW)"

datatype TimestampError = TooFarInTheFuture u64 | BelowMedian u64

definition check_block_timestamp :: "u8 \<Rightarrow> u64 \<Rightarrow> u64 \<Rightarrow> u64 list \<Rightarrow> TimestampError + unit" where
  "check_block_timestamp hf_version timestamp now recent_timestamps =
     (let ftl = future_time_limit hf_version; limit = saturating_add now ftl in
      if limit < timestamp then Inl (TooFarInTheFuture limit)
      else
        let window = timestamp_check_window hf_version in
        if length recent_timestamps < window then Inr ()
        else let m = median recent_timestamps in
          if timestamp < m then Inl (BelowMedian m) else Inr ())"

definition get_adjusted_time :: "u8 \<Rightarrow> u64 \<Rightarrow> u64 list \<Rightarrow> u64 \<Rightarrow> u64" where
  "get_adjusted_time hf_version height window_timestamps wall_clock_now =
     (let window = timestamp_check_window hf_version in
      if height < word_of_nat window \<or> window_timestamps = [] then wall_clock_now
      else
        let median_ts = median window_timestamps + (word_of_nat window + 1) * DIFFICULTY_TARGET_V2 div 2;
            adjusted = last window_timestamps + DIFFICULTY_TARGET_V2
        in min adjusted median_ts)"

definition is_tx_spendtime_unlocked :: "u64 \<Rightarrow> u64 \<Rightarrow> u64 \<Rightarrow> bool" where
  "is_tx_spendtime_unlocked unlock_time db_height now =
     (if unlock_time < CRYPTONOTE_MAX_BLOCK_NUMBER
      then unlock_time \<le> saturating_sub db_height 1 + CRYPTONOTE_LOCKED_TX_ALLOWED_DELTA_BLOCKS
      else unlock_time \<le> saturating_add now CRYPTONOTE_LOCKED_TX_ALLOWED_DELTA_SECONDS_V2)"

section \<open>Properties\<close>

lemmas timestamp_constants = BLOCKCHAIN_TIMESTAMP_CHECK_WINDOW_V2_def BLOCKCHAIN_TIMESTAMP_CHECK_WINDOW_def
  CRYPTONOTE_BLOCK_FUTURE_TIME_LIMIT_V2_def CRYPTONOTE_BLOCK_FUTURE_TIME_LIMIT_def
  CRYPTONOTE_LOCKED_TX_ALLOWED_DELTA_BLOCKS_def CRYPTONOTE_LOCKED_TX_ALLOWED_DELTA_SECONDS_V2_def
  CRYPTONOTE_MAX_BLOCK_NUMBER_def DIFFICULTY_TARGET_V2_def

lemma le_saturating_add: "(t :: 'a::len word) \<le> saturating_add a b \<longleftrightarrow> unat t \<le> unat a + unat b"
proof -
  have "unat t \<le> 2 ^ LENGTH('a) - 1" for t :: "'a word" using unat_bound [of t] by linarith
  then show ?thesis by (simp add: word_le_nat_alt unat_saturating_add)
qed

lemma timestamp_accepted_iff:
  "check_block_timestamp v t now recent = Inr () \<longleftrightarrow>
     unat t \<le> unat now + unat (future_time_limit v) \<and>
     (timestamp_check_window v \<le> length recent \<longrightarrow> median recent \<le> t)"
  using le_saturating_add [of t now "future_time_limit v"]
  by (auto simp: check_block_timestamp_def Let_def not_less)

text \<open>The rule accepts exactly the timestamps that are at most the future limit ahead of the
  clock, as numbers without wrap-around, and, once the window is full, not below its median: 600
  seconds from fork 8 and 7200 before, eleven blocks from fork 10 and sixty before.\<close>

theorem timestamp_rule:
  "check_block_timestamp v t now recent = Inr () \<longleftrightarrow>
     unat t \<le> unat now + (if 8 \<le> v then 600 else 7200) \<and>
     (length recent < (if 10 \<le> v then 11 else 60) \<or> median recent \<le> t)"
  by (auto simp: timestamp_accepted_iff future_time_limit_def timestamp_check_window_def timestamp_constants)

text \<open>A chain of one block every target interval.\<close>

definition steady_times :: "u64 \<Rightarrow> nat \<Rightarrow> u64 list" where
  "steady_times t n = map (\<lambda>i. t + word_of_nat (300 * i)) [0..<n]"

lemma length_steady_times [simp]: "length (steady_times t n) = n"
  by (simp add: steady_times_def)

lemma nth_steady_times [simp]: "i < n \<Longrightarrow> steady_times t n ! i = t + 300 * word_of_nat i"
  by (simp add: steady_times_def)

lemma last_steady_times: "0 < n \<Longrightarrow> last (steady_times t n) = t + 300 * word_of_nat (n - 1)"
  by (subst last_conv_nth) (auto dest: arg_cong [where f = length])

lemma unat_steady_times: "unat (t :: u64) < 2 ^ 63 \<Longrightarrow> i < 61 \<Longrightarrow> unat (t + 300 * word_of_nat i) = unat t + 300 * i"
  by (simp add: unat_word_ariths unat_of_nat)

lemma sort_steady_times: "unat t < 2 ^ 63 \<Longrightarrow> n \<le> 60 \<Longrightarrow> sort (steady_times t n) = steady_times t n"
  by (intro sorted_sort_id) (auto simp: sorted_iff_nth_mono word_le_nat_alt unat_steady_times)

lemma steady_times_nonempty: "0 < n \<Longrightarrow> steady_times t n \<noteq> []"
  by (auto dest: arg_cong [where f = length])

lemma median_steady_11: "unat t < 2 ^ 63 \<Longrightarrow> median (steady_times t 11) = t + 1500"
  by (simp add: median_sort sort_steady_times steady_times_nonempty Let_def)

lemma median_steady_60: "unat t < 2 ^ 63 \<Longrightarrow> median (steady_times t 60) = t + 8850"
proof -
  assume t: "unat t < 2 ^ 63"
  have "unat (get_mid (t + 8700) (t + 9000)) = unat (t + 8850)"
    using t by (simp add: unat_get_mid unat_word_ariths)
  then have "get_mid (t + 8700) (t + 9000) = t + 8850" by (simp only: word_unat_eq_iff)
  with t show ?thesis by (simp add: median_sort sort_steady_times steady_times_nonempty Let_def)
qed

text \<open>On a chain with a block every 300 seconds the adjusted time of a full window is the time
  the next block is due, with either window: the projection from the median and the projection from
  the last block coincide, and the wall clock plays no part.\<close>

theorem adjusted_time_steady:
  assumes "n = timestamp_check_window v" "word_of_nat n \<le> height" "t < 2 ^ 63"
  shows "get_adjusted_time v height (steady_times t n) now = t + word_of_nat (300 * n)"
proof -
  have t: "unat t < 2 ^ 63" using assms(3) by (simp add: word_less_nat_alt)
  consider "n = 11" | "n = 60"
    using assms(1) by (auto simp: timestamp_check_window_def timestamp_constants split: if_splits)
  then show ?thesis
  proof cases
    case 1
    then show ?thesis
      using assms(1) leD [OF assms(2)] median_steady_11 [OF t]
      by (simp add: get_adjusted_time_def Let_def timestamp_constants last_steady_times steady_times_nonempty)
  next
    case 2
    then show ?thesis
      using assms(1) leD [OF assms(2)] median_steady_60 [OF t]
      by (simp add: get_adjusted_time_def Let_def timestamp_constants last_steady_times steady_times_nonempty)
  qed
qed

theorem adjusted_time_steady_witness:
  "get_adjusted_time 20 514000 (steady_times 1700000000 11) 5 = 1700003300"
  using adjusted_time_steady [of 11 20 514000 1700000000 5] by (simp add: timestamp_check_window_def timestamp_constants)

text \<open>Unlocking is final: an output unlocked at one height and time stays unlocked at every later
  height and time, and an unlock time of zero is never locked.\<close>

theorem unlock_is_final:
  assumes "h \<le> h'" "now \<le> now'"
  shows "(is_tx_spendtime_unlocked u h now \<longrightarrow> is_tx_spendtime_unlocked u h' now') \<and> is_tx_spendtime_unlocked 0 h now"
proof -
  have s: "unat (saturating_sub x 1 + 1) = (if x = 0 then 1 else unat x)" for x :: u64
  proof -
    have "unat (saturating_sub x 1) + 1 < 2 ^ 64"
      using unat_bound [of x] by (simp add: unat_saturating_sub)
    then have "unat (saturating_sub x 1 + 1) = unat x - 1 + 1"
      by (subst unat_add_no_wrap) (simp_all add: unat_saturating_sub)
    then show ?thesis by (auto simp: unat_gt_0 Suc_pred)
  qed
  have "u < 500000000 \<Longrightarrow> u \<le> saturating_sub h 1 + 1 \<Longrightarrow> u \<le> saturating_sub h' 1 + 1"
    using assms(1) by (auto simp: word_le_nat_alt s split: if_splits)
      (metis Suc_leI dual_order.trans unat_gt_0)
  moreover have "u \<le> saturating_add now 300 \<Longrightarrow> u \<le> saturating_add now' 300"
    using assms(2) by (simp only: le_saturating_add word_le_nat_alt [of now])
  ultimately show ?thesis by (simp add: is_tx_spendtime_unlocked_def timestamp_constants)
qed

theorem unlock_is_final_witness:
  "is_tx_spendtime_unlocked 288 288 0 \<and> is_tx_spendtime_unlocked 288 300 7"
proof -
  have a: "is_tx_spendtime_unlocked 288 288 0"
    by (simp add: is_tx_spendtime_unlocked_def timestamp_constants saturating_sub_def)
  with unlock_is_final [of 288 300 0 7 288] show ?thesis by simp
qed

end
