(* ===== verification/Fee.thy ===== *)
theory Fee
  imports Emission
begin

text \<open>
  Dynamic fees, \<open>crates/wow-consensus/src/fee.rs\<close>: the base fee, the mempool and block acceptance
  rule \<open>check_fee\<close> and the wallet's four fee tiers with their decimal rounding. \<open>None\<close> stands for the
  panics: a division by zero in \<open>fee_tiers_2021\<close> and the \<open>assert!\<close> of \<open>round_money_up\<close>.
\<close>

section \<open>Base fee\<close>

definition FEE_QUANTIZATION_MASK :: u64 where "FEE_QUANTIZATION_MASK = 1000"
definition BLOCK_REWARD_OVERESTIMATE :: u64 where "BLOCK_REWARD_OVERESTIMATE = 10 * 1000000000000"
definition SCALING_2021_FEE_ROUNDING_PLACES :: nat where "SCALING_2021_FEE_ROUNDING_PLACES = 2"

definition quantize_up :: "u64 \<Rightarrow> u64" where
  "quantize_up v =
     (case checked_add v (FEE_QUANTIZATION_MASK - 1) of
        Some x \<Rightarrow> x div FEE_QUANTIZATION_MASK * FEE_QUANTIZATION_MASK
      | None \<Rightarrow> (- 1) div FEE_QUANTIZATION_MASK * FEE_QUANTIZATION_MASK)"

definition get_dynamic_base_fee :: "u64 \<Rightarrow> u64 \<Rightarrow> u8 \<Rightarrow> u64" where
  "get_dynamic_base_fee block_reward median_block_weight version =
     (let min_block_weight = get_min_block_weight version;
          median_block_weight = max median_block_weight min_block_weight
      in if HF_VERSION_PER_BYTE_FEE \<le> version then
           let v = (ucast block_reward :: u128) * ucast DYNAMIC_FEE_REFERENCE_TRANSACTION_WEIGHT;
               v = v div ucast median_block_weight
           in if HF_VERSION_2021_SCALING \<le> version then
                let v = v div ucast median_block_weight; lo = ucast v :: u64; lo = lo - lo div 20
                in if lo = 0 then 1 else lo
              else
                let v = v div ucast min_block_weight; lo = ucast v :: u64 in lo div 5
         else
           let fee_base = (if 5 \<le> version then DYNAMIC_FEE_PER_KB_BASE_FEE_V5 else DYNAMIC_FEE_PER_KB_BASE_FEE);
               unscaled_fee_base = fee_base * min_block_weight div median_block_weight;
               lo = ucast ((ucast unscaled_fee_base :: u128) * ucast block_reward
                           div ucast DYNAMIC_FEE_PER_KB_BASE_BLOCK_REWARD) :: u64
           in quantize_up lo)"

section \<open>The acceptance rule\<close>

record FeeContext =
  fc_version :: u8
  fc_cumulative_weight_limit :: u64
  fc_long_term_effective_median :: u64
  fc_already_generated_coins :: u64

definition fc_median :: "FeeContext \<Rightarrow> u64" where
  "fc_median ctx = fc_cumulative_weight_limit ctx div 2"

definition fee_median :: "FeeContext \<Rightarrow> u64" where
  "fee_median ctx =
     (if HF_VERSION_LONG_TERM_BLOCK_WEIGHT \<le> fc_version ctx
      then min (fc_median ctx) (fc_long_term_effective_median ctx)
      else fc_median ctx)"

definition fc_base_reward :: "FeeContext \<Rightarrow> RewardError + u64" where
  "fc_base_reward ctx =
     (if fc_version ctx < HF_VERSION_DYNAMIC_FEE then Inr 0
      else get_block_reward (fc_median ctx) 1 (fc_already_generated_coins ctx) (fc_version ctx))"

record RequiredFee =
  needed :: u64
  accepted_minimum :: u64
  unit_fee :: u64

definition required_fee :: "FeeContext \<Rightarrow> u64 \<Rightarrow> RewardError + RequiredFee" where
  "required_fee ctx tx_weight =
     and_then (fc_base_reward ctx) (\<lambda>reward.
       let (n, u) =
         (if HF_VERSION_PER_BYTE_FEE \<le> fc_version ctx then
            let fee_per_byte = get_dynamic_base_fee reward (fee_median ctx) (fc_version ctx)
            in (quantize_up (saturating_mul tx_weight fee_per_byte), fee_per_byte)
          else
            let fee_per_kb =
                  (if fc_version ctx < HF_VERSION_DYNAMIC_FEE then FEE_PER_KB
                   else get_dynamic_base_fee reward (fc_median ctx) (fc_version ctx));
                kb = tx_weight div 1024;
                kb = (if tx_weight mod 1024 \<noteq> 0 then kb + 1 else kb)
            in (saturating_mul kb fee_per_kb, fee_per_kb))
       in Inr \<lparr>needed = n, accepted_minimum = n - n div 50, unit_fee = u\<rparr>)"

definition check_fee :: "FeeContext \<Rightarrow> u64 \<Rightarrow> u64 \<Rightarrow> RewardError + bool" where
  "check_fee ctx tx_weight fee =
     and_then (required_fee ctx tx_weight) (\<lambda>r. Inr (accepted_minimum r \<le> fee))"

section \<open>Decimal rounding\<close>

text \<open>\<open>to_string\<close>: the decimal digits, the byte \<open>b'0' + d\<close> as the digit \<open>d\<close>; and \<open>parse::<u64>()\<close>.\<close>

fun to_digits :: "nat \<Rightarrow> nat list" where
  "to_digits n = (if n < 10 then [n] else to_digits (n div 10) @ [n mod 10])"

declare to_digits.simps [simp del]

definition digits_value :: "nat list \<Rightarrow> nat" where
  "digits_value ds = foldl (\<lambda>a d. 10 * a + d) 0 ds"

definition parse_digits :: "nat list \<Rightarrow> u64 option" where
  "parse_digits ds = (if digits_value ds < 2 ^ 64 then Some (word_of_nat (digits_value ds)) else None)"

text \<open>The loop that clears the digits past \<open>keep\<close>, with its flag.\<close>

fun clear_loop :: "bool \<Rightarrow> nat list \<Rightarrow> bool \<times> nat list" where
  "clear_loop bump [] = (bump, [])"
| "clear_loop bump (d # ds) =
     (if d \<noteq> 0 then (let (b, ds) = clear_loop True ds in (b, 0 # ds))
      else (let (b, ds) = clear_loop bump ds in (b, d # ds)))"

text \<open>The carry, from the digit before \<open>i\<close> leftwards.\<close>

fun bump_loop :: "bool \<Rightarrow> nat \<Rightarrow> nat list \<Rightarrow> bool \<times> nat list" where
  "bump_loop bump 0 ds = (bump, ds)"
| "bump_loop bump (Suc i) ds =
     (if bump then
        if ds ! i = 9 then bump_loop bump i (ds[i := 0])
        else bump_loop False i (ds[i := ds ! i + 1])
      else (bump, ds))"

definition round_money_up :: "u64 \<Rightarrow> nat \<Rightarrow> u64 option" where
  "round_money_up amount significant_digits =
     (if significant_digits = 0 then None
      else
        let digits = to_digits (unat amount); len = length digits in
        if len \<le> significant_digits then Some amount
        else
          let keep = significant_digits;
              (bump, tail) = clear_loop False (drop keep digits);
              digits = take keep digits @ tail;
              (bump, digits) = bump_loop bump keep digits;
              digits = (if bump then 1 # digits else digits)
          in Some (case parse_digits digits of Some x \<Rightarrow> x | None \<Rightarrow> - 1))"

section \<open>Fee tiers\<close>

record FeeTiers =
  tier_low :: u64
  tier_normal :: u64
  tier_medium :: u64
  tier_high :: u64

definition fee_tiers_2021 :: "u64 \<Rightarrow> u64 \<Rightarrow> u64 \<Rightarrow> FeeTiers option" where
  "fee_tiers_2021 reward mnw mlw =
     (let mfw = min mnw mlw;
          br = ucast reward :: u128;
          rw = ucast DYNAMIC_FEE_REFERENCE_TRANSACTION_WEIGHT :: u128;
          mfw2 = (ucast mfw :: u128) * ucast mfw;
          mden = (ucast BLOCK_GRANTED_FULL_REWARD_ZONE_V5 :: u128) * ucast mfw
      in if mfw2 = 0 \<or> mden = 0 then None
         else
           let fl = ucast (br * rw div mfw2) :: u64;
               fnorm = ucast (4 * br * rw div mfw2) :: u64;
               fm = ucast (16 * br * rw div mden) :: u64;
               divisor = 32 * rw * ucast mnw div ucast BLOCK_GRANTED_FULL_REWARD_ZONE_V5;
               fh_scaled = (if divisor = 0 then 4 * ucast fm else 4 * ucast fm * ucast mfw div divisor);
               fh = ucast (max (4 * ucast fm) fh_scaled) :: u64
           in
             (case (round_money_up fl SCALING_2021_FEE_ROUNDING_PLACES, round_money_up fnorm SCALING_2021_FEE_ROUNDING_PLACES,
                    round_money_up fm SCALING_2021_FEE_ROUNDING_PLACES, round_money_up fh SCALING_2021_FEE_ROUNDING_PLACES) of
                (Some l, Some n, Some m, Some h) \<Rightarrow> Some \<lparr>tier_low = l, tier_normal = n, tier_medium = m, tier_high = h\<rparr>
              | _ \<Rightarrow> None))"

section \<open>Quantization\<close>

lemma mask_value: "unat FEE_QUANTIZATION_MASK = 1000" "unat (FEE_QUANTIZATION_MASK - 1) = 999"
  by (simp_all add: FEE_QUANTIZATION_MASK_def)

text \<open>The quantized value as a number: the least multiple of 1000 from \<open>v\<close> on, or the greatest below
  the word size when there is none.\<close>

lemma unat_quantize_up:
  "unat (quantize_up v) = min (unat v + 999) (2 ^ 64 - 1) div 1000 * 1000"
proof -
  have *: "unat (x div FEE_QUANTIZATION_MASK * FEE_QUANTIZATION_MASK) = unat x div 1000 * 1000" for x :: u64
    using unat_bound [of x] order_le_less_trans [OF div_times_less_eq_dividend [of "unat x" 1000]]
    by (subst unat_mult_no_wrap) (simp_all add: unat_div mask_value)
  show ?thesis
  proof (cases "checked_add v (FEE_QUANTIZATION_MASK - 1)")
    case None
    then have "2 ^ 64 \<le> unat v + 999" by (simp add: checked_add_def mask_value del: One_nat_def split: if_splits)
    with None show ?thesis by (simp add: quantize_up_def * unat_max_word min_def)
  next
    case (Some x)
    from checked_add_Some [OF Some] have "unat x = unat v + 999" by (simp add: mask_value)
    with Some unat_bound [of x] show ?thesis by (simp add: quantize_up_def *)
  qed
qed

lemma quantize_up_mono: "v \<le> w \<Longrightarrow> quantize_up v \<le> quantize_up w"
  unfolding word_le_nat_alt unat_quantize_up by (intro mult_le_mono1 div_le_mono min.mono) simp_all

section \<open>Digits\<close>

lemma digits_value_foldl: "foldl (\<lambda>a d. 10 * a + d) a ds = a * 10 ^ length ds + digits_value ds"
proof (induction ds arbitrary: a)
  case (Cons d ds)
  show ?case
    unfolding digits_value_def foldl_Cons Cons [of "10 * a + d"] Cons [of "10 * 0 + d"] by (simp add: algebra_simps)
qed (simp add: digits_value_def)

lemma digits_value_append: "digits_value (xs @ ys) = digits_value xs * 10 ^ length ys + digits_value ys"
  using digits_value_foldl [of "digits_value xs" ys] by (simp add: digits_value_def)

lemma digits_value_Cons: "digits_value (d # ds) = d * 10 ^ length ds + digits_value ds"
  using digits_value_append [of "[d]" ds] by (simp add: digits_value_def [of "[d]"])

lemma digits_value_Nil [simp]: "digits_value [] = 0"
  by (simp add: digits_value_def)

lemma to_digits_value: "digits_value (to_digits n) = n"
proof (induction n rule: to_digits.induct)
  case (1 n)
  then show ?case by (simp add: to_digits.simps [of n] digits_value_append digits_value_Cons)
qed

lemma to_digits_ok: "\<forall>d\<in>set (to_digits n). d < 10"
proof (induction n rule: to_digits.induct)
  case (1 n)
  then show ?case by (simp add: to_digits.simps [of n])
qed

lemma to_digits_nonempty: "to_digits n \<noteq> []"
  by (simp add: to_digits.simps [of n])

lemma to_digits_lower: "0 < n \<Longrightarrow> 10 ^ (length (to_digits n) - 1) \<le> n"
proof (induction n rule: to_digits.induct)
  case (1 n)
  show ?case
  proof (cases "n < 10")
    case False
    obtain k where k: "length (to_digits (n div 10)) = Suc k"
      using to_digits_nonempty [of "n div 10"] by (cases "to_digits (n div 10)") auto
    from False 1(1) k have "10 ^ k \<le> n div 10" by simp
    then have "10 * 10 ^ k \<le> n" by linarith
    then show ?thesis using False k by (simp add: to_digits.simps [of n])
  qed (use 1 in \<open>simp add: to_digits.simps [of n]\<close>)
qed

lemma digits_value_less: "\<forall>d\<in>set ds. d < 10 \<Longrightarrow> digits_value ds < 10 ^ length ds"
proof (induction ds)
  case (Cons d ds)
  then have "digits_value ds < 10 ^ length ds" "d \<le> 9" by auto
  then have "d * 10 ^ length ds + digits_value ds < 9 * 10 ^ length ds + 10 ^ length ds"
    by (intro add_le_less_mono mult_le_mono1) auto
  then show ?case by (simp add: digits_value_Cons)
qed simp

lemma clear_loop_eq: "clear_loop b ds = (b \<or> digits_value ds \<noteq> 0, replicate (length ds) 0)"
  by (induction b ds rule: clear_loop.induct) (auto simp: digits_value_Cons)

lemma digits_value_zeros: "digits_value (replicate n 0) = 0"
  by (induction n) (auto simp: digits_value_Cons)

lemma carry_False: "bump_loop False i ds = (False, ds)"
  by (cases i) auto

text \<open>The carry adds one to the number of the first \<open>i\<close> digits.\<close>

lemma carry_True:
  "i \<le> length ds \<Longrightarrow> \<forall>d\<in>set ds. d < 10 \<Longrightarrow> bump_loop True i ds = (b, ds') \<Longrightarrow>
     length ds' = length ds \<and> drop i ds' = drop i ds \<and>
     digits_value (take i ds) + 1 = (if b then 10 ^ i else 0) + digits_value (take i ds')"
proof (induction i arbitrary: ds)
  case 0
  then show ?case by auto
next
  case (Suc i)
  from Suc.prems have i: "i < length ds" by simp
  have t: "digits_value (take (Suc i) xs) = digits_value (take i xs) * 10 + xs ! i" if "i < length xs" for xs
    using that by (simp add: take_Suc_conv_app_nth digits_value_append digits_value_Cons)
  have dr: "drop (Suc i) ds' = drop (Suc i) (ds[i := x])" if "drop i ds' = drop i (ds[i := x])" for x ds'
    using arg_cong [OF that, of tl] by (simp add: drop_Suc tl_drop)
  show ?case
  proof (cases "ds ! i = 9")
    case True
    with Suc.prems have c: "bump_loop True i (ds[i := 0]) = (b, ds')" by simp
    have ok: "\<forall>d\<in>set (ds[i := 0]). d < 10" using Suc.prems(2) by (auto dest!: subsetD [OF set_update_subset_insert])
    note IH = Suc.IH [OF _ ok c]
    with i have l: "length ds' = length ds" and d: "drop i ds' = drop i (ds[i := 0])"
      and v: "digits_value (take i ds) + 1 = (if b then 10 ^ i else 0) + digits_value (take i ds')" by auto
    from d i l have "ds' ! i = 0" by (metis hd_drop_conv_nth length_list_update nth_list_update_eq)
    with v t [of ds] t [of ds'] i l True dr [OF d] show ?thesis by (auto split: if_splits)
  next
    case False
    with Suc.prems have "b = False" "ds' = ds[i := ds ! i + 1]" by (simp_all add: carry_False)
    with i show ?thesis by (simp add: t)
  qed
qed

text \<open>Rounding up to \<open>k\<close> significant digits, on numbers.\<close>

definition ceil_to :: "nat \<Rightarrow> nat \<Rightarrow> nat" where
  "ceil_to p n = (n + p - 1) div p * p"

definition digit_unit :: "nat \<Rightarrow> nat \<Rightarrow> nat" where
  "digit_unit k n = 10 ^ (length (to_digits n) - k)"

lemma ceil_div_split: "l < p \<Longrightarrow> (h * p + l + (p - 1)) div p = (if l = 0 then h else h + (1 :: nat))"
proof -
  assume l: "l < p"
  have q: "(p * x + y) div p = x" if "y < p" for x y
    using that by simp
  show ?thesis
  proof (cases "l = 0")
    case True
    with q [of "p - 1" h] l show ?thesis by (simp add: mult.commute)
  next
    case False
    then have "h * p + l + (p - 1) = p * (h + 1) + (l - 1)" using l by (simp add: algebra_simps)
    moreover have "(p * (h + 1) + (l - 1)) div p = h + 1" using l by (intro q) simp
    ultimately show ?thesis using False by simp
  qed
qed

lemma ceil_to_split: "l < p \<Longrightarrow> ceil_to p (h * p + l) = (if l = 0 then h * p else (h + 1) * p)"
  using ceil_div_split [of l p h] by (simp add: ceil_to_def)

lemma round_money_up_value:
  assumes k: "0 < k"
  shows "round_money_up a k =
    Some (if ceil_to (digit_unit k (unat a)) (unat a) < 2 ^ 64
          then word_of_nat (ceil_to (digit_unit k (unat a)) (unat a)) else - 1)"
proof (cases "length (to_digits (unat a)) \<le> k")
  case True
  then show ?thesis
    using k unat_bound [of a] by (simp add: round_money_up_def digit_unit_def ceil_to_def)
next
  case False
  let ?d = "to_digits (unat a)"
  define hi where "hi = take k ?d"
  define lo where "lo = drop k ?d"
  define p where "p = (10 :: nat) ^ length lo"
  have hl: "?d = hi @ lo" "length hi = k" using False by (simp_all add: hi_def lo_def)
  have lo: "digits_value lo < p" unfolding p_def
    using to_digits_ok [of "unat a"] by (intro digits_value_less) (auto simp: lo_def dest: in_set_dropD)
  have a: "unat a = digits_value hi * p + digits_value lo"
    unfolding p_def digits_value_append [symmetric] hl(1) [symmetric] by (simp add: to_digits_value)
  have unit: "digit_unit k (unat a) = p" using hl by (simp add: digit_unit_def p_def)
  let ?ds = "hi @ replicate (length lo) 0"
  have ok: "\<forall>d\<in>set ?ds. d < 10" using to_digits_ok [of "unat a"] by (auto simp: hi_def dest: in_set_takeD)
  obtain b ds' where c: "bump_loop (digits_value lo \<noteq> 0) k ?ds = (b, ds')" by fastforce
  define r where "r = (if b then 1 # ds' else ds')"
  have r: "digits_value r = ceil_to p (unat a)"
  proof (cases "digits_value lo = 0")
    case True
    with c have "b = False" "ds' = ?ds" by (simp_all add: carry_False)
    then show ?thesis unfolding a ceil_to_split [OF lo] by (simp add: r_def True digits_value_append digits_value_zeros p_def)
  next
    case False
    with c carry_True [of k ?ds b ds'] ok hl have l: "length ds' = length ?ds"
      and d: "drop k ds' = replicate (length lo) 0"
      and v: "digits_value hi + 1 = (if b then 10 ^ k else 0) + digits_value (take k ds')" by auto
    have "digits_value ds' = digits_value (take k ds') * p"
      using digits_value_append [of "take k ds'" "drop k ds'"] d
      unfolding append_take_drop_id by (simp add: digits_value_zeros p_def)
    then have "digits_value r = ((if b then 10 ^ k else 0) + digits_value (take k ds')) * p"
      using l hl by (simp add: r_def digits_value_Cons p_def power_add algebra_simps)
    then show ?thesis unfolding a ceil_to_split [OF lo] v [symmetric] using False by simp
  qed
  have "round_money_up a k = Some (case parse_digits r of Some x \<Rightarrow> x | None \<Rightarrow> - 1)"
    using k False c by (simp add: round_money_up_def Let_def clear_loop_eq r_def hi_def lo_def)
  then show ?thesis by (simp add: parse_digits_def r unit)
qed

lemma ceil_to_ge: "0 < p \<Longrightarrow> n \<le> ceil_to p n"
proof -
  assume "0 < p"
  then obtain h l where n: "n = h * p + l" and l: "l < p" by (metis div_mult_mod_eq mod_less_divisor)
  show ?thesis unfolding n ceil_to_split [OF l] using l by simp
qed

lemma ceil_to_mono: "m \<le> n \<Longrightarrow> ceil_to p m \<le> ceil_to p n"
  by (simp add: ceil_to_def div_le_mono diff_le_mono)

lemma ceil_to_dvd: "0 < p \<Longrightarrow> p dvd n \<Longrightarrow> ceil_to p n = n"
  using ceil_to_split [of 0 p] by (auto simp: mult.commute elim: dvdE)

lemma to_digits_upper: "n < 10 ^ length (to_digits n)"
  using digits_value_less [OF to_digits_ok, of n] by (simp add: to_digits_value)

lemma length_to_digits_mono: "m \<le> n \<Longrightarrow> length (to_digits m) \<le> length (to_digits n)"
proof (rule ccontr)
  assume mn: "m \<le> n" and "\<not> length (to_digits m) \<le> length (to_digits n)"
  then have l: "length (to_digits n) \<le> length (to_digits m) - 1" by simp
  show False
  proof (cases "m = 0")
    case True
    with l to_digits_nonempty [of n] show False by (simp add: to_digits.simps [of 0])
  next
    case False
    then have "(10 :: nat) ^ length (to_digits n) \<le> m"
      using power_increasing [OF l, of "10 :: nat"] to_digits_lower [of m] by linarith
    with mn to_digits_upper [of n] show False by simp
  qed
qed

definition rounded :: "nat \<Rightarrow> nat \<Rightarrow> nat" where
  "rounded k n = ceil_to (digit_unit k n) n"

lemma digit_unit_pos [simp]: "0 < digit_unit k n"
  by (simp add: digit_unit_def)

lemma rounded_mono: "m \<le> n \<Longrightarrow> rounded k m \<le> rounded k n"
proof (cases "length (to_digits m) = length (to_digits n)")
  case True
  assume "m \<le> n"
  with True show ?thesis by (simp add: rounded_def digit_unit_def ceil_to_mono)
next
  case False
  assume mn: "m \<le> n"
  let ?l = "length (to_digits m)"
  have l: "?l \<le> length (to_digits n) - 1" using length_to_digits_mono [OF mn] False by simp
  have "rounded k m \<le> ceil_to (digit_unit k m) (10 ^ ?l)"
    unfolding rounded_def using to_digits_upper [of m] by (intro ceil_to_mono) simp
  also have "\<dots> = 10 ^ ?l" by (rule ceil_to_dvd) (simp_all add: digit_unit_def le_imp_power_dvd)
  also have "\<dots> \<le> 10 ^ (length (to_digits n) - 1)" using l by (intro power_increasing) auto
  also have "\<dots> \<le> n"
  proof (rule to_digits_lower)
    show "0 < n" using mn False by (cases "n = 0") auto
  qed
  also have "\<dots> \<le> rounded k n" unfolding rounded_def by (rule ceil_to_ge) simp
  finally show ?thesis .
qed

lemma round_money_up_mono:
  assumes "0 < k" "a \<le> b" "round_money_up a k = Some x" "round_money_up b k = Some y"
  shows "x \<le> y"
proof -
  have "rounded k (unat a) \<le> rounded k (unat b)" using assms(2) by (simp add: rounded_mono word_le_nat_alt)
  with assms show ?thesis
    by (auto simp: round_money_up_value word_le_nat_alt rounded_def unat_of_nat unat_max_word split: if_splits)
qed

section \<open>Base fee\<close>

lemma div_less_u64: "x < 2 ^ 64 * d \<Longrightarrow> x div d < 2 ^ (64 :: nat)" for x d :: nat
  by (metis less_mult_imp_div_less mult.commute)

lemma effective_median: "300000 \<le> unat (max m (get_min_block_weight v))" if "5 \<le> v"
proof -
  have "get_min_block_weight v = 300000"
    using that by (auto simp: get_min_block_weight_def BLOCK_GRANTED_FULL_REWARD_ZONE_V5_def word_le_nat_alt word_less_nat_alt)
  then show ?thesis by (simp add: max_def word_le_nat_alt)
qed

text \<open>The per-byte base fee from fork 20: ninety-five hundredths (rounded) of
  \<open>reward * 3000 / M\<^sup>2\<close> with \<open>M\<close> the median raised to the full reward zone, and never zero. No
  intermediate value is truncated, whatever the reward and the median.\<close>

theorem base_fee_2021:
  assumes "20 \<le> v"
  shows "unat (get_dynamic_base_fee reward m v) =
    (let M = unat (max m (get_min_block_weight v)); x = unat reward * 3000 div M div M in max 1 (x - x div 20))"
proof -
  let ?M = "max m (get_min_block_weight v)"
  have v: "12 \<le> v" "5 \<le> v" using assms by (auto simp: word_le_nat_alt)
  have M: "300000 \<le> unat ?M" using effective_median v by blast
  let ?x = "unat reward * 3000 div unat ?M div unat ?M"
  have p: "unat ((ucast reward :: u128) * ucast DYNAMIC_FEE_REFERENCE_TRANSACTION_WEIGHT) = unat reward * 3000"
    using unat_bound [of reward] by (subst unat_mult_no_wrap) (simp_all add: DYNAMIC_FEE_REFERENCE_TRANSACTION_WEIGHT_def)
  have "unat reward * 3000 < 2 ^ 64 * 300000" using unat_bound [of reward] by simp
  also have "\<dots> \<le> 2 ^ 64 * unat ?M" using M by (intro mult_le_mono2)
  finally have "unat reward * 3000 div unat ?M < 2 ^ 64" by (rule div_less_u64)
  then have b: "?x < 2 ^ 64" by (rule order_le_less_trans [OF div_le_dividend])
  then have lo: "unat (ucast ((ucast reward :: u128) * ucast DYNAMIC_FEE_REFERENCE_TRANSACTION_WEIGHT
      div ucast ?M div ucast ?M) :: u64) = ?x"
    by (simp add: unat_ucast_mod unat_div p del: max.bounded_iff)
  have fin: "unat (if l - l div 20 = 0 then 1 else l - l div 20) = max 1 (unat l - unat l div 20)" for l :: u64
  proof -
    have "unat (l - l div 20) = unat l - unat l div 20"
      by (simp add: unat_sub unat_div word_le_nat_alt)
    then show ?thesis by (auto simp: unat_gt_0 simp flip: unat_eq_zero)
  qed
  define l :: u64 where "l = ucast ((ucast reward :: u128) * ucast DYNAMIC_FEE_REFERENCE_TRANSACTION_WEIGHT
      div ucast ?M div ucast ?M)"
  have "get_dynamic_base_fee reward m v = (if l - l div 20 = 0 then 1 else l - l div 20)"
    using assms v by (simp add: get_dynamic_base_fee_def HF_VERSION_PER_BYTE_FEE_def HF_VERSION_2021_SCALING_def Let_def l_def)
  then show ?thesis using lo by (simp only: fin l_def [symmetric] Let_def)
qed

theorem base_fee_2021_witness:
  "unat (get_dynamic_base_fee 10000000000000 300000 20) = 316667"
  using base_fee_2021 [of 20 10000000000000 300000]
  by (simp add: get_min_block_weight_def BLOCK_GRANTED_FULL_REWARD_ZONE_V5_def)

section \<open>The acceptance rule\<close>

lemma fc_base_reward_total: "\<exists>r. fc_base_reward ctx = Inr r"
proof -
  have "1 \<le> get_min_block_weight (fc_version ctx)"
    by (rule order_trans [OF _ conjunct1 [OF min_block_weight_bounds]]) simp
  then have "1 \<le> max (fc_median ctx) (get_min_block_weight (fc_version ctx))" by (rule max.coboundedI2)
  then show ?thesis by (simp add: fc_base_reward_def get_block_reward_eq Let_def)
qed

text \<open>The fee a weight calls for, as a function.\<close>

definition kilobytes :: "u64 \<Rightarrow> u64" where
  "kilobytes w = (if w mod 1024 \<noteq> 0 then w div 1024 + 1 else w div 1024)"

definition needed_for :: "FeeContext \<Rightarrow> u64 \<Rightarrow> u64 \<Rightarrow> u64" where
  "needed_for ctx r w =
     (if HF_VERSION_PER_BYTE_FEE \<le> fc_version ctx
      then quantize_up (saturating_mul w (get_dynamic_base_fee r (fee_median ctx) (fc_version ctx)))
      else saturating_mul (kilobytes w) (if fc_version ctx < HF_VERSION_DYNAMIC_FEE then FEE_PER_KB
             else get_dynamic_base_fee r (fc_median ctx) (fc_version ctx)))"

lemma check_fee_eq:
  "fc_base_reward ctx = Inr r \<Longrightarrow>
     check_fee ctx w f = Inr (needed_for ctx r w - needed_for ctx r w div 50 \<le> f)"
  by (simp add: check_fee_def required_fee_def needed_for_def kilobytes_def Let_def)

lemma unat_kilobytes: "unat (kilobytes w) = (unat w + 1023) div 1024"
proof -
  have b: "unat w div 1024 + 1 < 2 ^ 64" using unat_bound [of w] by simp
  have z: "w mod 1024 = 0 \<longleftrightarrow> unat w mod 1024 = 0" by (simp add: unat_mod flip: unat_eq_zero)
  have "unat (w div 1024 + 1) = unat w div 1024 + 1"
    using b by (subst unat_add_no_wrap) (simp_all add: unat_div)
  moreover have "(n div 1024 * 1024 + n mod 1024 + (1024 - 1)) div 1024 =
      (if n mod 1024 = 0 then n div 1024 else n div 1024 + 1)" for n :: nat
    by (rule ceil_div_split) simp
  then have "(n + 1023) div 1024 = (if n mod 1024 = 0 then n div 1024 else n div 1024 + 1)" for n :: nat
    by (simp only: div_mult_mod_eq) simp
  ultimately show ?thesis by (auto simp: kilobytes_def z unat_div)
qed

lemma saturating_mul_mono: "x \<le> y \<Longrightarrow> saturating_mul x (c :: u64) \<le> saturating_mul y c"
  unfolding word_le_nat_alt unat_saturating_mul by (intro min.mono mult_le_mono1) simp_all

lemma needed_for_mono: "x \<le> y \<Longrightarrow> needed_for ctx r x \<le> needed_for ctx r y"
  unfolding needed_for_def
  by (auto intro!: quantize_up_mono saturating_mul_mono simp: word_le_nat_alt [of "kilobytes x"] word_le_nat_alt [of x]
      unat_kilobytes div_le_mono)

lemma unat_accepted: "unat (n - n div 50) = unat n - unat n div 50" for n :: u64
  by (simp add: unat_sub unat_div word_le_nat_alt)

lemma tolerance_mono: "m \<le> n \<Longrightarrow> m - m div 50 \<le> n - n div (50 :: nat)"
proof (induction rule: dec_induct)
  case (step n)
  have "n - n div 50 \<le> Suc n - Suc n div 50" by (auto simp: div_Suc)
  with step show ?case by simp
qed simp

lemma accepted_mono: "m \<le> n \<Longrightarrow> m - m div 50 \<le> n - n div (50 :: u64)"
  unfolding word_le_nat_alt unat_accepted by (rule tolerance_mono)

text \<open>C31. The fee check always decides: the reward lookup it makes (for a block of weight one) is never
  refused. And it is monotone: whoever may relay a transaction may relay a lighter one, or the same
  one with a higher fee, saturation and rounding included.\<close>

theorem check_fee_decides_monotone:
  shows "(\<exists>b. check_fee ctx w f = Inr b) \<and>
    (check_fee ctx w f = Inr True \<and> w' \<le> w \<and> f \<le> f' \<longrightarrow> check_fee ctx w' f' = Inr True)"
proof -
  obtain r where r: "fc_base_reward ctx = Inr r" using fc_base_reward_total by blast
  let ?n = "needed_for ctx r"
  have "?n w' - ?n w' div 50 \<le> f'" if "?n w - ?n w div 50 \<le> f" "w' \<le> w" "f \<le> f'"
    using accepted_mono [OF needed_for_mono [OF that(2)]] that(1,3) by (meson order_trans)
  with check_fee_eq [OF r] show ?thesis by auto
qed

theorem check_fee_decides_monotone_witness:
  "check_fee \<lparr>fc_version = 1, fc_cumulative_weight_limit = 0, fc_long_term_effective_median = 0,
     fc_already_generated_coins = 0\<rparr> 1024 2000000000 = Inr True \<and>
   check_fee \<lparr>fc_version = 1, fc_cumulative_weight_limit = 0, fc_long_term_effective_median = 0,
     fc_already_generated_coins = 0\<rparr> 1000 3000000000 = Inr True"
proof -
  let ?c = "\<lparr>fc_version = 1, fc_cumulative_weight_limit = 0, fc_long_term_effective_median = 0,
     fc_already_generated_coins = 0\<rparr>"
  have "check_fee ?c 1024 2000000000 = Inr True"
    by (simp add: check_fee_def required_fee_def fc_base_reward_def HF_VERSION_PER_BYTE_FEE_def HF_VERSION_DYNAMIC_FEE_def
        FEE_PER_KB_def saturating_mul_def word_le_nat_alt)
  with check_fee_decides_monotone [of ?c 1024 2000000000 1000 3000000000] show ?thesis
    by (simp add: word_le_nat_alt)
qed

text \<open>From fork 12 the fee demanded is the weight times the fee per byte, rounded up to a multiple
  of 1000, less the two per cent tolerance; the bound on the product is the word size.\<close>

theorem check_fee_per_byte:
  assumes "12 \<le> fc_version ctx" "fc_base_reward ctx = Inr r"
    "p = unat w * unat (get_dynamic_base_fee r (fee_median ctx) (fc_version ctx))" "p + 999 < 2 ^ 64"
  shows "check_fee ctx w f = Inr (let n = (p + 999) div 1000 * 1000 in n - n div 50 \<le> unat f)"
proof -
  let ?b = "get_dynamic_base_fee r (fee_median ctx) (fc_version ctx)"
  have "unat (saturating_mul w ?b) = p" using assms(3,4) by (simp add: unat_saturating_mul)
  then have q: "unat (quantize_up (saturating_mul w ?b)) = (p + 999) div 1000 * 1000"
    using assms(4) by (simp add: unat_quantize_up)
  have "check_fee ctx w f = Inr (quantize_up (saturating_mul w ?b) - quantize_up (saturating_mul w ?b) div 50 \<le> f)"
    using assms(1,2) by (simp add: check_fee_eq needed_for_def HF_VERSION_PER_BYTE_FEE_def)
  then show ?thesis by (simp only: word_le_nat_alt unat_accepted q Let_def)
qed

theorem check_fee_per_byte_witness:
  "(\<lambda>ctx. fc_base_reward ctx = Inr 17592186044415 \<and> check_fee ctx 2000 1091888560 = Inr True \<and>
      check_fee ctx 2000 1091888559 = Inr False)
   \<lparr>fc_version = 20, fc_cumulative_weight_limit = 600000, fc_long_term_effective_median = 300000,
     fc_already_generated_coins = 0\<rparr>"
proof -
  let ?c = "\<lparr>fc_version = 20, fc_cumulative_weight_limit = 600000, fc_long_term_effective_median = 300000,
     fc_already_generated_coins = 0\<rparr>"
  have r: "fc_base_reward ?c = Inr 17592186044415"
    by (simp add: fc_base_reward_def get_block_reward_eq get_min_block_weight_def BLOCK_GRANTED_FULL_REWARD_ZONE_V5_def
        base_reward_def emission_shift MONEY_SUPPLY_def drop_bit_eq_div Let_def HF_VERSION_DYNAMIC_FEE_def
        fc_median_def le_max_iff_disj)
  have b: "unat (get_dynamic_base_fee 17592186044415 (fee_median ?c) (fc_version ?c)) = 557086"
    by (simp add: get_dynamic_base_fee_def get_min_block_weight_def BLOCK_GRANTED_FULL_REWARD_ZONE_V5_def
        HF_VERSION_2021_SCALING_def HF_VERSION_PER_BYTE_FEE_def HF_VERSION_LONG_TERM_BLOCK_WEIGHT_def fee_median_def
        fc_median_def DYNAMIC_FEE_REFERENCE_TRANSACTION_WEIGHT_def Let_def)
  have v: "12 \<le> fc_version ?c" by simp
  have p: "(1114172000 :: nat) = unat (2000 :: u64) * unat (get_dynamic_base_fee 17592186044415 (fee_median ?c) (fc_version ?c))"
    unfolding b by simp
  note app = check_fee_per_byte [OF v r p]
  show ?thesis using r app [of 1091888560] app [of 1091888559] by simp
qed

section \<open>Tiers\<close>

lemma div_le_cross: "a * d \<le> c * b \<Longrightarrow> 0 < b \<Longrightarrow> 0 < d \<Longrightarrow> a div b \<le> c div (d :: nat)"
proof -
  assume h: "a * d \<le> c * b" "0 < b" "0 < d"
  have "a div b * (d * b) \<le> a * d" using div_times_less_eq_dividend [of a b] by (simp add: mult.assoc [symmetric] mult.commute)
  also have "\<dots> \<le> c * b" by fact
  finally have "a div b * d \<le> c" using h(2) by (simp add: mult.assoc [symmetric])
  then show ?thesis using h(3) by (simp add: less_eq_div_iff_mult_less_eq)
qed

text \<open>The four unrounded tiers, as numbers; no product reaches 128 bits and no quotient 64.\<close>

lemma tier_values:
  fixes R F N :: u64
  assumes F: "300000 \<le> unat F" "unat F \<le> unat N"
  defines "rw \<equiv> (3000 :: u128)"
  defines "fm \<equiv> unat R * 48000 div (300000 * unat F)"
  shows "unat (ucast ((ucast R * rw :: u128) div (ucast F * ucast F)) :: u64) = unat R * 3000 div (unat F * unat F)"
    "unat (ucast ((4 * ucast R * rw :: u128) div (ucast F * ucast F)) :: u64) = unat R * 12000 div (unat F * unat F)"
    "unat (ucast ((16 * ucast R * rw :: u128) div (300000 * ucast F)) :: u64) = fm"
    "fm * 4 < 2 ^ 64" "4 * fm * unat F < 2 ^ 64"
proof -
  have R: "unat R < 2 ^ 64" and Fb: "unat F < 2 ^ 64" using unat_bound [of R] unat_bound [of F] by simp_all
  have FF: "unat F * unat F < 2 ^ 64 * 2 ^ 64" using Fb by (intro mult_strict_mono) auto
  have u: "unat (ucast R * rw :: u128) = unat R * 3000" "unat (4 * ucast R * rw :: u128) = unat R * 12000"
    "unat (16 * ucast R * rw :: u128) = unat R * 48000" "unat (ucast F * ucast F :: u128) = unat F * unat F"
    "unat (300000 * ucast F :: u128) = 300000 * unat F"
    using R Fb FF by (simp_all add: rw_def unat_word_ariths)
  have sq: "300000 * 300000 \<le> unat F * unat F" using F(1) by (intro mult_le_mono)
  have t: "unat R * c div d < 2 ^ 64" if "c \<le> d" "0 < c" for c d
    using that R by (intro div_less_u64) (metis mult_le_mono2 mult_less_mono1 order_less_le_trans)
  show "unat (ucast ((ucast R * rw :: u128) div (ucast F * ucast F)) :: u64) = unat R * 3000 div (unat F * unat F)"
    "unat (ucast ((4 * ucast R * rw :: u128) div (ucast F * ucast F)) :: u64) = unat R * 12000 div (unat F * unat F)"
    "unat (ucast ((16 * ucast R * rw :: u128) div (300000 * ucast F)) :: u64) = fm"
    using t [of 3000 "unat F * unat F"] t [of 12000 "unat F * unat F"] t [of 48000 "300000 * unat F"] F sq
    by (simp_all add: unat_ucast_mod unat_div u fm_def)
  have "fm \<le> unat R * 48000 div (300000 * 300000)"
    unfolding fm_def using F by (intro div_le_mono2) auto
  then have "fm \<le> unat R div 1875000" by (simp add: div_mult2_eq [symmetric])
  then show "fm * 4 < 2 ^ 64" using R by linarith
  have "fm * (300000 * unat F) \<le> unat R * 48000" unfolding fm_def by (rule div_times_less_eq_dividend)
  then have "300000 * (fm * unat F) \<le> unat R * 48000" by (simp add: algebra_simps)
  then have "4 * (fm * unat F) < 2 ^ 64" using R by linarith
  then show "4 * fm * unat F < 2 ^ 64" by (simp add: mult.assoc)
qed

lemma tier_high_ge:
  fixes fm F :: u64 and dv :: u128
  assumes "unat fm * 4 < 2 ^ 64" "4 * unat fm * unat F < 2 ^ 64"
  shows "fm \<le> ucast (max (4 * ucast fm) (if dv = 0 then 4 * ucast fm else 4 * ucast fm * ucast F div dv))"
proof -
  let ?sc = "if dv = 0 then 4 * ucast fm else 4 * ucast fm * ucast F div dv"
  have four: "unat (4 * ucast fm :: u128) = 4 * unat fm"
    using unat_bound [of fm] by (simp add: unat_word_ariths)
  have "unat (4 * ucast fm * ucast F :: u128) = 4 * unat fm * unat F"
    using assms(2) by (subst unat_mult_no_wrap) (simp_all add: four)
  then have "unat (4 * ucast fm * ucast F div dv) < 2 ^ 64"
    using assms(2) unfolding unat_div by (metis div_le_dividend order_le_less_trans)
  then have "unat ?sc < 2 ^ 64" using assms(1) by (cases "dv = 0") (simp_all add: four)
  then have "unat (max (4 * ucast fm) ?sc) < 2 ^ 64" using assms(1) by (simp add: max_def four)
  then have "unat (ucast (max (4 * ucast fm) ?sc) :: u64) = unat (max (4 * ucast fm) ?sc)" by (simp add: unat_ucast_mod)
  moreover have "4 * unat fm \<le> unat (max (4 * ucast fm) ?sc)" by (simp add: max_def word_le_nat_alt four)
  ultimately show ?thesis by (simp add: word_le_nat_alt)
qed

lemma tier_divisors_nonzero:
  fixes F :: u64
  assumes "300000 \<le> unat F"
  shows "(ucast F * ucast F :: u128) \<noteq> 0" "(300000 * ucast F :: u128) \<noteq> 0"
proof -
  have Fb: "unat F < 2 ^ 64" using unat_bound [of F] by simp
  have "unat (ucast F * ucast F :: u128) = unat F * unat F"
    using mult_strict_mono [OF Fb Fb] by (simp add: unat_word_ariths)
  moreover have "unat (300000 * ucast F :: u128) = 300000 * unat F" using Fb by (simp add: unat_word_ariths)
  ultimately show "(ucast F * ucast F :: u128) \<noteq> 0" "(300000 * ucast F :: u128) \<noteq> 0"
    using assms by (metis mult_is_0 not_numeral_le_zero unsigned_0 zero_neq_numeral)+
qed

text \<open>The wallet's four fee tiers are computed without a panic or a truncation and ascend, low to
  normal to medium to high, once both medians have reached the full reward zone.\<close>

theorem fee_tiers_ordered:
  assumes "300000 \<le> mnw" "300000 \<le> mlw"
  shows "\<exists>t. fee_tiers_2021 reward mnw mlw = Some t \<and>
    tier_low t \<le> tier_normal t \<and> tier_normal t \<le> tier_medium t \<and> tier_medium t \<le> tier_high t"
proof -
  define F where "F = min mnw mlw"
  have F: "300000 \<le> unat F" "unat F \<le> unat mnw"
    using assms by (auto simp: F_def min_def word_le_nat_alt)
  note tv = tier_values [OF F, of reward]
  define fl :: u64 where "fl = ucast ((ucast reward * 3000 :: u128) div (ucast F * ucast F))"
  define fn :: u64 where "fn = ucast ((4 * ucast reward * 3000 :: u128) div (ucast F * ucast F))"
  define fm :: u64 where "fm = ucast ((16 * ucast reward * 3000 :: u128) div (300000 * ucast F))"
  define dv :: u128 where "dv = 32 * 3000 * ucast mnw div 300000"
  define sc :: u128 where "sc = (if dv = 0 then 4 * ucast fm else 4 * ucast fm * ucast F div dv)"
  define fh :: u64 where "fh = ucast (max (4 * ucast fm) sc)"
  have cs: "ucast DYNAMIC_FEE_REFERENCE_TRANSACTION_WEIGHT = (3000 :: u128)"
    "ucast BLOCK_GRANTED_FULL_REWARD_ZONE_V5 = (300000 :: u128)"
    by (simp_all add: DYNAMIC_FEE_REFERENCE_TRANSACTION_WEIGHT_def BLOCK_GRANTED_FULL_REWARD_ZONE_V5_def)
  have eq: "fee_tiers_2021 reward mnw mlw =
    (case (round_money_up fl 2, round_money_up fn 2, round_money_up fm 2, round_money_up fh 2) of
       (Some l, Some n, Some m, Some h) \<Rightarrow> Some \<lparr>tier_low = l, tier_normal = n, tier_medium = m, tier_high = h\<rparr>
     | _ \<Rightarrow> None)"
    unfolding fee_tiers_2021_def Let_def F_def [symmetric] cs SCALING_2021_FEE_ROUNDING_PLACES_def
      fl_def [symmetric] fn_def [symmetric] fm_def [symmetric] dv_def [symmetric] sc_def [symmetric] fh_def [symmetric]
    using tier_divisors_nonzero [OF F(1)] by simp
  have fl: "unat fl = unat reward * 3000 div (unat F * unat F)" and fn: "unat fn = unat reward * 12000 div (unat F * unat F)"
    and fm: "unat fm = unat reward * 48000 div (300000 * unat F)"
    using tv(1-3) by (simp_all add: fl_def fn_def fm_def)
  have "fm \<le> fh"
    unfolding fh_def sc_def using tv(4,5) unfolding fm [symmetric] by (rule tier_high_ge)
  moreover have "fl \<le> fn" unfolding word_le_nat_alt fl fn by (intro div_le_mono) simp
  moreover have "fn \<le> fm" unfolding word_le_nat_alt fn fm
  proof (rule div_le_cross)
    have "12000 * 300000 \<le> 48000 * unat F" using F(1) by simp
    then have "unat reward * unat F * (12000 * 300000) \<le> unat reward * unat F * (48000 * unat F)"
      by (rule mult_le_mono2)
    then show "unat reward * 12000 * (300000 * unat F) \<le> unat reward * 48000 * (unat F * unat F)"
      by (simp add: algebra_simps)
  qed (use F in auto)
  ultimately show ?thesis
    using round_money_up_mono [of 2] unfolding eq by (auto simp: round_money_up_value)
qed

theorem fee_tiers_ordered_witness:
  "\<exists>t. fee_tiers_2021 17592186044415 300000 400000 = Some t \<and> tier_low t \<le> tier_normal t"
  using fee_tiers_ordered [of 300000 400000 17592186044415] by (auto simp: word_le_nat_alt)

text \<open>The decimal rounding of the tiers is a ceiling: the digit loops compute the least multiple of
  the unit of the \<open>k\<close>-th leading digit that is not below the amount, carries included, and the
  largest word when that multiple does not fit.\<close>

theorem round_money_up_ceiling:
  assumes "0 < k"
  shows "round_money_up a k =
    Some (if ceil_to (digit_unit k (unat a)) (unat a) < 2 ^ 64
          then word_of_nat (ceil_to (digit_unit k (unat a)) (unat a)) else - 1)"
  using assms by (rule round_money_up_value)

theorem round_money_up_ceiling_witness:
  "round_money_up 9901 2 = Some 10000"
  using round_money_up_ceiling [of 2 9901]
  by (simp add: ceil_to_def digit_unit_def to_digits.simps)

end
