(* ===== verification/Field.thy ===== *)
theory Field
  imports Prelude Binary "HOL-Library.Numeral_Type"
begin

text \<open>
  Arithmetic in GF(2^255 - 19), \<open>crates/wow-crypto/src/field.rs\<close>: five limbs of 51 bits in 64-bit
  words, with 128-bit intermediate products. The abstraction \<open>fe\<close> sends the limbs to the ring of
  integers modulo \<open>2 ^ 255 - 19\<close>; the lemmas show that on limbs below \<open>2 ^ 52\<close> no operation wraps,
  that every result is again below \<open>2 ^ 52\<close>, and that the operations are the ring operations.
\<close>

section \<open>Elements\<close>

datatype Fe = Fe u64 u64 u64 u64 u64

definition LOW_51 :: u64 where "LOW_51 = push_bit 51 1 - 1"

definition Fe_ZERO :: Fe where "Fe_ZERO = Fe 0 0 0 0 0"
definition Fe_ONE :: Fe where "Fe_ONE = Fe 1 0 0 0 0"

text \<open>Each assignment of the carry chain is one step of the \<open>let\<close>.\<close>

fun weak_reduce :: "Fe \<Rightarrow> Fe" where
  "weak_reduce (Fe l0 l1 l2 l3 l4) =
     (let l1 = l1 + drop_bit 51 l0; l0 = l0 AND LOW_51;
          l2 = l2 + drop_bit 51 l1; l1 = l1 AND LOW_51;
          l3 = l3 + drop_bit 51 l2; l2 = l2 AND LOW_51;
          l4 = l4 + drop_bit 51 l3; l3 = l3 AND LOW_51;
          l0 = l0 + 19 * drop_bit 51 l4; l4 = l4 AND LOW_51;
          l1 = l1 + drop_bit 51 l0; l0 = l0 AND LOW_51
      in Fe l0 l1 l2 l3 l4)"

fun Fe_reduce_weak :: "Fe \<Rightarrow> Fe" where
  "Fe_reduce_weak (Fe l0 l1 l2 l3 l4) =
     (let q = drop_bit 51 (l0 + 19);
          q = drop_bit 51 (l1 + q);
          q = drop_bit 51 (l2 + q);
          q = drop_bit 51 (l3 + q);
          q = drop_bit 51 (l4 + q);
          l0 = l0 + 19 * q;
          l1 = l1 + drop_bit 51 l0; l0 = l0 AND LOW_51;
          l2 = l2 + drop_bit 51 l1; l1 = l1 AND LOW_51;
          l3 = l3 + drop_bit 51 l2; l2 = l2 AND LOW_51;
          l4 = l4 + drop_bit 51 l3; l3 = l3 AND LOW_51;
          l4 = l4 AND LOW_51
      in Fe l0 l1 l2 l3 l4)"

definition Fe_reduce :: "Fe \<Rightarrow> Fe" where "Fe_reduce f = Fe_reduce_weak (weak_reduce f)"

definition Fe_load :: "bytes \<Rightarrow> nat \<Rightarrow> u64" where
  "Fe_load s i = u64_from_le_bytes (take 8 (drop i s))"

definition Fe_from_bytes :: "bytes \<Rightarrow> Fe" where
  "Fe_from_bytes s =
     Fe (Fe_load s 0 AND LOW_51) (drop_bit 3 (Fe_load s 6) AND LOW_51) (drop_bit 6 (Fe_load s 12) AND LOW_51)
        (drop_bit 1 (Fe_load s 19) AND LOW_51) (drop_bit 12 (Fe_load s 24) AND LOW_51)"

definition Fe_from_bytes_unmasked :: "bytes \<Rightarrow> Fe" where
  "Fe_from_bytes_unmasked s =
     weak_reduce
       (case Fe_from_bytes s of Fe l0 l1 l2 l3 l4 \<Rightarrow>
          Fe (if s ! 31 AND 0x80 \<noteq> 0 then l0 + 19 else l0) l1 l2 l3 l4)"

definition Fe_to_bytes :: "Fe \<Rightarrow> bytes" where
  "Fe_to_bytes f =
     (case Fe_reduce f of Fe l0 l1 l2 l3 l4 \<Rightarrow>
        u64_to_le_bytes (l0 OR push_bit 51 l1) @ u64_to_le_bytes (drop_bit 13 l1 OR push_bit 38 l2) @
        u64_to_le_bytes (drop_bit 26 l2 OR push_bit 25 l3) @ u64_to_le_bytes (drop_bit 39 l3 OR push_bit 12 l4))"

definition Fe_is_nonzero :: "Fe \<Rightarrow> bool" where "Fe_is_nonzero f = (Fe_to_bytes f \<noteq> replicate 32 0)"
definition Fe_is_negative :: "Fe \<Rightarrow> bool" where "Fe_is_negative f = (Fe_to_bytes f ! 0 AND 1 = 1)"

section \<open>Ring operations\<close>

definition mul_inner :: "Fe \<Rightarrow> Fe \<Rightarrow> Fe" where
  "mul_inner f g = (case f of Fe a0 a1 a2 a3 a4 \<Rightarrow> case g of Fe b0 b1 b2 b3 b4 \<Rightarrow>
     (let b1_19 = (ucast b1 :: u128) * 19; b2_19 = (ucast b2 :: u128) * 19;
          b3_19 = (ucast b3 :: u128) * 19; b4_19 = (ucast b4 :: u128) * 19;
          m = (\<lambda>(x :: u64) y. (ucast x :: u128) * y);
          c0 = m a0 (ucast b0) + m a1 b4_19 + m a2 b3_19 + m a3 b2_19 + m a4 b1_19;
          c1 = m a0 (ucast b1) + m a1 (ucast b0) + m a2 b4_19 + m a3 b3_19 + m a4 b2_19;
          c2 = m a0 (ucast b2) + m a1 (ucast b1) + m a2 (ucast b0) + m a3 b4_19 + m a4 b3_19;
          c3 = m a0 (ucast b3) + m a1 (ucast b2) + m a2 (ucast b1) + m a3 (ucast b0) + m a4 b4_19;
          c4 = m a0 (ucast b4) + m a1 (ucast b3) + m a2 (ucast b2) + m a3 (ucast b1) + m a4 (ucast b0);
          carry = (\<lambda>c :: u128. ucast (drop_bit 51 c) :: u64);
          low = (\<lambda>c :: u128. (ucast c :: u64) AND LOW_51);
          c1 = c1 + ucast (carry c0); out0 = low c0;
          c2 = c2 + ucast (carry c1); out1 = low c1;
          c3 = c3 + ucast (carry c2); out2 = low c2;
          c4 = c4 + ucast (carry c3); out3 = low c3;
          out4 = low c4;
          out0 = out0 + carry c4 * 19;
          out1 = out1 + drop_bit 51 out0; out0 = out0 AND LOW_51
      in Fe out0 out1 out2 out3 out4))"

definition Fe_mul :: "Fe \<Rightarrow> Fe \<Rightarrow> Fe" where "Fe_mul a b = mul_inner a b"

fun Fe_add :: "Fe \<Rightarrow> Fe \<Rightarrow> Fe" where
  "Fe_add (Fe a0 a1 a2 a3 a4) (Fe b0 b1 b2 b3 b4) =
     weak_reduce (Fe (a0 + b0) (a1 + b1) (a2 + b2) (a3 + b3) (a4 + b4))"

fun Fe_sub_reduced :: "Fe \<Rightarrow> Fe \<Rightarrow> Fe" where
  "Fe_sub_reduced (Fe a0 a1 a2 a3 a4) (Fe r0 r1 r2 r3 r4) =
     weak_reduce (Fe (a0 + 0x000fffffffffffda - r0) (a1 + 0x000ffffffffffffe - r1) (a2 + 0x000ffffffffffffe - r2)
                     (a3 + 0x000ffffffffffffe - r3) (a4 + 0x000ffffffffffffe - r4))"

definition Fe_sub :: "Fe \<Rightarrow> Fe \<Rightarrow> Fe" where "Fe_sub a b = Fe_sub_reduced a (weak_reduce b)"

definition Fe_neg :: "Fe \<Rightarrow> Fe" where "Fe_neg f = Fe_sub Fe_ZERO f"

definition Fe_square :: "Fe \<Rightarrow> Fe" where "Fe_square f = mul_inner f f"

definition Fe_square2 :: "Fe \<Rightarrow> Fe" where "Fe_square2 f = (let s = Fe_square f in Fe_add s s)"

fun Fe_square_n :: "Fe \<Rightarrow> nat \<Rightarrow> Fe" where
  "Fe_square_n f 0 = f"
| "Fe_square_n f (Suc k) = Fe_square_n (Fe_square f) k"

definition Fe_pow_p58 :: "Fe \<Rightarrow> Fe" where
  "Fe_pow_p58 f =
     (let t0 = Fe_square f;
          t1 = Fe_square (Fe_square t0);
          t1 = Fe_mul f t1;
          t0 = Fe_mul t0 t1;
          t0 = Fe_square t0;
          t0 = Fe_mul t1 t0;
          t1 = Fe_square_n t0 5;
          t0 = Fe_mul t1 t0;
          t1 = Fe_square_n t0 10;
          t1 = Fe_mul t1 t0;
          t2 = Fe_square_n t1 20;
          t1 = Fe_mul t2 t1;
          t1 = Fe_square_n t1 10;
          t0 = Fe_mul t1 t0;
          t1 = Fe_square_n t0 50;
          t1 = Fe_mul t1 t0;
          t2 = Fe_square_n t1 100;
          t1 = Fe_mul t2 t1;
          t1 = Fe_square_n t1 50;
          t0 = Fe_mul t1 t0;
          t0 = Fe_square_n t0 2
      in Fe_mul t0 f)"

definition Fe_invert :: "Fe \<Rightarrow> Fe" where
  "Fe_invert f =
     (let t0 = Fe_square f;
          t1 = Fe_square (Fe_square t0);
          t1 = Fe_mul f t1;
          t0 = Fe_mul t0 t1;
          t2 = Fe_square t0;
          t1 = Fe_mul t1 t2;
          t2 = Fe_square_n t1 5;
          t1 = Fe_mul t2 t1;
          t2 = Fe_square_n t1 10;
          t2 = Fe_mul t2 t1;
          t3 = Fe_square_n t2 20;
          t2 = Fe_mul t3 t2;
          t2 = Fe_square_n t2 10;
          t1 = Fe_mul t2 t1;
          t2 = Fe_square_n t1 50;
          t2 = Fe_mul t2 t1;
          t3 = Fe_square_n t2 100;
          t2 = Fe_mul t3 t2;
          t2 = Fe_square_n t2 50;
          t1 = Fe_mul t2 t1;
          t1 = Fe_square_n t1 5
      in Fe_mul t1 t0)"

definition divpowm1 :: "Fe \<Rightarrow> Fe \<Rightarrow> Fe" where
  "divpowm1 u v =
     (let v3 = Fe_mul (Fe_square v) v;
          uv7 = Fe_mul (Fe_mul (Fe_square v3) v) u;
          t = Fe_pow_p58 uv7
      in Fe_mul (Fe_mul t v3) u)"

section \<open>The field and the abstraction\<close>

type_synonym fp = "57896044618658097711785492504343953926634992332820282019728792003956564819949"

lemma card_fp: "CARD(fp) = 2 ^ 255 - 19"
  by simp

fun fe_val :: "Fe \<Rightarrow> nat" where
  "fe_val (Fe l0 l1 l2 l3 l4) =
     unat l0 + 2 ^ 51 * unat l1 + 2 ^ 102 * unat l2 + 2 ^ 153 * unat l3 + 2 ^ 204 * unat l4"

definition fe :: "Fe \<Rightarrow> fp" where "fe f = of_nat (fe_val f)"

fun limbs_below :: "nat \<Rightarrow> Fe \<Rightarrow> bool" where
  "limbs_below b (Fe l0 l1 l2 l3 l4) \<longleftrightarrow> unat l0 < b \<and> unat l1 < b \<and> unat l2 < b \<and> unat l3 < b \<and> unat l4 < b"

definition fe_ok :: "Fe \<Rightarrow> bool" where "fe_ok f \<longleftrightarrow> limbs_below (2 ^ 52) f"

lemma two_255: "(2 :: fp) ^ 255 = 19"
  by simp

lemma of_nat_fp_fold: "of_nat (a + 2 ^ 255 * q) = (of_nat (a + 19 * q) :: fp)"
proof -
  have "of_nat (a + 2 ^ 255 * q) = (of_nat a + (2 :: fp) ^ 255 * of_nat q)" by (simp only: of_nat_simps of_nat_power of_nat_numeral)
  also have "\<dots> = of_nat (a + 19 * q)" unfolding two_255 by simp
  finally show ?thesis .
qed

lemma unat_low51: "unat (w AND LOW_51) = unat w mod 2 ^ 51" for w :: u64
proof -
  have "LOW_51 = mask 51" by (simp add: LOW_51_def mask_eq_exp_minus_1)
  then have "w AND LOW_51 = take_bit 51 w" by (metis take_bit_eq_mask)
  then show ?thesis by (simp only: unat_take_bit_mod)
qed

lemma split_51: "unat w = unat (w AND LOW_51) + 2 ^ 51 * unat (drop_bit 51 w)" for w :: u64
  by (simp add: unat_low51 unat_drop_bit_div)

lemma weak_reduce_ok:
  assumes "limbs_below (2 ^ 63) f"
  shows "fe (weak_reduce f) = fe f \<and> fe_ok (weak_reduce f) \<and>
    (\<forall>l0 l1 l2 l3 l4. weak_reduce f = Fe l0 l1 l2 l3 l4 \<longrightarrow>
       unat l0 < 2 ^ 51 \<and> unat l1 < 2 ^ 51 + 2 ^ 13 \<and> unat l2 < 2 ^ 51 \<and> unat l3 < 2 ^ 51 \<and> unat l4 < 2 ^ 51)"
proof (cases f)
  case (Fe l0 l1 l2 l3 l4)
  with assms have b: "unat l0 < 2 ^ 63" "unat l1 < 2 ^ 63" "unat l2 < 2 ^ 63" "unat l3 < 2 ^ 63" "unat l4 < 2 ^ 63"
    by auto
  have hi: "unat (drop_bit 51 w) < 2 ^ 13" for w :: u64
    using unat_bound [of w] by (simp add: unat_drop_bit_div)
  have lo: "unat (w AND LOW_51) < 2 ^ 51" for w :: u64 by (simp add: unat_low51)
  define a1 where "a1 = l1 + drop_bit 51 l0"
  define a2 where "a2 = l2 + drop_bit 51 a1"
  define a3 where "a3 = l3 + drop_bit 51 a2"
  define a4 where "a4 = l4 + drop_bit 51 a3"
  define a0 where "a0 = (l0 AND LOW_51) + 19 * drop_bit 51 a4"
  define r1 where "r1 = (a1 AND LOW_51) + drop_bit 51 a0"
  have r: "weak_reduce f = Fe (a0 AND LOW_51) r1 (a2 AND LOW_51) (a3 AND LOW_51) (a4 AND LOW_51)"
    unfolding Fe weak_reduce.simps Let_def a1_def a2_def a3_def a4_def a0_def r1_def by simp
  have u: "unat (x + drop_bit 51 y) = unat x + unat (drop_bit 51 y)" if "unat x < 2 ^ 63" for x y :: u64
    using that hi [of y] by (intro unat_add_no_wrap) simp
  have u1: "unat a1 = unat l1 + unat (drop_bit 51 l0)" and u2: "unat a2 = unat l2 + unat (drop_bit 51 a1)"
    and u3: "unat a3 = unat l3 + unat (drop_bit 51 a2)" and u4: "unat a4 = unat l4 + unat (drop_bit 51 a3)"
    unfolding a1_def a2_def a3_def a4_def using b by (simp_all only: u)
  have m19: "unat (19 * drop_bit 51 a4) = 19 * unat (drop_bit 51 a4)"
    using hi [of a4] by (subst unat_mult_no_wrap) simp_all
  have u0: "unat a0 = unat (l0 AND LOW_51) + 19 * unat (drop_bit 51 a4)"
    unfolding a0_def using lo [of l0] hi [of a4] m19 by (subst unat_add_no_wrap) simp_all
  have ur: "unat r1 = unat (a1 AND LOW_51) + unat (drop_bit 51 a0)"
    unfolding r1_def using lo [of a1] by (intro u) simp
  have v: "fe_val f + 2 ^ 255 * 0 = (unat (l0 AND LOW_51) + 2 ^ 51 * unat (a1 AND LOW_51) + 2 ^ 102 * unat (a2 AND LOW_51)
      + 2 ^ 153 * unat (a3 AND LOW_51) + 2 ^ 204 * unat (a4 AND LOW_51)) + 2 ^ 255 * unat (drop_bit 51 a4)"
    using split_51 [of l0] split_51 [of a1] split_51 [of a2] split_51 [of a3] split_51 [of a4] u1 u2 u3 u4
    unfolding Fe fe_val.simps by simp
  have "fe_val (weak_reduce f) = (unat (l0 AND LOW_51) + 2 ^ 51 * unat (a1 AND LOW_51) + 2 ^ 102 * unat (a2 AND LOW_51)
      + 2 ^ 153 * unat (a3 AND LOW_51) + 2 ^ 204 * unat (a4 AND LOW_51)) + 19 * unat (drop_bit 51 a4)"
    using split_51 [of a0] u0 ur unfolding r fe_val.simps by simp
  then have "fe (weak_reduce f) = fe f"
    using arg_cong [OF v, of "of_nat :: nat \<Rightarrow> fp"] unfolding of_nat_fp_fold fe_def by simp
  moreover have "unat (drop_bit 51 a0) < 2 ^ 13" by (rule hi)
  ultimately show ?thesis
    using lo [of a0] lo [of a1] lo [of a2] lo [of a3] lo [of a4] ur unfolding r fe_ok_def by simp
qed

section \<open>Multiplication\<close>

lemma product_bound: "unat x < 2 ^ 52 \<Longrightarrow> unat y < 2 ^ 52 \<Longrightarrow> unat x * unat y < 2 ^ 104" for x y :: u64
  using mult_strict_mono [of "unat x" "2 ^ 52" "unat y" "2 ^ 52"] by simp

lemma unat_u64_128 [simp]: "unat (ucast (w :: u64) :: u128) = unat w"
  using unat_bound [of w] by (simp add: unat_ucast_mod)

lemma unat_mul_plain:
  "unat x < 2 ^ 52 \<Longrightarrow> unat y < 2 ^ 52 \<Longrightarrow> unat ((ucast (x :: u64) :: u128) * ucast (y :: u64)) = unat x * unat y"
  using product_bound [of x y] by (subst unat_mult_no_wrap) simp_all

lemma unat_mul_19:
  assumes "unat x < 2 ^ 52" "unat y < 2 ^ 52"
  shows "unat ((ucast (x :: u64) :: u128) * (ucast (y :: u64) * 19)) = 19 * (unat x * unat y)"
proof -
  have y: "unat ((ucast y :: u128) * 19) = unat y * 19"
    using assms(2) by (subst unat_mult_no_wrap) simp_all
  have "unat x * (unat y * 19) < 2 ^ 128" using product_bound [OF assms] by simp
  then show ?thesis by (subst unat_mult_no_wrap) (simp_all add: y)
qed

text \<open>Five summands below \<open>19 * 2 ^ 104\<close> do not wrap 128 bits.\<close>

lemma unat_sum5:
  fixes a b c d e :: u128
  assumes "unat a < 2 ^ 110" "unat b < 2 ^ 110" "unat c < 2 ^ 110" "unat d < 2 ^ 110" "unat e < 2 ^ 110"
  shows "unat (a + b + c + d + e) = unat a + unat b + unat c + unat d + unat e"
  using assms by (simp add: unat_word_ariths)

text \<open>The carry chain over the five columns, on numbers.\<close>

lemma carry_chain:
  fixes c0 c1 c2 c3 c4 :: u128
  assumes c: "unat c0 < 2 ^ 111" "unat c1 < 2 ^ 111" "unat c2 < 2 ^ 111" "unat c3 < 2 ^ 111" "unat c4 < 2 ^ 107"
  defines "carry \<equiv> (\<lambda>c :: u128. ucast (drop_bit 51 c) :: u64)"
  defines "low \<equiv> (\<lambda>c :: u128. (ucast c :: u64) AND LOW_51)"
  defines "d1 \<equiv> c1 + ucast (carry c0)"
  defines "d2 \<equiv> c2 + ucast (carry d1)"
  defines "d3 \<equiv> c3 + ucast (carry d2)"
  defines "d4 \<equiv> c4 + ucast (carry d3)"
  defines "o0 \<equiv> low c0 + carry d4 * 19"
  defines "r \<equiv> Fe (o0 AND LOW_51) (low d1 + drop_bit 51 o0) (low d2) (low d3) (low d4)"
  shows "fe r = of_nat (unat c0 + 2 ^ 51 * unat c1 + 2 ^ 102 * unat c2 + 2 ^ 153 * unat c3 + 2 ^ 204 * unat c4)"
    "fe_ok r"
proof -
  have cv: "unat (carry x) = unat x div 2 ^ 51" if "unat x < 2 ^ 112" for x
    using that by (simp add: carry_def unat_ucast_mod unat_drop_bit_div)
  have cb: "unat (carry x) < 2 ^ 61" if "unat x < 2 ^ 112" for x using that by (simp add: cv)
  have lv: "unat (low x) = unat x mod 2 ^ 51" for x
    by (simp add: low_def unat_low51 unat_ucast_mod mod_mod_cancel)
  have lb: "unat (low x) < 2 ^ 51" for x by (simp add: lv)
  have sp: "unat x = unat (low x) + 2 ^ 51 * unat (carry x)" if "unat x < 2 ^ 112" for x
    using that by (simp add: lv cv)
  have u1: "unat d1 = unat c1 + unat (carry c0)" unfolding d1_def
    using c cb [of c0] by (subst unat_add_no_wrap) simp_all
  then have b1: "unat d1 < 2 ^ 112" using c cb [of c0] by simp
  have u2: "unat d2 = unat c2 + unat (carry d1)" unfolding d2_def
    using c cb [OF b1] by (subst unat_add_no_wrap) simp_all
  then have b2: "unat d2 < 2 ^ 112" using c cb [OF b1] by simp
  have u3: "unat d3 = unat c3 + unat (carry d2)" unfolding d3_def
    using c cb [OF b2] by (subst unat_add_no_wrap) simp_all
  then have b3: "unat d3 < 2 ^ 112" using c cb [OF b2] by simp
  have u4: "unat d4 = unat c4 + unat (carry d3)" unfolding d4_def
    using c cb [OF b3] by (subst unat_add_no_wrap) simp_all
  then have b4: "unat d4 < 2 ^ 108" using c cb [OF b3] by simp
  then have c4: "unat (carry d4) < 2 ^ 57" by (simp add: cv)
  have u0: "unat o0 = unat (low c0) + 19 * unat (carry d4)"
  proof -
    have "unat (carry d4 * 19) = 19 * unat (carry d4)" using c4 by (subst unat_mult_no_wrap) simp_all
    then show ?thesis unfolding o0_def using c4 lb [of c0] by (subst unat_add_no_wrap) simp_all
  qed
  then have "unat (drop_bit 51 o0) < 2 ^ 12" using c4 lb [of c0] by (simp add: unat_drop_bit_div)
  then have ur: "unat (low d1 + drop_bit 51 o0) = unat (low d1) + unat (drop_bit 51 o0)"
    and rb: "unat (low d1 + drop_bit 51 o0) < 2 ^ 52"
    using lb [of d1] by (simp_all add: unat_word_ariths)
  have s: "unat c0 + 2 ^ 51 * unat c1 + 2 ^ 102 * unat c2 + 2 ^ 153 * unat c3 + 2 ^ 204 * unat c4 =
      (unat (low c0) + 2 ^ 51 * unat (low d1) + 2 ^ 102 * unat (low d2) + 2 ^ 153 * unat (low d3) + 2 ^ 204 * unat (low d4))
      + 2 ^ 255 * unat (carry d4)"
    using sp [of c0] sp [OF b1] sp [OF b2] sp [OF b3] sp [of d4] b4 c u1 u2 u3 u4 by simp
  have "fe_val r = (unat (low c0) + 2 ^ 51 * unat (low d1) + 2 ^ 102 * unat (low d2) + 2 ^ 153 * unat (low d3)
      + 2 ^ 204 * unat (low d4)) + 19 * unat (carry d4)"
    using split_51 [of o0] u0 ur unfolding r_def fe_val.simps by simp
  then show "fe r = of_nat (unat c0 + 2 ^ 51 * unat c1 + 2 ^ 102 * unat c2 + 2 ^ 153 * unat c3 + 2 ^ 204 * unat c4)"
    unfolding s of_nat_fp_fold fe_def by simp
  show "fe_ok r" using lb [of d2] lb [of d3] lb [of d4] rb by (simp add: r_def unat_low51 fe_ok_def)
qed

text \<open>Schoolbook multiplication with the fold of the fifth power.\<close>

lemma columns_19:
  fixes t :: "'a::comm_ring_1"
  assumes "t ^ 5 = 19"
  shows "(a0 + t * a1 + t ^ 2 * a2 + t ^ 3 * a3 + t ^ 4 * a4) * (b0 + t * b1 + t ^ 2 * b2 + t ^ 3 * b3 + t ^ 4 * b4) =
    (a0 * b0 + 19 * (a1 * b4 + a2 * b3 + a3 * b2 + a4 * b1)) + t * (a0 * b1 + a1 * b0 + 19 * (a2 * b4 + a3 * b3 + a4 * b2))
    + t ^ 2 * (a0 * b2 + a1 * b1 + a2 * b0 + 19 * (a3 * b4 + a4 * b3))
    + t ^ 3 * (a0 * b3 + a1 * b2 + a2 * b1 + a3 * b0 + 19 * (a4 * b4))
    + t ^ 4 * (a0 * b4 + a1 * b3 + a2 * b2 + a3 * b1 + a4 * b0)" (is "?l = ?r")
proof -
  have "?l = a0 * b0 + t * (a0 * b1 + a1 * b0) + t ^ 2 * (a0 * b2 + a1 * b1 + a2 * b0)
      + t ^ 3 * (a0 * b3 + a1 * b2 + a2 * b1 + a3 * b0) + t ^ 4 * (a0 * b4 + a1 * b3 + a2 * b2 + a3 * b1 + a4 * b0)
      + t ^ 5 * ((a1 * b4 + a2 * b3 + a3 * b2 + a4 * b1) + t * (a2 * b4 + a3 * b3 + a4 * b2)
      + t ^ 2 * (a3 * b4 + a4 * b3) + t ^ 3 * (a4 * b4))"
    by (simp add: algebra_simps power2_eq_square power3_eq_cube power4_eq_xxxx eval_nat_numeral)
  then show ?thesis unfolding assms by (simp add: algebra_simps)
qed

lemma columns_fp:
  "of_nat (n00 + 19 * (n14 + n23 + n32 + n41) + 2 ^ 51 * (n01 + n10 + 19 * (n24 + n33 + n42))
      + 2 ^ 102 * (n02 + n11 + n20 + 19 * (n34 + n43)) + 2 ^ 153 * (n03 + n12 + n21 + n30 + 19 * n44)
      + 2 ^ 204 * (n04 + n13 + n22 + n31 + n40)) = fe (Fe a0 a1 a2 a3 a4) * fe (Fe b0 b1 b2 b3 b4)"
  if "n00 = unat a0 * unat b0" "n01 = unat a0 * unat b1" "n02 = unat a0 * unat b2" "n03 = unat a0 * unat b3" "n04 = unat a0 * unat b4"
    "n10 = unat a1 * unat b0" "n11 = unat a1 * unat b1" "n12 = unat a1 * unat b2" "n13 = unat a1 * unat b3" "n14 = unat a1 * unat b4"
    "n20 = unat a2 * unat b0" "n21 = unat a2 * unat b1" "n22 = unat a2 * unat b2" "n23 = unat a2 * unat b3" "n24 = unat a2 * unat b4"
    "n30 = unat a3 * unat b0" "n31 = unat a3 * unat b1" "n32 = unat a3 * unat b2" "n33 = unat a3 * unat b3" "n34 = unat a3 * unat b4"
    "n40 = unat a4 * unat b0" "n41 = unat a4 * unat b1" "n42 = unat a4 * unat b2" "n43 = unat a4 * unat b3" "n44 = unat a4 * unat b4"
proof -
  define t :: fp where "t = 2 ^ 51"
  have t: "t ^ 5 = 19" "(2 :: fp) ^ 102 = t ^ 2" "(2 :: fp) ^ 153 = t ^ 3" "(2 :: fp) ^ 204 = t ^ 4"
    unfolding t_def power_mult [symmetric] by simp_all
  have F: "fe (Fe x0 x1 x2 x3 x4) = of_nat (unat x0) + t * of_nat (unat x1) + t ^ 2 * of_nat (unat x2)
      + t ^ 3 * of_nat (unat x3) + t ^ 4 * of_nat (unat x4)" for x0 x1 x2 x3 x4
    unfolding fe_def fe_val.simps of_nat_add of_nat_mult of_nat_power of_nat_numeral t(2-4) t_def [symmetric] by (rule refl)
  show ?thesis
    unfolding F columns_19 [OF t(1)] of_nat_add of_nat_mult of_nat_power of_nat_numeral t(2-4) t_def [symmetric] that
    by (rule refl)
qed

lemma mul_inner_ok:
  assumes "fe_ok f" "fe_ok g"
  shows "fe (mul_inner f g) = fe f * fe g \<and> fe_ok (mul_inner f g)"
proof (cases f; cases g)
  fix a0 a1 a2 a3 a4 b0 b1 b2 b3 b4
  assume F: "f = Fe a0 a1 a2 a3 a4" and G: "g = Fe b0 b1 b2 b3 b4"
  define N where "N = (\<lambda>(x :: u64) (y :: u64). unat x * unat y)"
  from assms F G have b: "unat a0 < 2 ^ 52" "unat a1 < 2 ^ 52" "unat a2 < 2 ^ 52" "unat a3 < 2 ^ 52" "unat a4 < 2 ^ 52"
    "unat b0 < 2 ^ 52" "unat b1 < 2 ^ 52" "unat b2 < 2 ^ 52" "unat b3 < 2 ^ 52" "unat b4 < 2 ^ 52" by (simp_all add: fe_ok_def)
  define P where "P = (\<lambda>(x :: u64) (y :: u64). (ucast x :: u128) * ucast y)"
  define Q where "Q = (\<lambda>(x :: u64) (y :: u64). (ucast x :: u128) * (ucast y * 19))"
  have pn: "unat (P x y) = N x y" "unat (Q x y) = 19 * N x y" "N x y < 2 ^ 104"
    if "unat x < 2 ^ 52" "unat y < 2 ^ 52" for x y
    using that product_bound [of x y] by (simp_all add: P_def Q_def N_def unat_mul_plain unat_mul_19)
  have pb: "unat (P x y) < 2 ^ 110" "unat (Q x y) < 2 ^ 110" if "unat x < 2 ^ 52" "unat y < 2 ^ 52" for x y
    using pn [OF that] by simp_all
  define c0 where "c0 = P a0 b0 + Q a1 b4 + Q a2 b3 + Q a3 b2 + Q a4 b1"
  define c1 where "c1 = P a0 b1 + P a1 b0 + Q a2 b4 + Q a3 b3 + Q a4 b2"
  define c2 where "c2 = P a0 b2 + P a1 b1 + P a2 b0 + Q a3 b4 + Q a4 b3"
  define c3 where "c3 = P a0 b3 + P a1 b2 + P a2 b1 + P a3 b0 + Q a4 b4"
  define c4 where "c4 = P a0 b4 + P a1 b3 + P a2 b2 + P a3 b1 + P a4 b0"
  have u: "unat c0 = N a0 b0 + 19 * (N a1 b4 + N a2 b3 + N a3 b2 + N a4 b1)"
    "unat c1 = N a0 b1 + N a1 b0 + 19 * (N a2 b4 + N a3 b3 + N a4 b2)"
    "unat c2 = N a0 b2 + N a1 b1 + N a2 b0 + 19 * (N a3 b4 + N a4 b3)"
    "unat c3 = N a0 b3 + N a1 b2 + N a2 b1 + N a3 b0 + 19 * N a4 b4"
    "unat c4 = N a0 b4 + N a1 b3 + N a2 b2 + N a3 b1 + N a4 b0"
    unfolding c0_def c1_def c2_def c3_def c4_def by ((subst unat_sum5, (rule pb b)+), simp only: pn b add_mult_distrib2 add.assoc)+
  have "unat c0 < 2 ^ 111" "unat c1 < 2 ^ 111" "unat c2 < 2 ^ 111" "unat c3 < 2 ^ 111" "unat c4 < 2 ^ 107"
    unfolding u using pn(3) [OF b(1) b(6)] pn(3) [OF b(2) b(10)] pn(3) [OF b(3) b(9)] pn(3) [OF b(4) b(8)] pn(3) [OF b(5) b(7)]
      pn(3) [OF b(1) b(7)] pn(3) [OF b(2) b(6)] pn(3) [OF b(3) b(10)] pn(3) [OF b(4) b(9)] pn(3) [OF b(5) b(8)]
      pn(3) [OF b(1) b(8)] pn(3) [OF b(2) b(7)] pn(3) [OF b(3) b(6)] pn(3) [OF b(4) b(10)] pn(3) [OF b(5) b(9)]
      pn(3) [OF b(1) b(9)] pn(3) [OF b(2) b(8)] pn(3) [OF b(3) b(7)] pn(3) [OF b(4) b(6)] pn(3) [OF b(5) b(10)]
      pn(3) [OF b(1) b(10)] pn(3) [OF b(2) b(9)] pn(3) [OF b(3) b(8)] pn(3) [OF b(4) b(7)] pn(3) [OF b(5) b(6)]
    by simp_all
  note chain = carry_chain [OF this]
  have "fe f * fe g = of_nat (unat c0 + 2 ^ 51 * unat c1 + 2 ^ 102 * unat c2 + 2 ^ 153 * unat c3 + 2 ^ 204 * unat c4)"
    unfolding F G u N_def by (rule columns_fp [symmetric]) (rule refl)+
  with chain show "fe (mul_inner f g) = fe f * fe g \<and> fe_ok (mul_inner f g)"
    unfolding F G mul_inner_def Fe.case Let_def c0_def c1_def c2_def c3_def c4_def P_def Q_def by argo
qed

section \<open>Ring operations and their exponents\<close>

lemma limbs_below_mono: "limbs_below m f \<Longrightarrow> m \<le> n \<Longrightarrow> limbs_below n f"
  by (cases f) auto

lemma Fe_mul_ok: "fe_ok f \<Longrightarrow> fe_ok g \<Longrightarrow> fe (Fe_mul f g) = fe f * fe g \<and> fe_ok (Fe_mul f g)"
  unfolding Fe_mul_def by (rule mul_inner_ok)

lemma Fe_square_ok: "fe_ok f \<Longrightarrow> fe (Fe_square f) = fe f ^ 2 \<and> fe_ok (Fe_square f)"
  unfolding Fe_square_def power2_eq_square by (rule mul_inner_ok)

lemma Fe_add_ok:
  assumes "fe_ok f" "fe_ok g"
  shows "fe (Fe_add f g) = fe f + fe g \<and> fe_ok (Fe_add f g)"
proof (cases f; cases g)
  fix a0 a1 a2 a3 a4 b0 b1 b2 b3 b4
  assume F: "f = Fe a0 a1 a2 a3 a4" and G: "g = Fe b0 b1 b2 b3 b4"
  have u: "unat (x + y) = unat x + unat y \<and> unat (x + y) < 2 ^ 63" if "unat x < 2 ^ 52" "unat y < 2 ^ 52" for x y :: u64
    using that by (subst (1 2) unat_add_no_wrap) simp_all
  let ?s = "Fe (a0 + b0) (a1 + b1) (a2 + b2) (a3 + b3) (a4 + b4)"
  have "limbs_below (2 ^ 63) ?s" using assms u unfolding F G fe_ok_def limbs_below.simps by blast
  then have "fe (weak_reduce ?s) = fe ?s \<and> fe_ok (weak_reduce ?s)" using weak_reduce_ok by blast
  moreover have "fe_val ?s = fe_val f + fe_val g"
    using assms unfolding F G fe_ok_def limbs_below.simps fe_val.simps by (simp add: u algebra_simps)
  ultimately show "fe (Fe_add f g) = fe f + fe g \<and> fe_ok (Fe_add f g)"
    unfolding F G fe_def Fe_add.simps by (simp only: of_nat_add)
qed

text \<open>Subtraction adds \<open>2 p\<close> limb by limb first: \<open>2 p\<close> vanishes in the field and no limb goes below zero.\<close>

lemma Fe_sub_ok:
  assumes "fe_ok f" "fe_ok g"
  shows "fe (Fe_sub f g) = fe f - fe g \<and> fe_ok (Fe_sub f g)"
proof (cases f; cases "weak_reduce g")
  fix a0 a1 a2 a3 a4 r0 r1 r2 r3 r4
  assume F: "f = Fe a0 a1 a2 a3 a4" and G: "weak_reduce g = Fe r0 r1 r2 r3 r4"
  have "limbs_below (2 ^ 63) g" using assms(2) unfolding fe_ok_def by (rule limbs_below_mono) simp
  from weak_reduce_ok [OF this] G have g: "fe (weak_reduce g) = fe g"
    and r: "unat r0 < 2 ^ 51" "unat r1 < 2 ^ 51 + 2 ^ 13" "unat r2 < 2 ^ 51" "unat r3 < 2 ^ 51" "unat r4 < 2 ^ 51" by auto
  have u: "unat (x + k - y) = unat x + unat k - unat y \<and> unat (x + k - y) < 2 ^ 63"
    if "unat x < 2 ^ 52" "unat y \<le> unat k" "unat k < 2 ^ 52" for x y k :: u64
  proof -
    have "unat (x + k) = unat x + unat k" using that by (subst unat_add_no_wrap) simp_all
    moreover from this have "unat (x + k - y) = unat (x + k) - unat y" using that by (intro unat_sub) (simp add: word_le_nat_alt)
    ultimately show ?thesis using that by simp
  qed
  let ?p = "0x000fffffffffffda :: u64" and ?q = "0x000ffffffffffffe :: u64"
  let ?s = "Fe (a0 + ?p - r0) (a1 + ?q - r1) (a2 + ?q - r2) (a3 + ?q - r3) (a4 + ?q - r4)"
  from assms(1) have a: "unat a0 < 2 ^ 52" "unat a1 < 2 ^ 52" "unat a2 < 2 ^ 52" "unat a3 < 2 ^ 52" "unat a4 < 2 ^ 52"
    unfolding F fe_ok_def by simp_all
  have s: "unat (a0 + ?p - r0) = unat a0 + 0x000fffffffffffda - unat r0 \<and> unat (a0 + ?p - r0) < 2 ^ 63"
    "unat (a1 + ?q - r1) = unat a1 + 0x000ffffffffffffe - unat r1 \<and> unat (a1 + ?q - r1) < 2 ^ 63"
    "unat (a2 + ?q - r2) = unat a2 + 0x000ffffffffffffe - unat r2 \<and> unat (a2 + ?q - r2) < 2 ^ 63"
    "unat (a3 + ?q - r3) = unat a3 + 0x000ffffffffffffe - unat r3 \<and> unat (a3 + ?q - r3) < 2 ^ 63"
    "unat (a4 + ?q - r4) = unat a4 + 0x000ffffffffffffe - unat r4 \<and> unat (a4 + ?q - r4) < 2 ^ 63"
    using u [of a0 r0 ?p] u [of a1 r1 ?q] u [of a2 r2 ?q] u [of a3 r3 ?q] u [of a4 r4 ?q] a r by simp_all
  then have "limbs_below (2 ^ 63) ?s" by simp
  then have w: "fe (weak_reduce ?s) = fe ?s \<and> fe_ok (weak_reduce ?s)" using weak_reduce_ok by blast
  have "fe_val ?s + fe_val (weak_reduce g) = fe_val f + (2 ^ 256 - 38)"
    using s r unfolding F G fe_val.simps by simp
  from arg_cong [OF this, of "of_nat :: nat \<Rightarrow> fp"] have "fe ?s + fe g = fe f + of_nat (2 ^ 256 - 38)"
    unfolding of_nat_add fe_def [symmetric] g .
  moreover have "(of_nat (2 ^ 256 - 38) :: fp) = 0" by simp
  ultimately have "fe ?s = fe f - fe g" by (simp add: eq_diff_eq)
  with w show "fe (Fe_sub f g) = fe f - fe g \<and> fe_ok (Fe_sub f g)"
    unfolding Fe_sub_def G unfolding F Fe_sub_reduced.simps by (simp only: simp_thms)
qed

lemma fe_zero_one [simp]: "fe Fe_ZERO = 0" "fe Fe_ONE = 1" "fe_ok Fe_ZERO" "fe_ok Fe_ONE"
  by (simp_all add: fe_def Fe_ZERO_def Fe_ONE_def fe_ok_def)

lemma Fe_neg_ok: "fe_ok f \<Longrightarrow> fe (Fe_neg f) = - fe f \<and> fe_ok (Fe_neg f)"
  unfolding Fe_neg_def using Fe_sub_ok [of Fe_ZERO f] by simp

lemma Fe_square2_ok: "fe_ok f \<Longrightarrow> fe (Fe_square2 f) = 2 * fe f ^ 2 \<and> fe_ok (Fe_square2 f)"
  using Fe_square_ok [of f] Fe_add_ok [of "Fe_square f" "Fe_square f"] by (simp add: Fe_square2_def Let_def)

lemma Fe_square_n_ok: "fe_ok f \<Longrightarrow> fe (Fe_square_n f k) = fe f ^ (2 ^ k) \<and> fe_ok (Fe_square_n f k)"
proof (induction k arbitrary: f)
  case (Suc k)
  from Fe_square_ok [OF Suc.prems] Suc.IH [of "Fe_square f"] show ?case
    by (simp flip: power_mult)
qed simp

text \<open>Addition chains: an element that is the \<open>n\<close>-th power of \<open>f\<close>.\<close>

definition is_pow :: "Fe \<Rightarrow> nat \<Rightarrow> Fe \<Rightarrow> bool" where
  "is_pow f n g \<longleftrightarrow> fe g = fe f ^ n \<and> fe_ok g"

lemma is_pow_mul: "is_pow f m a \<Longrightarrow> is_pow f n b \<Longrightarrow> is_pow f (m + n) (Fe_mul a b)"
  unfolding is_pow_def using Fe_mul_ok [of a b] by (simp add: power_add)

lemma is_pow_square: "is_pow f m a \<Longrightarrow> is_pow f (2 * m) (Fe_square a)"
  unfolding is_pow_def using Fe_square_ok [of a] by (simp add: power_mult mult.commute flip: power_mult)

lemma is_pow_square_n: "is_pow f m a \<Longrightarrow> is_pow f (2 ^ k * m) (Fe_square_n a k)"
  unfolding is_pow_def using Fe_square_n_ok [of a k] by (simp add: mult.commute flip: power_mult)

lemma is_pow_self: "fe_ok f \<Longrightarrow> is_pow f 1 f"
  by (simp add: is_pow_def)

lemmas is_pow_intros = is_pow_mul is_pow_square is_pow_square_n

lemma Fe_pow_p58_ok:
  assumes "fe_ok f"
  shows "fe (Fe_pow_p58 f) = fe f ^ (2 ^ 252 - 3) \<and> fe_ok (Fe_pow_p58 f)"
proof -
  have "is_pow f (2 ^ 252 - 3) (Fe_pow_p58 f)"
    unfolding Fe_pow_p58_def Let_def
    by (rule back_subst [where P = "\<lambda>n. is_pow f n _"], (rule is_pow_intros is_pow_self assms)+) simp
  then show ?thesis by (simp only: is_pow_def)
qed

lemma Fe_invert_ok:
  assumes "fe_ok f"
  shows "fe (Fe_invert f) = fe f ^ (2 ^ 255 - 21) \<and> fe_ok (Fe_invert f)"
proof -
  have "is_pow f (2 ^ 255 - 21) (Fe_invert f)"
    unfolding Fe_invert_def Let_def
    by (rule back_subst [where P = "\<lambda>n. is_pow f n _"], (rule is_pow_intros is_pow_self assms)+) simp
  then show ?thesis by (simp only: is_pow_def)
qed

lemma divpowm1_ok:
  assumes "fe_ok u" "fe_ok v"
  shows "fe (divpowm1 u v) = (fe u * fe v ^ 7) ^ (2 ^ 252 - 3) * fe v ^ 3 * fe u \<and> fe_ok (divpowm1 u v)"
proof -
  define v3 where "v3 = Fe_mul (Fe_square v) v"
  define uv7 where "uv7 = Fe_mul (Fe_mul (Fe_square v3) v) u"
  have v2: "fe (Fe_square v) = fe v ^ 2" "fe_ok (Fe_square v)" using Fe_square_ok assms by blast+
  have v3: "fe v3 = fe v ^ 3" "fe_ok v3"
    unfolding v3_def using Fe_mul_ok [OF v2(2) assms(2)] v2 by (simp_all add: power2_eq_square power3_eq_cube)
  have v6: "fe (Fe_square v3) = fe v ^ 6" "fe_ok (Fe_square v3)" using Fe_square_ok [OF v3(2)] v3 by (simp_all flip: power_mult)
  have v7: "fe (Fe_mul (Fe_square v3) v) = fe v ^ 7" "fe_ok (Fe_mul (Fe_square v3) v)"
    using Fe_mul_ok [OF v6(2) assms(2)] v6(1) by (simp_all flip: power_Suc2)
  have uv7: "fe uv7 = fe u * fe v ^ 7" "fe_ok uv7"
    unfolding uv7_def using Fe_mul_ok [OF v7(2) assms(1)] v7(1) by (simp_all add: mult.commute)
  note t = Fe_pow_p58_ok [OF uv7(2)]
  note tv = Fe_mul_ok [OF t [THEN conjunct2] v3(2)]
  show ?thesis
    using Fe_mul_ok [OF tv [THEN conjunct2] assms(1)] tv t uv7(1) v3(1)
    unfolding divpowm1_def Let_def v3_def [symmetric] uv7_def [symmetric] by presburger
qed

end
