(* ===== verification/FieldBytes.thy ===== *)
theory FieldBytes
  imports Field
begin

text \<open>
  The byte encodings of the field elements of \<open>crates/wow-crypto/src/field.rs\<close>: loading, the full
  reduction, the canonical encoding with its sign and zero tests, and the curve constants.
\<close>

section \<open>Bytes\<close>

lemma le_nat_take_drop:
  "le_nat (take n s) = le_nat s mod 256 ^ n" "le_nat (drop n s) = le_nat s div 256 ^ n"
proof -
  have "le_nat (take n s) = le_nat s mod 256 ^ n \<and> le_nat (drop n s) = le_nat s div 256 ^ n"
  proof (cases "n \<le> length s")
    case True
    have "le_nat s = le_nat (take n s) + 256 ^ n * le_nat (drop n s)"
      using le_nat_append [of "take n s" "drop n s"] True by simp
    moreover have "le_nat (take n s) < 256 ^ n" using le_nat_less [of "take n s"] True by simp
    ultimately show ?thesis by simp
  next
    case False
    then have "le_nat s < 256 ^ n" using le_nat_less [of s]
      by (meson less_le_trans nat_le_linear one_le_numeral power_increasing)
    with False show ?thesis by simp
  qed
  then show "le_nat (take n s) = le_nat s mod 256 ^ n" "le_nat (drop n s) = le_nat s div 256 ^ n" by simp_all
qed

lemma unat_Fe_load: "unat (Fe_load s i) = le_nat s div 256 ^ i mod 2 ^ 64"
proof -
  have "le_nat (take 8 (drop i s)) = le_nat s div 256 ^ i mod 256 ^ 8" by (simp only: le_nat_take_drop)
  then show ?thesis by (simp add: Fe_load_def u64_from_le_bytes_def)
qed

lemma unat_limb_load:
  assumes k: "k + 51 \<le> 64" and m: "m = 8 * i + k"
  shows "unat (drop_bit k (Fe_load s i) AND LOW_51) = le_nat s div 2 ^ m mod 2 ^ 51"
proof -
  have p: "(256 :: nat) ^ i = 2 ^ (8 * i)" by (simp add: power_mult)
  have "unat (drop_bit k (Fe_load s i) AND LOW_51) = take_bit 51 (drop_bit k (take_bit 64 (drop_bit (8 * i) (le_nat s))))"
    by (simp only: unat_low51 unat_drop_bit_div unat_Fe_load p flip: take_bit_eq_mod drop_bit_eq_div)
  also have "\<dots> = take_bit 51 (drop_bit (8 * i + k) (le_nat s))"
    using k min_absorb1 [of 51 "64 - k"] by (simp add: drop_bit_take_bit take_bit_take_bit add.commute)
  finally show ?thesis unfolding m by (simp only: take_bit_eq_mod drop_bit_eq_div)
qed

lemma digits_51:
  "N mod 2 ^ 255 = N mod 2 ^ 51 + 2 ^ 51 * (N div 2 ^ 51 mod 2 ^ 51) + 2 ^ 102 * (N div 2 ^ 102 mod 2 ^ 51)
     + 2 ^ 153 * (N div 2 ^ 153 mod 2 ^ 51) + 2 ^ 204 * (N div 2 ^ 204 mod 2 ^ 51)" for N :: nat
proof -
  have step: "N mod 2 ^ (k + 51) = N mod 2 ^ k + 2 ^ k * (N div 2 ^ k mod 2 ^ 51)" for k
    by (simp add: power_add mod_mult2_eq)
  note s = step [of 51, unfolded arith_simps] step [of 102, unfolded arith_simps] step [of 153, unfolded arith_simps]
    step [of 204, unfolded arith_simps]
  show ?thesis unfolding s by (rule refl)
qed

lemma Fe_from_bytes_val: "fe_val (Fe_from_bytes s) = le_nat s mod 2 ^ 255"
  and Fe_from_bytes_small: "limbs_below (2 ^ 51) (Fe_from_bytes s)"
proof -
  have l: "unat (drop_bit 0 (Fe_load s 0) AND LOW_51) = le_nat s div 2 ^ 0 mod 2 ^ 51"
    "unat (drop_bit 3 (Fe_load s 6) AND LOW_51) = le_nat s div 2 ^ 51 mod 2 ^ 51"
    "unat (drop_bit 6 (Fe_load s 12) AND LOW_51) = le_nat s div 2 ^ 102 mod 2 ^ 51"
    "unat (drop_bit 1 (Fe_load s 19) AND LOW_51) = le_nat s div 2 ^ 153 mod 2 ^ 51"
    "unat (drop_bit 12 (Fe_load s 24) AND LOW_51) = le_nat s div 2 ^ 204 mod 2 ^ 51"
    by (rule unat_limb_load; simp)+
  note l0 = l(1) [unfolded drop_bit_0 id_apply power_0 div_by_1]
  show "fe_val (Fe_from_bytes s) = le_nat s mod 2 ^ 255"
    unfolding Fe_from_bytes_def fe_val.simps l0 l(2-5) by (rule digits_51 [symmetric])
  show "limbs_below (2 ^ 51) (Fe_from_bytes s)" unfolding Fe_from_bytes_def limbs_below.simps l l0 by (intro conjI) (rule mod_less_divisor, rule zero_less_power, rule zero_less_numeral)+
qed

lemma Fe_from_bytes_ok: "fe (Fe_from_bytes s) = of_nat (le_nat s mod 2 ^ 255) \<and> fe_ok (Fe_from_bytes s)"
  unfolding fe_def Fe_from_bytes_val fe_ok_def using limbs_below_mono [OF Fe_from_bytes_small, of "2 ^ 52"] by simp

lemma top_bit:
  "b AND 0x80 \<noteq> 0 \<longleftrightarrow> 128 \<le> unat b" "unat (b AND 0x7f) = unat b mod 128" for b :: u8
proof -
  have "b AND 2 ^ 7 \<noteq> 0 \<longleftrightarrow> bit b 7" by (simp only: and_exp_eq_0_iff_not_bit not_not)
  also have "\<dots> \<longleftrightarrow> bit (unat b) 7" by (simp add: bit_unsigned_iff)
  also have "\<dots> \<longleftrightarrow> odd (unat b div 2 ^ 7)" by (rule bit_iff_odd)
  also have "\<dots> \<longleftrightarrow> 128 \<le> unat b" 
  proof -
    have "unat b div 128 = (if 128 \<le> unat b then 1 else 0)" using u8_less_256 [of b] by (auto intro: div_nat_eqI)
    then show ?thesis by simp
  qed
  finally show "b AND 0x80 \<noteq> 0 \<longleftrightarrow> 128 \<le> unat b" by simp
  have m: "(0x7f :: u8) = mask 7" by (simp add: mask_eq_exp_minus_1)
  show "unat (b AND 0x7f) = unat b mod 128"
    unfolding m by (simp add: take_bit_eq_mask [symmetric] unat_take_bit_mod)
qed

lemma le_nat_top:
  assumes "length s = 32"
  shows "le_nat s div 2 ^ 255 = unat (s ! 31) div 128" "le_nat s < 2 ^ 256"
proof -
  have "drop 31 s = [s ! 31]" using assms by (simp add: Cons_nth_drop_Suc [symmetric])
  then have "unat (s ! 31) = le_nat s div 256 ^ 31" using le_nat_take_drop(2) [of 31 s] by simp
  moreover have "(256 :: nat) ^ 31 * 128 = 2 ^ 255" by simp
  ultimately show "le_nat s div 2 ^ 255 = unat (s ! 31) div 128" by (metis div_mult2_eq)
  show "le_nat s < 2 ^ 256" using le_nat_less [of s] assms by simp
qed

lemma Fe_from_bytes_unmasked_ok:
  assumes "length s = 32"
  shows "fe (Fe_from_bytes_unmasked s) = of_nat (le_nat s) \<and> fe_ok (Fe_from_bytes_unmasked s)"
proof (cases "Fe_from_bytes s")
  case (Fe l0 l1 l2 l3 l4)
  let ?f = "Fe (if s ! 31 AND 0x80 \<noteq> 0 then l0 + 19 else l0) l1 l2 l3 l4"
  have l: "unat l0 < 2 ^ 51" "unat l1 < 2 ^ 51" "unat l2 < 2 ^ 51" "unat l3 < 2 ^ 51" "unat l4 < 2 ^ 51"
    using Fe_from_bytes_small [of s] by (simp_all add: Fe)
  have u: "unat (l0 + 19) = unat l0 + 19" using l(1) by (subst unat_add_no_wrap) simp_all
  have t: "le_nat s div 2 ^ 255 = (if s ! 31 AND 0x80 \<noteq> 0 then 1 else 0)"
  proof -
    have "unat (s ! 31) div 128 = (if 128 \<le> unat (s ! 31) then 1 else 0)"
      using u8_less_256 [of "s ! 31"] by (auto intro: div_nat_eqI)
    then show ?thesis unfolding le_nat_top(1) [OF assms] top_bit(1) .
  qed
  have "fe_val ?f = fe_val (Fe_from_bytes s) + 19 * (le_nat s div 2 ^ 255)"
    unfolding t Fe using u by simp
  then have "fe ?f = of_nat (le_nat s mod 2 ^ 255 + 19 * (le_nat s div 2 ^ 255))"
    unfolding fe_def Fe_from_bytes_val by (rule arg_cong)
  also have "\<dots> = of_nat (le_nat s)"
    unfolding of_nat_fp_fold [symmetric] by (simp only: mod_mult_div_eq)
  finally have v: "fe ?f = of_nat (le_nat s)" .
  have "limbs_below (2 ^ 63) ?f" using l u by simp
  from weak_reduce_ok [OF this] v show ?thesis unfolding Fe_from_bytes_unmasked_def Fe Fe.case by metis
qed

section \<open>Full reduction and the canonical encoding\<close>

lemma carried_quotient:
  fixes x0 :: nat
  assumes "q0 = x0 div B" "q1 = (x1 + q0) div B" "q2 = (x2 + q1) div B" "q3 = (x3 + q2) div B" "q4 = (x4 + q3) div B" "0 < B"
  shows "q4 = (x0 + B * x1 + B ^ 2 * x2 + B ^ 3 * x3 + B ^ 4 * x4) div B ^ 5"
proof -
  have step: "(a + B * b) div (B * m) = (b + a div B) div m" for a b m
    using assms(6) by (simp add: div_mult2_eq add.commute)
  have step2: "(a + B * b + c) div (B * m) = (b + (a + c) div B) div m" for a b c m
    using step [of "a + c" b m] by (simp add: ac_simps)
  have "(x0 + B * (x1 + B * (x2 + B * (x3 + B * x4)))) div (B * (B * (B * (B * B)))) = q4"
    unfolding step step2 assms(1-5) ..
  then show ?thesis by (simp add: algebra_simps power2_eq_square power3_eq_cube power4_eq_xxxx eval_nat_numeral)
qed

abbreviation P255 :: nat where "P255 \<equiv> 2 ^ 255 - 19"

definition fp_nat :: "fp \<Rightarrow> nat" where "fp_nat x = nat (Rep_bit1 x)"

lemma fp_nat_of_nat: "fp_nat (of_nat n) = n mod P255"
proof -
  have "Rep_bit1 (of_nat n :: fp) = int n mod int CARD(fp)" unfolding bit1.of_nat_eq by (rule bit1.Rep_Abs_mod)
  then have "fp_nat (of_nat n) = n mod CARD(fp)" by (simp only: fp_nat_def zmod_int [symmetric] nat_int)
  then show ?thesis by (simp only: card_fp)
qed

lemma fp_nat_inject: "fp_nat x = fp_nat y \<longleftrightarrow> x = y"
proof -
  have n: "int (fp_nat x) = Rep_bit1 x" for x unfolding fp_nat_def using bit1.Rep_mod [of x]
    by (metis int_nat_eq of_nat_0_less_iff pos_mod_sign zero_less_card_finite)
  show ?thesis unfolding bit1.Rep_inject_sym n [symmetric] by simp
qed

lemma unat_carry: "unat (x + y) = unat x + unat y \<and> unat (x + y) < 2 ^ 53" if "unat x < 2 ^ 52" "unat y < 2 ^ 52" for x y :: u64
  using that by (subst (1 2) unat_add_no_wrap) simp_all

lemma Fe_reduce_weak_ok:
  assumes b: "unat l0 < 2 ^ 51" "unat l1 < 2 ^ 51 + 2 ^ 13" "unat l2 < 2 ^ 51" "unat l3 < 2 ^ 51" "unat l4 < 2 ^ 51"
  defines "v \<equiv> fe_val (Fe l0 l1 l2 l3 l4)"
  shows "fe_val (Fe_reduce_weak (Fe l0 l1 l2 l3 l4)) = v mod P255 \<and> limbs_below (2 ^ 51) (Fe_reduce_weak (Fe l0 l1 l2 l3 l4))"
proof -
  have hi: "unat (drop_bit 51 w) < 2 ^ 13" for w :: u64 using unat_bound [of w] by (simp add: unat_drop_bit_div)
  have lo: "unat (w AND LOW_51) < 2 ^ 51" for w :: u64 by (simp add: unat_low51)
  have u: "unat (x + drop_bit 51 y) = unat x + unat (drop_bit 51 y)" if "unat x < 2 ^ 52" for x y :: u64
    using that hi [of y] by (subst unat_add_no_wrap) simp_all
  have b': "unat l1 < 2 ^ 52" "unat l2 < 2 ^ 52" "unat l3 < 2 ^ 52" "unat l4 < 2 ^ 52" using b by simp_all
  define q0 where "q0 = drop_bit 51 (l0 + 19)"
  define q1 where "q1 = drop_bit 51 (l1 + q0)"
  define q2 where "q2 = drop_bit 51 (l2 + q1)"
  define q3 where "q3 = drop_bit 51 (l3 + q2)"
  define q where "q = drop_bit 51 (l4 + q3)"
  have vb: "v < 2 ^ 255 + 2 ^ 65" using b unfolding v_def fe_val.simps by simp
  have uq: "unat q0 = (unat l0 + 19) div 2 ^ 51" "unat q1 = (unat l1 + unat q0) div 2 ^ 51"
    "unat q2 = (unat l2 + unat q1) div 2 ^ 51" "unat q3 = (unat l3 + unat q2) div 2 ^ 51" "unat q = (unat l4 + unat q3) div 2 ^ 51"
  proof -
    have "unat (l0 + 19) = unat l0 + 19" using b(1) by (subst unat_add_no_wrap) simp_all
    then show "unat q0 = (unat l0 + 19) div 2 ^ 51" unfolding q0_def unat_drop_bit_div by (rule arg_cong)
    have quot: "unat (drop_bit 51 (x + drop_bit 51 y)) = (unat x + unat (drop_bit 51 y)) div 2 ^ 51" if "unat x < 2 ^ 52" for x y :: u64
      unfolding unat_drop_bit_div [of 51 "x + _"] u [OF that] ..
    show "unat q1 = (unat l1 + unat q0) div 2 ^ 51" unfolding q1_def q0_def by (rule quot [OF b'(1)])
    show "unat q2 = (unat l2 + unat q1) div 2 ^ 51" unfolding q2_def q1_def by (rule quot [OF b'(2)])
    show "unat q3 = (unat l3 + unat q2) div 2 ^ 51" unfolding q3_def q2_def by (rule quot [OF b'(3)])
    show "unat q = (unat l4 + unat q3) div 2 ^ 51" unfolding q_def q3_def by (rule quot [OF b'(4)])
  qed
  have vq: "unat q = (v + 19) div 2 ^ 255"
    using carried_quotient [OF uq, simplified] unfolding v_def fe_val.simps by (simp add: ac_simps)
  define a0 where "a0 = l0 + 19 * q"
  define a1 where "a1 = l1 + drop_bit 51 a0"
  define a2 where "a2 = l2 + drop_bit 51 a1"
  define a3 where "a3 = l3 + drop_bit 51 a2"
  define a4 where "a4 = l4 + drop_bit 51 a3"
  have r: "Fe_reduce_weak (Fe l0 l1 l2 l3 l4) = Fe (a0 AND LOW_51) (a1 AND LOW_51) (a2 AND LOW_51) (a3 AND LOW_51) (a4 AND LOW_51)"
    unfolding Fe_reduce_weak.simps Let_def a0_def a1_def a2_def a3_def a4_def q_def q0_def q1_def q2_def q3_def by (rule refl)
  have q1: "unat q \<le> 1" unfolding vq using vb by (simp add: less_mult_imp_div_less less_Suc_eq_le [symmetric])
  have "unat (19 * q) = 19 * unat q" using q1 by (subst unat_mult_no_wrap) simp_all
  then have u0: "unat a0 = unat l0 + 19 * unat q" unfolding a0_def using b(1) q1 by (subst unat_add_no_wrap) simp_all
  have ua: "unat a1 = unat l1 + unat (drop_bit 51 a0)" "unat a2 = unat l2 + unat (drop_bit 51 a1)"
    "unat a3 = unat l3 + unat (drop_bit 51 a2)" "unat a4 = unat l4 + unat (drop_bit 51 a3)"
    unfolding a1_def a2_def a3_def a4_def by (rule u [OF b'(1)] u [OF b'(2)] u [OF b'(3)] u [OF b'(4)])+
  have tot: "v + 19 * unat q = fe_val (Fe_reduce_weak (Fe l0 l1 l2 l3 l4)) + 2 ^ 255 * unat (drop_bit 51 a4)"
    using split_51 [of a0] split_51 [of a1] split_51 [of a2] split_51 [of a3] split_51 [of a4] u0 ua
    unfolding r v_def fe_val.simps by simp
  have small: "fe_val (Fe_reduce_weak (Fe l0 l1 l2 l3 l4)) < 2 ^ 255"
    using lo [of a0] lo [of a1] lo [of a2] lo [of a3] lo [of a4] unfolding r fe_val.simps by simp
  have "fe_val (Fe_reduce_weak (Fe l0 l1 l2 l3 l4)) = (v + 19 * unat q) mod 2 ^ 255"
    unfolding tot using small by simp
  also have "\<dots> = v mod P255"
  proof (cases "v < P255")
    case True
    then show ?thesis unfolding vq by simp
  next
    case False
    then have "unat q = 1" using q1 unfolding vq using vb by simp
    moreover from False vb have "(v + 19) mod 2 ^ 255 = v - P255" "v mod P255 = v - P255"
      by (simp_all add: le_mod_geq)
    ultimately show ?thesis by simp
  qed
  finally show ?thesis unfolding r limbs_below.simps using lo by blast
qed

lemma unat_or_push:
  fixes a b :: u64
  assumes "unat a < 2 ^ n" "n < 64"
  shows "unat (a OR push_bit n b) = unat a + 2 ^ n * (unat b mod 2 ^ (64 - n))"
proof -
  have "a = take_bit n a" using assms(1) by (intro word_unat_eq_iff [THEN iffD2]) (simp add: unat_take_bit_mod)
  then have "bit a i \<Longrightarrow> i < n" for i by (metis bit_take_bit_iff)
  then have "a AND push_bit n b = 0" by (intro bit_eqI) (auto simp: bit_simps dest: leD)
  then have o: "a OR push_bit n b = a + push_bit n b" by (simp only: disjunctive_add_eq_or)
  have "unat (push_bit n b) = take_bit 64 (push_bit n (unat b))" by (simp add: unsigned_push_bit_eq)
  also have "\<dots> = push_bit n (take_bit (64 - n) (unat b))" by (rule take_bit_push_bit)
  finally have p: "unat (push_bit n b) = 2 ^ n * (unat b mod 2 ^ (64 - n))"
    by (simp add: push_bit_eq_mult take_bit_eq_mod mult.commute)
  have "unat b mod 2 ^ (64 - n) + 1 \<le> 2 ^ (64 - n)" by (simp add: Suc_leI)
  then have "2 ^ n * (unat b mod 2 ^ (64 - n) + 1) \<le> 2 ^ n * 2 ^ (64 - n)" by (rule mult_le_mono2)
  also have "\<dots> = 2 ^ 64" using assms(2) by (simp flip: power_add)
  finally have "unat a + unat (push_bit n b) < 2 ^ 64" using assms(1) unfolding p by (simp add: algebra_simps)
  then show ?thesis unfolding o by (subst unat_add_no_wrap) (simp_all add: p)
qed

lemma pack_51:
  fixes l0 l1 l2 l3 l4 :: u64
  assumes b: "unat l0 < 2 ^ 51" "unat l1 < 2 ^ 51" "unat l2 < 2 ^ 51" "unat l3 < 2 ^ 51" "unat l4 < 2 ^ 51"
  shows "le_nat (u64_to_le_bytes (l0 OR push_bit 51 l1) @ u64_to_le_bytes (drop_bit 13 l1 OR push_bit 38 l2) @
     u64_to_le_bytes (drop_bit 26 l2 OR push_bit 25 l3) @ u64_to_le_bytes (drop_bit 39 l3 OR push_bit 12 l4)) =
     fe_val (Fe l0 l1 l2 l3 l4)"
proof -
  have w: "le_nat (u64_to_le_bytes w) = unat w" for w
    using unat_bound [of w] by (simp add: u64_to_le_bytes_def le_nat_le_bytes)
  have d: "unat (drop_bit 13 l1) < 2 ^ 38" "unat (drop_bit 26 l2) < 2 ^ 25" "unat (drop_bit 39 l3) < 2 ^ 12"
    using b by (simp_all add: unat_drop_bit_div less_mult_imp_div_less)
  have o: "unat (l0 OR push_bit 51 l1) = unat l0 + 2 ^ 51 * (unat l1 mod 2 ^ 13)"
    "unat (drop_bit 13 l1 OR push_bit 38 l2) = unat (drop_bit 13 l1) + 2 ^ 38 * (unat l2 mod 2 ^ 26)"
    "unat (drop_bit 26 l2 OR push_bit 25 l3) = unat (drop_bit 26 l2) + 2 ^ 25 * (unat l3 mod 2 ^ 39)"
    "unat (drop_bit 39 l3 OR push_bit 12 l4) = unat (drop_bit 39 l3) + 2 ^ 12 * (unat l4 mod 2 ^ 52)"
    using unat_or_push [OF b(1), of l1] unat_or_push [OF d(1), of l2] unat_or_push [OF d(2), of l3] unat_or_push [OF d(3), of l4]
    by simp_all
  have s: "unat l1 = 2 ^ 13 * unat (drop_bit 13 l1) + unat l1 mod 2 ^ 13"
    "unat l2 = 2 ^ 26 * unat (drop_bit 26 l2) + unat l2 mod 2 ^ 26" "unat l3 = 2 ^ 39 * unat (drop_bit 39 l3) + unat l3 mod 2 ^ 39"
    by (simp_all only: unat_drop_bit_div mult_div_mod_eq)
  have t: "unat l4 mod 2 ^ 52 = unat l4" using b(5) by simp
  have "fe_val (Fe l0 l1 l2 l3 l4) = unat l0 + 2 ^ 51 * (2 ^ 13 * unat (drop_bit 13 l1) + unat l1 mod 2 ^ 13)
     + 2 ^ 102 * (2 ^ 26 * unat (drop_bit 26 l2) + unat l2 mod 2 ^ 26)
     + 2 ^ 153 * (2 ^ 39 * unat (drop_bit 39 l3) + unat l3 mod 2 ^ 39) + 2 ^ 204 * unat l4"
    unfolding fe_val.simps using s by metis
  then show ?thesis unfolding le_nat_append w o t by (simp add: len_simps algebra_simps)
qed

lemma Fe_to_bytes_value:
  assumes "fe_ok f"
  shows "length (Fe_to_bytes f) = 32" "le_nat (Fe_to_bytes f) = fp_nat (fe f)"
proof -
  have "limbs_below (2 ^ 63) f" using assms unfolding fe_ok_def by (rule limbs_below_mono) simp
  note w = weak_reduce_ok [OF this]
  obtain l0 l1 l2 l3 l4 where l: "weak_reduce f = Fe l0 l1 l2 l3 l4" by (cases "weak_reduce f")
  obtain r0 r1 r2 r3 r4 where r: "Fe_reduce f = Fe r0 r1 r2 r3 r4" by (cases "Fe_reduce f")
  have "fe_val (Fe_reduce f) = fe_val (weak_reduce f) mod P255 \<and> limbs_below (2 ^ 51) (Fe_reduce f)"
    unfolding Fe_reduce_def l using w l by (intro Fe_reduce_weak_ok) blast+
  moreover have "fp_nat (fe f) = fe_val (weak_reduce f) mod P255"
    using w unfolding fe_def by (metis fp_nat_of_nat)
  ultimately show "le_nat (Fe_to_bytes f) = fp_nat (fe f)"
    unfolding Fe_to_bytes_def r Fe.case limbs_below.simps by (simp only: pack_51)
  show "length (Fe_to_bytes f) = 32" unfolding Fe_to_bytes_def r by simp
qed

lemma Fe_to_bytes_eq:
  assumes "fe_ok f" "fe_ok g"
  shows "Fe_to_bytes f = Fe_to_bytes g \<longleftrightarrow> fe f = fe g"
  using Fe_to_bytes_value [OF assms(1)] Fe_to_bytes_value [OF assms(2)] by (metis fp_nat_inject le_bytes_le_nat)

lemma le_bytes_zero: "le_bytes n 0 = replicate n 0"
  by (induction n) simp_all

lemma Fe_is_nonzero_iff: "fe_ok f \<Longrightarrow> Fe_is_nonzero f \<longleftrightarrow> fe f \<noteq> 0"
proof -
  assume f: "fe_ok f"
  have "le_nat (Fe_to_bytes Fe_ZERO) = 0"
    using Fe_to_bytes_value(2) [OF fe_zero_one(3)] fp_nat_of_nat [of 0] by (simp only: fe_zero_one semiring_1_class.of_nat_0 mod_0)
  then have "Fe_to_bytes Fe_ZERO = replicate 32 0"
    using le_bytes_le_nat [OF Fe_to_bytes_value(1) [OF fe_zero_one(3)]] by (simp only: le_bytes_zero)
  with Fe_to_bytes_eq [OF f, of Fe_ZERO] show ?thesis by (simp add: Fe_is_nonzero_def)
qed

lemma Fe_is_negative_iff: "fe_ok f \<Longrightarrow> Fe_is_negative f \<longleftrightarrow> odd (fp_nat (fe f))"
proof -
  assume f: "fe_ok f"
  obtain b bs where b: "Fe_to_bytes f = b # bs" using Fe_to_bytes_value(1) [OF f] by (cases "Fe_to_bytes f") auto
  have "odd (fp_nat (fe f)) \<longleftrightarrow> odd (unat b)" unfolding Fe_to_bytes_value(2) [OF f, symmetric] b by simp
  moreover have "b AND 1 = 1 \<longleftrightarrow> odd b" by (simp add: and_one_eq odd_iff_mod_2_eq_one)
  moreover have "odd b \<longleftrightarrow> odd (unat b)" 
by (metis bit_0 bit_unsigned_iff bit_imp_possible_bit possible_bit_0)
  ultimately show ?thesis unfolding Fe_is_negative_def b by simp
qed

lemma Fe_bytes_roundtrip: "fe_ok f \<Longrightarrow> fe (Fe_from_bytes (Fe_to_bytes f)) = fe f"
proof -
  assume f: "fe_ok f"
  have "fp_nat (fe f) < 2 ^ 255" unfolding fe_def fp_nat_of_nat by (rule less_trans [OF mod_less_divisor]) simp_all
  then have "fe (Fe_from_bytes (Fe_to_bytes f)) = of_nat (fp_nat (fe f))"
    using Fe_from_bytes_ok [of "Fe_to_bytes f"] Fe_to_bytes_value(2) [OF f] by simp
  also have "\<dots> = fe f" by (metis fp_nat_inject fp_nat_of_nat mod_mod_trivial fe_def)
  finally show ?thesis .
qed

section \<open>Constants\<close>

definition consts_sqrtm1 :: Fe where
  "consts_sqrtm1 = Fe_from_bytes
     [0xb0, 0xa0, 0x0e, 0x4a, 0x27, 0x1b, 0xee, 0xc4, 0x78, 0xe4, 0x2f, 0xad, 0x06, 0x18, 0x43, 0x2f,
      0xa7, 0xd7, 0xfb, 0x3d, 0x99, 0x00, 0x4d, 0x2b, 0x0b, 0xdf, 0xc1, 0x4f, 0x80, 0x24, 0x83, 0x2b]"

definition consts_ma :: Fe where
  "consts_ma = Fe_from_bytes
     [0xe7, 0x92, 0xf8, 0xff, 0xff, 0xff, 0xff, 0xff, 0xff, 0xff, 0xff, 0xff, 0xff, 0xff, 0xff, 0xff,
      0xff, 0xff, 0xff, 0xff, 0xff, 0xff, 0xff, 0xff, 0xff, 0xff, 0xff, 0xff, 0xff, 0xff, 0xff, 0x7f]"

definition consts_ma2 :: Fe where
  "consts_ma2 = Fe_from_bytes
     [0xc9, 0xe3, 0x3d, 0xdb, 0xc8, 0xff, 0xff, 0xff, 0xff, 0xff, 0xff, 0xff, 0xff, 0xff, 0xff, 0xff,
      0xff, 0xff, 0xff, 0xff, 0xff, 0xff, 0xff, 0xff, 0xff, 0xff, 0xff, 0xff, 0xff, 0xff, 0xff, 0x7f]"

definition consts_fffb1 :: Fe where
  "consts_fffb1 = Fe_from_bytes
     [0xee, 0x41, 0x1c, 0x32, 0x75, 0x69, 0xa7, 0x22, 0x8d, 0x73, 0x2a, 0xb9, 0xa8, 0x04, 0x94, 0xd1,
      0xe3, 0x19, 0xfb, 0x41, 0x37, 0xc5, 0xa9, 0x20, 0x17, 0x1b, 0xd6, 0xda, 0xef, 0xfb, 0x71, 0x7e]"

definition consts_fffb2 :: Fe where
  "consts_fffb2 = Fe_from_bytes
     [0xe0, 0x9a, 0x7c, 0x60, 0x83, 0x64, 0xde, 0xd2, 0xdf, 0xf7, 0x56, 0x04, 0x46, 0x03, 0xde, 0x51,
      0xbe, 0x5f, 0x16, 0xc0, 0xb7, 0x51, 0xd4, 0x91, 0xf6, 0x2c, 0x5a, 0x04, 0x0a, 0x1e, 0x06, 0x4d]"

definition consts_fffb3 :: Fe where
  "consts_fffb3 = Fe_from_bytes
     [0x66, 0x2c, 0x30, 0x17, 0x87, 0x7d, 0x1b, 0x58, 0x29, 0x42, 0x96, 0xa5, 0x4e, 0xff, 0x24, 0x40,
      0xed, 0xa2, 0x0d, 0x3f, 0x40, 0x46, 0x95, 0xb8, 0xef, 0x08, 0xc2, 0x14, 0x0d, 0x11, 0x4a, 0x67]"

definition consts_fffb4 :: Fe where
  "consts_fffb4 = Fe_from_bytes
     [0x86, 0x91, 0xb3, 0xb6, 0x03, 0x19, 0x3d, 0x85, 0x49, 0x4a, 0x3f, 0xa1, 0x08, 0xfc, 0x46, 0xee,
      0x2e, 0x43, 0xf7, 0x7e, 0x88, 0xf4, 0xc0, 0x26, 0xf9, 0xdb, 0x67, 0x10, 0x03, 0xf3, 0x43, 0x1a]"

definition consts_d :: Fe where
  "consts_d = Fe_from_bytes
     [0xa3, 0x78, 0x59, 0x13, 0xca, 0x4d, 0xeb, 0x75, 0xab, 0xd8, 0x41, 0x41, 0x4d, 0x0a, 0x70, 0x00,
      0x98, 0xe8, 0x79, 0x77, 0x79, 0x40, 0xc7, 0x8c, 0x73, 0xfe, 0x6f, 0x2b, 0xee, 0x6c, 0x03, 0x52]"

definition MONT_A :: fp where "MONT_A = 486662"

lemma fe_const: "fe (Fe_from_bytes s) = of_nat (le_nat s mod 2 ^ 255)" "fe_ok (Fe_from_bytes s)"
  using Fe_from_bytes_ok by blast+

lemma consts_ok [simp]:
  "fe_ok consts_sqrtm1" "fe_ok consts_ma" "fe_ok consts_ma2" "fe_ok consts_fffb1" "fe_ok consts_fffb2" "fe_ok consts_fffb3"
  "fe_ok consts_fffb4" "fe_ok consts_d"
  unfolding consts_sqrtm1_def consts_ma_def consts_ma2_def consts_fffb1_def consts_fffb2_def consts_fffb3_def
    consts_fffb4_def consts_d_def by (rule fe_const)+

lemma consts_values:
  "fe consts_ma = - MONT_A" "fe consts_ma2 = - (MONT_A ^ 2)" "fe consts_d * 121666 = - 121665" "fe consts_sqrtm1 ^ 2 = - 1"
  "fe consts_fffb1 ^ 2 = - 2 * MONT_A * (MONT_A + 2)" "fe consts_fffb2 ^ 2 = 2 * MONT_A * (MONT_A + 2)"
  "fe consts_fffb3 ^ 2 = - fe consts_sqrtm1 * MONT_A * (MONT_A + 2)"
  "fe consts_fffb4 ^ 2 = fe consts_sqrtm1 * MONT_A * (MONT_A + 2)"
  by (simp_all add: consts_sqrtm1_def consts_ma_def consts_ma2_def consts_fffb1_def consts_fffb2_def consts_fffb3_def
    consts_fffb4_def consts_d_def fe_const MONT_A_def)

section \<open>Main results\<close>

text \<open>C22. The limb arithmetic implements the field: on elements whose limbs are below \<open>2 ^ 52\<close>, multiplication,
  addition, subtraction, negation and doubled squaring compute the ring operations modulo \<open>2 ^ 255 - 19\<close>, no 64- or
  128-bit intermediate wraps in a way that changes the value, and the limbs of every result are again below \<open>2 ^ 52\<close>.\<close>

theorem field_ops_refine:
  assumes "fe_ok f" "fe_ok g"
  shows "fe (Fe_mul f g) = fe f * fe g \<and> fe (Fe_add f g) = fe f + fe g \<and> fe (Fe_sub f g) = fe f - fe g \<and>
    fe (Fe_neg f) = - fe f \<and> fe (Fe_square2 f) = 2 * fe f ^ 2 \<and>
    fe_ok (Fe_mul f g) \<and> fe_ok (Fe_add f g) \<and> fe_ok (Fe_sub f g) \<and> fe_ok (Fe_neg f) \<and> fe_ok (Fe_square2 f)"
  using Fe_mul_ok [OF assms] Fe_add_ok [OF assms] Fe_sub_ok [OF assms] Fe_neg_ok [OF assms(1)] Fe_square2_ok [OF assms(1)]
  by blast

theorem field_ops_refine_witness:
  "fe_ok consts_sqrtm1 \<and> fe_ok consts_ma \<and> fe (Fe_mul consts_sqrtm1 consts_ma) = fe consts_sqrtm1 * fe consts_ma"
  using field_ops_refine [OF consts_ok(1,2)] consts_ok(1,2) by blast

text \<open>The addition chains compute the exponents their names say: \<open>pow_p58\<close> raises to \<open>2 ^ 252 - 3\<close>, \<open>invert\<close> to
  \<open>p - 2 = 2 ^ 255 - 21\<close>, and \<open>divpowm1 u v\<close> is \<open>u v\<^sup>3 (u v\<^sup>7) ^ ((p - 5) / 8)\<close>.\<close>

theorem field_exponents:
  assumes "fe_ok f" "fe_ok g"
  shows "fe (Fe_pow_p58 f) = fe f ^ ((P255 - 5) div 8) \<and> fe (Fe_invert f) = fe f ^ (P255 - 2) \<and>
    fe (divpowm1 f g) = fe f * fe g ^ 3 * (fe f * fe g ^ 7) ^ ((P255 - 5) div 8)"
proof -
  have e: "(P255 - 5) div 8 = 2 ^ 252 - 3" "P255 - 2 = 2 ^ 255 - 21" by simp_all
  have m: "a * b * c = c * b * a" for a b c :: fp by (simp only: ac_simps)
  show ?thesis
    unfolding e using Fe_pow_p58_ok [OF assms(1)] Fe_invert_ok [OF assms(1)] divpowm1_ok [OF assms] m by metis
qed

theorem field_exponents_witness:
  "fe_ok consts_d \<and> fe_ok Fe_ONE \<and> fe (Fe_invert consts_d) = fe consts_d ^ (P255 - 2)"
  using field_exponents [OF consts_ok(8) fe_zero_one(4)] consts_ok(8) fe_zero_one(4) by blast

text \<open>C32. The byte encoding is canonical: it has 32 bytes, its little-endian value is the representative below
  \<open>2 ^ 255 - 19\<close>, two elements have the same encoding exactly when they are equal in the field, however their limbs
  represent them, and decoding an encoding gives the element back.\<close>

theorem field_encoding_canonical:
  assumes "fe_ok f" "fe_ok g"
  shows "length (Fe_to_bytes f) = 32 \<and> le_nat (Fe_to_bytes f) = fp_nat (fe f) \<and>
    (Fe_to_bytes f = Fe_to_bytes g \<longleftrightarrow> fe f = fe g) \<and> fe (Fe_from_bytes (Fe_to_bytes f)) = fe f \<and>
    (Fe_is_nonzero f \<longleftrightarrow> fe f \<noteq> 0) \<and> (Fe_is_negative f \<longleftrightarrow> odd (fp_nat (fe f)))"
  using Fe_to_bytes_value [OF assms(1)] Fe_to_bytes_eq [OF assms] Fe_bytes_roundtrip [OF assms(1)]
    Fe_is_nonzero_iff [OF assms(1)] Fe_is_negative_iff [OF assms(1)] by blast

theorem field_encoding_canonical_witness:
  "fe_ok (Fe (2 ^ 51 - 19) (2 ^ 51 - 1) (2 ^ 51 - 1) (2 ^ 51 - 1) (2 ^ 51 - 1)) \<and> fe_ok Fe_ZERO \<and>
   Fe_to_bytes (Fe (2 ^ 51 - 19) (2 ^ 51 - 1) (2 ^ 51 - 1) (2 ^ 51 - 1) (2 ^ 51 - 1)) = Fe_to_bytes Fe_ZERO"
proof -
  have o: "fe_ok (Fe (2 ^ 51 - 19) (2 ^ 51 - 1) (2 ^ 51 - 1) (2 ^ 51 - 1) (2 ^ 51 - 1))" by (simp add: fe_ok_def)
  have "fe (Fe (2 ^ 51 - 19) (2 ^ 51 - 1) (2 ^ 51 - 1) (2 ^ 51 - 1) (2 ^ 51 - 1)) = fe Fe_ZERO" by (simp add: fe_def Fe_ZERO_def)
  with field_encoding_canonical [OF o fe_zero_one(3)] o show ?thesis by simp
qed
end
