(* ===== verification/Dalek.thy ===== *)
theory Dalek
  imports FieldBytes
begin

text \<open>
  The interface of the third-party package \<open>curve25519-dalek\<close>, which the crypto crate computes with:
  a record of the functions it calls, and the documented laws of the package. Scalars are a
  commutative ring, points an abelian group (the operators \<open>+\<close>, \<open>-\<close> and the identity of
  \<open>EdwardsPoint\<close>). The points need not lie in the prime-order subgroup, so a scalar acts by the
  multiple its canonical representative names, and the module laws hold on torsion-free points only.
\<close>

definition L255 :: nat where
  "L255 = 2 ^ 252 + 27742317777372353535851937790883648493"

record ('s, 'p) dalek =
  dk_smul :: "'s \<Rightarrow> 'p \<Rightarrow> 'p"
  dk_base :: 'p
  dk_compress :: "'p \<Rightarrow> bytes"
  dk_decompress :: "bytes \<Rightarrow> 'p option"
  dk_from_bytes_mod_order :: "bytes \<Rightarrow> 's"
  dk_from_canonical_bytes :: "bytes \<Rightarrow> 's option"
  dk_to_bytes :: "'s \<Rightarrow> bytes"
  dk_mul_by_cofactor :: "'p \<Rightarrow> 'p"
  dk_invert :: "'s \<Rightarrow> 's"

section \<open>Multiples\<close>

fun nsmul :: "nat \<Rightarrow> 'p::ab_group_add \<Rightarrow> 'p" where
  "nsmul 0 P = 0"
| "nsmul (Suc n) P = P + nsmul n P"

lemma nsmul_add: "nsmul (m + n) P = nsmul m P + nsmul n P"
  by (induction m) (simp_all add: add.assoc)

lemma nsmul_zero [simp]: "nsmul n 0 = 0"
  by (induction n) simp_all

lemma nsmul_distrib: "nsmul n (P + Q) = nsmul n P + nsmul n Q"
  by (induction n) (simp_all add: ac_simps)

lemma nsmul_minus: "nsmul n (P - Q) = nsmul n P - nsmul n Q"
  by (induction n) (simp_all add: algebra_simps)

lemma nsmul_mult: "nsmul (m * n) P = nsmul m (nsmul n P)"
  by (induction m) (simp_all add: nsmul_add)

section \<open>Laws\<close>

definition canonical_point :: "bytes \<Rightarrow> bool" where
  "canonical_point b \<longleftrightarrow> le_nat b mod 2 ^ 255 < P255 \<and>
     \<not> (2 ^ 255 \<le> le_nat b \<and> (le_nat b mod 2 ^ 255 = 1 \<or> le_nat b mod 2 ^ 255 = P255 - 1))"

definition scalar_laws :: "('s::comm_ring_1, 'p::ab_group_add) dalek \<Rightarrow> bool" where
  "scalar_laws C \<longleftrightarrow>
     (\<forall>m n. of_nat m = (of_nat n :: 's) \<longleftrightarrow> m mod L255 = n mod L255) \<and>
     (\<forall>b. length b = 32 \<longrightarrow> dk_from_bytes_mod_order C b = of_nat (le_nat b)) \<and>
     (\<forall>b. length b = 32 \<longrightarrow> dk_from_canonical_bytes C b = (if le_nat b < L255 then Some (of_nat (le_nat b)) else None)) \<and>
     (\<forall>s. length (dk_to_bytes C s) = 32 \<and> le_nat (dk_to_bytes C s) < L255 \<and> of_nat (le_nat (dk_to_bytes C s)) = s) \<and>
     dk_invert C 8 * 8 = 1"

definition point_laws :: "('s::comm_ring_1, 'p::ab_group_add) dalek \<Rightarrow> bool" where
  "point_laws C \<longleftrightarrow>
     (\<forall>s P. dk_smul C s P = nsmul (le_nat (dk_to_bytes C s)) P) \<and>
     (\<forall>n. nsmul n (dk_base C) = 0 \<longleftrightarrow> L255 dvd n) \<and>
     (\<forall>P. nsmul (8 * L255) P = (0 :: 'p)) \<and>
     (\<forall>P. dk_mul_by_cofactor C P = nsmul 8 P) \<and>
     dk_compress C 0 = le_bytes 32 1 \<and>
     (\<forall>P. length (dk_compress C P) = 32 \<and> canonical_point (dk_compress C P) \<and> dk_decompress C (dk_compress C P) = Some P)"

definition lawful :: "('s::comm_ring_1, 'p::ab_group_add) dalek \<Rightarrow> bool" where
  "lawful C \<longleftrightarrow> scalar_laws C \<and> point_laws C"

definition torsion_free :: "'p::ab_group_add \<Rightarrow> bool" where "torsion_free P \<longleftrightarrow> nsmul L255 P = 0"

section \<open>Scalars\<close>

lemma scalar_lawD:
  assumes "lawful (C :: ('s::comm_ring_1, 'p::ab_group_add) dalek)"
  shows "of_nat m = (of_nat n :: 's) \<longleftrightarrow> m mod L255 = n mod L255"
    "length b = 32 \<Longrightarrow> dk_from_bytes_mod_order C b = of_nat (le_nat b)"
    "length b = 32 \<Longrightarrow> dk_from_canonical_bytes C b = (if le_nat b < L255 then Some (of_nat (le_nat b)) else None)"
    "length (dk_to_bytes C s) = 32" "le_nat (dk_to_bytes C s) < L255" "of_nat (le_nat (dk_to_bytes C s)) = s"
    "dk_invert C 8 * 8 = 1"
proof -
  have l: "scalar_laws C" using assms by (simp add: lawful_def)
  show "of_nat m = (of_nat n :: 's) \<longleftrightarrow> m mod L255 = n mod L255" using l unfolding scalar_laws_def by blast
  show "length b = 32 \<Longrightarrow> dk_from_bytes_mod_order C b = of_nat (le_nat b)" using l unfolding scalar_laws_def by blast
  show "length b = 32 \<Longrightarrow> dk_from_canonical_bytes C b = (if le_nat b < L255 then Some (of_nat (le_nat b)) else None)"
    using l unfolding scalar_laws_def by blast
  show "length (dk_to_bytes C s) = 32" "le_nat (dk_to_bytes C s) < L255" "of_nat (le_nat (dk_to_bytes C s)) = s"
    "dk_invert C 8 * 8 = 1" using l unfolding scalar_laws_def by blast+
qed

lemma scalar_bytes_roundtrip:
  assumes "lawful C"
  shows "dk_from_bytes_mod_order C (dk_to_bytes C s) = s" "dk_from_canonical_bytes C (dk_to_bytes C s) = Some s"
    "dk_to_bytes C s = dk_to_bytes C t \<longleftrightarrow> s = t"
  using scalar_lawD [OF assms] by (auto, metis)

lemma to_bytes_of_nat:
  fixes C :: "('s::comm_ring_1, 'p::ab_group_add) dalek"
  assumes C: "lawful C" and n: "n < L255"
  shows "dk_to_bytes C (of_nat n) = le_bytes 32 n"
proof -
  have "of_nat (le_nat (dk_to_bytes C (of_nat n))) = (of_nat n :: 's)" by (rule scalar_lawD(6) [OF C])
  then have "le_nat (dk_to_bytes C (of_nat n)) = n"
    using scalar_lawD(1) [OF C] scalar_lawD(5) [OF C] n by (metis mod_less)
  then show ?thesis using le_bytes_le_nat [OF scalar_lawD(4) [OF C]] by metis
qed

lemma to_bytes_zero: "lawful C \<Longrightarrow> dk_to_bytes C s = replicate 32 0 \<longleftrightarrow> s = 0"
  using to_bytes_of_nat [of C 0] scalar_bytes_roundtrip(3) [of C s 0] by (auto simp: L255_def le_bytes_zero)

section \<open>Points\<close>

lemma point_lawD:
  assumes "lawful (C :: ('s::comm_ring_1, 'p::ab_group_add) dalek)"
  shows "dk_smul C s P = nsmul (le_nat (dk_to_bytes C s)) P" "torsion_free (dk_base C)" "nsmul (8 * L255) P = 0"
    "dk_mul_by_cofactor C P = nsmul 8 P" "length (dk_compress C P) = 32" "canonical_point (dk_compress C P)"
    "dk_decompress C (dk_compress C P) = Some P" "nsmul n (dk_base C) = 0 \<longleftrightarrow> L255 dvd n"
    "dk_compress C 0 = le_bytes 32 1"
proof -
  have l: "point_laws C" using assms by (simp add: lawful_def)
  show "dk_smul C s P = nsmul (le_nat (dk_to_bytes C s)) P" "nsmul (8 * L255) P = 0"
    "dk_mul_by_cofactor C P = nsmul 8 P" "length (dk_compress C P) = 32" "canonical_point (dk_compress C P)"
    "dk_decompress C (dk_compress C P) = Some P" "nsmul n (dk_base C) = 0 \<longleftrightarrow> L255 dvd n"
    "dk_compress C 0 = le_bytes 32 1"
    using l unfolding point_laws_def by blast+
  have "nsmul L255 (dk_base C) = 0 \<longleftrightarrow> L255 dvd L255" using l unfolding point_laws_def by blast
  then show "torsion_free (dk_base C)" by (simp add: torsion_free_def)
qed

lemma compress_eq: "lawful C \<Longrightarrow> dk_compress C P = dk_compress C Q \<longleftrightarrow> P = Q"
  using point_lawD(7) by (metis option.inject)

lemma nsmul_mod: "torsion_free P \<Longrightarrow> nsmul (n mod L255) P = nsmul n P"
proof -
  assume P: "torsion_free P"
  have "nsmul (n div L255 * L255) P = 0" using P by (simp add: nsmul_mult torsion_free_def)
  then have "nsmul (n div L255 * L255 + n mod L255) P = nsmul (n mod L255) P" by (simp only: nsmul_add add_0)
  then show ?thesis by (simp only: div_mult_mod_eq)
qed

lemma torsion_free_closed:
  "torsion_free P \<Longrightarrow> torsion_free Q \<Longrightarrow> torsion_free (P + Q)" "torsion_free P \<Longrightarrow> torsion_free Q \<Longrightarrow> torsion_free (P - Q)"
  "torsion_free P \<Longrightarrow> torsion_free (nsmul n P)" "torsion_free 0"
  unfolding torsion_free_def by (simp_all add: nsmul_distrib nsmul_minus flip: nsmul_mult) (metis mult.commute nsmul_mult nsmul_zero)

lemma torsion_free_smul: "lawful C \<Longrightarrow> torsion_free P \<Longrightarrow> torsion_free (dk_smul C s P)"
  by (simp add: point_lawD(1) torsion_free_closed)

lemma torsion_free_cofactor: "lawful C \<Longrightarrow> torsion_free (dk_mul_by_cofactor C P)"
  using point_lawD(3) [of C P] by (simp add: point_lawD(4) torsion_free_def mult.commute flip: nsmul_mult)

text \<open>The module laws. On any point a scalar distributes over sums of points; the laws that move the reduction
  modulo the group order need a torsion-free point.\<close>

lemma smul_of_nat: "lawful C \<Longrightarrow> torsion_free P \<Longrightarrow> dk_smul C (of_nat n) P = nsmul n P"
proof -
  assume C: "lawful C" and P: "torsion_free P"
  have "le_nat (dk_to_bytes C (of_nat n)) mod L255 = n mod L255"
    using scalar_lawD(1,6) [OF C] by metis
  then show ?thesis using point_lawD(1) [OF C] nsmul_mod [OF P] by metis
qed

lemma smul_point_add: "lawful C \<Longrightarrow> dk_smul C s (P + Q) = dk_smul C s P + dk_smul C s Q"
  by (simp add: point_lawD(1) nsmul_distrib)

lemma smul_point_diff: "lawful C \<Longrightarrow> dk_smul C s (P - Q) = dk_smul C s P - dk_smul C s Q"
  by (simp add: point_lawD(1) nsmul_minus)

lemma smul_add:
  assumes "lawful C" "torsion_free P"
  shows "dk_smul C (s + t) P = dk_smul C s P + dk_smul C t P"
proof -
  have "s + t = of_nat (le_nat (dk_to_bytes C s) + le_nat (dk_to_bytes C t))" using scalar_lawD(6) [OF assms(1)] by simp
  then show ?thesis using smul_of_nat [OF assms] point_lawD(1) [OF assms(1)] nsmul_add by metis
qed

lemma smul_mult:
  assumes "lawful C" "torsion_free P"
  shows "dk_smul C (s * t) P = dk_smul C s (dk_smul C t P)"
proof -
  have "s * t = of_nat (le_nat (dk_to_bytes C s) * le_nat (dk_to_bytes C t))" using scalar_lawD(6) [OF assms(1)] by simp
  then show ?thesis using smul_of_nat [OF assms] point_lawD(1) [OF assms(1)] nsmul_mult by metis
qed

lemma smul_diff: "lawful C \<Longrightarrow> torsion_free P \<Longrightarrow> dk_smul C (s - t) P = dk_smul C s P - dk_smul C t P"
  using smul_add [of C P "s - t" t] by (simp add: eq_diff_eq)

lemma smul_one: "lawful C \<Longrightarrow> torsion_free P \<Longrightarrow> dk_smul C 1 P = P"
  using smul_of_nat [of C P 1] by simp

lemma smul_zero: "lawful C \<Longrightarrow> torsion_free P \<Longrightarrow> dk_smul C 0 P = 0"
  using smul_of_nat [of C P 0] by simp

lemma base_eq_zero: "lawful C \<Longrightarrow> dk_smul C s (dk_base C) = 0 \<longleftrightarrow> s = 0"
proof -
  assume C: "lawful C"
  have "L255 dvd le_nat (dk_to_bytes C s) \<longleftrightarrow> le_nat (dk_to_bytes C s) = 0"
    using scalar_lawD(5) [OF C, of s] nat_dvd_not_less by auto
  also have "\<dots> \<longleftrightarrow> s = 0"
  proof
    assume "le_nat (dk_to_bytes C s) = 0"
    then show "s = 0" using scalar_lawD(6) [OF C, of s] by simp
  next
    assume "s = 0"
    then show "le_nat (dk_to_bytes C s) = 0" using to_bytes_of_nat [OF C, of 0] by (simp add: L255_def le_nat_le_bytes)
  qed
  finally show ?thesis by (simp add: point_lawD(1,8) [OF C])
qed

lemma cofactor_smul: "lawful C \<Longrightarrow> torsion_free P \<Longrightarrow> dk_mul_by_cofactor C P = dk_smul C 8 P"
  using smul_of_nat [of C P 8] by (simp add: point_lawD(4))

lemma cofactor_inverse: "lawful C \<Longrightarrow> torsion_free P \<Longrightarrow> dk_mul_by_cofactor C (dk_smul C (dk_invert C 8) P) = P"
proof -
  assume C: "lawful C" and P: "torsion_free P"
  have "dk_mul_by_cofactor C (dk_smul C (dk_invert C 8) P) = dk_smul C (8 * dk_invert C 8) P"
    using C P by (simp add: cofactor_smul torsion_free_smul smul_mult)
  also have "8 * dk_invert C 8 = 1" using scalar_lawD(7) [OF C] by (simp add: mult.commute)
  finally show ?thesis by (simp add: C P smul_one)
qed

lemma smul_commute: "lawful C \<Longrightarrow> torsion_free P \<Longrightarrow> dk_smul C s (dk_smul C t P) = dk_smul C t (dk_smul C s P)"
  by (metis mult.commute smul_mult)

section \<open>A lawful instance\<close>

text \<open>The laws are satisfiable: the integers modulo the group order, with every point in the subgroup.\<close>

type_synonym zl = "7237005577332262213973186563042994240857116359379907606001950938285454250989"

definition zl_nat :: "zl \<Rightarrow> nat" where "zl_nat x = nat (Rep_bit1 x)"

definition zl_dalek :: "(zl, zl) dalek" where
  "zl_dalek = \<lparr>dk_smul = (*), dk_base = 1, dk_compress = (\<lambda>P. le_bytes 32 (1 + zl_nat P)),
     dk_decompress = (\<lambda>b. Some (of_nat (le_nat b) - 1)),
     dk_from_bytes_mod_order = (\<lambda>b. of_nat (le_nat b)),
     dk_from_canonical_bytes = (\<lambda>b. if le_nat b < L255 then Some (of_nat (le_nat b)) else None),
     dk_to_bytes = (\<lambda>s. le_bytes 32 (zl_nat s)), dk_mul_by_cofactor = (\<lambda>P. 8 * P),
     dk_invert = (\<lambda>_. 2713877091499598330239944961141122840321418634767465352250731601857045344121)\<rparr>"

lemma card_zl: "CARD(zl) = L255"
  by (simp add: L255_def)

lemma zl_nat_of_nat: "zl_nat (of_nat n) = n mod L255"
proof -
  have "Rep_bit1 (of_nat n :: zl) = int n mod int CARD(zl)" unfolding bit1.of_nat_eq by (rule bit1.Rep_Abs_mod)
  then have "zl_nat (of_nat n) = n mod CARD(zl)" by (simp only: zl_nat_def zmod_int [symmetric] nat_int)
  then show ?thesis by (simp only: card_zl)
qed

lemma zl_nat_less: "zl_nat x < L255"
proof -
  have "Rep_bit1 x < int CARD(zl)" by (rule bit1.Rep_less_n)
  then have "zl_nat x < CARD(zl)" unfolding zl_nat_def using zero_less_card_finite [where 'a = zl] by linarith
  then show ?thesis by (simp only: card_zl)
qed

lemma of_nat_zl_nat: "of_nat (zl_nat x) = x"
proof (cases x)
  case (of_int z)
  then have x: "x = of_nat (nat z)" by simp
  have "nat z < L255" using of_int(2,3) unfolding card_zl by simp
  then show ?thesis unfolding x zl_nat_of_nat by (simp only: mod_less)
qed

lemma nsmul_zl: "nsmul n P = of_nat n * P" for P :: zl
  by (induction n) (simp_all add: algebra_simps)

lemma zl_laws: "lawful zl_dalek"
proof -
  have b: "le_nat (le_bytes 32 (zl_nat x)) = zl_nat x" for x
    using zl_nat_less [of x] by (simp add: le_nat_le_bytes L255_def)
  have inj: "of_nat m = (of_nat n :: zl) \<longleftrightarrow> m mod L255 = n mod L255" for m n
    by (metis of_nat_zl_nat zl_nat_of_nat)
  have "scalar_laws zl_dalek"
    using zl_nat_less by (simp add: scalar_laws_def zl_dalek_def inj b of_nat_zl_nat)
  moreover have "of_nat (8 * L255) = (0 :: zl)" by (simp add: L255_def)
  moreover have "of_nat n = (0 :: zl) \<longleftrightarrow> L255 dvd n" for n using inj [of n 0] by (simp add: dvd_eq_mod_eq_0)
  moreover have c: "le_nat (le_bytes 32 (1 + zl_nat P)) = 1 + zl_nat P" for P
    using zl_nat_less [of P] by (simp add: le_nat_le_bytes L255_def)
  moreover have "canonical_point (le_bytes 32 (1 + zl_nat P))" for P
    using zl_nat_less [of P] unfolding canonical_point_def c by (simp add: L255_def)
  moreover have "zl_nat 0 = 0" using zl_nat_of_nat [of 0] by simp
  ultimately show ?thesis
    using zl_nat_less by (simp add: lawful_def point_laws_def zl_dalek_def b of_nat_zl_nat nsmul_zl)
qed

lemma zl_simps:
  "dk_smul zl_dalek s P = s * P" "dk_base zl_dalek = 1" "dk_compress zl_dalek P = le_bytes 32 (1 + zl_nat P)"
  "dk_decompress zl_dalek b = Some (of_nat (le_nat b) - 1)"
  by (simp_all add: zl_dalek_def)

lemma zl_torsion_free: "torsion_free (P :: zl)"
proof -
  have "nsmul (1 * L255) P = of_nat L255 * P" by (simp add: nsmul_zl)
  also have "(of_nat L255 :: zl) = 0" using scalar_lawD(1) [OF zl_laws, of L255 0] by simp
  finally show ?thesis by (simp add: torsion_free_def)
qed

end
