(* ===== verification/HashToPoint.thy ===== *)
theory HashToPoint
  imports FieldBytes
begin

text \<open>
  The map from 32 bytes to a curve point, \<open>ge_fromfe_frombytes_vartime\<close> of
  \<open>crates/wow-crypto/src/ops.rs\<close>. The projective point \<open>(X : Y : Z)\<close> it computes lies on the twisted
  Edwards curve whenever the assertion of the last branch holds; the encoding that follows is that
  of \<open>ge_tobytes\<close>.
\<close>

section \<open>The map\<close>

record fromfe_vars =
  ff_u :: Fe
  ff_v :: Fe
  ff_w :: Fe
  ff_x :: Fe
  ff_rx :: Fe
  ff_xx :: Fe

definition fromfe_start :: "bytes \<Rightarrow> fromfe_vars" where
  "fromfe_start s =
     (let u = Fe_from_bytes_unmasked s;
          v = Fe_square2 u;
          w = Fe_add v Fe_ONE;
          x = Fe_square w;
          y = Fe_mul consts_ma2 v;
          x = Fe_add x y;
          rx = divpowm1 w x;
          y2 = Fe_square rx;
          xx = Fe_mul y2 x
      in \<lparr>ff_u = u, ff_v = v, ff_w = w, ff_x = x, ff_rx = rx, ff_xx = xx\<rparr>)"

text \<open>The three-way branch: the new \<open>rx\<close>, \<open>z\<close> and the wanted sign.\<close>

definition fromfe_branch :: "fromfe_vars \<Rightarrow> Fe \<times> Fe \<times> bool" where
  "fromfe_branch t =
     (let diff = Fe_sub (ff_w t) (ff_xx t); z = consts_ma in
      if Fe_is_nonzero diff then
        let sum = Fe_add (ff_w t) (ff_xx t) in
        if Fe_is_nonzero sum then
          let xneg = Fe_mul (ff_xx t) consts_sqrtm1; dneg = Fe_sub (ff_w t) xneg in
          if Fe_is_nonzero dneg then (Fe_mul (ff_rx t) consts_fffb3, z, True)
          else (Fe_mul (ff_rx t) consts_fffb4, z, True)
        else (Fe_mul (Fe_mul (ff_rx t) consts_fffb1) (ff_u t), Fe_mul z (ff_v t), False)
      else (Fe_mul (Fe_mul (ff_rx t) consts_fffb2) (ff_u t), Fe_mul z (ff_v t), False))"

text \<open>\<open>debug_assert!(!(w + xneg).is_nonzero())\<close>, which the release build does not run.\<close>

definition fromfe_assert_fails :: "fromfe_vars \<Rightarrow> bool" where
  "fromfe_assert_fails t \<longleftrightarrow>
     Fe_is_nonzero (Fe_sub (ff_w t) (ff_xx t)) \<and> Fe_is_nonzero (Fe_add (ff_w t) (ff_xx t)) \<and>
     Fe_is_nonzero (Fe_sub (ff_w t) (Fe_mul (ff_xx t) consts_sqrtm1)) \<and>
     Fe_is_nonzero (Fe_add (ff_w t) (Fe_mul (ff_xx t) consts_sqrtm1))"

definition fromfe_setsign :: "Fe \<Rightarrow> bool \<Rightarrow> Fe" where
  "fromfe_setsign rx sign = (if Fe_is_negative rx \<noteq> sign then Fe_neg rx else rx)"

definition fromfe_p2 :: "bytes \<Rightarrow> Fe \<times> Fe \<times> Fe" where
  "fromfe_p2 s =
     (let t = fromfe_start s; (rx, z, sign) = fromfe_branch t;
          rx = fromfe_setsign rx sign;
          rz = Fe_add z (ff_w t);
          ry = Fe_sub z (ff_w t);
          rx = Fe_mul rx rz
      in (rx, ry, rz))"

definition ge_tobytes :: "Fe \<times> Fe \<times> Fe \<Rightarrow> bytes" where
  "ge_tobytes p2 =
     (case p2 of (rx, ry, rz) \<Rightarrow>
        let recip = Fe_invert rz; ax = Fe_mul rx recip; ay = Fe_mul ry recip; out = Fe_to_bytes ay
        in out[31 := out ! 31 XOR (if Fe_is_negative ax then 0x80 else 0)])"

definition ge_fromfe_frombytes_vartime :: "bytes \<Rightarrow> bytes" where
  "ge_fromfe_frombytes_vartime s = ge_tobytes (fromfe_p2 s)"

definition hash_to_point :: "bytes \<Rightarrow> bytes" where
  "hash_to_point h = ge_fromfe_frombytes_vartime h"

section \<open>The curve\<close>

fun on_curve :: "fp \<times> fp \<times> fp \<Rightarrow> bool" where
  "on_curve (x, y, z) \<longleftrightarrow> (y ^ 2 - x ^ 2) * z ^ 2 = z ^ 4 + fe consts_d * (x ^ 2 * y ^ 2)"

text \<open>The polynomial identities, over any commutative ring.\<close>

lemma ring_identities:
  fixes z w r d a v :: "'a::comm_ring_1"
  shows "121666 * ((z - w) ^ 2 - r ^ 2 * (z + w) ^ 2 - ((z + w) ^ 2 + d * (r ^ 2 * (z - w) ^ 2))) =
      - (4 * 121666) * z * w - r ^ 2 * (121666 * (z + w) ^ 2 + (d * 121666) * (z - w) ^ 2)" (is ?expand)
    and "- (4 * 121666) * z * w - r ^ 2 * (121666 * (z + w) ^ 2 + (- 121665) * (z - w) ^ 2) =
      - (486662 + 2) * z * w - r ^ 2 * (z ^ 2 + 486662 * z * w + w ^ 2)" (is ?collect)
    and "(- a * v) ^ 2 + a * (- a * v) * (v + 1) + (v + 1) ^ 2 = (v + 1) ^ 2 - a ^ 2 * v" (is ?square)
    and "(- a) ^ 2 + a * (- a) * (v + 1) + (v + 1) ^ 2 = (v + 1) ^ 2 - a ^ 2 * v" (is ?nonsquare)
proof -
  show ?expand ?collect ?square ?nonsquare by (simp_all add: power2_eq_square algebra_simps)
qed

lemma branch_identities:
  fixes r f u v w x X a i :: "'a::comm_ring_1"
  assumes "X = r ^ 2 * x" "v = 2 * u ^ 2"
  shows "f ^ 2 = 2 * a * (a + 2) \<Longrightarrow> w = X \<Longrightarrow> (r * f * u) ^ 2 * x = - (a + 2) * (- a * v) * w"
    and "f ^ 2 = - 2 * a * (a + 2) \<Longrightarrow> w = - X \<Longrightarrow> (r * f * u) ^ 2 * x = - (a + 2) * (- a * v) * w"
    and "f ^ 2 = i * a * (a + 2) \<Longrightarrow> w = X * i \<Longrightarrow> (r * f) ^ 2 * x = - (a + 2) * (- a) * w"
    and "f ^ 2 = - i * a * (a + 2) \<Longrightarrow> w = - (X * i) \<Longrightarrow> (r * f) ^ 2 * x = - (a + 2) * (- a) * w"
proof -
  have l: "(r * f * u) ^ 2 * x = f ^ 2 * (r ^ 2 * x) * u ^ 2" "(r * f) ^ 2 * x = f ^ 2 * (r ^ 2 * x)"
    by (simp_all add: power2_eq_square algebra_simps)
  show "f ^ 2 = 2 * a * (a + 2) \<Longrightarrow> w = X \<Longrightarrow> (r * f * u) ^ 2 * x = - (a + 2) * (- a * v) * w"
    and "f ^ 2 = - 2 * a * (a + 2) \<Longrightarrow> w = - X \<Longrightarrow> (r * f * u) ^ 2 * x = - (a + 2) * (- a * v) * w"
    and "f ^ 2 = i * a * (a + 2) \<Longrightarrow> w = X * i \<Longrightarrow> (r * f) ^ 2 * x = - (a + 2) * (- a) * w"
    and "f ^ 2 = - i * a * (a + 2) \<Longrightarrow> w = - (X * i) \<Longrightarrow> (r * f) ^ 2 * x = - (a + 2) * (- a) * w"
    by (simp_all only: l assms) (simp_all add: algebra_simps)
qed

lemma scale_equation:
  fixes r y z d :: "'a::comm_ring_1"
  assumes "y ^ 2 - r ^ 2 * z ^ 2 = z ^ 2 + d * (r ^ 2 * y ^ 2)"
  shows "(y ^ 2 - (r * z) ^ 2) * z ^ 2 = z ^ 4 + d * ((r * z) ^ 2 * y ^ 2)"
proof -
  have "(y ^ 2 - (r * z) ^ 2) * z ^ 2 = (z ^ 2 + d * (r ^ 2 * y ^ 2)) * z ^ 2"
    unfolding assms [symmetric] by (simp only: power_mult_distrib)
  then show ?thesis by (simp add: algebra_simps power_mult_distrib power2_eq_square power4_eq_xxxx)
qed

lemma edwards_identity:
  fixes z w r :: fp
  assumes "r ^ 2 * (z ^ 2 + MONT_A * z * w + w ^ 2) = - (MONT_A + 2) * z * w"
  shows "(z - w) ^ 2 - r ^ 2 * (z + w) ^ 2 = (z + w) ^ 2 + fe consts_d * (r ^ 2 * (z - w) ^ 2)"
proof -
  let ?d = "fe consts_d"
  have d: "?d * 121666 = - 121665" by (rule consts_values)
  let ?e = "(z - w) ^ 2 - r ^ 2 * (z + w) ^ 2 - ((z + w) ^ 2 + ?d * (r ^ 2 * (z - w) ^ 2))"
  have "121666 * ?e = - (4 * 121666) * z * w - r ^ 2 * (121666 * (z + w) ^ 2 + (?d * 121666) * (z - w) ^ 2)"
    by (rule ring_identities)
  also have "\<dots> = - (MONT_A + 2) * z * w - r ^ 2 * (z ^ 2 + MONT_A * z * w + w ^ 2)"
    unfolding d MONT_A_def by (rule ring_identities)
  also have "\<dots> = 0" unfolding assms by simp
  finally have "121666 * ?e = 0" .
  then have "37095705934669439343138083508754565189542113879843219016388785533085940283556 * 121666 * ?e = 0"
    by (simp only: mult.assoc mult_zero_right)
  moreover have "(37095705934669439343138083508754565189542113879843219016388785533085940283556 :: fp) * 121666 = 1" by simp
  ultimately show ?thesis by (simp only: mult_1_left right_minus_eq)
qed

section \<open>Values along the map\<close>

lemma fromfe_start_ok:
  assumes "length s = 32"
  defines "t \<equiv> fromfe_start s"
  shows "fe_ok (ff_u t)" "fe_ok (ff_v t)" "fe_ok (ff_w t)" "fe_ok (ff_x t)" "fe_ok (ff_rx t)" "fe_ok (ff_xx t)"
    "fe (ff_v t) = 2 * fe (ff_u t) ^ 2" "fe (ff_w t) = fe (ff_v t) + 1"
    "fe (ff_x t) = fe (ff_w t) ^ 2 - MONT_A ^ 2 * fe (ff_v t)" "fe (ff_xx t) = fe (ff_rx t) ^ 2 * fe (ff_x t)"
proof -
  define u where "u = Fe_from_bytes_unmasked s"
  define v where "v = Fe_square2 u"
  define w where "w = Fe_add v Fe_ONE"
  define y where "y = Fe_mul consts_ma2 v"
  define x where "x = Fe_add (Fe_square w) y"
  define rx where "rx = divpowm1 w x"
  define xx where "xx = Fe_mul (Fe_square rx) x"
  have t: "t = \<lparr>ff_u = u, ff_v = v, ff_w = w, ff_x = x, ff_rx = rx, ff_xx = xx\<rparr>"
    unfolding t_def fromfe_start_def Let_def u_def v_def w_def x_def y_def rx_def xx_def ..
  have u: "fe_ok u" unfolding u_def using Fe_from_bytes_unmasked_ok [OF assms(1)] ..
  have v: "fe v = 2 * fe u ^ 2 \<and> fe_ok v" unfolding v_def by (rule Fe_square2_ok [OF u])
  have w: "fe w = fe v + 1 \<and> fe_ok w" unfolding w_def using Fe_add_ok [OF conjunct2 [OF v] fe_zero_one(4)] by simp
  have y: "fe y = - (MONT_A ^ 2) * fe v \<and> fe_ok y"
    unfolding y_def using Fe_mul_ok [OF consts_ok(3) conjunct2 [OF v]] by (simp add: consts_values)
  have w2: "fe (Fe_square w) = fe w ^ 2 \<and> fe_ok (Fe_square w)" by (rule Fe_square_ok [OF conjunct2 [OF w]])
  have x: "fe x = fe w ^ 2 - MONT_A ^ 2 * fe v \<and> fe_ok x"
    unfolding x_def using Fe_add_ok [OF conjunct2 [OF w2] conjunct2 [OF y]] w2 y by simp
  have rx: "fe_ok rx" unfolding rx_def using divpowm1_ok [OF conjunct2 [OF w] conjunct2 [OF x]] ..
  have xx: "fe xx = fe rx ^ 2 * fe x \<and> fe_ok xx"
    unfolding xx_def using Fe_mul_ok [OF conjunct2 [OF Fe_square_ok [OF rx]] conjunct2 [OF x]] Fe_square_ok [OF rx] by simp
  show "fe_ok (ff_u t)" "fe_ok (ff_v t)" "fe_ok (ff_w t)" "fe_ok (ff_x t)" "fe_ok (ff_rx t)" "fe_ok (ff_xx t)"
    "fe (ff_v t) = 2 * fe (ff_u t) ^ 2" "fe (ff_w t) = fe (ff_v t) + 1"
    "fe (ff_x t) = fe (ff_w t) ^ 2 - MONT_A ^ 2 * fe (ff_v t)" "fe (ff_xx t) = fe (ff_rx t) ^ 2 * fe (ff_x t)"
    using u v w x rx xx by (simp_all add: t)
qed

text \<open>In every branch the Montgomery equation of the isogenous curve holds between \<open>rx\<close>, \<open>z\<close> and \<open>w\<close>.\<close>

lemma fromfe_branch_ok:
  assumes "length s = 32"
  defines "t \<equiv> fromfe_start s"
  assumes "\<not> fromfe_assert_fails t" and b: "fromfe_branch t = (rx, z, sign)"
  shows "fe_ok rx \<and> fe_ok z \<and>
    fe rx ^ 2 * (fe z ^ 2 + MONT_A * fe z * fe (ff_w t) + fe (ff_w t) ^ 2) = - (MONT_A + 2) * fe z * fe (ff_w t)"
proof -
  note ok = fromfe_start_ok [OF assms(1), folded t_def]
  let ?u = "fe (ff_u t)" and ?v = "fe (ff_v t)" and ?w = "fe (ff_w t)" and ?x = "fe (ff_x t)" and ?r = "fe (ff_rx t)"
    and ?X = "fe (ff_xx t)" and ?i = "fe consts_sqrtm1"
  have x: "(- MONT_A * ?v) ^ 2 + MONT_A * (- MONT_A * ?v) * ?w + ?w ^ 2 = ?x" "(- MONT_A) ^ 2 + MONT_A * (- MONT_A) * ?w + ?w ^ 2 = ?x"
    unfolding ok(9) ok(8) by (rule ring_identities)+
  have m: "fe (Fe_mul f g) = fe f * fe g" "fe_ok (Fe_mul f g)" if "fe_ok f" "fe_ok g" for f g
    using Fe_mul_ok [OF that] by simp_all
  have sb: "Fe_is_nonzero (Fe_sub f g) \<longleftrightarrow> fe f \<noteq> fe g" if "fe_ok f" "fe_ok g" for f g
    using Fe_sub_ok [OF that] by (simp add: Fe_is_nonzero_iff)
  have ad: "Fe_is_nonzero (Fe_add f g) \<longleftrightarrow> fe f \<noteq> - fe g" if "fe_ok f" "fe_ok g" for f g
    using Fe_add_ok [OF that] by (simp add: Fe_is_nonzero_iff eq_neg_iff_add_eq_0)
  note br = branch_identities [OF ok(10) ok(7)]
  consider (square) "?w = ?X" | (minus) "?w \<noteq> ?X" "?w = - ?X" | (root) "?w \<noteq> ?X" "?w \<noteq> - ?X" "?w = ?X * ?i"
    | (other) "?w \<noteq> ?X" "?w \<noteq> - ?X" "?w \<noteq> ?X * ?i" "?w = - (?X * ?i)"
    using assms(3) by (auto simp: fromfe_assert_fails_def sb ad m ok)
  then show ?thesis
  proof cases
    case square
    then have "rx = Fe_mul (Fe_mul (ff_rx t) consts_fffb2) (ff_u t)" "z = Fe_mul consts_ma (ff_v t)"
      using b by (simp_all add: fromfe_branch_def sb ok Let_def)
    with br(1) [OF consts_values(6) square] x show ?thesis by (simp add: m ok consts_values)
  next
    case minus
    then have "rx = Fe_mul (Fe_mul (ff_rx t) consts_fffb1) (ff_u t)" "z = Fe_mul consts_ma (ff_v t)"
      using b by (simp_all add: fromfe_branch_def sb ad ok Let_def)
    with br(2) [OF consts_values(5) minus(2)] x show ?thesis by (simp add: m ok consts_values)
  next
    case root
    then have "rx = Fe_mul (ff_rx t) consts_fffb4" "z = consts_ma"
      using b by (simp_all add: fromfe_branch_def sb ad m ok Let_def)
    with br(3) [OF consts_values(8) root(3)] x show ?thesis by (simp add: m ok consts_values)
  next
    case other
    then have "rx = Fe_mul (ff_rx t) consts_fffb3" "z = consts_ma"
      using b by (simp_all add: fromfe_branch_def sb ad m ok Let_def)
    with br(4) [OF consts_values(7) other(4)] x show ?thesis by (simp add: m ok consts_values)
  qed
qed

text \<open>C29. The point the hash map computes lies on the curve: for every 32-byte input whose last branch meets the
  assertion written there, the projective coordinates \<open>(X : Y : Z)\<close> of \<open>ge_fromfe_frombytes_vartime\<close> satisfy the
  twisted Edwards equation \<open>(Y\<^sup>2 - X\<^sup>2) Z\<^sup>2 = Z\<^sup>4 + d X\<^sup>2 Y\<^sup>2\<close> modulo \<open>2 ^ 255 - 19\<close>.\<close>

theorem fromfe_on_curve:
  assumes "length s = 32" "\<not> fromfe_assert_fails (fromfe_start s)" "fromfe_p2 s = (X, Y, Z)"
  shows "on_curve (fe X, fe Y, fe Z) \<and> fe_ok X \<and> fe_ok Y \<and> fe_ok Z"
proof -
  define t where "t = fromfe_start s"
  obtain rx z sign where b: "fromfe_branch t = (rx, z, sign)" by (metis prod_cases3)
  note br = fromfe_branch_ok [OF assms(1,2) b [unfolded t_def], folded t_def]
  have w: "fe_ok (ff_w t)" using fromfe_start_ok(3) [OF assms(1)] by (simp add: t_def)
  define r where "r = fromfe_setsign rx sign"
  have r: "fe r ^ 2 = fe rx ^ 2 \<and> fe_ok r" unfolding r_def fromfe_setsign_def using br Fe_neg_ok [of rx] by simp
  have Z: "fe Z = fe z + fe (ff_w t) \<and> fe_ok Z" and Y: "fe Y = fe z - fe (ff_w t) \<and> fe_ok Y"
    and "X = Fe_mul r Z"
    using assms(3) b br w Fe_add_ok [of z "ff_w t"] Fe_sub_ok [of z "ff_w t"]
    by (auto simp: fromfe_p2_def Let_def t_def [symmetric] r_def)
  then have X: "fe X = fe r * (fe z + fe (ff_w t)) \<and> fe_ok X" using r Fe_mul_ok [of r Z] by simp
  have "fe r ^ 2 * (fe z ^ 2 + MONT_A * fe z * fe (ff_w t) + fe (ff_w t) ^ 2) = - (MONT_A + 2) * fe z * fe (ff_w t)"
    using br r by simp
  from edwards_identity [OF this] have "on_curve (fe r * (fe z + fe (ff_w t)), fe z - fe (ff_w t), fe z + fe (ff_w t))"
    unfolding on_curve.simps by (rule scale_equation)
  then show ?thesis using X Y Z by simp
qed

theorem fromfe_on_curve_witness:
  "length (replicate 32 (0 :: u8)) = 32 \<and> \<not> fromfe_assert_fails (fromfe_start (replicate 32 0)) \<and>
   (case fromfe_p2 (replicate 32 0) of (X, Y, Z) \<Rightarrow> on_curve (fe X, fe Y, fe Z) \<and> fe_ok X \<and> fe_ok Y \<and> fe_ok Z)"
proof -
  let ?s = "replicate 32 (0 :: u8)" and ?t = "fromfe_start (replicate 32 (0 :: u8))"
  have l: "length ?s = 32" by simp
  note ok = fromfe_start_ok [OF l]
  have "le_nat (replicate n 0) = 0" for n by (induction n) simp_all
  moreover have "ff_u ?t = Fe_from_bytes_unmasked ?s" by (simp add: fromfe_start_def Let_def)
  ultimately have u: "fe (ff_u ?t) = 0" using Fe_from_bytes_unmasked_ok [OF l] by simp
  then have w: "fe (ff_v ?t) = 0" "fe (ff_w ?t) = 1" "fe (ff_x ?t) = 1" using ok(7-9) by simp_all
  have "ff_rx ?t = divpowm1 (ff_w ?t) (ff_x ?t)" by (simp add: fromfe_start_def Let_def)
  then have "fe (ff_rx ?t) = 1" using divpowm1_ok [OF ok(3,4)] w by (simp only: power_one mult_1_left)
  then have "fe (ff_w ?t) = fe (ff_xx ?t)" using ok(10) w by simp
  then have a: "\<not> fromfe_assert_fails ?t"
    using Fe_sub_ok [OF ok(3,6)] by (simp add: fromfe_assert_fails_def Fe_is_nonzero_iff)
  from fromfe_on_curve [OF l a] have "case fromfe_p2 ?s of (X, Y, Z) \<Rightarrow> on_curve (fe X, fe Y, fe Z) \<and> fe_ok X \<and> fe_ok Y \<and> fe_ok Z"
    by (cases "fromfe_p2 ?s") simp
  with l a show ?thesis by blast
qed

section \<open>The encoding\<close>

lemma le_nat_update_31:
  assumes "length s = 32" "unat (s ! 31) < 128"
  shows "le_nat (s[31 := s ! 31 XOR (if neg then 0x80 else 0)]) = le_nat s + (if neg then 2 ^ 255 else 0)"
proof -
  have "s ! 31 XOR 0x80 = s ! 31 + 0x80"
  proof -
    have "s ! 31 AND 0x80 = 0" using top_bit(1) [of "s ! 31"] assms(2) by auto
    then show ?thesis by (simp only: disjunctive_add_eq_xor)
  qed
  then have x: "unat (s ! 31 XOR 0x80) = unat (s ! 31) + 128" using assms(2) by (simp add: unat_word_ariths)
  have d: "take 31 s @ [b] = s[31 := b]" for b using assms(1) by (simp add: upd_conv_take_nth_drop)
  have "le_nat (s[31 := b]) = le_nat (take 31 s) + 256 ^ 31 * unat b" for b
    unfolding d [symmetric] le_nat_append using assms(1) by simp
  from this [of "s ! 31"] this [of "s ! 31 XOR (if neg then 0x80 else 0)"] show ?thesis
    by (simp add: x)
qed

lemma fp_nat_less: "fp_nat x < P255" "fp_nat x < 2 ^ 255"
proof -
  have "Rep_bit1 x < int CARD(fp)" by (rule bit1.Rep_less_n)
  then have "fp_nat x < CARD(fp)" unfolding fp_nat_def using zero_less_card_finite [where 'a = fp] by linarith
  then show "fp_nat x < P255" by (simp only: card_fp)
  then show "fp_nat x < 2 ^ 255" by simp
qed

lemma ge_tobytes_value:
  assumes "fe_ok X" "fe_ok Y" "fe_ok Z"
  defines "k \<equiv> fe Z ^ (2 ^ 255 - 21)"
  shows "length (ge_tobytes (X, Y, Z)) = 32"
    "le_nat (ge_tobytes (X, Y, Z)) = fp_nat (fe Y * k) + (if odd (fp_nat (fe X * k)) then 2 ^ 255 else 0)"
proof -
  note i = Fe_invert_ok [OF assms(3), folded k_def]
  have ax: "fe (Fe_mul X (Fe_invert Z)) = fe X * k \<and> fe_ok (Fe_mul X (Fe_invert Z))"
    using Fe_mul_ok [OF assms(1) conjunct2 [OF i]] unfolding conjunct1 [OF i] .
  have ay: "fe (Fe_mul Y (Fe_invert Z)) = fe Y * k \<and> fe_ok (Fe_mul Y (Fe_invert Z))"
    using Fe_mul_ok [OF assms(2) conjunct2 [OF i]] unfolding conjunct1 [OF i] .
  define out where "out = Fe_to_bytes (Fe_mul Y (Fe_invert Z))"
  have o: "length out = 32" "le_nat out = fp_nat (fe Y * k)"
    using Fe_to_bytes_value [OF conjunct2 [OF ay]] unfolding out_def conjunct1 [OF ay] .
  have "le_nat out < 2 ^ 255" unfolding o(2) by (rule fp_nat_less(2))
  then have "unat (out ! 31) div 128 = 0" unfolding le_nat_top(1) [OF o(1), symmetric] by (rule div_less)
  then have t: "unat (out ! 31) < 128" unfolding div_eq_0_iff by simp
  have g: "ge_tobytes (X, Y, Z) = out[31 := out ! 31 XOR (if odd (fp_nat (fe X * k)) then 0x80 else 0)]"
    unfolding ge_tobytes_def prod.case Let_def out_def Fe_is_negative_iff [OF conjunct2 [OF ax]] conjunct1 [OF ax] ..
  show "length (ge_tobytes (X, Y, Z)) = 32" unfolding g using o(1) by simp
  show "le_nat (ge_tobytes (X, Y, Z)) = fp_nat (fe Y * k) + (if odd (fp_nat (fe X * k)) then 2 ^ 255 else 0)"
    unfolding g le_nat_update_31 [OF o(1) t] o(2) ..
qed

end
