(* ===== verification/Ops.thy ===== *)
theory Ops
  imports Dalek HashToPoint Hash
begin

text \<open>
  Group and scalar operations with Monero's conventions, \<open>crates/wow-crypto/src/ops.rs\<close>: point
  decoding with its two extra rejections, scalars as byte strings, the hash to a scalar and to the
  curve, and the key image. The argument \<open>C\<close> of every operation is the curve package.
\<close>

type_synonym PublicKey = bytes
type_synonym SecretKey = bytes
type_synonym KeyDerivation = bytes
type_synonym KeyImage = bytes
type_synonym EcPoint = bytes
type_synonym EcScalar = bytes

definition P_MINUS_1 :: bytes where
  "P_MINUS_1 =
     [0xec, 0xff, 0xff, 0xff, 0xff, 0xff, 0xff, 0xff, 0xff, 0xff, 0xff, 0xff, 0xff, 0xff, 0xff, 0xff,
      0xff, 0xff, 0xff, 0xff, 0xff, 0xff, 0xff, 0xff, 0xff, 0xff, 0xff, 0xff, 0xff, 0xff, 0xff, 0x7f]"

definition ONE_LE :: bytes where "ONE_LE = (replicate 32 0)[0 := 1]"

text \<open>The loop over \<open>(0..32).rev()\<close>, with \<open>n\<close> indices left.\<close>

fun canonical_loop :: "bytes \<Rightarrow> nat \<Rightarrow> bool" where
  "canonical_loop y 0 = False"
| "canonical_loop y (Suc i) = (if y ! i \<noteq> P_MINUS_1 ! i then y ! i < P_MINUS_1 ! i else canonical_loop y i)"

definition decode_point :: "('s, 'p) dalek \<Rightarrow> bytes \<Rightarrow> 'p option" where
  "decode_point C b =
     (let negative = b ! 31 AND 0x80 \<noteq> 0;
          y = b[31 := b ! 31 AND 0x7f];
          canonical = canonical_loop y 32
      in if \<not> canonical \<and> y \<noteq> P_MINUS_1 then None
         else if negative \<and> (y = ONE_LE \<or> y = P_MINUS_1) then None
         else dk_decompress C b)"

definition encode_point :: "('s, 'p) dalek \<Rightarrow> 'p \<Rightarrow> bytes" where
  "encode_point C p = dk_compress C p"

definition sc_check :: "('s, 'p) dalek \<Rightarrow> bytes \<Rightarrow> bool" where
  "sc_check C b \<longleftrightarrow> dk_from_canonical_bytes C b \<noteq> None"

definition sc_reduce32 :: "('s, 'p) dalek \<Rightarrow> bytes \<Rightarrow> bytes" where
  "sc_reduce32 C b = dk_to_bytes C (dk_from_bytes_mod_order C b)"

definition sc_is_nonzero :: "bytes \<Rightarrow> bool" where
  "sc_is_nonzero b \<longleftrightarrow> b \<noteq> replicate 32 0"

definition decode_scalar :: "('s, 'p) dalek \<Rightarrow> bytes \<Rightarrow> 's option" where
  "decode_scalar C b = dk_from_canonical_bytes C b"

definition decode_scalar_unreduced :: "('s, 'p) dalek \<Rightarrow> bytes \<Rightarrow> 's" where
  "decode_scalar_unreduced C b = dk_from_bytes_mod_order C b"

definition sc_add :: "('s::comm_ring_1, 'p) dalek \<Rightarrow> bytes \<Rightarrow> bytes \<Rightarrow> bytes" where
  "sc_add C a b = dk_to_bytes C (decode_scalar_unreduced C a + decode_scalar_unreduced C b)"

definition sc_sub :: "('s::comm_ring_1, 'p) dalek \<Rightarrow> bytes \<Rightarrow> bytes \<Rightarrow> bytes" where
  "sc_sub C a b = dk_to_bytes C (decode_scalar_unreduced C a - decode_scalar_unreduced C b)"

definition sc_mulsub :: "('s::comm_ring_1, 'p) dalek \<Rightarrow> bytes \<Rightarrow> bytes \<Rightarrow> bytes \<Rightarrow> bytes" where
  "sc_mulsub C a b c =
     dk_to_bytes C (decode_scalar_unreduced C c - decode_scalar_unreduced C a * decode_scalar_unreduced C b)"

definition scalarmult_base :: "('s, 'p) dalek \<Rightarrow> 's \<Rightarrow> 'p" where
  "scalarmult_base C s = dk_smul C s (dk_base C)"

definition double_scalarmult_base_vartime :: "('s, 'p::ab_group_add) dalek \<Rightarrow> 's \<Rightarrow> 'p \<Rightarrow> 's \<Rightarrow> 'p" where
  "double_scalarmult_base_vartime C a A b = dk_smul C a A + dk_smul C b (dk_base C)"

definition double_scalarmult_vartime :: "('s, 'p::ab_group_add) dalek \<Rightarrow> 's \<Rightarrow> 'p \<Rightarrow> 's \<Rightarrow> 'p \<Rightarrow> 'p" where
  "double_scalarmult_vartime C a A b B = dk_smul C a A + dk_smul C b B"

definition mul8 :: "('s, 'p) dalek \<Rightarrow> 'p \<Rightarrow> 'p" where
  "mul8 C p = dk_mul_by_cofactor C p"

definition check_key :: "('s, 'p) dalek \<Rightarrow> PublicKey \<Rightarrow> bool" where
  "check_key C key \<longleftrightarrow> decode_point C key \<noteq> None"

definition secret_key_to_public_key :: "('s, 'p) dalek \<Rightarrow> SecretKey \<Rightarrow> PublicKey option" where
  "secret_key_to_public_key C sec =
     Option.bind (decode_scalar C sec) (\<lambda>s. Some (encode_point C (scalarmult_base C s)))"

definition hash_to_scalar :: "('s, 'p) dalek \<Rightarrow> bytes \<Rightarrow> EcScalar" where
  "hash_to_scalar C data = sc_reduce32 C (cn_fast_hash data)"

definition hash_to_scalar_dalek :: "('s, 'p) dalek \<Rightarrow> bytes \<Rightarrow> 's" where
  "hash_to_scalar_dalek C data = dk_from_bytes_mod_order C (cn_fast_hash data)"

definition hash_to_ec_point :: "('s, 'p) dalek \<Rightarrow> bytes \<Rightarrow> 'p option" where
  "hash_to_ec_point C key =
     (let h = cn_fast_hash key; p2 = ge_fromfe_frombytes_vartime h
      in Option.bind (decode_point C p2) (\<lambda>p. Some (mul8 C p)))"

definition hash_to_ec :: "('s, 'p) dalek \<Rightarrow> bytes \<Rightarrow> EcPoint option" where
  "hash_to_ec C key = map_option (encode_point C) (hash_to_ec_point C key)"

definition generate_key_image :: "('s, 'p) dalek \<Rightarrow> PublicKey \<Rightarrow> SecretKey \<Rightarrow> KeyImage option" where
  "generate_key_image C pub_key sec =
     Option.bind (decode_scalar C sec) (\<lambda>s.
     Option.bind (hash_to_ec_point C pub_key) (\<lambda>point. Some (encode_point C (dk_smul C s point))))"

section \<open>Point decoding\<close>

lemma le_nat_snoc: "le_nat (xs @ [b]) = le_nat xs + 256 ^ length xs * unat b"
  by (simp add: le_nat_append)

text \<open>Comparing little-endian strings from the top byte down compares their values.\<close>

lemma le_nat_compare_step:
  assumes "n < length xs" "n < length ys"
  shows "le_nat (take (Suc n) xs) < le_nat (take (Suc n) ys) \<longleftrightarrow>
    (if xs ! n \<noteq> ys ! n then xs ! n < ys ! n else le_nat (take n xs) < le_nat (take n ys))"
proof -
  have t: "le_nat (take (Suc n) zs) = le_nat (take n zs) + 256 ^ n * unat (zs ! n)" if "n < length zs" for zs
    using that by (simp add: take_Suc_conv_app_nth le_nat_snoc)
  have lt: "le_nat (take n zs) < 256 ^ n" if "n < length zs" for zs
    using le_nat_less [of "take n zs"] that by simp
  have mono: "a + 256 ^ n * i < b + 256 ^ n * j" if "i < j" "a < 256 ^ n" for a b i j :: nat
  proof -
    have "256 ^ n * (i + 1) \<le> 256 ^ n * j" using that(1) by (intro mult_le_mono2) simp
    then have "256 ^ n * i + 256 ^ n \<le> 256 ^ n * j" by (simp add: algebra_simps)
    with that(2) show ?thesis by linarith
  qed
  show ?thesis
  proof (cases "xs ! n" "ys ! n" rule: linorder_cases)
    case less
    then show ?thesis using mono [of "unat (xs ! n)" "unat (ys ! n)"] lt assms by (auto simp: t word_less_nat_alt)
  next
    case equal
    then show ?thesis using assms by (simp add: t)
  next
    case greater
    then have "\<not> le_nat (take (Suc n) xs) < le_nat (take (Suc n) ys)"
      using mono [of "unat (ys ! n)" "unat (xs ! n)" "le_nat (take n ys)" "le_nat (take n xs)"] lt assms
      by (simp add: t word_less_nat_alt not_less less_imp_le)
    with greater show ?thesis by auto
  qed
qed

lemma P_MINUS_1_value: "length P_MINUS_1 = 32" "le_nat P_MINUS_1 = P255 - 1"
  by (simp_all add: P_MINUS_1_def)

lemma ONE_LE_value: "length ONE_LE = 32" "le_nat ONE_LE = 1"
proof -
  show "length ONE_LE = 32" by (simp add: ONE_LE_def)
  have z: "le_nat (replicate n 0) = 0" for n by (induction n) simp_all
  have o: "ONE_LE = 1 # replicate 31 0" by (simp add: ONE_LE_def numeral_eq_Suc)
  show "le_nat ONE_LE = 1" unfolding o le_nat.simps z by simp
qed

lemma canonical_loop_less: "length y = 32 \<Longrightarrow> n \<le> 32 \<Longrightarrow> canonical_loop y n \<longleftrightarrow> le_nat (take n y) < le_nat (take n P_MINUS_1)"
  by (induction n) (simp_all add: le_nat_compare_step P_MINUS_1_value(1))

lemma le_nat_eq_iff: "length xs = length ys \<Longrightarrow> le_nat xs = le_nat ys \<longleftrightarrow> xs = ys"
  by (metis le_bytes_le_nat)

lemma mask_top_value:
  assumes "length b = 32"
  shows "le_nat (b[31 := b ! 31 AND 0x7f]) = le_nat b mod 2 ^ 255"
proof -
  have u: "le_nat (b[31 := x]) = le_nat (take 31 b) + 256 ^ 31 * unat x" for x
  proof -
    have "b[31 := x] = take 31 b @ [x]" using assms by (simp add: upd_conv_take_nth_drop)
    then show ?thesis using assms by (simp add: le_nat_snoc)
  qed
  have "le_nat (take 31 b) < 256 ^ 31" using le_nat_less [of "take 31 b"] assms by simp
  moreover have "le_nat b = le_nat (take 31 b) + 256 ^ 31 * unat (b ! 31)" using u [of "b ! 31"] by simp
  moreover have "(a + 256 ^ 31 * c) mod 2 ^ 255 = a + 256 ^ 31 * (c mod 128)" if "a < 256 ^ 31" for a c :: nat
  proof -
    have "(2 :: nat) ^ 255 = 256 ^ 31 * 128" by simp
    then show ?thesis using that by (simp only: mod_mult2_eq mod_mult_self2 mod_less div_mult_self2) simp
  qed
  ultimately show ?thesis unfolding u top_bit(2) by simp
qed

lemma decode_point_canonical:
  assumes "length b = 32"
  shows "decode_point C b = (if canonical_point b then dk_decompress C b else None)"
proof -
  let ?y = "b[31 := b ! 31 AND 0x7f]"
  have y: "length ?y = 32" using assms by simp
  have e: "?y = z \<longleftrightarrow> le_nat b mod 2 ^ 255 = le_nat z" if "length z = 32" for z
    using le_nat_eq_iff [of ?y z] mask_top_value [OF assms] y that by metis
  have c: "canonical_loop ?y 32 \<longleftrightarrow> le_nat b mod 2 ^ 255 < P255 - 1"
    using canonical_loop_less [OF y, of 32] mask_top_value [OF assms] P_MINUS_1_value y by simp
  have n: "b ! 31 AND 0x80 \<noteq> 0 \<longleftrightarrow> 2 ^ 255 \<le> le_nat b"
  proof -
    have "128 \<le> unat (b ! 31) \<longleftrightarrow> 0 < unat (b ! 31) div 128" by (simp add: div_greater_zero_iff)
    also have "\<dots> \<longleftrightarrow> 0 < le_nat b div 2 ^ 255" unfolding le_nat_top(1) [OF assms] ..
    also have "\<dots> \<longleftrightarrow> 2 ^ 255 \<le> le_nat b" by (simp add: div_greater_zero_iff)
    finally show ?thesis unfolding top_bit(1) .
  qed
  have below: "\<not> i < p - 1 \<and> i \<noteq> p - 1 \<longleftrightarrow> \<not> i < p" if "0 < p" for i p :: nat using that by arith
  have "\<not> canonical_loop ?y 32 \<and> ?y \<noteq> P_MINUS_1 \<longleftrightarrow> \<not> le_nat b mod 2 ^ 255 < P255"
    unfolding c e [OF P_MINUS_1_value(1)] P_MINUS_1_value(2) by (rule below) simp
  then show ?thesis
    unfolding decode_point_def Let_def n e [OF P_MINUS_1_value(1)] e [OF ONE_LE_value(1)] canonical_point_def
      P_MINUS_1_value(2) ONE_LE_value(2) by auto
qed

text \<open>Point decoding accepts exactly the canonical encodings the package accepts: the byte-wise comparison with
  \<open>p - 1\<close> rejects every \<open>y\<close> that is not below \<open>p\<close>, and a set sign bit is rejected when \<open>x\<close> would be zero.\<close>

theorem decode_point_decides:
  assumes "length b = 32"
  shows "decode_point C b = (if canonical_point b then dk_decompress C b else None)"
  by (rule decode_point_canonical [OF assms])

theorem decode_point_decides_witness:
  "length ONE_LE = 32 \<and> decode_point zl_dalek ONE_LE = Some 0 \<and> length (ONE_LE[31 := 0x80]) = 32 \<and>
   decode_point zl_dalek (ONE_LE[31 := 0x80]) = None"
proof -
  have s: "le_nat (ONE_LE[31 := 0x80]) = 1 + 2 ^ 255"
    using le_nat_update_31 [of ONE_LE True] ONE_LE_value by (simp add: ONE_LE_def)
  have "canonical_point ONE_LE" "\<not> canonical_point (ONE_LE[31 := 0x80])"
    unfolding canonical_point_def s ONE_LE_value by simp_all
  then show ?thesis
    using decode_point_decides [OF ONE_LE_value(1), of zl_dalek] decode_point_decides [of "ONE_LE[31 := 0x80]" zl_dalek] ONE_LE_value
    by (simp add: zl_simps)
qed

section \<open>Laws of the operations\<close>

lemma decode_encode: "lawful C \<Longrightarrow> decode_point C (encode_point C P) = Some P"
  by (simp add: encode_point_def decode_point_canonical point_lawD)

lemma encode_length [simp]: "lawful C \<Longrightarrow> length (encode_point C P) = 32"
  by (simp add: encode_point_def point_lawD)

lemma encode_eq: "lawful C \<Longrightarrow> encode_point C P = encode_point C Q \<longleftrightarrow> P = Q"
  by (simp add: encode_point_def compress_eq)

lemma decode_scalar_Some:
  assumes "lawful C" "length b = 32" "decode_scalar C b = Some s"
  shows "dk_to_bytes C s = b" "decode_scalar_unreduced C b = s"
proof -
  have b: "le_nat b < L255" "s = of_nat (le_nat b)"
    using assms scalar_lawD(3) [OF assms(1,2)] by (auto simp: decode_scalar_def split: if_splits)
  then show "dk_to_bytes C s = b" using to_bytes_of_nat [OF assms(1)] assms(2) by (simp add: le_bytes_le_nat)
  show "decode_scalar_unreduced C b = s"
    using b scalar_lawD(2) [OF assms(1,2)] by (simp add: decode_scalar_unreduced_def)
qed

lemma decode_to_bytes [simp]:
  assumes "lawful C"
  shows "decode_scalar C (dk_to_bytes C s) = Some s" "decode_scalar_unreduced C (dk_to_bytes C s) = s"
    "length (dk_to_bytes C s) = 32" "sc_check C (dk_to_bytes C s)"
  using scalar_bytes_roundtrip [OF assms] scalar_lawD(4) [OF assms]
  by (simp_all add: decode_scalar_def decode_scalar_unreduced_def sc_check_def)

lemma hash_to_scalar_bytes: "hash_to_scalar C d = dk_to_bytes C (hash_to_scalar_dalek C d)"
  by (simp add: hash_to_scalar_def hash_to_scalar_dalek_def sc_reduce32_def)

lemma secret_key_to_public_key_eq:
  "decode_scalar C sec = Some s \<Longrightarrow> secret_key_to_public_key C sec = Some (encode_point C (dk_smul C s (dk_base C)))"
  by (simp add: secret_key_to_public_key_def scalarmult_base_def)

lemma hash_to_ec_torsion_free: "lawful C \<Longrightarrow> hash_to_ec_point C key = Some P \<Longrightarrow> torsion_free P"
  by (auto simp: hash_to_ec_point_def mul8_def Let_def bind_eq_Some_conv torsion_free_cofactor)

text \<open>A key image is an encoding of a point of the prime-order subgroup: it decodes, to \<open>x\<close> times the hash point of
  the key, multiplying it by the group order gives the identity, and the same key pair always has the same image.\<close>

theorem key_image_prime_order:
  assumes "lawful C"
  shows "case generate_key_image C pub_key sec of
      None \<Rightarrow> decode_scalar C sec = None \<or> hash_to_ec_point C pub_key = None
    | Some img \<Rightarrow> length img = 32 \<and> (\<exists>s P. decode_scalar C sec = Some s \<and> hash_to_ec_point C pub_key = Some P \<and>
        decode_point C img = Some (dk_smul C s P) \<and> nsmul L255 (dk_smul C s P) = 0)"
proof (cases "generate_key_image C pub_key sec")
  case None
  then show ?thesis by (auto simp: generate_key_image_def bind_eq_None_conv)
next
  case (Some img)
  then obtain s P where "decode_scalar C sec = Some s" "hash_to_ec_point C pub_key = Some P"
    "img = encode_point C (dk_smul C s P)" by (auto simp: generate_key_image_def bind_eq_Some_conv)
  moreover from this have "torsion_free (dk_smul C s P)"
    using assms hash_to_ec_torsion_free torsion_free_smul by metis
  ultimately show ?thesis using Some assms by (simp add: decode_encode torsion_free_def)
qed

theorem key_image_prime_order_witness:
  "lawful zl_dalek \<and> (case generate_key_image zl_dalek (replicate 32 7) (le_bytes 32 5) of
      None \<Rightarrow> decode_scalar zl_dalek (le_bytes 32 5) = None \<or> hash_to_ec_point zl_dalek (replicate 32 7) = None
    | Some img \<Rightarrow> length img = 32 \<and> (\<exists>s P. decode_scalar zl_dalek (le_bytes 32 5) = Some s \<and>
        hash_to_ec_point zl_dalek (replicate 32 7) = Some P \<and> decode_point zl_dalek img = Some (dk_smul zl_dalek s P) \<and>
        nsmul L255 (dk_smul zl_dalek s P) = 0))"
  using key_image_prime_order [OF zl_laws, where pub_key = "replicate 32 7" and sec = "le_bytes 32 5"] zl_laws by blast

end
