(* ===== verification/Keys.thy ===== *)
theory Keys
  imports Ops Varint
begin

text \<open>
  Key derivation, view tags and subaddresses, \<open>crates/wow-crypto/src/keys.rs\<close> (with the address types
  of \<open>types.rs\<close>). \<open>None\<close> is a \<open>None\<close> of the source or a panic; the buffers that could panic are shown
  to be long enough for every output index.
\<close>

record AccountPublicAddress =
  spend_public_key :: PublicKey
  view_public_key :: PublicKey

record SubaddressIndex =
  si_major :: u32
  si_minor :: u32

definition is_main :: "SubaddressIndex \<Rightarrow> bool" where
  "is_main i \<longleftrightarrow> si_major i = 0 \<and> si_minor i = 0"

definition HASH_KEY_SUBADDRESS :: bytes where
  "HASH_KEY_SUBADDRESS = [0x53, 0x75, 0x62, 0x41, 0x64, 0x64, 0x72, 0]"
definition VIEW_TAG_SALT :: bytes where
  "VIEW_TAG_SALT = [0x76, 0x69, 0x65, 0x77, 0x5f, 0x74, 0x61, 0x67]"
definition HASH_KEY_ENCRYPTED_PAYMENT_ID :: u8 where "HASH_KEY_ENCRYPTED_PAYMENT_ID = 0x8d"

definition generate_key_derivation :: "('s, 'p) dalek \<Rightarrow> PublicKey \<Rightarrow> SecretKey \<Rightarrow> KeyDerivation option" where
  "generate_key_derivation C pub_key sec =
     Option.bind (decode_scalar C sec) (\<lambda>s.
     Option.bind (decode_point C pub_key) (\<lambda>p.
     Some (encode_point C (mul8 C (dk_smul C s p)))))"

text \<open>\<open>copy_from_slice\<close> into \<open>dst[off..off + len]\<close>.\<close>

definition copy_at :: "bytes \<Rightarrow> usize \<Rightarrow> bytes \<Rightarrow> bytes" where
  "copy_at dst off src = take off dst @ src @ drop (off + length src) dst"

definition derivation_index_buf :: "bytes \<Rightarrow> u64 \<Rightarrow> (bytes \<times> usize) option" where
  "derivation_index_buf d output_index =
     (let buf = replicate (32 + MAX_VARINT_LEN_U64) 0;
          buf = copy_at buf 0 d
      in Option.bind (write_varint_to (replicate MAX_VARINT_LEN_U64 0) output_index) (\<lambda>(v, n).
         Some (copy_at buf 32 (take n v), 32 + n)))"

definition derivation_index_len :: "u64 \<Rightarrow> usize" where
  "derivation_index_len output_index = 32 + varint_len output_index"

definition derivation_to_scalar :: "('s, 'p) dalek \<Rightarrow> KeyDerivation \<Rightarrow> u64 \<Rightarrow> EcScalar option" where
  "derivation_to_scalar C d i = Option.bind (derivation_index_buf d i) (\<lambda>(buf, n). Some (hash_to_scalar C (take n buf)))"

definition derivation_to_scalar_dalek :: "('s, 'p) dalek \<Rightarrow> KeyDerivation \<Rightarrow> u64 \<Rightarrow> 's option" where
  "derivation_to_scalar_dalek C d i =
     Option.bind (derivation_index_buf d i) (\<lambda>(buf, n). Some (dk_from_bytes_mod_order C (cn_fast_hash (take n buf))))"

definition derive_public_key :: "('s, 'p::ab_group_add) dalek \<Rightarrow> KeyDerivation \<Rightarrow> u64 \<Rightarrow> PublicKey \<Rightarrow> PublicKey option" where
  "derive_public_key C d output_index base =
     Option.bind (decode_point C base) (\<lambda>b.
     Option.bind (derivation_to_scalar_dalek C d output_index) (\<lambda>s.
     Some (encode_point C (b + scalarmult_base C s))))"

definition derive_secret_key :: "('s::comm_ring_1, 'p) dalek \<Rightarrow> KeyDerivation \<Rightarrow> u64 \<Rightarrow> SecretKey \<Rightarrow> SecretKey option" where
  "derive_secret_key C d output_index base =
     Option.bind (derivation_to_scalar C d output_index) (\<lambda>s. Some (sc_add C base s))"

definition derive_subaddress_public_key ::
  "('s, 'p::ab_group_add) dalek \<Rightarrow> PublicKey \<Rightarrow> KeyDerivation \<Rightarrow> u64 \<Rightarrow> PublicKey option" where
  "derive_subaddress_public_key C out_key d output_index =
     Option.bind (decode_point C out_key) (\<lambda>p.
     Option.bind (derivation_to_scalar_dalek C d output_index) (\<lambda>s.
     Some (encode_point C (p - scalarmult_base C s))))"

definition derive_view_tag :: "KeyDerivation \<Rightarrow> u64 \<Rightarrow> u8 option" where
  "derive_view_tag d output_index =
     (let buf = replicate (8 + 32 + MAX_VARINT_LEN_U64) 0;
          buf = copy_at buf 0 VIEW_TAG_SALT;
          buf = copy_at buf 8 d
      in Option.bind (write_varint_to (replicate MAX_VARINT_LEN_U64 0) output_index) (\<lambda>(v, n).
         let buf = copy_at buf 40 (take n v) in Some (cn_fast_hash (take (40 + n) buf) ! 0)))"

definition view_key_from_spend_key :: "('s, 'p) dalek \<Rightarrow> SecretKey \<Rightarrow> SecretKey" where
  "view_key_from_spend_key C spend = sc_reduce32 C (cn_fast_hash spend)"

definition subaddress_secret_key :: "('s, 'p) dalek \<Rightarrow> SecretKey \<Rightarrow> SubaddressIndex \<Rightarrow> EcScalar" where
  "subaddress_secret_key C view_secret index =
     (let buf = replicate (8 + 32 + 4 + 4) 0;
          buf = copy_at buf 0 HASH_KEY_SUBADDRESS;
          buf = copy_at buf 8 view_secret;
          buf = copy_at buf 40 (u32_to_le_bytes (si_major index));
          buf = copy_at buf 44 (u32_to_le_bytes (si_minor index))
      in hash_to_scalar C buf)"

definition get_subaddress :: "('s, 'p::ab_group_add) dalek \<Rightarrow> AccountPublicAddress \<Rightarrow> SecretKey \<Rightarrow> SubaddressIndex
    \<Rightarrow> AccountPublicAddress option" where
  "get_subaddress C keys view_secret index =
     (if is_main index then Some keys
      else let m = subaddress_secret_key C view_secret index;
               m = dk_from_bytes_mod_order C m
           in Option.bind (decode_point C (spend_public_key keys)) (\<lambda>b.
              let d = b + scalarmult_base C m in
              Option.bind (decode_scalar C view_secret) (\<lambda>a.
              let c = dk_smul C a d in
              Some \<lparr>spend_public_key = encode_point C d, view_public_key = encode_point C c\<rparr>)))"

definition encrypt_payment_id :: "bytes \<Rightarrow> KeyDerivation \<Rightarrow> bytes" where
  "encrypt_payment_id pid derivation =
     (let buf = replicate 33 0;
          buf = copy_at buf 0 derivation;
          buf = buf[32 := HASH_KEY_ENCRYPTED_PAYMENT_ID];
          key = cn_fast_hash buf
      in map (\<lambda>i. pid ! i XOR key ! i) [0..<8])"

section \<open>Buffers\<close>

lemma varint_buffer:
  "write_varint_to (replicate MAX_VARINT_LEN_U64 0) i =
     Some (varint_bytes i @ replicate (MAX_VARINT_LEN_U64 - length (varint_bytes i)) 0, length (varint_bytes i))"
  using write_varint_to_loop_eq [of 0 i "replicate MAX_VARINT_LEN_U64 0"] length_varint_bytes_le_10 [of i]
  by (simp add: write_varint_to_def MAX_VARINT_LEN_U64_def)

lemmas varint_buffer_10 = varint_buffer [unfolded MAX_VARINT_LEN_U64_def]

lemma derivation_buffer:
  assumes "length d = 32"
  shows "\<exists>buf n. derivation_index_buf d i = Some (buf, n) \<and> take n buf = d @ varint_bytes i \<and> n = derivation_index_len i"
proof -
  have "length (varint_bytes i) \<le> 10" by (rule length_varint_bytes_le_10)
  then show ?thesis using assms
    by (simp add: derivation_index_buf_def Let_def varint_buffer_10 copy_at_def derivation_index_len_def varint_len_eq
        MAX_VARINT_LEN_U64_def)
qed

lemma derivation_scalars:
  assumes "length d = 32"
  shows "derivation_to_scalar_dalek C d i = Some (hash_to_scalar_dalek C (d @ varint_bytes i))"
    "derivation_to_scalar C d i = Some (hash_to_scalar C (d @ varint_bytes i))"
  using derivation_buffer [OF assms, of i]
  by (auto simp: derivation_to_scalar_dalek_def derivation_to_scalar_def hash_to_scalar_dalek_def)

section \<open>Key exchange\<close>

lemma derivation_eq:
  assumes "lawful C" "decode_scalar C sec = Some s" "torsion_free P"
  shows "generate_key_derivation C (encode_point C P) sec = Some (encode_point C (dk_smul C (8 * s) P))"
  using assms by (simp add: generate_key_derivation_def decode_encode mul8_def cofactor_smul torsion_free_smul smul_mult)

text \<open>Sender and receiver derive the same shared secret: for two key pairs, the derivation from the first public and
  the second secret key exists and equals the derivation from the second public and the first secret key.\<close>

theorem derivation_agrees:
  assumes "lawful C" "secret_key_to_public_key C a = Some A" "secret_key_to_public_key C r = Some R"
  shows "generate_key_derivation C A r = generate_key_derivation C R a \<and> generate_key_derivation C A r \<noteq> None"
proof -
  note G = point_lawD(2) [OF assms(1)]
  obtain sa sr where a: "decode_scalar C a = Some sa" "A = encode_point C (dk_smul C sa (dk_base C))"
    and r: "decode_scalar C r = Some sr" "R = encode_point C (dk_smul C sr (dk_base C))"
    using assms(2,3) by (auto simp: secret_key_to_public_key_def scalarmult_base_def bind_eq_Some_conv)
  have "dk_smul C (8 * sr) (dk_smul C sa (dk_base C)) = dk_smul C (8 * sa) (dk_smul C sr (dk_base C))"
    using assms(1) G by (simp add: mult.assoc mult.commute [of sa sr] flip: smul_mult)
  then show ?thesis
    using derivation_eq [OF assms(1) r(1) torsion_free_smul [OF assms(1) G, of sa]]
      derivation_eq [OF assms(1) a(1) torsion_free_smul [OF assms(1) G, of sr]] a(2) r(2) by simp
qed

lemma zl_secret: "n < L255 \<Longrightarrow> decode_scalar zl_dalek (le_bytes 32 n) = Some (of_nat n)"
proof -
  assume n: "n < L255"
  then have "le_nat (le_bytes 32 n) = n" by (simp add: le_nat_le_bytes L255_def)
  then show ?thesis using n scalar_lawD(3) [OF zl_laws, of "le_bytes 32 n"] by (simp add: decode_scalar_def)
qed

lemma zl_public: "n < L255 \<Longrightarrow> secret_key_to_public_key zl_dalek (le_bytes 32 n) = Some (le_bytes 32 (1 + n))"
  by (simp add: secret_key_to_public_key_eq [OF zl_secret] encode_point_def zl_simps zl_nat_of_nat)

theorem derivation_agrees_witness:
  "lawful zl_dalek \<and> secret_key_to_public_key zl_dalek (le_bytes 32 3) = Some (le_bytes 32 (1 + 3)) \<and>
   secret_key_to_public_key zl_dalek (le_bytes 32 5) = Some (le_bytes 32 (1 + 5)) \<and>
   generate_key_derivation zl_dalek (le_bytes 32 (1 + 3)) (le_bytes 32 5) =
     generate_key_derivation zl_dalek (le_bytes 32 (1 + 5)) (le_bytes 32 3)"
proof -
  have p: "secret_key_to_public_key zl_dalek (le_bytes 32 3) = Some (le_bytes 32 (1 + 3))"
    "secret_key_to_public_key zl_dalek (le_bytes 32 5) = Some (le_bytes 32 (1 + 5))" by (rule zl_public, simp add: L255_def)+
  from derivation_agrees [OF zl_laws p] show ?thesis using p zl_laws by blast
qed

text \<open>C20. One-time keys: for every derivation and output index, the one-time public key derived from a base public key
  exists, the secret key derived from the base secret key is canonical and belongs to it, and the scanning direction
  recovers the base public key from the one-time key.\<close>

theorem one_time_keys_match:
  assumes "lawful C" "length d = 32" "length b = 32" "secret_key_to_public_key C b = Some B"
  shows "\<exists>P x. derive_public_key C d i B = Some P \<and> derive_secret_key C d i b = Some x \<and>
    secret_key_to_public_key C x = Some P \<and> derive_subaddress_public_key C P d i = Some B"
proof -
  note G = point_lawD(2) [OF assms(1)]
  obtain s where s: "decode_scalar C b = Some s" "B = encode_point C (dk_smul C s (dk_base C))"
    using assms(4) by (auto simp: secret_key_to_public_key_def scalarmult_base_def bind_eq_Some_conv)
  let ?h = "hash_to_scalar_dalek C (d @ varint_bytes i)"
  have x: "derive_secret_key C d i b = Some (dk_to_bytes C (s + ?h))"
    using assms decode_scalar_Some [OF assms(1,3) s(1)]
    by (simp add: derive_secret_key_def derivation_scalars sc_add_def hash_to_scalar_bytes)
  moreover have "derive_public_key C d i B = Some (encode_point C (dk_smul C (s + ?h) (dk_base C)))"
    using assms(1,2) G s(2) by (simp add: derive_public_key_def decode_encode derivation_scalars scalarmult_base_def smul_add)
  moreover have "secret_key_to_public_key C (dk_to_bytes C (s + ?h)) = Some (encode_point C (dk_smul C (s + ?h) (dk_base C)))"
    using assms(1) by (simp add: secret_key_to_public_key_eq)
  moreover have "derive_subaddress_public_key C (encode_point C (dk_smul C (s + ?h) (dk_base C))) d i = Some B"
    using assms(1,2) G s(2)
    by (simp add: derive_subaddress_public_key_def decode_encode derivation_scalars scalarmult_base_def smul_add)
  ultimately show ?thesis by blast
qed

theorem one_time_keys_match_witness:
  "lawful zl_dalek \<and> secret_key_to_public_key zl_dalek (le_bytes 32 3) = Some (le_bytes 32 (1 + 3)) \<and>
   (\<exists>P x. derive_public_key zl_dalek (replicate 32 9) 300 (le_bytes 32 (1 + 3)) = Some P \<and>
      derive_secret_key zl_dalek (replicate 32 9) 300 (le_bytes 32 3) = Some x \<and> secret_key_to_public_key zl_dalek x = Some P \<and>
      derive_subaddress_public_key zl_dalek P (replicate 32 9) 300 = Some (le_bytes 32 (1 + 3)))"
proof -
  have p: "secret_key_to_public_key zl_dalek (le_bytes 32 3) = Some (le_bytes 32 (1 + 3))" by (rule zl_public) (simp add: L255_def)
  have l: "length (replicate 32 (9 :: u8)) = 32" "length (le_bytes 32 3) = 32" by simp_all
  from one_time_keys_match [OF zl_laws l p] show ?thesis using p zl_laws by blast
qed

section \<open>Subaddresses\<close>

text \<open>C30. Subaddresses: the index \<open>(0, 0)\<close> is the main address unchanged; every other index gives an address whose
  view key is the view secret times its spend key, whose spend key is owned by the account (the spend secret plus the
  subaddress secret), and an output sent to it is recognised by the derivation from the transaction key \<open>r D\<close>.\<close>

theorem subaddress_correct:
  assumes "lawful C" "length b = 32" "secret_key_to_public_key C b = Some (spend_public_key keys)"
    "decode_scalar C a = Some sa" "decode_scalar C r = Some sr" "\<not> is_main index"
  shows "get_subaddress C keys a \<lparr>si_major = 0, si_minor = 0\<rparr> = Some keys \<and>
    (\<exists>sub D. get_subaddress C keys a index = Some sub \<and>
      secret_key_to_public_key C (sc_add C b (subaddress_secret_key C a index)) = Some (spend_public_key sub) \<and>
      decode_point C (spend_public_key sub) = Some D \<and> view_public_key sub = encode_point C (dk_smul C sa D) \<and>
      generate_key_derivation C (view_public_key sub) r = generate_key_derivation C (encode_point C (dk_smul C sr D)) a)"
proof -
  note G = point_lawD(2) [OF assms(1)]
  obtain s where s: "decode_scalar C b = Some s" "spend_public_key keys = encode_point C (dk_smul C s (dk_base C))"
    using assms(3) by (auto simp: secret_key_to_public_key_def scalarmult_base_def bind_eq_Some_conv)
  define buf where "buf = copy_at (copy_at (copy_at (copy_at (replicate (8 + 32 + 4 + 4) 0) 0 HASH_KEY_SUBADDRESS) 8 a) 40
    (u32_to_le_bytes (si_major index))) 44 (u32_to_le_bytes (si_minor index))"
  have m: "subaddress_secret_key C a index = dk_to_bytes C (hash_to_scalar_dalek C buf)"
    by (simp only: subaddress_secret_key_def Let_def hash_to_scalar_bytes buf_def)
  let ?D = "dk_smul C (s + hash_to_scalar_dalek C buf) (dk_base C)"
  have D: "torsion_free ?D" by (rule torsion_free_smul [OF assms(1) G])
  have "get_subaddress C keys a index = Some \<lparr>spend_public_key = encode_point C ?D, view_public_key = encode_point C (dk_smul C sa ?D)\<rparr>"
    using assms(1,4,6) G s(2)
    by (simp add: get_subaddress_def Let_def m scalar_bytes_roundtrip decode_encode scalarmult_base_def smul_add)
  moreover have "secret_key_to_public_key C (sc_add C b (subaddress_secret_key C a index)) = Some (encode_point C ?D)"
    using assms(1) decode_scalar_Some [OF assms(1,2) s(1)]
    by (simp add: sc_add_def m secret_key_to_public_key_eq)
  moreover have "generate_key_derivation C (encode_point C (dk_smul C sa ?D)) r = generate_key_derivation C (encode_point C (dk_smul C sr ?D)) a"
    using assms(1,4,5) D by (simp add: derivation_eq torsion_free_smul mult.assoc mult.commute [of sa sr] flip: smul_mult)
  ultimately show ?thesis using assms(1) by (simp add: get_subaddress_def is_main_def decode_encode)
qed

theorem subaddress_correct_witness:
  "lawful zl_dalek \<and> \<not> is_main \<lparr>si_major = 1, si_minor = 2\<rparr> \<and>
   (\<exists>sub. get_subaddress zl_dalek \<lparr>spend_public_key = le_bytes 32 (1 + 3), view_public_key = le_bytes 32 5\<rparr> (le_bytes 32 5)
      \<lparr>si_major = 1, si_minor = 2\<rparr> = Some sub)"
proof -
  have p: "secret_key_to_public_key zl_dalek (le_bytes 32 3) =
      Some (spend_public_key \<lparr>spend_public_key = le_bytes 32 (1 + 3), view_public_key = le_bytes 32 5\<rparr>)"
    unfolding AccountPublicAddress.simps by (rule zl_public) (simp add: L255_def)
  have a: "decode_scalar zl_dalek (le_bytes 32 5) = Some (of_nat 5)" by (rule zl_secret) (simp add: L255_def)
  have i: "\<not> is_main \<lparr>si_major = 1, si_minor = 2\<rparr>" by (simp add: is_main_def)
  from subaddress_correct [OF zl_laws length_le_bytes p a a i] show ?thesis using zl_laws i by blast
qed

section \<open>Payment ids and view tags\<close>

text \<open>Payment-id encryption is its own inverse, for every 8-byte id and every derivation.\<close>

theorem payment_id_involution:
  assumes "length pid = 8"
  shows "encrypt_payment_id (encrypt_payment_id pid d) d = pid"
proof (rule nth_equalityI)
  fix i
  assume "i < length (encrypt_payment_id (encrypt_payment_id pid d) d)"
  then have "i < 8" by (simp add: encrypt_payment_id_def Let_def)
  then show "encrypt_payment_id (encrypt_payment_id pid d) d ! i = pid ! i"
    by (simp add: encrypt_payment_id_def Let_def xor.assoc)
qed (simp add: encrypt_payment_id_def Let_def assms)

theorem payment_id_involution_witness:
  "length [1, 2, 3, 4, 5, 6, 7, 8 :: u8] = 8 \<and>
   encrypt_payment_id (encrypt_payment_id [1, 2, 3, 4, 5, 6, 7, 8] (replicate 32 0x5a)) (replicate 32 0x5a) = [1, 2, 3, 4, 5, 6, 7, 8]"
  using payment_id_involution [of "[1, 2, 3, 4, 5, 6, 7, 8]" "replicate 32 0x5a"] by simp

text \<open>The view tag hashes the salt, the derivation and the index with no padding; no index makes its buffer panic.\<close>

lemma derive_view_tag_eq: "length d = 32 \<Longrightarrow> derive_view_tag d i = Some (cn_fast_hash (VIEW_TAG_SALT @ d @ varint_bytes i) ! 0)"
  using length_varint_bytes_le_10 [of i]
  by (simp add: derive_view_tag_def Let_def varint_buffer_10 copy_at_def VIEW_TAG_SALT_def MAX_VARINT_LEN_U64_def)

end
