(* ===== verification/RctOps.thy ===== *)
theory RctOps
  imports Keys
begin

text \<open>
  RingCT primitives, \<open>crates/wow-crypto/src/rct.rs\<close>: Pedersen commitments \<open>mask G + amount H\<close>, the
  division and multiplication by eight of their serialised forms, and the decoding of the encrypted
  amounts. \<open>None\<close> is a \<open>None\<close> of the source or the panic of the \<open>expect\<close> in \<open>h_point\<close>.
\<close>

definition H_GEN :: bytes where
  "H_GEN =
     [0x8b, 0x65, 0x59, 0x70, 0x15, 0x37, 0x99, 0xaf, 0x2a, 0xea, 0xdc, 0x9f, 0xf1, 0xad, 0xd0, 0xea,
      0x6c, 0x72, 0x51, 0xd5, 0x41, 0x54, 0xcf, 0xa9, 0x2c, 0x17, 0x3a, 0x0d, 0xd3, 0x9c, 0x1f, 0x94]"

definition h_point :: "('s, 'p) dalek \<Rightarrow> 'p option" where
  "h_point C = decode_point C H_GEN"

definition amount_to_scalar :: "('s, 'p) dalek \<Rightarrow> u64 \<Rightarrow> 's" where
  "amount_to_scalar C amount =
     dk_from_bytes_mod_order C (copy_at (replicate 32 0) 0 (u64_to_le_bytes amount))"

definition scalarmult_h :: "('s, 'p) dalek \<Rightarrow> 's \<Rightarrow> 'p option" where
  "scalarmult_h C a = Option.bind (h_point C) (\<lambda>h. Some (dk_smul C a h))"

definition zero_commit :: "('s, 'p::ab_group_add) dalek \<Rightarrow> u64 \<Rightarrow> EcPoint option" where
  "zero_commit C amount =
     Option.bind (scalarmult_h C (amount_to_scalar C amount)) (\<lambda>ah. Some (dk_compress C (dk_base C + ah)))"

definition commit :: "('s, 'p::ab_group_add) dalek \<Rightarrow> u64 \<Rightarrow> 's \<Rightarrow> EcPoint option" where
  "commit C amount blind =
     Option.bind (scalarmult_h C (amount_to_scalar C amount)) (\<lambda>ah.
     Some (dk_compress C (dk_smul C blind (dk_base C) + ah)))"

definition div8 :: "('s::comm_ring_1, 'p) dalek \<Rightarrow> EcPoint \<Rightarrow> EcPoint option" where
  "div8 C p =
     Option.bind (decode_point C p) (\<lambda>point.
     let inv8 = dk_invert C 8 in Some (dk_compress C (dk_smul C inv8 point)))"

definition scalarmult8 :: "('s, 'p) dalek \<Rightarrow> EcPoint \<Rightarrow> EcPoint option" where
  "scalarmult8 C p = Option.bind (decode_point C p) (\<lambda>point. Some (dk_compress C (mul8 C point)))"

definition COMMITMENT_MASK :: bytes where
  "COMMITMENT_MASK = [0x63, 0x6f, 0x6d, 0x6d, 0x69, 0x74, 0x6d, 0x65, 0x6e, 0x74, 0x5f, 0x6d, 0x61, 0x73, 0x6b]"
definition AMOUNT :: bytes where "AMOUNT = [0x61, 0x6d, 0x6f, 0x75, 0x6e, 0x74]"

definition commitment_mask :: "('s, 'p) dalek \<Rightarrow> EcScalar \<Rightarrow> 's" where
  "commitment_mask C shared_sec =
     hash_to_scalar_dalek C (copy_at (copy_at (replicate (15 + 32) 0) 0 COMMITMENT_MASK) 15 shared_sec)"

definition amount_pad :: "EcScalar \<Rightarrow> bytes" where
  "amount_pad shared_sec =
     take 8 (cn_fast_hash (copy_at (copy_at (replicate (6 + 32) 0) 0 AMOUNT) 6 shared_sec))"

definition ecdh_decode_short :: "('s, 'p) dalek \<Rightarrow> EcScalar \<Rightarrow> EcScalar \<Rightarrow> u64 \<times> 's" where
  "ecdh_decode_short C amount_field shared_sec =
     (let pad = amount_pad shared_sec;
          a = map2 (\<lambda>b p. b XOR p) (take 8 amount_field) pad
      in (u64_from_le_bytes a, commitment_mask C shared_sec))"

definition ecdh_decode_legacy :: "('s::comm_ring_1, 'p) dalek \<Rightarrow> EcScalar \<Rightarrow> EcScalar \<Rightarrow> EcScalar \<Rightarrow> (u64 \<times> 's) option" where
  "ecdh_decode_legacy C mask_field amount_field shared_sec =
     (let s1 = hash_to_scalar_dalek C shared_sec;
          s2 = hash_to_scalar_dalek C (dk_to_bytes C s1)
      in Option.bind (dk_from_canonical_bytes C mask_field) (\<lambda>m.
         let blind = m - s1 in
         Option.bind (dk_from_canonical_bytes C amount_field) (\<lambda>a.
         let amount = a - s2; b = dk_to_bytes C amount
         in Some (u64_from_le_bytes (take 8 b), blind))))"

definition commitment_matches :: "('s, 'p::ab_group_add) dalek \<Rightarrow> u64 \<Rightarrow> 's \<Rightarrow> EcPoint \<Rightarrow> bool option" where
  "commitment_matches C amount blind out_pk = map_option (\<lambda>c. c = out_pk) (commit C amount blind)"

section \<open>Commitments\<close>

lemma amount_to_scalar_eq: "lawful C \<Longrightarrow> amount_to_scalar C a = of_nat (unat a)"
proof -
  assume C: "lawful C"
  have "le_nat (replicate n 0) = 0" for n by (induction n) simp_all
  then have "le_nat (copy_at (replicate 32 0) 0 (u64_to_le_bytes a)) = unat a"
    using unat_bound [of a] by (simp add: copy_at_def le_nat_append u64_to_le_bytes_def le_nat_le_bytes)
  moreover have "length (copy_at (replicate 32 0) 0 (u64_to_le_bytes a)) = 32" by (simp add: copy_at_def)
  ultimately show ?thesis using scalar_lawD(2) [OF C] by (simp add: amount_to_scalar_def)
qed

lemma commit_eq:
  assumes "lawful C" "h_point C = Some h"
  shows "commit C a m = Some (encode_point C (dk_smul C m (dk_base C) + dk_smul C (of_nat (unat a)) h))"
  using assms by (simp add: commit_def scalarmult_h_def amount_to_scalar_eq encode_point_def)

text \<open>Commitments add up: the commitments to two amounts with their masks decode to points whose sum is the
  commitment to the sum of the amounts with the sum of the masks, as long as the sum fits 64 bits, and the coinbase
  commitment is the ordinary one with mask one. The generator \<open>H\<close> is assumed to decode to a torsion-free point.\<close>

theorem commitments_homomorphic:
  assumes "lawful C" "h_point C = Some h" "torsion_free h" "unat a + unat b < 2 ^ 64"
  shows "\<exists>P Q R. Option.bind (commit C a m) (decode_point C) = Some P \<and> Option.bind (commit C b n) (decode_point C) = Some Q \<and>
    Option.bind (commit C (a + b) (m + n)) (decode_point C) = Some R \<and> P + Q = R \<and> zero_commit C a = commit C a 1"
proof -
  note G = point_lawD(2) [OF assms(1)]
  have "unat (a + b) = unat a + unat b" using assms(4) by (simp add: unat_add_no_wrap)
  then have "dk_smul C (m + n) (dk_base C) + dk_smul C (of_nat (unat (a + b))) h =
      (dk_smul C m (dk_base C) + dk_smul C (of_nat (unat a)) h) + (dk_smul C n (dk_base C) + dk_smul C (of_nat (unat b)) h)"
    using assms G by (simp add: smul_add ac_simps)
  moreover have "zero_commit C a = commit C a 1"
    using assms G by (simp add: zero_commit_def commit_def scalarmult_h_def smul_one)
  ultimately show ?thesis using assms(1,2) by (simp add: commit_eq decode_encode)
qed

lemma zl_h_point: "h_point zl_dalek = Some (of_nat (le_nat H_GEN) - 1)"
proof -
  have "length H_GEN = 32" by (simp add: H_GEN_def)
  moreover have "canonical_point H_GEN" by (simp add: canonical_point_def H_GEN_def)
  ultimately show ?thesis by (simp add: h_point_def decode_point_canonical zl_simps)
qed

theorem commitments_homomorphic_witness:
  "lawful zl_dalek \<and> h_point zl_dalek = Some (of_nat (le_nat H_GEN) - 1) \<and> unat (3 :: u64) + unat (5 :: u64) < 2 ^ 64 \<and>
   (\<exists>P Q R. Option.bind (commit zl_dalek 3 7) (decode_point zl_dalek) = Some P \<and>
      Option.bind (commit zl_dalek 5 9) (decode_point zl_dalek) = Some Q \<and>
      Option.bind (commit zl_dalek (3 + 5) (7 + 9)) (decode_point zl_dalek) = Some R \<and> P + Q = R)"
proof -
  have s: "unat (3 :: u64) + unat (5 :: u64) < 2 ^ 64" by simp
  from commitments_homomorphic [OF zl_laws zl_h_point zl_torsion_free s, of 7 9] show ?thesis
    using zl_laws zl_h_point s by blast
qed

text \<open>Serialised as \<open>C / 8\<close>, a torsion-free commitment is recovered by the multiplication by eight.\<close>

lemma scalarmult8_div8:
  assumes "lawful C" "torsion_free P"
  shows "Option.bind (div8 C (encode_point C P)) (scalarmult8 C) = Some (encode_point C P)"
proof -
  have "decode_point C (dk_compress C Q) = Some Q" for Q using decode_encode [OF assms(1)] by (simp add: encode_point_def)
  then show ?thesis using assms by (simp add: div8_def scalarmult8_def mul8_def encode_point_def cofactor_inverse)
qed

section \<open>Amounts\<close>

lemma xor_pad_involution:
  "length xs = length ps \<Longrightarrow> map2 (\<lambda>b p. b XOR p) (map2 (\<lambda>b p. b XOR p) xs ps) ps = xs" for xs ps :: bytes
  by (induction xs ps rule: list_induct2) (simp_all add: xor.assoc)

text \<open>Amount decoding inverts the encryption of the sender: the amount's eight bytes xored with the pad of the
  shared secret, followed by anything, decode to the amount; and in the legacy form the scalars with the two hashes
  added decode to the amount and the mask.\<close>

theorem ecdh_decode_correct:
  assumes "lawful C"
  shows "ecdh_decode_short C (map2 (\<lambda>b p. b XOR p) (u64_to_le_bytes v) (amount_pad ss) @ rest) ss = (v, commitment_mask C ss) \<and>
    ecdh_decode_legacy C (dk_to_bytes C (m + hash_to_scalar_dalek C ss))
      (dk_to_bytes C (of_nat (unat v) + hash_to_scalar_dalek C (hash_to_scalar C ss))) ss = Some (v, m)"
proof
  have "length (amount_pad ss) = 8" by (simp add: amount_pad_def)
  then show "ecdh_decode_short C (map2 (\<lambda>b p. b XOR p) (u64_to_le_bytes v) (amount_pad ss) @ rest) ss = (v, commitment_mask C ss)"
    by (simp add: ecdh_decode_short_def Let_def xor_pad_involution)
  have "unat v < L255" using unat_bound [of v] by (simp add: L255_def)
  then have "dk_to_bytes C (of_nat (unat v)) = le_bytes 32 (unat v)" by (rule to_bytes_of_nat [OF assms])
  moreover have "u64_from_le_bytes (take 8 (le_bytes 32 (unat v))) = v"
    using unat_bound [of v] by (simp add: u64_from_le_bytes_def le_nat_take_drop le_nat_le_bytes)
  ultimately show "ecdh_decode_legacy C (dk_to_bytes C (m + hash_to_scalar_dalek C ss))
      (dk_to_bytes C (of_nat (unat v) + hash_to_scalar_dalek C (hash_to_scalar C ss))) ss = Some (v, m)"
    using assms by (simp add: ecdh_decode_legacy_def Let_def scalar_bytes_roundtrip hash_to_scalar_bytes)
qed

theorem ecdh_decode_correct_witness:
  "lawful zl_dalek \<and> ecdh_decode_short zl_dalek (map2 (\<lambda>b p. b XOR p) (u64_to_le_bytes 77) (amount_pad (replicate 32 4)) @ []) (replicate 32 4) =
     (77, commitment_mask zl_dalek (replicate 32 4))"
  using ecdh_decode_correct [OF zl_laws, of 77 "replicate 32 4" "[]"] zl_laws by blast

end
