(* ===== verification/ClsagSig.thy ===== *)
theory ClsagSig
  imports RctOps
begin

text \<open>
  CLSAG, the ring signature of every RingCT input, \<open>crates/wow-crypto/src/clsag.rs\<close>. The signing loop
  walks the ring from the real index and wraps around; it is a partial function whose \<open>None\<close> is a
  walk that never comes back, and is shown to return for every index inside the ring.
\<close>

record RingMember =
  rm_dest :: PublicKey
  rm_mask :: EcPoint

record clsag_sig =
  cs_s :: "EcScalar list"
  cs_c1 :: EcScalar
  cs_d :: EcPoint
  cs_i :: KeyImage

datatype ClsagError =
    EmptyRing
  | IndexOutOfRange usize usize
  | WrongScalarCount usize usize
  | NonCanonicalScalar
  | IdentityKeyImage
  | BadPoint
  | BadSignature

definition DOMAIN_ROUND :: bytes where
  "DOMAIN_ROUND = [0x43, 0x4c, 0x53, 0x41, 0x47, 0x5f, 0x72, 0x6f, 0x75, 0x6e, 0x64]"
definition DOMAIN_AGG_0 :: bytes where
  "DOMAIN_AGG_0 = [0x43, 0x4c, 0x53, 0x41, 0x47, 0x5f, 0x61, 0x67, 0x67, 0x5f, 0x30]"
definition DOMAIN_AGG_1 :: bytes where
  "DOMAIN_AGG_1 = [0x43, 0x4c, 0x53, 0x41, 0x47, 0x5f, 0x61, 0x67, 0x67, 0x5f, 0x31]"

definition inv_eight :: "('s::comm_ring_1, 'p) dalek \<Rightarrow> 's" where "inv_eight C = dk_invert C 8"

definition domain_block :: "bytes \<Rightarrow> bytes" where "domain_block domain = copy_at (replicate 32 0) 0 domain"

definition aggregation_hashes :: "('s, 'p) dalek \<Rightarrow> RingMember list \<Rightarrow> KeyImage \<Rightarrow> EcPoint \<Rightarrow> EcPoint \<Rightarrow> 's \<times> 's" where
  "aggregation_hashes C ring key_image d8 c_offset =
     (let tail = concat (map rm_dest ring) @ concat (map rm_mask ring) @ key_image @ d8 @ c_offset;
          buf = domain_block DOMAIN_AGG_0 @ tail;
          mu_p = hash_to_scalar_dalek C buf;
          buf = copy_at buf 0 (domain_block DOMAIN_AGG_1);
          mu_c = hash_to_scalar_dalek C buf
      in (mu_p, mu_c))"

definition round_prefix :: "RingMember list \<Rightarrow> EcPoint \<Rightarrow> bytes \<Rightarrow> bytes" where
  "round_prefix ring c_offset message =
     domain_block DOMAIN_ROUND @ concat (map rm_dest ring) @ concat (map rm_mask ring) @ c_offset @ message"

definition round_hash :: "('s, 'p) dalek \<Rightarrow> bytes \<Rightarrow> 'p \<Rightarrow> 'p \<Rightarrow> 's" where
  "round_hash C prefix l r = hash_to_scalar_dalek C (prefix @ encode_point C l @ encode_point C r)"

record 'p DecodedRing =
  dr_dest :: "'p list"
  dr_mask_less_offset :: "'p list"
  dr_hp :: "'p list"

fun decode_ring_loop :: "('s, 'p::ab_group_add) dalek \<Rightarrow> 'p \<Rightarrow> RingMember list \<Rightarrow> 'p DecodedRing \<Rightarrow> ClsagError + 'p DecodedRing" where
  "decode_ring_loop C c_offset [] out = Inr out"
| "decode_ring_loop C c_offset (m # ms) out =
     and_then (ok_or (decode_point C (rm_dest m)) BadPoint) (\<lambda>p.
     and_then (ok_or (decode_point C (rm_mask m)) BadPoint) (\<lambda>c.
     and_then (ok_or (hash_to_ec_point C (rm_dest m)) BadPoint) (\<lambda>hp.
     decode_ring_loop C c_offset ms
       \<lparr>dr_dest = dr_dest out @ [p], dr_mask_less_offset = dr_mask_less_offset out @ [c - c_offset], dr_hp = dr_hp out @ [hp]\<rparr>)))"

definition decode_ring :: "('s, 'p::ab_group_add) dalek \<Rightarrow> RingMember list \<Rightarrow> 'p \<Rightarrow> ClsagError + 'p DecodedRing" where
  "decode_ring C ring c_offset = decode_ring_loop C c_offset ring \<lparr>dr_dest = [], dr_mask_less_offset = [], dr_hp = []\<rparr>"

text \<open>The constants of one walk around the ring, and the step both loops take at member \<open>i\<close>.\<close>

record ('s, 'p) clsag_walk =
  cw_prefix :: bytes
  cw_ring :: "'p DecodedRing"
  cw_mu_p :: 's
  cw_mu_c :: 's
  cw_i_point :: 'p
  cw_d_point :: 'p

definition clsag_step :: "('s::comm_ring_1, 'p::ab_group_add) dalek \<Rightarrow> ('s, 'p) clsag_walk \<Rightarrow> usize \<Rightarrow> 's \<Rightarrow> 's \<Rightarrow> 's" where
  "clsag_step C w i si c =
     (let c_p = cw_mu_p w * c;
          c_c = cw_mu_c w * c;
          l = dk_smul C si (dk_base C) + dk_smul C c_p (dr_dest (cw_ring w) ! i)
                + dk_smul C c_c (dr_mask_less_offset (cw_ring w) ! i);
          r = dk_smul C si (dr_hp (cw_ring w) ! i) + dk_smul C c_p (cw_i_point w) + dk_smul C c_c (cw_d_point w)
      in round_hash C (cw_prefix w) l r)"

partial_function (option) clsag_sign_loop :: "('s::comm_ring_1, 'p::ab_group_add) dalek \<Rightarrow> ('s, 'p) clsag_walk \<Rightarrow> usize \<Rightarrow> usize \<Rightarrow> 's list
    \<Rightarrow> usize \<Rightarrow> 's \<Rightarrow> 's list \<Rightarrow> 's \<Rightarrow> ('s \<times> 's list \<times> 's) option" where
  "clsag_sign_loop C w n index fake_s i c s c1 =
     (if i \<noteq> index then
        clsag_sign_loop C w n index fake_s ((i + 1) mod n) (clsag_step C w i (fake_s ! i) c) (s[i := fake_s ! i])
          (if (i + 1) mod n = 0 then clsag_step C w i (fake_s ! i) c else c1)
      else Some (c, s, c1))"

definition clsag_sign :: "('s::comm_ring_1, 'p::ab_group_add) dalek \<Rightarrow> bytes \<Rightarrow> RingMember list \<Rightarrow> usize \<Rightarrow> 's \<Rightarrow> 's \<Rightarrow> EcPoint
    \<Rightarrow> 's \<Rightarrow> 's list \<Rightarrow> (ClsagError + clsag_sig) option" where
  "clsag_sign C message ring index p z c_offset alpha fake_s =
     (let n = length ring in
      if n = 0 then Some (Inl EmptyRing)
      else if n \<le> index then Some (Inl (IndexOutOfRange index n))
      else if length fake_s \<noteq> n then Some (Inl (WrongScalarCount (length fake_s) n))
      else case and_then (ok_or (decode_point C c_offset) BadPoint) (\<lambda>offset_point. decode_ring C ring offset_point) of
        Inl e \<Rightarrow> Some (Inl e)
      | Inr decoded \<Rightarrow>
          let h = dr_hp decoded ! index;
              key_image = encode_point C (dk_smul C p h);
              d_point = dk_smul C z h;
              d8 = encode_point C (dk_smul C (inv_eight C) d_point);
              a_g = dk_smul C alpha (dk_base C);
              a_h = dk_smul C alpha h;
              (mu_p, mu_c) = aggregation_hashes C ring key_image d8 c_offset;
              prefix = round_prefix ring c_offset message
          in case decode_point C key_image of
               None \<Rightarrow> Some (Inl BadPoint)
             | Some i_point \<Rightarrow>
                 let w = \<lparr>cw_prefix = prefix, cw_ring = decoded, cw_mu_p = mu_p, cw_mu_c = mu_c, cw_i_point = i_point, cw_d_point = d_point\<rparr>;
                     c = round_hash C prefix a_g a_h;
                     i = (index + 1) mod n
                 in map_option (\<lambda>(c, s, c1).
                      let s = s[index := alpha - c * (mu_p * p + mu_c * z)]
                      in Inr \<lparr>cs_s = map (dk_to_bytes C) s, cs_c1 = dk_to_bytes C c1, cs_d = d8, cs_i = key_image\<rparr>)
                    (clsag_sign_loop C w n index fake_s i c (replicate n 0) (if i = 0 then c else 0)))"

fun decode_scalars :: "('s, 'p) dalek \<Rightarrow> EcScalar list \<Rightarrow> ClsagError + 's list" where
  "decode_scalars C [] = Inr []"
| "decode_scalars C (x # xs) =
     and_then (ok_or (decode_scalar C x) NonCanonicalScalar) (\<lambda>s. and_then (decode_scalars C xs) (\<lambda>ss. Inr (s # ss)))"

fun clsag_verify_loop :: "('s::comm_ring_1, 'p::ab_group_add) dalek \<Rightarrow> ('s, 'p) clsag_walk \<Rightarrow> usize \<Rightarrow> 's list \<Rightarrow> 's \<Rightarrow> ClsagError + 's" where
  "clsag_verify_loop C w i [] c = Inr c"
| "clsag_verify_loop C w i (si # ss) c =
     (let c = clsag_step C w i si c in if c = 0 then Inl BadSignature else clsag_verify_loop C w (i + 1) ss c)"

definition clsag_verify :: "('s::comm_ring_1, 'p::ab_group_add) dalek \<Rightarrow> bytes \<Rightarrow> clsag_sig \<Rightarrow> KeyImage \<Rightarrow> RingMember list \<Rightarrow> EcPoint
    \<Rightarrow> ClsagError + unit" where
  "clsag_verify C message sig key_image ring c_offset =
     (let n = length ring in
      if n = 0 then Inl EmptyRing
      else if length (cs_s sig) \<noteq> n then Inl (WrongScalarCount (length (cs_s sig)) n)
      else
        and_then (decode_scalars C (cs_s sig)) (\<lambda>s.
        and_then (ok_or (decode_scalar C (cs_c1 sig)) NonCanonicalScalar) (\<lambda>c1.
        and_then (ok_or (decode_point C key_image) BadPoint) (\<lambda>i_point.
        if i_point = 0 then Inl IdentityKeyImage
        else
          and_then (ok_or (decode_point C (cs_d sig)) BadPoint) (\<lambda>d.
          let d_point = mul8 C d in
          if d_point = 0 then Inl IdentityKeyImage
          else
            and_then (ok_or (decode_point C c_offset) BadPoint) (\<lambda>offset_point.
            and_then (decode_ring C ring offset_point) (\<lambda>decoded.
            let (mu_p, mu_c) = aggregation_hashes C ring key_image (cs_d sig) c_offset;
                prefix = round_prefix ring c_offset message;
                w = \<lparr>cw_prefix = prefix, cw_ring = decoded, cw_mu_p = mu_p, cw_mu_c = mu_c, cw_i_point = i_point, cw_d_point = d_point\<rparr>
            in and_then (clsag_verify_loop C w 0 s c1) (\<lambda>c. if c = c1 then Inr () else Inl BadSignature))))))))"

section \<open>Decoding\<close>

definition ring_decodes :: "('s, 'p::ab_group_add) dalek \<Rightarrow> 'p \<Rightarrow> RingMember list \<Rightarrow> 'p DecodedRing \<Rightarrow> bool" where
  "ring_decodes C off ring d \<longleftrightarrow>
     length (dr_dest d) = length ring \<and> length (dr_mask_less_offset d) = length ring \<and> length (dr_hp d) = length ring \<and>
     (\<forall>i < length ring. decode_point C (rm_dest (ring ! i)) = Some (dr_dest d ! i) \<and>
        decode_point C (rm_mask (ring ! i)) = Some (dr_mask_less_offset d ! i + off) \<and>
        hash_to_ec_point C (rm_dest (ring ! i)) = Some (dr_hp d ! i))"

lemma decode_ring_loop_Inr:
  "decode_ring_loop C off ms out = Inr d \<Longrightarrow> ring_decodes C off front out \<Longrightarrow> ring_decodes C off (front @ ms) d"
proof (induction ms arbitrary: front out)
  case (Cons m ms)
  from Cons.prems obtain p c hp where "decode_point C (rm_dest m) = Some p" "decode_point C (rm_mask m) = Some c"
    "hash_to_ec_point C (rm_dest m) = Some hp"
    and step: "decode_ring_loop C off ms \<lparr>dr_dest = dr_dest out @ [p], dr_mask_less_offset = dr_mask_less_offset out @ [c - off],
      dr_hp = dr_hp out @ [hp]\<rparr> = Inr d" by auto
  then have "ring_decodes C off (front @ [m])
      \<lparr>dr_dest = dr_dest out @ [p], dr_mask_less_offset = dr_mask_less_offset out @ [c - off], dr_hp = dr_hp out @ [hp]\<rparr>"
    using Cons.prems(2) by (auto simp: ring_decodes_def nth_append less_Suc_eq)
  from Cons.IH [OF step this] show ?case by simp
qed simp

lemma decode_ring_Inr: "decode_ring C ring off = Inr d \<Longrightarrow> ring_decodes C off ring d"
  using decode_ring_loop_Inr [of C off ring _ d "[]"] by (simp add: decode_ring_def ring_decodes_def)

lemma decode_ring_Inl:
  "decode_ring_loop C off ms out = Inl e \<Longrightarrow> e = BadPoint \<and>
    (\<exists>m \<in> set ms. decode_point C (rm_dest m) = None \<or> decode_point C (rm_mask m) = None \<or> hash_to_ec_point C (rm_dest m) = None)"
  by (induction ms arbitrary: out) (auto simp: and_then_eq_Inl ok_or_def split: option.splits)

section \<open>The walk around the ring\<close>

fun clsag_chain :: "('s::comm_ring_1, 'p::ab_group_add) dalek \<Rightarrow> ('s, 'p) clsag_walk \<Rightarrow> usize \<Rightarrow> 's list \<Rightarrow> 's \<Rightarrow> 's" where
  "clsag_chain C w i [] c = c"
| "clsag_chain C w i (s # ss) c = clsag_chain C w (Suc i) ss (clsag_step C w i s c)"

lemma clsag_chain_append: "clsag_chain C w i (xs @ ys) c = clsag_chain C w (i + length xs) ys (clsag_chain C w i xs c)"
  by (induction xs arbitrary: i c) simp_all

lemma clsag_verify_loop_eq:
  "clsag_verify_loop C w i ss c =
     (if \<exists>j \<in> {..<length ss}. clsag_chain C w i (take (Suc j) ss) c = 0 then Inl BadSignature else Inr (clsag_chain C w i ss c))"
proof (induction ss arbitrary: i c)
  case (Cons s ss)
  let ?c = "clsag_step C w i s c"
  have "(\<exists>j \<in> {..<length (s # ss)}. clsag_chain C w i (take (Suc j) (s # ss)) c = 0) \<longleftrightarrow>
      ?c = 0 \<or> (\<exists>j \<in> {..<length ss}. clsag_chain C w (Suc i) (take (Suc j) ss) ?c = 0)"
    by (auto simp: lessThan_Suc_eq_insert_0 bex_simps)
  then show ?case by (simp add: Let_def Cons.IH)
qed simp

lemma sign_loop_ahead:
  "i \<le> index \<Longrightarrow> index < n \<Longrightarrow> length fake_s = n \<Longrightarrow> length s = n \<Longrightarrow>
    clsag_sign_loop C w n index fake_s i c s c1 =
      Some (clsag_chain C w i (drop i (take index fake_s)) c, take i s @ drop i (take index fake_s) @ drop index s, c1)"
proof (induction "index - i" arbitrary: i c s)
  case 0
  then show ?case by (subst clsag_sign_loop.simps) simp
next
  case (Suc m)
  then have i: "i < index" by simp
  have d: "drop i (take index fake_s) = fake_s ! i # drop (Suc i) (take index fake_s)"
    using i Suc.prems by (simp add: Cons_nth_drop_Suc [of i "take index fake_s", symmetric])
  have t: "take (Suc i) (s[i := x]) = take i s @ [x]" "drop index (s[i := x]) = drop index s" for x
    using i Suc.prems by (simp_all add: take_Suc_conv_app_nth)
  have "clsag_sign_loop C w n index fake_s i c s c1 =
      clsag_sign_loop C w n index fake_s (Suc i) (clsag_step C w i (fake_s ! i) c) (s[i := fake_s ! i]) c1"
    using i Suc.prems by (subst clsag_sign_loop.simps) simp
  also have "\<dots> = Some (clsag_chain C w (Suc i) (drop (Suc i) (take index fake_s)) (clsag_step C w i (fake_s ! i) c),
      take (Suc i) (s[i := fake_s ! i]) @ drop (Suc i) (take index fake_s) @ drop index (s[i := fake_s ! i]), c1)"
    by (rule Suc.hyps(1)) (use Suc i in auto)
  finally show ?case by (simp add: d t)
qed

lemma sign_loop_wraps:
  "index < i \<Longrightarrow> i < n \<Longrightarrow> length fake_s = n \<Longrightarrow> length s = n \<Longrightarrow>
    clsag_sign_loop C w n index fake_s i c s c1 =
      clsag_sign_loop C w n index fake_s 0 (clsag_chain C w i (drop i fake_s) c) (take i s @ drop i fake_s)
        (clsag_chain C w i (drop i fake_s) c)"
proof (induction "n - i" arbitrary: i c s c1)
  case 0
  then show ?case by simp
next
  case (Suc m)
  have d: "drop i fake_s = fake_s ! i # drop (Suc i) fake_s" using Suc.prems by (simp add: Cons_nth_drop_Suc)
  have t: "take (Suc i) (s[i := x]) = take i s @ [x]" for x using Suc.prems by (simp add: take_Suc_conv_app_nth)
  show ?case
  proof (cases "Suc i = n")
    case True
    then have "s[i := fake_s ! i] = take i s @ [fake_s ! i]" using t [of "fake_s ! i"] Suc.prems by simp
    then show ?thesis using True Suc.prems by (subst clsag_sign_loop.simps) (simp add: d)
  next
    case False
    then have "clsag_sign_loop C w n index fake_s i c s c1 =
        clsag_sign_loop C w n index fake_s (Suc i) (clsag_step C w i (fake_s ! i) c) (s[i := fake_s ! i]) c1"
      using Suc.prems by (subst clsag_sign_loop.simps) simp
    also have "\<dots> = clsag_sign_loop C w n index fake_s 0 (clsag_chain C w (Suc i) (drop (Suc i) fake_s) (clsag_step C w i (fake_s ! i) c))
        (take (Suc i) (s[i := fake_s ! i]) @ drop (Suc i) fake_s)
        (clsag_chain C w (Suc i) (drop (Suc i) fake_s) (clsag_step C w i (fake_s ! i) c))"
      by (rule Suc.hyps(1)) (use Suc False in auto)
    finally show ?thesis by (simp add: d t)
  qed
qed

text \<open>The signing loop returns for every index inside the ring: the challenge that closes the ring is the chain over the members after the
  index, and the challenge at the index is the chain from there over the members before it.\<close>

lemma sign_loop_result:
  assumes "index < n" "length fake_s = n"
  shows "\<exists>s. clsag_sign_loop C w n index fake_s ((index + 1) mod n) c (replicate n 0) (if (index + 1) mod n = 0 then c else 0) =
      Some (clsag_chain C w 0 (take index fake_s) (clsag_chain C w (Suc index) (drop (Suc index) fake_s) c), s,
        clsag_chain C w (Suc index) (drop (Suc index) fake_s) c) \<and> (\<forall>x. s[index := x] = fake_s[index := x])"
proof (cases "Suc index = n")
  case True
  have "(take index fake_s @ drop index (replicate n 0))[index := x] = fake_s[index := x]" for x
    using True assms by (simp add: list_update_append upd_conv_take_nth_drop)
  then show ?thesis using True assms sign_loop_ahead [of 0 index n fake_s "replicate n 0" C w c c] by simp
next
  case False
  let ?s = "take (Suc index) (replicate n 0) @ drop (Suc index) fake_s"
  have "(take index fake_s @ drop index ?s)[index := x] = fake_s[index := x]" for x
    using False assms by (simp add: list_update_append upd_conv_take_nth_drop Cons_nth_drop_Suc [symmetric])
  moreover have "length ?s = n" using assms False by simp
  ultimately show ?thesis
    using False assms sign_loop_wraps [of index "Suc index" n fake_s "replicate n 0" C w c 0]
      sign_loop_ahead [of 0 index n fake_s ?s C w "clsag_chain C w (Suc index) (drop (Suc index) fake_s) c"]
    by simp
qed

section \<open>Completeness\<close>

text \<open>The walk of a signature around its ring, with the two images it was checked against, and the
  challenges of its rounds: the one after each response.\<close>

definition walk_of :: "('s::comm_ring_1, 'p::ab_group_add) dalek \<Rightarrow> bytes \<Rightarrow> RingMember list \<Rightarrow> bytes \<Rightarrow> 'p DecodedRing \<Rightarrow> clsag_sig \<Rightarrow> 'p \<Rightarrow> 'p \<Rightarrow> ('s, 'p) clsag_walk" where
  "walk_of C message ring c_offset d sig i_point d_point =
     (let (mu_p, mu_c) = aggregation_hashes C ring (cs_i sig) (cs_d sig) c_offset in
      \<lparr>cw_prefix = round_prefix ring c_offset message, cw_ring = d, cw_mu_p = mu_p, cw_mu_c = mu_c,
       cw_i_point = i_point, cw_d_point = d_point\<rparr>)"

definition clsag_challenges :: "('s::comm_ring_1, 'p::ab_group_add) dalek \<Rightarrow> ('s, 'p) clsag_walk \<Rightarrow> 's list \<Rightarrow> 's \<Rightarrow> 's list" where
  "clsag_challenges C w s c1 = map (\<lambda>j. clsag_chain C w 0 (take (Suc j) s) c1) [0 ..< length s]"

text \<open>The response at the signer's index makes the verifier's step recompute the nonce commitments.\<close>

lemma clsag_step_signer:
  assumes "lawful C" "torsion_free h" "dr_dest (cw_ring w) ! i = dk_smul C p (dk_base C)"
    "dr_mask_less_offset (cw_ring w) ! i = dk_smul C z (dk_base C)" "dr_hp (cw_ring w) ! i = h"
    "cw_i_point w = dk_smul C p h" "cw_d_point w = dk_smul C z h"
  shows "clsag_step C w i (alpha - c * (cw_mu_p w * p + cw_mu_c w * z)) c =
    round_hash C (cw_prefix w) (dk_smul C alpha (dk_base C)) (dk_smul C alpha h)"
proof -
  note G = point_lawD(2) [OF assms(1)]
  have "dk_smul C (alpha - c * (cw_mu_p w * p + cw_mu_c w * z)) Q + dk_smul C (cw_mu_p w * c) (dk_smul C p Q)
      + dk_smul C (cw_mu_c w * c) (dk_smul C z Q) = dk_smul C alpha Q" if "torsion_free Q" for Q
  proof -
    have "alpha - c * (cw_mu_p w * p + cw_mu_c w * z) + cw_mu_p w * c * p + cw_mu_c w * c * z = alpha"
      by (simp add: algebra_simps)
    then show ?thesis using assms(1) that by (metis smul_add smul_mult)
  qed
  from this [OF G] this [OF assms(2)] show ?thesis unfolding clsag_step_def Let_def assms(3-7) by simp
qed

lemma decode_scalars_to_bytes: "lawful C \<Longrightarrow> decode_scalars C (map (dk_to_bytes C) s) = Inr s"
  by (induction s) simp_all

text \<open>The ring closes: from the signer's first challenge the chain over all members comes back to it.\<close>

lemma clsag_chain_closes:
  assumes "index < length fake_s" "clsag_step C w index x (clsag_chain C w 0 (take index fake_s) c1) = c0"
    "c1 = clsag_chain C w (Suc index) (drop (Suc index) fake_s) c0"
  shows "clsag_chain C w 0 (fake_s[index := x]) c1 = c1"
proof -
  have "fake_s[index := x] = take index fake_s @ x # drop (Suc index) fake_s" using assms(1) by (rule upd_conv_take_nth_drop)
  moreover have "length (take index fake_s) = index" using assms(1) by simp
  ultimately show ?thesis using assms(2,3) by (simp only: clsag_chain_append clsag_chain.simps add_0)
qed

lemma clsag_sign_eq:
  fixes C :: "('s::comm_ring_1, 'p::ab_group_add) dalek" and p z alpha :: 's and message :: bytes
  assumes "lawful C" "index < length ring" "length fake_s = length ring" "decode_point C c_offset = Some off"
    "decode_ring C ring off = Inr d"
  defines "h \<equiv> dr_hp d ! index"
  defines "d8 \<equiv> encode_point C (dk_smul C (inv_eight C) (dk_smul C z h))"
  defines "key_image \<equiv> encode_point C (dk_smul C p h)"
  defines "mu \<equiv> aggregation_hashes C ring key_image d8 c_offset"
  defines "w \<equiv> \<lparr>cw_prefix = round_prefix ring c_offset message, cw_ring = d, cw_mu_p = fst mu, cw_mu_c = snd mu,
    cw_i_point = dk_smul C p h, cw_d_point = dk_smul C z h\<rparr>"
  defines "c0 \<equiv> round_hash C (cw_prefix w) (dk_smul C alpha (dk_base C)) (dk_smul C alpha h)"
  defines "c1 \<equiv> clsag_chain C w (Suc index) (drop (Suc index) fake_s) c0"
  defines "cl \<equiv> clsag_chain C w 0 (take index fake_s) c1"
  shows "clsag_sign C message ring index p z c_offset alpha fake_s = Some (Inr
    \<lparr>cs_s = map (dk_to_bytes C) (fake_s[index := alpha - cl * (fst mu * p + snd mu * z)]), cs_c1 = dk_to_bytes C c1,
     cs_d = d8, cs_i = key_image\<rparr>)"
proof -
  obtain s where s: "clsag_sign_loop C w (length ring) index fake_s ((index + 1) mod length ring) c0 (replicate (length ring) 0)
      (if (index + 1) mod length ring = 0 then c0 else 0) = Some (cl, s, c1)" "\<And>x. s[index := x] = fake_s[index := x]"
    using sign_loop_result [OF assms(2,3), of C w c0] unfolding cl_def c1_def by blast
  have k: "decode_point C key_image = Some (dk_smul C p h)" unfolding key_image_def using assms(1) by (rule decode_encode)
  have r: "ring \<noteq> []" using assms(2) by auto
  have w': "w = \<lparr>cw_prefix = round_prefix ring c_offset message, cw_ring = d, cw_mu_p = fst mu, cw_mu_c = snd mu,
    cw_i_point = dk_smul C p h, cw_d_point = dk_smul C z h\<rparr>" by (simp add: w_def)
  show ?thesis
    unfolding clsag_sign_def Let_def h_def [symmetric] using assms(2-5) k r s
    by (cases "Suc index mod length ring = 0")
      (simp_all add: h_def [symmetric] d8_def [symmetric] key_image_def [symmetric] mu_def [symmetric] case_prod_beta w' [symmetric]
        c0_def [symmetric, unfolded w' clsag_walk.simps])
qed

lemma clsag_verify_signed:
  fixes C :: "('s::comm_ring_1, 'p::ab_group_add) dalek" and p z alpha :: 's and message :: bytes
  assumes "lawful C" "index < length ring" "length fake_s = length ring" "decode_point C c_offset = Some off"
    "decode_ring C ring off = Inr d" "dr_dest d ! index = dk_smul C p (dk_base C)"
    "dr_mask_less_offset d ! index = dk_smul C z (dk_base C)"
    "clsag_sign C message ring index p z c_offset alpha fake_s = Some (Inr sig)"
  shows "\<exists>s c1. length s = length ring \<and> cs_s sig = map (dk_to_bytes C) s \<and> cs_c1 sig = dk_to_bytes C c1 \<and>
    cs_i sig = encode_point C (dk_smul C p (dr_hp d ! index)) \<and>
    clsag_verify C message sig (cs_i sig) ring c_offset =
      (if dk_smul C p (dr_hp d ! index) = 0 \<or> dk_smul C z (dr_hp d ! index) = 0 then Inl IdentityKeyImage
       else if 0 \<in> set (clsag_challenges C (walk_of C message ring c_offset d sig (dk_smul C p (dr_hp d ! index)) (dk_smul C z (dr_hp d ! index))) s c1)
         then Inl BadSignature else Inr ())"
proof -
  define h where "h = dr_hp d ! index"
  define d8 where "d8 = encode_point C (dk_smul C (inv_eight C) (dk_smul C z h))"
  define key_image where "key_image = encode_point C (dk_smul C p h)"
  define mu where "mu = aggregation_hashes C ring key_image d8 c_offset"
  define w where "w = \<lparr>cw_prefix = round_prefix ring c_offset message, cw_ring = d, cw_mu_p = fst mu, cw_mu_c = snd mu,
    cw_i_point = dk_smul C p h, cw_d_point = dk_smul C z h\<rparr>"
  define c0 where "c0 = round_hash C (cw_prefix w) (dk_smul C alpha (dk_base C)) (dk_smul C alpha h)"
  define c1 where "c1 = clsag_chain C w (Suc index) (drop (Suc index) fake_s) c0"
  define cl where "cl = clsag_chain C w 0 (take index fake_s) c1"
  define s where "s = fake_s[index := alpha - cl * (fst mu * p + snd mu * z)]"
  have sig: "sig = \<lparr>cs_s = map (dk_to_bytes C) s, cs_c1 = dk_to_bytes C c1, cs_d = d8, cs_i = key_image\<rparr>"
    using clsag_sign_eq [OF assms(1-5), where p = p and z = z and alpha = alpha and message = message] assms(8)
    unfolding s_def cl_def c1_def c0_def w_def mu_def key_image_def d8_def h_def by simp
  have tf: "torsion_free h"
    using decode_ring_Inr [OF assms(5)] assms(2) hash_to_ec_torsion_free [OF assms(1)] unfolding ring_decodes_def h_def by blast
  obtain D8 where d8: "decode_point C d8 = Some D8" "mul8 C D8 = dk_smul C z h"
    using assms(1) tf by (simp_all add: d8_def decode_encode mul8_def inv_eight_def cofactor_inverse torsion_free_smul)
  have k: "decode_point C key_image = Some (dk_smul C p h)" using assms(1) by (simp add: key_image_def decode_encode)
  have "clsag_step C w index (alpha - cl * (fst mu * p + snd mu * z)) cl = c0"
    using clsag_step_signer [OF assms(1) tf, of w index p z alpha cl] assms(6,7) unfolding c0_def w_def by (simp add: h_def)
  then have close: "clsag_chain C w 0 s c1 = c1"
    unfolding s_def cl_def using assms(2,3) c1_def by (intro clsag_chain_closes) simp_all
  have ls: "length s = length ring" using assms(3) by (simp add: s_def)
  have r: "ring \<noteq> []" using assms(2) by auto
  have "clsag_verify C message sig (cs_i sig) ring c_offset =
      (if dk_smul C p h = 0 \<or> dk_smul C z h = 0 then Inl IdentityKeyImage
       else if \<exists>j \<in> {..<length s}. clsag_chain C w 0 (take (Suc j) s) c1 = 0 then Inl BadSignature else Inr ())"
    unfolding clsag_verify_def Let_def sig using r ls assms(1,4,5) k d8 close
    by (simp add: decode_scalars_to_bytes mu_def [symmetric] case_prod_beta w_def [symmetric] clsag_verify_loop_eq)
  moreover have "walk_of C message ring c_offset d sig (dk_smul C p h) (dk_smul C z h) = w"
    by (simp add: walk_of_def w_def sig mu_def case_prod_beta)
  moreover have "(\<exists>j \<in> {..<length s}. clsag_chain C w 0 (take (Suc j) s) c1 = 0) \<longleftrightarrow> 0 \<in> set (clsag_challenges C w s c1)"
    by (auto simp: clsag_challenges_def)
  ultimately show ?thesis
    unfolding h_def [symmetric] using ls by (intro exI [of _ s] exI [of _ c1]) (simp add: sig key_image_def)
qed

text \<open>C4. CLSAG signatures verify. A signer who knows \<open>p\<close> with \<open>P = p G\<close> and \<open>z\<close> with \<open>C - C_offset = z G\<close> for the member at
  the index always gets an answer; the answer is an error only when a point of the ring does not decode or hash to the curve; and
  the verdict on a signature is exactly this: it is refused when its key image \<open>p Hp(P)\<close> or \<open>z Hp(P)\<close> is the identity, or
  when one of the challenges of this signature's own walk around the ring is the zero scalar, and accepted otherwise.\<close>

theorem clsag_complete:
  assumes "lawful C" "index < length ring" "length fake_s = length ring"
    "rm_dest (ring ! index) = encode_point C (scalarmult_base C p)" "decode_point C c_offset = Some off"
    "decode_point C (rm_mask (ring ! index)) = Some M" "M - off = scalarmult_base C z"
  shows "case clsag_sign C message ring index p z c_offset alpha fake_s of
      None \<Rightarrow> False
    | Some (Inl e) \<Rightarrow> e = BadPoint \<and> (\<exists>m \<in> set ring. decode_point C (rm_dest m) = None \<or> decode_point C (rm_mask m) = None \<or>
        hash_to_ec_point C (rm_dest m) = None)
    | Some (Inr sig) \<Rightarrow>
        (\<exists>d hp s c1. decode_ring C ring off = Inr d \<and> hash_to_ec_point C (rm_dest (ring ! index)) = Some hp \<and>
          length s = length ring \<and> cs_s sig = map (dk_to_bytes C) s \<and> cs_c1 sig = dk_to_bytes C c1 \<and>
          cs_i sig = encode_point C (dk_smul C p hp) \<and>
          clsag_verify C message sig (cs_i sig) ring c_offset =
            (if dk_smul C p hp = 0 \<or> dk_smul C z hp = 0 then Inl IdentityKeyImage
             else if 0 \<in> set (clsag_challenges C (walk_of C message ring c_offset d sig (dk_smul C p hp) (dk_smul C z hp)) s c1)
               then Inl BadSignature else Inr ()))"
proof (cases "decode_ring C ring off")
  case (Inl e)
  have "ring \<noteq> []" using assms(2) by auto
  then have "clsag_sign C message ring index p z c_offset alpha fake_s = Some (Inl e)"
    using assms(2,3,5) Inl by (simp add: clsag_sign_def Let_def)
  then show ?thesis using decode_ring_Inl [of C off ring _ e] Inl by (simp add: decode_ring_def)
next
  case (Inr d)
  from decode_ring_Inr [OF Inr] assms(2) have i: "decode_point C (rm_dest (ring ! index)) = Some (dr_dest d ! index)"
    "decode_point C (rm_mask (ring ! index)) = Some (dr_mask_less_offset d ! index + off)"
    "hash_to_ec_point C (rm_dest (ring ! index)) = Some (dr_hp d ! index)" by (simp_all add: ring_decodes_def)
  have D: "dr_dest d ! index = dk_smul C p (dk_base C)" "dr_mask_less_offset d ! index = dk_smul C z (dk_base C)"
    using i(1,2) assms(1,4,6,7) by (auto simp: decode_encode scalarmult_base_def)
  obtain sig where sig: "clsag_sign C message ring index p z c_offset alpha fake_s = Some (Inr sig)"
    using clsag_sign_eq [OF assms(1-3,5) Inr, where p = p and z = z and alpha = alpha and message = message] by blast
  show ?thesis using clsag_verify_signed [OF assms(1-3,5) Inr D sig] i(3) Inr unfolding sig option.case sum.case by blast
qed

theorem clsag_complete_witness:
  "lawful zl_dalek \<and> (case clsag_sign zl_dalek (replicate 32 0x5a)
      [\<lparr>rm_dest = encode_point zl_dalek (scalarmult_base zl_dalek 3), rm_mask = encode_point zl_dalek 7\<rparr>] 0 3 2 (encode_point zl_dalek 5) 11 [0] of
      None \<Rightarrow> False | Some (Inl e) \<Rightarrow> e = BadPoint | Some (Inr sig) \<Rightarrow> length (cs_s sig) = 1 \<and> cs_i sig = encode_point zl_dalek (3 * the (hash_to_ec_point zl_dalek (encode_point zl_dalek 3))))"
proof -
  let ?ring = "[\<lparr>rm_dest = encode_point zl_dalek (scalarmult_base zl_dalek 3), rm_mask = encode_point zl_dalek 7\<rparr>]"
  have r: "(0 :: nat) < length ?ring" "length [0 :: zl] = length ?ring"
    "rm_dest (?ring ! 0) = encode_point zl_dalek (scalarmult_base zl_dalek 3)"
    "decode_point zl_dalek (encode_point zl_dalek 5) = Some 5" "decode_point zl_dalek (rm_mask (?ring ! 0)) = Some 7"
    "(7 :: zl) - 5 = scalarmult_base zl_dalek 2"
    by (simp_all add: decode_encode [OF zl_laws] scalarmult_base_def zl_simps)
  from clsag_complete [OF zl_laws r, of "replicate 32 0x5a" 11] show ?thesis
    using zl_laws by (auto simp: zl_simps scalarmult_base_def split: option.splits sum.splits)
qed

end
