(* ===== verification/Bpp.thy ===== *)
theory Bpp
  imports RctOps Varint
begin

text \<open>
  Bulletproofs+, \<open>crates/wow-crypto/src/bulletproofs_plus.rs\<close>: the range proof of RingCT outputs,
  prover and verifier. Points and scalars come from the curve library, the record \<open>dalek\<close>; a static
  that is built once (\<open>generators\<close>) is the value it is built with, \<open>None\<close> its panic. The randomness of
  the prover is a sequence of draws with the number of the next one.
\<close>

section \<open>Parameters\<close>

definition BPP_N :: usize where "BPP_N = 64"
definition LOG_N :: usize where "LOG_N = 6"
definition MAX_OUTPUTS :: usize where "MAX_OUTPUTS = 16"
definition MAX_MN :: usize where "MAX_MN = BPP_N * MAX_OUTPUTS"

text \<open>The ASCII of \<open>bulletproof_plus\<close> and \<open>bulletproof_plus_transcript\<close>.\<close>

definition DOMAIN_EXPONENT :: bytes where
  "DOMAIN_EXPONENT = [98, 117, 108, 108, 101, 116, 112, 114, 111, 111, 102, 95, 112, 108, 117, 115]"

definition DOMAIN_TRANSCRIPT :: bytes where
  "DOMAIN_TRANSCRIPT = DOMAIN_EXPONENT @ [95, 116, 114, 97, 110, 115, 99, 114, 105, 112, 116]"

record RangeProof =
  rp_v :: "EcPoint list"
  rp_a :: EcPoint
  rp_a1 :: EcPoint
  rp_b :: EcPoint
  rp_r1 :: EcScalar
  rp_s1 :: EcScalar
  rp_d1 :: EcScalar
  rp_l :: "EcPoint list"
  rp_r :: "EcPoint list"

datatype BppError =
    BppEmpty | TooManyValues usize | LengthMismatch | BppNonCanonicalScalar | BppBadPoint
  | MismatchedRounds usize usize | WrongProofSize usize usize usize | ZeroChallenge | BadProof

section \<open>Generators\<close>

record 'p Generators =
  gi :: "'p list"
  hi :: "'p list"
  initial_transcript :: bytes

definition exponent :: "('s, 'p::ab_group_add) dalek \<Rightarrow> usize \<Rightarrow> 'p option" where
  "exponent C idx =
     (let buf = write_varint (H_GEN @ DOMAIN_EXPONENT) (word_of_nat idx) in
      Option.bind (hash_to_ec_point C (cn_fast_hash buf)) (\<lambda>p. if p \<noteq> 0 then Some p else None))"

fun exponents :: "('s, 'p::ab_group_add) dalek \<Rightarrow> usize list \<Rightarrow> 'p list option" where
  "exponents C [] = Some []"
| "exponents C (i # is) = Option.bind (exponent C i) (\<lambda>p. map_option ((#) p) (exponents C is))"

definition generators :: "('s, 'p::ab_group_add) dalek \<Rightarrow> 'p Generators option" where
  "generators C =
     Option.bind (exponents C (map (\<lambda>i. i * 2) [0 ..< MAX_MN])) (\<lambda>h.
     Option.bind (exponents C (map (\<lambda>i. i * 2 + 1) [0 ..< MAX_MN])) (\<lambda>g.
     Option.bind (hash_to_ec_point C (cn_fast_hash DOMAIN_TRANSCRIPT)) (\<lambda>p.
     Some \<lparr>gi = g, hi = h, initial_transcript = encode_point C p\<rparr>)))"

section \<open>Scalar helpers\<close>

definition bpp_inv_eight :: "('s::comm_ring_1, 'p) dalek \<Rightarrow> 's" where
  "bpp_inv_eight C = dk_invert C 8"

text \<open>The scalar; the transcript becomes its bytes.\<close>

definition transcript_update :: "('s, 'p) dalek \<Rightarrow> bytes \<Rightarrow> bytes list \<Rightarrow> 's \<times> bytes" where
  "transcript_update C transcript parts =
     (let s = hash_to_scalar_dalek C (transcript @ concat parts) in (s, dk_to_bytes C s))"

definition scalar_powers :: "'s::comm_ring_1 \<Rightarrow> usize \<Rightarrow> 's list" where
  "scalar_powers x n = fold (\<lambda>i v. v @ [if i = 1 then x else v ! (i - 1) * x]) [1 ..< n] [1]"

fun even_powers_loop :: "'s::comm_ring_1 \<Rightarrow> 's \<Rightarrow> usize \<Rightarrow> 's" where
  "even_powers_loop x1 res n = (if 2 < n then even_powers_loop (x1 * x1) (x1 * res + res) (n div 2) else res)"

declare even_powers_loop.simps [simp del]

definition sum_of_even_powers :: "'s::comm_ring_1 \<Rightarrow> usize \<Rightarrow> 's" where
  "sum_of_even_powers x n = even_powers_loop (x * x) (x * x) n"

definition sum_of_scalar_powers :: "'s::comm_ring_1 \<Rightarrow> usize \<Rightarrow> 's" where
  "sum_of_scalar_powers x n =
     (if n = 1 then x
      else fst (fold (\<lambda>i (res, prev). let prev = (if 1 < i then prev * x else prev) in (res + prev, prev)) [1 ..< Suc n] (1, x)) - 1)"

definition weighted_inner_product :: "'s::comm_ring_1 list \<Rightarrow> 's list \<Rightarrow> 's \<Rightarrow> 's" where
  "weighted_inner_product a b y =
     fst (fold (\<lambda>(ai, bi) (res, y_power). let y_power = y_power * y in (res + ai * bi * y_power, y_power)) (zip a b) (0, 1))"

definition hadamard_fold :: "('s, 'p::ab_group_add) dalek \<Rightarrow> 'p list \<Rightarrow> 's \<Rightarrow> 's \<Rightarrow> 'p list" where
  "hadamard_fold C v a b =
     (let sz = length v div 2 in map (\<lambda>n. dk_smul C a (v ! n) + dk_smul C b (v ! (sz + n))) [0 ..< sz])"

text \<open>The loop keeps \<open>m = 1 << log_m\<close>.\<close>

function padded_loop :: "usize \<Rightarrow> usize \<Rightarrow> usize \<times> usize" where
  "padded_loop cnt log_m =
     (let m = 2 ^ log_m in if m \<le> MAX_OUTPUTS \<and> m < cnt then padded_loop cnt (log_m + 1) else (m, log_m))"
  by auto
termination
proof (relation "measure (\<lambda>(cnt, log_m). MAX_OUTPUTS + 1 - 2 ^ log_m)")
  fix cnt log_m :: nat and m assume "m = 2 ^ log_m" "m \<le> MAX_OUTPUTS \<and> m < cnt"
  moreover from this have "0 < m" "2 ^ (log_m + 1) = 2 * m" by simp_all
  ultimately have "MAX_OUTPUTS + 1 - 2 ^ (log_m + 1) < MAX_OUTPUTS + 1 - 2 ^ log_m" by (metis diff_less_mono2 less_add_same_cancel1 mult_2 less_Suc_eq_le Suc_eq_plus1)
  then show "((cnt, log_m + 1), cnt, log_m) \<in> measure (\<lambda>(cnt, log_m). MAX_OUTPUTS + 1 - 2 ^ log_m)" by simp
qed simp

declare padded_loop.simps [simp del]

definition padded_count :: "usize \<Rightarrow> BppError + usize \<times> usize" where
  "padded_count cnt =
     (if cnt = 0 then Inl BppEmpty
      else let (m, log_m) = padded_loop cnt 0 in
        if MAX_OUTPUTS < m then Inl (TooManyValues cnt) else Inr (m, log_m))"

text \<open>The loops that fill \<open>d\<close>; prover and verifier double differently.\<close>

definition fill_d :: "('s::comm_ring_1 \<Rightarrow> 's) \<Rightarrow> 's \<Rightarrow> usize \<Rightarrow> 's list" where
  "fill_d dbl z_squared m =
     (let d = (replicate (m * BPP_N) 0)[0 := z_squared];
          d = fold (\<lambda>i d. d[i := dbl (d ! (i - 1))]) [1 ..< BPP_N] d
      in fold (\<lambda>j d. fold (\<lambda>i d. d[j * BPP_N + i := d ! ((j - 1) * BPP_N + i) * z_squared]) [0 ..< BPP_N] d) [1 ..< m] d)"

section \<open>Proving\<close>

definition compute_lr ::
  "('s::comm_ring_1, 'p::ab_group_add) dalek \<Rightarrow> usize \<Rightarrow> 's \<Rightarrow> 'p list \<Rightarrow> 'p list \<Rightarrow> 's list \<Rightarrow> 's list \<Rightarrow> 's \<Rightarrow> 's \<Rightarrow> 'p \<Rightarrow> 'p" where
  "compute_lr C n y g h a b c d hp =
     (let inv8 = bpp_inv_eight C;
          acc = fold (\<lambda>i acc. acc + dk_smul C (a ! i * y * inv8) (g ! i) + dk_smul C (b ! i * inv8) (h ! i)) [0 ..< n] 0
      in acc + dk_smul C (c * inv8) hp + dk_smul C (d * inv8) (dk_base C))"

text \<open>What the rounds carry: the folded vectors, the blinding, the collected points, the
  transcript and the number of the next draw. A zero challenge ends an attempt; the left value is
  the number of the next draw then.\<close>

record ('s, 'p) rounds =
  ro_a :: "'s list"
  ro_b :: "'s list"
  ro_g :: "'p list"
  ro_h :: "'p list"
  ro_alpha :: 's
  ro_l :: "'p list"
  ro_r :: "'p list"
  ro_transcript :: bytes
  ro_draw :: nat

definition prove_round ::
  "('s::comm_ring_1, 'p::ab_group_add) dalek \<Rightarrow> (nat \<Rightarrow> 's) \<Rightarrow> 'p \<Rightarrow> 's \<Rightarrow> 's list \<Rightarrow> 's list \<Rightarrow> usize \<Rightarrow> ('s, 'p) rounds \<Rightarrow> nat + ('s, 'p) rounds" where
  "prove_round C rand hp y y_powers yinvpow nprime s =
     (let a = ro_a s; b = ro_b s; g = ro_g s; h = ro_h s;
          c_l = weighted_inner_product (take nprime a) (drop nprime b) y;
          scaled = map (\<lambda>x. x * y_powers ! nprime) (drop nprime a);
          c_r = weighted_inner_product scaled (take nprime b) y;
          d_l = rand (ro_draw s); d_r = rand (ro_draw s + 1);
          l = compute_lr C nprime (yinvpow ! nprime) (drop nprime g) (take nprime h) (take nprime a) (drop nprime b) c_l d_l hp;
          r = compute_lr C nprime (y_powers ! nprime) (take nprime g) (drop nprime h) (drop nprime a) (take nprime b) c_r d_r hp;
          (challenge, transcript) = transcript_update C (ro_transcript s) [encode_point C l, encode_point C r]
      in if challenge = 0 then Inl (ro_draw s + 2)
         else
           let challenge_inv = dk_invert C challenge; t = challenge_inv * y_powers ! nprime in
           Inr \<lparr>ro_a = map (\<lambda>i. a ! i * challenge + a ! (nprime + i) * t) [0 ..< nprime],
                ro_b = map (\<lambda>i. b ! i * challenge_inv + b ! (nprime + i) * challenge) [0 ..< nprime],
                ro_g = hadamard_fold C g challenge_inv (yinvpow ! nprime * challenge),
                ro_h = hadamard_fold C h challenge challenge_inv,
                ro_alpha = ro_alpha s + (d_l * (challenge * challenge) + d_r * (challenge_inv * challenge_inv)),
                ro_l = ro_l s @ [l], ro_r = ro_r s @ [r], ro_transcript = transcript, ro_draw = ro_draw s + 2\<rparr>)"

fun prove_rounds ::
  "('s::comm_ring_1, 'p::ab_group_add) dalek \<Rightarrow> (nat \<Rightarrow> 's) \<Rightarrow> 'p \<Rightarrow> 's \<Rightarrow> 's list \<Rightarrow> 's list \<Rightarrow> usize \<Rightarrow> ('s, 'p) rounds \<Rightarrow> nat + ('s, 'p) rounds" where
  "prove_rounds C rand hp y y_powers yinvpow nprime s =
     (if 1 < nprime then
        and_then (prove_round C rand hp y y_powers yinvpow (nprime div 2) s) (\<lambda>s.
        prove_rounds C rand hp y y_powers yinvpow (nprime div 2) s)
      else Inr s)"

declare prove_rounds.simps [simp del]

definition bytes_hash :: "('s, 'p) dalek \<Rightarrow> bytes list \<Rightarrow> bytes" where
  "bytes_hash C vs = dk_to_bytes C (hash_to_scalar_dalek C (concat vs))"

text \<open>\<open>attempt\<close>; its only error is \<open>ZeroChallenge\<close>.\<close>

definition attempt ::
  "('s::comm_ring_1, 'p::ab_group_add) dalek \<Rightarrow> 'p list \<Rightarrow> 's list \<Rightarrow> 's list \<Rightarrow> 's list \<Rightarrow> 's list \<Rightarrow> 's list \<Rightarrow> usize \<Rightarrow> usize \<Rightarrow> usize \<Rightarrow>
     'p Generators \<Rightarrow> 'p \<Rightarrow> (nat \<Rightarrow> 's) \<Rightarrow> nat \<Rightarrow> nat + RangeProof" where
  "attempt C v a_l a_r a_l8 a_r8 masks n_values m mn gens hp rand k =
     (let inv8 = bpp_inv_eight C;
          (_, transcript) = transcript_update C (initial_transcript gens) [bytes_hash C (map (encode_point C) v)];
          alpha = rand k;
          pre_a = fold (\<lambda>i acc. acc + (dk_smul C (a_l8 ! i) (gi gens ! i) + dk_smul C (a_r8 ! i) (hi gens ! i))) [0 ..< mn] 0;
          a_point = pre_a + dk_smul C (alpha * inv8) (dk_base C);
          a_bytes = encode_point C a_point;
          (y, transcript) = transcript_update C transcript [a_bytes]
      in if y = 0 then Inl (k + 1)
      else
      let z = hash_to_scalar_dalek C (dk_to_bytes C y) in
      if z = 0 then Inl (k + 1)
      else
      let z_squared = z * z;
          d = fill_d (\<lambda>x. x * 2) z_squared m;
          y_powers = scalar_powers y (mn + 2);
          aprime = map (\<lambda>x. x - z) a_l;
          bprime = map (\<lambda>i. a_r ! i + z + d ! i * y_powers ! (mn - i)) [0 ..< mn];
          alpha1 = fst (fold (\<lambda>gamma (alpha1, temp). let temp = temp * z_squared in (alpha1 + y_powers ! (mn + 1) * temp * gamma, temp))
                     (take n_values masks) (alpha, 1));
          yinv = dk_invert C y;
          yinvpow = fold (\<lambda>i v. v[i := v ! (i - 1) * yinv]) [1 ..< mn] (replicate mn 1)
      in and_then (prove_rounds C rand hp y y_powers yinvpow mn
           \<lparr>ro_a = aprime, ro_b = bprime, ro_g = take mn (gi gens), ro_h = take mn (hi gens), ro_alpha = alpha1,
            ro_l = [], ro_r = [], ro_transcript = dk_to_bytes C z, ro_draw = k + 1\<rparr>) (\<lambda>s.
         let r_s = rand (ro_draw s); s_s = rand (ro_draw s + 1); d_s = rand (ro_draw s + 2); eta = rand (ro_draw s + 3);
             a1 = dk_smul C (r_s * inv8) (ro_g s ! 0) + dk_smul C (s_s * inv8) (ro_h s ! 0) + dk_smul C (d_s * inv8) (dk_base C)
                  + dk_smul C ((r_s * y * ro_b s ! 0 + s_s * y * ro_a s ! 0) * inv8) hp;
             b_point = dk_smul C (eta * inv8) (dk_base C) + dk_smul C (r_s * y * s_s * inv8) hp;
             a1_bytes = encode_point C a1; b_bytes = encode_point C b_point;
             (e, _) = transcript_update C (ro_transcript s) [a1_bytes, b_bytes]
         in if e = 0 then Inl (ro_draw s + 4)
            else Inr \<lparr>rp_v = map (encode_point C) v, rp_a = a_bytes, rp_a1 = a1_bytes, rp_b = b_bytes,
                      rp_r1 = dk_to_bytes C (ro_a s ! 0 * e + r_s), rp_s1 = dk_to_bytes C (ro_b s ! 0 * e + s_s),
                      rp_d1 = dk_to_bytes C (d_s * e + eta + ro_alpha s * (e * e)),
                      rp_l = map (encode_point C) (ro_l s), rp_r = map (encode_point C) (ro_r s)\<rparr>))"


text \<open>The bit vectors: \<open>a_l\<close> the bit, \<open>a_r\<close> the bit minus one, and both divided by eight.\<close>

definition value_bit :: "u64 list \<Rightarrow> nat \<Rightarrow> bool" where
  "value_bit values k \<longleftrightarrow> k div BPP_N < length values \<and> bit (values ! (k div BPP_N)) (k mod BPP_N)"

definition fill_bits :: "u64 list \<Rightarrow> usize \<Rightarrow> 's \<Rightarrow> 's \<Rightarrow> 's list" where
  "fill_bits values m one none = map (\<lambda>k. if value_bit values k then one else none) [0 ..< m * BPP_N]"

fun prove_attempts :: "(nat \<Rightarrow> nat + RangeProof) \<Rightarrow> nat \<Rightarrow> nat \<Rightarrow> BppError + RangeProof" where
  "prove_attempts att 0 k = Inl ZeroChallenge"
| "prove_attempts att (Suc n) k = (case att k of Inl k' \<Rightarrow> prove_attempts att n k' | Inr p \<Rightarrow> Inr p)"

definition prove_with ::
  "('s::comm_ring_1, 'p::ab_group_add) dalek \<Rightarrow> 'p Generators \<Rightarrow> 'p \<Rightarrow> u64 list \<Rightarrow> 's list \<Rightarrow> (nat \<Rightarrow> 's) \<Rightarrow> BppError + RangeProof" where
  "prove_with C gens hp values masks rand =
     (if length values \<noteq> length masks then Inl LengthMismatch
      else and_then (padded_count (length values)) (\<lambda>(m, log_m).
        let mn = m * BPP_N; inv8 = bpp_inv_eight C;
            v = map (\<lambda>(val, gamma). dk_smul C (gamma * inv8) (dk_base C) + dk_smul C (of_nat (unat val) * inv8) hp) (zip values masks);
            a_l = fill_bits values m 1 0; a_r = fill_bits values m 0 (- 1);
            a_l8 = fill_bits values m inv8 0; a_r8 = fill_bits values m 0 (- inv8)
        in prove_attempts (attempt C v a_l a_r a_l8 a_r8 masks (length values) m mn gens hp rand) 8 0))"

text \<open>\<open>prove\<close> and \<open>verify\<close> with the generators they look up, \<open>None\<close> when building those panics; \<open>prove\<close> refuses
  its input before it touches them.\<close>

definition bpp_prove ::
  "('s::comm_ring_1, 'p::ab_group_add) dalek \<Rightarrow> u64 list \<Rightarrow> 's list \<Rightarrow> (nat \<Rightarrow> 's) \<Rightarrow> (BppError + RangeProof) option" where
  "bpp_prove C values masks rand =
     (if length values \<noteq> length masks then Some (Inl LengthMismatch)
      else case padded_count (length values) of
        Inl err \<Rightarrow> Some (Inl err)
      | Inr _ \<Rightarrow> Option.bind (generators C) (\<lambda>gens. Option.bind (h_point C) (\<lambda>hp. Some (prove_with C gens hp values masks rand))))"

section \<open>Verifying\<close>

fun verify_challenges :: "('s::comm_ring_1, 'p) dalek \<Rightarrow> bytes \<Rightarrow> (bytes \<times> bytes) list \<Rightarrow> BppError + 's list \<times> bytes" where
  "verify_challenges C transcript [] = Inr ([], transcript)"
| "verify_challenges C transcript ((l, r) # lr) =
     (let (c, transcript) = transcript_update C transcript [l, r] in
      if c = 0 then Inl ZeroChallenge
      else and_then (verify_challenges C transcript lr) (\<lambda>(cs, t). Inr (c # cs, t)))"

definition mul8_of :: "('s, 'p) dalek \<Rightarrow> EcPoint \<Rightarrow> BppError + 'p" where
  "mul8_of C p = and_then (ok_or (decode_point C p) BppBadPoint) (\<lambda>q. Inr (mul8 C q))"

fun mul8_all :: "('s, 'p) dalek \<Rightarrow> EcPoint list \<Rightarrow> BppError + 'p list" where
  "mul8_all C [] = Inr []"
| "mul8_all C (p # ps) = and_then (mul8_of C p) (\<lambda>q. and_then (mul8_all C ps) (\<lambda>qs. Inr (q # qs)))"

fun square_loop :: "'s::comm_ring_1 \<Rightarrow> usize \<Rightarrow> 's" where
  "square_loop y_mn t = (if 1 < t then square_loop (y_mn * y_mn) (t div 2) else y_mn)"

declare square_loop.simps [simp del]

text \<open>The inner loop over the slots of one round, downward in pairs.\<close>

fun cache_slots :: "'s::comm_ring_1 \<Rightarrow> 's \<Rightarrow> 's list \<Rightarrow> nat \<Rightarrow> 's list" where
  "cache_slots c c_inv cache 0 = cache"
| "cache_slots c c_inv cache (Suc s) =
     (let cache = cache[s := cache ! (s div 2) * c];
          cache = cache[s - 1 := cache ! (s div 2) * c_inv]
      in cache_slots c c_inv cache (s - 1))"

definition fill_cache :: "'s::comm_ring_1 list \<Rightarrow> 's list \<Rightarrow> usize \<Rightarrow> 's list" where
  "fill_cache cs cs_inv n =
     (let cache = (replicate (2 ^ n) 0)[0 := cs_inv ! 0, 1 := cs ! 0]
      in fold (\<lambda>j cache. cache_slots (cs ! j) (cs_inv ! j) cache (2 ^ (j + 1))) [1 ..< n] cache)"

definition two_sixty_four_minus_one :: "'s::comm_ring_1" where
  "two_sixty_four_minus_one = fold (\<lambda>_ x. x * x) [0 ..< 6] 2 - 1"

text \<open>The multiscalar multiplication; \<open>!i & (mn - 1)\<close> with \<open>mn\<close> a power of two is \<open>mn - 1 - i\<close>.\<close>

definition verify_sum ::
  "('s::comm_ring_1, 'p::ab_group_add) dalek \<Rightarrow> 'p Generators \<Rightarrow> 'p \<Rightarrow> usize \<Rightarrow> usize \<Rightarrow> 's \<Rightarrow> 's \<Rightarrow> 's \<Rightarrow> 's \<Rightarrow> 's \<Rightarrow> 's \<Rightarrow> 's list \<Rightarrow>
     'p list \<Rightarrow> 'p list \<Rightarrow> 'p list \<Rightarrow> 'p \<Rightarrow> 'p \<Rightarrow> 'p \<Rightarrow> 'p" where
  "verify_sum C gens hp m rds r1 s1 d1 y z e challenges v8 l8 r8 a8 a1_8 b8 =
     (let mn = m * BPP_N;
          challenges_inv = map (dk_invert C) challenges;
          yinv = dk_invert C y;
          y_mn = square_loop y mn; y_mn_1 = y_mn * y;
          e_squared = e * e; z_squared = z * z;
          acc = fst (fold (\<lambda>vj (acc, temp). let temp = temp * z_squared in (acc + dk_smul C temp vj, temp)) v8
                  (0, - e_squared * y_mn_1));
          acc = acc + dk_smul C (- 1) b8;
          acc = acc + dk_smul C (- e) a1_8;
          minus_e_squared = - e_squared;
          acc = acc + dk_smul C minus_e_squared a8;
          acc = acc + dk_smul C d1 (dk_base C);
          d = fill_d (\<lambda>x. x + x) z_squared m;
          sum_d = two_sixty_four_minus_one * sum_of_even_powers z (2 * m);
          sum_y = sum_of_scalar_powers y mn;
          h_scalar = r1 * y * s1 + e_squared * (y_mn_1 * z * sum_d + (z_squared - z) * sum_y);
          acc = acc + dk_smul C h_scalar hp;
          cache = fill_cache challenges challenges_inv rds;
          e_s1 = e * s1; e_squared_z = e_squared * z; minus_e_squared_z = - e_squared_z;
          (acc, _, _) = fold (\<lambda>i (acc, e_r1_y, minus_e_squared_y).
             let g_scalar = e_r1_y * cache ! i + e_squared_z;
                 h_scalar = e_s1 * cache ! (mn - 1 - i) + minus_e_squared_z;
                 h_scalar = h_scalar + minus_e_squared_y * d ! i;
                 acc = acc + dk_smul C g_scalar (gi gens ! i);
                 acc = acc + dk_smul C h_scalar (hi gens ! i)
             in (acc, e_r1_y * yinv, minus_e_squared_y * yinv)) [0 ..< mn] (acc, e * r1, - e_squared * y_mn)
      in fold (\<lambda>j acc.
           let acc = acc + dk_smul C (challenges ! j * challenges ! j * minus_e_squared) (l8 ! j)
           in acc + dk_smul C (challenges_inv ! j * challenges_inv ! j * minus_e_squared) (r8 ! j)) [0 ..< rds] acc)"

definition verify_with ::
  "('s::comm_ring_1, 'p::ab_group_add) dalek \<Rightarrow> 'p Generators \<Rightarrow> 'p \<Rightarrow> RangeProof \<Rightarrow> BppError + unit" where
  "verify_with C gens hp prf =
     and_then (ok_or (decode_scalar C (rp_r1 prf)) BppNonCanonicalScalar) (\<lambda>r1.
     and_then (ok_or (decode_scalar C (rp_s1 prf)) BppNonCanonicalScalar) (\<lambda>s1.
     and_then (ok_or (decode_scalar C (rp_d1 prf)) BppNonCanonicalScalar) (\<lambda>d1.
     if rp_v prf = [] then Inl BppEmpty
     else if length (rp_l prf) \<noteq> length (rp_r prf) then Inl (MismatchedRounds (length (rp_l prf)) (length (rp_r prf)))
     else if rp_l prf = [] then Inl BppEmpty
     else
     let (_, transcript) = transcript_update C (initial_transcript gens) [bytes_hash C (rp_v prf)];
         (y, transcript) = transcript_update C transcript [rp_a prf] in
     if y = 0 then Inl ZeroChallenge
     else
     let z = hash_to_scalar_dalek C (dk_to_bytes C y) in
     if z = 0 then Inl ZeroChallenge
     else
     and_then (padded_count (length (rp_v prf))) (\<lambda>(m, log_m).
     let rds = log_m + LOG_N in
     if length (rp_l prf) \<noteq> rds then Inl (WrongProofSize (length (rp_v prf)) rds (length (rp_l prf)))
     else
     and_then (verify_challenges C (dk_to_bytes C z) (zip (rp_l prf) (rp_r prf))) (\<lambda>(challenges, transcript).
     let (e, _) = transcript_update C transcript [rp_a1 prf, rp_b prf] in
     if e = 0 then Inl ZeroChallenge
     else
     and_then (mul8_all C (rp_v prf)) (\<lambda>v8.
     and_then (mul8_all C (rp_l prf)) (\<lambda>l8.
     and_then (mul8_all C (rp_r prf)) (\<lambda>r8.
     and_then (mul8_of C (rp_a prf)) (\<lambda>a8.
     and_then (mul8_of C (rp_a1 prf)) (\<lambda>a1_8.
     and_then (mul8_of C (rp_b prf)) (\<lambda>b8.
     if verify_sum C gens hp m rds r1 s1 d1 y z e challenges v8 l8 r8 a8 a1_8 b8 = 0 then Inr () else Inl BadProof)))))))))))"

definition bpp_verify :: "('s::comm_ring_1, 'p::ab_group_add) dalek \<Rightarrow> RangeProof \<Rightarrow> (BppError + unit) option" where
  "bpp_verify C prf =
     Option.bind (generators C) (\<lambda>gens. Option.bind (h_point C) (\<lambda>hp. Some (verify_with C gens hp prf)))"

end
