(* ===== verification/BppAlg.thy ===== *)
theory BppAlg
  imports Dalek
begin

text \<open>
  The algebra of the range proof, free of the curve and of the loops: linear combinations of points
  over a ring of scalars, how folding a vector in half with a challenge acts on them, and the weighted
  inner product. The locale \<open>scalar_module\<close> states what the proofs need of scalar multiplication; every
  lawful curve library gives it on its torsion-free points.
\<close>

section \<open>Linear combinations\<close>

locale scalar_module =
  fixes smul :: "'s::comm_ring_1 \<Rightarrow> 'p::ab_group_add \<Rightarrow> 'p" and good :: "'p \<Rightarrow> bool"
  assumes good_zero: "good 0"
    and good_plus: "good P \<Longrightarrow> good Q \<Longrightarrow> good (P + Q)"
    and good_smul: "good P \<Longrightarrow> good (smul s P)"
    and smul_plus: "good P \<Longrightarrow> good Q \<Longrightarrow> smul s (P + Q) = smul s P + smul s Q"
    and plus_smul: "good P \<Longrightarrow> smul (s + t) P = smul s P + smul t P"
    and times_smul: "good P \<Longrightarrow> smul (s * t) P = smul s (smul t P)"
    and one_smul: "good P \<Longrightarrow> smul 1 P = P"
begin

definition lc :: "nat \<Rightarrow> (nat \<Rightarrow> 's) \<Rightarrow> (nat \<Rightarrow> 'p) \<Rightarrow> 'p" where
  "lc n f g = (\<Sum>i<n. smul (f i) (g i))"

abbreviation goods :: "nat \<Rightarrow> (nat \<Rightarrow> 'p) \<Rightarrow> bool" where "goods n g \<equiv> \<forall>i<n. good (g i)"

lemma zero_smul: "good P \<Longrightarrow> smul 0 P = 0"
  using plus_smul [of P 0 0] by simp

lemma minus_smul: "good P \<Longrightarrow> smul (- s) P = - smul s P"
  using plus_smul [of P s "- s"] by (simp add: zero_smul minus_unique)

lemma good_minus: "good P \<Longrightarrow> good (- P)"
  using good_smul [of P "- 1"] by (simp add: minus_smul one_smul)

lemma good_sum: "(\<And>i. i \<in> A \<Longrightarrow> good (f i)) \<Longrightarrow> good (sum f A)"
  by (induction A rule: infinite_finite_induct) (simp_all add: good_zero good_plus)

lemma smul_origin: "smul s 0 = 0"
  using smul_plus [OF good_zero good_zero, of s] by simp

lemma smul_sum: "(\<And>i. i \<in> A \<Longrightarrow> good (f i)) \<Longrightarrow> smul s (sum f A) = (\<Sum>i\<in>A. smul s (f i))"
  by (induction A rule: infinite_finite_induct) (simp_all add: smul_origin smul_plus good_sum)

lemma sum_smul: "good P \<Longrightarrow> (\<Sum>i\<in>A. smul (f i) P) = smul (sum f A) P"
  by (induction A rule: infinite_finite_induct) (simp_all add: zero_smul plus_smul)

lemma lc_good: "goods n g \<Longrightarrow> good (lc n f g)"
  by (auto simp: lc_def intro!: good_sum good_smul)

lemma lc_cong: "(\<And>i. i < n \<Longrightarrow> f i = f' i) \<Longrightarrow> (\<And>i. i < n \<Longrightarrow> g i = g' i) \<Longrightarrow> lc n f g = lc n f' g'"
  by (simp add: lc_def)

lemma lc_plus: "goods n g \<Longrightarrow> lc n f g + lc n f' g = lc n (\<lambda>i. f i + f' i) g"
  by (simp add: lc_def plus_smul flip: sum.distrib)

lemma lc_smul:
  assumes "goods n g"
  shows "smul s (lc n f g) = lc n (\<lambda>i. s * f i) g"
proof -
  have "smul s (\<Sum>i<n. smul (f i) (g i)) = (\<Sum>i<n. smul s (smul (f i) (g i)))"
    by (rule smul_sum) (use assms good_smul in auto)
  then show ?thesis using assms by (simp add: lc_def times_smul)
qed

lemma lc_zero: "goods n g \<Longrightarrow> lc n (\<lambda>i. 0) g = 0"
  by (simp add: lc_def zero_smul)

lemma lc_split: "lc (n + m) f g = lc n f g + lc m (\<lambda>i. f (n + i)) (\<lambda>i. g (n + i))"
  by (induction m) (simp_all add: lc_def ac_simps)

text \<open>A combination of one half of the points.\<close>

lemma lc_first: "goods (n + m) g \<Longrightarrow> lc n f g = lc (n + m) (\<lambda>i. if i < n then f i else 0) g"
  by (simp add: lc_split lc_zero cong: lc_cong)

lemma lc_last: "goods (n + m) g \<Longrightarrow> lc m f (\<lambda>i. g (n + i)) = lc (n + m) (\<lambda>i. if i < n then 0 else f (i - n)) g"
  by (simp add: lc_split lc_zero cong: lc_cong)

text \<open>A combination of folded points.\<close>

lemma lc_fold:
  assumes "goods (n + n) g"
  shows "lc n f (\<lambda>i. smul a (g i) + smul b (g (n + i))) = lc (n + n) (\<lambda>i. if i < n then f i * a else f (i - n) * b) g"
proof -
  have "lc n f (\<lambda>i. smul a (g i) + smul b (g (n + i))) = (\<Sum>i<n. smul (f i * a) (g i) + smul (f i * b) (g (n + i)))"
    unfolding lc_def using assms by (intro sum.cong) (simp_all add: smul_plus good_smul times_smul)
  also have "\<dots> = lc n (\<lambda>i. f i * a) g + lc n (\<lambda>i. f i * b) (\<lambda>i. g (n + i))" by (simp add: lc_def sum.distrib)
  also have "\<dots> = lc (n + n) (\<lambda>i. if i < n then f i * a else f (i - n) * b) g" by (simp add: lc_split cong: lc_cong)
  finally show ?thesis .
qed

text \<open>Combinations over both families of generators and the two bases.\<close>

definition cm :: "nat \<Rightarrow> (nat \<Rightarrow> 'p) \<Rightarrow> (nat \<Rightarrow> 'p) \<Rightarrow> 'p \<Rightarrow> 'p \<Rightarrow> (nat \<Rightarrow> 's) \<Rightarrow> (nat \<Rightarrow> 's) \<Rightarrow> 's \<Rightarrow> 's \<Rightarrow> 'p" where
  "cm n g h P Q a b p q = lc n a g + lc n b h + smul p P + smul q Q"

definition basis :: "nat \<Rightarrow> (nat \<Rightarrow> 'p) \<Rightarrow> (nat \<Rightarrow> 'p) \<Rightarrow> 'p \<Rightarrow> 'p \<Rightarrow> bool" where
  "basis n g h P Q \<longleftrightarrow> goods n g \<and> goods n h \<and> good P \<and> good Q"

lemma cm_plus: "basis n g h P Q \<Longrightarrow>
    cm n g h P Q a b p q + cm n g h P Q a' b' p' q' = cm n g h P Q (\<lambda>i. a i + a' i) (\<lambda>i. b i + b' i) (p + p') (q + q')"
  by (simp add: cm_def basis_def plus_smul ac_simps flip: lc_plus)

lemma cm_smul: "basis n g h P Q \<Longrightarrow>
    smul s (cm n g h P Q a b p q) = cm n g h P Q (\<lambda>i. s * a i) (\<lambda>i. s * b i) (s * p) (s * q)"
  by (simp add: cm_def basis_def smul_plus lc_good good_plus good_smul lc_smul times_smul)

lemma cm_zero: "basis n g h P Q \<Longrightarrow> cm n g h P Q (\<lambda>i. 0) (\<lambda>i. 0) 0 0 = 0"
  by (simp add: cm_def basis_def lc_zero zero_smul)

lemma cm_cong:
  "(\<And>i. i < n \<Longrightarrow> a i = a' i) \<Longrightarrow> (\<And>i. i < n \<Longrightarrow> b i = b' i) \<Longrightarrow> p = p' \<Longrightarrow> q = q' \<Longrightarrow>
    cm n g h P Q a b p q = cm n g h P Q a' b' p' q'"
  by (simp add: cm_def cong: lc_cong)

lemma cm_good: "basis n g h P Q \<Longrightarrow> good (cm n g h P Q a b p q)"
  by (simp add: cm_def basis_def lc_good good_plus good_smul)

end

section \<open>The weighted inner product\<close>

definition wip :: "nat \<Rightarrow> (nat \<Rightarrow> 's::comm_ring_1) \<Rightarrow> (nat \<Rightarrow> 's) \<Rightarrow> 's \<Rightarrow> 's" where
  "wip n a b y = (\<Sum>i<n. a i * b i * y ^ Suc i)"

lemma sum_split: "(\<Sum>i<n + m. f i) = (\<Sum>i<n. f i) + (\<Sum>i<m. f (n + i))" for f :: "nat \<Rightarrow> 'a::comm_monoid_add"
  by (induction m) (simp_all add: ac_simps)

lemma wip_fold:
  fixes c ci :: "'s::comm_ring_1"
  assumes "c * ci = 1"
  shows "wip n (\<lambda>i. a i * c + a (n + i) * (ci * y ^ n)) (\<lambda>i. b i * ci + b (n + i) * c) y =
    wip (n + n) a b y + c * c * wip n a (\<lambda>i. b (n + i)) y + ci * ci * wip n (\<lambda>i. a (n + i) * y ^ n) b y"
proof -
  have "(x * c + x' * (ci * Y)) * (u * ci + u' * c) * w = x * u * w + x' * u' * (w * Y) + c * c * (x * u' * w) + ci * ci * (x' * Y * u * w)"
    for x x' u u' w Y :: 's
  proof -
    have "(x * c + x' * (ci * Y)) * (u * ci + u' * c) * w =
      (c * ci) * (x * u * w) + (c * ci) * (x' * u' * (w * Y)) + c * c * (x * u' * w) + ci * ci * (x' * Y * u * w)"
      by (simp add: algebra_simps)
    then show ?thesis by (simp add: assms)
  qed
  then have "wip n (\<lambda>i. a i * c + a (n + i) * (ci * y ^ n)) (\<lambda>i. b i * ci + b (n + i) * c) y =
      (\<Sum>i<n. a i * b i * y ^ Suc i) + (\<Sum>i<n. a (n + i) * b (n + i) * (y ^ Suc i * y ^ n)) +
      (\<Sum>i<n. c * c * (a i * b (n + i) * y ^ Suc i)) + (\<Sum>i<n. ci * ci * (a (n + i) * y ^ n * b i * y ^ Suc i))"
    by (simp only: wip_def sum.distrib)
  then show ?thesis
    by (simp add: wip_def sum_split sum_distrib_left power_add ac_simps)
qed

context scalar_module
begin

lemma round_commits:
  assumes B: "basis (n + n) g h P Q" and c: "c * ci = 1" and y: "y ^ n * yni = 1"
  shows "cm n (\<lambda>i. smul ci (g i) + smul (yni * c) (g (n + i))) (\<lambda>i. smul c (h i) + smul ci (h (n + i))) P Q
      (\<lambda>i. a i * c + a (n + i) * (ci * y ^ n)) (\<lambda>i. b i * ci + b (n + i) * c)
      (wip n (\<lambda>i. a i * c + a (n + i) * (ci * y ^ n)) (\<lambda>i. b i * ci + b (n + i) * c) y)
      (alpha + (dl * (c * c) + dr * (ci * ci))) =
    cm (n + n) g h P Q a b (wip (n + n) a b y) alpha +
    smul (c * c) (cm (n + n) g h P Q (\<lambda>i. if i < n then 0 else a (i - n) * yni) (\<lambda>i. if i < n then b (n + i) else 0)
      (wip n a (\<lambda>i. b (n + i)) y) dl) +
    smul (ci * ci) (cm (n + n) g h P Q (\<lambda>i. if i < n then a (n + i) * y ^ n else 0) (\<lambda>i. if i < n then 0 else b (i - n))
      (wip n (\<lambda>i. a (n + i) * y ^ n) b y) dr)"
proof -
  have g: "goods (n + n) g" "goods (n + n) h" using B by (simp_all add: basis_def)
  have k: "c * (ci * x) = x" "ci * (c * x) = x" "y ^ n * (yni * x) = x" "yni * (y ^ n * x) = x" "yni * (x * y ^ n) = x" for x
    using c y by (metis mult.assoc mult.commute mult_1)+
  show ?thesis
    unfolding cm_smul [OF B] cm_plus [OF B] wip_fold [OF c]
    unfolding cm_def [of n] lc_fold [OF g(1)] lc_fold [OF g(2)] cm_def [of "n + n", symmetric]
    by (rule cm_cong) (simp_all add: algebra_simps k)
qed

end

text \<open>The coefficient of a point after folding all the way down.\<close>

fun fold_weight :: "'s::comm_ring_1 \<Rightarrow> ('s \<times> 's) list \<Rightarrow> nat \<Rightarrow> 's" where
  "fold_weight w [] i = 1"
| "fold_weight w ((a, b) # cs) i =
     (if i < 2 ^ length cs then fold_weight w cs i * a else fold_weight w cs (i - 2 ^ length cs) * (w ^ 2 ^ length cs * b))"

context scalar_module
begin

lemma lc_fold_weight:
  assumes "goods (2 ^ Suc (length cs)) g" "\<And>i. i < 2 ^ length cs \<Longrightarrow> g' i = smul a (g i) + smul (w ^ 2 ^ length cs * b) (g (2 ^ length cs + i))"
  shows "lc (2 ^ length cs) (fold_weight w cs) g' = lc (2 ^ Suc (length cs)) (fold_weight w ((a, b) # cs)) g"
proof -
  let ?n = "2 ^ length cs :: nat"
  have two: "2 ^ Suc (length cs) = ?n + ?n" by simp
  have g: "goods (?n + ?n) g" using assms(1) unfolding two .
  have "lc ?n (fold_weight w cs) g' = lc ?n (fold_weight w cs) (\<lambda>i. smul a (g i) + smul (w ^ ?n * b) (g (?n + i)))"
    by (rule lc_cong) (simp_all add: assms(2))
  also have "\<dots> = lc (?n + ?n) (fold_weight w ((a, b) # cs)) g" unfolding lc_fold [OF g] by (rule lc_cong) simp_all
  finally show ?thesis unfolding two .
qed

end

lemma fold_weight_power: "fold_weight w cs i = w ^ i * fold_weight 1 cs i" if "i < 2 ^ length cs"
  using that
proof (induction cs arbitrary: i)
  case (Cons ab cs)
  obtain a b where ab: "ab = (a, b)" by (cases ab)
  show ?case
  proof (cases "i < 2 ^ length cs")
    case True
    then show ?thesis using Cons.IH [of i] by (simp add: ab)
  next
    case False
    then have "i - 2 ^ length cs < 2 ^ length cs" using Cons.prems by simp
    moreover have "w ^ i = w ^ (i - 2 ^ length cs) * w ^ 2 ^ length cs" using False by (simp flip: power_add)
    ultimately show ?thesis using False Cons.IH [of "i - 2 ^ length cs"] by (simp add: ab)
  qed
qed simp

text \<open>The other family takes the challenges the other way round: the complemented index.\<close>

lemma fold_weight_mirror:
  "i < 2 ^ length cs \<Longrightarrow> fold_weight 1 (map (\<lambda>(a, b). (b, a)) cs) i = fold_weight 1 cs (2 ^ length cs - 1 - i)"
proof (induction cs arbitrary: i)
  case (Cons ab cs)
  obtain a b where ab: "ab = (a, b)" by (cases ab)
  show ?case
  proof (cases "i < 2 ^ length cs")
    case True
    then have "2 * 2 ^ length cs - Suc i - 2 ^ length cs = 2 ^ length cs - Suc i" "\<not> 2 * 2 ^ length cs - Suc i < 2 ^ length cs" by simp_all
    then show ?thesis using True Cons.IH [of i] by (simp add: ab)
  next
    case False
    then have "i - 2 ^ length cs < 2 ^ length cs" "2 * 2 ^ length cs - 1 - i < 2 ^ length cs"
      "2 ^ length cs - 1 - (i - 2 ^ length cs) = 2 * 2 ^ length cs - 1 - i" using Cons.prems by simp_all
    then show ?thesis using False Cons.IH [of "i - 2 ^ length cs"] by (simp add: ab)
  qed
qed simp

lemma fold_weight_snoc:
  "i < 2 * 2 ^ length cs \<Longrightarrow> fold_weight 1 (cs @ [(a, b)]) i = fold_weight 1 cs (i div 2) * (if odd i then b else a)"
proof (induction cs arbitrary: i)
  case Nil
  then consider "i = 0" | "i = 1" by force
  then show ?case by cases simp_all
next
  case (Cons p cs)
  obtain x z where p: "p = (x, z)" by (cases p)
  show ?case
  proof (cases "i < 2 * 2 ^ length cs")
    case True
    then have "i div 2 < 2 ^ length cs" by simp
    then show ?thesis using True Cons.IH [of i] by (simp add: p)
  next
    case False
    then have "\<not> i div 2 < 2 ^ length cs" "(i - 2 * 2 ^ length cs) div 2 = i div 2 - 2 ^ length cs"
      "odd (i - 2 * 2 ^ length cs) \<longleftrightarrow> odd i" by simp_all
    then show ?thesis using False Cons.prems Cons.IH [of "i - 2 * 2 ^ length cs"] by (simp add: p)
  qed
qed

section \<open>The curve library\<close>

lemma lawful_scalar_module: "lawful C \<Longrightarrow> scalar_module (dk_smul C) torsion_free"
  by unfold_locales (simp_all add: torsion_free_closed torsion_free_smul smul_point_add smul_add smul_mult smul_one)

interpretation zl_points: scalar_module "dk_smul zl_dalek" torsion_free
  by (rule lawful_scalar_module [OF zl_laws])

end
