(* ===== verification/BppLoops.thy ===== *)
theory BppLoops
  imports Bpp BppAlg
begin

text \<open>
  Closed forms of the loops of \<open>bulletproofs_plus.rs\<close>: the running powers, the doubling sums, the padded
  size, the vector \<open>d\<close>, and the challenge products the verifier builds in place.
\<close>

section \<open>Loops in closed form\<close>

lemma scalar_powers_eq: "scalar_powers x (Suc n) = map (\<lambda>i. x ^ i) [0 ..< Suc n]"
proof (induction n)
  case (Suc n)
  have s: "[1 ..< Suc (Suc n)] = [1 ..< Suc n] @ [Suc n]" by simp
  have "scalar_powers x (Suc (Suc n)) = scalar_powers x (Suc n) @ [if Suc n = 1 then x else scalar_powers x (Suc n) ! n * x]"
    unfolding scalar_powers_def s by simp
  also have "\<dots> = map (\<lambda>i. x ^ i) [0 ..< Suc (Suc n)]" unfolding Suc by (cases n) (simp_all add: nth_append mult.commute)
  finally show ?case .
qed (simp add: scalar_powers_def)

lemma scalar_powers_nth: "i < n \<Longrightarrow> scalar_powers x n ! i = x ^ i"
  by (cases n) (simp_all add: scalar_powers_eq del: upt_Suc)

lemma geometric_double: "(\<Sum>j<t + t. q ^ Suc j) = q ^ t * (\<Sum>j<t. q ^ Suc j) + (\<Sum>j<t. q ^ Suc j)" for q :: "'s::comm_ring_1"
  by (simp add: sum_split sum_distrib_left power_add ac_simps)

lemma even_powers_loop_eq:
  "even_powers_loop (q ^ t) (\<Sum>j<t. q ^ Suc j) (2 ^ Suc k) = (\<Sum>j<t * 2 ^ k. q ^ Suc j)" for q :: "'s::comm_ring_1"
proof (induction k arbitrary: t)
  case 0
  show ?case by (subst even_powers_loop.simps) simp
next
  case (Suc k)
  have "2 < (2 :: nat) ^ Suc (Suc k)" using power_strict_increasing [of 1 "Suc (Suc k)" "2 :: nat"] by simp
  then have "even_powers_loop (q ^ t) (\<Sum>j<t. q ^ Suc j) (2 ^ Suc (Suc k)) =
      even_powers_loop (q ^ (t + t)) (\<Sum>j<t + t. q ^ Suc j) (2 ^ Suc k)"
    by (subst even_powers_loop.simps) (simp only: geometric_double power_add if_True, simp)
  also have "\<dots> = (\<Sum>j<(t + t) * 2 ^ k. q ^ Suc j)" by (rule Suc.IH)
  also have "(t + t) * 2 ^ k = t * 2 ^ Suc k" by simp
  finally show ?case .
qed

lemma sum_of_even_powers_eq: "sum_of_even_powers x (2 * 2 ^ k) = (\<Sum>j<2 ^ k. (x * x) ^ Suc j)"
  using even_powers_loop_eq [of "x * x" 1 k] by (simp add: sum_of_even_powers_def)

lemma sum_of_scalar_powers_eq:
  assumes "0 < n"
  shows "sum_of_scalar_powers x n = (\<Sum>i<n. x ^ Suc i)"
proof -
  have "fold (\<lambda>i (res, prev). let prev = (if 1 < i then prev * x else prev) in (res + prev, prev)) [1 ..< Suc (Suc k)] (1, x) =
      (1 + (\<Sum>i<Suc k. x ^ Suc i), x ^ Suc k)" for k
    by (induction k) (simp_all add: Let_def algebra_simps)
  from this [of "n - 1"] assms show ?thesis
    by (cases "n = 1") (simp_all add: sum_of_scalar_powers_def)
qed

lemma wip_Suc: "wip (Suc n) a b y = a 0 * b 0 * y + y * wip n (\<lambda>i. a (Suc i)) (\<lambda>i. b (Suc i)) y"
  unfolding wip_def sum.lessThan_Suc_shift by (simp add: sum_distrib_left ac_simps)

lemma weighted_inner_product_eq:
  assumes "length a = n" "length b = n"
  shows "weighted_inner_product a b y = wip n (nth a) (nth b) y"
proof -
  let ?f = "\<lambda>(ai, bi) (res, y_power). let y_power = y_power * y in (res + ai * bi * y_power, y_power)"
  have step: "fold ?f (zip (x # xs) (z # zs)) (r, p) = fold ?f (zip xs zs) (r + x * z * (p * y), p * y)" for x z xs zs r p by (simp add: Let_def)
  have "length a = length b" using assms by simp
  then have "fst (fold ?f (zip a b) (r, p)) = r + p * wip (length a) (nth a) (nth b) y" for r p
  proof (induction a b arbitrary: r p rule: list_induct2)
    case Nil
    then show ?case by (simp add: wip_def)
  next
    case (Cons x xs z zs)
    show ?case unfolding step Cons.IH by (simp add: wip_Suc algebra_simps)
  qed
  from this [of 0 1] show ?thesis by (simp add: weighted_inner_product_def assms)
qed

lemma padded_loop_eq: "padded_loop cnt l = (m, k) \<Longrightarrow> m = 2 ^ k \<and> (cnt \<le> m \<or> MAX_OUTPUTS < m)"
proof (induction cnt l rule: padded_loop.induct)
  case (1 cnt l)
  show ?case
  proof (cases "2 ^ l \<le> MAX_OUTPUTS \<and> 2 ^ l < cnt")
    case True
    then have "padded_loop cnt l = padded_loop cnt (l + 1)" by (subst padded_loop.simps) (simp add: Let_def)
    with 1 True show ?thesis by metis
  next
    case False
    with "1.prems" show ?thesis by (subst (asm) padded_loop.simps) (auto simp: Let_def)
  qed
qed

lemma padded_count_Inr: "padded_count cnt = Inr (m, k) \<Longrightarrow> m = 2 ^ k \<and> cnt \<le> m \<and> 0 < cnt \<and> m \<le> MAX_OUTPUTS"
  using padded_loop_eq [of cnt 0 m k] by (auto simp: padded_count_def split: if_splits prod.splits)

lemma padded_loop_pow: "padded_loop cnt l = (m, k) \<Longrightarrow> l \<le> k \<and> m = 2 ^ k \<and> (l < k \<longrightarrow> 2 ^ (k - 1) < cnt)"
proof (induction cnt l rule: padded_loop.induct)
  case (1 cnt l)
  show ?case
  proof (cases "2 ^ l \<le> MAX_OUTPUTS \<and> 2 ^ l < cnt")
    case True
    then have "padded_loop cnt l = padded_loop cnt (l + 1)" by (subst padded_loop.simps) (simp add: Let_def)
    with "1.prems" have "padded_loop cnt (l + 1) = (m, k)" by (simp only:)
    then have "l + 1 \<le> k \<and> m = 2 ^ k \<and> (l + 1 < k \<longrightarrow> 2 ^ (k - 1) < cnt)" by (rule "1.IH" [OF refl True])
    with True show ?thesis by (cases "l + 1 = k") auto
  next
    case False
    with "1.prems" show ?thesis by (subst (asm) padded_loop.simps) (auto simp: Let_def)
  qed
qed

text \<open>The only refusals are an empty list and more than sixteen values.\<close>

lemma padded_count_Inl:
  assumes "padded_count cnt = Inl e"
  shows "if cnt = 0 then e = BppEmpty else MAX_OUTPUTS < cnt \<and> e = TooManyValues cnt"
proof (cases "cnt = 0")
  case False
  obtain m k where p: "padded_loop cnt 0 = (m, k)" by fastforce
  with assms False have big: "MAX_OUTPUTS < m" "e = TooManyValues cnt" by (simp_all add: padded_count_def split: if_splits)
  have k: "m = 2 ^ k" "0 < k \<longrightarrow> 2 ^ (k - 1) < cnt" using padded_loop_pow [OF p] by simp_all
  have "(2 :: nat) ^ 4 < 2 ^ k" using big(1) by (simp add: k MAX_OUTPUTS_def)
  then have "4 < k" by (rule power_less_imp_less_exp [rotated]) simp
  then have "2 ^ 4 \<le> (2 :: nat) ^ (k - 1)" by (intro power_increasing) simp_all
  then show ?thesis using k(2) \<open>4 < k\<close> big(2) False by (simp add: MAX_OUTPUTS_def)
qed (use assms in \<open>simp add: padded_count_def\<close>)

lemma square_loop_eq: "square_loop y (2 ^ k) = y ^ 2 ^ k"
proof (induction k arbitrary: y)
  case (Suc k)
  have "1 < (2 :: nat) ^ Suc k" by (rule one_less_power) simp_all
  then have "square_loop y (2 ^ Suc k) = square_loop (y * y) (2 ^ k)" by (subst square_loop.simps) simp
  with Suc show ?case by (simp add: power_mult_distrib power_mult power2_eq_square)
qed (simp add: square_loop.simps)

lemma two_sixty_four_eq: "two_sixty_four_minus_one = (2 ^ 64 - 1 :: 's::comm_ring_1)"
proof -
  have "fold (\<lambda>_ x. x * x) [0 ..< k] (2 :: 's) = 2 ^ 2 ^ k" for k
    by (induction k) (simp_all add: mult_2 flip: power_add)
  from this [of 6] show ?thesis by (simp add: two_sixty_four_minus_one_def)
qed

lemma running_powers:
  fixes x :: "'s::comm_ring_1"
  assumes "0 < n" "n \<le> length v"
  shows "length (fold (\<lambda>i v. v[i := v ! (i - 1) * x]) [1 ..< n] v) = length v \<and>
    (\<forall>i < n. fold (\<lambda>i v. v[i := v ! (i - 1) * x]) [1 ..< n] v ! i = v ! 0 * x ^ i)"
  using assms
proof (induction n)
  case (Suc n)
  show ?case
  proof (cases "n = 0")
    case False
    with Suc have "length (fold (\<lambda>i v. v[i := v ! (i - 1) * x]) [1 ..< n] v) = length v"
      "\<And>i. i < n \<Longrightarrow> fold (\<lambda>i v. v[i := v ! (i - 1) * x]) [1 ..< n] v ! i = v ! 0 * x ^ i" by simp_all
    moreover have "x ^ n = x ^ (n - 1) * x" using False by (cases n) (simp_all add: mult.commute)
    moreover have "[1 ..< Suc n] = [1 ..< n] @ [n]" using False by simp
    ultimately show ?thesis using False Suc.prems by (auto simp: nth_list_update less_Suc_eq mult.assoc)
  qed simp
qed simp

lemma alpha_loop:
  "fst (fold (\<lambda>gamma (alpha, temp). let temp = temp * q in (alpha + k * temp * gamma, temp)) gs (x, t)) =
    x + k * t * (\<Sum>j<length gs. q ^ Suc j * gs ! j)" for q :: "'s::comm_ring_1"
proof (induction gs arbitrary: x t)
  case (Cons g gs)
  let ?f = "\<lambda>gamma (alpha, temp). let temp = temp * q in (alpha + k * temp * gamma, temp)"
  have step: "fold ?f (g # gs) (x, t) = fold ?f gs (x + k * (t * q) * g, t * q)" by (simp add: Let_def)
  have "(\<Sum>j<length (g # gs). q ^ Suc j * (g # gs) ! j) = q * g + q * (\<Sum>j<length gs. q ^ Suc j * gs ! j)"
    unfolding list.size add_0_right add_Suc_right sum.lessThan_Suc_shift by (simp add: sum_distrib_left ac_simps)
  then show ?case unfolding step Cons.IH by (simp only: distrib_left ac_simps)
qed simp

text \<open>The vector \<open>d\<close>: block \<open>j\<close> holds \<open>z^(2(j+1))\<close> times the powers of two.\<close>

lemma fill_block:
  assumes "length d = m * BPP_N" "j < m" "0 < j" "n \<le> BPP_N"
  shows "length (fold (\<lambda>i d. d[j * BPP_N + i := d ! ((j - 1) * BPP_N + i) * q]) [0 ..< n] d) = length d \<and>
    (\<forall>k < length d. fold (\<lambda>i d. d[j * BPP_N + i := d ! ((j - 1) * BPP_N + i) * q]) [0 ..< n] d ! k =
      (if j * BPP_N \<le> k \<and> k < j * BPP_N + n then d ! (k - BPP_N) * q else d ! k))"
  using assms(4)
proof (induction n)
  case (Suc n)
  let ?d = "fold (\<lambda>i d. d[j * BPP_N + i := d ! ((j - 1) * BPP_N + i) * q]) [0 ..< n] d"
  have l: "length ?d = length d" and IH: "\<And>k. k < length d \<Longrightarrow> ?d ! k = (if j * BPP_N \<le> k \<and> k < j * BPP_N + n then d ! (k - BPP_N) * q else d ! k)"
    using Suc by simp_all
  have b: "j * BPP_N + n < length d" "(j - 1) * BPP_N + n < length d" "(j - 1) * BPP_N + n = j * BPP_N + n - BPP_N" "(j - 1) * BPP_N + n < j * BPP_N"
  proof -
    have "Suc j * BPP_N \<le> m * BPP_N" using assms(2) by (intro mult_le_mono1) simp
    then show "j * BPP_N + n < length d" using Suc.prems assms(1) by simp
    show e: "(j - 1) * BPP_N + n = j * BPP_N + n - BPP_N" using assms(3) by (cases j) simp_all
    show "(j - 1) * BPP_N + n < j * BPP_N" using Suc.prems assms(3) by (cases j) simp_all
    then show "(j - 1) * BPP_N + n < length d" using \<open>j * BPP_N + n < length d\<close> by simp
  qed
  show ?case using l IH b by (auto simp: nth_list_update)
qed auto

lemma fill_d_nth:
  fixes q :: "'s::comm_ring_1"
  assumes "\<And>x. dbl x = x * 2" "0 < m" "j < m" "i < BPP_N"
  shows "fill_d dbl q m ! (j * BPP_N + i) = q ^ Suc j * 2 ^ i"
proof -
  define d0 where "d0 = (replicate (m * BPP_N) 0)[0 := q]"
  define d1 where "d1 = fold (\<lambda>i d. d[i := dbl (d ! (i - 1))]) [1 ..< BPP_N] d0"
  let ?loop = "\<lambda>n. fold (\<lambda>j d. fold (\<lambda>i d. d[j * BPP_N + i := d ! ((j - 1) * BPP_N + i) * q]) [0 ..< BPP_N] d) [1 ..< n] d1"
  have n: "0 < BPP_N" "BPP_N \<le> m * BPP_N" using assms(2) by (simp_all add: BPP_N_def)
  have l0: "length d0 = m * BPP_N" "d0 ! 0 = q" using n assms(2) by (simp_all add: d0_def)
  have "d1 = fold (\<lambda>i v. v[i := v ! (i - 1) * 2]) [1 ..< BPP_N] d0" by (simp add: d1_def assms(1))
  then have d1: "length d1 = m * BPP_N" "\<And>i. i < BPP_N \<Longrightarrow> d1 ! i = q * 2 ^ i"
    using running_powers [of BPP_N d0 2] n l0 by simp_all
  have "length (?loop (Suc k)) = m * BPP_N \<and> (\<forall>j \<le> k. \<forall>i < BPP_N. ?loop (Suc k) ! (j * BPP_N + i) = q ^ Suc j * 2 ^ i)" if "k < m" for k
    using that
  proof (induction k)
    case 0
    then show ?case using d1 by simp
  next
    case (Suc k)
    then have IH: "length (?loop (Suc k)) = m * BPP_N" "\<And>j i. j \<le> k \<Longrightarrow> i < BPP_N \<Longrightarrow> ?loop (Suc k) ! (j * BPP_N + i) = q ^ Suc j * 2 ^ i"
      by simp_all
    note fb = fill_block [OF IH(1) Suc.prems zero_less_Suc order_refl, of q]
    have lp: "?loop (Suc (Suc k)) = fold (\<lambda>i d. d[Suc k * BPP_N + i := d ! ((Suc k - 1) * BPP_N + i) * q]) [0 ..< BPP_N] (?loop (Suc k))" by simp
    show ?case unfolding lp
    proof (intro conjI allI impI)
      show "length (fold (\<lambda>i d. d[Suc k * BPP_N + i := d ! ((Suc k - 1) * BPP_N + i) * q]) [0 ..< BPP_N] (?loop (Suc k))) = m * BPP_N"
        using fb IH(1) by simp
      fix j i assume ji: "j \<le> Suc k" "i < BPP_N"
      have "Suc j * BPP_N \<le> m * BPP_N" using ji Suc.prems by (intro mult_le_mono1) simp
      then have b: "j * BPP_N + i < length (?loop (Suc k))" using ji IH(1) by simp
      show "fold (\<lambda>i d. d[Suc k * BPP_N + i := d ! ((Suc k - 1) * BPP_N + i) * q]) [0 ..< BPP_N] (?loop (Suc k)) ! (j * BPP_N + i) = q ^ Suc j * 2 ^ i"
      proof (cases "j = Suc k")
        case True
        then have "j * BPP_N + i - BPP_N = k * BPP_N + i" by simp
        then show ?thesis using fb b ji True IH(2) [of k i] by (simp add: ac_simps)
      next
        case False
        with ji have "j \<le> k" by simp
        then have "j * BPP_N \<le> k * BPP_N" by (rule mult_le_mono1)
        then have "\<not> Suc k * BPP_N \<le> j * BPP_N + i" using ji(2) unfolding mult_Suc by linarith
        then show ?thesis using fb b IH(2) [OF \<open>j \<le> k\<close> ji(2)] by simp
      qed
    qed
  qed
  from this [of "m - 1"] assms(2-4) have "?loop m ! (j * BPP_N + i) = q ^ Suc j * 2 ^ i" by simp
  then show ?thesis by (simp add: fill_d_def d1_def d0_def)
qed


text \<open>The cache of challenge products is the weight of every index.\<close>

lemma cache_slots_eq:
  fixes c :: "'s::comm_ring_1"
  assumes "2 * n \<le> length v"
  shows "length (cache_slots c ci v (2 * n)) = length v \<and>
    (\<forall>k < length v. cache_slots c ci v (2 * n) ! k = (if k < 2 * n then v ! (k div 2) * (if odd k then c else ci) else v ! k))"
  using assms
proof (induction n arbitrary: v)
  case (Suc n)
  have two: "2 * Suc n = Suc (Suc (2 * n))" by simp
  have d: "Suc (2 * n) div 2 = n" by simp
  define w where "w = v[Suc (2 * n) := v ! n * c, 2 * n := v[Suc (2 * n) := v ! n * c] ! n * ci]"
  have step: "cache_slots c ci v (2 * Suc n) = cache_slots c ci w (2 * n)"
    unfolding two cache_slots.simps Let_def d diff_Suc_1 w_def ..
  have w: "length w = length v" "\<And>k. k < length v \<Longrightarrow> w ! k = (if k = Suc (2 * n) then v ! n * c else if k = 2 * n then v ! n * ci else v ! k)"
    using Suc.prems by (auto simp: w_def nth_list_update)
  have IH: "length (cache_slots c ci w (2 * n)) = length w \<and>
      (\<forall>k < length w. cache_slots c ci w (2 * n) ! k = (if k < 2 * n then w ! (k div 2) * (if odd k then c else ci) else w ! k))"
    by (rule Suc.IH) (use Suc.prems w in simp)
  show ?case unfolding step
  proof (intro conjI allI impI)
    show "length (cache_slots c ci w (2 * n)) = length v" using IH w(1) by simp
    fix k assume k: "k < length v"
    consider "k < 2 * n" | "k = 2 * n" | "k = Suc (2 * n)" | "2 * Suc n \<le> k" by atomize_elim arith
    then show "cache_slots c ci w (2 * n) ! k = (if k < 2 * Suc n then v ! (k div 2) * (if odd k then c else ci) else v ! k)"
    proof cases
      case 1
      then have "k div 2 < length v" "k div 2 \<noteq> Suc (2 * n)" "k div 2 \<noteq> 2 * n" using k by simp_all
      then show ?thesis using 1 IH w k by simp
    qed (use IH w k in simp_all)
  qed
qed simp

lemma cache_step:
  fixes c :: "'s::comm_ring_1"
  assumes "length v = 2 ^ n" "length w < n" "\<And>i. i < 2 ^ length w \<Longrightarrow> v ! i = fold_weight 1 w i"
  shows "length (cache_slots c ci v (2 * 2 ^ length w)) = 2 ^ n"
    "i < 2 * 2 ^ length w \<Longrightarrow> cache_slots c ci v (2 * 2 ^ length w) ! i = fold_weight 1 (w @ [(ci, c)]) i"
proof -
  have le: "2 * 2 ^ length w \<le> length v"
    using power_increasing [of "Suc (length w)" n "2 :: nat"] assms(1,2) by simp
  note cs = cache_slots_eq [OF le, of c ci]
  show "length (cache_slots c ci v (2 * 2 ^ length w)) = 2 ^ n" using cs assms(1) by simp
  show "cache_slots c ci v (2 * 2 ^ length w) ! i = fold_weight 1 (w @ [(ci, c)]) i" if i: "i < 2 * 2 ^ length w"
  proof -
    have "i < length v" "i div 2 < 2 ^ length w" using le i by simp_all
    then show ?thesis using cs i assms(3) [of "i div 2"] fold_weight_snoc [OF i, of ci c] by simp
  qed
qed

lemma fill_cache_eq:
  fixes cs :: "'s::comm_ring_1 list"
  assumes "length cs = n" "length cis = n" "0 < n" "i < 2 ^ n"
  shows "fill_cache cs cis n ! i = fold_weight 1 (zip cis cs) i"
proof -
  define v where "v = (replicate (2 ^ n) 0)[0 := cis ! 0, 1 := cs ! 0]"
  define lp where "lp = (\<lambda>k. fold (\<lambda>j cache. cache_slots (cs ! j) (cis ! j) cache (2 ^ (j + 1))) [1 ..< k] v)"
  have "length (lp (Suc k)) = 2 ^ n \<and> (\<forall>i < 2 ^ Suc k. lp (Suc k) ! i = fold_weight 1 (take (Suc k) (zip cis cs)) i)" if "k < n" for k
    using that
  proof (induction k)
    case 0
    obtain c cs' where e1: "cs = c # cs'" using assms(1,3) by (cases cs) auto
    obtain ci cis' where e2: "cis = ci # cis'" using assms(2,3) by (cases cis) auto
    have "(1 :: nat) < 2 ^ n" using assms(3) by (intro one_less_power) simp_all
    then have "v ! 0 = ci" "v ! 1 = c" "length v = 2 ^ n" by (simp_all add: v_def e1 e2 nth_list_update)
    then show ?case by (auto simp: lp_def less_2_cases_iff e1 e2)
  next
    case (Suc k)
    have t: "take (Suc (Suc k)) (zip cis cs) = take (Suc k) (zip cis cs) @ [(cis ! Suc k, cs ! Suc k)]"
      using Suc.prems assms by (subst take_Suc_conv_app_nth) simp_all
    have lt: "length (take (Suc k) (zip cis cs)) = Suc k" using Suc.prems assms by simp
    have s: "lp (Suc (Suc k)) = cache_slots (cs ! Suc k) (cis ! Suc k) (lp (Suc k)) (2 * 2 ^ Suc k)" by (simp add: lp_def)
    have IH: "length (lp (Suc k)) = 2 ^ n" "\<And>i. i < 2 ^ Suc k \<Longrightarrow> lp (Suc k) ! i = fold_weight 1 (take (Suc k) (zip cis cs)) i"
      using Suc by simp_all
    have "length (take (Suc k) (zip cis cs)) < n" using Suc.prems lt by simp
    note st = cache_step [OF IH(1) this, unfolded lt, where c = "cs ! Suc k" and ci = "cis ! Suc k"]
    show ?case unfolding s t
    proof (intro conjI allI impI)
      show "length (cache_slots (cs ! Suc k) (cis ! Suc k) (lp (Suc k)) (2 * 2 ^ Suc k)) = 2 ^ n" by (rule st(1)) (rule IH(2))
      fix i :: nat assume "i < 2 ^ Suc (Suc k)"
      then have "i < 2 * 2 ^ Suc k" by (simp only: power_Suc)
      then show "cache_slots (cs ! Suc k) (cis ! Suc k) (lp (Suc k)) (2 * 2 ^ Suc k) ! i =
          fold_weight 1 (take (Suc k) (zip cis cs) @ [(cis ! Suc k, cs ! Suc k)]) i" using IH(2) by (intro st(2))
    qed
  qed
  note lp = this [of "n - 1"]
  have n: "Suc (n - 1) = n" "n - 1 < n" using assms(3) by simp_all
  have "lp n ! i = fold_weight 1 (take n (zip cis cs)) i" using lp [unfolded n(1)] n(2) assms(4) by simp
  moreover have "take n (zip cis cs) = zip cis cs" using assms(1,2) by simp
  moreover have "fill_cache cs cis n = lp n" by (simp only: fill_cache_def lp_def v_def Let_def)
  ultimately show ?thesis by simp
qed

end
