(* ===== verification/BppRounds.thy ===== *)
theory BppRounds
  imports BppLoops
begin

text \<open>
  The rounds of the prover. Each keeps an invariant, the commitment of its state; after the last one
  the folded generators are linear combinations of the original ones, with the weights that the verifier
  computes from the challenges. The verifier's one multiscalar multiplication is brought into the same
  form, and the inner product of the shifted bit vectors is computed.
\<close>

section \<open>Laws\<close>

definition range_laws :: "('s::comm_ring_1, 'p::ab_group_add) dalek \<Rightarrow> ('p \<Rightarrow> bool) \<Rightarrow> bool" where
  "range_laws C good \<longleftrightarrow> scalar_module (dk_smul C) good \<and> good (dk_base C) \<and>
     dk_invert C 8 * 8 = 1 \<and> (\<forall>s. s \<noteq> 0 \<longrightarrow> s * dk_invert C s = 1) \<and>
     (\<forall>s. decode_scalar C (dk_to_bytes C s) = Some s) \<and>
     (\<forall>P. good P \<longrightarrow> decode_point C (dk_compress C P) = Some P) \<and>
     (\<forall>P. good P \<longrightarrow> dk_mul_by_cofactor C P = dk_smul C 8 P)"

lemma range_lawsD:
  assumes "range_laws C good"
  shows "scalar_module (dk_smul C) good" "good (dk_base C)" "dk_invert C 8 * 8 = 1" "s \<noteq> 0 \<Longrightarrow> s * dk_invert C s = 1"
    "decode_scalar C (dk_to_bytes C s) = Some s" "good P \<Longrightarrow> decode_point C (dk_compress C P) = Some P"
    "good P \<Longrightarrow> dk_mul_by_cofactor C P = dk_smul C 8 P"
  using assms unfolding range_laws_def by blast+

lemma lawful_range_laws:
  assumes C: "lawful C" and inv: "\<And>s. s \<noteq> 0 \<Longrightarrow> s * dk_invert C s = 1"
  shows "range_laws C torsion_free"
proof -
  have "scalar_module (dk_smul C) torsion_free" by (rule lawful_scalar_module [OF C])
  moreover have "decode_scalar C (dk_to_bytes C s) = Some s" for s
    using scalar_bytes_roundtrip(2) [OF C] by (simp add: decode_scalar_def)
  ultimately show ?thesis
    unfolding range_laws_def
    using point_lawD [OF C] scalar_lawD(7) [OF C] inv decode_encode [OF C] cofactor_smul [OF C] by (simp add: encode_point_def)
qed

section \<open>A round\<close>

lemma fold_plus2:
  "fold (\<lambda>i acc. acc + f i + k i) [0 ..< n] z = z + (\<Sum>i<n. f i) + (\<Sum>i<n. k i)" for z :: "'p::ab_group_add"
  by (induction n) (simp_all add: algebra_simps)

lemma compute_lr_eq:
  fixes C :: "('s::comm_ring_1, 'p::ab_group_add) dalek"
  assumes "range_laws C good" "scalar_module.basis good n (nth g) (nth h) hp (dk_base C)"
  shows "compute_lr C n y g h a b c d hp =
    dk_smul C (bpp_inv_eight C) (scalar_module.cm (dk_smul C) n (nth g) (nth h) hp (dk_base C) (\<lambda>i. a ! i * y) (nth b) c d)"
proof -
  have M: "scalar_module (dk_smul C) good" by (rule range_lawsD(1) [OF assms(1)])
  show ?thesis unfolding scalar_module.cm_smul [OF M assms(2)]
    unfolding scalar_module.cm_def [OF M] scalar_module.lc_def [OF M] compute_lr_def Let_def fold_plus2 by (simp add: ac_simps)
qed

lemma mul8_inv8:
  assumes "range_laws C good" "good P"
  shows "dk_mul_by_cofactor C (dk_smul C (bpp_inv_eight C) P) = P"
proof -
  have M: "scalar_module (dk_smul C) good" by (rule range_lawsD(1) [OF assms(1)])
  have "8 * bpp_inv_eight C = 1" using range_lawsD(3) [OF assms(1)] by (simp add: bpp_inv_eight_def mult.commute)
  then show ?thesis
    using range_lawsD(7) [OF assms(1) scalar_module.good_smul [OF M assms(2)]] scalar_module.times_smul [OF M assms(2), of 8 "bpp_inv_eight C"]
      scalar_module.one_smul [OF M assms(2)] by simp
qed

text \<open>What the verifier makes of a stored point.\<close>

lemma mul8_of_stored:
  assumes "range_laws C good" "good P"
  shows "mul8_of C (encode_point C (dk_smul C (bpp_inv_eight C) P)) = Inr P"
  using range_lawsD(6) [OF assms(1)] scalar_module.good_smul [OF range_lawsD(1) [OF assms(1)] assms(2)] mul8_inv8 [OF assms]
  by (simp add: mul8_of_def encode_point_def mul8_def)

text \<open>The commitment of a state: its vectors against its generators, their weighted inner product
  against \<open>H\<close>, the blinding against the base point.\<close>

definition state_commit :: "('s::comm_ring_1, 'p::ab_group_add) dalek \<Rightarrow> 'p \<Rightarrow> 's \<Rightarrow> nat \<Rightarrow> ('s, 'p) rounds \<Rightarrow> 'p" where
  "state_commit C hp y n s = scalar_module.cm (dk_smul C) n (nth (ro_g s)) (nth (ro_h s)) hp (dk_base C) (nth (ro_a s)) (nth (ro_b s))
     (wip n (nth (ro_a s)) (nth (ro_b s)) y) (ro_alpha s)"

definition state_ok :: "('p::ab_group_add \<Rightarrow> bool) \<Rightarrow> nat \<Rightarrow> ('s, 'p) rounds \<Rightarrow> bool" where
  "state_ok good n s \<longleftrightarrow> length (ro_a s) = n \<and> length (ro_b s) = n \<and> length (ro_g s) = n \<and> length (ro_h s) = n \<and>
     (\<forall>i < n. good (ro_g s ! i)) \<and> (\<forall>i < n. good (ro_h s ! i))"

lemma wip_cong: "(\<And>i. i < n \<Longrightarrow> a i = a' i) \<Longrightarrow> (\<And>i. i < n \<Longrightarrow> b i = b' i) \<Longrightarrow> wip n a b y = wip n a' b' y"
  by (simp add: wip_def)

text \<open>The points of a round against the unfolded generators.\<close>

lemma round_points:
  fixes C :: "('s::comm_ring_1, 'p::ab_group_add) dalek"
  assumes R: "range_laws C good" and ok: "state_ok good (n + n) s" and hp: "good hp"
  defines "g \<equiv> ro_g s" and "h \<equiv> ro_h s" and "a \<equiv> ro_a s" and "b \<equiv> ro_b s"
  shows "compute_lr C n w (drop n g) (take n h) (take n a) (drop n b) (weighted_inner_product (take n a) (drop n b) y) d hp =
      dk_smul C (bpp_inv_eight C) (scalar_module.cm (dk_smul C) (n + n) (nth g) (nth h) hp (dk_base C)
        (\<lambda>i. if i < n then 0 else a ! (i - n) * w) (\<lambda>i. if i < n then b ! (n + i) else 0) (wip n (nth a) (\<lambda>i. b ! (n + i)) y) d)"
    "compute_lr C n w (take n g) (drop n h) (drop n a) (take n b)
        (weighted_inner_product (map (\<lambda>x. x * w) (drop n a)) (take n b) y) d hp =
      dk_smul C (bpp_inv_eight C) (scalar_module.cm (dk_smul C) (n + n) (nth g) (nth h) hp (dk_base C)
        (\<lambda>i. if i < n then a ! (n + i) * w else 0) (\<lambda>i. if i < n then 0 else b ! (i - n)) (wip n (\<lambda>i. a ! (n + i) * w) (nth b) y) d)"
proof -
  have M: "scalar_module (dk_smul C) good" by (rule range_lawsD(1) [OF R])
  have len: "length g = n + n" "length h = n + n" "length a = n + n" "length b = n + n"
    and gd: "\<forall>i < n + n. good (g ! i)" "\<forall>i < n + n. good (h ! i)"
    using ok by (simp_all add: state_ok_def g_def h_def a_def b_def)
  note lc1 = scalar_module.lc_first [OF M gd(1)] scalar_module.lc_first [OF M gd(2)]
  note lc2 = scalar_module.lc_last [OF M gd(1)] scalar_module.lc_last [OF M gd(2)]
  note cm = scalar_module.cm_def [OF M] and cong = scalar_module.lc_cong [OF M]
  have b1: "scalar_module.basis good n (nth (drop n g)) (nth (take n h)) hp (dk_base C)"
    "scalar_module.basis good n (nth (take n g)) (nth (drop n h)) hp (dk_base C)"
    using gd len hp range_lawsD(2) [OF R] by (simp_all add: scalar_module.basis_def [OF M])
  have "weighted_inner_product (take n a) (drop n b) y = wip n (nth a) (\<lambda>i. b ! (n + i)) y"
    using weighted_inner_product_eq [of "take n a" n "drop n b" y] len by (simp add: wip_def)
  moreover have "scalar_module.lc (dk_smul C) n (\<lambda>i. take n a ! i * w) (nth (drop n g)) = scalar_module.lc (dk_smul C) n (\<lambda>i. a ! i * w) (\<lambda>i. g ! (n + i))"
    "scalar_module.lc (dk_smul C) n (nth (drop n b)) (nth (take n h)) = scalar_module.lc (dk_smul C) n (\<lambda>i. b ! (n + i)) (nth h)"
    using len by (auto intro!: cong)
  ultimately show "compute_lr C n w (drop n g) (take n h) (take n a) (drop n b) (weighted_inner_product (take n a) (drop n b) y) d hp =
      dk_smul C (bpp_inv_eight C) (scalar_module.cm (dk_smul C) (n + n) (nth g) (nth h) hp (dk_base C)
        (\<lambda>i. if i < n then 0 else a ! (i - n) * w) (\<lambda>i. if i < n then b ! (n + i) else 0) (wip n (nth a) (\<lambda>i. b ! (n + i)) y) d)"
    by (simp only: compute_lr_eq [OF R b1(1)] cm lc1(2) lc2(1))
  have "weighted_inner_product (map (\<lambda>x. x * w) (drop n a)) (take n b) y = wip n (\<lambda>i. a ! (n + i) * w) (nth b) y"
    using weighted_inner_product_eq [of "map (\<lambda>x. x * w) (drop n a)" n "take n b" y] len by (simp add: wip_def)
  moreover have "scalar_module.lc (dk_smul C) n (\<lambda>i. drop n a ! i * w) (nth (take n g)) = scalar_module.lc (dk_smul C) n (\<lambda>i. a ! (n + i) * w) (nth g)"
    "scalar_module.lc (dk_smul C) n (nth (take n b)) (nth (drop n h)) = scalar_module.lc (dk_smul C) n (nth b) (\<lambda>i. h ! (n + i))"
    using len by (auto intro!: cong)
  ultimately show "compute_lr C n w (take n g) (drop n h) (drop n a) (take n b)
        (weighted_inner_product (map (\<lambda>x. x * w) (drop n a)) (take n b) y) d hp =
      dk_smul C (bpp_inv_eight C) (scalar_module.cm (dk_smul C) (n + n) (nth g) (nth h) hp (dk_base C)
        (\<lambda>i. if i < n then a ! (n + i) * w else 0) (\<lambda>i. if i < n then 0 else b ! (i - n)) (wip n (\<lambda>i. a ! (n + i) * w) (nth b) y) d)"
    by (simp only: compute_lr_eq [OF R b1(2)] cm lc1(1) lc2(2))
qed

lemma prove_round_step:
  fixes C :: "('s::comm_ring_1, 'p::ab_group_add) dalek"
  assumes R: "range_laws C good" and ok: "state_ok good (n + n) s" and hp: "good hp" and y: "y \<noteq> 0"
    and p: "y_powers ! n = y ^ n" "yinvpow ! n = dk_invert C y ^ n"
    and step: "prove_round C rand hp y y_powers yinvpow n s = Inr s'"
  shows "\<exists>c L Q. c \<noteq> 0 \<and> good L \<and> good Q \<and> state_ok good n s' \<and>
    ro_l s' = ro_l s @ [dk_smul C (bpp_inv_eight C) L] \<and> ro_r s' = ro_r s @ [dk_smul C (bpp_inv_eight C) Q] \<and>
    transcript_update C (ro_transcript s) [encode_point C (dk_smul C (bpp_inv_eight C) L), encode_point C (dk_smul C (bpp_inv_eight C) Q)]
      = (c, ro_transcript s') \<and>
    (\<forall>i < n. ro_g s' ! i = dk_smul C (dk_invert C c) (ro_g s ! i) + dk_smul C (dk_invert C y ^ n * c) (ro_g s ! (n + i))) \<and>
    (\<forall>i < n. ro_h s' ! i = dk_smul C c (ro_h s ! i) + dk_smul C (dk_invert C c) (ro_h s ! (n + i))) \<and>
    state_commit C hp y n s' = state_commit C hp y (n + n) s + dk_smul C (c * c) L + dk_smul C (dk_invert C c * dk_invert C c) Q"
proof -
  have M: "scalar_module (dk_smul C) good" by (rule range_lawsD(1) [OF R])
  let ?g = "ro_g s" and ?h = "ro_h s" and ?a = "ro_a s" and ?b = "ro_b s" and ?yi = "dk_invert C y"
  have len: "length ?g = n + n" "length ?h = n + n" "length ?a = n + n" "length ?b = n + n"
    and gd: "\<forall>i < n + n. good (?g ! i)" "\<forall>i < n + n. good (?h ! i)"
    using ok by (simp_all add: state_ok_def)
  have B: "scalar_module.basis good (n + n) (nth ?g) (nth ?h) hp (dk_base C)"
    using gd hp range_lawsD(2) [OF R] by (simp add: scalar_module.basis_def [OF M])
  define L where "L = scalar_module.cm (dk_smul C) (n + n) (nth ?g) (nth ?h) hp (dk_base C)
        (\<lambda>i. if i < n then 0 else ?a ! (i - n) * ?yi ^ n) (\<lambda>i. if i < n then ?b ! (n + i) else 0) (wip n (nth ?a) (\<lambda>i. ?b ! (n + i)) y)
        (rand (ro_draw s))"
  define Q where "Q = scalar_module.cm (dk_smul C) (n + n) (nth ?g) (nth ?h) hp (dk_base C)
        (\<lambda>i. if i < n then ?a ! (n + i) * y ^ n else 0) (\<lambda>i. if i < n then 0 else ?b ! (i - n)) (wip n (\<lambda>i. ?a ! (n + i) * y ^ n) (nth ?b) y)
        (rand (ro_draw s + 1))"
  obtain c tr where u: "transcript_update C (ro_transcript s) [encode_point C (dk_smul C (bpp_inv_eight C) L), encode_point C (dk_smul C (bpp_inv_eight C) Q)] = (c, tr)"
    by fastforce
  let ?ci = "dk_invert C c"
  have st: "c \<noteq> 0" "s' = \<lparr>ro_a = map (\<lambda>i. ?a ! i * c + ?a ! (n + i) * (?ci * y ^ n)) [0 ..< n],
      ro_b = map (\<lambda>i. ?b ! i * ?ci + ?b ! (n + i) * c) [0 ..< n],
      ro_g = hadamard_fold C ?g ?ci (?yi ^ n * c), ro_h = hadamard_fold C ?h c ?ci,
      ro_alpha = ro_alpha s + (rand (ro_draw s) * (c * c) + rand (ro_draw s + 1) * (?ci * ?ci)),
      ro_l = ro_l s @ [dk_smul C (bpp_inv_eight C) L], ro_r = ro_r s @ [dk_smul C (bpp_inv_eight C) Q], ro_transcript = tr, ro_draw = ro_draw s + 2\<rparr>"
    using step unfolding prove_round_def Let_def p round_points [OF R ok hp] L_def [symmetric] Q_def [symmetric] u case_prod_conv
    by (simp_all split: if_splits)
  have ci: "c * ?ci = 1" by (rule range_lawsD(4) [OF R st(1)])
  have yi: "y ^ n * ?yi ^ n = 1" using range_lawsD(4) [OF R y] by (simp flip: power_mult_distrib)
  have fg: "ro_g s' ! i = dk_smul C ?ci (?g ! i) + dk_smul C (?yi ^ n * c) (?g ! (n + i))" "ro_h s' ! i = dk_smul C c (?h ! i) + dk_smul C ?ci (?h ! (n + i))"
    if "i < n" for i using that len by (simp_all add: st(2) hadamard_fold_def)
  have ok': "state_ok good n s'"
    unfolding state_ok_def using fg gd len scalar_module.good_plus [OF M] scalar_module.good_smul [OF M]
    by (simp add: st(2) hadamard_fold_def)
  have gLQ: "good L" "good Q" unfolding L_def Q_def by (rule scalar_module.cm_good [OF M B])+
  have "state_commit C hp y n s' = state_commit C hp y (n + n) s + dk_smul C (c * c) L + dk_smul C (?ci * ?ci) Q"
  proof -
    have "state_commit C hp y n s' = scalar_module.cm (dk_smul C) n (\<lambda>i. dk_smul C ?ci (?g ! i) + dk_smul C (?yi ^ n * c) (?g ! (n + i)))
        (\<lambda>i. dk_smul C c (?h ! i) + dk_smul C ?ci (?h ! (n + i))) hp (dk_base C)
        (\<lambda>i. ?a ! i * c + ?a ! (n + i) * (?ci * y ^ n)) (\<lambda>i. ?b ! i * ?ci + ?b ! (n + i) * c)
        (wip n (\<lambda>i. ?a ! i * c + ?a ! (n + i) * (?ci * y ^ n)) (\<lambda>i. ?b ! i * ?ci + ?b ! (n + i) * c) y)
        (ro_alpha s + (rand (ro_draw s) * (c * c) + rand (ro_draw s + 1) * (?ci * ?ci)))"
      unfolding state_commit_def scalar_module.cm_def [OF M] using fg
      by (auto simp: st(2) wip_def intro!: arg_cong2 [where f = "(+)"] scalar_module.lc_cong [OF M])
    also have "\<dots> = state_commit C hp y (n + n) s + dk_smul C (c * c) L + dk_smul C (?ci * ?ci) Q"
      unfolding state_commit_def L_def Q_def by (rule scalar_module.round_commits [OF M B ci yi])
    finally show ?thesis .
  qed
  then show ?thesis using st u fg ok' gLQ by (intro exI [of _ c] exI [of _ L] exI [of _ Q]) simp
qed


section \<open>All rounds\<close>

definition round_points_sum :: "('s::comm_ring_1, 'p::ab_group_add) dalek \<Rightarrow> 's list \<Rightarrow> 'p list \<Rightarrow> 'p list \<Rightarrow> 'p" where
  "round_points_sum C cs Ls Qs = (\<Sum>j<length cs. dk_smul C (cs ! j * cs ! j) (Ls ! j) + dk_smul C (dk_invert C (cs ! j) * dk_invert C (cs ! j)) (Qs ! j))"

lemma round_points_sum_Cons:
  "round_points_sum C (c # cs) (L # Ls) (Q # Qs) =
     dk_smul C (c * c) L + dk_smul C (dk_invert C c * dk_invert C c) Q + round_points_sum C cs Ls Qs"
  unfolding round_points_sum_def list.size add_0_right add_Suc_right sum.lessThan_Suc_shift by simp

abbreviation stored_point :: "('s::comm_ring_1, 'p) dalek \<Rightarrow> 'p \<Rightarrow> 'p" where
  "stored_point C P \<equiv> dk_smul C (bpp_inv_eight C) P"

definition rounds_run :: "('s::comm_ring_1, 'p::ab_group_add) dalek \<Rightarrow> ('p \<Rightarrow> bool) \<Rightarrow> 'p \<Rightarrow> 's \<Rightarrow> nat \<Rightarrow> ('s, 'p) rounds \<Rightarrow> ('s, 'p) rounds \<Rightarrow>
    's list \<Rightarrow> 'p list \<Rightarrow> 'p list \<Rightarrow> bool" where
  "rounds_run C good hp y k s s' cs Ls Qs \<longleftrightarrow>
     length cs = k \<and> length Ls = k \<and> length Qs = k \<and> (\<forall>c \<in> set cs. c \<noteq> 0) \<and> (\<forall>P \<in> set Ls \<union> set Qs. good P) \<and> state_ok good 1 s' \<and>
     ro_l s' = ro_l s @ map (stored_point C) Ls \<and> ro_r s' = ro_r s @ map (stored_point C) Qs \<and>
     verify_challenges C (ro_transcript s) (zip (map (\<lambda>P. encode_point C (stored_point C P)) Ls) (map (\<lambda>P. encode_point C (stored_point C P)) Qs))
       = Inr (cs, ro_transcript s') \<and>
     ro_g s' ! 0 = scalar_module.lc (dk_smul C) (2 ^ k) (fold_weight (dk_invert C y) (map (\<lambda>c. (dk_invert C c, c)) cs)) (nth (ro_g s)) \<and>
     ro_h s' ! 0 = scalar_module.lc (dk_smul C) (2 ^ k) (fold_weight 1 (map (\<lambda>c. (c, dk_invert C c)) cs)) (nth (ro_h s)) \<and>
     state_commit C hp y 1 s' = state_commit C hp y (2 ^ k) s + round_points_sum C cs Ls Qs"

lemma prove_rounds_run:
  fixes C :: "('s::comm_ring_1, 'p::ab_group_add) dalek"
  assumes R: "range_laws C good" and hp: "good hp" and y: "y \<noteq> 0"
  shows "state_ok good (2 ^ k) s \<Longrightarrow> (\<And>j. j < k \<Longrightarrow> y_powers ! (2 ^ j) = y ^ 2 ^ j \<and> yinvpow ! (2 ^ j) = dk_invert C y ^ 2 ^ j) \<Longrightarrow>
    prove_rounds C rand hp y y_powers yinvpow (2 ^ k) s = Inr s' \<Longrightarrow> \<exists>cs Ls Qs. rounds_run C good hp y k s s' cs Ls Qs"
proof (induction k arbitrary: s)
  case 0
  have M: "scalar_module (dk_smul C) good" by (rule range_lawsD(1) [OF R])
  from 0 have "s' = s" by (simp add: prove_rounds.simps)
  moreover have "good (ro_g s ! 0)" "good (ro_h s ! 0)" using 0(1) by (simp_all add: state_ok_def)
  ultimately show ?case using 0(1)
    by (intro exI [of _ "[]"]) (simp add: rounds_run_def round_points_sum_def scalar_module.lc_def [OF M] scalar_module.one_smul [OF M])
next
  case (Suc k)
  have M: "scalar_module (dk_smul C) good" by (rule range_lawsD(1) [OF R])
  have two: "(2 :: nat) ^ Suc k = 2 ^ k + 2 ^ k" and half: "(2 :: nat) ^ Suc k div 2 = 2 ^ k" by simp_all
  have "1 < (2 :: nat) ^ Suc k" by (rule one_less_power) simp_all
  then obtain s1 where s1: "prove_round C rand hp y y_powers yinvpow (2 ^ k) s = Inr s1" "prove_rounds C rand hp y y_powers yinvpow (2 ^ k) s1 = Inr s'"
    using Suc.prems(3) by (subst (asm) prove_rounds.simps) (auto simp: half)
  have ok: "state_ok good (2 ^ k + 2 ^ k) s" using Suc.prems(1) by (simp only: two)
  then have gd: "\<forall>i < 2 ^ Suc k. good (ro_g s ! i)" "\<forall>i < 2 ^ Suc k. good (ro_h s ! i)" unfolding two by (simp_all add: state_ok_def)
  obtain c L Q where r: "c \<noteq> 0" "good L" "good Q" "state_ok good (2 ^ k) s1"
    "ro_l s1 = ro_l s @ [stored_point C L]" "ro_r s1 = ro_r s @ [stored_point C Q]"
    "transcript_update C (ro_transcript s) [encode_point C (stored_point C L), encode_point C (stored_point C Q)] = (c, ro_transcript s1)"
    "\<And>i. i < 2 ^ k \<Longrightarrow> ro_g s1 ! i = dk_smul C (dk_invert C c) (ro_g s ! i) + dk_smul C (dk_invert C y ^ 2 ^ k * c) (ro_g s ! (2 ^ k + i))"
    "\<And>i. i < 2 ^ k \<Longrightarrow> ro_h s1 ! i = dk_smul C c (ro_h s ! i) + dk_smul C (dk_invert C c) (ro_h s ! (2 ^ k + i))"
    "state_commit C hp y (2 ^ k) s1 = state_commit C hp y (2 ^ k + 2 ^ k) s + dk_smul C (c * c) L + dk_smul C (dk_invert C c * dk_invert C c) Q"
    using prove_round_step [OF R ok hp y _ _ s1(1)] Suc.prems(2) [of k] by (auto simp: lessI)
  obtain cs Ls Qs where IH: "rounds_run C good hp y k s1 s' cs Ls Qs"
    using Suc.IH [OF r(4) _ s1(2)] Suc.prems(2) by (meson less_SucI)
  note i = IH [unfolded rounds_run_def]
  have lc: "length cs = k" using i by blast
  have g0: "ro_g s' ! 0 = scalar_module.lc (dk_smul C) (2 ^ Suc k) (fold_weight (dk_invert C y) (map (\<lambda>c. (dk_invert C c, c)) (c # cs))) (nth (ro_g s))"
    using scalar_module.lc_fold_weight [OF M, of "map (\<lambda>c. (dk_invert C c, c)) cs" "nth (ro_g s)" "nth (ro_g s1)" "dk_invert C c" "dk_invert C y" c] gd(1) r(8) i
    by (simp add: lc)
  have h0: "ro_h s' ! 0 = scalar_module.lc (dk_smul C) (2 ^ Suc k) (fold_weight 1 (map (\<lambda>c. (c, dk_invert C c)) (c # cs))) (nth (ro_h s))"
    using scalar_module.lc_fold_weight [OF M, of "map (\<lambda>c. (c, dk_invert C c)) cs" "nth (ro_h s)" "nth (ro_h s1)" c 1 "dk_invert C c"] gd(2) r(9) i
    by (simp add: lc)
  have v: "verify_challenges C (ro_transcript s) (zip (map (\<lambda>P. encode_point C (stored_point C P)) (L # Ls)) (map (\<lambda>P. encode_point C (stored_point C P)) (Q # Qs)))
       = Inr (c # cs, ro_transcript s')" using r(1,7) i by simp
  have sc: "state_commit C hp y 1 s' = state_commit C hp y (2 ^ Suc k) s + round_points_sum C (c # cs) (L # Ls) (Q # Qs)"
    unfolding two round_points_sum_Cons using r(10) i by (simp add: ac_simps)
  have "rounds_run C good hp y (Suc k) s s' (c # cs) (L # Ls) (Q # Qs)"
    unfolding rounds_run_def using i r(1-3,5,6) g0 h0 v sc by simp
  then show ?case by blast
qed


section \<open>The verification sum\<close>

lemma commitments_loop:
  "fst (fold (\<lambda>vj (acc, temp). let temp = temp * q in (acc + dk_smul C temp vj, temp)) vs (x, t)) =
    x + (\<Sum>j<length vs. dk_smul C (t * q ^ Suc j) (vs ! j))" for q :: "'s::comm_ring_1" and x :: "'p::ab_group_add"
proof (induction vs arbitrary: x t)
  case (Cons v vs)
  let ?f = "\<lambda>vj (acc, temp). let temp = temp * q in (acc + dk_smul C temp vj, temp)"
  have step: "fold ?f (v # vs) (x, t) = fold ?f vs (x + dk_smul C (t * q) v, t * q)" by (simp add: Let_def)
  show ?case unfolding step Cons.IH list.size add_0_right add_Suc_right sum.lessThan_Suc_shift by (simp add: ac_simps)
qed simp

lemma generators_loop:
  fixes acc :: "'p::ab_group_add" and yi :: "'s::comm_ring_1"
  shows "fold (\<lambda>i (acc, x, w). let g_scalar = x * cache ! i + ez; h_scalar = es * cache ! (n - 1 - i) + mz; h_scalar = h_scalar + w * d ! i;
       acc = acc + dk_smul C g_scalar (G ! i); acc = acc + dk_smul C h_scalar (H ! i) in (acc, x * yi, w * yi)) [0 ..< k] (acc, x, w) =
    (acc + (\<Sum>i<k. dk_smul C (x * yi ^ i * cache ! i + ez) (G ! i)) +
       (\<Sum>i<k. dk_smul C (es * cache ! (n - 1 - i) + mz + w * yi ^ i * d ! i) (H ! i)), x * yi ^ k, w * yi ^ k)"
  by (induction k) (simp_all add: Let_def algebra_simps)

lemma rounds_loop:
  "fold (\<lambda>j acc. let acc = acc + f j in acc + k j) [0 ..< n] acc = acc + (\<Sum>j<n. f j + k j)" for acc :: "'p::ab_group_add"
  by (induction n) (simp_all add: Let_def ac_simps)

lemma verify_sum_eq:
  fixes C :: "('s::comm_ring_1, 'p::ab_group_add) dalek" and z :: 's
  assumes R: "range_laws C good" and m: "m = 2 ^ l" and rds: "rds = l + LOG_N" and cs: "length cs = rds"
    and LQ: "length Ls = rds" "length Qs = rds" "\<forall>P \<in> set Ls \<union> set Qs. good P"
  defines "n \<equiv> m * BPP_N" and "q \<equiv> z * z" and "K \<equiv> fold_weight 1 (map (\<lambda>c. (dk_invert C c, c)) cs)"
  shows "verify_sum C gens hp m rds r1 s1 d1 y z e cs vs Ls Qs A A1 B =
    (\<Sum>j<length vs. dk_smul C (- (e * e) * (y ^ n * y) * q ^ Suc j) (vs ! j)) + dk_smul C (- 1) B + dk_smul C (- e) A1 +
    dk_smul C (- (e * e)) A + dk_smul C d1 (dk_base C) +
    dk_smul C (r1 * y * s1 + e * e * (y ^ n * y * z * ((2 ^ 64 - 1) * (\<Sum>j<m. q ^ Suc j)) + (q - z) * (\<Sum>i<n. y ^ Suc i))) hp +
    scalar_module.lc (dk_smul C) n (\<lambda>i. e * r1 * dk_invert C y ^ i * K i + e * e * z) (nth (gi gens)) +
    scalar_module.lc (dk_smul C) n (\<lambda>i. e * s1 * K (n - 1 - i) + - (e * e * z) + - (e * e) * y ^ n * dk_invert C y ^ i * fill_d (\<lambda>x. x * 2) q m ! i) (nth (hi gens)) +
    dk_smul C (- (e * e)) (round_points_sum C cs Ls Qs)"
proof -
  have M: "scalar_module (dk_smul C) good" by (rule range_lawsD(1) [OF R])
  have n: "n = 2 ^ rds" unfolding n_def m rds by (simp add: BPP_N_def LOG_N_def power_add)
  have n0: "0 < n" "0 < rds" unfolding n by (simp_all add: rds LOG_N_def)
  have dbl: "(\<lambda>x :: 's. x + x) = (\<lambda>x. x * 2)" by (simp add: fun_eq_iff mult_2_right)
  have K: "fill_cache cs (map (dk_invert C) cs) rds ! i = K i" if "i < n" for i
  proof -
    have "zip (map (dk_invert C) cs) cs = map (\<lambda>c. (dk_invert C c, c)) cs" by (induction cs) simp_all
    then show ?thesis using fill_cache_eq [of cs rds "map (dk_invert C) cs" i] cs n0 that by (simp add: K_def n)
  qed
  have rp: "(\<Sum>j<rds. dk_smul C (cs ! j * cs ! j * - (e * e)) (Ls ! j) + dk_smul C (map (dk_invert C) cs ! j * map (dk_invert C) cs ! j * - (e * e)) (Qs ! j)) =
      dk_smul C (- (e * e)) (round_points_sum C cs Ls Qs)"
  proof -
    have gd: "good (Ls ! j)" "good (Qs ! j)" if "j < rds" for j using LQ that by simp_all
    have "dk_smul C (- (e * e)) (round_points_sum C cs Ls Qs) =
        (\<Sum>j<rds. dk_smul C (- (e * e)) (dk_smul C (cs ! j * cs ! j) (Ls ! j) + dk_smul C (dk_invert C (cs ! j) * dk_invert C (cs ! j)) (Qs ! j)))"
      unfolding round_points_sum_def cs
      by (rule scalar_module.smul_sum [OF M]) (use gd scalar_module.good_plus [OF M] scalar_module.good_smul [OF M] in auto)
    also have "\<dots> = (\<Sum>j<rds. dk_smul C (cs ! j * cs ! j * - (e * e)) (Ls ! j) + dk_smul C (map (dk_invert C) cs ! j * map (dk_invert C) cs ! j * - (e * e)) (Qs ! j))"
    proof (rule sum.cong)
      fix j assume "j \<in> {..<rds}"
      then have j: "j < rds" by simp
      have sw: "dk_smul C s (dk_smul C t P) = dk_smul C (t * s) P" if "good P" for s t P
        using scalar_module.times_smul [OF M that, of s t] by (simp add: mult.commute)
      show "dk_smul C (- (e * e)) (dk_smul C (cs ! j * cs ! j) (Ls ! j) + dk_smul C (dk_invert C (cs ! j) * dk_invert C (cs ! j)) (Qs ! j)) =
          dk_smul C (cs ! j * cs ! j * - (e * e)) (Ls ! j) + dk_smul C (map (dk_invert C) cs ! j * map (dk_invert C) cs ! j * - (e * e)) (Qs ! j)"
        using gd [OF j] j cs scalar_module.smul_plus [OF M] scalar_module.good_smul [OF M] sw by simp
    qed simp
    finally show ?thesis by simp
  qed
  have lcG: "(\<Sum>i<n. dk_smul C (e * r1 * dk_invert C y ^ i * fill_cache cs (map (dk_invert C) cs) rds ! i + e * e * z) (gi gens ! i)) =
      scalar_module.lc (dk_smul C) n (\<lambda>i. e * r1 * dk_invert C y ^ i * K i + e * e * z) (nth (gi gens))"
    unfolding scalar_module.lc_def [OF M] by (rule sum.cong) (simp_all add: K)
  have lcH: "(\<Sum>i<n. dk_smul C (e * s1 * fill_cache cs (map (dk_invert C) cs) rds ! (n - 1 - i) + - (e * e * z) + - (e * e) * y ^ n * dk_invert C y ^ i * fill_d (\<lambda>x. x * 2) q m ! i) (hi gens ! i)) =
      scalar_module.lc (dk_smul C) n (\<lambda>i. e * s1 * K (n - 1 - i) + - (e * e * z) + - (e * e) * y ^ n * dk_invert C y ^ i * fill_d (\<lambda>x. x * 2) q m ! i) (nth (hi gens))"
    unfolding scalar_module.lc_def [OF M] by (rule sum.cong) (use n0 in \<open>simp_all add: K\<close>)
  show ?thesis
    unfolding verify_sum_def Let_def dbl n_def [symmetric] q_def [symmetric] square_loop_eq [of y rds, folded n] two_sixty_four_eq
      sum_of_even_powers_eq [of z l, folded m q_def] sum_of_scalar_powers_eq [OF n0(1)]
      commitments_loop [unfolded Let_def] generators_loop [unfolded Let_def] case_prod_conv rounds_loop [unfolded Let_def] rp lcG lcH by simp
qed


section \<open>The values\<close>

lemma sum_blocks: "(\<Sum>k<m * b. f k) = (\<Sum>j<m. \<Sum>i<b. f (j * b + i))" for f :: "nat \<Rightarrow> 'a::comm_monoid_add"
proof (induction m)
  case (Suc m)
  have "Suc m * b = m * b + b" by simp
  then show ?case by (simp only: sum_split Suc sum.lessThan_Suc)
qed simp

lemma word_bits_sum: "of_nat (unat v) = (\<Sum>i<64. (if bit v i then 2 ^ i else 0) :: 's::comm_ring_1)" for v :: u64
proof -
  have "unat v = take_bit 64 (unat v)" using unat_bound [of v] by (simp add: take_bit_nat_eq_self)
  also have "\<dots> = (\<Sum>i = 0..<64. push_bit i (of_bool (bit (unat v) i)))" by (rule take_bit_sum)
  also have "\<dots> = (\<Sum>i<64. if bit v i then 2 ^ i else 0)"
    by (rule sum.cong) (simp_all add: lessThan_atLeast0 bit_unsigned_iff push_bit_eq_mult)
  finally have "of_nat (unat v) = (of_nat (\<Sum>i<64. if bit v i then 2 ^ i else 0) :: 's)" by simp
  then show ?thesis by (simp add: if_distrib cong: if_cong)
qed

lemma geometric_two: "(\<Sum>i<n. 2 ^ i) = (2 ^ n - 1 :: 's::comm_ring_1)"
  by (induction n) (simp_all add: algebra_simps)

lemma d_sums:
  fixes q :: "'s::comm_ring_1"
  assumes "0 < m"
  defines "d \<equiv> fill_d (\<lambda>x. x * 2) q m"
  shows "(\<Sum>k<m * BPP_N. d ! k) = (2 ^ 64 - 1) * (\<Sum>j<m. q ^ Suc j)"
    "length values \<le> m \<Longrightarrow>
      (\<Sum>k<m * BPP_N. (if value_bit values k then 1 else 0) * d ! k) = (\<Sum>j<length values. q ^ Suc j * of_nat (unat (values ! j)))"
proof -
  have d: "d ! (j * BPP_N + i) = q ^ Suc j * 2 ^ i" if "j < m" "i < BPP_N" for i j
    unfolding d_def using fill_d_nth [of "\<lambda>x. x * 2" m j i q] assms(1) that by simp
  have "(\<Sum>k<m * BPP_N. d ! k) = (\<Sum>j<m. q ^ Suc j * (\<Sum>i<BPP_N. 2 ^ i))"
    unfolding sum_blocks sum_distrib_left by (intro sum.cong) (simp_all add: d)
  also have "\<dots> = (\<Sum>j<m. q ^ Suc j * (2 ^ 64 - 1))" by (simp only: geometric_two BPP_N_def)
  finally show "(\<Sum>k<m * BPP_N. d ! k) = (2 ^ 64 - 1) * (\<Sum>j<m. q ^ Suc j)" by (simp only: sum_distrib_right mult.commute)
  assume l: "length values \<le> m"
  have vb: "value_bit values (j * BPP_N + i) \<longleftrightarrow> j < length values \<and> bit (values ! j) i" if "i < BPP_N" for i j
    using that by (simp add: value_bit_def)
  have "(\<Sum>k<m * BPP_N. (if value_bit values k then 1 else 0) * d ! k) =
      (\<Sum>j<m. if j < length values then q ^ Suc j * (\<Sum>i<BPP_N. if bit (values ! j) i then 2 ^ i else 0) else 0)"
    unfolding sum_blocks
  proof (rule sum.cong)
    fix j assume "j \<in> {..<m}"
    then show "(\<Sum>i<BPP_N. (if value_bit values (j * BPP_N + i) then 1 else 0) * d ! (j * BPP_N + i)) =
        (if j < length values then q ^ Suc j * (\<Sum>i<BPP_N. if bit (values ! j) i then 2 ^ i else 0) else 0)"
      by (auto simp: sum_distrib_left vb d intro!: sum.cong sum.neutral)
  qed simp
  also have "\<dots> = (\<Sum>j<m. if j < length values then q ^ Suc j * of_nat (unat (values ! j)) else 0)"
    by (simp only: word_bits_sum BPP_N_def)
  also have "\<dots> = (\<Sum>j<length values. q ^ Suc j * of_nat (unat (values ! j)))"
    using l by (intro sum.mono_neutral_cong_right) auto
  finally show "(\<Sum>k<m * BPP_N. (if value_bit values k then 1 else 0) * d ! k) = (\<Sum>j<length values. q ^ Suc j * of_nat (unat (values ! j)))" .
qed

text \<open>The inner product of the two shifted bit vectors.\<close>

lemma range_identity:
  fixes y z :: "'s::comm_ring_1"
  assumes "0 < m" "length values \<le> m"
  defines "n \<equiv> m * BPP_N" and "q \<equiv> z * z"
  shows "wip n (\<lambda>k. (if value_bit values k then 1 else 0) - z)
      (\<lambda>k. (if value_bit values k then 0 else - 1) + z + fill_d (\<lambda>x. x * 2) q m ! k * y ^ (n - k)) y =
    (z - q) * (\<Sum>k<n. y ^ Suc k) + y ^ n * y * (\<Sum>j<length values. q ^ Suc j * of_nat (unat (values ! j))) -
    y ^ n * y * z * ((2 ^ 64 - 1) * (\<Sum>j<m. q ^ Suc j))"
proof -
  let ?d = "fill_d (\<lambda>x. x * 2) q m" and ?l = "\<lambda>k. if value_bit values k then 1 else 0 :: 's"
  have "((if B then 1 else 0) - z) * ((if B then 0 else - 1) + z + dk * Y) * W = (z - q) * W + Y * W * ((if B then 1 else 0) * dk) - Y * W * z * dk"
    for B dk Y W by (cases B) (simp_all add: q_def algebra_simps)
  then have "wip n (\<lambda>k. ?l k - z) (\<lambda>k. (if value_bit values k then 0 else - 1) + z + ?d ! k * y ^ (n - k)) y =
      (\<Sum>k<n. (z - q) * y ^ Suc k + y ^ (n - k) * y ^ Suc k * (?l k * ?d ! k) - y ^ (n - k) * y ^ Suc k * z * ?d ! k)"
    by (simp only: wip_def)
  also have "\<dots> = (\<Sum>k<n. (z - q) * y ^ Suc k + y ^ n * y * (?l k * ?d ! k) - y ^ n * y * z * ?d ! k)"
  proof (rule sum.cong)
    fix k assume "k \<in> {..<n}"
    then have "n - k + Suc k = Suc n" by simp
    then have "y ^ (n - k) * y ^ Suc k = y ^ n * y" by (metis power_add power_Suc mult.commute)
    then show "(z - q) * y ^ Suc k + y ^ (n - k) * y ^ Suc k * (?l k * ?d ! k) - y ^ (n - k) * y ^ Suc k * z * ?d ! k =
      (z - q) * y ^ Suc k + y ^ n * y * (?l k * ?d ! k) - y ^ n * y * z * ?d ! k" by simp
  qed simp
  also have "\<dots> = (z - q) * (\<Sum>k<n. y ^ Suc k) + y ^ n * y * (\<Sum>k<n. ?l k * ?d ! k) - y ^ n * y * z * (\<Sum>k<n. ?d ! k)"
    by (simp only: sum.distrib sum_subtractf sum_distrib_left)
  finally show ?thesis unfolding n_def d_sums(1) [OF assms(1)] d_sums(2) [OF assms(1,2)] .
qed


section \<open>The sum is zero\<close>

lemma mul8_all_stored:
  assumes "range_laws C good"
  shows "\<forall>P \<in> set Ps. good P \<Longrightarrow> mul8_all C (map (\<lambda>P. encode_point C (stored_point C P)) Ps) = Inr Ps"
  by (induction Ps) (simp_all add: mul8_of_stored [OF assms])

text \<open>What the prover put together, as the verifier sees it.\<close>

end
