(* ===== verification/BppSum.thy ===== *)
theory BppSum
  imports BppRounds
begin

text \<open>
  The verification sum vanishes on what an honest prover puts together: coefficient by coefficient on
  both families of generators, on \<open>H\<close> and on the base point.
\<close>

lemma sum_cancels:
  fixes C :: "('s::comm_ring_1, 'p::ab_group_add) dalek" and z y e :: 's
  assumes R: "range_laws C good" and m: "m = 2 ^ l" and len: "length values \<le> m" "length masks = length values"
    and gens: "scalar_module.basis good (m * BPP_N) (nth (gi gens)) (nth (hi gens)) hp (dk_base C)" and y: "y \<noteq> 0"
    and run: "rounds_run C good hp y (l + LOG_N) s s' cs Ls Qs"
  defines "n \<equiv> m * BPP_N" and "q \<equiv> z * z"
  defines "cmb \<equiv> scalar_module.cm (dk_smul C) n (nth (gi gens)) (nth (hi gens)) hp (dk_base C)"
  defines "aL \<equiv> \<lambda>k. if value_bit values k then 1 else 0 :: 's" and "aR \<equiv> \<lambda>k. if value_bit values k then 0 else - 1 :: 's"
  defines "bp \<equiv> \<lambda>k. aR k + z + fill_d (\<lambda>x. x * 2) q m ! k * y ^ (n - k)"
  assumes s: "state_commit C hp y n s = cmb (\<lambda>k. aL k - z) bp (wip n (\<lambda>k. aL k - z) bp y)
      (alpha + y ^ n * y * (\<Sum>j<length values. q ^ Suc j * masks ! j))"
    and gh: "\<And>i. i < n \<Longrightarrow> ro_g s ! i = gi gens ! i" "\<And>i. i < n \<Longrightarrow> ro_h s ! i = hi gens ! i"
  shows "verify_sum C gens hp m (l + LOG_N) (ro_a s' ! 0 * e + rr) (ro_b s' ! 0 * e + ss) (dd * e + eta + ro_alpha s' * (e * e)) y z e cs
    (map (\<lambda>(val, gamma). dk_smul C gamma (dk_base C) + dk_smul C (of_nat (unat val)) hp) (zip values masks)) Ls Qs
    (cmb aL aR 0 alpha)
    (dk_smul C rr (ro_g s' ! 0) + dk_smul C ss (ro_h s' ! 0) + dk_smul C dd (dk_base C) + dk_smul C (rr * y * ro_b s' ! 0 + ss * y * ro_a s' ! 0) hp)
    (dk_smul C eta (dk_base C) + dk_smul C (rr * y * ss) hp) = 0"
proof -
  have M: "scalar_module (dk_smul C) good" by (rule range_lawsD(1) [OF R])
  note B = gens [folded n_def]
  have n: "n = 2 ^ (l + LOG_N)" unfolding n_def m by (simp add: BPP_N_def LOG_N_def power_add)
  have m0: "0 < m" by (simp add: m)
  define a0 b0 W where "a0 = ro_a s' ! 0" and "b0 = ro_b s' ! 0" and "W = fold_weight 1 (map (\<lambda>c. (dk_invert C c, c)) cs)"
  note rn = run [unfolded rounds_run_def]
  have lcs: "length cs = l + LOG_N" "length Ls = l + LOG_N" "length Qs = l + LOG_N" "\<forall>P \<in> set Ls \<union> set Qs. good P" using rn by blast+
  have gd: "\<forall>i < n. good (gi gens ! i)" "\<forall>i < n. good (hi gens ! i)" "good hp" "good (dk_base C)"
    using B by (simp_all add: scalar_module.basis_def [OF M])
  let ?lc = "scalar_module.lc (dk_smul C) n"
  note cmd = scalar_module.cm_def [OF M, of n "nth (gi gens)" "nth (hi gens)" hp "dk_base C", folded cmb_def]
  note plus = scalar_module.cm_plus [OF M B, folded cmb_def] and smul = scalar_module.cm_smul [OF M B, folded cmb_def]
  note z0 = scalar_module.lc_zero [OF M gd(1)] scalar_module.lc_zero [OF M gd(2)] scalar_module.zero_smul [OF M gd(3)] scalar_module.zero_smul [OF M gd(4)]
  define G H where "G = (\<lambda>i. dk_invert C y ^ i * W i)" and "H = (\<lambda>i. W (n - 1 - i))"
  have g0: "ro_g s' ! 0 = cmb G (\<lambda>_. 0) 0 0"
  proof -
    have "ro_g s' ! 0 = ?lc (fold_weight (dk_invert C y) (map (\<lambda>c. (dk_invert C c, c)) cs)) (nth (ro_g s))" unfolding n using rn by blast
    also have "\<dots> = ?lc G (nth (gi gens))"
    proof (rule scalar_module.lc_cong [OF M])
      fix i assume i: "i < n"
      then show "ro_g s ! i = gi gens ! i" by (rule gh(1))
      show "fold_weight (dk_invert C y) (map (\<lambda>c. (dk_invert C c, c)) cs) i = G i"
        using fold_weight_power [of i "map (\<lambda>c. (dk_invert C c, c)) cs" "dk_invert C y"] i lcs(1) by (simp only: G_def W_def n length_map)
    qed
    finally show ?thesis by (simp add: cmd z0)
  qed
  have h0: "ro_h s' ! 0 = cmb (\<lambda>_. 0) H 0 0"
  proof -
    have "ro_h s' ! 0 = ?lc (fold_weight 1 (map (\<lambda>c. (c, dk_invert C c)) cs)) (nth (ro_h s))" unfolding n using rn by blast
    also have "\<dots> = ?lc H (nth (hi gens))"
    proof (rule scalar_module.lc_cong [OF M])
      fix i assume i: "i < n"
      then show "ro_h s ! i = hi gens ! i" by (rule gh(2))
      have "map (\<lambda>c. (c, dk_invert C c)) cs = map (\<lambda>(a, b). (b, a)) (map (\<lambda>c. (dk_invert C c, c)) cs)" by simp
      then show "fold_weight 1 (map (\<lambda>c. (c, dk_invert C c)) cs) i = H i"
        using fold_weight_mirror [of i "map (\<lambda>c. (dk_invert C c, c)) cs"] i lcs(1) by (simp only: H_def W_def n length_map)
    qed
    finally show ?thesis by (simp add: cmd z0)
  qed
  have b: "dk_smul C x (dk_base C) = cmb (\<lambda>_. 0) (\<lambda>_. 0) 0 x" "dk_smul C x hp = cmb (\<lambda>_. 0) (\<lambda>_. 0) x 0" for x
    by (simp_all add: cmd z0)
  define al1 where "al1 = alpha + y ^ n * y * (\<Sum>j<length values. q ^ Suc j * masks ! j)"
  define wp where "wp = wip n (\<lambda>k. aL k - z) bp y"
  have one: "state_commit C hp y 1 s' = cmb (\<lambda>i. a0 * G i) (\<lambda>i. b0 * H i) (a0 * b0 * y) (ro_alpha s')"
  proof -
    have "state_commit C hp y 1 s' = dk_smul C a0 (ro_g s' ! 0) + dk_smul C b0 (ro_h s' ! 0) + dk_smul C (a0 * b0 * y) hp + dk_smul C (ro_alpha s') (dk_base C)"
      by (simp add: state_commit_def scalar_module.cm_def [OF M] scalar_module.lc_def [OF M] wip_def a0_def b0_def)
    also have "\<dots> = cmb (\<lambda>i. a0 * G i) (\<lambda>i. b0 * H i) (a0 * b0 * y) (ro_alpha s')"
      unfolding g0 h0 b smul plus by simp
    finally show ?thesis .
  qed
  have neg: "dk_smul C (- 1) (cmb f k x w) = - cmb f k x w" for f k x w
    using scalar_module.minus_smul [OF M scalar_module.cm_good [OF M B, folded cmb_def], of 1]
      scalar_module.one_smul [OF M scalar_module.cm_good [OF M B, folded cmb_def]] by simp
  have RP: "round_points_sum C cs Ls Qs = cmb (\<lambda>i. a0 * G i + - 1 * (aL i - z)) (\<lambda>i. b0 * H i + - 1 * bp i) (a0 * b0 * y + - 1 * wp) (ro_alpha s' + - 1 * al1)"
  proof -
    have "state_commit C hp y 1 s' = state_commit C hp y n s + round_points_sum C cs Ls Qs" unfolding n using rn by blast
    then have "round_points_sum C cs Ls Qs = state_commit C hp y 1 s' + - state_commit C hp y n s" by simp
    then show ?thesis unfolding one s wp_def [symmetric] al1_def [symmetric] neg [symmetric] smul plus .
  qed
  define k where "k = - (e * e) * (y ^ n * y)"
  define Sv Sg where "Sv = (\<Sum>j<length values. q ^ Suc j * of_nat (unat (values ! j)))" and "Sg = (\<Sum>j<length values. q ^ Suc j * masks ! j)"
  let ?vs = "map (\<lambda>(val, gamma). dk_smul C gamma (dk_base C) + dk_smul C (of_nat (unat val)) hp) (zip values masks)"
  have V: "(\<Sum>j<length ?vs. dk_smul C (k * q ^ Suc j) (?vs ! j)) = cmb (\<lambda>_. 0) (\<lambda>_. 0) (k * Sv) (k * Sg)"
  proof -
    have "(\<Sum>j<length ?vs. dk_smul C (k * q ^ Suc j) (?vs ! j)) =
        (\<Sum>j<length values. dk_smul C (k * (q ^ Suc j * masks ! j)) (dk_base C) + dk_smul C (k * (q ^ Suc j * of_nat (unat (values ! j)))) hp)"
    proof (rule sum.cong)
      show "{..<length ?vs} = {..<length values}" using len(2) by simp
      fix j assume "j \<in> {..<length values}"
      then show "dk_smul C (k * q ^ Suc j) (?vs ! j) =
          dk_smul C (k * (q ^ Suc j * masks ! j)) (dk_base C) + dk_smul C (k * (q ^ Suc j * of_nat (unat (values ! j)))) hp"
        using len(2) gd(3,4) scalar_module.smul_plus [OF M] scalar_module.good_smul [OF M]
        by (simp add: mult.assoc flip: scalar_module.times_smul [OF M gd(3)] scalar_module.times_smul [OF M gd(4)])
    qed
    also have "\<dots> = dk_smul C (k * Sg) (dk_base C) + dk_smul C (k * Sv) hp"
      by (simp only: sum.distrib scalar_module.sum_smul [OF M gd(3)] scalar_module.sum_smul [OF M gd(4)] sum_distrib_left Sv_def Sg_def)
    finally show ?thesis unfolding b plus by simp
  qed
  have lcs2: "?lc f (nth (gi gens)) = cmb f (\<lambda>_. 0) 0 0" "?lc f (nth (hi gens)) = cmb (\<lambda>_. 0) f 0 0" for f by (simp_all add: cmd z0)
  have yn: "y ^ n * dk_invert C y ^ i = y ^ (n - i)" if "i < n" for i
  proof -
    have "y ^ n = y ^ (n - i) * y ^ i" using that by (simp flip: power_add)
    moreover have "y ^ i * dk_invert C y ^ i = 1" using range_lawsD(4) [OF R y] by (simp flip: power_mult_distrib)
    ultimately show ?thesis by (simp add: mult.assoc)
  qed
  have wpe: "wp = (z - q) * (\<Sum>i<n. y ^ Suc i) + y ^ n * y * Sv - y ^ n * y * z * ((2 ^ 64 - 1) * (\<Sum>j<m. q ^ Suc j))"
    using range_identity [OF m0 len(1), of z y] by (simp only: wp_def aL_def aR_def bp_def n_def q_def Sv_def)
  have zero: "cmb f k x w = 0" if "\<And>i. i < n \<Longrightarrow> f i = 0" "\<And>i. i < n \<Longrightarrow> k i = 0" "x = 0" "w = 0" for f k x w
    unfolding scalar_module.cm_zero [OF M B, folded cmb_def, symmetric] cmb_def by (rule scalar_module.cm_cong [OF M]) (use that in auto)
  show ?thesis
    unfolding verify_sum_eq [OF R m refl lcs(1,2,3,4)] n_def [symmetric] q_def [symmetric] k_def [symmetric] V RP W_def [symmetric]
    unfolding g0 h0 a0_def [symmetric] b0_def [symmetric] b lcs2 smul plus
    apply (rule zero)
       prefer 4
    subgoal by (simp add: al1_def Sg_def k_def algebra_simps)
       prefer 3
    subgoal by (simp add: wpe k_def algebra_simps)
    subgoal for i by (simp add: G_def algebra_simps)
    subgoal for i using yn [of i] by (simp add: H_def bp_def algebra_simps)
    done
qed

end
