(* ===== verification/BppComplete.thy ===== *)
theory BppComplete
  imports BppSum
begin

text \<open>
  Completeness of the range proof: an attempt of the prover that meets no zero challenge is accepted by
  the verifier.
\<close>

section \<open>An attempt verifies\<close>

lemma stored_scaled:
  assumes "range_laws C good" "good P"
  shows "dk_smul C (s * bpp_inv_eight C) P = stored_point C (dk_smul C s P)"
  using scalar_module.times_smul [OF range_lawsD(1) [OF assms(1)] assms(2), of "bpp_inv_eight C" s] by (simp add: mult.commute)

lemma stored_plus:
  assumes "range_laws C good" "good P" "good Q"
  shows "stored_point C P + stored_point C Q = stored_point C (P + Q)"
  using scalar_module.smul_plus [OF range_lawsD(1) [OF assms(1)] assms(2,3)] by simp

lemma fill_bits_nth [simp]: "i < m * BPP_N \<Longrightarrow> fill_bits values m a b ! i = (if value_bit values i then a else b)"
  and fill_bits_length [simp]: "length (fill_bits values m a b) = m * BPP_N"
  by (simp_all add: fill_bits_def)

text \<open>The commitment to the bit vectors.\<close>

lemma bits_point:
  fixes C :: "('s::comm_ring_1, 'p::ab_group_add) dalek"
  assumes R: "range_laws C good" and B: "scalar_module.basis good (m * BPP_N) (nth (gi gens)) (nth (hi gens)) hp (dk_base C)"
  shows "fold (\<lambda>i acc. acc + (dk_smul C (fill_bits values m (bpp_inv_eight C) 0 ! i) (gi gens ! i) +
       dk_smul C (fill_bits values m 0 (- bpp_inv_eight C) ! i) (hi gens ! i))) [0 ..< m * BPP_N] 0 + dk_smul C (alpha * bpp_inv_eight C) (dk_base C) =
    stored_point C (scalar_module.cm (dk_smul C) (m * BPP_N) (nth (gi gens)) (nth (hi gens)) hp (dk_base C)
      (\<lambda>k. if value_bit values k then 1 else 0) (\<lambda>k. if value_bit values k then 0 else - 1) 0 alpha)" (is "fold (\<lambda>i acc. acc + (?f i + ?k i)) _ _ + _ = _")
proof -
  have M: "scalar_module (dk_smul C) good" by (rule range_lawsD(1) [OF R])
  have gd: "good hp" "good (dk_base C)" using B by (simp_all add: scalar_module.basis_def [OF M])
  have fold: "fold (\<lambda>i acc. acc + (f i + k i)) [0 ..< n] 0 = (\<Sum>i<n. f i) + (\<Sum>i<n. k i)" for f k :: "nat \<Rightarrow> 'p" and n
    by (induction n) (simp_all add: algebra_simps)
  have "(\<Sum>i<m * BPP_N. ?f i) = scalar_module.lc (dk_smul C) (m * BPP_N) (\<lambda>k. bpp_inv_eight C * (if value_bit values k then 1 else 0)) (nth (gi gens))"
    "(\<Sum>i<m * BPP_N. ?k i) = scalar_module.lc (dk_smul C) (m * BPP_N) (\<lambda>k. bpp_inv_eight C * (if value_bit values k then 0 else - 1)) (nth (hi gens))"
    unfolding scalar_module.lc_def [OF M] by (auto intro!: sum.cong)
  then show ?thesis unfolding scalar_module.cm_smul [OF M B] fold
    by (simp add: scalar_module.cm_def [OF M] scalar_module.zero_smul [OF M gd(1)] mult.commute)
qed

text \<open>The state the rounds start from.\<close>

definition first_state :: "('s::comm_ring_1, 'p::ab_group_add) dalek \<Rightarrow> 'p Generators \<Rightarrow> u64 list \<Rightarrow> 's list \<Rightarrow> usize \<Rightarrow> 's \<Rightarrow> 's \<Rightarrow> 's \<Rightarrow> nat \<Rightarrow> ('s, 'p) rounds" where
  "first_state C gens values masks m y z alpha k =
     (let mn = m * BPP_N; y_powers = scalar_powers y (mn + 2) in
      \<lparr>ro_a = map (\<lambda>x. x - z) (fill_bits values m 1 0),
       ro_b = map (\<lambda>i. fill_bits values m 0 (- 1) ! i + z + fill_d (\<lambda>x. x * 2) (z * z) m ! i * y_powers ! (mn - i)) [0 ..< mn],
       ro_g = take mn (gi gens), ro_h = take mn (hi gens),
       ro_alpha = fst (fold (\<lambda>gamma (alpha1, temp). let temp = temp * (z * z) in (alpha1 + y_powers ! (mn + 1) * temp * gamma, temp))
                     (take (length values) masks) (alpha, 1)),
       ro_l = [], ro_r = [], ro_transcript = dk_to_bytes C z, ro_draw = k\<rparr>)"

lemma first_state_commit:
  fixes C :: "('s::comm_ring_1, 'p::ab_group_add) dalek" and z y :: 's
  assumes R: "range_laws C good" and len: "length masks = length values"
    and gl: "m * BPP_N \<le> length (gi gens)" "m * BPP_N \<le> length (hi gens)" "\<forall>P \<in> set (gi gens) \<union> set (hi gens). good P"
  defines "n \<equiv> m * BPP_N" and "q \<equiv> z * z"
  defines "aL \<equiv> \<lambda>k. if value_bit values k then 1 else 0 :: 's" and "aR \<equiv> \<lambda>k. if value_bit values k then 0 else - 1 :: 's"
  defines "bp \<equiv> \<lambda>k. aR k + z + fill_d (\<lambda>x. x * 2) q m ! k * y ^ (n - k)"
  shows "state_ok good n (first_state C gens values masks m y z alpha k)"
    "state_commit C hp y n (first_state C gens values masks m y z alpha k) =
      scalar_module.cm (dk_smul C) n (nth (gi gens)) (nth (hi gens)) hp (dk_base C) (\<lambda>k. aL k - z) bp (wip n (\<lambda>k. aL k - z) bp y)
      (alpha + y ^ n * y * (\<Sum>j<length values. q ^ Suc j * masks ! j))"
proof -
  have M: "scalar_module (dk_smul C) good" by (rule range_lawsD(1) [OF R])
  let ?s = "first_state C gens values masks m y z alpha k"
  have g: "ro_g ?s ! i = gi gens ! i" "ro_h ?s ! i = hi gens ! i" if "i < n" for i
    using that by (simp_all add: first_state_def Let_def n_def)
  show "state_ok good n ?s" using gl g by (simp add: state_ok_def) (simp add: first_state_def Let_def n_def)
  have a: "ro_a ?s ! i = aL i - z" "ro_b ?s ! i = bp i" if "i < n" for i
    using that by (simp_all add: first_state_def Let_def n_def aL_def bp_def aR_def q_def scalar_powers_nth)
  have al: "ro_alpha ?s = alpha + y ^ n * y * (\<Sum>j<length values. q ^ Suc j * masks ! j)"
  proof -
    have "scalar_powers y (n + 2) ! (n + 1) = y ^ n * y" by (simp add: scalar_powers_nth)
    then show ?thesis using len by (simp add: first_state_def Let_def n_def [symmetric] q_def [symmetric] alpha_loop [unfolded Let_def])
  qed
  show "state_commit C hp y n ?s = scalar_module.cm (dk_smul C) n (nth (gi gens)) (nth (hi gens)) hp (dk_base C) (\<lambda>k. aL k - z) bp (wip n (\<lambda>k. aL k - z) bp y)
      (alpha + y ^ n * y * (\<Sum>j<length values. q ^ Suc j * masks ! j))"
    unfolding state_commit_def al using g a
    by (simp add: scalar_module.cm_def [OF M] cong: scalar_module.lc_cong [OF M] wip_cong)
qed

text \<open>The end of an attempt, from the state the rounds leave.\<close>

definition first_point :: "('s::comm_ring_1, 'p::ab_group_add) dalek \<Rightarrow> 'p \<Rightarrow> 's \<Rightarrow> (nat \<Rightarrow> 's) \<Rightarrow> ('s, 'p) rounds \<Rightarrow> 'p" where
  "first_point C hp y rand s =
     dk_smul C (rand (ro_draw s)) (ro_g s ! 0) + dk_smul C (rand (ro_draw s + 1)) (ro_h s ! 0) + dk_smul C (rand (ro_draw s + 2)) (dk_base C)
     + dk_smul C (rand (ro_draw s) * y * ro_b s ! 0 + rand (ro_draw s + 1) * y * ro_a s ! 0) hp"

definition second_point :: "('s::comm_ring_1, 'p::ab_group_add) dalek \<Rightarrow> 'p \<Rightarrow> 's \<Rightarrow> (nat \<Rightarrow> 's) \<Rightarrow> ('s, 'p) rounds \<Rightarrow> 'p" where
  "second_point C hp y rand s =
     dk_smul C (rand (ro_draw s + 3)) (dk_base C) + dk_smul C (rand (ro_draw s) * y * rand (ro_draw s + 1)) hp"

definition last_proof :: "('s::comm_ring_1, 'p::ab_group_add) dalek \<Rightarrow> 'p \<Rightarrow> 's \<Rightarrow> (nat \<Rightarrow> 's) \<Rightarrow> ('s, 'p) rounds \<Rightarrow> 's \<Rightarrow> EcPoint list \<Rightarrow> EcPoint \<Rightarrow> RangeProof" where
  "last_proof C hp y rand s e v a =
     \<lparr>rp_v = v, rp_a = a, rp_a1 = encode_point C (stored_point C (first_point C hp y rand s)), rp_b = encode_point C (stored_point C (second_point C hp y rand s)),
      rp_r1 = dk_to_bytes C (ro_a s ! 0 * e + rand (ro_draw s)), rp_s1 = dk_to_bytes C (ro_b s ! 0 * e + rand (ro_draw s + 1)),
      rp_d1 = dk_to_bytes C (rand (ro_draw s + 2) * e + rand (ro_draw s + 3) + ro_alpha s * (e * e)),
      rp_l = map (encode_point C) (ro_l s), rp_r = map (encode_point C) (ro_r s)\<rparr>"

lemma last_points:
  assumes R: "range_laws C good" and gd: "good hp" "good (ro_g s ! 0)" "good (ro_h s ! 0)"
  shows "dk_smul C (rand (ro_draw s) * bpp_inv_eight C) (ro_g s ! 0) + dk_smul C (rand (ro_draw s + 1) * bpp_inv_eight C) (ro_h s ! 0)
      + dk_smul C (rand (ro_draw s + 2) * bpp_inv_eight C) (dk_base C)
      + dk_smul C ((rand (ro_draw s) * y * ro_b s ! 0 + rand (ro_draw s + 1) * y * ro_a s ! 0) * bpp_inv_eight C) hp = stored_point C (first_point C hp y rand s)"
    "dk_smul C (rand (ro_draw s + 3) * bpp_inv_eight C) (dk_base C) + dk_smul C (rand (ro_draw s) * y * rand (ro_draw s + 1) * bpp_inv_eight C) hp =
      stored_point C (second_point C hp y rand s)"
    "good (first_point C hp y rand s)" "good (second_point C hp y rand s)"
proof -
  note gs = scalar_module.good_smul [OF range_lawsD(1) [OF R]] and gp = scalar_module.good_plus [OF range_lawsD(1) [OF R]]
  have g: "good (dk_base C)" by (rule range_lawsD(2) [OF R])
  show "dk_smul C (rand (ro_draw s) * bpp_inv_eight C) (ro_g s ! 0) + dk_smul C (rand (ro_draw s + 1) * bpp_inv_eight C) (ro_h s ! 0)
      + dk_smul C (rand (ro_draw s + 2) * bpp_inv_eight C) (dk_base C)
      + dk_smul C ((rand (ro_draw s) * y * ro_b s ! 0 + rand (ro_draw s + 1) * y * ro_a s ! 0) * bpp_inv_eight C) hp = stored_point C (first_point C hp y rand s)"
    by (simp only: stored_scaled [OF R] stored_plus [OF R] gd g gs gp first_point_def)
  show "dk_smul C (rand (ro_draw s + 3) * bpp_inv_eight C) (dk_base C) + dk_smul C (rand (ro_draw s) * y * rand (ro_draw s + 1) * bpp_inv_eight C) hp =
      stored_point C (second_point C hp y rand s)"
    by (simp only: stored_scaled [OF R] stored_plus [OF R] gd g gs gp second_point_def)
  show "good (first_point C hp y rand s)" "good (second_point C hp y rand s)"
    unfolding first_point_def second_point_def by (intro gp gs gd g)+
qed

definition commitments :: "('s::comm_ring_1, 'p::ab_group_add) dalek \<Rightarrow> 'p \<Rightarrow> u64 list \<Rightarrow> 's list \<Rightarrow> 'p list" where
  "commitments C hp values masks = map (\<lambda>(val, gamma). dk_smul C gamma (dk_base C) + dk_smul C (of_nat (unat val)) hp) (zip values masks)"

lemma stored_commitments:
  assumes R: "range_laws C good" and hp: "good hp"
  shows "map (\<lambda>(val, gamma). dk_smul C (gamma * bpp_inv_eight C) (dk_base C) + dk_smul C (of_nat (unat val) * bpp_inv_eight C) hp) (zip values masks) =
      map (stored_point C) (commitments C hp values masks)"
    "\<forall>P \<in> set (commitments C hp values masks). good P"
proof -
  note gs = scalar_module.good_smul [OF range_lawsD(1) [OF R]] and gp = scalar_module.good_plus [OF range_lawsD(1) [OF R]]
  have g: "good (dk_base C)" by (rule range_lawsD(2) [OF R])
  show "map (\<lambda>(val, gamma). dk_smul C (gamma * bpp_inv_eight C) (dk_base C) + dk_smul C (of_nat (unat val) * bpp_inv_eight C) hp) (zip values masks) =
      map (stored_point C) (commitments C hp values masks)"
    unfolding commitments_def map_map by (rule map_cong) (simp_all only: o_def case_prod_unfold stored_scaled [OF R] stored_plus [OF R] hp g gs)
  show "\<forall>P \<in> set (commitments C hp values masks). good P"
    unfolding commitments_def using g hp gs gp by auto
qed

lemma rounds_run_good:
  assumes "rounds_run C good hp y k s s' cs Ls Qs"
  shows "good (ro_g s' ! 0)" "good (ro_h s' ! 0)"
proof -
  have "state_ok good 1 s'" using assms unfolding rounds_run_def by (elim conjE)
  then show "good (ro_g s' ! 0)" "good (ro_h s' ! 0)" by (simp_all add: state_ok_def)
qed

text \<open>An attempt that does not stop at a zero challenge, its transcript and its state.\<close>

lemma attempt_Inr:
  fixes C :: "('s::comm_ring_1, 'p::ab_group_add) dalek"
  assumes R: "range_laws C good" and hp: "good hp" and l: "m = 2 ^ l"
    and gl: "m * BPP_N \<le> length (gi gens)" "m * BPP_N \<le> length (hi gens)" "\<forall>P \<in> set (gi gens) \<union> set (hi gens). good P"
    and len: "length masks = length values"
    and att: "attempt C (map (stored_point C) vs) (fill_bits values m 1 0) (fill_bits values m 0 (- 1)) (fill_bits values m (bpp_inv_eight C) 0)
       (fill_bits values m 0 (- bpp_inv_eight C)) masks (length values) m (m * BPP_N) gens hp rand k = Inr prf"
  defines "A \<equiv> scalar_module.cm (dk_smul C) (m * BPP_N) (nth (gi gens)) (nth (hi gens)) hp (dk_base C)
      (\<lambda>k. if value_bit values k then 1 else 0) (\<lambda>k. if value_bit values k then 0 else - 1) 0 (rand k)"
  defines "V \<equiv> map (\<lambda>P. encode_point C (stored_point C P)) vs"
  obtains x t1 y t2 z s cs Ls Qs e t3 where
    "transcript_update C (initial_transcript gens) [bytes_hash C V] = (x, t1)"
    "transcript_update C t1 [encode_point C (stored_point C A)] = (y, t2)" "y \<noteq> 0" "z = hash_to_scalar_dalek C (dk_to_bytes C y)" "z \<noteq> 0"
    "rounds_run C good hp y (l + LOG_N) (first_state C gens values masks m y z (rand k) (k + 1)) s cs Ls Qs"
    "transcript_update C (ro_transcript s) [encode_point C (stored_point C (first_point C hp y rand s)), encode_point C (stored_point C (second_point C hp y rand s))] = (e, t3)"
    "e \<noteq> 0" "prf = last_proof C hp y rand s e V (encode_point C (stored_point C A))"
proof -
  have M: "scalar_module (dk_smul C) good" by (rule range_lawsD(1) [OF R])
  have B: "scalar_module.basis good (m * BPP_N) (nth (gi gens)) (nth (hi gens)) hp (dk_base C)"
    using gl hp range_lawsD(2) [OF R] by (simp add: scalar_module.basis_def [OF M])
  have n: "m * BPP_N = 2 ^ (l + LOG_N)" unfolding l by (simp add: BPP_N_def LOG_N_def power_add)
  have Vm: "map (encode_point C) (map (stored_point C) vs) = V" by (simp add: V_def o_def)
  obtain x t1 where u1: "transcript_update C (initial_transcript gens) [bytes_hash C V] = (x, t1)" by fastforce
  obtain y t2 where u2: "transcript_update C t1 [encode_point C (stored_point C A)] = (y, t2)" by fastforce
  define z where "z = hash_to_scalar_dalek C (dk_to_bytes C y)"
  define yp where "yp = scalar_powers y (m * BPP_N + 2)"
  define yi where "yi = fold (\<lambda>i v. v[i := v ! (i - 1) * dk_invert C y]) [1 ..< m * BPP_N] (replicate (m * BPP_N) 1)"
  let ?s0 = "first_state C gens values masks m y z (rand k) (k + 1)"
  define fin where "fin = (\<lambda>s :: ('s, 'p) rounds.
         let r_s = rand (ro_draw s); s_s = rand (ro_draw s + 1); d_s = rand (ro_draw s + 2); eta = rand (ro_draw s + 3);
             a1 = dk_smul C (r_s * bpp_inv_eight C) (ro_g s ! 0) + dk_smul C (s_s * bpp_inv_eight C) (ro_h s ! 0) + dk_smul C (d_s * bpp_inv_eight C) (dk_base C)
                  + dk_smul C ((r_s * y * ro_b s ! 0 + s_s * y * ro_a s ! 0) * bpp_inv_eight C) hp;
             b_point = dk_smul C (eta * bpp_inv_eight C) (dk_base C) + dk_smul C (r_s * y * s_s * bpp_inv_eight C) hp;
             a1_bytes = encode_point C a1; b_bytes = encode_point C b_point;
             (e, _) = transcript_update C (ro_transcript s) [a1_bytes, b_bytes]
         in if e = 0 then Inl (ro_draw s + 4)
            else Inr \<lparr>rp_v = V, rp_a = encode_point C (stored_point C A), rp_a1 = a1_bytes, rp_b = b_bytes,
                      rp_r1 = dk_to_bytes C (ro_a s ! 0 * e + r_s), rp_s1 = dk_to_bytes C (ro_b s ! 0 * e + s_s),
                      rp_d1 = dk_to_bytes C (d_s * e + eta + ro_alpha s * (e * e)),
                      rp_l = map (encode_point C) (ro_l s), rp_r = map (encode_point C) (ro_r s)\<rparr> :: nat + RangeProof)"
  have "(if y = 0 then Inl (k + 1) else if z = 0 then Inl (k + 1) else and_then (prove_rounds C rand hp y yp yi (m * BPP_N) ?s0) fin) = Inr prf"
    using att unfolding attempt_def Let_def Vm u1 case_prod_conv bits_point [OF R B] A_def [symmetric] u2 fin_def first_state_def z_def yp_def yi_def .
  then have yz: "y \<noteq> 0" "z \<noteq> 0" and run: "and_then (prove_rounds C rand hp y yp yi (m * BPP_N) ?s0) fin = Inr prf" by (simp_all split: if_splits)
  from run obtain s where s: "prove_rounds C rand hp y yp yi (2 ^ (l + LOG_N)) ?s0 = Inr s" "fin s = Inr prf" unfolding n by auto
  have pw: "yp ! (2 ^ j) = y ^ 2 ^ j \<and> yi ! (2 ^ j) = dk_invert C y ^ 2 ^ j" if "j < l + LOG_N" for j
  proof -
    have "(2 :: nat) ^ j < m * BPP_N" unfolding n using that by simp
    moreover have "0 < m * BPP_N" unfolding n by simp
    ultimately show ?thesis using running_powers [of "m * BPP_N" "replicate (m * BPP_N) 1" "dk_invert C y"] by (simp add: yp_def yi_def scalar_powers_nth)
  qed
  obtain cs Ls Qs where rr: "rounds_run C good hp y (l + LOG_N) ?s0 s cs Ls Qs"
    using prove_rounds_run [OF R hp yz(1) first_state_commit(1) [OF R len gl, of y z "rand k" "k + 1", unfolded n] _ s(1)] pw by (elim meta_impE exE)
  note pts = last_points [OF R hp rounds_run_good [OF rr]]
  obtain e t3 where u3: "transcript_update C (ro_transcript s) [encode_point C (stored_point C (first_point C hp y rand s)), encode_point C (stored_point C (second_point C hp y rand s))] = (e, t3)"
    by fastforce
  have "e \<noteq> 0" "prf = last_proof C hp y rand s e V (encode_point C (stored_point C A))"
    using s(2) unfolding fin_def Let_def pts(1,2) u3 case_prod_conv by (simp_all add: last_proof_def split: if_splits)
  then show ?thesis using that [OF u1 u2 yz(1) z_def yz(2) rr u3] by simp
qed

lemma commitments_length [simp]: "length masks = length values \<Longrightarrow> length (commitments C hp values masks) = length values"
  by (simp add: commitments_def)

lemma proof_attempt_verifies:
  fixes C :: "('s::comm_ring_1, 'p::ab_group_add) dalek"
  assumes R: "range_laws C good" and hp: "good hp" and pc: "padded_count (length values) = Inr (m, l)"
    and gl: "m * BPP_N \<le> length (gi gens)" "m * BPP_N \<le> length (hi gens)" "\<forall>P \<in> set (gi gens) \<union> set (hi gens). good P"
    and len: "length masks = length values"
    and att: "attempt C (map (stored_point C) (commitments C hp values masks)) (fill_bits values m 1 0) (fill_bits values m 0 (- 1))
       (fill_bits values m (bpp_inv_eight C) 0) (fill_bits values m 0 (- bpp_inv_eight C)) masks (length values) m (m * BPP_N) gens hp rand k = Inr prf"
  shows "verify_with C gens hp prf = Inr ()"
proof -
  have M: "scalar_module (dk_smul C) good" by (rule range_lawsD(1) [OF R])
  have m: "m = 2 ^ l" "length values \<le> m" "0 < length values" using padded_count_Inr [OF pc] by simp_all
  have B: "scalar_module.basis good (m * BPP_N) (nth (gi gens)) (nth (hi gens)) hp (dk_base C)"
    using gl hp range_lawsD(2) [OF R] by (simp add: scalar_module.basis_def [OF M])
  let ?A = "scalar_module.cm (dk_smul C) (m * BPP_N) (nth (gi gens)) (nth (hi gens)) hp (dk_base C)
      (\<lambda>k. if value_bit values k then 1 else 0) (\<lambda>k. if value_bit values k then 0 else - 1) 0 (rand k)"
  let ?en = "\<lambda>P. encode_point C (stored_point C P)" and ?vs = "commitments C hp values masks"
  obtain x t1 y t2 z s cs Ls Qs e t3 where u:
    "transcript_update C (initial_transcript gens) [bytes_hash C (map ?en ?vs)] = (x, t1)"
    "transcript_update C t1 [?en ?A] = (y, t2)" "y \<noteq> 0" "z = hash_to_scalar_dalek C (dk_to_bytes C y)" "z \<noteq> 0"
    and run: "rounds_run C good hp y (l + LOG_N) (first_state C gens values masks m y z (rand k) (k + 1)) s cs Ls Qs"
    and e: "transcript_update C (ro_transcript s) [?en (first_point C hp y rand s), ?en (second_point C hp y rand s)] = (e, t3)" "e \<noteq> 0"
    and pr: "prf = last_proof C hp y rand s e (map ?en ?vs) (?en ?A)"
    by (rule attempt_Inr [OF R hp m(1) gl len att])
  note rn = run [unfolded rounds_run_def]
  have L: "length Ls = l + LOG_N" "length Qs = l + LOG_N" "ro_l s = map (stored_point C) Ls" "ro_r s = map (stored_point C) Qs"
    "\<forall>P \<in> set Ls. good P" "\<forall>P \<in> set Qs. good P"
    "verify_challenges C (dk_to_bytes C z) (zip (map ?en Ls) (map ?en Qs)) = Inr (cs, ro_transcript s)"
    using rn by (simp_all add: first_state_def Let_def)
  have ne: "Ls \<noteq> []" "?vs \<noteq> []" using L(1) m(3) len by (auto simp: LOG_N_def commitments_def)
  have pts: "good (first_point C hp y rand s)" "good (second_point C hp y rand s)" "good ?A"
    using last_points(3,4) [OF R hp rounds_run_good [OF run]] scalar_module.cm_good [OF M B] by blast+
  note m8 = mul8_all_stored [OF R stored_commitments(2) [OF R hp]] mul8_all_stored [OF R L(5)] mul8_all_stored [OF R L(6)]
    mul8_of_stored [OF R pts(1)] mul8_of_stored [OF R pts(2)] mul8_of_stored [OF R pts(3)]
  let ?s0 = "first_state C gens values masks m y z (rand k) (k + 1)"
  have gh: "ro_g ?s0 ! i = gi gens ! i" "ro_h ?s0 ! i = hi gens ! i" if "i < m * BPP_N" for i
    using that by (simp_all add: first_state_def Let_def)
  have "verify_sum C gens hp m (l + LOG_N) (ro_a s ! 0 * e + rand (ro_draw s)) (ro_b s ! 0 * e + rand (ro_draw s + 1))
    (rand (ro_draw s + 2) * e + rand (ro_draw s + 3) + ro_alpha s * (e * e)) y z e cs ?vs Ls Qs ?A
    (first_point C hp y rand s) (second_point C hp y rand s) = 0"
    unfolding commitments_def first_point_def second_point_def
    by (rule sum_cancels [OF R m(1,2) len B u(3) run first_state_commit(2) [OF R len gl] gh])
  then show ?thesis
    unfolding verify_with_def pr
    by (simp add: last_proof_def Let_def range_lawsD(5) [OF R] u(1-3,5) u(4) [symmetric] L(3,4) ne pc len L(1,2) L(7) e m8 o_def)
qed

lemma prove_attempts_Inr: "prove_attempts att n k = Inr p \<Longrightarrow> \<exists>k. att k = Inr p"
  by (induction n arbitrary: k) (auto split: sum.splits)

lemma prove_attempts_Inl: "prove_attempts att n k = Inl e \<Longrightarrow> e = ZeroChallenge"
  by (induction n arbitrary: k) (auto split: sum.splits)

text \<open>C5. Completeness of the range proof: over a curve library with the documented laws and lawful
  generators, the prover either refuses its input (as many masks as values are needed, at least one value
  and at most sixteen), gives up after eight transcripts with a zero challenge, or returns a proof that the
  verifier accepts, whatever the values, masks and random draws.\<close>

theorem range_proof_complete:
  fixes C :: "('s::comm_ring_1, 'p::ab_group_add) dalek"
  assumes "range_laws C good" and "good hp"
    and "MAX_MN \<le> length (gi gens)" "MAX_MN \<le> length (hi gens)" "\<forall>P \<in> set (gi gens) \<union> set (hi gens). good P"
  shows "case prove_with C gens hp values masks rand of
      Inl err \<Rightarrow> (if length values \<noteq> length masks then err = LengthMismatch else if values = [] then err = BppEmpty
        else if MAX_OUTPUTS < length values then err = TooManyValues (length values) else err = ZeroChallenge)
    | Inr prf \<Rightarrow> verify_with C gens hp prf = Inr () \<and> length values = length masks \<and> 0 < length values \<and> length values \<le> MAX_OUTPUTS"
proof (cases "prove_with C gens hp values masks rand")
  case (Inl err)
  have "(length values \<noteq> length masks \<and> err = LengthMismatch) \<or> (length values = length masks \<and> (padded_count (length values) = Inl err
     \<or> (\<exists>m l. padded_count (length values) = Inr (m, l)) \<and> err = ZeroChallenge))"
    using Inl prove_attempts_Inl unfolding prove_with_def Let_def
    by (cases "padded_count (length values)") (auto split: if_splits)
  then show ?thesis using Inl padded_count_Inl [of "length values" err] padded_count_Inr [of "length values"] by auto
next
  case (Inr pr)
  have len: "length masks = length values" using Inr by (simp add: prove_with_def split: if_splits)
  obtain m l where pc: "padded_count (length values) = Inr (m, l)"
    using Inr unfolding prove_with_def by (cases "padded_count (length values)") (auto split: if_splits)
  have "\<exists>k. attempt C (map (stored_point C) (commitments C hp values masks)) (fill_bits values m 1 0) (fill_bits values m 0 (- 1))
       (fill_bits values m (bpp_inv_eight C) 0) (fill_bits values m 0 (- bpp_inv_eight C)) masks (length values) m (m * BPP_N) gens hp rand k = Inr pr"
    using Inr len by (intro prove_attempts_Inr) (simp only: prove_with_def Let_def pc and_then_simps case_prod_conv stored_commitments(1) [OF assms(1,2)] if_False not_True_eq_False refl)
  then obtain k where "attempt C (map (stored_point C) (commitments C hp values masks)) (fill_bits values m 1 0) (fill_bits values m 0 (- 1))
       (fill_bits values m (bpp_inv_eight C) 0) (fill_bits values m 0 (- bpp_inv_eight C)) masks (length values) m (m * BPP_N) gens hp rand k = Inr pr" by (elim exE)
  moreover have "m * BPP_N \<le> MAX_MN" using padded_count_Inr [OF pc] by (simp add: MAX_MN_def)
  ultimately have "verify_with C gens hp pr = Inr ()"
    using proof_attempt_verifies [OF assms(1,2) pc _ _ assms(5) len] assms(3,4) by simp
  then show ?thesis using Inr len padded_count_Inr [OF pc] by simp
qed

text \<open>With no zero challenge every attempt runs to its end.\<close>

lemma prove_rounds_total:
  assumes "\<And>b. hash_to_scalar_dalek C b \<noteq> 0"
  shows "\<exists>s'. prove_rounds C rand hp y y_powers yinvpow n s = Inr s'"
proof (induction n arbitrary: s rule: less_induct)
  case (less n)
  show ?case
  proof (cases "1 < n")
    case True
    moreover obtain s1 where "prove_round C rand hp y y_powers yinvpow (n div 2) s = Inr s1"
      unfolding prove_round_def Let_def transcript_update_def by (simp add: assms)
    ultimately show ?thesis using less.IH [of "n div 2" s1] by (subst prove_rounds.simps) simp
  qed (simp add: prove_rounds.simps)
qed

lemma prove_with_total:
  assumes h: "\<And>b. hash_to_scalar_dalek C b \<noteq> 0" and "length values = length masks" "padded_count (length values) = Inr (m, l)"
  shows "\<exists>p. prove_with C gens hp values masks rand = Inr p"
proof -
  have "\<exists>p. attempt C v a_l a_r a_l8 a_r8 masks n m mn gens hp rand k = Inr p" for v a_l a_r a_l8 a_r8 n mn k
    unfolding attempt_def Let_def transcript_update_def by (simp add: h prove_rounds_total [OF h])
  moreover have "\<exists>p. prove_attempts att 8 0 = Inr p" if "\<exists>p. att 0 = Inr p" for att using that by (auto simp: numeral_eq_Suc)
  ultimately show ?thesis using assms(2,3) by (simp add: prove_with_def Let_def)
qed

text \<open>The generators the program derives satisfy what the theorem asks of them.\<close>

lemma exponents_Some:
  "exponents C is = Some ps \<Longrightarrow> length ps = length is \<and> (\<forall>P \<in> set ps. \<exists>i. exponent C i = Some P)"
  by (induction "is" arbitrary: ps) (auto simp: bind_eq_Some_conv)

lemma generators_lawful:
  assumes C: "lawful C" and g: "generators C = Some gens"
  shows "length (gi gens) = MAX_MN" "length (hi gens) = MAX_MN" "\<forall>P \<in> set (gi gens) \<union> set (hi gens). torsion_free P"
proof -
  have tf: "torsion_free P" if "exponent C i = Some P" for i P
    using that hash_to_ec_torsion_free [OF C] by (auto simp: exponent_def Let_def bind_eq_Some_conv split: if_splits)
  obtain g h where gh: "exponents C (map (\<lambda>i. i * 2) [0 ..< MAX_MN]) = Some h" "exponents C (map (\<lambda>i. i * 2 + 1) [0 ..< MAX_MN]) = Some g"
    "gi gens = g" "hi gens = h" using g by (auto simp: generators_def bind_eq_Some_conv)
  show "length (gi gens) = MAX_MN" "length (hi gens) = MAX_MN" using exponents_Some [OF gh(1)] exponents_Some [OF gh(2)] gh(3,4) by simp_all
  show "\<forall>P \<in> set (gi gens) \<union> set (hi gens). torsion_free P"
    using exponents_Some [OF gh(1)] exponents_Some [OF gh(2)] gh(3,4) tf by blast
qed

text \<open>An instance of the laws: three scalars, three points.\<close>

definition z3_nat :: "3 \<Rightarrow> nat" where "z3_nat x = nat (Rep_bit1 x)"

definition z3_dalek :: "(3, 3) dalek" where
  "z3_dalek = \<lparr>dk_smul = (*), dk_base = 1, dk_compress = (\<lambda>P. le_bytes 32 (1 + z3_nat P)),
     dk_decompress = (\<lambda>b. Some (of_nat (le_nat b) - 1)), dk_from_bytes_mod_order = (\<lambda>b. 1),
     dk_from_canonical_bytes = (\<lambda>b. Some (of_nat (le_nat b))),
     dk_to_bytes = (\<lambda>s. le_bytes 32 (z3_nat s)), dk_mul_by_cofactor = (\<lambda>P. 8 * P), dk_invert = (\<lambda>s. s)\<rparr>"

lemma z3_cases: "x = 0 \<or> x = 1 \<or> x = 2" for x :: 3
proof (cases x)
  case (of_int z)
  then have "z = 0 \<or> z = 1 \<or> z = 2" by auto
  with of_int show ?thesis by auto
qed

lemma z3_nat_simps: "z3_nat 0 = 0" "z3_nat 1 = 1" "z3_nat 2 = 2"
  by (simp_all add: z3_nat_def bit1.Rep_0 bit1.Rep_1 bit1.Rep_numeral)

lemma z3_laws: "range_laws z3_dalek (\<lambda>_. True)"
proof -
  have M: "scalar_module (dk_smul z3_dalek) (\<lambda>_. True)"
    by unfold_locales (simp_all add: z3_dalek_def algebra_simps)
  have n: "of_nat (z3_nat x) = x" "x \<noteq> 0 \<longrightarrow> x * x = 1" "z3_nat x \<le> 2" for x using z3_cases [of x] by (auto simp: z3_nat_simps)
  from n(3) have b: "le_nat (le_bytes 32 (z3_nat x)) = z3_nat x" "le_nat (le_bytes 32 (1 + z3_nat x)) = 1 + z3_nat x" for x
    by (simp_all add: le_nat_le_bytes le_less_trans [of "z3_nat x" 2])
  from b(2) have "canonical_point (le_bytes 32 (1 + z3_nat x))" for x
    using z3_cases [of x] unfolding canonical_point_def by (auto simp: z3_nat_simps)
  with b(2) n(1) have "decode_point z3_dalek (le_bytes 32 (1 + z3_nat P)) = Some P" for P
    by (subst decode_point_canonical) (simp_all add: z3_dalek_def)
  then have "decode_point z3_dalek (dk_compress z3_dalek P) = Some P" for P by (simp add: z3_dalek_def)
  moreover have "decode_scalar z3_dalek (dk_to_bytes z3_dalek s) = Some s" for s by (simp add: decode_scalar_def z3_dalek_def b n)
  ultimately show ?thesis using M n(2) by (simp add: range_laws_def) (simp add: z3_dalek_def)
qed

theorem range_proof_complete_witness:
  "range_laws z3_dalek (\<lambda>_. True) \<and>
   (let gens = \<lparr>gi = replicate 1024 1, hi = replicate 1024 2, initial_transcript = replicate 32 0\<rparr> in
    \<exists>prf. prove_with z3_dalek gens 2 [5, 0, 18446744073709551615] [1, 2, 0] (\<lambda>k. of_nat k) = Inr prf \<and> verify_with z3_dalek gens 2 prf = Inr ())"
proof -
  define gens :: "3 Generators" where "gens = \<lparr>gi = replicate 1024 1, hi = replicate 1024 2, initial_transcript = replicate 32 0\<rparr>"
  let ?v = "[5, 0, 18446744073709551615] :: u64 list" and ?m = "[1, 2, 0] :: 3 list" and ?r = "\<lambda>k. of_nat k :: 3"
  have "padded_count 3 = Inr (4, 2)" by (simp add: padded_count_def padded_loop.simps MAX_OUTPUTS_def)
  then have "\<exists>prf. prove_with z3_dalek gens 2 ?v ?m ?r = Inr prf"
    by (intro prove_with_total [where m = 4 and l = 2]) (simp_all add: hash_to_scalar_dalek_def z3_dalek_def numeral_3_eq_3)
  then obtain p where p: "prove_with z3_dalek gens 2 ?v ?m ?r = Inr p" by (elim exE)
  moreover have "verify_with z3_dalek gens 2 p = Inr ()"
    using range_proof_complete [OF z3_laws, where hp = 2, of gens ?v ?m ?r] p by (simp add: gens_def MAX_MN_def BPP_N_def MAX_OUTPUTS_def)
  ultimately show ?thesis using z3_laws unfolding Let_def gens_def by blast
qed

end
