(* ===== verification/RandomScalar.thy ===== *)
theory RandomScalar
  imports Ops
begin

text \<open>
  The random scalars of \<open>crates/wow-crypto/src/random.rs\<close>: a 200-byte Keccak state that is permuted on
  every request, and rejection sampling below \<open>15 l\<close>. The state is passed along; a rejection loop
  that never accepts is \<open>None\<close>.
\<close>

type_synonym Rng = bytes

definition LIMIT :: bytes where
  "LIMIT =
     [0xe3, 0x6a, 0x67, 0x72, 0x8b, 0xce, 0x13, 0x29, 0x8f, 0x30, 0x82, 0x8c, 0x0b, 0xa4, 0x10, 0x39,
      0x01, 0x00, 0x00, 0x00, 0x00, 0x00, 0x00, 0x00, 0x00, 0x00, 0x00, 0x00, 0x00, 0x00, 0x00, 0xf0]"

text \<open>The loop over \<open>(0..32).rev()\<close>, with \<open>n\<close> indices left.\<close>

fun less32_loop :: "bytes \<Rightarrow> bytes \<Rightarrow> nat \<Rightarrow> bool" where
  "less32_loop k0 k1 0 = False"
| "less32_loop k0 k1 (Suc n) =
     (if k0 ! n < k1 ! n then True else if k1 ! n < k0 ! n then False else less32_loop k0 k1 n)"

definition less32 :: "bytes \<Rightarrow> bytes \<Rightarrow> bool" where "less32 k0 k1 = less32_loop k0 k1 32"

definition deterministic_test_seed :: Rng where "deterministic_test_seed = replicate HASH_STATE_BYTES 42"

definition rng_permute :: "Rng \<Rightarrow> Rng" where
  "rng_permute st =
     (let w = map u64_from_le_bytes (fst (as_chunks 8 st)); w = keccakf w
      in concat (map u64_to_le_bytes w))"

text \<open>\<open>fill\<close> with \<open>n\<close> bytes left to write: the bytes and the state after them.\<close>

function rng_fill :: "Rng \<Rightarrow> usize \<Rightarrow> bytes \<times> Rng" where
  "rng_fill st n =
     (let st = rng_permute st in
      if n \<le> HASH_DATA_AREA then (take n st, st)
      else case rng_fill st (n - HASH_DATA_AREA) of (rest, st') \<Rightarrow> (take HASH_DATA_AREA st @ rest, st'))"
  by pat_completeness auto
termination
  by (relation "measure (\<lambda>(st, n). n)") (auto simp: HASH_DATA_AREA_def)

declare rng_fill.simps [simp del]

partial_function (option) random32_unbiased :: "('s, 'p) dalek \<Rightarrow> Rng \<Rightarrow> (bytes \<times> Rng) option" where
  "random32_unbiased C st =
     (case rng_fill st 32 of (b, st') \<Rightarrow>
        if \<not> less32 b LIMIT then random32_unbiased C st'
        else if sc_is_nonzero (sc_reduce32 C b) then Some (sc_reduce32 C b, st')
        else random32_unbiased C st')"

definition random_scalar :: "('s, 'p) dalek \<Rightarrow> Rng \<Rightarrow> (bytes \<times> Rng) option" where
  "random_scalar C st = random32_unbiased C st"

text \<open>The inner \<open>None\<close> is the panic of the \<open>expect\<close>.\<close>

definition generate_keys :: "('s, 'p) dalek \<Rightarrow> Rng \<Rightarrow> ((PublicKey \<times> SecretKey) option \<times> Rng) option" where
  "generate_keys C st =
     Option.bind (random_scalar C st) (\<lambda>(rng, st').
     let sec = sc_reduce32 C rng
     in Some (Option.bind (secret_key_to_public_key C sec) (\<lambda>pub_key. Some (pub_key, sec)), st'))"

section \<open>Comparison\<close>

lemma less32_loop_value:
  "n \<le> length xs \<Longrightarrow> n \<le> length ys \<Longrightarrow> less32_loop xs ys n \<longleftrightarrow> le_nat (take n xs) < le_nat (take n ys)"
proof (induction n)
  case (Suc n)
  then show ?case by (auto simp: le_nat_compare_step)
qed simp

lemma less32_value: "length xs = 32 \<Longrightarrow> length ys = 32 \<Longrightarrow> less32 xs ys \<longleftrightarrow> le_nat xs < le_nat ys"
  by (simp add: less32_def less32_loop_value)

lemma LIMIT_value: "length LIMIT = 32" "le_nat LIMIT = 15 * L255"
  by (simp_all add: LIMIT_def L255_def)

section \<open>Distribution\<close>

lemma sc_reduce32_value:
  assumes "lawful C" "length b = 32"
  shows "sc_reduce32 C b = le_bytes 32 (le_nat b mod L255)"
proof -
  have "of_nat (le_nat b) = (of_nat (le_nat b mod L255) :: 'a)" using scalar_lawD(1) [OF assms(1)] by simp
  moreover have "0 < L255" by (simp add: L255_def)
  ultimately show ?thesis
    using assms by (simp add: sc_reduce32_def scalar_lawD(2) to_bytes_of_nat)
qed

lemma small_L255: "L255 < 256 ^ 32" "15 * L255 < 256 ^ 32" "0 < L255"
  by (simp_all add: L255_def)

lemma sampled_value:
  assumes "q < 15" "n < L255"
  shows "le_nat (le_bytes 32 (q * L255 + n)) = q * L255 + n" "q * L255 + n < 15 * L255" "(q * L255 + n) mod L255 = n"
    "(q * L255 + n) div L255 = q"
proof -
  have "Suc q * L255 \<le> 15 * L255" using assms(1) by (intro mult_le_mono1) simp
  then have "q * L255 + L255 \<le> 15 * L255" by (simp only: mult_Suc add.commute)
  then show b: "q * L255 + n < 15 * L255" using assms(2) by linarith
  then show "le_nat (le_bytes 32 (q * L255 + n)) = q * L255 + n"
    using small_L255(2) unfolding le_nat_le_bytes by (simp only: mod_less less_trans)
  show "(q * L255 + n) mod L255 = n" "(q * L255 + n) div L255 = q" using assms(2) by simp_all
qed

lemma le_bytes_scalar_inj: "m < L255 \<Longrightarrow> n < L255 \<Longrightarrow> le_bytes 32 m = le_bytes 32 n \<longleftrightarrow> m = n"
  using sampled_value(1) [of 0 m, unfolded mult_0 add_0] sampled_value(1) [of 0 n, unfolded mult_0 add_0] by (metis zero_less_numeral)

lemma strings_below_limit:
  assumes "lawful C" "n < L255"
  shows "card {b. length b = 32 \<and> less32 b LIMIT \<and> sc_reduce32 C b = le_bytes 32 n} = 15"
proof -
  let ?S = "{b. length b = 32 \<and> less32 b LIMIT \<and> sc_reduce32 C b = le_bytes 32 n}"
  have "?S = (\<lambda>q. le_bytes 32 (q * L255 + n)) ` {..<15}"
  proof (intro equalityI subsetI)
    fix b
    assume b: "b \<in> ?S"
    then have lt: "le_nat b < 15 * L255" and "le_bytes 32 (le_nat b mod L255) = le_bytes 32 n"
      using assms LIMIT_value by (auto simp: less32_value sc_reduce32_value)
    then have m: "le_nat b mod L255 = n" using assms(2) small_L255 by (simp add: le_bytes_scalar_inj)
    have "le_nat b = le_nat b div L255 * L255 + n" using m by (metis div_mult_mod_eq)
    then have "b = le_bytes 32 (le_nat b div L255 * L255 + n)" using b le_bytes_le_nat [of b 32] by simp
    moreover have "le_nat b div L255 < 15" using lt by (simp add: less_mult_imp_div_less)
    ultimately show "b \<in> (\<lambda>q. le_bytes 32 (q * L255 + n)) ` {..<15}" by blast
  next
    fix b
    assume "b \<in> (\<lambda>q. le_bytes 32 (q * L255 + n)) ` {..<15}"
    then obtain q where q: "q < 15" "b = le_bytes 32 (q * L255 + n)" by blast
    note v = sampled_value [OF q(1) assms(2)]
    have "length b = 32" "le_nat b = q * L255 + n" using q(2) v(1) by simp_all
    then show "b \<in> ?S" using v(2,3) assms(1) LIMIT_value by (simp add: less32_value sc_reduce32_value)
  qed
  moreover have "inj_on (\<lambda>q. le_bytes 32 (q * L255 + n)) {..<15}"
    using sampled_value(1,4) [OF _ assms(2)] by (intro inj_onI) (metis lessThan_iff)
  ultimately show ?thesis by (simp add: card_image)
qed

section \<open>The rejection loop\<close>

definition accepted_draw :: "('s, 'p) dalek \<Rightarrow> bytes \<Rightarrow> bool" where
  "accepted_draw C b \<longleftrightarrow> less32 b LIMIT \<and> sc_is_nonzero (sc_reduce32 C b)"

fun rng_skip :: "nat \<Rightarrow> Rng \<Rightarrow> Rng" where
  "rng_skip 0 st = st"
| "rng_skip (Suc n) st = rng_skip n (snd (rng_fill st 32))"

lemma random32_step:
  "random32_unbiased C st =
     (if accepted_draw C (fst (rng_fill st 32)) then Some (sc_reduce32 C (fst (rng_fill st 32)), snd (rng_fill st 32))
      else random32_unbiased C (snd (rng_fill st 32)))"
  by (subst random32_unbiased.simps) (auto simp: accepted_draw_def split: prod.splits)

lemma random32_first_accepted:
  "accepted_draw C (fst (rng_fill (rng_skip n st) 32)) \<Longrightarrow> \<exists>r. random32_unbiased C st = Some r"
proof (induction n arbitrary: st)
  case (Suc n)
  then show ?case by (subst random32_step) auto
qed (subst random32_step, simp)

text \<open>The \<open>j\<close>-th string drawn from a state on.\<close>

definition rng_draw :: "Rng \<Rightarrow> nat \<Rightarrow> bytes" where
  "rng_draw st j = fst (rng_fill (rng_skip j st) 32)"

lemma rng_draw_Suc: "rng_draw st (Suc j) = rng_draw (snd (rng_fill st 32)) j"
  by (simp add: rng_draw_def)

lemma random32_first:
  "\<forall>j < k. \<not> accepted_draw C (rng_draw st j) \<Longrightarrow> accepted_draw C (rng_draw st k) \<Longrightarrow>
    random32_unbiased C st = Some (sc_reduce32 C (rng_draw st k), rng_skip (Suc k) st)"
proof (induction k arbitrary: st)
  case 0
  then show ?case by (subst random32_step) (simp add: rng_draw_def)
next
  case (Suc k)
  have "\<not> accepted_draw C (rng_draw st 0)" using Suc.prems(1) by blast
  then have "random32_unbiased C st = random32_unbiased C (snd (rng_fill st 32))" by (subst random32_step) (simp add: rng_draw_def)
  moreover have "\<forall>j < k. \<not> accepted_draw C (rng_draw (snd (rng_fill st 32)) j)" using Suc.prems(1) by (auto simp flip: rng_draw_Suc)
  ultimately show ?case using Suc.IH [of "snd (rng_fill st 32)"] Suc.prems(2) by (simp add: rng_draw_Suc)
qed

lemma random32_result:
  assumes "random32_unbiased C st = Some y"
  shows "\<exists>n. accepted_draw C (fst (rng_fill (rng_skip n st) 32)) \<and>
    y = (sc_reduce32 C (fst (rng_fill (rng_skip n st) 32)), rng_skip (Suc n) st)"
proof (rule random32_unbiased.raw_induct [OF _ assms, where P = "\<lambda>C st y. \<exists>n. accepted_draw C (fst (rng_fill (rng_skip n st) 32)) \<and>
    y = (sc_reduce32 C (fst (rng_fill (rng_skip n st) 32)), rng_skip (Suc n) st)"])
  fix f C st y
  assume IH: "\<And>C st y. f C st = Some y \<Longrightarrow> \<exists>n. accepted_draw C (fst (rng_fill (rng_skip n st) 32)) \<and>
      y = (sc_reduce32 C (fst (rng_fill (rng_skip n st) 32)), rng_skip (Suc n) st)"
    and body: "(case rng_fill st 32 of (b, st') \<Rightarrow> if \<not> less32 b LIMIT then f C st'
      else if sc_is_nonzero (sc_reduce32 C b) then Some (sc_reduce32 C b, st') else f C st') = Some y"
  show "\<exists>n. accepted_draw C (fst (rng_fill (rng_skip n st) 32)) \<and>
      y = (sc_reduce32 C (fst (rng_fill (rng_skip n st) 32)), rng_skip (Suc n) st)"
  proof (cases "accepted_draw C (fst (rng_fill st 32))")
    case True
    then have "y = (sc_reduce32 C (fst (rng_fill st 32)), snd (rng_fill st 32))"
      using body by (auto simp: accepted_draw_def split: prod.splits if_splits)
    with True show ?thesis by (intro exI [of _ 0]) simp
  next
    case False
    then have "f C (snd (rng_fill st 32)) = Some y"
      using body by (auto simp: accepted_draw_def split: prod.splits if_splits)
    from IH [OF this] obtain n where "accepted_draw C (fst (rng_fill (rng_skip (Suc n) st) 32))"
      "y = (sc_reduce32 C (fst (rng_fill (rng_skip (Suc n) st) 32)), rng_skip (Suc (Suc n)) st)" by auto
    then show ?thesis by blast
  qed
qed

lemma random_scalar_first:
  "random_scalar C st = Some (r, st') \<longleftrightarrow>
    (\<exists>k. (\<forall>j < k. \<not> accepted_draw C (rng_draw st j)) \<and> accepted_draw C (rng_draw st k) \<and>
       r = sc_reduce32 C (rng_draw st k) \<and> st' = rng_skip (Suc k) st)"
proof
  assume r: "random_scalar C st = Some (r, st')"
  then obtain n where "accepted_draw C (rng_draw st n)"
    using random32_result [of C st "(r, st')"] by (auto simp: random_scalar_def rng_draw_def)
  then obtain k where k: "\<forall>j < k. \<not> accepted_draw C (rng_draw st j)" "accepted_draw C (rng_draw st k)"
    using exists_least_iff [of "\<lambda>n. accepted_draw C (rng_draw st n)"] by blast
  with r random32_first [OF k] show "\<exists>k. (\<forall>j < k. \<not> accepted_draw C (rng_draw st j)) \<and> accepted_draw C (rng_draw st k) \<and>
       r = sc_reduce32 C (rng_draw st k) \<and> st' = rng_skip (Suc k) st" by (auto simp: random_scalar_def)
qed (auto simp: random_scalar_def random32_first simp del: rng_skip.simps)

text \<open>The sampler is unbiased. It returns the reduction of the first acceptable string it draws, and of the strings
  it accepts, all of 32 bytes, exactly fifteen reduce to each non-zero canonical scalar and none to zero.\<close>

theorem random_scalar_unbiased:
  assumes "lawful C" "n < L255"
  shows "(random_scalar C st = Some (le_bytes 32 n, st') \<longleftrightarrow>
      (\<exists>k. (\<forall>j < k. \<not> accepted_draw C (rng_draw st j)) \<and> accepted_draw C (rng_draw st k) \<and>
         sc_reduce32 C (rng_draw st k) = le_bytes 32 n \<and> st' = rng_skip (Suc k) st)) \<and>
    card {b. length b = 32 \<and> accepted_draw C b \<and> sc_reduce32 C b = le_bytes 32 n} = (if n = 0 then 0 else 15)"
proof
  show "random_scalar C st = Some (le_bytes 32 n, st') \<longleftrightarrow>
      (\<exists>k. (\<forall>j < k. \<not> accepted_draw C (rng_draw st j)) \<and> accepted_draw C (rng_draw st k) \<and>
         sc_reduce32 C (rng_draw st k) = le_bytes 32 n \<and> st' = rng_skip (Suc k) st)"
    unfolding random_scalar_first by (simp add: eq_commute)
  have "sc_is_nonzero (le_bytes 32 n) \<longleftrightarrow> n \<noteq> 0"
  proof -
    have "le_bytes 32 n = replicate 32 0 \<longleftrightarrow> n = 0"
      using le_bytes_scalar_inj [OF assms(2), of 0] small_L255(3) by (simp add: le_bytes_zero)
    then show ?thesis by (simp add: sc_is_nonzero_def)
  qed
  then have "{b. length b = 32 \<and> accepted_draw C b \<and> sc_reduce32 C b = le_bytes 32 n} =
      (if n = 0 then {} else {b. length b = 32 \<and> less32 b LIMIT \<and> sc_reduce32 C b = le_bytes 32 n})"
    by (auto simp: accepted_draw_def)
  then show "card {b. length b = 32 \<and> accepted_draw C b \<and> sc_reduce32 C b = le_bytes 32 n} = (if n = 0 then 0 else 15)"
    using strings_below_limit [OF assms] by simp
qed

theorem random_scalar_unbiased_witness:
  "lawful zl_dalek \<and> 5 < L255 \<and> card {b. length b = 32 \<and> accepted_draw zl_dalek b \<and> sc_reduce32 zl_dalek b = le_bytes 32 5} = 15 \<and>
   card {b. length b = 32 \<and> accepted_draw zl_dalek b \<and> sc_reduce32 zl_dalek b = le_bytes 32 0} = 0"
proof -
  have n: "5 < L255" "0 < L255" by (simp_all add: L255_def)
  from random_scalar_unbiased [OF zl_laws n(1)] random_scalar_unbiased [OF zl_laws n(2)] n(1) zl_laws show ?thesis by simp
qed

text \<open>The rejection loop returns exactly when some later draw is acceptable, below the limit and not a multiple of the
  group order; what it returns is then a canonical non-zero scalar in 32 bytes.\<close>

theorem random_scalar_returns:
  assumes "lawful C"
  shows "((\<exists>r st'. random_scalar C st = Some (r, st')) \<longleftrightarrow> (\<exists>n. accepted_draw C (fst (rng_fill (rng_skip n st) 32)))) \<and>
    (case random_scalar C st of None \<Rightarrow> True | Some (r, st') \<Rightarrow> length r = 32 \<and> sc_check C r \<and> sc_is_nonzero r)"
proof -
  have "\<exists>n. accepted_draw C (fst (rng_fill (rng_skip n st) 32))" if "random_scalar C st = Some (r, st')" for r st'
    using random32_result [of C st] that by (auto simp: random_scalar_def)
  moreover have "length r = 32 \<and> sc_check C r \<and> sc_is_nonzero r" if "random_scalar C st = Some (r, st')" for r st'
    using random32_result [of C st] that assms by (auto simp: random_scalar_def accepted_draw_def sc_reduce32_def)
  moreover have "\<exists>r st'. random_scalar C st = Some (r, st')" if "accepted_draw C (fst (rng_fill (rng_skip n st) 32))" for n
    using random32_first_accepted [OF that] by (simp add: random_scalar_def)
  ultimately show ?thesis by (auto split: option.split)
qed

theorem random_scalar_returns_witness:
  "lawful zl_dalek \<and> ((\<exists>r st'. random_scalar zl_dalek deterministic_test_seed = Some (r, st')) \<longleftrightarrow>
     (\<exists>n. accepted_draw zl_dalek (fst (rng_fill (rng_skip n deterministic_test_seed) 32))))"
  using random_scalar_returns [OF zl_laws, of deterministic_test_seed] zl_laws by blast

lemma random_scalar_Some:
  "lawful C \<Longrightarrow> random_scalar C st = Some (r, st') \<Longrightarrow> length r = 32 \<and> sc_check C r \<and> sc_is_nonzero r"
  using random32_result [of C st "(r, st')"] by (auto simp: random_scalar_def accepted_draw_def sc_reduce32_def)

lemma generate_keys_match:
  assumes "lawful C" "generate_keys C st = Some (k, st')"
  shows "\<exists>pub_key sec. k = Some (pub_key, sec) \<and> secret_key_to_public_key C sec = Some pub_key"
  using assms by (auto simp: generate_keys_def bind_eq_Some_conv Let_def sc_reduce32_def secret_key_to_public_key_eq)

section \<open>Filling longer buffers\<close>

lemma length_rng_permute:
  assumes "length st = HASH_STATE_BYTES"
  shows "length (rng_permute st) = HASH_STATE_BYTES"
proof -
  note p = as_chunks_parts [of 8 st, simplified]
  have "length (concat (fst (as_chunks 8 st))) = 8 * length (fst (as_chunks 8 st))" using p by (intro length_concat_const) blast
  moreover have "length (concat (fst (as_chunks 8 st))) + length (snd (as_chunks 8 st)) = 200"
    using p assms by (metis HASH_STATE_BYTES_def length_append)
  moreover have "length (snd (as_chunks 8 st)) < 8" using p by blast
  ultimately have "length (fst (as_chunks 8 st)) = 25" by presburger
  then have "length (keccakf (map u64_from_le_bytes (fst (as_chunks 8 st)))) = 25" by simp
  moreover have "length (concat (map u64_to_le_bytes ws)) = 8 * length ws" for ws by (induction ws) simp_all
  ultimately show ?thesis by (simp only: rng_permute_def Let_def HASH_STATE_BYTES_def)
qed

text \<open>The generator keeps its shape: from a 200-byte state a request for \<open>n\<close> bytes, across as many permutations as it
  takes, returns exactly \<open>n\<close> bytes and leaves a 200-byte state.\<close>

theorem rng_fill_shape:
  assumes "length st = HASH_STATE_BYTES"
  shows "length (fst (rng_fill st n)) = n \<and> length (snd (rng_fill st n)) = HASH_STATE_BYTES"
  using assms
proof (induction st n rule: rng_fill.induct)
  case (1 st n)
  have p: "length (rng_permute st) = HASH_STATE_BYTES" by (rule length_rng_permute [OF 1(2)])
  show ?case
  proof (cases "n \<le> HASH_DATA_AREA")
    case True
    then show ?thesis using p by (subst (1 2) rng_fill.simps) (simp add: Let_def HASH_STATE_BYTES_def HASH_DATA_AREA_def)
  next
    case False
    then show ?thesis using 1(1) [OF refl False p] p
      by (subst (1 2) rng_fill.simps) (auto simp: Let_def HASH_STATE_BYTES_def HASH_DATA_AREA_def split: prod.splits)
  qed
qed

theorem rng_fill_shape_witness:
  "length deterministic_test_seed = HASH_STATE_BYTES \<and> length (fst (rng_fill deterministic_test_seed 415)) = 415"
  using rng_fill_shape [of deterministic_test_seed 415] by (simp add: deterministic_test_seed_def)

end
