(* ===== verification/Signature.thy ===== *)
theory Signature
  imports Keys RandomScalar Block
begin

text \<open>
  The CryptoNote Schnorr signature and the first-version ring signature,
  \<open>crates/wow-crypto/src/signature.rs\<close>. Generation draws from the generator of \<open>RandomScalar\<close>; the outer
  \<open>None\<close> of a generation is a retry loop that never ends, the inner one the \<open>None\<close> of the source.
\<close>

definition ENCODED_IDENTITY :: bytes where "ENCODED_IDENTITY = (replicate 32 0)[0 := 1]"

definition s_comm :: "Hash256 \<Rightarrow> bytes \<Rightarrow> bytes \<Rightarrow> bytes" where
  "s_comm msg key comm = copy_at (copy_at (copy_at (replicate 96 0) 0 msg) 32 key) 64 comm"

text \<open>One pass of the loop with the drawn nonce \<open>k\<close>; \<open>None\<close> is \<open>continue\<close>.\<close>

definition signature_attempt :: "('s::comm_ring_1, 'p) dalek \<Rightarrow> Hash256 \<Rightarrow> PublicKey \<Rightarrow> SecretKey \<Rightarrow> bytes \<Rightarrow> Signature option" where
  "signature_attempt C prefix_hash pub_key sec k =
     (let k_scalar = dk_from_bytes_mod_order C k;
          comm = encode_point C (scalarmult_base C k_scalar);
          c = hash_to_scalar C (s_comm prefix_hash pub_key comm)
      in if \<not> sc_is_nonzero c then None
         else let r = sc_mulsub C c sec k in
              if \<not> sc_is_nonzero r then None else Some \<lparr>sig_c = c, sig_r = r\<rparr>)"

partial_function (option) signature_loop ::
  "('s::comm_ring_1, 'p) dalek \<Rightarrow> Hash256 \<Rightarrow> PublicKey \<Rightarrow> SecretKey \<Rightarrow> Rng \<Rightarrow> (Signature \<times> Rng) option" where
  "signature_loop C prefix_hash pub_key sec st =
     Option.bind (random_scalar C st) (\<lambda>(k, st').
       case signature_attempt C prefix_hash pub_key sec k of
         None \<Rightarrow> signature_loop C prefix_hash pub_key sec st'
       | Some sig \<Rightarrow> Some (sig, st'))"

definition generate_signature ::
  "('s::comm_ring_1, 'p) dalek \<Rightarrow> Rng \<Rightarrow> Hash256 \<Rightarrow> PublicKey \<Rightarrow> SecretKey \<Rightarrow> (Signature option \<times> Rng) option" where
  "generate_signature C st prefix_hash pub_key sec =
     (if \<not> sc_check C sec then Some (None, st)
      else map_option (\<lambda>(sig, st'). (Some sig, st')) (signature_loop C prefix_hash pub_key sec st))"

definition check_signature :: "('s, 'p::ab_group_add) dalek \<Rightarrow> Hash256 \<Rightarrow> PublicKey \<Rightarrow> Signature \<Rightarrow> bool" where
  "check_signature C prefix_hash pub_key sig =
     (case decode_point C pub_key of
        None \<Rightarrow> False
      | Some a \<Rightarrow>
          if \<not> sc_check C (sig_c sig) \<or> \<not> sc_check C (sig_r sig) \<or> \<not> sc_is_nonzero (sig_c sig) then False
          else let c = dk_from_bytes_mod_order C (sig_c sig);
                   r = dk_from_bytes_mod_order C (sig_r sig);
                   comm = encode_point C (double_scalarmult_base_vartime C c a r)
               in if comm = ENCODED_IDENTITY then False
                  else hash_to_scalar C (s_comm prefix_hash pub_key comm) = sig_c sig)"

section \<open>The ring signature\<close>

definition rs_comm_buf :: "Hash256 \<Rightarrow> usize \<Rightarrow> bytes" where
  "rs_comm_buf prefix_hash n = copy_at (replicate (32 + 64 * n) 0) 0 prefix_hash"

definition rs_comm_set :: "bytes \<Rightarrow> usize \<Rightarrow> bytes \<Rightarrow> bytes \<Rightarrow> bytes" where
  "rs_comm_set buf i a b = (let off = 32 + 64 * i in copy_at (copy_at buf off a) (off + 32) b)"

record 's ring_state =
  rs_buf :: bytes
  rs_sig :: "Signature list"
  rs_sum :: 's
  rs_k :: bytes

text \<open>The loop over \<open>pubs.iter().enumerate()\<close>, from index \<open>i\<close> on.\<close>

fun ring_gen_loop :: "('s::comm_ring_1, 'p::ab_group_add) dalek \<Rightarrow> 'p \<Rightarrow> usize \<Rightarrow> usize \<Rightarrow> PublicKey list \<Rightarrow> Rng \<Rightarrow> 's ring_state
    \<Rightarrow> ('s ring_state option \<times> Rng) option" where
  "ring_gen_loop C image_point sec_index i [] rng S = Some (Some S, rng)"
| "ring_gen_loop C image_point sec_index i (p # ps) rng S =
     (if i = sec_index then
        Option.bind (random_scalar C rng) (\<lambda>(k, rng).
          let k_s = dk_from_bytes_mod_order C k; a = encode_point C (scalarmult_base C k_s) in
          case hash_to_ec_point C p of
            None \<Rightarrow> Some (None, rng)
          | Some hp \<Rightarrow>
              let b = encode_point C (dk_smul C k_s hp)
              in ring_gen_loop C image_point sec_index (i + 1) ps rng (S\<lparr>rs_buf := rs_comm_set (rs_buf S) i a b, rs_k := k\<rparr>))
      else
        Option.bind (random_scalar C rng) (\<lambda>(c, rng).
        Option.bind (random_scalar C rng) (\<lambda>(r, rng).
          case decode_point C p of
            None \<Rightarrow> Some (None, rng)
          | Some point \<Rightarrow>
              let ci = dk_from_bytes_mod_order C c; ri = dk_from_bytes_mod_order C r;
                  a = encode_point C (double_scalarmult_base_vartime C ci point ri) in
              case hash_to_ec_point C p of
                None \<Rightarrow> Some (None, rng)
              | Some hp \<Rightarrow>
                  let b = encode_point C (double_scalarmult_vartime C ri hp ci image_point)
                  in ring_gen_loop C image_point sec_index (i + 1) ps rng
                       (S\<lparr>rs_buf := rs_comm_set (rs_buf S) i a b, rs_sig := (rs_sig S)[i := \<lparr>sig_c = c, sig_r = r\<rparr>],
                          rs_sum := rs_sum S + ci\<rparr>))))"

definition generate_ring_signature :: "('s::comm_ring_1, 'p::ab_group_add) dalek \<Rightarrow> Rng \<Rightarrow> Hash256 \<Rightarrow> KeyImage
    \<Rightarrow> PublicKey list \<Rightarrow> SecretKey \<Rightarrow> usize \<Rightarrow> (Signature list option \<times> Rng) option" where
  "generate_ring_signature C rng prefix_hash key_image pubs sec sec_index =
     (if length pubs \<le> sec_index \<or> \<not> sc_check C sec then Some (None, rng)
      else case decode_point C key_image of
        None \<Rightarrow> Some (None, rng)
      | Some image_point \<Rightarrow>
          map_option (\<lambda>(res, rng). (map_option (\<lambda>S.
              let h = hash_to_scalar C (rs_buf S);
                  c = dk_from_bytes_mod_order C h - rs_sum S;
                  cb = dk_to_bytes C c
              in (rs_sig S)[sec_index := \<lparr>sig_c = cb, sig_r = sc_mulsub C cb sec (rs_k S)\<rparr>]) res, rng))
            (ring_gen_loop C image_point sec_index 0 pubs rng
              \<lparr>rs_buf = rs_comm_buf prefix_hash (length pubs), rs_sig = replicate (length pubs) Signature_ZERO,
               rs_sum = 0, rs_k = replicate 32 0\<rparr>))"

text \<open>The verifier's loop; \<open>None\<close> is \<open>return false\<close>.\<close>

fun ring_check_loop :: "('s::comm_ring_1, 'p::ab_group_add) dalek \<Rightarrow> 'p \<Rightarrow> usize \<Rightarrow> PublicKey list \<Rightarrow> Signature list \<Rightarrow> bytes \<Rightarrow> 's
    \<Rightarrow> (bytes \<times> 's) option" where
  "ring_check_loop C image_point i [] sigs buf tot = Some (buf, tot)"
| "ring_check_loop C image_point i (p # ps) sigs buf tot =
     (if \<not> sc_check C (sig_c (sigs ! i)) \<or> \<not> sc_check C (sig_r (sigs ! i)) then None
      else case decode_point C p of
        None \<Rightarrow> None
      | Some point \<Rightarrow>
          let ci = dk_from_bytes_mod_order C (sig_c (sigs ! i)); ri = dk_from_bytes_mod_order C (sig_r (sigs ! i));
              a = encode_point C (double_scalarmult_base_vartime C ci point ri) in
          case hash_to_ec_point C p of
            None \<Rightarrow> None
          | Some hp \<Rightarrow>
              let b = encode_point C (double_scalarmult_vartime C ri hp ci image_point)
              in ring_check_loop C image_point (i + 1) ps sigs (rs_comm_set buf i a b) (tot + ci))"

definition check_ring_signature :: "('s::comm_ring_1, 'p::ab_group_add) dalek \<Rightarrow> Hash256 \<Rightarrow> KeyImage \<Rightarrow> PublicKey list
    \<Rightarrow> Signature list \<Rightarrow> bool" where
  "check_ring_signature C prefix_hash key_image pubs sigs =
     (if length pubs \<noteq> length sigs then False
      else case decode_point C key_image of
        None \<Rightarrow> False
      | Some image_point \<Rightarrow>
          (case ring_check_loop C image_point 0 pubs sigs (rs_comm_buf prefix_hash (length pubs)) 0 of
             None \<Rightarrow> False
           | Some (buf, tot) \<Rightarrow>
               let h = hash_to_scalar C buf; diff = dk_from_bytes_mod_order C h - tot in diff = 0))"

definition is_point_at_infinity :: "'p::ab_group_add \<Rightarrow> bool" where "is_point_at_infinity p \<longleftrightarrow> p = 0"

section \<open>Schnorr signatures\<close>

lemma nonzero_to_bytes: "lawful C \<Longrightarrow> sc_is_nonzero (dk_to_bytes C s) \<longleftrightarrow> s \<noteq> 0"
  by (simp add: sc_is_nonzero_def to_bytes_zero)

text \<open>With a nonce whose commitment does not encode as the identity, what an attempt returns verifies.\<close>

lemma attempt_verifies:
  assumes "lawful C" "length sec = 32" "secret_key_to_public_key C sec = Some pub_key" "length k = 32"
    "encode_point C (scalarmult_base C (dk_from_bytes_mod_order C k)) \<noteq> ENCODED_IDENTITY"
    "signature_attempt C h pub_key sec k = Some sig"
  shows "check_signature C h pub_key sig"
proof -
  note G = point_lawD(2) [OF assms(1)]
  let ?k = "dk_from_bytes_mod_order C k"
  obtain x where x: "decode_scalar C sec = Some x" "pub_key = encode_point C (dk_smul C x (dk_base C))"
    using assms(3) by (auto simp: secret_key_to_public_key_def scalarmult_base_def bind_eq_Some_conv)
  define c where "c = hash_to_scalar_dalek C (s_comm h pub_key (encode_point C (scalarmult_base C ?k)))"
  have s: "sig = \<lparr>sig_c = dk_to_bytes C c, sig_r = dk_to_bytes C (?k - c * x)\<rparr>" and nz: "c \<noteq> 0"
    using assms(1,6) decode_scalar_Some [OF assms(1,2) x(1)]
    by (auto simp: signature_attempt_def Let_def hash_to_scalar_bytes c_def [symmetric] nonzero_to_bytes sc_mulsub_def
        decode_scalar_unreduced_def scalar_bytes_roundtrip split: if_splits)
  have "double_scalarmult_base_vartime C c (dk_smul C x (dk_base C)) (?k - c * x) = scalarmult_base C ?k"
    using assms(1) G by (simp add: double_scalarmult_base_vartime_def scalarmult_base_def smul_diff smul_mult)
  then show ?thesis
    using assms(1,5) nz x(2) unfolding s
    by (simp add: check_signature_def Let_def decode_encode nonzero_to_bytes scalar_bytes_roundtrip hash_to_scalar_bytes c_def)
qed

lemma signature_loop_result:
  assumes "signature_loop C h pub_key sec st = Some y"
  shows "\<exists>k st1. random_scalar C st1 = Some (k, snd y) \<and> signature_attempt C h pub_key sec k = Some (fst y)"
proof (rule signature_loop.raw_induct [OF _ assms, where P = "\<lambda>C h pub_key sec st y.
    \<exists>k st1. random_scalar C st1 = Some (k, snd y) \<and> signature_attempt C h pub_key sec k = Some (fst y)"])
  fix f C h pub_key sec st y
  assume IH: "\<And>C h pub_key sec st y. f C h pub_key sec st = Some y \<Longrightarrow>
      \<exists>k st1. random_scalar C st1 = Some (k, snd y) \<and> signature_attempt C h pub_key sec k = Some (fst y)"
    and body: "Option.bind (random_scalar C st) (\<lambda>(k, st').
       case signature_attempt C h pub_key sec k of None \<Rightarrow> f C h pub_key sec st' | Some sig \<Rightarrow> Some (sig, st')) = Some y"
  then show "\<exists>k st1. random_scalar C st1 = Some (k, snd y) \<and> signature_attempt C h pub_key sec k = Some (fst y)"
    by (fastforce simp: bind_eq_Some_conv split: option.splits)
qed

section \<open>When signing returns\<close>

text \<open>The \<open>n\<close>-th scalar drawn from a state.\<close>

fun draw_nth :: "('s, 'p) dalek \<Rightarrow> nat \<Rightarrow> Rng \<Rightarrow> bytes option" where
  "draw_nth C 0 st = map_option fst (random_scalar C st)"
| "draw_nth C (Suc n) st = Option.bind (random_scalar C st) (\<lambda>(k, st'). draw_nth C n st')"

lemma signature_loop_returns_if:
  "draw_nth C n st = Some k \<Longrightarrow> signature_attempt C h pub_key sec k \<noteq> None \<Longrightarrow> \<exists>y. signature_loop C h pub_key sec st = Some y"
proof (induction n arbitrary: st)
  case 0
  then show ?case by (subst signature_loop.simps) (auto split: option.splits)
next
  case (Suc n)
  then obtain k' st' where "random_scalar C st = Some (k', st')" "draw_nth C n st' = Some k"
    by (auto simp: bind_eq_Some_conv)
  with Suc.IH [OF this(2) Suc.prems(2)] show ?case by (subst signature_loop.simps) (auto split: option.splits)
qed

lemma signature_loop_returns_only_if:
  assumes "signature_loop C h pub_key sec st = Some y"
  shows "\<exists>n k. draw_nth C n st = Some k \<and> signature_attempt C h pub_key sec k \<noteq> None"
proof (rule signature_loop.raw_induct [OF _ assms, where P = "\<lambda>C h pub_key sec st y.
    \<exists>n k. draw_nth C n st = Some k \<and> signature_attempt C h pub_key sec k \<noteq> None"])
  fix f C h pub_key sec st y
  assume IH: "\<And>C h pub_key sec st y. f C h pub_key sec st = Some y \<Longrightarrow>
      \<exists>n k. draw_nth C n st = Some k \<and> signature_attempt C h pub_key sec k \<noteq> None"
    and body: "Option.bind (random_scalar C st) (\<lambda>(k, st').
       case signature_attempt C h pub_key sec k of None \<Rightarrow> f C h pub_key sec st' | Some sig \<Rightarrow> Some (sig, st')) = Some y"
  then obtain k st' where k: "random_scalar C st = Some (k, st')" by (auto simp: bind_eq_Some_conv)
  show "\<exists>n k. draw_nth C n st = Some k \<and> signature_attempt C h pub_key sec k \<noteq> None"
  proof (cases "signature_attempt C h pub_key sec k")
    case None
    then obtain n k' where "draw_nth C n st' = Some k'" "signature_attempt C h pub_key sec k' \<noteq> None"
      using IH [of C h pub_key sec st' y] body k by auto
    then show ?thesis using k by (intro exI [of _ "Suc n"] exI [of _ k']) simp
  next
    case (Some sig)
    then show ?thesis using k by (intro exI [of _ 0] exI [of _ k]) simp
  qed
qed

lemma drawn_nonce:
  assumes "lawful C" "random_scalar C st = Some (k, st')"
  shows "encode_point C (scalarmult_base C (dk_from_bytes_mod_order C k)) \<noteq> ENCODED_IDENTITY" "length k = 32"
proof -
  have k: "length k = 32" "sc_check C k" "sc_is_nonzero k" using random_scalar_Some [OF assms] by auto
  obtain x where x: "decode_scalar C k = Some x" using k(2) by (auto simp: sc_check_def decode_scalar_def)
  have "dk_to_bytes C x = k" "dk_from_bytes_mod_order C k = x"
    using decode_scalar_Some [OF assms(1) k(1) x] by (simp_all add: decode_scalar_unreduced_def)
  moreover from this have "x \<noteq> 0" using k(3) assms(1) nonzero_to_bytes by metis
  moreover have "ENCODED_IDENTITY = encode_point C 0"
    using point_lawD(9) [OF assms(1)] le_bytes_le_nat [OF ONE_LE_value(1), unfolded ONE_LE_value(2)]
    by (simp only: encode_point_def ENCODED_IDENTITY_def ONE_LE_def)
  ultimately show "encode_point C (scalarmult_base C (dk_from_bytes_mod_order C k)) \<noteq> ENCODED_IDENTITY"
    using assms(1) by (metis encode_eq scalarmult_base_def base_eq_zero)
  show "length k = 32" by (rule k(1))
qed

lemma signature_loop_verifies:
  assumes "lawful C" "length sec = 32" "secret_key_to_public_key C sec = Some pub_key"
    "signature_loop C h pub_key sec st = Some (sig, st')"
  shows "check_signature C h pub_key sig"
proof -
  obtain k st1 where k: "random_scalar C st1 = Some (k, st')" "signature_attempt C h pub_key sec k = Some sig"
    using signature_loop_result [OF assms(4)] by auto
  show ?thesis
    by (rule attempt_verifies [OF assms(1,2,3) drawn_nonce(2) [OF assms(1) k(1)] drawn_nonce(1) [OF assms(1) k(1)] k(2)])
qed

lemma signature_loop_None:
  "signature_loop C h pub_key sec st = None \<longleftrightarrow>
     (\<nexists>n k. draw_nth C n st = Some k \<and> signature_attempt C h pub_key sec k \<noteq> None)"
  using signature_loop_returns_if signature_loop_returns_only_if by (metis option.exhaust option.discI)

text \<open>C21. Signing with the secret of a public key: the call returns exactly when one of the scalars the generator yields
  gives a non-zero challenge and response, and what it returns then is a signature that verifies under that key.\<close>

theorem signature_complete:
  assumes "lawful C" "length sec = 32" "secret_key_to_public_key C sec = Some pub_key"
  shows "(generate_signature C st h pub_key sec = None \<longleftrightarrow>
      (\<nexists>n k. draw_nth C n st = Some k \<and> signature_attempt C h pub_key sec k \<noteq> None)) \<and>
    (case generate_signature C st h pub_key sec of
       None \<Rightarrow> True | Some (None, _) \<Rightarrow> False | Some (Some sig, _) \<Rightarrow> check_signature C h pub_key sig)"
proof -
  have sc: "sc_check C sec" using assms(3) by (auto simp: secret_key_to_public_key_def sc_check_def decode_scalar_def bind_eq_Some_conv)
  note r = signature_loop_None [of C h pub_key sec st]
  show ?thesis
  proof (cases "signature_loop C h pub_key sec st")
    case None
    then show ?thesis using r sc by (simp add: generate_signature_def)
  next
    case (Some y)
    obtain sig st' where "y = (sig, st')" by (cases y)
    with Some have y: "signature_loop C h pub_key sec st = Some (sig, st')" by simp
    show ?thesis using r sc y signature_loop_verifies [OF assms y] by (auto simp: generate_signature_def)
  qed
qed

theorem signature_complete_witness:
  "lawful zl_dalek \<and> secret_key_to_public_key zl_dalek (le_bytes 32 3) = Some (le_bytes 32 (1 + 3)) \<and>
   (case generate_signature zl_dalek deterministic_test_seed NULL_HASH (le_bytes 32 (1 + 3)) (le_bytes 32 3) of
      None \<Rightarrow> True | Some (None, _) \<Rightarrow> False | Some (Some sig, _) \<Rightarrow> check_signature zl_dalek NULL_HASH (le_bytes 32 (1 + 3)) sig)"
proof -
  have p: "secret_key_to_public_key zl_dalek (le_bytes 32 3) = Some (le_bytes 32 (1 + 3))" by (rule zl_public) (simp add: L255_def)
  from signature_complete [OF zl_laws length_le_bytes p, of deterministic_test_seed NULL_HASH] show ?thesis
    using p zl_laws by blast
qed

section \<open>Completeness of the ring signature\<close>

text \<open>What the verifier writes for one member.\<close>

definition ring_entry :: "('s::comm_ring_1, 'p::ab_group_add) dalek \<Rightarrow> 'p \<Rightarrow> 'p \<Rightarrow> 'p \<Rightarrow> Signature \<Rightarrow> bytes" where
  "ring_entry C image_point point hp sig =
     (let ci = dk_from_bytes_mod_order C (sig_c sig); ri = dk_from_bytes_mod_order C (sig_r sig)
      in encode_point C (double_scalarmult_base_vartime C ci point ri) @
         encode_point C (double_scalarmult_vartime C ri hp ci image_point))"

definition sig_ok :: "('s, 'p) dalek \<Rightarrow> Signature \<Rightarrow> bool" where
  "sig_ok C sig \<longleftrightarrow> sc_check C (sig_c sig) \<and> sc_check C (sig_r sig)"

fun member_decodes :: "('s, 'p) dalek \<Rightarrow> PublicKey \<Rightarrow> 'p \<times> 'p \<Rightarrow> bool" where
  "member_decodes C p (P, hp) \<longleftrightarrow> decode_point C p = Some P \<and> hash_to_ec_point C p = Some hp"

text \<open>The buffer after the members before \<open>i\<close>: the hash, their entries \<open>E\<close>, and zeros.\<close>

definition ring_buf :: "Hash256 \<Rightarrow> bytes \<Rightarrow> nat \<Rightarrow> bytes" where
  "ring_buf h E m = h @ E @ replicate (64 * m) 0"

lemma ring_buf_set:
  assumes "length h = 32" "length E = 64 * i" "length a = 32" "length b = 32"
  shows "rs_comm_set (ring_buf h E (Suc m)) i a b = ring_buf h (E @ a @ b) m"
  using assms by (simp add: rs_comm_set_def ring_buf_def copy_at_def Let_def)

lemma rs_comm_buf_start: "length h = 32 \<Longrightarrow> rs_comm_buf h n = ring_buf h [] n"
  by (simp add: rs_comm_buf_def ring_buf_def copy_at_def)

lemma ring_entry_length: "lawful C \<Longrightarrow> length (ring_entry C I P hp sig) = 64"
  by (simp add: ring_entry_def Let_def)

text \<open>The verifier's loop over members that decode and signatures that are canonical.\<close>

lemma ring_check_loop_eq:
  assumes "lawful C" "length h = 32"
  shows "length E = 64 * i \<Longrightarrow> i + length ps = length sigs \<Longrightarrow> list_all2 (member_decodes C) ps ds \<Longrightarrow>
    list_all (sig_ok C) (drop i sigs) \<Longrightarrow>
    ring_check_loop C I i ps sigs (ring_buf h E (length ps)) tot =
      Some (h @ E @ concat (map2 (case_prod (ring_entry C I)) ds (drop i sigs)),
            tot + sum_list (map (\<lambda>s. dk_from_bytes_mod_order C (sig_c s)) (drop i sigs)))"
proof (induction ps arbitrary: i E ds tot)
  case Nil
  then show ?case by (simp add: ring_buf_def)
next
  case (Cons p ps)
  obtain P hp ds' where ds: "ds = (P, hp) # ds'" and d: "decode_point C p = Some P" "hash_to_ec_point C p = Some hp"
    and rest: "list_all2 (member_decodes C) ps ds'"
    using Cons.prems(3) by (auto simp: list_all2_Cons1)
  have i: "i < length sigs" using Cons.prems(2) by simp
  then have sp: "drop i sigs = sigs ! i # drop (Suc i) sigs" by (simp add: Cons_nth_drop_Suc)
  have ok: "sc_check C (sig_c (sigs ! i))" "sc_check C (sig_r (sigs ! i))" "list_all (sig_ok C) (drop (Suc i) sigs)"
    using Cons.prems(4) unfolding sp by (simp_all add: sig_ok_def [of C "sigs ! i"])
  let ?e = "ring_entry C I P hp (sigs ! i)" and ?c = "dk_from_bytes_mod_order C (sig_c (sigs ! i))"
  have "ring_check_loop C I i (p # ps) sigs (ring_buf h E (length (p # ps))) tot =
      ring_check_loop C I (Suc i) ps sigs (ring_buf h (E @ ?e) (length ps)) (tot + ?c)"
    using ok d ring_buf_set [OF assms(2) Cons.prems(1)] assms(1) by (simp add: Let_def ring_entry_def)
  also have "\<dots> = Some (h @ (E @ ?e) @ concat (map2 (case_prod (ring_entry C I)) ds' (drop (Suc i) sigs)),
      tot + ?c + sum_list (map (\<lambda>s. dk_from_bytes_mod_order C (sig_c s)) (drop (Suc i) sigs)))"
    by (rule Cons.IH) (use Cons.prems ok rest ring_entry_length [OF assms(1)] in simp_all)
  finally show ?case unfolding sp ds by (simp add: add.assoc)
qed

text \<open>The generator's loop over decoys only.\<close>

lemma ring_gen_decoys:
  assumes "lawful C" "length h = 32"
  shows "sec_index \<notin> {i..<i + length ps} \<Longrightarrow> length E = 64 * i \<Longrightarrow> i + length ps \<le> length (rs_sig S) \<Longrightarrow>
    rs_buf S = ring_buf h E (length ps + m) \<Longrightarrow>
    ring_gen_loop C I sec_index i ps rng S = Some (Some S', rng') \<Longrightarrow>
    \<exists>ds new. list_all2 (member_decodes C) ps ds \<and>
      length new = length ps \<and> list_all (sig_ok C) new \<and>
      rs_buf S' = ring_buf h (E @ concat (map2 (case_prod (ring_entry C I)) ds new)) m \<and>
      rs_sig S' = take i (rs_sig S) @ new @ drop (i + length ps) (rs_sig S) \<and>
      rs_sum S' = rs_sum S + sum_list (map (\<lambda>s. dk_from_bytes_mod_order C (sig_c s)) new) \<and> rs_k S' = rs_k S"
proof (induction ps arbitrary: i E S rng)
  case Nil
  then show ?case by (intro exI [of _ "[]"]) (auto simp: ring_buf_def)
next
  case (Cons p ps)
  have ne: "i \<noteq> sec_index" using Cons.prems(1) by auto
  obtain c rng1 r rng2 P hp where c: "random_scalar C rng = Some (c, rng1)" "random_scalar C rng1 = Some (r, rng2)"
    and d: "decode_point C p = Some P" "hash_to_ec_point C p = Some hp"
    and step: "ring_gen_loop C I sec_index (Suc i) ps rng2
      (S\<lparr>rs_buf := rs_comm_set (rs_buf S) i
          (encode_point C (double_scalarmult_base_vartime C (dk_from_bytes_mod_order C c) P (dk_from_bytes_mod_order C r)))
          (encode_point C (double_scalarmult_vartime C (dk_from_bytes_mod_order C r) hp (dk_from_bytes_mod_order C c) I)),
         rs_sig := (rs_sig S)[i := \<lparr>sig_c = c, sig_r = r\<rparr>], rs_sum := rs_sum S + dk_from_bytes_mod_order C c\<rparr>) = Some (Some S', rng')"
    using Cons.prems(5) ne by (auto simp: bind_eq_Some_conv Let_def split: option.splits)
  let ?s = "\<lparr>sig_c = c, sig_r = r\<rparr>"
  let ?e = "ring_entry C I P hp ?s"
  have ok: "sig_ok C ?s" using random_scalar_Some [OF assms(1)] c by (auto simp: sig_ok_def)
  have "length E = 64 * i" by fact
  then have b: "rs_comm_set (rs_buf S) i
      (encode_point C (double_scalarmult_base_vartime C (dk_from_bytes_mod_order C c) P (dk_from_bytes_mod_order C r)))
      (encode_point C (double_scalarmult_vartime C (dk_from_bytes_mod_order C r) hp (dk_from_bytes_mod_order C c) I)) =
      ring_buf h (E @ ?e) (length ps + m)"
    unfolding Cons.prems(4) using ring_buf_set [OF assms(2)] assms(1) by (simp add: ring_entry_def Let_def)
  obtain ds new where n: "list_all2 (member_decodes C) ps ds"
    "length new = length ps" "list_all (sig_ok C) new"
    "rs_buf S' = ring_buf h ((E @ ?e) @ concat (map2 (case_prod (ring_entry C I)) ds new)) m"
    "rs_sig S' = take (Suc i) ((rs_sig S)[i := ?s]) @ new @ drop (Suc i + length ps) ((rs_sig S)[i := ?s])"
    "rs_sum S' = rs_sum S + dk_from_bytes_mod_order C c + sum_list (map (\<lambda>s. dk_from_bytes_mod_order C (sig_c s)) new)" "rs_k S' = rs_k S"
    using Cons.IH [OF _ _ _ _ step, of "E @ ?e"] Cons.prems ring_entry_length [OF assms(1)] b by auto
  have "take (Suc i) ((rs_sig S)[i := ?s]) = take i (rs_sig S) @ [?s]" using Cons.prems(3) by (simp add: take_Suc_conv_app_nth)
  with n d ok show ?case
    by (intro exI [of _ "(P, hp) # ds"] exI [of _ "?s # new"]) (simp add: add.assoc)
qed

lemma ring_gen_loop_append:
  "ring_gen_loop C I sec_index i (xs @ ys) rng S = Some (Some S', rng') \<Longrightarrow>
    \<exists>S1 rng1. ring_gen_loop C I sec_index i xs rng S = Some (Some S1, rng1) \<and>
      ring_gen_loop C I sec_index (i + length xs) ys rng1 S1 = Some (Some S', rng')"
proof (induction xs arbitrary: i rng S)
  case (Cons p xs)
  show ?case
  proof (cases "i = sec_index")
    case True
    with Cons show ?thesis by (fastforce simp: bind_eq_Some_conv Let_def split: option.splits)
  next
    case False
    with Cons show ?thesis by (fastforce simp: bind_eq_Some_conv Let_def split: option.splits)
  qed
qed simp

lemma ring_gen_loop_None:
  "ring_gen_loop C I sec_index i ps rng S = Some (None, rng') \<Longrightarrow>
    \<exists>p \<in> set ps. decode_point C p = None \<or> hash_to_ec_point C p = None"
proof (induction ps arbitrary: i rng S)
  case (Cons p ps)
  show ?case
  proof (cases "i = sec_index")
    case True
    with Cons show ?thesis by (fastforce simp: bind_eq_Some_conv Let_def split: option.splits)
  next
    case False
    with Cons show ?thesis by (fastforce simp: bind_eq_Some_conv Let_def split: option.splits)
  qed
qed simp

text \<open>The signer's own entry: with \<open>r = k - c x\<close> the verifier recomputes the nonce commitments.\<close>

lemma ring_entry_signer:
  assumes "lawful C" "torsion_free hp"
  shows "ring_entry C (dk_smul C x hp) (dk_smul C x (dk_base C)) hp \<lparr>sig_c = dk_to_bytes C c, sig_r = dk_to_bytes C (k - c * x)\<rparr> =
    encode_point C (dk_smul C k (dk_base C)) @ encode_point C (dk_smul C k hp)"
proof -
  note G = point_lawD(2) [OF assms(1)]
  have "dk_smul C c (dk_smul C x Q) + dk_smul C (k - c * x) Q = dk_smul C k Q" if "torsion_free Q" for Q
    using assms(1) that by (simp add: smul_diff smul_mult)
  from this [OF G] this [OF assms(2)] show ?thesis
    using assms(1) by (simp add: ring_entry_def Let_def scalar_bytes_roundtrip double_scalarmult_base_vartime_def
        double_scalarmult_vartime_def add.commute)
qed

text \<open>What a successful generation leaves: signatures for every member, and the buffer the verifier rebuilds.\<close>

lemma ring_gen_loop_result:
  assumes "lawful C" "length h = 32" "pubs = pre @ encode_point C (dk_smul C x (dk_base C)) # post" "sec_index = length pre"
    "hash_to_ec_point C (pubs ! sec_index) = Some hp"
    "ring_gen_loop C I sec_index 0 pubs rng
       \<lparr>rs_buf = rs_comm_buf h (length pubs), rs_sig = replicate (length pubs) Signature_ZERO, rs_sum = 0, rs_k = k0\<rparr> = Some (Some S, rng')"
  shows "\<exists>ds1 new1 ds2 new2. list_all2 (member_decodes C) pre ds1 \<and>
    list_all2 (member_decodes C) post ds2 \<and>
    length new1 = length pre \<and> length new2 = length post \<and> list_all (sig_ok C) (new1 @ new2) \<and> length (rs_k S) = 32 \<and>
    rs_sig S = new1 @ Signature_ZERO # new2 \<and>
    rs_sum S = sum_list (map (\<lambda>s. dk_from_bytes_mod_order C (sig_c s)) (new1 @ new2)) \<and>
    rs_buf S = h @ concat (map2 (case_prod (ring_entry C I)) ds1 new1) @
      (encode_point C (dk_smul C (dk_from_bytes_mod_order C (rs_k S)) (dk_base C)) @
       encode_point C (dk_smul C (dk_from_bytes_mod_order C (rs_k S)) hp)) @
      concat (map2 (case_prod (ring_entry C I)) ds2 new2)"
proof -
  define S0 where "S0 = \<lparr>rs_buf = rs_comm_buf h (length pubs), rs_sig = replicate (length pubs) Signature_ZERO, rs_sum = (0 :: 'a), rs_k = k0\<rparr>"
  let ?P = "encode_point C (dk_smul C x (dk_base C))"
  have hp: "hash_to_ec_point C ?P = Some hp" using assms(3-5) by (simp add: nth_append)
  obtain S1 rng1 where 1: "ring_gen_loop C I sec_index 0 pre rng S0 = Some (Some S1, rng1)"
    and 2: "ring_gen_loop C I sec_index (length pre) (?P # post) rng1 S1 = Some (Some S, rng')"
    using ring_gen_loop_append [OF assms(6) [folded S0_def, unfolded assms(3)]] unfolding add_0 by blast
  obtain ds1 new1 where n1: "list_all2 (member_decodes C) pre ds1"
    "length new1 = length pre" "list_all (sig_ok C) new1"
    "rs_buf S1 = ring_buf h (concat (map2 (case_prod (ring_entry C I)) ds1 new1)) (Suc (length post))"
    "rs_sig S1 = new1 @ replicate (Suc (length post)) Signature_ZERO"
    "rs_sum S1 = sum_list (map (\<lambda>s. dk_from_bytes_mod_order C (sig_c s)) new1)"
  proof -
    have a: "sec_index \<notin> {0..<0 + length pre}" "length ([] :: bytes) = 64 * 0" "0 + length pre \<le> length (rs_sig S0)"
      "rs_buf S0 = ring_buf h [] (length pre + Suc (length post))"
      using assms(2-4) by (simp_all add: S0_def rs_comm_buf_start)
    have d: "drop (length pre) (rs_sig S0) = replicate (Suc (length post)) Signature_ZERO" "rs_sum S0 = 0"
      using assms(3) by (simp_all add: S0_def del: replicate.simps)
    from ring_gen_decoys [OF assms(1,2) a 1] that show thesis unfolding d append_Nil take_0 add_0 by blast
  qed
  let ?E = "concat (map2 (case_prod (ring_entry C I)) ds1 new1)"
  have "length ds1 = length new1" using n1(1,2) list_all2_lengthD by fastforce
  then have lE: "length ?E = 64 * length pre"
    using n1(2) ring_entry_length [OF assms(1)] by (subst length_concat_const [where k = 64]) auto
  obtain k rng2 where k: "random_scalar C rng1 = Some (k, rng2)"
    and 3: "ring_gen_loop C I sec_index (Suc (length pre)) post rng2
      (S1\<lparr>rs_buf := rs_comm_set (rs_buf S1) (length pre) (encode_point C (dk_smul C (dk_from_bytes_mod_order C k) (dk_base C)))
         (encode_point C (dk_smul C (dk_from_bytes_mod_order C k) hp)), rs_k := k\<rparr>) = Some (Some S, rng')"
    using 2 hp assms(4) by (auto simp: bind_eq_Some_conv Let_def scalarmult_base_def)
  let ?e = "encode_point C (dk_smul C (dk_from_bytes_mod_order C k) (dk_base C)) @ encode_point C (dk_smul C (dk_from_bytes_mod_order C k) hp)"
  have b: "rs_comm_set (rs_buf S1) (length pre) (encode_point C (dk_smul C (dk_from_bytes_mod_order C k) (dk_base C)))
      (encode_point C (dk_smul C (dk_from_bytes_mod_order C k) hp)) = ring_buf h (?E @ ?e) (length post)"
    unfolding n1(4) using ring_buf_set [OF assms(2) lE] assms(1) by simp
  obtain ds2 new2 where n2: "list_all2 (member_decodes C) post ds2"
    "length new2 = length post" "list_all (sig_ok C) new2"
    "rs_buf S = ring_buf h ((?E @ ?e) @ concat (map2 (case_prod (ring_entry C I)) ds2 new2)) 0"
    "rs_sig S = take (Suc (length pre)) (rs_sig S1) @ new2 @ drop (Suc (length pre) + length post) (rs_sig S1)"
    "rs_sum S = rs_sum S1 + sum_list (map (\<lambda>s. dk_from_bytes_mod_order C (sig_c s)) new2)" "rs_k S = k"
    using ring_gen_decoys [OF assms(1,2) _ _ _ _ 3, of "?E @ ?e" 0] assms(1,4) lE b n1(2,5) by (auto simp: length_append)
  have "length k = 32" by (rule drawn_nonce(2) [OF assms(1) k])
  then show ?thesis
    using n1 n2 by (intro exI [of _ ds1] exI [of _ new1] exI [of _ ds2] exI [of _ new2]) (simp add: ring_buf_def)
qed

lemma ring_signature_verifies:
  assumes "lawful C" "length h = 32" "length sec = 32" "sec_index < length pubs"
    "secret_key_to_public_key C sec = Some (pubs ! sec_index)" "generate_key_image C (pubs ! sec_index) sec = Some img"
    "generate_ring_signature C rng h img pubs sec sec_index = Some (Some sigs, rng')"
  shows "check_ring_signature C h img pubs sigs"
proof -
  obtain x where x: "decode_scalar C sec = Some x" "pubs ! sec_index = encode_point C (dk_smul C x (dk_base C))"
    using assms(5) by (auto simp: secret_key_to_public_key_def scalarmult_base_def bind_eq_Some_conv)
  obtain hp where hp: "hash_to_ec_point C (pubs ! sec_index) = Some hp" "img = encode_point C (dk_smul C x hp)"
    using assms(6) x(1) by (auto simp: generate_key_image_def bind_eq_Some_conv)
  have tf: "torsion_free hp" by (rule hash_to_ec_torsion_free [OF assms(1) hp(1)])
  define pre post where "pre = take sec_index pubs" and "post = drop (Suc sec_index) pubs"
  have pubs: "pubs = pre @ encode_point C (dk_smul C x (dk_base C)) # post" and lp: "sec_index = length pre"
    using assms(4) id_take_nth_drop [OF assms(4)] by (simp_all add: pre_def post_def x(2))
  let ?I = "dk_smul C x hp"
  have img: "decode_point C img = Some ?I" using assms(1) hp(2) by (simp add: decode_encode)
  obtain S where loop: "ring_gen_loop C ?I sec_index 0 pubs rng \<lparr>rs_buf = rs_comm_buf h (length pubs),
      rs_sig = replicate (length pubs) Signature_ZERO, rs_sum = 0, rs_k = replicate 32 0\<rparr> = Some (Some S, rng')"
    and sg: "sigs = (rs_sig S)[sec_index := \<lparr>sig_c = dk_to_bytes C (hash_to_scalar_dalek C (rs_buf S) - rs_sum S),
      sig_r = sc_mulsub C (dk_to_bytes C (hash_to_scalar_dalek C (rs_buf S) - rs_sum S)) sec (rs_k S)\<rparr>]"
    using assms(1,7) img
    by (auto simp: generate_ring_signature_def Let_def hash_to_scalar_bytes scalar_bytes_roundtrip split: if_splits)
  obtain ds1 new1 ds2 new2 where n: "list_all2 (member_decodes C) pre ds1" "list_all2 (member_decodes C) post ds2"
    "length new1 = length pre" "length new2 = length post" "list_all (sig_ok C) (new1 @ new2)" "length (rs_k S) = 32"
    "rs_sig S = new1 @ Signature_ZERO # new2"
    "rs_sum S = sum_list (map (\<lambda>s. dk_from_bytes_mod_order C (sig_c s)) (new1 @ new2))"
    and buf: "rs_buf S = h @ concat (map2 (case_prod (ring_entry C ?I)) ds1 new1) @
      (encode_point C (dk_smul C (dk_from_bytes_mod_order C (rs_k S)) (dk_base C)) @
       encode_point C (dk_smul C (dk_from_bytes_mod_order C (rs_k S)) hp)) @
      concat (map2 (case_prod (ring_entry C ?I)) ds2 new2)"
    using ring_gen_loop_result [OF assms(1,2) pubs lp hp(1) loop] by blast
  define c where "c = hash_to_scalar_dalek C (rs_buf S) - rs_sum S"
  define k where "k = dk_from_bytes_mod_order C (rs_k S)"
  let ?s = "\<lparr>sig_c = dk_to_bytes C c, sig_r = dk_to_bytes C (k - c * x)\<rparr>"
  have "sc_mulsub C (dk_to_bytes C c) sec (rs_k S) = dk_to_bytes C (k - c * x)"
    using assms(1) decode_scalar_Some [OF assms(1,3) x(1)]
    by (simp add: sc_mulsub_def decode_scalar_unreduced_def k_def scalar_bytes_roundtrip)
  then have sigs: "sigs = new1 @ ?s # new2" unfolding sg n(7) c_def [symmetric] lp n(3) [symmetric] by simp
  have ds: "list_all2 (member_decodes C) pubs (ds1 @ (dk_smul C x (dk_base C), hp) # ds2)"
    unfolding pubs using n(1,2) assms(1) hp(1) x(2) by (auto intro: list_all2_appendI simp: decode_encode)
  have ok: "list_all (sig_ok C) sigs" unfolding sigs using n(5) assms(1) by (simp add: sig_ok_def [of C ?s])
  have l1: "length ds1 = length new1" using n(1,3) list_all2_lengthD by fastforce
  have "ring_check_loop C ?I 0 pubs sigs (rs_comm_buf h (length pubs)) 0 =
      Some (rs_buf S, sum_list (map (\<lambda>s. dk_from_bytes_mod_order C (sig_c s)) sigs))"
    using ring_check_loop_eq [OF assms(1,2), of "[]" 0 pubs sigs _ ?I 0] ds ok rs_comm_buf_start [OF assms(2)]
      ring_entry_signer [OF assms(1) tf, of x c k] l1 n(3,4) pubs buf
    by (simp add: sigs k_def)
  moreover have "sum_list (map (\<lambda>s. dk_from_bytes_mod_order C (sig_c s)) sigs) = rs_sum S + c"
    unfolding sigs n(8) using assms(1) by (simp add: scalar_bytes_roundtrip algebra_simps)
  moreover have "length pubs = length sigs" unfolding sigs pubs using n(3,4) by simp
  ultimately show ?thesis
    using img assms(1) by (simp add: check_ring_signature_def Let_def hash_to_scalar_bytes scalar_bytes_roundtrip c_def)
qed

text \<open>C23. Ring signatures: for a signer whose key is a member of the ring, with the key image of that key, generation gives up
  only on a member that does not decode or hash to the curve, and every signature it returns verifies.\<close>

theorem ring_signature_complete:
  assumes "lawful C" "length h = 32" "length sec = 32" "sec_index < length pubs"
    "secret_key_to_public_key C sec = Some (pubs ! sec_index)"
  shows "case generate_key_image C (pubs ! sec_index) sec of
      None \<Rightarrow> hash_to_ec_point C (pubs ! sec_index) = None
    | Some img \<Rightarrow>
        (case generate_ring_signature C rng h img pubs sec sec_index of
           None \<Rightarrow> True
         | Some (None, _) \<Rightarrow> \<exists>p \<in> set pubs. decode_point C p = None \<or> hash_to_ec_point C p = None
         | Some (Some sigs, _) \<Rightarrow> check_ring_signature C h img pubs sigs)"
proof (cases "generate_key_image C (pubs ! sec_index) sec")
  case None
  then show ?thesis using assms(5)
    by (auto simp: generate_key_image_def secret_key_to_public_key_def bind_eq_None_conv bind_eq_Some_conv)
next
  case (Some img)
  have sc: "sc_check C sec" using assms(5) by (auto simp: secret_key_to_public_key_def sc_check_def decode_scalar_def bind_eq_Some_conv)
  obtain I where I: "decode_point C img = Some I"
    using Some assms(1) by (auto simp: generate_key_image_def bind_eq_Some_conv decode_encode)
  have "\<exists>p \<in> set pubs. decode_point C p = None \<or> hash_to_ec_point C p = None"
    if "generate_ring_signature C rng h img pubs sec sec_index = Some (None, rng')" for rng'
    using that ring_gen_loop_None [of C I sec_index 0 pubs rng] I sc assms(4)
    by (auto simp: generate_ring_signature_def split: if_splits)
  moreover have "check_ring_signature C h img pubs sigs"
    if "generate_ring_signature C rng h img pubs sec sec_index = Some (Some sigs, rng')" for sigs rng'
    by (rule ring_signature_verifies [OF assms Some that])
  ultimately show ?thesis using Some by (auto split: option.split)
qed

theorem ring_signature_complete_witness:
  "lawful zl_dalek \<and> secret_key_to_public_key zl_dalek (le_bytes 32 3) = Some ([le_bytes 32 (1 + 9), le_bytes 32 (1 + 3)] ! 1) \<and>
   (case generate_key_image zl_dalek ([le_bytes 32 (1 + 9), le_bytes 32 (1 + 3)] ! 1) (le_bytes 32 3) of
      None \<Rightarrow> hash_to_ec_point zl_dalek ([le_bytes 32 (1 + 9), le_bytes 32 (1 + 3)] ! 1) = None
    | Some img \<Rightarrow>
        (case generate_ring_signature zl_dalek deterministic_test_seed NULL_HASH img [le_bytes 32 (1 + 9), le_bytes 32 (1 + 3)] (le_bytes 32 3) 1 of
           None \<Rightarrow> True
         | Some (None, _) \<Rightarrow> \<exists>p \<in> set [le_bytes 32 (1 + 9), le_bytes 32 (1 + 3)]. decode_point zl_dalek p = None \<or> hash_to_ec_point zl_dalek p = None
         | Some (Some sigs, _) \<Rightarrow> check_ring_signature zl_dalek NULL_HASH img [le_bytes 32 (1 + 9), le_bytes 32 (1 + 3)] sigs))"
proof -
  let ?pubs = "[le_bytes 32 (1 + 9), le_bytes 32 (1 + 3)]"
  have n: "?pubs ! 1 = le_bytes 32 (1 + 3)" by (simp only: nth_Cons_Suc nth_Cons_0 One_nat_def)
  have p: "secret_key_to_public_key zl_dalek (le_bytes 32 3) = Some (?pubs ! 1)" unfolding n by (rule zl_public) (simp add: L255_def)
  have l: "length NULL_HASH = 32" "1 < length ?pubs" by (simp_all add: NULL_HASH_def)
  from ring_signature_complete [OF zl_laws l(1) length_le_bytes l(2) p, of deterministic_test_seed] show ?thesis
    using p zl_laws by blast
qed

end
