(* ===== verification/TxRules.thy ===== *)
theory TxRules
  imports Emission Signature
begin

text \<open>
  Coinbase and transaction rules, \<open>crates/wow-consensus/src/tx_rules.rs\<close>: the error type and the
  checks, each one a function of a transaction, the fork version and the chain context the rule
  needs. The signature check is the one of \<open>Signature\<close>, so the rules that use it take the curve
  package. Shown here: exactly which transactions pass the semantic check, with the exact fee;
  accepted inputs carry strictly decreasing, hence distinct, key images; the nine sequential
  gates on the RingCT type are the table of fork intervals; from version 15 every RingCT ring has
  22 members; exactly which coinbases are accepted, and that a header signed with the one-time
  key of the only output passes.
\<close>

section \<open>Errors\<close>

datatype TxError =
    CoinbaseOutputCount usize
  | InvalidVote u16
  | MinerSignature
  | BadCoinbaseInput
  | CoinbaseVersionTooLow u64
  | CoinbaseHasRctSignatures RctType
  | CoinbaseHeightMismatch u64 u64
  | CoinbaseUnlockTime u64 u64
  | OutputsOverflow
  | NoInputs
  | DuplicateKeyImage usize
  | UnsupportedInputType usize u8
  | NonZeroOutputAmountInV2 usize
  | InvalidOutputTarget usize u8
  | OutputsExceedInputs
  | InputsOverflow
  | WrongSignatureCount usize usize
  | VaryingRingSize usize usize
  | RingTooSmall usize usize
  | TooManyMixableInputs usize
  | InvalidRingSize usize usize
  | TxVersionTooHigh u64 u64
  | TxVersionTooLow u64 u64
  | WrongOutputType usize u8
  | MixedOutputTypes usize u8 u8
  | TooFewOutputs usize
  | UnsortedInputs usize
  | OutputTooRecent u64 u64
  | ForbiddenRctType RctType

section \<open>The unlock time of a coinbase\<close>

definition MINED_MONEY_UNLOCK_WINDOW :: u64 where "MINED_MONEY_UNLOCK_WINDOW = 60"
definition MINED_MONEY_UNLOCK_WINDOW_V2 :: u64 where "MINED_MONEY_UNLOCK_WINDOW_V2 = 288"
definition MAX_VOTE :: u16 where "MAX_VOTE = 2"

definition dynamic_unlock_window :: "bytes \<Rightarrow> u64" where
  "dynamic_unlock_window bid =
     (let twelve_bits = push_bit 4 (ucast (bid ! 0)) OR ucast (drop_bit 4 (bid ! 1))
      in twelve_bits * 2 + MINED_MONEY_UNLOCK_WINDOW_V2)"

text \<open>\<open>None\<close> is the panic of \<open>expect\<close>.\<close>

definition coinbase_unlock_time :: "u8 \<Rightarrow> u64 \<Rightarrow> bytes option \<Rightarrow> u64 option" where
  "coinbase_unlock_time hf_version height referenced_block_id =
     (if HF_VERSION_FIXED_UNLOCK \<le> hf_version then Some (height + MINED_MONEY_UNLOCK_WINDOW_V2)
      else if HF_VERSION_DYNAMIC_UNLOCK \<le> hf_version then
        map_option (\<lambda>id. height + dynamic_unlock_window id) referenced_block_id
      else Some (height + MINED_MONEY_UNLOCK_WINDOW))"

definition dynamic_unlock_lookback :: "Network \<Rightarrow> u64" where
  "dynamic_unlock_lookback network = (case network of Mainnet \<Rightarrow> 1337 | _ \<Rightarrow> 5)"

section \<open>Outputs\<close>

fun outs_overflow_loop :: "u64 \<Rightarrow> TxOut list \<Rightarrow> TxError + u64" where
  "outs_overflow_loop acc [] = Inr acc"
| "outs_overflow_loop acc (x # xs) =
     and_then (ok_or (checked_add acc (out_amount x)) OutputsOverflow) (\<lambda>acc. outs_overflow_loop acc xs)"

definition check_outs_overflow :: "TxOut list \<Rightarrow> TxError + u64" where
  "check_outs_overflow outs = outs_overflow_loop 0 outs"

fun is_to_key_target :: "TxOutTarget \<Rightarrow> bool" where
  "is_to_key_target (OutToKey _) = True"
| "is_to_key_target _ = False"

fun is_tagged_key_target :: "TxOutTarget \<Rightarrow> bool" where
  "is_tagged_key_target (OutToTaggedKey _ _) = True"
| "is_tagged_key_target _ = False"

text \<open>One pass of the loop of \<open>check_output_types\<close>; \<open>outs\<close> is the whole list, for \<open>vout[0]\<close>.\<close>

definition check_output_type :: "TxOut list \<Rightarrow> u8 \<Rightarrow> usize \<Rightarrow> TxOut \<Rightarrow> TxError + unit" where
  "check_output_type outs hf_version i x =
     (let tag = TxOutTarget_tag (out_target x) in
      if HF_VERSION_VIEW_TAGS < hf_version then
        if \<not> is_tagged_key_target (out_target x) then Inl (WrongOutputType i tag) else Inr ()
      else if hf_version < HF_VERSION_VIEW_TAGS then
        if \<not> is_to_key_target (out_target x) then Inl (WrongOutputType i tag) else Inr ()
      else if \<not> (is_to_key_target (out_target x) \<or> is_tagged_key_target (out_target x)) then
        Inl (WrongOutputType i tag)
      else
        let first = TxOutTarget_tag (out_target (outs ! 0)) in
        if tag \<noteq> first then Inl (MixedOutputTypes i tag first) else Inr ())"

fun output_types_loop :: "TxOut list \<Rightarrow> u8 \<Rightarrow> usize \<Rightarrow> TxOut list \<Rightarrow> TxError + unit" where
  "output_types_loop outs hf_version i [] = Inr ()"
| "output_types_loop outs hf_version i (x # xs) =
     and_then (check_output_type outs hf_version i x) (\<lambda>_. output_types_loop outs hf_version (Suc i) xs)"

definition check_output_types :: "TxOut list \<Rightarrow> u8 \<Rightarrow> TxError + unit" where
  "check_output_types outs hf_version = output_types_loop outs hf_version 0 outs"

definition check_min_outputs :: "Transaction \<Rightarrow> u8 \<Rightarrow> TxError + unit" where
  "check_min_outputs tx hf_version =
     (if HF_VERSION_MIN_2_OUTPUTS \<le> hf_version \<and> 2 \<le> version (tx_prefix tx) \<and> length (vout (tx_prefix tx)) < 2
      then Inl (TooFewOutputs (length (vout (tx_prefix tx)))) else Inr ())"

section \<open>The miner's header signature and the coinbase\<close>

text \<open>\<open>sig_data\<close> is \<open>None\<close> below version 18 and for a block whose tree has no root; the code answers both with the
  same error, and panics in neither case.\<close>

definition check_miner_signature :: "('s, 'p::ab_group_add) dalek \<Rightarrow> Block \<Rightarrow> u8 \<Rightarrow> TxError + unit" where
  "check_miner_signature C block hf_version =
     (if hf_version < gates_HF_VERSION_BLOCK_HEADER_MINER_SIG then Inr ()
      else
        let outs = vout (tx_prefix (miner_tx block)) in
        if length outs \<noteq> 1 then Inl (CoinbaseOutputCount (length outs))
        else and_then (check_output_types outs hf_version) (\<lambda>_.
          if MAX_VOTE < vote (header block) then Inl (InvalidVote (vote (header block)))
          else case sig_data block of None \<Rightarrow> Inl MinerSignature
          | Some data \<Rightarrow>
             (case TxOutTarget_public_key (out_target (outs ! 0)) of None \<Rightarrow> Inl MinerSignature
              | Some output_key \<Rightarrow>
                  if \<not> check_signature C data output_key (header_signature (header block))
                  then Inl MinerSignature else Inr ())))"

definition check_coinbase :: "Transaction \<Rightarrow> u8 \<Rightarrow> u64 \<Rightarrow> u64 \<Rightarrow> TxError + unit" where
  "check_coinbase tx hf_version height expected_unlock_time =
     (if length (vin (tx_prefix tx)) \<noteq> 1 then Inl BadCoinbaseInput
      else case vin (tx_prefix tx) ! 0 of
        Gen claimed_height \<Rightarrow>
          if version (tx_prefix tx) \<le> 1 \<and> HF_VERSION_MIN_V2_COINBASE_TX \<le> hf_version then
            Inl (CoinbaseVersionTooLow (version (tx_prefix tx)))
          else if HF_VERSION_REJECT_SIGS_IN_COINBASE \<le> hf_version \<and> 2 \<le> version (tx_prefix tx) \<and>
            rct_ty (rct_signatures tx) \<noteq> RctNull then
            Inl (CoinbaseHasRctSignatures (rct_ty (rct_signatures tx)))
          else if claimed_height \<noteq> height then Inl (CoinbaseHeightMismatch claimed_height height)
          else if unlock_time (tx_prefix tx) \<noteq> expected_unlock_time then
            Inl (CoinbaseUnlockTime (unlock_time (tx_prefix tx)) expected_unlock_time)
          else and_then (check_outs_overflow (vout (tx_prefix tx))) (\<lambda>_.
               and_then (check_output_types (vout (tx_prefix tx)) hf_version) (\<lambda>_. Inr ()))
      | _ \<Rightarrow> Inl BadCoinbaseInput)"

definition prevalidate_miner_tx ::
  "('s, 'p::ab_group_add) dalek \<Rightarrow> Block \<Rightarrow> u8 \<Rightarrow> u64 \<Rightarrow> u64 \<Rightarrow> TxError + unit" where
  "prevalidate_miner_tx C block hf_version height expected_unlock_time =
     and_then (check_miner_signature C block hf_version)
       (\<lambda>_. check_coinbase (miner_tx block) hf_version height expected_unlock_time)"

section \<open>Inputs\<close>

fun inputs_sorted_loop :: "bytes option \<Rightarrow> usize \<Rightarrow> TxIn list \<Rightarrow> TxError + unit" where
  "inputs_sorted_loop lst i [] = Inr ()"
| "inputs_sorted_loop lst i (x # xs) =
     (case x of
        ToKey _ _ k_image \<Rightarrow>
          if (case lst of Some prev \<Rightarrow> prev \<le> k_image | None \<Rightarrow> False) then Inl (UnsortedInputs i)
          else inputs_sorted_loop (Some k_image) (Suc i) xs
      | _ \<Rightarrow> inputs_sorted_loop lst (Suc i) xs)"

definition check_inputs_sorted :: "Transaction \<Rightarrow> TxError + unit" where
  "check_inputs_sorted tx = inputs_sorted_loop None 0 (vin (tx_prefix tx))"

definition check_min_output_age :: "u8 \<Rightarrow> u64 \<Rightarrow> u64 \<Rightarrow> TxError + unit" where
  "check_min_output_age hf_version max_used_block_height chain_height =
     (if hf_version < HF_VERSION_ENFORCE_MIN_AGE then Inr ()
      else if chain_height < max_used_block_height + CRYPTONOTE_DEFAULT_TX_SPENDABLE_AGE then
        Inl (OutputTooRecent max_used_block_height chain_height)
      else Inr ())"

section \<open>RingCT types\<close>

definition is_rct_old_bulletproof :: "RctType \<Rightarrow> bool" where
  "is_rct_old_bulletproof ty \<longleftrightarrow> ty = RctFullBulletproof \<or> ty = RctSimpleBulletproof"

definition is_rct_bulletproof :: "RctType \<Rightarrow> bool" where
  "is_rct_bulletproof ty \<longleftrightarrow>
     ty = RctSimpleBulletproof \<or> ty = RctFullBulletproof \<or> ty = RctBulletproof \<or> ty = RctBulletproof2 \<or>
     ty = RctClsag"

definition is_rct_bp_plus_legacy :: "RctType \<Rightarrow> bool" where
  "is_rct_bp_plus_legacy ty \<longleftrightarrow> ty = RctBulletproofPlus"

definition is_rct_bp_plus_full :: "RctType \<Rightarrow> bool" where
  "is_rct_bp_plus_full ty \<longleftrightarrow> ty = RctBulletproofPlusFullCommit"

definition check_rct_type_allowed :: "RctType \<Rightarrow> u64 \<Rightarrow> bool \<Rightarrow> u8 \<Rightarrow> TxError + unit" where
  "check_rct_type_allowed ty tx_version has_bulletproofs_plus hf_version =
     (let reject = Inl (ForbiddenRctType ty) in
      if 2 \<le> tx_version \<and> hf_version < HF_VERSION_SMALLER_BP \<and> ty = RctBulletproof2 then reject
      else if 2 \<le> tx_version \<and> HF_VERSION_SMALLER_BP < hf_version \<and> ty = RctBulletproof then reject
      else if 2 \<le> tx_version \<and> hf_version < HF_VERSION_CLSAG \<and> ty = RctClsag then reject
      else if 2 \<le> tx_version \<and> HF_VERSION_CLSAG < hf_version \<and>
        RctType_as_u8 ty \<le> RctType_as_u8 RctBulletproof2 then reject
      else if 2 \<le> tx_version \<and> 11 < hf_version \<and> is_rct_old_bulletproof ty then reject
      else if 2 \<le> tx_version \<and> hf_version < HF_VERSION_BULLETPROOF_PLUS \<and>
        (is_rct_bp_plus_legacy ty \<or> has_bulletproofs_plus) then reject
      else if 2 \<le> tx_version \<and> HF_VERSION_BULLETPROOF_PLUS < hf_version \<and> is_rct_bulletproof ty then reject
      else if 2 \<le> tx_version \<and> hf_version < HF_VERSION_BP_PLUS_FULL_COMMIT \<and> is_rct_bp_plus_full ty then reject
      else if HF_VERSION_BP_PLUS_FULL_COMMIT < hf_version \<and> is_rct_bp_plus_legacy ty then reject
      else Inr ())"

definition check_tx_rct_type :: "Transaction \<Rightarrow> u8 \<Rightarrow> TxError + unit" where
  "check_tx_rct_type tx hf_version =
     check_rct_type_allowed (rct_ty (rct_signatures tx)) (version (tx_prefix tx))
       (bulletproofs_plus (rct_signatures tx) \<noteq> []) hf_version"

section \<open>Ring sizes\<close>

record MixinSummary =
  min_actual_mixin :: usize
  max_actual_mixin :: usize
  n_mixable :: usize
  n_unmixable :: usize

definition min_mixin :: "u8 \<Rightarrow> usize" where
  "min_mixin hf_version = (if HF_VERSION_MIN_MIXIN_21 \<le> hf_version then 21 else 7)"

definition MixinSummary_start :: MixinSummary where
  "MixinSummary_start =
     \<lparr>min_actual_mixin = 2 ^ 64 - 1, max_actual_mixin = 0, n_mixable = 0, n_unmixable = 0\<rparr>"

text \<open>One pass of the loop: the counters never reach \<open>2 ^ 64\<close>, since they count list elements.\<close>

definition summarise_input :: "usize \<Rightarrow> (u64 \<Rightarrow> u64) \<Rightarrow> MixinSummary \<Rightarrow> TxIn \<Rightarrow> MixinSummary" where
  "summarise_input mn num_outputs s i =
     (case i of
        ToKey amount key_offsets _ \<Rightarrow>
          let s = (if amount = 0 then s\<lparr>n_mixable := n_mixable s + 1\<rparr>
                   else if num_outputs amount \<le> word_of_nat mn then s\<lparr>n_unmixable := n_unmixable s + 1\<rparr>
                   else s\<lparr>n_mixable := n_mixable s + 1\<rparr>);
              ring_mixin = length key_offsets - 1
          in s\<lparr>min_actual_mixin := min (min_actual_mixin s) ring_mixin,
               max_actual_mixin := max (max_actual_mixin s) ring_mixin\<rparr>
      | _ \<Rightarrow> s)"

definition summarise_mixin :: "Transaction \<Rightarrow> u8 \<Rightarrow> (u64 \<Rightarrow> u64) \<Rightarrow> MixinSummary" where
  "summarise_mixin tx hf_version num_outputs =
     foldl (summarise_input (min_mixin hf_version) num_outputs) MixinSummary_start (vin (tx_prefix tx))"

definition check_ring_size :: "MixinSummary \<Rightarrow> u8 \<Rightarrow> TxError + unit" where
  "check_ring_size s hf_version =
     (let mn = min_mixin hf_version in
      if HF_VERSION_SAME_MIXIN \<le> hf_version \<and> min_actual_mixin s \<noteq> max_actual_mixin s then
        Inl (VaryingRingSize (min_actual_mixin s) (max_actual_mixin s))
      else
        let below_min = (min_actual_mixin s < mn \<and>
              \<not> (hf_version = HF_VERSION_MIN_MIXIN_21 \<and> min_actual_mixin s = 7)) in
        if below_min then
          if n_unmixable s = 0 then Inl (RingTooSmall (min_actual_mixin s) mn)
          else if 1 < n_mixable s then Inl (TooManyMixableInputs (n_mixable s))
          else Inr ()
        else
          let invalid =
            (HF_VERSION_MIN_MIXIN_21 < hf_version \<and> 21 < min_actual_mixin s) \<or>
            (hf_version = HF_VERSION_MIN_MIXIN_21 \<and> min_actual_mixin s \<noteq> 21 \<and> min_actual_mixin s \<noteq> 7) \<or>
            (hf_version < HF_VERSION_MIN_MIXIN_21 \<and> HF_VERSION_MIN_MIXIN_7 + 2 \<le> hf_version \<and>
              7 < min_actual_mixin s) \<or>
            ((hf_version = HF_VERSION_MIN_MIXIN_7 \<or> hf_version = HF_VERSION_MIN_MIXIN_7 + 1) \<and>
              min_actual_mixin s \<noteq> 7)
          in if invalid then Inl (InvalidRingSize (min_actual_mixin s) mn) else Inr ())"

definition check_tx_version :: "u64 \<Rightarrow> u8 \<Rightarrow> usize \<Rightarrow> TxError + unit" where
  "check_tx_version ver hf_version unmixable =
     (let mx = (if hf_version \<le> 3 then 1 else 2) in
      if mx < ver then Inl (TxVersionTooHigh ver mx)
      else
        let mn = (if 0 < unmixable then 1 else if HF_VERSION_ENFORCE_RCT \<le> hf_version then 2 else 1) in
        if ver < mn then Inl (TxVersionTooLow ver mn) else Inr ())"

section \<open>The semantic check\<close>

fun semantic_inputs_loop :: "bytes list \<Rightarrow> u64 \<Rightarrow> usize \<Rightarrow> TxIn list \<Rightarrow> TxError + u64" where
  "semantic_inputs_loop seen inputs_sum i [] = Inr inputs_sum"
| "semantic_inputs_loop seen inputs_sum i (x # xs) =
     (case x of
        ToKey amount _ k_image \<Rightarrow>
          if k_image \<in> set seen then Inl (DuplicateKeyImage i)
          else and_then (ok_or (checked_add inputs_sum amount) InputsOverflow) (\<lambda>inputs_sum.
                 semantic_inputs_loop (seen @ [k_image]) inputs_sum (Suc i) xs)
      | _ \<Rightarrow> Inl (UnsupportedInputType i (TxIn_tag x)))"

fun semantic_outputs_loop :: "u64 \<Rightarrow> usize \<Rightarrow> TxOut list \<Rightarrow> TxError + unit" where
  "semantic_outputs_loop ver i [] = Inr ()"
| "semantic_outputs_loop ver i (x # xs) =
     (if TxOutTarget_public_key (out_target x) = None then
        Inl (InvalidOutputTarget i (TxOutTarget_tag (out_target x)))
      else if 2 \<le> ver \<and> out_amount x \<noteq> 0 then Inl (NonZeroOutputAmountInV2 i)
      else semantic_outputs_loop ver (Suc i) xs)"

definition check_tx_semantic :: "Transaction \<Rightarrow> TxError + u64 option" where
  "check_tx_semantic tx =
     (let p = tx_prefix tx in
      if vin p = [] then Inl NoInputs
      else and_then (semantic_inputs_loop [] 0 0 (vin p)) (\<lambda>inputs_sum.
           and_then (semantic_outputs_loop (version p) 0 (vout p)) (\<lambda>_.
           and_then (check_outs_overflow (vout p)) (\<lambda>outputs_sum.
             if 2 \<le> version p then Inr None
             else if inputs_sum < outputs_sum then Inl OutputsExceedInputs
             else if length (tx_signatures tx) \<noteq> length (vin p) then
               Inl (WrongSignatureCount (length (vin p)) (length (tx_signatures tx)))
             else Inr (Some (inputs_sum - outputs_sum))))))"


section \<open>What the checks accept\<close>

lemmas fork_gates =
  HF_VERSION_SMALLER_BP_def HF_VERSION_CLSAG_def HF_VERSION_BULLETPROOF_PLUS_def
  HF_VERSION_BP_PLUS_FULL_COMMIT_def HF_VERSION_MIN_MIXIN_21_def HF_VERSION_MIN_MIXIN_7_def
  HF_VERSION_SAME_MIXIN_def HF_VERSION_VIEW_TAGS_def gates_HF_VERSION_BLOCK_HEADER_MINER_SIG_def
  HF_VERSION_MIN_V2_COINBASE_TX_def HF_VERSION_REJECT_SIGS_IN_COINBASE_def

lemma outs_overflow_loop_iff:
  "outs_overflow_loop acc xs = Inr r \<longleftrightarrow>
     unat acc + (\<Sum>x\<leftarrow>xs. unat (out_amount x)) < 2 ^ 64 \<and>
     unat r = unat acc + (\<Sum>x\<leftarrow>xs. unat (out_amount x))"
proof (induction xs arbitrary: acc)
  case Nil
  show ?case using unat_bound [of acc] by (auto simp: word_unat_eq_iff)
next
  case (Cons x xs)
  show ?case
    by (auto simp: Cons.IH checked_add_def unat_add_no_wrap split: if_splits)
qed

lemma check_outs_overflow_iff:
  "check_outs_overflow xs = Inr r \<longleftrightarrow>
     (\<Sum>x\<leftarrow>xs. unat (out_amount x)) < 2 ^ 64 \<and> unat r = (\<Sum>x\<leftarrow>xs. unat (out_amount x))"
  by (simp add: check_outs_overflow_def outs_overflow_loop_iff)

text \<open>What a fork version accepts as the targets of a whole output list.\<close>

definition targets_ok :: "u8 \<Rightarrow> TxOut list \<Rightarrow> bool" where
  "targets_ok hf outs \<longleftrightarrow>
     (20 < hf \<longrightarrow> (\<forall>x \<in> set outs. is_tagged_key_target (out_target x))) \<and>
     (hf < 20 \<longrightarrow> (\<forall>x \<in> set outs. is_to_key_target (out_target x))) \<and>
     (hf = 20 \<longrightarrow> (\<forall>x \<in> set outs. is_to_key_target (out_target x)) \<or>
                  (\<forall>x \<in> set outs. is_tagged_key_target (out_target x)))"

lemma output_types_loop_iff:
  "output_types_loop outs hf i xs = Inr () \<longleftrightarrow> (\<forall>x \<in> set xs. check_output_type outs hf 0 x = Inr ())"
proof (induction xs arbitrary: i)
  case Nil
  show ?case by simp
next
  case (Cons x xs)
  have "check_output_type outs hf i x = Inr () \<longleftrightarrow> check_output_type outs hf 0 x = Inr ()"
    by (simp add: check_output_type_def Let_def)
  with Cons.IH show ?case by simp
qed

lemma target_tags:
  "TxOutTarget_tag t = 2 \<longleftrightarrow> is_to_key_target t"
  "TxOutTarget_tag t = 3 \<longleftrightarrow> is_tagged_key_target t"
  by (cases t; simp)+

lemma check_output_types_iff: "check_output_types outs hf = Inr () \<longleftrightarrow> targets_ok hf outs"
proof (cases outs)
  case Nil
  then show ?thesis by (simp add: check_output_types_def targets_ok_def)
next
  case (Cons y ys)
  consider "20 < hf" | "hf < 20" | "hf = 20" by (meson less_linear)
  then show ?thesis
  proof cases
    case 3
    have "check_output_types outs hf = Inr () \<longleftrightarrow>
       (\<forall>x \<in> set outs. (is_to_key_target (out_target x) \<or> is_tagged_key_target (out_target x)) \<and>
          TxOutTarget_tag (out_target x) = TxOutTarget_tag (out_target y))"
      by (auto simp: check_output_types_def output_types_loop_iff check_output_type_def fork_gates 3 Let_def Cons
          split: if_splits)
    also have "\<dots> \<longleftrightarrow> targets_ok hf outs"
      using target_tags [of "out_target y"]
      by (auto simp: targets_ok_def 3 Cons target_tags simp flip: target_tags)
    finally show ?thesis .
  qed (auto simp: check_output_types_def output_types_loop_iff check_output_type_def fork_gates targets_ok_def Let_def)
qed

text \<open>The key images of a transaction, in order.\<close>

fun key_image_of :: "TxIn \<Rightarrow> bytes option" where
  "key_image_of (ToKey _ _ k_image) = Some k_image"
| "key_image_of _ = None"

definition key_images :: "TxIn list \<Rightarrow> bytes list" where
  "key_images ins = List.map_filter key_image_of ins"

lemma key_images_simps [simp]:
  "key_images [] = []"
  "key_images (x # xs) = (case key_image_of x of None \<Rightarrow> key_images xs | Some k \<Rightarrow> k # key_images xs)"
  by (simp_all add: key_images_def List.map_filter_def split: option.split)

lemma sorted_wrt_gt_Cons2:
  "sorted_wrt (>) ((k :: 'a::linorder) # k' # ks) \<longleftrightarrow> k' < k \<and> sorted_wrt (>) (k' # ks)"
  by auto

lemma inputs_sorted_loop_iff:
  "inputs_sorted_loop lst i xs = Inr () \<longleftrightarrow>
     sorted_wrt (>) ((case lst of None \<Rightarrow> [] | Some k \<Rightarrow> [k]) @ key_images xs)"
proof (induction xs arbitrary: lst i)
  case Nil
  show ?case by (simp split: option.split)
next
  case (Cons x xs)
  show ?case
    by (cases x; cases lst)
      (auto simp: Cons.IH sorted_wrt_gt_Cons2 not_le simp del: sorted_wrt.simps(2) split: if_splits)
qed

lemma semantic_inputs_loop_iff:
  "semantic_inputs_loop seen acc i xs = Inr r \<longleftrightarrow>
     (\<forall>x \<in> set xs. key_image_of x \<noteq> None) \<and> distinct (key_images xs) \<and> set seen \<inter> set (key_images xs) = {} \<and>
     unat acc + (\<Sum>x\<leftarrow>xs. unat (in_amount x)) < 2 ^ 64 \<and>
     unat r = unat acc + (\<Sum>x\<leftarrow>xs. unat (in_amount x))"
proof (induction xs arbitrary: seen acc i)
  case Nil
  show ?case using unat_bound [of acc] by (auto simp: word_unat_eq_iff)
next
  case (Cons x xs)
  show ?case
    by (cases x) (auto simp: Cons.IH checked_add_def unat_add_no_wrap split: if_splits)
qed

lemma semantic_outputs_loop_iff:
  "semantic_outputs_loop ver i xs = Inr () \<longleftrightarrow>
     (\<forall>x \<in> set xs. TxOutTarget_public_key (out_target x) \<noteq> None \<and> (2 \<le> ver \<longrightarrow> out_amount x = 0))"
  by (induction xs arbitrary: i) auto


section \<open>Exact characterisations\<close>

lemma ex_unat_eq:
  "(\<exists>r :: u64. (n < 2 ^ 64 \<and> unat r = n) \<and> P r) \<longleftrightarrow> n < 2 ^ 64 \<and> P (word_of_nat n)"
proof -
  have "n < 2 ^ 64 \<Longrightarrow> unat (r :: u64) = n \<longleftrightarrow> r = word_of_nat n" for r
    by (auto simp: unat_of_nat)
  then show ?thesis by (cases "n < 2 ^ 64") auto
qed

lemma fee_iff:
  assumes "a < 2 ^ 64" "b < 2 ^ 64"
  shows "(word_of_nat b :: u64) \<le> word_of_nat a \<and> r = Some (word_of_nat a - word_of_nat b :: u64) \<longleftrightarrow>
    (\<exists>f :: u64. r = Some f \<and> b + unat f = a)"
proof -
  have le: "(word_of_nat b :: u64) \<le> word_of_nat a \<longleftrightarrow> b \<le> a"
    using assms by (simp add: word_le_nat_alt unat_of_nat)
  have "b + unat f = a \<longleftrightarrow> b \<le> a \<and> f = word_of_nat a - word_of_nat b" for f :: u64
    using assms by (auto simp flip: of_nat_diff simp: unat_of_nat)
  with le show ?thesis by auto
qed

text \<open>C8. A transaction passes the semantic check exactly when it has inputs, every input is a key
  input, no key image occurs twice, every output pays to a key, neither sum of amounts passes the
  64-bit range, and then: from version 2 on every output amount is zero and no fee is returned;
  below, the outputs do not exceed the inputs, there is one signature row per input, and the fee
  returned is exactly what the outputs leave of the inputs.\<close>

theorem check_tx_semantic_accepts:
  "check_tx_semantic tx = Inr r \<longleftrightarrow>
     (let p = tx_prefix tx;
          paid_in = (\<Sum>i\<leftarrow>vin p. unat (in_amount i));
          paid_out = (\<Sum>x\<leftarrow>vout p. unat (out_amount x))
      in vin p \<noteq> [] \<and> (\<forall>i \<in> set (vin p). key_image_of i \<noteq> None) \<and> distinct (key_images (vin p)) \<and>
         (\<forall>x \<in> set (vout p). TxOutTarget_public_key (out_target x) \<noteq> None) \<and>
         paid_in < 2 ^ 64 \<and> paid_out < 2 ^ 64 \<and>
         (if 2 \<le> version p then r = None \<and> (\<forall>x \<in> set (vout p). out_amount x = 0)
          else length (tx_signatures tx) = length (vin p) \<and>
               (\<exists>f. r = Some f \<and> paid_out + unat f = paid_in)))"
proof -
  define ok where "ok \<longleftrightarrow> vin (tx_prefix tx) \<noteq> [] \<and> (\<forall>i \<in> set (vin (tx_prefix tx)). key_image_of i \<noteq> None) \<and>
    distinct (key_images (vin (tx_prefix tx))) \<and>
    (\<forall>x \<in> set (vout (tx_prefix tx)). TxOutTarget_public_key (out_target x) \<noteq> None \<and>
       (2 \<le> version (tx_prefix tx) \<longrightarrow> out_amount x = 0))"
  have "check_tx_semantic tx = Inr r \<longleftrightarrow> ok \<and>
    (\<exists>a. ((\<Sum>i\<leftarrow>vin (tx_prefix tx). unat (in_amount i)) < 2 ^ 64 \<and>
          unat a = (\<Sum>i\<leftarrow>vin (tx_prefix tx). unat (in_amount i))) \<and>
     (\<exists>b. ((\<Sum>x\<leftarrow>vout (tx_prefix tx). unat (out_amount x)) < 2 ^ 64 \<and>
          unat b = (\<Sum>x\<leftarrow>vout (tx_prefix tx). unat (out_amount x))) \<and>
        (if 2 \<le> version (tx_prefix tx) then r = None
         else b \<le> a \<and> length (tx_signatures tx) = length (vin (tx_prefix tx)) \<and> r = Some (a - b))))"
    by (auto simp: check_tx_semantic_def Let_def semantic_inputs_loop_iff semantic_outputs_loop_iff
        check_outs_overflow_iff ok_def not_less) blast
  also have "\<dots> \<longleftrightarrow> ok \<and> (\<Sum>i\<leftarrow>vin (tx_prefix tx). unat (in_amount i)) < 2 ^ 64 \<and>
      (\<Sum>x\<leftarrow>vout (tx_prefix tx). unat (out_amount x)) < 2 ^ 64 \<and>
      (if 2 \<le> version (tx_prefix tx) then r = None
       else length (tx_signatures tx) = length (vin (tx_prefix tx)) \<and> (\<exists>f. r = Some f \<and>
         (\<Sum>x\<leftarrow>vout (tx_prefix tx). unat (out_amount x)) + unat f = (\<Sum>i\<leftarrow>vin (tx_prefix tx). unat (in_amount i))))"
    unfolding ex_unat_eq
    using fee_iff [of "\<Sum>i\<leftarrow>vin (tx_prefix tx). unat (in_amount i)"
        "\<Sum>x\<leftarrow>vout (tx_prefix tx). unat (out_amount x)" r] by auto
  finally show ?thesis by (auto simp: ok_def Let_def)
qed

theorem check_tx_semantic_accepts_witness:
  "check_tx_semantic \<lparr>tx_prefix = \<lparr>version = 1, unlock_time = 0, vin = [ToKey 9 [1] (replicate 32 7), ToKey 4 [2] (replicate 32 6)],
       vout = [\<lparr>out_amount = 10, out_target = OutToKey (replicate 32 9)\<rparr>], extra = []\<rparr>,
     tx_signatures = [[], []], rct_signatures = RctSignatures_null, prefix_size = 0, unprunable_size = 0\<rparr> = Inr (Some 3)"
proof -
  have k: "replicate 32 7 \<noteq> (replicate 32 6 :: bytes)" by (simp add: numeral_eq_Suc)
  show ?thesis unfolding check_tx_semantic_accepts
    using k by (simp add: Let_def key_images_def word_le_nat_alt)
qed

text \<open>The ordering rule, which compares neighbours, passes exactly the transactions whose key
  images are strictly decreasing as a whole, so that none of them occurs twice.\<close>

theorem check_inputs_sorted_accepts:
  "check_inputs_sorted tx = Inr () \<longleftrightarrow> sorted_wrt (>) (key_images (vin (tx_prefix tx)))"
  by (simp add: check_inputs_sorted_def inputs_sorted_loop_iff)

text \<open>The fork interval in which each type may appear in a version-2 transaction.\<close>

definition rct_type_forks :: "RctType \<Rightarrow> u8 set" where
  "rct_type_forks ty = (case ty of
     RctNull \<Rightarrow> {..16} | RctFull \<Rightarrow> {..16} | RctSimple \<Rightarrow> {..16}
   | RctFullBulletproof \<Rightarrow> {..11} | RctSimpleBulletproof \<Rightarrow> {..11}
   | RctBulletproof \<Rightarrow> {..13} | RctBulletproof2 \<Rightarrow> {13..16} | RctClsag \<Rightarrow> {16..18}
   | RctBulletproofPlus \<Rightarrow> {18..21} | RctBulletproofPlusFullCommit \<Rightarrow> {21..})"

text \<open>C19. The nine sequential gates admit a RingCT type exactly in its interval of fork versions,
  and a signature set carrying Bulletproofs+ only from version 18; below transaction version 2
  only the last gate applies.\<close>

theorem rct_gates_are_intervals:
  "check_rct_type_allowed ty v bpp hf = Inr () \<longleftrightarrow>
     (if 2 \<le> v then hf \<in> rct_type_forks ty \<and> (bpp \<longrightarrow> 18 \<le> hf) else ty = RctBulletproofPlus \<longrightarrow> hf \<le> 21)"
proof -
  have "hf \<le> 16 \<Longrightarrow> hf \<le> 18" "hf \<le> 11 \<Longrightarrow> hf \<le> 16" "hf \<le> 11 \<Longrightarrow> hf \<le> 13" "hf \<le> 13 \<Longrightarrow> hf \<le> 16" "18 \<le> hf \<Longrightarrow> 16 \<le> hf"
    by (auto simp: word_le_nat_alt)
  then show ?thesis
    by (cases ty) (auto simp: check_rct_type_allowed_def rct_type_forks_def fork_gates Let_def not_less
        is_rct_old_bulletproof_def is_rct_bulletproof_def is_rct_bp_plus_legacy_def is_rct_bp_plus_full_def
        split: if_splits)
qed

theorem rct_gates_are_intervals_witness:
  "check_rct_type_allowed RctBulletproofPlus 2 True 20 = Inr () \<and> check_rct_type_allowed RctClsag 2 False 20 \<noteq> Inr ()"
  unfolding rct_gates_are_intervals by (simp add: rct_type_forks_def)


section \<open>Ring sizes of accepted transactions\<close>

definition input_mixable :: "(u64 \<Rightarrow> u64) \<Rightarrow> usize \<Rightarrow> TxIn \<Rightarrow> bool" where
  "input_mixable num_outputs mn i \<longleftrightarrow> in_amount i = 0 \<or> word_of_nat mn < num_outputs (in_amount i)"

definition input_mixin :: "TxIn \<Rightarrow> usize" where
  "input_mixin i = (case ring_size i of None \<Rightarrow> 0 | Some n \<Rightarrow> n - 1)"

lemma summarise_input_key:
  assumes "key_image_of i \<noteq> None"
  shows "summarise_input mn num s i =
    \<lparr>min_actual_mixin = min (min_actual_mixin s) (input_mixin i),
     max_actual_mixin = max (max_actual_mixin s) (input_mixin i),
     n_mixable = n_mixable s + (if input_mixable num mn i then 1 else 0),
     n_unmixable = n_unmixable s + (if input_mixable num mn i then 0 else 1)\<rparr>"
  using assms by (cases i) (auto simp: summarise_input_def input_mixable_def input_mixin_def not_less Let_def)

lemma summarise_fold:
  fixes s :: MixinSummary and num :: "u64 \<Rightarrow> u64" and mn :: usize and ins :: "TxIn list"
  assumes "\<forall>i \<in> set ins. key_image_of i \<noteq> None"
  defines "r \<equiv> foldl (summarise_input mn num) s ins"
  shows "n_mixable r = n_mixable s + length (filter (input_mixable num mn) ins)"
    "n_unmixable r = n_unmixable s + length (filter (\<lambda>i. \<not> input_mixable num mn i) ins)"
    "m \<le> min_actual_mixin r \<longleftrightarrow> m \<le> min_actual_mixin s \<and> (\<forall>i \<in> set ins. m \<le> input_mixin i)"
    "max_actual_mixin r \<le> m \<longleftrightarrow> max_actual_mixin s \<le> m \<and> (\<forall>i \<in> set ins. input_mixin i \<le> m)"
  using assms(1) unfolding r_def by (induction ins arbitrary: s) (auto simp: summarise_input_key)

lemma summarise_uniform:
  fixes num :: "u64 \<Rightarrow> u64" and mn :: usize and ins :: "TxIn list"
  assumes "\<forall>i \<in> set ins. key_image_of i \<noteq> None" "ins \<noteq> []" "m < 2 ^ 64"
  defines "r \<equiv> foldl (summarise_input mn num) MixinSummary_start ins"
  shows "min_actual_mixin r = m \<and> max_actual_mixin r = m \<longleftrightarrow> (\<forall>i \<in> set ins. input_mixin i = m)"
proof -
  note f = summarise_fold(3,4) [OF assms(1), where mn = mn and num = num and s = MixinSummary_start, folded r_def]
  have "min_actual_mixin r \<le> max_actual_mixin r"
    using assms(2) f(1) [of "min_actual_mixin r"] f(2) [of "max_actual_mixin r"]
    by (cases ins) (auto dest: order_trans)
  then have "min_actual_mixin r = m \<and> max_actual_mixin r = m \<longleftrightarrow> m \<le> min_actual_mixin r \<and> max_actual_mixin r \<le> m"
    by auto
  also have "\<dots> \<longleftrightarrow> (\<forall>i \<in> set ins. input_mixin i = m)"
    using assms(3) by (auto simp: f MixinSummary_start_def intro: antisym)
  finally show ?thesis .
qed

text \<open>C18. From fork version 15 the ring rule accepts a transaction of key inputs exactly when all
  rings have the same number \<open>n\<close> of members, at most 22, where an empty ring counts as a ring of one member,
  and either \<open>n\<close> is 22, or some input spends an amount too rare to mix while at most one input spends a
  mixable one.\<close>

theorem ring_sizes_accepted:
  assumes "15 \<le> hf" "vin (tx_prefix tx) \<noteq> []" "\<forall>i \<in> set (vin (tx_prefix tx)). key_image_of i \<noteq> None"
  shows "check_ring_size (summarise_mixin tx hf num_outputs) hf = Inr () \<longleftrightarrow>
    (\<exists>n \<in> {1..22}. (\<forall>i \<in> set (vin (tx_prefix tx)). map_option (max 1) (ring_size i) = Some n) \<and>
       (n < 22 \<longrightarrow> (\<exists>i \<in> set (vin (tx_prefix tx)). \<not> input_mixable num_outputs 21 i) \<and>
                 length (filter (input_mixable num_outputs 21) (vin (tx_prefix tx))) \<le> 1))"
proof -
  let ?ins = "vin (tx_prefix tx)"
  define s where "s = summarise_mixin tx hf num_outputs"
  have hf: "9 < hf" "9 \<le> hf" "hf \<noteq> 9" "\<not> hf < 9" "hf \<noteq> 7" "hf \<noteq> 8" using assms(1) by (auto simp: word_le_nat_alt word_less_nat_alt)
  have mn: "min_mixin hf = 21" using hf by (simp add: min_mixin_def fork_gates)
  note s_eq = s_def [unfolded summarise_mixin_def mn]
  have c: "n_mixable s = length (filter (input_mixable num_outputs 21) ?ins)"
      "n_unmixable s = length (filter (\<lambda>i. \<not> input_mixable num_outputs 21 i) ?ins)"
    using summarise_fold(1,2) [OF assms(3), where mn = 21 and num = num_outputs and s = MixinSummary_start] by (simp_all add: s_eq MixinSummary_start_def)
  have u: "min_actual_mixin s = m \<and> max_actual_mixin s = m \<longleftrightarrow> (\<forall>i \<in> set ?ins. input_mixin i = m)" if "m \<le> 21" for m
    unfolding s_eq using that by (intro summarise_uniform assms) simp
  have "check_ring_size s hf = Inr () \<longleftrightarrow> min_actual_mixin s = max_actual_mixin s \<and> min_actual_mixin s \<le> 21 \<and>
     (min_actual_mixin s < 21 \<longrightarrow> 0 < n_unmixable s \<and> n_mixable s \<le> 1)"
    using hf assms(1) by (auto simp: check_ring_size_def fork_gates mn Let_def)
  also have "\<dots> \<longleftrightarrow> (\<exists>m \<le> 21. (min_actual_mixin s = m \<and> max_actual_mixin s = m) \<and>
     (m < 21 \<longrightarrow> 0 < n_unmixable s \<and> n_mixable s \<le> 1))"
    by auto
  also have "\<dots> \<longleftrightarrow> (\<exists>m \<le> 21. (\<forall>i \<in> set ?ins. input_mixin i = m) \<and> (m < 21 \<longrightarrow> 0 < n_unmixable s \<and> n_mixable s \<le> 1))"
    by (simp only: u cong: conj_cong)
  finally have "check_ring_size s hf = Inr () \<longleftrightarrow> (\<exists>m \<le> 21. (\<forall>i \<in> set ?ins. input_mixin i = m) \<and>
       (m < 21 \<longrightarrow> (\<exists>i \<in> set ?ins. \<not> input_mixable num_outputs 21 i) \<and> length (filter (input_mixable num_outputs 21) ?ins) \<le> 1))"
    by (simp add: c length_greater_0_conv filter_empty_conv)
  also have "\<dots> \<longleftrightarrow> (\<exists>n \<in> {1..22}. (\<forall>i \<in> set ?ins. map_option (max 1) (ring_size i) = Some n) \<and>
       (n < 22 \<longrightarrow> (\<exists>i \<in> set ?ins. \<not> input_mixable num_outputs 21 i) \<and> length (filter (input_mixable num_outputs 21) ?ins) \<le> 1))"
    (is "(\<exists>m \<le> 21. ?P m \<and> (m < 21 \<longrightarrow> ?A)) \<longleftrightarrow> (\<exists>n \<in> {1..22}. ?Q n \<and> (n < 22 \<longrightarrow> ?A))")
  proof -
    have "map_option (max 1) (ring_size i) = Some (Suc m) \<longleftrightarrow> input_mixin i = m" if "i \<in> set ?ins" for i m
      using assms(3) that by (cases i) (auto simp: input_mixin_def)
    then have "?Q (Suc m) \<longleftrightarrow> ?P m" for m by simp
    moreover have "(\<exists>n \<in> {1..22}. R n) \<longleftrightarrow> (\<exists>m \<le> 21. R (Suc m))" for R :: "nat \<Rightarrow> bool"
    proof
      assume "\<exists>n \<in> {1..22}. R n"
      then obtain n where "n \<in> {1..22}" "R n" by (elim bexE)
      then show "\<exists>m \<le> 21. R (Suc m)" by (intro exI [of _ "n - 1"]) auto
    qed auto
    ultimately show ?thesis by simp
  qed
  finally show ?thesis by (simp only: s_def)
qed

theorem ring_sizes_accepted_witness:
  "check_ring_size (summarise_mixin (sample_tx\<lparr>tx_prefix := (tx_prefix sample_tx)\<lparr>vin :=
      [ToKey 0 (replicate 22 1) (replicate 32 7), ToKey 0 (replicate 22 2) (replicate 32 6)]\<rparr>\<rparr>) 20 (\<lambda>_. 0)) 20 = Inr ()"
proof -
  let ?tx = "sample_tx\<lparr>tx_prefix := (tx_prefix sample_tx)\<lparr>vin :=
      [ToKey 0 (replicate 22 1) (replicate 32 7), ToKey 0 (replicate 22 2) (replicate 32 6)]\<rparr>\<rparr>"
  have "(15 :: u8) \<le> 20" "vin (tx_prefix ?tx) \<noteq> []" "\<forall>i \<in> set (vin (tx_prefix ?tx)). key_image_of i \<noteq> None"
    by simp_all
  from ring_sizes_accepted [OF this, of "\<lambda>_. 0"] show ?thesis
    by (simp add: input_mixin_def)
qed

text \<open>A ring without members has, in this code, mixin zero and not the largest integer: an input of a
  rare amount with an empty ring passes the ring rule, where the wrapped value would fail it.\<close>

theorem empty_ring_passes:
  "check_ring_size (summarise_mixin (sample_tx\<lparr>tx_prefix := (tx_prefix sample_tx)\<lparr>vin := [ToKey 7 [] k]\<rparr>\<rparr>) hf (\<lambda>_. 3)) hf = Inr ()"
proof -
  have "(3 :: u64) \<le> word_of_nat (min_mixin hf)" by (simp add: min_mixin_def)
  then show ?thesis
    by (auto simp: summarise_mixin_def summarise_input_def MixinSummary_start_def check_ring_size_def min_mixin_def fork_gates
        Let_def split: if_splits)
qed

section \<open>Coinbases\<close>

lemma dynamic_unlock_window_value:
  assumes "length bid = 32"
  shows "unat (dynamic_unlock_window bid) = 2 * (16 * unat (bid ! 0) + unat (bid ! 1) div 16) + 288"
proof -
  have a: "unat (ucast b :: u64) = unat b" "unat b < 256" for b :: u8
    using unat_bound [of b] by (simp_all add: unsigned_ucast_eq take_bit_nat_eq_self)
  have "push_bit 4 (ucast (bid ! 0) :: u64) OR ucast (drop_bit 4 (bid ! 1)) =
      push_bit 4 (ucast (bid ! 0)) + ucast (drop_bit 4 (bid ! 1))"
    by (rule disjunctive_add [symmetric]) (auto simp: bit_simps dest: bit_imp_le_length)
  moreover have "unat (push_bit 4 (ucast (bid ! 0)) :: u64) = 16 * unat (bid ! 0)"
  proof -
    have "unat (bid ! 0) * 16 < 18446744073709551616" using a(2) [of "bid ! 0"] by linarith
    then show ?thesis by (simp only: push_bit_eq_mult unat_word_ariths a) simp
  qed
  moreover have "unat (ucast (drop_bit 4 (bid ! 1)) :: u64) = unat (bid ! 1) div 16"
    by (simp add: a drop_bit_eq_div unat_div)
  moreover have "unat (bid ! 1) div 16 < 16" using a(2) [of "bid ! 1"] by (simp add: less_mult_imp_div_less)
  ultimately show ?thesis
    using a(2) [of "bid ! 0"]
    by (simp add: dynamic_unlock_window_def Let_def unat_word_ariths MINED_MONEY_UNLOCK_WINDOW_V2_def)
qed

text \<open>The hexadecimal digits of a byte string in storage order, and the number a string of digits writes.\<close>

definition hex_digits :: "bytes \<Rightarrow> nat list" where
  "hex_digits bs = concat (map (\<lambda>b. [unat b div 16, unat b mod 16]) bs)"

definition radix16 :: "nat list \<Rightarrow> nat" where
  "radix16 ds = foldl (\<lambda>n d. 16 * n + d) 0 ds"

lemma hex_prefix_value:
  assumes "length bid = 32"
  shows "radix16 (take 3 (hex_digits bid)) = 16 * unat (bid ! 0) + unat (bid ! 1) div 16"
proof -
  obtain a b r where "bid = a # b # r" using assms by (cases bid; cases "tl bid") auto
  then show ?thesis by (simp add: hex_digits_def radix16_def numeral_3_eq_3)
qed

text \<open>C34. The unlock time demanded of a coinbase, at a height at least 8478 below \<open>2 ^ 64\<close>, is exactly the one
  of the documentation: 288 blocks on from version 18; for versions 16 and 17, 288 blocks and twice the number
  that the first three hexadecimal characters of the referenced block id write, at most 8478 in all, and a
  panic exactly when no id is given; 60 blocks before.\<close>

theorem coinbase_unlock_bounds:
  assumes "unat height + 8478 < 2 ^ 64" "ref \<noteq> None \<Longrightarrow> length (the ref) = 32"
  shows "map_option unat (coinbase_unlock_time hf height ref) =
      (if 18 \<le> hf then Some (unat height + 288)
       else if 16 \<le> hf then map_option (\<lambda>bid. unat height + 2 * radix16 (take 3 (hex_digits bid)) + 288) ref
       else Some (unat height + 60)) \<and>
    (ref \<noteq> None \<longrightarrow> 2 * radix16 (take 3 (hex_digits (the ref))) + 288 \<le> 8478)"
proof
  have w: "unat (dynamic_unlock_window bid) = 2 * radix16 (take 3 (hex_digits bid)) + 288"
    "2 * radix16 (take 3 (hex_digits bid)) + 288 \<le> 8478" if "length bid = 32" for bid
  proof -
    have "unat (bid ! 0) < 256" "unat (bid ! 1) < 256"
      using unat_bound [of "bid ! 0"] unat_bound [of "bid ! 1"] by simp_all
    then show "2 * radix16 (take 3 (hex_digits bid)) + 288 \<le> 8478"
      unfolding hex_prefix_value [OF that] by presburger
    show "unat (dynamic_unlock_window bid) = 2 * radix16 (take 3 (hex_digits bid)) + 288"
      using dynamic_unlock_window_value [OF that] by (simp only: hex_prefix_value [OF that])
  qed
  then show "ref \<noteq> None \<longrightarrow> 2 * radix16 (take 3 (hex_digits (the ref))) + 288 \<le> 8478" using assms(2) by blast
  have p: "unat (height + d) = unat height + unat d" if "unat d \<le> 8478" for d
    using assms(1) that by (intro unat_add_no_wrap) simp
  have r: "map_option unat (map_option (\<lambda>id. height + dynamic_unlock_window id) ref) =
      map_option (\<lambda>bid. unat height + 2 * radix16 (take 3 (hex_digits bid)) + 288) ref"
    using w p assms(2) by (cases ref) simp_all
  show "map_option unat (coinbase_unlock_time hf height ref) =
      (if 18 \<le> hf then Some (unat height + 288)
       else if 16 \<le> hf then map_option (\<lambda>bid. unat height + 2 * radix16 (take 3 (hex_digits bid)) + 288) ref
       else Some (unat height + 60))"
    using p [of 288] p [of 60] r
    by (simp add: coinbase_unlock_time_def HF_VERSION_FIXED_UNLOCK_def HF_VERSION_DYNAMIC_UNLOCK_def
        MINED_MONEY_UNLOCK_WINDOW_V2_def MINED_MONEY_UNLOCK_WINDOW_def)
qed

theorem coinbase_unlock_bounds_witness:
  "map_option unat (coinbase_unlock_time 17 1000 (Some (0xab # 0xcd # replicate 30 0))) = Some (1000 + 2 * 0xabc + 288)"
proof -
  have "unat (1000 :: u64) + 8478 < 2 ^ 64" "length (the (Some (0xab # 0xcd # replicate 30 (0 :: u8)))) = 32" by simp_all
  from coinbase_unlock_bounds [OF this, of 17] show ?thesis
    by (simp add: hex_digits_def radix16_def numeral_3_eq_3)
qed

lemma check_coinbase_iff:
  "check_coinbase tx hf height unlock = Inr () \<longleftrightarrow>
     vin (tx_prefix tx) = [Gen height] \<and> unlock_time (tx_prefix tx) = unlock \<and>
     (15 \<le> hf \<longrightarrow> 2 \<le> version (tx_prefix tx) \<and> rct_ty (rct_signatures tx) = RctNull) \<and>
     (\<Sum>x\<leftarrow>vout (tx_prefix tx). unat (out_amount x)) < 2 ^ 64 \<and> targets_ok hf (vout (tx_prefix tx))"
proof -
  let ?p = "tx_prefix tx"
  have v: "version ?p \<le> 1 \<longleftrightarrow> \<not> 2 \<le> version ?p" by (auto simp: word_le_nat_alt)
  have g: "length (vin ?p) = 1 \<and> vin ?p ! 0 = i \<longleftrightarrow> vin ?p = [i]" for i
    by (cases "vin ?p") auto
  have ov: "(\<exists>r. check_outs_overflow (vout ?p) = Inr r) \<longleftrightarrow> (\<Sum>x\<leftarrow>vout ?p. unat (out_amount x)) < 2 ^ 64"
    using ex_unat_eq [of "\<Sum>x\<leftarrow>vout ?p. unat (out_amount x)" "\<lambda>_. True"] by (simp add: check_outs_overflow_iff)
  have "check_coinbase tx hf height unlock = Inr () \<longleftrightarrow>
     (length (vin ?p) = 1 \<and> vin ?p ! 0 = Gen height) \<and> unlock_time ?p = unlock \<and>
      (15 \<le> hf \<longrightarrow> 2 \<le> version ?p \<and> rct_ty (rct_signatures tx) = RctNull) \<and>
      (\<exists>r. check_outs_overflow (vout ?p) = Inr r) \<and> targets_ok hf (vout ?p)"
    by (auto simp: check_coinbase_def fork_gates v check_output_types_iff split: TxIn.splits if_splits)
  then show ?thesis unfolding ov g .
qed

lemma check_miner_signature_iff:
  "check_miner_signature C block hf = Inr () \<longleftrightarrow>
     (18 \<le> hf \<longrightarrow> vote (header block) \<le> 2 \<and> targets_ok hf (vout (tx_prefix (miner_tx block))) \<and>
        (\<exists>x data key. vout (tx_prefix (miner_tx block)) = [x] \<and> sig_data block = Some data \<and>
           TxOutTarget_public_key (out_target x) = Some key \<and>
           check_signature C data key (header_signature (header block))))"
proof (cases "18 \<le> hf")
  case True
  show ?thesis
  proof (cases "\<exists>x. vout (tx_prefix (miner_tx block)) = [x]")
    case False
    then have "length (vout (tx_prefix (miner_tx block))) \<noteq> 1" by (auto simp: length_Suc_conv)
    with True False show ?thesis by (auto simp: check_miner_signature_def fork_gates Let_def)
  next
    case x: True
    with True show ?thesis
      by (auto simp: check_miner_signature_def fork_gates MAX_VOTE_def check_output_types_iff Let_def not_less
          split: option.splits if_splits)
  qed
qed (auto simp: check_miner_signature_def fork_gates not_le)

text \<open>C7. A block's coinbase passes prevalidation exactly when its only input is the generator of
  that height, its unlock time is the demanded one, from version 15 it is a version-2 transaction
  without RingCT signatures, its outputs do not overflow and pay to targets of the right kind, and
  from version 18 the vote is in range, there is one output, and the header signature verifies
  under that output's key over everything in the block but the signature.\<close>

theorem prevalidate_accepts:
  "prevalidate_miner_tx C block hf height unlock = Inr () \<longleftrightarrow>
     (let p = tx_prefix (miner_tx block) in
      vin p = [Gen height] \<and> unlock_time p = unlock \<and>
      (15 \<le> hf \<longrightarrow> 2 \<le> version p \<and> rct_ty (rct_signatures (miner_tx block)) = RctNull) \<and>
      (\<Sum>x\<leftarrow>vout p. unat (out_amount x)) < 2 ^ 64 \<and> targets_ok hf (vout p) \<and>
      (18 \<le> hf \<longrightarrow> vote (header block) \<le> 2 \<and>
         (\<exists>x data key. vout p = [x] \<and> sig_data block = Some data \<and>
            TxOutTarget_public_key (out_target x) = Some key \<and>
            check_signature C data key (header_signature (header block)))))"
  unfolding prevalidate_miner_tx_def Let_def and_then_eq_Inr check_coinbase_iff
  using check_miner_signature_iff [of C block hf] by auto

section \<open>A block signed by its miner\<close>

lemma transaction_hash_total: "transaction_hash tx \<noteq> None"
  by (auto simp: transaction_hash_def transaction_hash_from_blob_def Let_def Transaction_write_eq tx_rct_bytes_def
      rct_base_c.wr_append [of "prefix_write [] (tx_prefix tx)" "rct_signatures tx"])

lemma sig_data_set_signature:
  "sig_data (b\<lparr>header := (header b)\<lparr>header_signature := s\<rparr>\<rparr>) = sig_data b"
  by (simp add: sig_data_def has_miner_signature_def hashing_blob_inner_def tx_tree_hash_def Let_def
      write_without_signature split: option.split)

lemma sig_data_exists:
  assumes "18 \<le> major_version (header b)" "length (tx_hashes b) < TREE_HASH_MAX_COUNT"
  shows "\<exists>d. sig_data b = Some d"
proof -
  obtain h where h: "transaction_hash (miner_tx b) = Some h" using transaction_hash_total [of "miner_tx b"] by auto
  obtain r where "tree_hash (h # tx_hashes b) = Some r" using tree_hash_Some [of "h # tx_hashes b"] assms(2) by auto
  with h assms(1) show ?thesis
    by (simp add: sig_data_def hashing_blob_inner_def tx_tree_hash_def has_miner_signature_def Let_def
        HF_VERSION_BLOCK_HEADER_MINER_SIG_def)
qed

text \<open>C9. The holder of the one-time secret of the coinbase's only output can sign the block: the
  call returns unless no scalar of the generator gives a non-zero challenge and response, and the
  signature made over the block's signing data, put into its header, makes the block pass
  prevalidation, whatever was in the signature field before.\<close>

theorem signed_block_prevalidates:
  assumes "lawful C" "18 \<le> hf" "18 \<le> major_version (header block)" "vote (header block) \<le> 2"
    "length (tx_hashes block) < TREE_HASH_MAX_COUNT"
    "check_coinbase (miner_tx block) hf height unlock = Inr ()"
    "vout (tx_prefix (miner_tx block)) = [x]" "TxOutTarget_public_key (out_target x) = Some key"
    "length sec = 32" "secret_key_to_public_key C sec = Some key"
  shows "\<exists>data. sig_data block = Some data \<and>
    (case generate_signature C st data key sec of
       None \<Rightarrow> \<nexists>n k. draw_nth C n st = Some k \<and> signature_attempt C data key sec k \<noteq> None
     | Some (None, _) \<Rightarrow> False
     | Some (Some sig, _) \<Rightarrow>
         prevalidate_miner_tx C (block\<lparr>header := (header block)\<lparr>header_signature := sig\<rparr>\<rparr>) hf height unlock = Inr ())"
proof -
  obtain data where d: "sig_data block = Some data" using sig_data_exists [OF assms(3,5)] ..
  have sc: "sc_check C sec" using assms(10) by (auto simp: secret_key_to_public_key_def sc_check_def decode_scalar_def bind_eq_Some_conv)
  have "prevalidate_miner_tx C (block\<lparr>header := (header block)\<lparr>header_signature := sig\<rparr>\<rparr>) hf height unlock = Inr ()"
    if "signature_loop C data key sec st = Some (sig, st')" for sig st'
  proof -
    have "check_signature C data key sig" by (rule signature_loop_verifies [OF assms(1,9,10) that])
    then have "check_miner_signature C (block\<lparr>header := (header block)\<lparr>header_signature := sig\<rparr>\<rparr>) hf = Inr ()"
      unfolding check_miner_signature_iff sig_data_set_signature using assms(4,6-8) d by (simp add: check_coinbase_iff)
    with assms(6) show ?thesis by (simp add: prevalidate_miner_tx_def)
  qed
  with d sc signature_loop_None [of C data key sec st] show ?thesis by (auto simp: generate_signature_def split: option.splits)
qed

definition sample_signed_block :: Block where
  "sample_signed_block = sample_block\<lparr>miner_tx := sample_tx\<lparr>
     tx_prefix := \<lparr>version = 2, unlock_time = 388, vin = [Gen 100],
       vout = [\<lparr>out_amount = 5, out_target = OutToKey (le_bytes 32 (1 + 3))\<rparr>], extra = []\<rparr>,
     rct_signatures := RctSignatures_null\<rparr>\<rparr>"

theorem signed_block_prevalidates_witness:
  "\<exists>data. sig_data sample_signed_block = Some data \<and>
    (case generate_signature zl_dalek deterministic_test_seed data (le_bytes 32 (1 + 3)) (le_bytes 32 3) of
       None \<Rightarrow> \<nexists>n k. draw_nth zl_dalek n deterministic_test_seed = Some k \<and>
                 signature_attempt zl_dalek data (le_bytes 32 (1 + 3)) (le_bytes 32 3) k \<noteq> None
     | Some (None, _) \<Rightarrow> False
     | Some (Some sig, _) \<Rightarrow>
         prevalidate_miner_tx zl_dalek (sample_signed_block\<lparr>header := (header sample_signed_block)\<lparr>header_signature := sig\<rparr>\<rparr>)
           18 100 388 = Inr ())"
proof -
  let ?b = sample_signed_block
  have h: "(18 :: u8) \<le> 18" "18 \<le> major_version (header ?b)" "vote (header ?b) \<le> 2" "length (tx_hashes ?b) < TREE_HASH_MAX_COUNT"
    "vout (tx_prefix (miner_tx ?b)) = [\<lparr>out_amount = 5, out_target = OutToKey (le_bytes 32 (1 + 3))\<rparr>]"
    "TxOutTarget_public_key (out_target \<lparr>out_amount = 5, out_target = OutToKey (le_bytes 32 (1 + 3))\<rparr>) = Some (le_bytes 32 (1 + 3))"
    by (simp_all add: sample_signed_block_def sample_block_def TREE_HASH_MAX_COUNT_def)
  have c: "check_coinbase (miner_tx ?b) 18 100 388 = Inr ()"
    by (simp add: check_coinbase_iff sample_signed_block_def targets_ok_def RctSignatures_null_def RctSignatures_default_def)
  have p: "secret_key_to_public_key zl_dalek (le_bytes 32 3) = Some (le_bytes 32 (1 + 3))" by (rule zl_public) (simp add: L255_def)
  show ?thesis by (rule signed_block_prevalidates [OF zl_laws h(1-4) c h(5,6) length_le_bytes p])
qed

theorem prevalidate_accepts_witness:
  "prevalidate_miner_tx zl_dalek sample_signed_block 16 100 388 = Inr () \<and>
   prevalidate_miner_tx zl_dalek sample_signed_block 16 101 388 \<noteq> Inr ()"
  unfolding prevalidate_accepts
  by (simp add: sample_signed_block_def Let_def targets_ok_def RctSignatures_null_def RctSignatures_default_def)

end
