(* ===== verification/Records.thy ===== *)
theory Records
  imports Block PowDifficulty
begin

unbundle bit_operations_syntax

text \<open>
  The records of the database, \<open>crates/wow-storage/src/records.rs\<close>, the comparators of
  \<open>comparator.rs\<close> and the tables of \<open>tables.rs\<close>. A record is a fixed layout of fields at byte
  offsets. An encoder fills a buffer of zeros field by field, a decoder checks the length and reads
  the fields back. The slices of the code stay inside the buffer because every caller checks the
  length first. The host is little-endian, which the code asserts on open. Shown here: every
  encoder and decoder are inverse to each other in both directions on records of the right
  length, the comparators are total orders, and each decides equality of the keys it is used for.
\<close>

section \<open>Comparators\<close>

datatype Ordering = Less | Equal | Greater

definition word_cmp :: "'a::len word \<Rightarrow> 'a word \<Rightarrow> Ordering" where
  "word_cmp a b = (if a < b then Less else if a = b then Equal else Greater)"

definition ZEROKEY :: bytes where "ZEROKEY = replicate 8 0"

definition cmp_read_u64 :: "bytes \<Rightarrow> u64" where
  "cmp_read_u64 s = (let n = min (length s) 8 in u64_from_le_bytes (take n s @ replicate (8 - n) 0))"

definition cmp_read_u32 :: "bytes \<Rightarrow> usize \<Rightarrow> u32" where
  "cmp_read_u32 s off =
     u32_from_le_bytes (map (\<lambda>i. case list_get s (off + i) of Some b \<Rightarrow> b | None \<Rightarrow> 0) [0 ..< 4])"

definition compare_uint64 :: "bytes \<Rightarrow> bytes \<Rightarrow> Ordering" where
  "compare_uint64 a b = word_cmp (cmp_read_u64 a) (cmp_read_u64 b)"

text \<open>The loop \<open>for n in (0..8).rev()\<close>; \<open>n\<close> counts the words still to be compared.\<close>

fun hash32_loop :: "nat \<Rightarrow> bytes \<Rightarrow> bytes \<Rightarrow> Ordering" where
  "hash32_loop 0 a b = Equal"
| "hash32_loop (Suc n) a b =
     (let va = cmp_read_u32 a (n * 4); vb = cmp_read_u32 b (n * 4)
      in if va \<noteq> vb then word_cmp va vb else hash32_loop n a b)"

definition compare_hash32 :: "bytes \<Rightarrow> bytes \<Rightarrow> Ordering" where
  "compare_hash32 a b = hash32_loop 8 a b"

text \<open>The order of byte slices.\<close>

fun slice_cmp :: "bytes \<Rightarrow> bytes \<Rightarrow> Ordering" where
  "slice_cmp [] [] = Equal"
| "slice_cmp [] (_ # _) = Less"
| "slice_cmp (_ # _) [] = Greater"
| "slice_cmp (a # as) (b # bs) = (if a < b then Less else if a = b then slice_cmp as bs else Greater)"

definition usize_cmp :: "usize \<Rightarrow> usize \<Rightarrow> Ordering" where
  "usize_cmp a b = (if a < b then Less else if a = b then Equal else Greater)"

definition compare_string :: "bytes \<Rightarrow> bytes \<Rightarrow> Ordering" where
  "compare_string a b =
     (let sz = min (length a) (length b) in
      case slice_cmp (take sz a) (take sz b) of
        Equal \<Rightarrow> usize_cmp (length a) (length b)
      | other \<Rightarrow> other)"

section \<open>Fields\<close>

datatype RecordError =
    WrongLength usize usize
  | NotAnOutputRecord usize
  | RaggedOutputIndices usize
  | UnterminatedPropertyKey
  | AltBlockTooShort usize

definition u64_at :: "bytes \<Rightarrow> usize \<Rightarrow> u64" where
  "u64_at s off = u64_from_le_bytes (take 8 (drop off s))"

definition hash_at :: "bytes \<Rightarrow> usize \<Rightarrow> bytes" where
  "hash_at s off = take 32 (drop off s)"

definition put_slice :: "bytes \<Rightarrow> usize \<Rightarrow> bytes \<Rightarrow> bytes" where
  "put_slice out off v = take off out @ v @ drop (off + length v) out"

definition put_u64 :: "bytes \<Rightarrow> usize \<Rightarrow> u64 \<Rightarrow> bytes" where
  "put_u64 out off v = put_slice out off (u64_to_le_bytes v)"

definition put_hash :: "bytes \<Rightarrow> usize \<Rightarrow> bytes \<Rightarrow> bytes" where
  "put_hash out off v = put_slice out off v"

definition need :: "bytes \<Rightarrow> usize \<Rightarrow> RecordError + unit" where
  "need s expected = (if length s = expected then Inr () else Inl (WrongLength expected (length s)))"

section \<open>Records\<close>

record BlockInfo =
  bi_height :: u64
  bi_timestamp :: u64
  bi_coins :: u64
  bi_weight :: u64
  bi_cumulative_difficulty :: u128
  bi_hash :: Hash256
  bi_cum_rct :: u64
  bi_long_term_block_weight :: u64

definition BlockInfo_decode :: "bytes \<Rightarrow> RecordError + BlockInfo" where
  "BlockInfo_decode s = and_then (need s 96) (\<lambda>_. Inr
     \<lparr>bi_height = u64_at s 0, bi_timestamp = u64_at s 8, bi_coins = u64_at s 16, bi_weight = u64_at s 24,
      bi_cumulative_difficulty = ucast (u64_at s 32) OR push_bit 64 (ucast (u64_at s 40)),
      bi_hash = hash_at s 48, bi_cum_rct = u64_at s 80, bi_long_term_block_weight = u64_at s 88\<rparr>)"

definition BlockInfo_encode :: "BlockInfo \<Rightarrow> bytes" where
  "BlockInfo_encode r =
     (let out = replicate 96 0;
          out = put_u64 out 0 (bi_height r);
          out = put_u64 out 8 (bi_timestamp r);
          out = put_u64 out 16 (bi_coins r);
          out = put_u64 out 24 (bi_weight r);
          out = put_u64 out 32 (ucast (bi_cumulative_difficulty r));
          out = put_u64 out 40 (ucast (drop_bit 64 (bi_cumulative_difficulty r)));
          out = put_hash out 48 (bi_hash r);
          out = put_u64 out 80 (bi_cum_rct r);
          out = put_u64 out 88 (bi_long_term_block_weight r)
      in out)"

definition cumulative_rct_outputs :: "u64 \<Rightarrow> u8 \<Rightarrow> u64 \<Rightarrow> usize \<Rightarrow> (u64 \<times> usize) list \<Rightarrow> u64 \<Rightarrow> u64" where
  "cumulative_rct_outputs height block_major_version miner_tx_version miner_tx_outputs txs previous_cum_rct =
     (let n = (if miner_tx_version = 2 then word_of_nat miner_tx_outputs else 0);
          n = foldl (\<lambda>n (ver, outs). if ver = 2 then n + word_of_nat outs else n) n txs
      in if 0 < height \<and> 4 \<le> block_major_version then n + previous_cum_rct else n)"

record BlockHeight =
  bh_hash :: Hash256
  bh_height :: u64

definition BlockHeight_decode :: "bytes \<Rightarrow> RecordError + BlockHeight" where
  "BlockHeight_decode s = and_then (need s 40) (\<lambda>_. Inr \<lparr>bh_hash = hash_at s 0, bh_height = u64_at s 32\<rparr>)"

definition BlockHeight_encode :: "BlockHeight \<Rightarrow> bytes" where
  "BlockHeight_encode r =
     (let out = replicate 40 0; out = put_hash out 0 (bh_hash r); out = put_u64 out 32 (bh_height r) in out)"

record TxIndex =
  ti_key :: Hash256
  ti_tx_id :: u64
  ti_unlock_time :: u64
  ti_block_id :: u64

definition TxIndex_decode :: "bytes \<Rightarrow> RecordError + TxIndex" where
  "TxIndex_decode s = and_then (need s 56) (\<lambda>_. Inr
     \<lparr>ti_key = hash_at s 0, ti_tx_id = u64_at s 32, ti_unlock_time = u64_at s 40, ti_block_id = u64_at s 48\<rparr>)"

definition TxIndex_encode :: "TxIndex \<Rightarrow> bytes" where
  "TxIndex_encode r =
     (let out = replicate 56 0;
          out = put_hash out 0 (ti_key r);
          out = put_u64 out 32 (ti_tx_id r);
          out = put_u64 out 40 (ti_unlock_time r);
          out = put_u64 out 48 (ti_block_id r)
      in out)"

record OutKey =
  ok_amount_index :: u64
  ok_output_id :: u64
  ok_pubkey :: bytes
  ok_unlock_time :: u64
  ok_height :: u64
  ok_commitment :: "bytes option"

definition OutKey_decode :: "bytes \<Rightarrow> RecordError + OutKey" where
  "OutKey_decode s =
     and_then (if length s = 64 then Inr None
               else if length s = 96 then Inr (Some (hash_at s 64))
               else Inl (NotAnOutputRecord (length s))) (\<lambda>cmt. Inr
     \<lparr>ok_amount_index = u64_at s 0, ok_output_id = u64_at s 8, ok_pubkey = hash_at s 16,
      ok_unlock_time = u64_at s 48, ok_height = u64_at s 56, ok_commitment = cmt\<rparr>)"

definition OutKey_len :: "OutKey \<Rightarrow> usize" where
  "OutKey_len r = (if ok_commitment r \<noteq> None then 96 else 64)"

definition OutKey_encode :: "OutKey \<Rightarrow> bytes" where
  "OutKey_encode r =
     (let out = replicate (OutKey_len r) 0;
          out = put_u64 out 0 (ok_amount_index r);
          out = put_u64 out 8 (ok_output_id r);
          out = put_hash out 16 (ok_pubkey r);
          out = put_u64 out 48 (ok_unlock_time r);
          out = put_u64 out 56 (ok_height r)
      in case ok_commitment r of Some c \<Rightarrow> put_hash out 64 c | None \<Rightarrow> out)"

record OutTx =
  ot_output_id :: u64
  ot_tx_hash :: Hash256
  ot_local_index :: u64

definition OutTx_decode :: "bytes \<Rightarrow> RecordError + OutTx" where
  "OutTx_decode s = and_then (need s 48) (\<lambda>_. Inr
     \<lparr>ot_output_id = u64_at s 0, ot_tx_hash = hash_at s 8, ot_local_index = u64_at s 40\<rparr>)"

definition OutTx_encode :: "OutTx \<Rightarrow> bytes" where
  "OutTx_encode r =
     (let out = replicate 48 0;
          out = put_u64 out 0 (ot_output_id r);
          out = put_hash out 8 (ot_tx_hash r);
          out = put_u64 out 40 (ot_local_index r)
      in out)"

text \<open>The whole chunks of eight bytes.\<close>

fun chunks8 :: "bytes \<Rightarrow> bytes list" where
  "chunks8 s = (if length s < 8 then [] else take 8 s # chunks8 (drop 8 s))"

declare chunks8.simps [simp del]

definition decode_tx_outputs :: "bytes \<Rightarrow> RecordError + u64 list" where
  "decode_tx_outputs s =
     (if length s mod 8 \<noteq> 0 then Inl (RaggedOutputIndices (length s))
      else Inr (map u64_from_le_bytes (chunks8 s)))"

definition encode_tx_outputs :: "u64 list \<Rightarrow> bytes" where
  "encode_tx_outputs indices = foldl (\<lambda>out i. out @ u64_to_le_bytes i) [] indices"

section \<open>The memory pool's record\<close>

datatype RelayMethod = RelayNone | RelayLocal | RelayForward | RelayStem | RelayBlock | RelayFluff

record TxPoolMeta =
  tm_max_used_block_id :: Hash256
  tm_last_failed_id :: Hash256
  tm_weight :: u64
  tm_fee :: u64
  tm_max_used_block_height :: u64
  tm_last_failed_height :: u64
  tm_receive_time :: u64
  tm_last_relayed_time :: u64
  kept_by_block :: bool
  relayed :: bool
  do_not_relay :: bool
  double_spend_seen :: bool
  pruned :: bool
  is_local :: bool
  dandelionpp_stem :: bool
  is_forwarding :: bool
  bf_padding :: u8
  tm_padding :: bytes

definition u8_of_bool :: "bool \<Rightarrow> u8" where "u8_of_bool b = (if b then 1 else 0)"

definition TxPoolMeta_default :: TxPoolMeta where
  "TxPoolMeta_default =
     \<lparr>tm_max_used_block_id = replicate 32 0, tm_last_failed_id = replicate 32 0, tm_weight = 0, tm_fee = 0,
      tm_max_used_block_height = 0, tm_last_failed_height = 0, tm_receive_time = 0, tm_last_relayed_time = 0,
      kept_by_block = False, relayed = False, do_not_relay = False, double_spend_seen = False, pruned = False,
      is_local = False, dandelionpp_stem = False, is_forwarding = False, bf_padding = 0,
      tm_padding = replicate 76 0\<rparr>"

definition TxPoolMeta_decode :: "bytes \<Rightarrow> RecordError + TxPoolMeta" where
  "TxPoolMeta_decode s = and_then (need s 192) (\<lambda>_.
     let bits = s ! 115 in Inr
     \<lparr>tm_max_used_block_id = hash_at s 0, tm_last_failed_id = hash_at s 32, tm_weight = u64_at s 64,
      tm_fee = u64_at s 72, tm_max_used_block_height = u64_at s 80, tm_last_failed_height = u64_at s 88,
      tm_receive_time = u64_at s 96, tm_last_relayed_time = u64_at s 104,
      kept_by_block = (s ! 112 \<noteq> 0), relayed = (s ! 113 \<noteq> 0), do_not_relay = (s ! 114 \<noteq> 0),
      double_spend_seen = (bits AND 1 \<noteq> 0), pruned = (bits AND 2 \<noteq> 0), is_local = (bits AND 4 \<noteq> 0),
      dandelionpp_stem = (bits AND 8 \<noteq> 0), is_forwarding = (bits AND 16 \<noteq> 0), bf_padding = drop_bit 5 bits,
      tm_padding = take 76 (drop 116 s)\<rparr>)"

definition TxPoolMeta_encode :: "TxPoolMeta \<Rightarrow> bytes" where
  "TxPoolMeta_encode r =
     (let out = replicate 192 0;
          out = put_hash out 0 (tm_max_used_block_id r);
          out = put_hash out 32 (tm_last_failed_id r);
          out = put_u64 out 64 (tm_weight r);
          out = put_u64 out 72 (tm_fee r);
          out = put_u64 out 80 (tm_max_used_block_height r);
          out = put_u64 out 88 (tm_last_failed_height r);
          out = put_u64 out 96 (tm_receive_time r);
          out = put_u64 out 104 (tm_last_relayed_time r);
          out = out[112 := u8_of_bool (kept_by_block r)];
          out = out[113 := u8_of_bool (relayed r)];
          out = out[114 := u8_of_bool (do_not_relay r)];
          out = out[115 := u8_of_bool (double_spend_seen r) OR push_bit 1 (u8_of_bool (pruned r))
                  OR push_bit 2 (u8_of_bool (is_local r)) OR push_bit 3 (u8_of_bool (dandelionpp_stem r))
                  OR push_bit 4 (u8_of_bool (is_forwarding r)) OR push_bit 5 (bf_padding r)]
      in put_slice out 116 (tm_padding r))"

definition relay_method :: "TxPoolMeta \<Rightarrow> RelayMethod" where
  "relay_method r =
     (let state = u8_of_bool (kept_by_block r) OR push_bit 1 (u8_of_bool (do_not_relay r))
                  OR push_bit 2 (u8_of_bool (is_local r)) OR push_bit 3 (u8_of_bool (is_forwarding r))
                  OR push_bit 4 (u8_of_bool (dandelionpp_stem r))
      in if state = 1 then RelayBlock else if state = 2 then RelayNone else if state = 4 then RelayLocal
         else if state = 8 then RelayForward else if state = 16 then RelayStem else RelayFluff)"

definition set_relay_method :: "TxPoolMeta \<Rightarrow> RelayMethod \<Rightarrow> TxPoolMeta" where
  "set_relay_method r method =
     (let r = r\<lparr>kept_by_block := False, do_not_relay := False, is_local := False, is_forwarding := False,
                dandelionpp_stem := False\<rparr>
      in case method of
           RelayNone \<Rightarrow> r\<lparr>do_not_relay := True\<rparr>
         | RelayLocal \<Rightarrow> r\<lparr>is_local := True\<rparr>
         | RelayForward \<Rightarrow> r\<lparr>is_forwarding := True\<rparr>
         | RelayStem \<Rightarrow> r\<lparr>dandelionpp_stem := True\<rparr>
         | RelayBlock \<Rightarrow> r\<lparr>kept_by_block := True\<rparr>
         | RelayFluff \<Rightarrow> r)"

section \<open>Alternative blocks and properties\<close>

record AltBlock =
  ab_height :: u64
  ab_cumulative_weight :: u64
  ab_cumulative_difficulty :: u128
  ab_already_generated_coins :: u64
  ab_blob :: bytes

definition AltBlock_decode :: "bytes \<Rightarrow> RecordError + AltBlock" where
  "AltBlock_decode s =
     (if length s < 40 then Inl (AltBlockTooShort (length s))
      else Inr \<lparr>ab_height = u64_at s 0, ab_cumulative_weight = u64_at s 8,
        ab_cumulative_difficulty = ucast (u64_at s 16) OR push_bit 64 (ucast (u64_at s 24)),
        ab_already_generated_coins = u64_at s 32, ab_blob = drop 40 s\<rparr>)"

definition AltBlock_encode :: "AltBlock \<Rightarrow> bytes" where
  "AltBlock_encode r =
     (let out = replicate 40 0;
          out = put_u64 out 0 (ab_height r);
          out = put_u64 out 8 (ab_cumulative_weight r);
          out = put_u64 out 16 (ucast (ab_cumulative_difficulty r));
          out = put_u64 out 24 (ucast (drop_bit 64 (ab_cumulative_difficulty r)));
          out = put_u64 out 32 (ab_already_generated_coins r)
      in out @ ab_blob r)"

text \<open>A name is its UTF-8 bytes; the names the code uses are ASCII.\<close>

definition property_key :: "bytes \<Rightarrow> bytes" where
  "property_key name = name @ [0]"

section \<open>Tables\<close>

datatype Cmp = CmpDefault | CmpUint64 | CmpHash32 | CmpString

datatype Db =
    T_blocks | T_block_info | T_block_heights | T_txs | T_txs_pruned | T_txs_prunable | T_txs_prunable_hash
  | T_txs_prunable_tip | T_tx_indices | T_tx_outputs | T_output_txs | T_output_amounts | T_spent_keys
  | T_txpool_meta | T_txpool_blob | T_alt_blocks | T_hf_starting_heights | T_hf_versions | T_properties

record Table =
  tb_db :: Db
  tb_integer_key :: bool
  tb_dup_sort :: bool
  tb_key_cmp :: Cmp
  tb_dup_cmp :: Cmp
  tb_write_only :: bool
  tb_drop_on_open :: bool
  tb_legacy :: bool

definition table_int :: "Db \<Rightarrow> Cmp \<Rightarrow> Table" where
  "table_int n key_cmp = \<lparr>tb_db = n, tb_integer_key = True, tb_dup_sort = False, tb_key_cmp = key_cmp,
     tb_dup_cmp = CmpDefault, tb_write_only = False, tb_drop_on_open = False, tb_legacy = False\<rparr>"

definition table_int_dup :: "Db \<Rightarrow> Cmp \<Rightarrow> Table" where
  "table_int_dup n dup_cmp = \<lparr>tb_db = n, tb_integer_key = True, tb_dup_sort = True, tb_key_cmp = CmpDefault,
     tb_dup_cmp = dup_cmp, tb_write_only = False, tb_drop_on_open = False, tb_legacy = False\<rparr>"

definition table_plain :: "Db \<Rightarrow> Cmp \<Rightarrow> Table" where
  "table_plain n key_cmp = \<lparr>tb_db = n, tb_integer_key = False, tb_dup_sort = False, tb_key_cmp = key_cmp,
     tb_dup_cmp = CmpDefault, tb_write_only = False, tb_drop_on_open = False, tb_legacy = False\<rparr>"

definition TABLES :: "Table list" where
  "TABLES =
     [table_int T_blocks CmpDefault,
      table_int_dup T_block_info CmpUint64,
      table_int_dup T_block_heights CmpHash32,
      (table_int T_txs CmpDefault)\<lparr>tb_legacy := True\<rparr>,
      table_int T_txs_pruned CmpDefault,
      table_int T_txs_prunable CmpUint64,
      table_int_dup T_txs_prunable_hash CmpUint64,
      (table_int_dup T_txs_prunable_tip CmpUint64)\<lparr>tb_write_only := True\<rparr>,
      table_int_dup T_tx_indices CmpHash32,
      table_int T_tx_outputs CmpDefault,
      table_int_dup T_output_txs CmpUint64,
      table_int_dup T_output_amounts CmpUint64,
      table_int_dup T_spent_keys CmpHash32,
      table_plain T_txpool_meta CmpHash32,
      table_plain T_txpool_blob CmpHash32,
      table_plain T_alt_blocks CmpHash32,
      (table_plain T_hf_starting_heights CmpDefault)\<lparr>tb_write_only := True, tb_drop_on_open := True\<rparr>,
      table_int T_hf_versions CmpDefault,
      table_plain T_properties CmpString]"

definition table_of :: "Db \<Rightarrow> Table option" where
  "table_of n = find (\<lambda>t. tb_db t = n) TABLES"

definition ZEROKVAL_TABLES :: "Db list" where
  "ZEROKVAL_TABLES = [T_block_info, T_block_heights, T_tx_indices, T_output_txs, T_spent_keys]"

definition is_zerokval :: "Db \<Rightarrow> bool" where
  "is_zerokval n \<longleftrightarrow> n \<in> set ZEROKVAL_TABLES"

section \<open>The errors of the store\<close>

text \<open>An LMDB error is a code and the operation that returned it. The error of the storage trait
  boxes what went wrong behind it; the box is a datatype of the errors the code puts there.\<close>

record LmdbError =
  lmdb_code :: int
  lmdb_op :: string

datatype StoreError = MissingOutPk usize | UndecodableCommitment usize

datatype VersionVerdict = Fresh | Current | NeedsMigration u32 | TooNew u32

datatype BackendError =
    BackendLmdb LmdbError
  | TipMismatch string u64 u64
  | OffsetMismatch usize usize usize
  | StoreFailed StoreError
  | NoRoomToGrow u64 u64
  | VersionError VersionVerdict
  | BatchShape

datatype DbError = NotFound | DbRecord RecordError | DbBackend BackendError | ReadOnly | ResizeWhileOpen

record AltBlockData =
  alt_height :: u64
  alt_cumulative_weight :: u64
  alt_cumulative_difficulty :: u128
  alt_already_generated_coins :: u64

section \<open>The layouts\<close>

text \<open>Filling a zeroed buffer from the left: a field that follows what is already there.\<close>

lemma put_slice_skip: "length x \<le> off \<Longrightarrow> put_slice (x @ y) off v = x @ put_slice y (off - length x) v"
  by (simp add: put_slice_def)

lemma put_slice_zeros: "put_slice (replicate m 0) 0 v = v @ replicate (m - length v) 0"
  by (simp add: put_slice_def)

lemmas put_simps = put_u64_def put_hash_def put_slice_skip put_slice_zeros

lemma u64_at_append:
  "length x \<le> off \<Longrightarrow> u64_at (x @ y) off = u64_at y (off - length x)"
  "u64_at (u64_to_le_bytes v @ y) 0 = v"
  "u64_at (u64_to_le_bytes v) 0 = v"
  by (simp_all add: u64_at_def)

lemma hash_at_append:
  "length x \<le> off \<Longrightarrow> hash_at (x @ y) off = hash_at y (off - length x)"
  "length h = 32 \<Longrightarrow> hash_at (h @ y) 0 = h"
  "length h = 32 \<Longrightarrow> hash_at h 0 = h"
  by (simp_all add: hash_at_def)

lemmas at_simps = u64_at_append hash_at_append

lemma BlockInfo_layout:
  "length (bi_hash r) = 32 \<Longrightarrow> BlockInfo_encode r =
     u64_to_le_bytes (bi_height r) @ u64_to_le_bytes (bi_timestamp r) @ u64_to_le_bytes (bi_coins r) @
     u64_to_le_bytes (bi_weight r) @ u64_to_le_bytes (ucast (bi_cumulative_difficulty r)) @
     u64_to_le_bytes (ucast (drop_bit 64 (bi_cumulative_difficulty r))) @ bi_hash r @
     u64_to_le_bytes (bi_cum_rct r) @ u64_to_le_bytes (bi_long_term_block_weight r)"
  by (simp add: BlockInfo_encode_def Let_def put_simps)

lemma BlockHeight_layout:
  "length (bh_hash r) = 32 \<Longrightarrow> BlockHeight_encode r = bh_hash r @ u64_to_le_bytes (bh_height r)"
  by (simp add: BlockHeight_encode_def Let_def put_simps)

lemma TxIndex_layout:
  "length (ti_key r) = 32 \<Longrightarrow> TxIndex_encode r =
     ti_key r @ u64_to_le_bytes (ti_tx_id r) @ u64_to_le_bytes (ti_unlock_time r) @ u64_to_le_bytes (ti_block_id r)"
  by (simp add: TxIndex_encode_def Let_def put_simps)

definition wf_out_key :: "OutKey \<Rightarrow> bool" where
  "wf_out_key r \<longleftrightarrow> length (ok_pubkey r) = 32 \<and> (\<forall>c. ok_commitment r = Some c \<longrightarrow> length c = 32)"

lemma OutKey_layout:
  assumes "wf_out_key r"
  shows "OutKey_encode r =
     u64_to_le_bytes (ok_amount_index r) @ u64_to_le_bytes (ok_output_id r) @ ok_pubkey r @
     u64_to_le_bytes (ok_unlock_time r) @ u64_to_le_bytes (ok_height r) @ (case ok_commitment r of Some c \<Rightarrow> c | None \<Rightarrow> [])"
  using assms by (simp add: wf_out_key_def OutKey_encode_def OutKey_len_def Let_def put_simps split: option.split)

lemma OutTx_layout:
  "length (ot_tx_hash r) = 32 \<Longrightarrow> OutTx_encode r =
     u64_to_le_bytes (ot_output_id r) @ ot_tx_hash r @ u64_to_le_bytes (ot_local_index r)"
  by (simp add: OutTx_encode_def Let_def put_simps)

lemma AltBlock_layout:
  "AltBlock_encode r =
     u64_to_le_bytes (ab_height r) @ u64_to_le_bytes (ab_cumulative_weight r) @
     u64_to_le_bytes (ucast (ab_cumulative_difficulty r)) @
     u64_to_le_bytes (ucast (drop_bit 64 (ab_cumulative_difficulty r))) @
     u64_to_le_bytes (ab_already_generated_coins r) @ ab_blob r"
  by (simp add: AltBlock_encode_def Let_def put_simps)

lemma u128_halves:
  "ucast (ucast d :: u64) OR push_bit 64 (ucast (ucast (drop_bit 64 d) :: u64)) = (d :: u128)"
  "(ucast (ucast lo OR push_bit 64 (ucast hi) :: u128) :: u64) = lo"
  "(ucast (drop_bit 64 (ucast lo OR push_bit 64 (ucast hi) :: u128)) :: u64) = hi"
  by (rule bit_word_eqI; auto simp: bit_simps dest: bit_imp_le_length)+

text \<open>A buffer of the right length is the concatenation of the fields read from it.\<close>

lemma u64_at_bytes: "off + 8 \<le> length s \<Longrightarrow> u64_to_le_bytes (u64_at s off) = take 8 (drop off s)"
  by (simp add: u64_at_def to_from_le_bytes)

lemma take_drop_join: "take m (drop n s) @ drop (n + m) s = drop n s"
  by (metis append_take_drop_id drop_drop add.commute)

lemma length_hash_at: "off + 32 \<le> length s \<Longrightarrow> length (hash_at s off) = 32"
  by (simp add: hash_at_def)

section \<open>Records that are inverse to their encodings\<close>

locale record_codec =
  fixes enc :: "'r \<Rightarrow> bytes" and dec :: "bytes \<Rightarrow> RecordError + 'r" and wf :: "'r \<Rightarrow> bool"
  assumes dec_enc: "wf r \<Longrightarrow> dec (enc r) = Inr r"
    and enc_dec: "dec s = Inr r \<Longrightarrow> wf r \<and> enc r = s"
begin

lemma dec_iff: "dec s = Inr r \<longleftrightarrow> wf r \<and> enc r = s"
  using dec_enc enc_dec by blast

lemma enc_inj: "wf r \<Longrightarrow> wf r' \<Longrightarrow> enc r = enc r' \<Longrightarrow> r = r'"
  using dec_enc by (metis sum.inject(2))

end

lemmas join_simps = u64_at_bytes hash_at_def take_drop_join

interpretation block_info: record_codec BlockInfo_encode BlockInfo_decode "\<lambda>r. length (bi_hash r) = 32"
proof unfold_locales
  show "BlockInfo_decode (BlockInfo_encode r) = Inr r" if "length (bi_hash r) = 32" for r
    using that by (simp add: BlockInfo_decode_def BlockInfo_layout need_def at_simps u128_halves)
next
  fix s r assume "BlockInfo_decode s = Inr r"
  then have l: "length s = 96" and r: "r = \<lparr>bi_height = u64_at s 0, bi_timestamp = u64_at s 8, bi_coins = u64_at s 16,
      bi_weight = u64_at s 24, bi_cumulative_difficulty = ucast (u64_at s 32) OR push_bit 64 (ucast (u64_at s 40)),
      bi_hash = hash_at s 48, bi_cum_rct = u64_at s 80, bi_long_term_block_weight = u64_at s 88\<rparr>"
    by (auto simp: BlockInfo_decode_def need_def split: if_splits)
  have "s = take 8 s @ take 8 (drop 8 s) @ take 8 (drop 16 s) @ take 8 (drop 24 s) @ take 8 (drop 32 s) @
      take 8 (drop 40 s) @ take 32 (drop 48 s) @ take 8 (drop 80 s) @ take 8 (drop 88 s)"
    using l by (simp add: list_eq_iff_nth_eq nth_append)
  then show "length (bi_hash r) = 32 \<and> BlockInfo_encode r = s"
    using l by (simp add: r BlockInfo_layout length_hash_at u128_halves u64_at_bytes del: drop_bit_or) (simp add: hash_at_def)
qed

interpretation block_height: record_codec BlockHeight_encode BlockHeight_decode "\<lambda>r. length (bh_hash r) = 32"
proof unfold_locales
  show "BlockHeight_decode (BlockHeight_encode r) = Inr r" if "length (bh_hash r) = 32" for r
    using that by (simp add: BlockHeight_decode_def BlockHeight_layout need_def at_simps)
next
  fix s r assume "BlockHeight_decode s = Inr r"
  then have l: "length s = 40" and r: "r = \<lparr>bh_hash = hash_at s 0, bh_height = u64_at s 32\<rparr>"
    by (auto simp: BlockHeight_decode_def need_def split: if_splits)
  have "s = take 32 s @ take 8 (drop 32 s)" using l by (simp add: list_eq_iff_nth_eq nth_append)
  then show "length (bh_hash r) = 32 \<and> BlockHeight_encode r = s"
    using l by (simp add: r BlockHeight_layout length_hash_at u64_at_bytes) (simp add: hash_at_def)
qed

interpretation tx_index: record_codec TxIndex_encode TxIndex_decode "\<lambda>r. length (ti_key r) = 32"
proof unfold_locales
  show "TxIndex_decode (TxIndex_encode r) = Inr r" if "length (ti_key r) = 32" for r
    using that by (simp add: TxIndex_decode_def TxIndex_layout need_def at_simps)
next
  fix s r assume "TxIndex_decode s = Inr r"
  then have l: "length s = 56" and r: "r = \<lparr>ti_key = hash_at s 0, ti_tx_id = u64_at s 32, ti_unlock_time = u64_at s 40,
      ti_block_id = u64_at s 48\<rparr>"
    by (auto simp: TxIndex_decode_def need_def split: if_splits)
  have "s = take 32 s @ take 8 (drop 32 s) @ take 8 (drop 40 s) @ take 8 (drop 48 s)"
    using l by (simp add: list_eq_iff_nth_eq nth_append)
  then show "length (ti_key r) = 32 \<and> TxIndex_encode r = s"
    using l by (simp add: r TxIndex_layout length_hash_at u64_at_bytes) (simp add: hash_at_def)
qed

interpretation out_key: record_codec OutKey_encode OutKey_decode wf_out_key
proof unfold_locales
  show "OutKey_decode (OutKey_encode r) = Inr r" if "wf_out_key r" for r
    using that OutKey_layout [OF that] by (cases "ok_commitment r") (simp_all add: wf_out_key_def OutKey_decode_def at_simps)
next
  fix s r assume d: "OutKey_decode s = Inr r"
  then have l: "length s = 64 \<or> length s = 96" by (auto simp: OutKey_decode_def split: if_splits)
  from d have r: "r = \<lparr>ok_amount_index = u64_at s 0, ok_output_id = u64_at s 8, ok_pubkey = hash_at s 16,
      ok_unlock_time = u64_at s 48, ok_height = u64_at s 56, ok_commitment = (if length s = 64 then None else Some (hash_at s 64))\<rparr>"
    by (auto simp: OutKey_decode_def split: if_splits)
  have e: "take 8 s @ take 8 (drop 8 s) @ take 32 (drop 16 s) @ take 8 (drop 48 s) @ take 8 (drop 56 s) @ drop 64 s = s"
    using take_drop_join [of 8 0 s] take_drop_join [of 8 8 s] take_drop_join [of 32 16 s] take_drop_join [of 8 48 s]
      take_drop_join [of 8 56 s] by simp
  have w: "wf_out_key r" using l by (auto simp: r wf_out_key_def length_hash_at)
  have "OutKey_encode r = s"
    unfolding OutKey_layout [OF w] using l e by (auto simp: r u64_at_bytes hash_at_def)
  with w show "wf_out_key r \<and> OutKey_encode r = s" ..
qed

interpretation out_tx: record_codec OutTx_encode OutTx_decode "\<lambda>r. length (ot_tx_hash r) = 32"
proof unfold_locales
  show "OutTx_decode (OutTx_encode r) = Inr r" if "length (ot_tx_hash r) = 32" for r
    using that by (simp add: OutTx_decode_def OutTx_layout need_def at_simps)
next
  fix s r assume "OutTx_decode s = Inr r"
  then have l: "length s = 48" and r: "r = \<lparr>ot_output_id = u64_at s 0, ot_tx_hash = hash_at s 8, ot_local_index = u64_at s 40\<rparr>"
    by (auto simp: OutTx_decode_def need_def split: if_splits)
  have "s = take 8 s @ take 32 (drop 8 s) @ take 8 (drop 40 s)"
    using l by (simp add: list_eq_iff_nth_eq nth_append)
  then show "length (ot_tx_hash r) = 32 \<and> OutTx_encode r = s"
    using l by (simp add: r OutTx_layout length_hash_at u64_at_bytes) (simp add: hash_at_def)
qed

interpretation alt_block: record_codec AltBlock_encode AltBlock_decode "\<lambda>_. True"
proof unfold_locales
  show "AltBlock_decode (AltBlock_encode r) = Inr r" if "True" for r
    by (simp add: AltBlock_decode_def AltBlock_layout at_simps u128_halves)
next
  fix s r assume "AltBlock_decode s = Inr r"
  then have l: "40 \<le> length s" and r: "r = \<lparr>ab_height = u64_at s 0, ab_cumulative_weight = u64_at s 8,
      ab_cumulative_difficulty = ucast (u64_at s 16) OR push_bit 64 (ucast (u64_at s 24)),
      ab_already_generated_coins = u64_at s 32, ab_blob = drop 40 s\<rparr>"
    by (auto simp: AltBlock_decode_def split: if_splits)
  have "s = take 8 s @ take 8 (drop 8 s) @ take 8 (drop 16 s) @ take 8 (drop 24 s) @ take 8 (drop 32 s) @ drop 40 s"
    using l by (auto simp: list_eq_iff_nth_eq nth_append)
  then show "True \<and> AltBlock_encode r = s"
    using l by (simp add: r AltBlock_layout u64_at_bytes u128_halves del: drop_bit_or)
qed

lemma chunks8_short: "length s < 8 \<Longrightarrow> chunks8 s = []"
  by (subst chunks8.simps) simp

lemma chunks8_step: "8 \<le> length s \<Longrightarrow> chunks8 s = take 8 s # chunks8 (drop 8 s)"
  by (subst chunks8.simps) simp

lemma chunks8_encode: "chunks8 (concat (map u64_to_le_bytes is)) = map u64_to_le_bytes is"
proof (induction "is")
  case Nil
  show ?case by (simp add: chunks8_short)
next
  case (Cons i "is")
  then show ?case by (simp add: chunks8_step)
qed

lemma encode_tx_outputs_eq: "encode_tx_outputs is = concat (map u64_to_le_bytes is)"
proof -
  have "foldl (\<lambda>out i. out @ u64_to_le_bytes i) acc is = acc @ concat (map u64_to_le_bytes is)" for acc
    by (induction "is" arbitrary: acc) simp_all
  then show ?thesis by (simp add: encode_tx_outputs_def)
qed

lemma chunks8_concat: "length s mod 8 = 0 \<Longrightarrow> concat (chunks8 s) = s \<and> (\<forall>c \<in> set (chunks8 s). length c = 8)"
proof (induction s rule: chunks8.induct)
  case (1 s)
  show ?case
  proof (cases "length s < 8")
    case True
    with 1(2) show ?thesis by (simp add: chunks8_short mod_less)
  next
    case False
    then have "length (drop 8 s) mod 8 = 0" using 1(2) le_mod_geq [of 8 "length s"] by simp
    note ih = 1(1) [OF False this]
    have c: "chunks8 s = take 8 s # chunks8 (drop 8 s)" by (rule chunks8_step) (use False in linarith)
    have j: "concat X = drop 8 s \<Longrightarrow> concat (take 8 s # X) = s" for X by simp
    have l: "\<forall>c \<in> set X. length c = 8 \<Longrightarrow> \<forall>c \<in> set (take 8 s # X). length c = 8" for X using False by simp
    show ?thesis unfolding c using j [OF conjunct1 [OF ih]] l [OF conjunct2 [OF ih]] ..
  qed
qed

interpretation tx_outputs: record_codec encode_tx_outputs decode_tx_outputs "\<lambda>_. True"
proof unfold_locales
  show "decode_tx_outputs (encode_tx_outputs is) = Inr is" if "True" for "is"
    by (simp add: decode_tx_outputs_def encode_tx_outputs_eq chunks8_encode length_concat_const [where k = 8] o_def)
      (simp add: length_concat o_def sum_list_triv)
next
  fix s r assume "decode_tx_outputs s = Inr r"
  then have "length s mod 8 = 0" "r = map u64_from_le_bytes (chunks8 s)" by (auto simp: decode_tx_outputs_def split: if_splits)
  with chunks8_concat [of s] show "True \<and> encode_tx_outputs r = s"
    by (simp add: encode_tx_outputs_eq o_def to_from_le_bytes cong: map_cong)
qed

section \<open>The pool record\<close>

definition wf_pool_meta :: "TxPoolMeta \<Rightarrow> bool" where
  "wf_pool_meta r \<longleftrightarrow> length (tm_max_used_block_id r) = 32 \<and> length (tm_last_failed_id r) = 32 \<and>
     bf_padding r < 8 \<and> length (tm_padding r) = 76"

lemma pool_bits:
  fixes p :: u8 and a b c d e :: bool
  defines "x \<equiv> u8_of_bool a OR push_bit 1 (u8_of_bool b) OR push_bit 2 (u8_of_bool c) OR push_bit 3 (u8_of_bool d)
    OR push_bit 4 (u8_of_bool e) OR push_bit 5 p"
  assumes "p < 8"
  shows "(x AND 1 \<noteq> 0) = a" "(x AND 2 \<noteq> 0) = b" "(x AND 4 \<noteq> 0) = c" "(x AND 8 \<noteq> 0) = d" "(x AND 16 \<noteq> 0) = e"
    "drop_bit 5 x = p"
proof -
  have m: "(y AND 2 ^ n \<noteq> 0) = bit y n" for y :: u8 and n
    by (metis and_exp_eq_0_iff_not_bit)
  have ub: "bit (u8_of_bool q) n \<longleftrightarrow> q \<and> n = 0" for q n by (simp add: u8_of_bool_def bit_1_iff)
  note bs = bit_or_iff bit_push_bit_iff ub x_def
  show "(x AND 1 \<noteq> 0) = a" using m [of x 0] by (simp add: bs del: One_nat_def push_bit_Suc)
  show "(x AND 2 \<noteq> 0) = b" using m [of x 1] by (simp add: bs del: One_nat_def push_bit_Suc)
  show "(x AND 4 \<noteq> 0) = c" using m [of x 2] by (simp add: bs del: One_nat_def push_bit_Suc)
  show "(x AND 8 \<noteq> 0) = d" using m [of x 3] by (simp add: bs del: One_nat_def push_bit_Suc)
  show "(x AND 16 \<noteq> 0) = e" using m [of x 4] by (simp add: bs del: One_nat_def push_bit_Suc)
  show "drop_bit 5 x = p"
  proof (rule bit_word_eqI)
    fix n assume n: "n < LENGTH(8)"
    have "\<not> bit p n" if "3 \<le> n"
    proof -
      have "take_bit 3 p = p" using assms(2) by (simp add: word_unat_eq_iff unat_take_bit_mod word_less_nat_alt)
      then show ?thesis using that by (metis bit_take_bit_iff not_less)
    qed
    then show "bit (drop_bit 5 x) n = bit p n"
      using n by (cases "3 \<le> n") (simp_all add: bit_drop_bit_eq bs del: One_nat_def push_bit_Suc)
  qed
qed

lemma list_update_put: "i < length out \<Longrightarrow> out[i := v] = put_slice out i [v]"
  by (simp add: put_slice_def upd_conv_take_nth_drop)

lemma TxPoolMeta_layout:
  assumes "wf_pool_meta r"
  shows "TxPoolMeta_encode r = tm_max_used_block_id r @ tm_last_failed_id r @ u64_to_le_bytes (tm_weight r) @
     u64_to_le_bytes (tm_fee r) @ u64_to_le_bytes (tm_max_used_block_height r) @ u64_to_le_bytes (tm_last_failed_height r) @
     u64_to_le_bytes (tm_receive_time r) @ u64_to_le_bytes (tm_last_relayed_time r) @
     [u8_of_bool (kept_by_block r), u8_of_bool (relayed r), u8_of_bool (do_not_relay r),
      u8_of_bool (double_spend_seen r) OR push_bit 1 (u8_of_bool (pruned r)) OR push_bit 2 (u8_of_bool (is_local r))
        OR push_bit 3 (u8_of_bool (dandelionpp_stem r)) OR push_bit 4 (u8_of_bool (is_forwarding r)) OR push_bit 5 (bf_padding r)]
     @ tm_padding r"
proof -
  have put1: "put_slice (x # xs) (Suc n) v = x # put_slice xs n v" for x xs n v by (simp add: put_slice_def)
  have put1n: "put_slice (x # xs) (numeral n) v = x # put_slice xs (pred_numeral n) v" for x xs n v by (simp add: put_slice_def numeral_eq_Suc)
  show ?thesis
    using assms unfolding wf_pool_meta_def TxPoolMeta_encode_def Let_def
    by (simp add: put_simps list_update_put put1 put1n)
qed

text \<open>What is stored of a pool transaction is read back as it was, the unused bits and bytes
  included; and the relay method that was set is the one that is read, whatever the flags were before.\<close>

theorem pool_meta_roundtrip:
  assumes "wf_pool_meta r"
  shows "TxPoolMeta_decode (TxPoolMeta_encode r) = Inr r \<and> relay_method (set_relay_method r m) = m \<and>
    TxPoolMeta_decode (TxPoolMeta_encode (set_relay_method r m)) = Inr (set_relay_method r m)"
proof -
  have rt: "TxPoolMeta_decode (TxPoolMeta_encode r) = Inr r" if "wf_pool_meta r" for r
  proof -
    have l: "length (tm_max_used_block_id r) = 32" "length (tm_last_failed_id r) = 32" "bf_padding r < 8" "length (tm_padding r) = 76"
      using that by (simp_all add: wf_pool_meta_def)
    show ?thesis
      by (simp add: TxPoolMeta_decode_def TxPoolMeta_layout [OF that] need_def at_simps l pool_bits [OF l(3)] nth_append
          Let_def del: One_nat_def push_bit_Suc drop_bit_or)
        (simp add: u8_of_bool_def [of "kept_by_block r"] u8_of_bool_def [of "relayed r"] u8_of_bool_def [of "do_not_relay r"])
  qed
  have "wf_pool_meta (set_relay_method r m)" using assms by (cases m) (simp_all add: wf_pool_meta_def set_relay_method_def)
  from rt [OF this] rt [OF assms] show ?thesis
    by (cases m) (simp_all add: relay_method_def set_relay_method_def u8_of_bool_def)
qed

theorem pool_meta_roundtrip_witness:
  "TxPoolMeta_decode (TxPoolMeta_encode (TxPoolMeta_default\<lparr>bf_padding := 5\<rparr>)) = Inr (TxPoolMeta_default\<lparr>bf_padding := 5\<rparr>) \<and>
   relay_method (set_relay_method (TxPoolMeta_default\<lparr>bf_padding := 5\<rparr>) RelayStem) = RelayStem"
proof -
  have "wf_pool_meta (TxPoolMeta_default\<lparr>bf_padding := 5\<rparr>)" by (simp add: wf_pool_meta_def TxPoolMeta_default_def)
  from pool_meta_roundtrip [OF this, of RelayStem] show ?thesis by blast
qed

section \<open>The orders\<close>

lemma le_nat_zeros [simp]: "le_nat (replicate n 0) = 0"
  by (induction n) simp_all

lemma le_nat_take_u32:
  "le_nat (take (off + 4) s) = le_nat (take off s) + 256 ^ off * unat (cmp_read_u32 s off)"
proof (cases "off \<le> length s")
  case True
  let ?w = "take 4 (drop off s)"
  have pad: "map (\<lambda>i. case list_get s (off + i) of Some b \<Rightarrow> b | None \<Rightarrow> 0) [0 ..< 4] = ?w @ replicate (4 - length ?w) 0"
    using True by (auto simp: list_eq_iff_nth_eq nth_append list_get_def)
  have "le_nat (?w @ replicate (4 - length ?w) 0) < 2 ^ 32"
    using le_nat_less [of "?w @ replicate (4 - length ?w) 0"] by simp
  then have "unat (cmp_read_u32 s off) = le_nat ?w"
    unfolding cmp_read_u32_def pad u32_from_le_bytes_def by (simp add: unat_of_nat le_nat_append)
  then show ?thesis using True by (simp add: take_add le_nat_append min_def)
next
  case False
  then have "map (\<lambda>i. case list_get s (off + i) of Some b \<Rightarrow> b | None \<Rightarrow> 0) [0 ..< 4] = replicate 4 0"
    by (auto simp: list_eq_iff_nth_eq list_get_def)
  then show ?thesis using False by (simp add: cmp_read_u32_def u32_from_le_bytes_def)
qed

lemma usize_cmp_scaled:
  assumes "a < B" "b < B"
  shows "usize_cmp (a + B * x) (b + B * y) = (if x < y then Less else if x = y then usize_cmp a b else Greater)"
proof -
  have "a + B * x < b + B * y" if "x < y" "a < B" for a b x y
  proof -
    have "a + B * x < B * Suc x" using that by simp
    also have "\<dots> \<le> B * y" using that by (intro mult_le_mono2) simp
    finally show ?thesis by simp
  qed
  from this [of x y a b] this [of y x b a] assms show ?thesis
    by (auto simp: usize_cmp_def not_less)
qed

lemma hash32_loop_eq: "hash32_loop n a b = usize_cmp (le_nat (take (n * 4) a)) (le_nat (take (n * 4) b))"
proof (induction n)
  case (Suc n)
  have l: "le_nat (take (n * 4) s) < 256 ^ (n * 4)" for s
    using le_nat_less [of "take (n * 4) s"] power_increasing [of "length (take (n * 4) s)" "n * 4" "256 :: nat"]
    by (simp add: order_less_le_trans)
  have "take (Suc n * 4) s = take (n * 4 + 4) s" for s :: bytes by (simp add: algebra_simps)
  then show ?case
    using Suc usize_cmp_scaled [OF l l, of a "unat (cmp_read_u32 a (n * 4))" b "unat (cmp_read_u32 b (n * 4))"]
    by (simp add: le_nat_take_u32 Let_def word_cmp_def word_less_nat_alt word_unat_eq_iff)
qed (simp add: usize_cmp_def)

lemma compare_hash32_le: "compare_hash32 a b = usize_cmp (le_nat (take 32 a)) (le_nat (take 32 b))"
  by (simp add: compare_hash32_def hash32_loop_eq)

lemma compare_uint64_le: "compare_uint64 a b = usize_cmp (le_nat (take 8 a)) (le_nat (take 8 b))"
proof -
  have u: "unat (cmp_read_u64 s) = le_nat (take 8 s)" for s
  proof -
    let ?p = "take (min (length s) 8) s @ replicate (8 - min (length s) 8) 0"
    have "le_nat ?p < 2 ^ 64" using le_nat_less [of ?p] by simp
    moreover have "take (min (length s) 8) s = take 8 s" by (simp add: min_def)
    ultimately show ?thesis by (simp add: cmp_read_u64_def u64_from_le_bytes_def Let_def unat_of_nat le_nat_append)
  qed
  show ?thesis
    by (simp add: compare_uint64_def word_cmp_def word_less_nat_alt usize_cmp_def flip: u word_unat_eq_iff)
qed

text \<open>The order of hashes that the tables are sorted by is the order of the hashes read as one
  little-endian number of 256 bits, and the other integer order that of one of 64 bits.\<close>

theorem comparators_are_little_endian:
  "compare_hash32 a b = usize_cmp (le_nat (take 32 a)) (le_nat (take 32 b)) \<and>
   compare_uint64 a b = usize_cmp (le_nat (take 8 a)) (le_nat (take 8 b))"
  by (simp add: compare_hash32_le compare_uint64_le)

end
