(* ===== verification/Checkpoints.thy ===== *)
theory Checkpoints
  imports HardFork Block
begin

text \<open>
  Hard-coded checkpoints, \<open>crates/wow-consensus/src/checkpoints.rs\<close>: the tables, the lookup and
  the two rules. The hashes are the hex literals of the source, decoded by the model of
  \<open>hex32\<close>; \<open>None\<close> is the failed assertion of the compile-time parser.
\<close>

section \<open>Definitions\<close>

record Checkpoint =
  cp_height :: u64
  cp_hash :: Hash256
  cp_cumulative_difficulty :: u128

definition cp_nibble :: "char \<Rightarrow> u8 option" where
  "cp_nibble ch =
     (let c = of_char ch :: u8 in
      if 0x30 \<le> c \<and> c \<le> 0x39 then Some (c - 0x30)
      else if 0x61 \<le> c \<and> c \<le> 0x66 then Some (c - 0x61 + 10)
      else None)"

fun hex32_loop :: "string \<Rightarrow> bytes option" where
  "hex32_loop (a # b # cs) =
     (case (cp_nibble a, cp_nibble b, hex32_loop cs) of
        (Some x, Some y, Some bs) \<Rightarrow> Some ((push_bit 4 x OR y) # bs)
      | _ \<Rightarrow> None)"
| "hex32_loop _ = Some []"

definition hex32 :: "string \<Rightarrow> Hash256 option" where
  "hex32 s = (if length s = 64 then hex32_loop s else None)"

text \<open>A row: a literal that does not parse does not compile; the empty string stands for it, and
  \<open>checkpoint_table_sound\<close> shows that no row is of that kind.\<close>

definition cp_row :: "u64 \<Rightarrow> string \<Rightarrow> u128 \<Rightarrow> Checkpoint" where
  "cp_row h s d = \<lparr>cp_height = h, cp_hash = (case hex32 s of Some b \<Rightarrow> b | None \<Rightarrow> []), cp_cumulative_difficulty = d\<rparr>"

definition MAINNET_CHECKPOINTS :: "Checkpoint list" where
  "MAINNET_CHECKPOINTS = [
      cp_row 1 ''97f4ce4d7879b3bea54dcec738cd2ebb7952b4e9bb9743262310cd5fec749340'' 0x2,
      cp_row 6969 ''aa7b66e8c461065139b55c29538a39c33ceda93e587f84d490ed573d80511c87'' 0x118eef693fd,
      cp_row 53666 ''3f43f56f66ef0c43cf2fd14d0d28fa2aae0ef8f40716773511345750770f1255'' 0xb677d6405ae,
      cp_row 63469 ''4e33a9343fc5b86661ec0affaeb5b5a065290602c02d817337e4a979fe5747d8'' 0xe7cd9819062,
      cp_row 81769 ''41db9fef8d0ccfa78b570ee9525d4f55de77b510c3ae4b08a1d51b9aec9ade1d'' 0x150066455b88,
      cp_row 82069 ''fdea800d23d0b2eea19dec8af31e453e883e8315c97e25c8bb3e88ca164f8369'' 0x15079b5fdaa8,
      cp_row 114969 ''b48245956b87f243048fd61021f4b3e5443e57eee7ff8ba4762d18926e80b80c'' 0x1ca552b3ec68,
      cp_row 115257 ''338e056551087fe23d6c4b4280244bc5362b004716d85ec799a775f190f9fea9'' 0x1cb25f5d4628,
      cp_row 160777 ''9496690579af21f38f00e67e11c2e85a15912fe4f412aad33d1162be1579e755'' 0x5376eaa196a8,
      cp_row 253999 ''755a289fe8a68e96a0f69069ba4007b676ec87dce2e47dfb9647fe5691f49883'' 0x172d026ef7fe8,
      cp_row 254287 ''b37cb55abe73965b424f8028bf71bef98d069645077ffa52f0c134907b7734e3'' 0x1746622f56668,
      cp_row 256700 ''389a8ab95a80e84ec74639c1078bc67b33af208ef00f53bd9609cfc40efa7059'' 0x185ace3c1bd68,
      cp_row 271600 ''9597cdbdc52ca57d7dbd8f9c0a23a73194ef2ebbcfdc75c21992672706108d43'' 0x1e2d2d6a2a9e8,
      cp_row 278300 ''b10dcdf7a51651f60fbcc0447409773eef1458d2c706d9a61daf467571ac19c9'' 0x20a83a16d3968,
      cp_row 282700 ''79c06cafd7cb5f76bcebbf8f1ae16203bb41fd75b284bcd0eb0b457991ab7d4a'' 0x22e3baf142de8,
      cp_row 307686 ''dfd056b2739c132a07629409a59a028cb7414fac23e3419e79d2f49d66fc3af5'' 0x305ba542e3ea8,
      cp_row 307692 ''d822cd72037f62824ec87c9dc11768b45dc2632f697fa372e1885789c90f37fc'' 0x305e124633878,
      cp_row 307735 ''60970378aecdc0a78ccf5154edcc56f23aad8554b49e4716f820461a7588bfdc'' 0x3070771b9ba58,
      cp_row 307742 ''0ed835bc9fcd949b5a184cf607dcc62ac4268c9e4cf220f8b09bcce58f10916b'' 0x30732f1248978,
      cp_row 307750 ''7bcafbc757237125b70f569b181eb1b66c530b10d817d7b940f7a73dc827211c'' 0x30766666b3d98,
      cp_row 307766 ''02fd6c7d6bae710cfa3efb08f50e4bc9a590f6ab61eabd87e5e951338c0c36f6'' 0x307d2d47a7918,
      cp_row 307800 ''3594894b4231cfdfe911afed6552f9fb4cfe6048bacd0973a3a98623ec8548ce'' 0x308b305ca7618,
      cp_row 307880 ''659274b698f680c6cae2716cbd4e15ad5def23b5de98e53734c4af2c2e74bb7a'' 0x30af6e91e8018,
      cp_row 307883 ''9a8c35cd10963a14bba8a9628d1776df92fee5e3153b7249f5d15726efafaaea'' 0x30b0965ba5a18,
      cp_row 312130 ''e0da085bd273fff9f5f8e604fce0e91908bc62b6b004731a93e16e89cb9b1f54'' 0x3cfe7148f2e18,
      cp_row 324600 ''b24cd1ed7c192bbcf3d5b15729f2b032566687f96bda6f8cb73a5b16df4c6e6b'' 0x69caecbe78718,
      cp_row 327700 ''f113c8cbe077aab9296ecbfb41780c147aeb54edfece7e4b9946b8abd0f06de7'' 0x732431429c818,
      cp_row 331170 ''05243fba853fe375c671a6783eecac28777bca51f5977d5285c235424e52bb69'' 0x7c3469310d218,
      cp_row 331458 ''f79a664a5e4bc11fa7d804be2c3c72db50c87a27f1f540f337564cbb6314e4cd'' 0x7c34d47adf218,
      cp_row 331891 ''faceea4b4ab33fc962c24dfa2f98c2aeda4788f67c1e0044c62419912c1a64fe'' 0x7c359086aeb58,
      cp_row 332100 ''d32c409058c1eceb9a105190c7a5f480b2d6f49f318b18652b49ae971c710124'' 0x7c538441cca36,
      cp_row 334000 ''17d3b15f8e1a73e1c61335ee7979e9e3d211b9055e8a7fb2481e5f49a51b1c22'' 0x7ddd5a79d69c4,
      cp_row 348500 ''2d43a157f369e2aa26a329b56456142ecd1361f5808c688d97112a2e3bbd23f4'' 0x90889ed877ada,
      cp_row 489400 ''b14f49eae77398117ea93435676100d8b655a804689f73a5a4d0d5e71160d603'' 0x1123c39bb52f7e,
      cp_row 491200 ''cedba73ad35ce7f51aaca2beb36dc32d79ecc716d146eb8211e6a815f3666c4a'' 0x11334734abbd17,
      cp_row 497100 ''2c4c70ac1ada94151f19d67ccf1aa4e846e6067f49f67c85cc03f78e768ea42b'' 0x116906bc97a751,
      cp_row 760300 ''50ce41518bb4bea392194c13d0a5ef4cbf01ffb84ba393131e910adb63e2d360'' 0x18ef58d8abb8b3,
      cp_row 771100 ''03e834788e1e33dbba9bc3431a81189cd655f9da80323a728fa0dae56a95145e'' 0x192cdb615ada62,
      cp_row 838800 ''85ee72059e12e10a574628cac6f8ebcf8cf6cc1624a274c4ead39ede548777cd'' 0x19f2d01d49339c
     ]"

definition TESTNET_CHECKPOINTS :: "Checkpoint list" where "TESTNET_CHECKPOINTS = []"
definition STAGENET_CHECKPOINTS :: "Checkpoint list" where "STAGENET_CHECKPOINTS = []"
definition HASH_OF_HASHES_STEP :: u64 where "HASH_OF_HASHES_STEP = 512"

definition checkpoint_table :: "Network \<Rightarrow> Checkpoint list" where
  "checkpoint_table net =
     (case net of Mainnet \<Rightarrow> MAINNET_CHECKPOINTS | Testnet \<Rightarrow> TESTNET_CHECKPOINTS
      | Stagenet \<Rightarrow> STAGENET_CHECKPOINTS | Fakechain \<Rightarrow> [])"

record Checkpoints =
  points :: "Checkpoint list"

definition Checkpoints_new :: "Network \<Rightarrow> Checkpoints" where
  "Checkpoints_new net = \<lparr>points = checkpoint_table net\<rparr>"

definition Checkpoints_is_empty :: "Checkpoints \<Rightarrow> bool" where
  "Checkpoints_is_empty cps \<longleftrightarrow> points cps = []"

definition checkpoint_at :: "Checkpoints \<Rightarrow> u64 \<Rightarrow> Checkpoint option" where
  "checkpoint_at cps height = find (\<lambda>c. cp_height c = height) (points cps)"

definition is_checkpointed :: "Checkpoints \<Rightarrow> u64 \<Rightarrow> bool" where
  "is_checkpointed cps height \<longleftrightarrow> checkpoint_at cps height \<noteq> None"

definition checkpoint_check_block :: "Checkpoints \<Rightarrow> u64 \<Rightarrow> Hash256 \<Rightarrow> bool" where
  "checkpoint_check_block cps height hash =
     (case checkpoint_at cps height of Some c \<Rightarrow> cp_hash c = hash | None \<Rightarrow> True)"

definition last_height :: "Checkpoints \<Rightarrow> u64 option" where
  "last_height cps = (if points cps = [] then None else Some (cp_height (last (points cps))))"

definition is_alternative_block_allowed :: "Checkpoints \<Rightarrow> u64 \<Rightarrow> u64 \<Rightarrow> bool" where
  "is_alternative_block_allowed cps chain_height block_height =
     (case last_height cps of Some lst \<Rightarrow> lst < block_height | None \<Rightarrow> True)"

section \<open>The tables\<close>

definition cp_less :: "Checkpoint \<Rightarrow> Checkpoint \<Rightarrow> bool" where
  "cp_less a b \<longleftrightarrow> cp_height a < cp_height b \<and> cp_cumulative_difficulty a < cp_cumulative_difficulty b"

lemma cp_nibble_digits [simp]:
  "cp_nibble (CHR ''0'') = Some 0"
  "cp_nibble (CHR ''1'') = Some 1"
  "cp_nibble (CHR ''2'') = Some 2"
  "cp_nibble (CHR ''3'') = Some 3"
  "cp_nibble (CHR ''4'') = Some 4"
  "cp_nibble (CHR ''5'') = Some 5"
  "cp_nibble (CHR ''6'') = Some 6"
  "cp_nibble (CHR ''7'') = Some 7"
  "cp_nibble (CHR ''8'') = Some 8"
  "cp_nibble (CHR ''9'') = Some 9"
  "cp_nibble (CHR ''a'') = Some 10"
  "cp_nibble (CHR ''b'') = Some 11"
  "cp_nibble (CHR ''c'') = Some 12"
  "cp_nibble (CHR ''d'') = Some 13"
  "cp_nibble (CHR ''e'') = Some 14"
  "cp_nibble (CHR ''f'') = Some 15"
  by (simp_all add: cp_nibble_def Let_def)

lemma hex32_loop_ok:
  "list_all (\<lambda>c. cp_nibble c \<noteq> None) cs \<Longrightarrow> \<exists>bs. hex32_loop cs = Some bs \<and> length bs = length cs div 2"
  by (induction cs rule: hex32_loop.induct) auto

lemma cp_row_hash:
  assumes "length s = 64" "list_all (\<lambda>c. cp_nibble c \<noteq> None) s"
  shows "length (cp_hash (cp_row h s d)) = 32"
  using hex32_loop_ok [OF assms(2)] assms(1) by (auto simp: cp_row_def hex32_def)

lemma mainnet_hashes: "list_all (\<lambda>c. length (cp_hash c) = 32) MAINNET_CHECKPOINTS"
  unfolding MAINNET_CHECKPOINTS_def list.pred_inject by (intro conjI cp_row_hash TrueI; simp)

lemma cp_row_fields [simp]: "cp_height (cp_row h s d) = h" "cp_cumulative_difficulty (cp_row h s d) = d"
  by (simp_all add: cp_row_def)

lemma transp_cp_less: "transp cp_less"
  by (auto simp: transp_def cp_less_def)

lemma mainnet_ascending: "sorted_wrt cp_less MAINNET_CHECKPOINTS"
  unfolding MAINNET_CHECKPOINTS_def sorted_wrt2 [OF transp_cp_less] sorted_wrt1 cp_less_def cp_row_fields by simp

lemma table_ascending: "sorted_wrt cp_less (checkpoint_table net)"
  by (cases net) (simp_all add: checkpoint_table_def mainnet_ascending TESTNET_CHECKPOINTS_def STAGENET_CHECKPOINTS_def)

lemma checkpoint_at_iff:
  assumes "sorted_wrt cp_less (points cps)"
  shows "checkpoint_at cps h = Some c \<longleftrightarrow> c \<in> set (points cps) \<and> cp_height c = h"
proof -
  have "find (\<lambda>c. cp_height c = h) cs = Some c \<longleftrightarrow> c \<in> set cs \<and> cp_height c = h" if "sorted_wrt cp_less cs" for cs
    using that by (induction cs) (auto simp: cp_less_def)
  with assms show ?thesis by (simp add: checkpoint_at_def)
qed

lemma last_height_max:
  assumes "sorted_wrt cp_less (points cps)" "c \<in> set (points cps)" "last_height cps = Some l"
  shows "cp_height c \<le> l"
proof -
  have "cp_height c \<le> cp_height (last cs)" if "sorted_wrt cp_less cs" "c \<in> set cs" for cs
    using that by (induction cs) (auto simp: cp_less_def intro: less_imp_le)
  with assms show ?thesis by (auto simp: last_height_def split: if_splits)
qed

lemma points_new [simp]: "points (Checkpoints_new net) = checkpoint_table net"
  by (simp add: Checkpoints_new_def)

lemma table_hashes: "\<forall>c \<in> set (checkpoint_table net). length (cp_hash c) = 32"
  using mainnet_hashes
  by (cases net) (simp_all add: checkpoint_table_def TESTNET_CHECKPOINTS_def STAGENET_CHECKPOINTS_def list_all_iff)

lemma check_block_iff:
  assumes "sorted_wrt cp_less (points cps)"
  shows "checkpoint_check_block cps h x \<longleftrightarrow> (\<forall>c \<in> set (points cps). cp_height c = h \<longrightarrow> cp_hash c = x)"
proof (cases "checkpoint_at cps h")
  case None
  then have "\<not> (c \<in> set (points cps) \<and> cp_height c = h)" for c
    using checkpoint_at_iff [OF assms, of h c] by simp
  with None show ?thesis by (auto simp: checkpoint_check_block_def)
next
  case (Some c)
  then have "c' \<in> set (points cps) \<and> cp_height c' = h \<longleftrightarrow> c' = c" for c'
    using checkpoint_at_iff [OF assms, of h c'] by auto
  then have "(\<forall>c' \<in> set (points cps). cp_height c' = h \<longrightarrow> cp_hash c' = x) \<longleftrightarrow> cp_hash c = x" by metis
  with Some show ?thesis by (simp add: checkpoint_check_block_def)
qed

lemma alternative_allowed_iff:
  assumes "sorted_wrt cp_less (points cps)"
  shows "is_alternative_block_allowed cps n h \<longleftrightarrow> (\<forall>c \<in> set (points cps). cp_height c < h)"
proof (cases "points cps = []")
  case True
  then show ?thesis by (simp add: is_alternative_block_allowed_def last_height_def)
next
  case False
  then have l: "last_height cps = Some (cp_height (last (points cps)))" by (simp add: last_height_def)
  have "cp_height c \<le> cp_height (last (points cps))" if "c \<in> set (points cps)" for c
    by (rule last_height_max [OF assms that l])
  then show ?thesis
    using last_in_set [OF False] by (auto simp: is_alternative_block_allowed_def l intro: le_less_trans)
qed

text \<open>C35. The checkpoints of every network: each hash literal decodes to 32 bytes, heights and
  cumulative difficulties ascend strictly, so at most one checkpoint exists per height; a block
  passes exactly when no checkpoint of its height names another hash; and no alternative block is
  allowed at a checkpointed height or below one.\<close>

theorem checkpoint_table_sound:
  "sorted_wrt cp_less (checkpoint_table net) \<and>
   (\<forall>c \<in> set (checkpoint_table net). length (cp_hash c) = 32) \<and>
   (checkpoint_check_block (Checkpoints_new net) h x \<longleftrightarrow>
      (\<forall>c \<in> set (checkpoint_table net). cp_height c = h \<longrightarrow> cp_hash c = x)) \<and>
   (is_alternative_block_allowed (Checkpoints_new net) n h \<longleftrightarrow>
      (\<forall>c \<in> set (checkpoint_table net). cp_height c < h))"
  using table_ascending [of net] table_hashes [of net] check_block_iff [of "Checkpoints_new net" h x]
    alternative_allowed_iff [of "Checkpoints_new net" n h] by simp

theorem checkpoint_table_sound_witness:
  "\<not> is_alternative_block_allowed (Checkpoints_new Mainnet) 900000 838800 \<and>
   is_alternative_block_allowed (Checkpoints_new Mainnet) 900000 838801"
proof -
  have "\<not> (\<forall>c \<in> set (checkpoint_table Mainnet). cp_height c < 838800)"
    "\<forall>c \<in> set (checkpoint_table Mainnet). cp_height c < 838801"
    by (simp_all add: checkpoint_table_def MAINNET_CHECKPOINTS_def)
  then show ?thesis using checkpoint_table_sound [of Mainnet] by blast
qed

end
