(* ===== verification/Chain.thy ===== *)
theory Chain
  imports Records TxRules Checkpoints BlockWeight Timestamp Difficulty TxWeight
begin

text \<open>
  The chain, \<open>crates/wow-core/src/chain.rs\<close> (with \<open>error.rs\<close>, the seams \<open>pow.rs\<close> and
  \<open>txcheck.rs\<close>, the storage trait of \<open>crates/wow-storage/src/db.rs\<close> and the seed heights of
  \<open>crates/wow-randomwow/src/seed.rs\<close>): block acceptance in twelve steps, alternative chains and the
  switch to one.

  The chain calls three interfaces, and their operations are a record argument of the model: the
  store (\<open>BlockchainDb\<close>), whose state has type \<open>'d\<close> and whose mutating operations return the next
  state; the proof-of-work function; and the optional transaction verifier. A stateful operation
  is a function from the chain to a result and the chain it leaves; \<open>None\<close> is a panic, or a loop
  that does not end.
\<close>

section \<open>Errors and results\<close>

datatype Step =
    HaveIt | ParentIsTip | StepHardFork | StepTimestamp | StepDifficulty | ProofOfWork | StepCheckpoint
  | CoinbasePrevalidation | StepTransactions | CoinbaseAmount | WeightLimit | Commit

fun Step_number :: "Step \<Rightarrow> u8" where
  "Step_number HaveIt = 1"
| "Step_number ParentIsTip = 2"
| "Step_number StepHardFork = 3"
| "Step_number StepTimestamp = 4"
| "Step_number StepDifficulty = 5"
| "Step_number ProofOfWork = 6"
| "Step_number StepCheckpoint = 7"
| "Step_number CoinbasePrevalidation = 8"
| "Step_number StepTransactions = 9"
| "Step_number CoinbaseAmount = 10"
| "Step_number WeightLimit = 11"
| "Step_number Commit = 12"

datatype PowError = CryptoNightNotImplemented u64 string | RandomWow string | NoHashingBlob

datatype TxCheckError = CheckInvalid string | CheckUnsupported string

text \<open>\<open>Storage\<close> carries a text in the code. Here it carries what the text prints: a store error, or
  the rejection of a block that a failed reorganisation could not put back.\<close>

datatype BlockError =
    AlreadyExists Hash256
  | NotOnTip Hash256 Hash256
  | Orphan Hash256
  | WrongVersion u64 u8 u8 u8
  | BadTimestamp TimestampError
  | InsufficientPow u128
  | Pow PowError
  | CheckpointMismatch u64 Hash256 Hash256
  | AltBelowCheckpoint u64
  | Coinbase TxError
  | DuplicateTxInBlock usize
  | TxAlreadyInChain Hash256
  | MissingTx Hash256
  | DoubleSpend bytes
  | BadTx usize TxError
  | TxSignature usize TxCheckError
  | BadMinerReward MinerRewardError
  | BlockTooBigError u64 u64
  | Storage StorageText
  | Malformed string
and StorageText = DbText DbError | RestoreText u64 Step BlockError

record Rejection =
  rej_step :: Step
  rej_error :: BlockError

definition reject :: "Step \<Rightarrow> BlockError \<Rightarrow> Rejection" where
  "reject s e = \<lparr>rej_step = s, rej_error = e\<rparr>"

datatype Added = MainChain u64 | AltChain u64 | Reorg u64 u64

definition from_db :: "DbError + 'a \<Rightarrow> BlockError + 'a" where
  "from_db r = (case r of Inl e \<Rightarrow> Inl (Storage (DbText e)) | Inr x \<Rightarrow> Inr x)"

definition at_step :: "Step \<Rightarrow> BlockError + 'a \<Rightarrow> Rejection + 'a" where
  "at_step s r = (case r of Inl e \<Rightarrow> Inl (reject s e) | Inr x \<Rightarrow> Inr x)"

text \<open>\<open>(a..b)\<close> on \<open>u64\<close>, and collecting results.\<close>

definition u64_range :: "u64 \<Rightarrow> u64 \<Rightarrow> u64 list" where
  "u64_range a b = map word_of_nat [unat a ..< unat b]"

fun collect :: "('a \<Rightarrow> 'e + 'b) \<Rightarrow> 'a list \<Rightarrow> 'e + 'b list" where
  "collect f [] = Inr []"
| "collect f (x # xs) = and_then (f x) (\<lambda>y. and_then (collect f xs) (\<lambda>ys. Inr (y # ys)))"

section \<open>The interfaces\<close>

type_synonym tx_body = "Transaction \<times> bytes"

text \<open>The operations of the trait that the chain calls.\<close>

record 'd BlockchainDb =
  db_height :: "'d \<Rightarrow> u64"
  db_block_exists :: "'d \<Rightarrow> Hash256 \<Rightarrow> DbError + bool"
  db_get_block_hash :: "'d \<Rightarrow> u64 \<Rightarrow> DbError + Hash256"
  db_get_block_height :: "'d \<Rightarrow> Hash256 \<Rightarrow> DbError + u64"
  db_get_block_info :: "'d \<Rightarrow> u64 \<Rightarrow> DbError + BlockInfo"
  db_get_block_timestamp :: "'d \<Rightarrow> u64 \<Rightarrow> DbError + u64"
  db_get_block_long_term_weight :: "'d \<Rightarrow> u64 \<Rightarrow> DbError + u64"
  db_tx_exists :: "'d \<Rightarrow> Hash256 \<Rightarrow> DbError + bool"
  db_get_num_outputs :: "'d \<Rightarrow> u64 \<Rightarrow> DbError + u64"
  db_has_key_image :: "'d \<Rightarrow> bytes \<Rightarrow> DbError + bool"
  db_add_alt_block :: "'d \<Rightarrow> Hash256 \<Rightarrow> AltBlockData \<Rightarrow> bytes \<Rightarrow> (DbError + unit) \<times> 'd"
  db_get_alt_block :: "'d \<Rightarrow> Hash256 \<Rightarrow> DbError + AltBlockData \<times> bytes"
  db_remove_alt_block :: "'d \<Rightarrow> Hash256 \<Rightarrow> (DbError + unit) \<times> 'd"
  db_add_block :: "'d \<Rightarrow> Block \<Rightarrow> bytes \<Rightarrow> u64 \<Rightarrow> u64 \<Rightarrow> u128 \<Rightarrow> u64 \<Rightarrow> tx_body list \<Rightarrow> (DbError + u64) \<times> 'd"
  db_pop_block :: "'d \<Rightarrow> (DbError + Block \<times> Transaction list) \<times> 'd"

text \<open>Everything the chain reaches outside its own crate: the store, the proof of work, the
  verifier, the curve package of the header signature, and the difficulty algorithm that computes
  in floating point.\<close>

record ('d, 's, 'p) chain_env =
  en_db :: "'d BlockchainDb"
  en_may_skip :: "u64 \<Rightarrow> bool"
  en_pow_hash :: "u64 \<Rightarrow> u8 \<Rightarrow> bytes \<Rightarrow> Hash256 \<Rightarrow> PowError + Hash256"
  en_verify :: "(Hash256 \<Rightarrow> Transaction \<Rightarrow> u8 \<Rightarrow> u64 \<Rightarrow> u64 \<Rightarrow> TxCheckError + unit) option"
  en_curve :: "('s, 'p) dalek"
  en_difficulty_v2 :: "u64 list \<Rightarrow> Difficulty list \<Rightarrow> u64 \<Rightarrow> u64 \<Rightarrow> Network \<Rightarrow> Difficulty option"

definition cryptonight_variant :: "u8 \<Rightarrow> string" where
  "cryptonight_variant major =
     (if major \<le> 6 then ''v0'' else if major = 7 then ''v1'' else if major \<le> 9 then ''v2'' else ''v4/r'')"

text \<open>The verifier that refuses what is older than RandomWOW, around the hash function it is given.\<close>

definition RandomWowOnly_pow_hash ::
  "(bytes \<Rightarrow> Hash256 \<Rightarrow> string + Hash256) \<Rightarrow> u64 \<Rightarrow> u8 \<Rightarrow> bytes \<Rightarrow> Hash256 \<Rightarrow> PowError + Hash256" where
  "RandomWowOnly_pow_hash f height major hashing seed =
     (if major < 13 then Inl (CryptoNightNotImplemented height (cryptonight_variant major))
      else case f hashing seed of Inl e \<Rightarrow> Inl (RandomWow e) | Inr h \<Rightarrow> Inr h)"

definition TrustingVerifier_pow_hash :: "u64 \<Rightarrow> u8 \<Rightarrow> bytes \<Rightarrow> Hash256 \<Rightarrow> PowError + Hash256" where
  "TrustingVerifier_pow_hash height major hashing seed = Inr (replicate 32 0)"

definition TrustingVerifier_may_skip :: "u64 \<Rightarrow> bool" where "TrustingVerifier_may_skip height = True"

definition RefusingTxVerifier_verify :: "Hash256 \<Rightarrow> Transaction \<Rightarrow> u8 \<Rightarrow> u64 \<Rightarrow> u64 \<Rightarrow> TxCheckError + unit" where
  "RefusingTxVerifier_verify hash tx hf_version chain_height now =
     Inl (CheckInvalid ''this verifier refuses every transaction'')"

section \<open>Seed heights\<close>

definition SEEDHASH_EPOCH_BLOCKS :: u64 where "SEEDHASH_EPOCH_BLOCKS = 2048"
definition SEEDHASH_EPOCH_LAG :: u64 where "SEEDHASH_EPOCH_LAG = 64"

definition rx_seedheight :: "u64 \<Rightarrow> u64" where
  "rx_seedheight height =
     (if height \<le> SEEDHASH_EPOCH_BLOCKS + SEEDHASH_EPOCH_LAG then 0
      else (height - SEEDHASH_EPOCH_LAG - 1) AND NOT (SEEDHASH_EPOCH_BLOCKS - 1))"

definition rx_seedheights :: "u64 \<Rightarrow> u64 \<times> u64" where
  "rx_seedheights height = (rx_seedheight height, rx_seedheight (height + SEEDHASH_EPOCH_LAG))"

definition is_seed_epoch_start :: "u64 \<Rightarrow> bool" where
  "is_seed_epoch_start height \<longleftrightarrow> 0 < height \<and> rx_seedheight height \<noteq> rx_seedheight (height - 1)"

section \<open>State\<close>

record ChainState =
  weights :: WeightLimits
  long_term :: LongTermWeightWindow
  recent_weights :: "u64 list"
  already_generated_coins :: u64
  cumulative_difficulty :: u128
  difficulty_window :: "(u64 \<times> u128) list"

definition DIFFICULTY_WINDOW_CACHE :: usize where "DIFFICULTY_WINDOW_CACHE = DIFFICULTY_BLOCKS_COUNT"

definition ChainState_default :: "ChainState option" where
  "ChainState_default = map_option (\<lambda>w.
     \<lparr>weights = \<lparr>wl_median = BLOCK_GRANTED_FULL_REWARD_ZONE_V5, wl_limit = BLOCK_GRANTED_FULL_REWARD_ZONE_V5 * 2,
        long_term_effective_median = None\<rparr>,
      long_term = w, recent_weights = [], already_generated_coins = 0, cumulative_difficulty = 0,
      difficulty_window = []\<rparr>) window_new"

record 'd Blockchain =
  bc_db :: 'd
  bc_network :: Network
  bc_hardfork :: HardFork
  bc_checkpoints :: Checkpoints
  bc_state :: ChainState
  trusted_below :: u64
  alt_txs :: "Hash256 \<rightharpoonup> tx_body list"
  orphaned_txs :: "tx_body list"
  fixed_difficulty :: "Difficulty option"

record AltLink =
  al_id :: Hash256
  al_block :: Block
  al_blob :: bytes
  al_data :: AltBlockData

record Popped =
  pp_info :: BlockInfo
  pp_block :: Block
  pp_txs :: "tx_body list"

text \<open>A stateful operation: the result and the chain it leaves.\<close>

type_synonym ('d, 'a) chain_op = "'d Blockchain \<Rightarrow> ((Rejection + 'a) \<times> 'd Blockchain) option"

definition op_bind :: "('d, 'a) chain_op \<Rightarrow> ('a \<Rightarrow> ('d, 'b) chain_op) \<Rightarrow> ('d, 'b) chain_op" where
  "op_bind m f c = (case m c of None \<Rightarrow> None | Some (Inl e, c') \<Rightarrow> Some (Inl e, c') | Some (Inr x, c') \<Rightarrow> f x c')"

definition op_return :: "'a \<Rightarrow> ('d, 'a) chain_op" where
  "op_return x c = Some (Inr x, c)"

definition op_fail :: "Rejection \<Rightarrow> ('d, 'a) chain_op" where
  "op_fail e c = Some (Inl e, c)"

definition op_read :: "('d Blockchain \<Rightarrow> Rejection + 'a) \<Rightarrow> ('d, 'a) chain_op" where
  "op_read f c = Some (f c, c)"

definition op_write :: "Step \<Rightarrow> ('d \<Rightarrow> (DbError + 'a) \<times> 'd) \<Rightarrow> ('d, 'a) chain_op" where
  "op_write s f c = (case f (bc_db c) of (r, d) \<Rightarrow> Some (at_step s (from_db r), c\<lparr>bc_db := d\<rparr>))"

definition op_modify :: "('d Blockchain \<Rightarrow> 'd Blockchain) \<Rightarrow> ('d, unit) chain_op" where
  "op_modify f c = Some (Inr (), f c)"

fun op_for :: "('x \<Rightarrow> ('d, unit) chain_op) \<Rightarrow> 'x list \<Rightarrow> ('d, unit) chain_op" where
  "op_for f [] = op_return ()"
| "op_for f (x # xs) = op_bind (f x) (\<lambda>_. op_for f xs)"

section \<open>Reading the chain\<close>

definition bc_height :: "('d, 's, 'p) chain_env \<Rightarrow> 'd Blockchain \<Rightarrow> u64" where
  "bc_height E c = db_height (en_db E) (bc_db c)"

definition top_hash :: "('d, 's, 'p) chain_env \<Rightarrow> 'd Blockchain \<Rightarrow> Hash256 option" where
  "top_hash E c =
     (let h = bc_height E c in
      if h = 0 then None
      else case db_get_block_hash (en_db E) (bc_db c) (h - 1) of Inl _ \<Rightarrow> None | Inr x \<Rightarrow> Some x)"

definition current_version :: "('d, 's, 'p) chain_env \<Rightarrow> 'd Blockchain \<Rightarrow> u8" where
  "current_version E c = required_version (bc_hardfork c) (bc_height E c)"

definition have_block :: "('d, 's, 'p) chain_env \<Rightarrow> 'd Blockchain \<Rightarrow> Hash256 \<Rightarrow> BlockError + bool" where
  "have_block E c bid =
     and_then (from_db (db_block_exists (en_db E) (bc_db c) bid)) (\<lambda>e.
       if e then Inr True
       else case db_get_alt_block (en_db E) (bc_db c) bid of
          Inr _ \<Rightarrow> Inr True
        | Inl NotFound \<Rightarrow> Inr False
        | Inl e \<Rightarrow> Inl (Storage (DbText e)))"

definition compute_weight_limits :: "ChainState \<Rightarrow> u8 \<Rightarrow> WeightLimits" where
  "compute_weight_limits st ver =
     update_next_cumulative_weight_limit ver (recent_weights st) (window_median (long_term st))"

text \<open>The value \<open>reload_state\<close> computes from the store.\<close>

definition reload_value :: "('d, 's, 'p) chain_env \<Rightarrow> 'd Blockchain \<Rightarrow> (BlockError + ChainState) option" where
  "reload_value E c =
     (case ChainState_default of None \<Rightarrow> None | Some st0 \<Rightarrow>
      let D = en_db E; d = bc_db c; height = bc_height E c in
      if height = 0 then Some (Inr st0)
      else
        let info = (\<lambda>h. from_db (db_get_block_info D d h)) in
        case and_then (info (height - 1)) (\<lambda>tip.
             and_then (collect info (u64_range (saturating_sub height (word_of_nat CRYPTONOTE_REWARD_BLOCKS_WINDOW)) height)) (\<lambda>recent.
             and_then (collect (\<lambda>h. from_db (db_get_block_long_term_weight D d h))
                         (u64_range (height - long_term_window height) height)) (\<lambda>ltws.
             and_then (collect info (u64_range (saturating_sub height (word_of_nat DIFFICULTY_WINDOW_CACHE)) height)) (\<lambda>win.
             Inr (tip, recent, ltws, win))))) of
          Inl e \<Rightarrow> Some (Inl e)
        | Inr (tip, recent, ltws, win) \<Rightarrow>
           (case push_all ltws (long_term st0) of None \<Rightarrow> None | Some w \<Rightarrow>
            let st = st0\<lparr>already_generated_coins := bi_coins tip,
                         cumulative_difficulty := bi_cumulative_difficulty tip,
                         recent_weights := map bi_weight recent,
                         long_term := w,
                         difficulty_window := map (\<lambda>i. (bi_timestamp i, bi_cumulative_difficulty i)) win\<rparr>
            in Some (Inr (st\<lparr>weights := compute_weight_limits st (current_version E c)\<rparr>))))"

definition reload_state :: "('d, 's, 'p) chain_env \<Rightarrow> Step \<Rightarrow> ('d, unit) chain_op" where
  "reload_state E s c =
     (case reload_value E c of None \<Rightarrow> None
      | Some (Inl e) \<Rightarrow> Some (Inl (reject s e), c)
      | Some (Inr st) \<Rightarrow> Some (Inr (), c\<lparr>bc_state := st\<rparr>))"

definition chain_next_difficulty :: "('d, 's, 'p) chain_env \<Rightarrow> 'd Blockchain \<Rightarrow> Difficulty option" where
  "chain_next_difficulty E c =
     (let height = bc_height E c in
      if height = 0 then Some 1
      else case fixed_difficulty c of Some d \<Rightarrow> Some d
      | None \<Rightarrow>
          let ver = current_version E c;
              cnt = word_of_nat (difficulty_blocks_count ver);
              o' = height - min height cnt;
              offset = (if o' = 0 then 1 else o');
              window = difficulty_window (bc_state c);
              start = height - word_of_nat (length window);
              skip = unat (saturating_sub offset start);
              kept = drop skip window
          in next_difficulty (en_difficulty_v2 E) ver (map fst kept) (map snd kept) height (bc_network c))"

definition recent_timestamps :: "('d, 's, 'p) chain_env \<Rightarrow> 'd Blockchain \<Rightarrow> u8 \<Rightarrow> BlockError + u64 list" where
  "recent_timestamps E c ver =
     (let height = bc_height E c; window = word_of_nat (timestamp_check_window ver) in
      if height < window then Inr []
      else collect (\<lambda>h. and_then (from_db (db_get_block_info (en_db E) (bc_db c) h)) (\<lambda>i. Inr (bi_timestamp i)))
             (u64_range (height - window) height))"

definition seed_hash_for :: "('d, 's, 'p) chain_env \<Rightarrow> 'd Blockchain \<Rightarrow> u64 \<Rightarrow> BlockError + Hash256" where
  "seed_hash_for E c height =
     (let seed_height = rx_seedheight height in
      if seed_height < bc_height E c then from_db (db_get_block_hash (en_db E) (bc_db c) seed_height)
      else Inr (replicate 32 0))"

text \<open>The inner option is the panic of \<open>expect\<close>.\<close>

definition chain_unlock_time :: "('d, 's, 'p) chain_env \<Rightarrow> 'd Blockchain \<Rightarrow> u64 \<Rightarrow> u8 \<Rightarrow> (BlockError + u64) option" where
  "chain_unlock_time E c height ver =
     (if \<not> (HF_VERSION_DYNAMIC_UNLOCK \<le> ver \<and> ver < HF_VERSION_FIXED_UNLOCK) then
        map_option Inr (coinbase_unlock_time ver height None)
      else
        case checked_sub height (dynamic_unlock_lookback (bc_network c)) of
          None \<Rightarrow> Some (Inl (Malformed ''dynamic unlock below genesis''))
        | Some referenced \<Rightarrow>
            (case from_db (db_get_block_hash (en_db E) (bc_db c) referenced) of
               Inl e \<Rightarrow> Some (Inl e)
             | Inr bid \<Rightarrow> map_option Inr (coinbase_unlock_time ver height (Some bid))))"

fun weight_loop :: "u64 \<Rightarrow> tx_body list \<Rightarrow> u64 option" where
  "weight_loop acc [] = Some acc"
| "weight_loop acc ((tx, blob) # txs) =
     (case get_transaction_weight tx (length blob) of None \<Rightarrow> None
      | Some w \<Rightarrow> weight_loop (saturating_add acc w) txs)"

definition cumulative_block_weight :: "Block \<Rightarrow> tx_body list \<Rightarrow> u64 option" where
  "cumulative_block_weight blk txs =
     weight_loop (word_of_nat (length (Transaction_write [] (miner_tx blk)))) txs"

definition tx_rules_key_images :: "Transaction \<Rightarrow> bytes list" where
  "tx_rules_key_images tx =
     List.map_filter (\<lambda>i. case i of ToKey _ _ k_image \<Rightarrow> Some k_image | _ \<Rightarrow> None) (vin (tx_prefix tx))"

section \<open>Transactions of a block\<close>

text \<open>The rules of one transaction above the trusted height; the result is the semantic fee.\<close>

definition check_tx_rules ::
  "('d, 's, 'p) chain_env \<Rightarrow> 'd Blockchain \<Rightarrow> usize \<Rightarrow> Hash256 \<Rightarrow> Transaction \<Rightarrow> u8 \<Rightarrow> u64 \<Rightarrow> u64 \<Rightarrow> BlockError + u64 option" where
  "check_tx_rules E c i hash tx ver height now =
     (let tx_err = (\<lambda>r :: TxError + unit. case r of Inl e \<Rightarrow> Inl (BadTx i e) | Inr _ \<Rightarrow> Inr ());
          summary = summarise_mixin tx ver
            (\<lambda>amount. case db_get_num_outputs (en_db E) (bc_db c) amount of Inl _ \<Rightarrow> 0 | Inr n \<Rightarrow> n)
      in
      and_then (case check_tx_semantic tx of Inl e \<Rightarrow> Inl (BadTx i e) | Inr f \<Rightarrow> Inr f) (\<lambda>semantic_fee.
      and_then (tx_err (check_min_outputs tx ver)) (\<lambda>_.
      and_then (tx_err (check_inputs_sorted tx)) (\<lambda>_.
      and_then (tx_err (check_tx_rct_type tx ver)) (\<lambda>_.
      and_then (tx_err (check_ring_size summary ver)) (\<lambda>_.
      and_then (tx_err (check_tx_version (version (tx_prefix tx)) ver (n_unmixable summary))) (\<lambda>_.
      and_then (case en_verify E of None \<Rightarrow> Inr ()
                | Some verify \<Rightarrow> (case verify hash tx ver height now of
                                   Inl e \<Rightarrow> Inl (TxSignature i e) | Inr _ \<Rightarrow> Inr ())) (\<lambda>_.
      Inr semantic_fee))))))))"

fun images_loop :: "('d, 's, 'p) chain_env \<Rightarrow> 'd Blockchain \<Rightarrow> bytes set \<Rightarrow> bytes list \<Rightarrow> BlockError + bytes set" where
  "images_loop E c block_images [] = Inr block_images"
| "images_loop E c block_images (i # is) =
     (if i \<in> block_images then Inl (DoubleSpend i)
      else and_then (from_db (db_has_key_image (en_db E) (bc_db c) i)) (\<lambda>spent.
        if spent then Inl (DoubleSpend i) else images_loop E c (insert i block_images) is))"

fun transactions_loop ::
  "('d, 's, 'p) chain_env \<Rightarrow> 'd Blockchain \<Rightarrow> u8 \<Rightarrow> u64 \<Rightarrow> u64 \<Rightarrow> usize \<Rightarrow> Hash256 set \<Rightarrow> bytes set \<Rightarrow> u64 \<Rightarrow>
     (Hash256 \<times> tx_body) list \<Rightarrow> BlockError + u64" where
  "transactions_loop E c ver height now i seen_hashes block_images fees [] = Inr fees"
| "transactions_loop E c ver height now i seen_hashes block_images fees ((hash, (tx, blob)) # rest) =
     (if hash \<in> seen_hashes then Inl (DuplicateTxInBlock i)
      else and_then (from_db (db_tx_exists (en_db E) (bc_db c) hash)) (\<lambda>known.
        if known then Inl (TxAlreadyInChain hash)
        else and_then
          (if height < trusted_below c then
             (case fee tx of None \<Rightarrow> Inl (BadTx i InputsOverflow) | Some f \<Rightarrow> Inr (Some f))
           else check_tx_rules E c i hash tx ver height now) (\<lambda>semantic_fee.
        and_then (images_loop E c block_images (tx_rules_key_images tx)) (\<lambda>block_images.
          let f = (case semantic_fee of Some f \<Rightarrow> f | None \<Rightarrow> txn_fee (rct_signatures tx)) in
          transactions_loop E c ver height now (Suc i) (insert hash seen_hashes) block_images
            (saturating_add fees f) rest))))"

definition check_transactions ::
  "('d, 's, 'p) chain_env \<Rightarrow> 'd Blockchain \<Rightarrow> Block \<Rightarrow> tx_body list \<Rightarrow> u64 \<Rightarrow> u64 \<Rightarrow> Rejection + u64" where
  "check_transactions E c blk txs height now =
     at_step StepTransactions
       (if length txs \<noteq> length (tx_hashes blk) then Inl (Malformed ''transaction count does not match tx_hashes'')
        else transactions_loop E c (major_version (header blk)) height now 0 {} {} 0 (zip (tx_hashes blk) txs))"

section \<open>Adding a block to the main chain\<close>

text \<open>What steps 1 to 11 hand to the commit: the weight, the long-term weight, the difficulty and
  the number of coins after the block.\<close>

record Verdict =
  vd_weight :: u64
  vd_long_term_weight :: u64
  vd_difficulty :: Difficulty
  vd_coins :: u64

definition check_pow ::
  "('d, 's, 'p) chain_env \<Rightarrow> u64 \<Rightarrow> Block \<Rightarrow> (Rejection + Hash256) \<Rightarrow> Difficulty \<Rightarrow> Rejection + unit" where
  "check_pow E height blk seed difficulty =
     (if en_may_skip E height then Inr ()
      else case hashing_blob blk of
        None \<Rightarrow> Inl (reject ProofOfWork (Pow NoHashingBlob))
      | Some hashing \<Rightarrow>
          and_then seed (\<lambda>sd.
            case en_pow_hash E height (major_version (header blk)) hashing sd of
              Inl e \<Rightarrow> Inl (reject ProofOfWork (Pow e))
            | Inr pow \<Rightarrow>
                if \<not> check_hash pow difficulty then Inl (reject ProofOfWork (InsufficientPow difficulty))
                else Inr ()))"

text \<open>Steps 1 to 4.\<close>

definition check_place :: "('d, 's, 'p) chain_env \<Rightarrow> 'd Blockchain \<Rightarrow> Block \<Rightarrow> Hash256 \<Rightarrow> u64 \<Rightarrow> Rejection + unit" where
  "check_place E c blk bid now =
     (let height = bc_height E c in
      and_then (at_step HaveIt (from_db (db_block_exists (en_db E) (bc_db c) bid))) (\<lambda>known.
      if known then Inl (reject HaveIt (AlreadyExists bid))
      else and_then
        (if height = 0 then Inr ()
         else case top_hash E c of
            Some t \<Rightarrow> if prev_id (header blk) = t then Inr ()
              else Inl (reject ParentIsTip (NotOnTip (prev_id (header blk)) t))
          | None \<Rightarrow> Inl (reject ParentIsTip (Malformed ''no tip''))) (\<lambda>_.
      let required = required_version (bc_hardfork c) height; vt = hard_fork_vote (header blk) in
      if \<not> hf_check (bc_hardfork c) height (major_version (header blk)) vt then
        Inl (reject StepHardFork (WrongVersion height (major_version (header blk)) required vt))
      else
        let ver = current_version E c in
        and_then (at_step StepTimestamp (recent_timestamps E c ver)) (\<lambda>recent.
        case check_block_timestamp ver (timestamp (header blk)) now recent of
          Inl e \<Rightarrow> Inl (reject StepTimestamp (BadTimestamp e))
        | Inr _ \<Rightarrow> Inr ()))))"

text \<open>Steps 8 to 11.\<close>

definition check_rest ::
  "('d, 's, 'p::ab_group_add) chain_env \<Rightarrow> 'd Blockchain \<Rightarrow> Block \<Rightarrow> tx_body list \<Rightarrow> u64 \<Rightarrow> Difficulty \<Rightarrow>
     (Rejection + Verdict) option" where
  "check_rest E c blk txs now difficulty =
     (let height = bc_height E c; major = major_version (header blk); st = bc_state c in
      case chain_unlock_time E c height major of
        None \<Rightarrow> None
      | Some (Inl e) \<Rightarrow> Some (Inl (reject CoinbasePrevalidation e))
      | Some (Inr unlock) \<Rightarrow>
         (case prevalidate_miner_tx (en_curve E) blk major height unlock of
            Inl e \<Rightarrow> Some (Inl (reject CoinbasePrevalidation (Coinbase e)))
          | Inr _ \<Rightarrow>
         (case check_transactions E c blk txs height now of
            Inl e \<Rightarrow> Some (Inl e)
          | Inr fees \<Rightarrow>
         (case cumulative_block_weight blk txs of
            None \<Rightarrow> None
          | Some w \<Rightarrow>
            let claimed = sum_list (map out_amount (vout (tx_prefix (miner_tx blk)))) in
            (case get_block_reward (wl_median (weights st)) w (already_generated_coins st) major of
               Inl _ \<Rightarrow> Some (Inl (reject WeightLimit (BlockTooBigError w (wl_limit (weights st)))))
             | Inr base \<Rightarrow>
            (case validate_miner_reward major base fees claimed of
               Inl e \<Rightarrow> Some (Inl (reject CoinbaseAmount (BadMinerReward e)))
             | Inr reward \<Rightarrow>
                 Some (Inr \<lparr>vd_weight = w,
                   vd_long_term_weight = next_long_term_block_weight major w (window_median (long_term st)),
                   vd_difficulty = difficulty,
                   vd_coins = saturating_add (already_generated_coins st) (adjusted_base_reward reward)\<rparr>)))))))"

text \<open>Step 7 and the rest.\<close>

definition check_content ::
  "('d, 's, 'p::ab_group_add) chain_env \<Rightarrow> 'd Blockchain \<Rightarrow> Block \<Rightarrow> Hash256 \<Rightarrow> tx_body list \<Rightarrow> u64 \<Rightarrow> Difficulty \<Rightarrow>
     (Rejection + Verdict) option" where
  "check_content E c blk bid txs now difficulty =
     (let height = bc_height E c; major = major_version (header blk); st = bc_state c in
      case checkpoint_at (bc_checkpoints c) height of
        Some cp \<Rightarrow> if cp_hash cp \<noteq> bid
          then Some (Inl (reject StepCheckpoint (CheckpointMismatch height (cp_hash cp) bid)))
          else check_rest E c blk txs now difficulty
      | None \<Rightarrow> check_rest E c blk txs now difficulty)"

definition validate_block ::
  "('d, 's, 'p::ab_group_add) chain_env \<Rightarrow> 'd Blockchain \<Rightarrow> Block \<Rightarrow> tx_body list \<Rightarrow> u64 \<Rightarrow> (Rejection + Verdict) option" where
  "validate_block E c blk txs now =
     (let height = bc_height E c in
      case block_id blk of
        None \<Rightarrow> Some (Inl (reject HaveIt (Malformed ''no block id'')))
      | Some bid \<Rightarrow>
         (case check_place E c blk bid now of
            Inl e \<Rightarrow> Some (Inl e)
          | Inr _ \<Rightarrow>
         (case chain_next_difficulty E c of
            None \<Rightarrow> None
          | Some difficulty \<Rightarrow>
         (case check_pow E height blk (at_step ProofOfWork (seed_hash_for E c height)) difficulty of
            Inl e \<Rightarrow> Some (Inl e)
          | Inr _ \<Rightarrow> check_content E c blk bid txs now difficulty))))"

text \<open>\<open>while xs.len() > n { xs.pop_front(); }\<close>\<close>

function trim_front :: "nat \<Rightarrow> 'a list \<Rightarrow> 'a list" where
  "trim_front n xs = (if n < length xs then trim_front n (tl xs) else xs)"
  by auto
termination by (relation "measure (\<lambda>(n, xs). length xs)") auto

declare trim_front.simps [simp del]

text \<open>Advancing the cached state past a block at \<open>height\<close>; \<open>None\<close> is a panic of the window.\<close>

definition advance_state :: "HardFork \<Rightarrow> u64 \<Rightarrow> Block \<Rightarrow> Verdict \<Rightarrow> ChainState \<Rightarrow> ChainState option" where
  "advance_state hf height blk v st =
     (case push (long_term st) (vd_long_term_weight v) of None \<Rightarrow> None | Some w \<Rightarrow>
      let cumdiff = cumulative_difficulty st + vd_difficulty v;
          st = st\<lparr>long_term := w,
                  recent_weights := trim_front CRYPTONOTE_REWARD_BLOCKS_WINDOW (recent_weights st @ [vd_weight v]),
                  already_generated_coins := vd_coins v,
                  cumulative_difficulty := cumdiff,
                  difficulty_window := trim_front DIFFICULTY_WINDOW_CACHE
                    (difficulty_window st @ [(timestamp (header blk), cumdiff)])\<rparr>
      in Some (st\<lparr>weights := compute_weight_limits st (required_version hf (height + 1))\<rparr>))"

definition commit_block ::
  "('d, 's, 'p) chain_env \<Rightarrow> Block \<Rightarrow> bytes \<Rightarrow> tx_body list \<Rightarrow> Verdict \<Rightarrow> ('d, Added) chain_op" where
  "commit_block E blk blob txs v c =
     (let height = bc_height E c; st = bc_state c in
      case db_add_block (en_db E) (bc_db c) blk blob (vd_weight v) (vd_long_term_weight v)
             (cumulative_difficulty st + vd_difficulty v) (vd_coins v) txs of
        (Inl e, d) \<Rightarrow> Some (Inl (reject Commit (Storage (DbText e))), c\<lparr>bc_db := d\<rparr>)
      | (Inr _, d) \<Rightarrow>
         (case advance_state (bc_hardfork c) height blk v st of None \<Rightarrow> None
          | Some st' \<Rightarrow> Some (Inr (MainChain height), c\<lparr>bc_db := d, bc_state := st'\<rparr>)))"

definition chain_add_block ::
  "('d, 's, 'p::ab_group_add) chain_env \<Rightarrow> Block \<Rightarrow> bytes \<Rightarrow> tx_body list \<Rightarrow> u64 \<Rightarrow> ('d, Added) chain_op" where
  "chain_add_block E blk blob txs now c =
     (case validate_block E c blk txs now of
        None \<Rightarrow> None
      | Some (Inl e) \<Rightarrow> Some (Inl e, c)
      | Some (Inr v) \<Rightarrow> commit_block E blk blob txs v c)"

section \<open>Alternative chains\<close>

text \<open>The walk of \<open>alt_chain_to\<close>: \<open>links\<close> is newest last while walking, as in the code, so its last
  element is the block above; heights fall strictly, which bounds the walk.\<close>

definition walk_bound :: "AltLink list \<Rightarrow> nat" where
  "walk_bound links = (if links = [] then 2 ^ 64 else unat (alt_height (al_data (last links))))"

function alt_chain_to ::
  "('d, 's, 'p) chain_env \<Rightarrow> 'd Blockchain \<Rightarrow> Hash256 \<Rightarrow> AltLink list \<Rightarrow> BlockError + (AltLink list \<times> u64) option" where
  "alt_chain_to E c prev links =
     and_then (from_db (db_block_exists (en_db E) (bc_db c) prev)) (\<lambda>here.
       if here then
         and_then (from_db (db_get_block_height (en_db E) (bc_db c) prev)) (\<lambda>split. Inr (Some (rev links, split)))
       else case db_get_alt_block (en_db E) (bc_db c) prev of
         Inl NotFound \<Rightarrow> Inr None
       | Inl e \<Rightarrow> Inl (Storage (DbText e))
       | Inr (data, blob) \<Rightarrow>
           if links \<noteq> [] \<and> alt_height (al_data (last links)) \<le> alt_height data \<or> alt_height data = 0 then
             Inl (Malformed ''the stored alternative blocks do not descend in height'')
           else case block_from_blob blob of
             Inl _ \<Rightarrow> Inl (Malformed ''a stored alternative block does not parse'')
           | Inr block \<Rightarrow>
               alt_chain_to E c (prev_id (header block))
                 (links @ [\<lparr>al_id = prev, al_block = block, al_blob = blob, al_data = data\<rparr>]))"
  by auto
termination
proof (relation "measure (\<lambda>(E, c, prev, links). walk_bound links)")
  show "wf (measure (\<lambda>(E :: ('d, 's, 'p) chain_env, c :: 'd Blockchain, prev :: Hash256, links). walk_bound links))" by simp
qed (auto simp: walk_bound_def word_le_nat_alt not_le unat_bound [where 'a = 64, simplified])

declare alt_chain_to.simps [simp del]

text \<open>The loop \<open>while h != stop { push(timestamp(h)); h -= 1 }\<close>.\<close>

function stamps_down :: "('d, 's, 'p) chain_env \<Rightarrow> 'd Blockchain \<Rightarrow> u64 \<Rightarrow> u64 \<Rightarrow> BlockError + u64 list" where
  "stamps_down E c stop h =
     (if h = stop then Inr []
      else and_then (from_db (db_get_block_timestamp (en_db E) (bc_db c) h)) (\<lambda>t.
           and_then (stamps_down E c stop (h - 1)) (\<lambda>ts. Inr (t # ts))))"
  by auto
termination
proof (relation "measure (\<lambda>(E, c, stop, h). unat (h - stop))")
  show "wf (measure (\<lambda>(E :: ('d, 's, 'p) chain_env, c :: 'd Blockchain, stop :: u64, h). unat (h - stop)))" by simp
next
  fix E :: "('d, 's, 'p) chain_env" and c :: "'d Blockchain" and stop h t :: u64
  assume "h \<noteq> stop"
  then have "h - stop \<noteq> 0" by simp
  then have "unat (h - stop - 1) < unat (h - stop)" by (simp add: unat_minus_one unat_gt_0)
  then show "((E, c, stop, h - 1), E, c, stop, h) \<in> measure (\<lambda>(E, c, stop, h). unat (h - stop))"
    by (simp add: algebra_simps)
qed

declare stamps_down.simps [simp del]

definition alt_timestamps ::
  "('d, 's, 'p) chain_env \<Rightarrow> 'd Blockchain \<Rightarrow> AltLink list \<Rightarrow> u64 \<Rightarrow> u8 \<Rightarrow> BlockError + u64 list" where
  "alt_timestamps E c links split ver =
     (let window = timestamp_check_window ver;
          stamps = map (\<lambda>l. timestamp (header (al_block l))) (rev links)
      in if length stamps < window then
           let need = word_of_nat (window - length stamps); stop = saturating_sub split need in
           and_then (stamps_down E c stop split) (\<lambda>more. Inr (stamps @ more))
         else Inr stamps)"

definition alt_difficulty ::
  "('d, 's, 'p) chain_env \<Rightarrow> 'd Blockchain \<Rightarrow> AltLink list \<Rightarrow> u64 \<Rightarrow> u8 \<Rightarrow> (BlockError + Difficulty) option" where
  "alt_difficulty E c links height ver =
     (case fixed_difficulty c of
        Some d \<Rightarrow> Some (Inr (if 0 < bc_height E c then d else 1))
      | None \<Rightarrow>
          let cnt = difficulty_blocks_count ver;
              own = map (\<lambda>l. (timestamp (header (al_block l)), alt_cumulative_difficulty (al_data l)));
              window = (if length links < cnt then
                 let stop = (case links of [] \<Rightarrow> height | l # _ \<Rightarrow> alt_height (al_data l));
                     from_main = min (word_of_nat (cnt - length links)) stop;
                     start = max (stop - from_main) 1
                 in and_then (collect (\<lambda>h. from_db (db_get_block_info (en_db E) (bc_db c) h)) (u64_range start stop)) (\<lambda>infos.
                    Inr (map (\<lambda>i. (bi_timestamp i, bi_cumulative_difficulty i)) infos @ own links))
               else Inr (own (drop (length links - cnt) links)))
          in case window of
               Inl e \<Rightarrow> Some (Inl e)
             | Inr w \<Rightarrow> map_option Inr (next_difficulty (en_difficulty_v2 E) ver (map fst w) (map snd w) height (bc_network c)))"

definition with_blob :: "Transaction \<Rightarrow> tx_body" where
  "with_blob tx =
     (let blob = Transaction_write [] tx in
      case from_blob blob of Inr parsed \<Rightarrow> (parsed, blob) | Inl _ \<Rightarrow> (tx, blob))"

section \<open>Switching to an alternative chain\<close>

fun alt_bodies :: "'d Blockchain \<Rightarrow> AltLink list \<Rightarrow> Rejection + tx_body list list" where
  "alt_bodies c [] = Inr []"
| "alt_bodies c (l # ls) =
     and_then (case alt_txs c (al_id l) of
        Some t \<Rightarrow> Inr t
      | None \<Rightarrow> (case tx_hashes (al_block l) of
           [] \<Rightarrow> Inr []
         | h # _ \<Rightarrow> Inl (reject StepTransactions (MissingTx h)))) (\<lambda>b.
     and_then (alt_bodies c ls) (\<lambda>bs. Inr (b # bs)))"

text \<open>Popping down to the split point. The store decides whether the height falls, so the loop is
  a partial function.\<close>

partial_function (option) pop_down ::
  "('d, 's, 'p) chain_env \<Rightarrow> u64 \<Rightarrow> Popped list \<Rightarrow> 'd Blockchain \<Rightarrow> ((Rejection + Popped list) \<times> 'd Blockchain) option" where
  "pop_down E split popped c =
     (if split + 1 < bc_height E c then
        case at_step Commit (from_db (db_get_block_info (en_db E) (bc_db c) (bc_height E c - 1))) of
          Inl e \<Rightarrow> Some (Inl e, c)
        | Inr info \<Rightarrow>
           (case db_pop_block (en_db E) (bc_db c) of
              (Inl e, d) \<Rightarrow> Some (Inl (reject Commit (Storage (DbText e))), c\<lparr>bc_db := d\<rparr>)
            | (Inr (block, txs), d) \<Rightarrow>
                pop_down E split (popped @ [\<lparr>pp_info = info, pp_block = block, pp_txs = map with_blob txs\<rparr>])
                  (c\<lparr>bc_db := d\<rparr>))
      else Some (Inr (rev popped), c))"

definition db_pop :: "('d, 's, 'p) chain_env \<Rightarrow> ('d, unit) chain_op" where
  "db_pop E = op_bind (op_write Commit (db_pop_block (en_db E))) (\<lambda>_. op_return ())"

definition forget_alt :: "('d, 's, 'p) chain_env \<Rightarrow> AltLink \<Rightarrow> ('d, unit) chain_op" where
  "forget_alt E l =
     op_bind (op_write Commit (\<lambda>d. db_remove_alt_block (en_db E) d (al_id l))) (\<lambda>_.
       op_modify (\<lambda>c. c\<lparr>alt_txs := (alt_txs c)(al_id l := None)\<rparr>))"

text \<open>Putting a popped block back, and filing one as an alternative block.\<close>

definition restore_block ::
  "('d, 's, 'p::ab_group_add) chain_env \<Rightarrow> u64 \<Rightarrow> Popped \<Rightarrow> ('d, unit) chain_op" where
  "restore_block E now p c =
     (case chain_add_block E (pp_block p) (block_to_blob (pp_block p)) (pp_txs p) now c of
        None \<Rightarrow> None
      | Some (Inl r, c') \<Rightarrow>
          Some (Inl (reject Commit (Storage (RestoreText (bi_height (pp_info p)) (rej_step r) (rej_error r)))), c')
      | Some (Inr _, c') \<Rightarrow> Some (Inr (), c'))"

definition file_popped :: "('d, 's, 'p) chain_env \<Rightarrow> Popped \<Rightarrow> ('d, unit) chain_op" where
  "file_popped E p =
     (let i = pp_info p;
          data = \<lparr>alt_height = bi_height i, alt_cumulative_weight = bi_weight i,
                  alt_cumulative_difficulty = bi_cumulative_difficulty i, alt_already_generated_coins = bi_coins i\<rparr>
      in op_bind (op_write Commit (\<lambda>d. db_add_alt_block (en_db E) d (bi_hash i) data (block_to_blob (pp_block p)))) (\<lambda>_.
           op_modify (\<lambda>c. c\<lparr>alt_txs := (alt_txs c)(bi_hash i \<mapsto> pp_txs p)\<rparr>)))"

definition undo_switch ::
  "('d, 's, 'p::ab_group_add) chain_env \<Rightarrow> u64 \<Rightarrow> Popped list \<Rightarrow> usize \<Rightarrow> AltLink list \<Rightarrow> Rejection \<Rightarrow> ('d, 'a) chain_op" where
  "undo_switch E now popped i bad rejected =
     op_bind (op_for (\<lambda>_. db_pop E) [0 ..< i]) (\<lambda>_.
     op_bind (reload_state E Commit) (\<lambda>_.
     op_bind (op_for (restore_block E now) popped) (\<lambda>_.
     op_bind (op_for (forget_alt E) bad) (\<lambda>_.
     op_fail rejected))))"

fun apply_links ::
  "('d, 's, 'p::ab_group_add) chain_env \<Rightarrow> u64 \<Rightarrow> Popped list \<Rightarrow> usize \<Rightarrow> (AltLink \<times> tx_body list) list \<Rightarrow> ('d, unit) chain_op" where
  "apply_links E now popped i [] c = Some (Inr (), c)"
| "apply_links E now popped i ((l, txs) # rest) c =
     (case chain_add_block E (al_block l) (al_blob l) txs now c of
        None \<Rightarrow> None
      | Some (Inr _, c') \<Rightarrow> apply_links E now popped (Suc i) rest c'
      | Some (Inl rejected, c') \<Rightarrow> undo_switch E now popped i (map fst ((l, txs) # rest)) rejected c')"

text \<open>Whether a popped transaction is in the new chain.\<close>

definition in_chain :: "('d, 's, 'p) chain_env \<Rightarrow> 'd \<Rightarrow> tx_body \<Rightarrow> bool" where
  "in_chain E d b =
     (case transaction_hash_from_blob (fst b) (snd b) of
        None \<Rightarrow> False
      | Some h \<Rightarrow> (case db_tx_exists (en_db E) d h of Inl _ \<Rightarrow> False | Inr x \<Rightarrow> x))"

definition switch_to_alternative ::
  "('d, 's, 'p::ab_group_add) chain_env \<Rightarrow> AltLink list \<Rightarrow> u64 \<Rightarrow> u64 \<Rightarrow> ('d, Added) chain_op" where
  "switch_to_alternative E chain split now =
     (let new_tip = split + word_of_nat (length chain) in
      op_bind (op_read (\<lambda>c. alt_bodies c chain)) (\<lambda>bodies.
      op_bind (pop_down E split []) (\<lambda>popped.
      op_bind (reload_state E Commit) (\<lambda>_.
      op_bind (apply_links E now popped 0 (zip chain bodies)) (\<lambda>_.
      op_bind (op_for (file_popped E) popped) (\<lambda>_.
      op_bind (op_for (forget_alt E) chain) (\<lambda>_.
      op_bind (op_modify (\<lambda>c. c\<lparr>orphaned_txs := orphaned_txs c @
                 filter (\<lambda>b. \<not> in_chain E (bc_db c) b) (concat (map pp_txs popped))\<rparr>)) (\<lambda>_.
      op_return (Reorg new_tip (word_of_nat (length popped)))))))))))"

section \<open>Entry points\<close>

definition alt_seed ::
  "('d, 's, 'p) chain_env \<Rightarrow> 'd Blockchain \<Rightarrow> AltLink list \<Rightarrow> u64 \<Rightarrow> u64 \<Rightarrow> Rejection + Hash256" where
  "alt_seed E c links split height =
     (let seed_height = rx_seedheight height in
      case checked_sub seed_height (split + 1) of
        Some i \<Rightarrow> (case list_get links (unat i) of
           Some l \<Rightarrow> Inr (al_id l)
         | None \<Rightarrow> Inl (reject ProofOfWork (Malformed ''seed height'')))
      | None \<Rightarrow> at_step ProofOfWork (from_db (db_get_block_hash (en_db E) (bc_db c) seed_height)))"

text \<open>Steps 2 to 8 of an alternative block: its links, split point and difficulty.\<close>

definition check_alternative ::
  "('d, 's, 'p::ab_group_add) chain_env \<Rightarrow> 'd Blockchain \<Rightarrow> Block \<Rightarrow> tx_body list \<Rightarrow>
     (Rejection + AltLink list \<times> u64 \<times> u64 \<times> Difficulty) option" where
  "check_alternative E c blk txs =
     (case at_step ParentIsTip (alt_chain_to E c (prev_id (header blk)) []) of
        Inl e \<Rightarrow> Some (Inl e)
      | Inr None \<Rightarrow> Some (Inl (reject ParentIsTip (Orphan (prev_id (header blk)))))
      | Inr (Some (links, split)) \<Rightarrow>
        let height = split + word_of_nat (length links) + 1;
            vt = hard_fork_vote (header blk); major = major_version (header blk) in
        if \<not> is_alternative_block_allowed (bc_checkpoints c) (bc_height E c) height then
          Some (Inl (reject StepCheckpoint (AltBelowCheckpoint height)))
        else if \<not> hf_check (bc_hardfork c) height major vt then
          Some (Inl (reject StepHardFork (WrongVersion height major (required_version (bc_hardfork c) height) vt)))
        else
          let ver = current_version E c in
          case at_step StepTimestamp (alt_timestamps E c links split ver) of
            Inl e \<Rightarrow> Some (Inl e)
          | Inr stamps \<Rightarrow>
            if timestamp (header blk) < median stamps then
              Some (Inl (reject StepTimestamp (BadTimestamp (BelowMedian (median stamps)))))
            else case alt_difficulty E c links height ver of
              None \<Rightarrow> None
            | Some (Inl e) \<Rightarrow> Some (Inl (reject StepDifficulty e))
            | Some (Inr difficulty) \<Rightarrow>
              (case check_pow E height blk (alt_seed E c links split height) difficulty of
                 Inl e \<Rightarrow> Some (Inl e)
               | Inr _ \<Rightarrow>
              (case chain_unlock_time E c height major of
                 None \<Rightarrow> None
               | Some (Inl e) \<Rightarrow> Some (Inl (reject CoinbasePrevalidation e))
               | Some (Inr unlock) \<Rightarrow>
              (case prevalidate_miner_tx (en_curve E) blk major height unlock of
                 Inl e \<Rightarrow> Some (Inl (reject CoinbasePrevalidation (Coinbase e)))
               | Inr _ \<Rightarrow>
                 if length txs \<noteq> length (tx_hashes blk) then
                   Some (Inl (reject StepTransactions (Malformed ''transaction count does not match tx_hashes'')))
                 else Some (Inr (links, split, height, difficulty))))))"

text \<open>What is recorded of an accepted alternative block.\<close>

definition alt_record ::
  "('d, 's, 'p) chain_env \<Rightarrow> 'd Blockchain \<Rightarrow> Block \<Rightarrow> tx_body list \<Rightarrow> AltLink list \<Rightarrow> u64 \<Rightarrow> u64 \<Rightarrow> Difficulty \<Rightarrow>
     (Rejection + AltBlockData) option" where
  "alt_record E c blk txs links split height difficulty =
     (case (if links \<noteq> [] then Inr (alt_cumulative_difficulty (al_data (last links)), alt_already_generated_coins (al_data (last links)))
            else at_step Commit (and_then (from_db (db_get_block_info (en_db E) (bc_db c) split)) (\<lambda>i.
                   Inr (bi_cumulative_difficulty i, bi_coins i)))) of
        Inl e \<Rightarrow> Some (Inl e)
      | Inr (parent_difficulty, parent_coins) \<Rightarrow>
          let reward = foldl (\<lambda>a x. saturating_add a (out_amount x)) 0 (vout (tx_prefix (miner_tx blk))) in
          map_option (\<lambda>w. Inr \<lparr>alt_height = height, alt_cumulative_weight = w,
              alt_cumulative_difficulty = parent_difficulty + difficulty,
              alt_already_generated_coins = saturating_add parent_coins reward\<rparr>) (cumulative_block_weight blk txs))"

definition handle_alternative_block ::
  "('d, 's, 'p::ab_group_add) chain_env \<Rightarrow> Block \<Rightarrow> bytes \<Rightarrow> tx_body list \<Rightarrow> u64 \<Rightarrow> Hash256 \<Rightarrow> ('d, Added) chain_op" where
  "handle_alternative_block E blk blob txs now bid c =
     (case check_alternative E c blk txs of
        None \<Rightarrow> None
      | Some (Inl e) \<Rightarrow> Some (Inl e, c)
      | Some (Inr (links, split, height, difficulty)) \<Rightarrow>
        (case alt_record E c blk txs links split height difficulty of
           None \<Rightarrow> None
         | Some (Inl e) \<Rightarrow> Some (Inl e, c)
         | Some (Inr data) \<Rightarrow>
             op_bind (op_write Commit (\<lambda>d. db_add_alt_block (en_db E) d bid data blob)) (\<lambda>_.
             op_bind (op_modify (\<lambda>c. c\<lparr>alt_txs := (alt_txs c)(bid \<mapsto> txs)\<rparr>)) (\<lambda>_ c.
               if alt_cumulative_difficulty data \<le> cumulative_difficulty (bc_state c) then op_return (AltChain height) c
               else switch_to_alternative E
                      (links @ [\<lparr>al_id = bid, al_block = blk, al_blob = blob, al_data = data\<rparr>]) split now c)) c))"

definition handle_block ::
  "('d, 's, 'p::ab_group_add) chain_env \<Rightarrow> Block \<Rightarrow> bytes \<Rightarrow> tx_body list \<Rightarrow> u64 \<Rightarrow> ('d, Added) chain_op" where
  "handle_block E blk blob txs now c =
     (case block_id blk of
        None \<Rightarrow> Some (Inl (reject HaveIt (Malformed ''no block id'')), c)
      | Some bid \<Rightarrow>
         (case at_step HaveIt (have_block E c bid) of
            Inl e \<Rightarrow> Some (Inl e, c)
          | Inr True \<Rightarrow> Some (Inl (reject HaveIt (AlreadyExists bid)), c)
          | Inr False \<Rightarrow>
             (case top_hash E c of
                Some tip \<Rightarrow> if prev_id (header blk) \<noteq> tip then handle_alternative_block E blk blob txs now bid c
                  else chain_add_block E blk blob txs now c
              | None \<Rightarrow> chain_add_block E blk blob txs now c)))"

definition pop_one :: "('d, 's, 'p) chain_env \<Rightarrow> ('d, unit) chain_op" where
  "pop_one E =
     op_bind (op_write Commit (db_pop_block (en_db E))) (\<lambda>(_, txs).
       op_modify (\<lambda>c. c\<lparr>orphaned_txs := orphaned_txs c @ map with_blob txs\<rparr>))"

text \<open>\<open>pop_blocks\<close> and \<open>new\<close> return a bare \<open>BlockError\<close>; it stands here under the step \<open>Commit\<close>.\<close>

definition pop_blocks :: "('d, 's, 'p) chain_env \<Rightarrow> u64 \<Rightarrow> ('d, u64) chain_op" where
  "pop_blocks E n c =
     (let n = min n (saturating_sub (bc_height E c) 1) in
      op_bind (op_for (\<lambda>_. pop_one E) [0 ..< unat n]) (\<lambda>_.
      op_bind (reload_state E Commit) (\<lambda>_. op_return n)) c)"

definition take_orphaned_txs :: "'d Blockchain \<Rightarrow> tx_body list \<times> 'd Blockchain" where
  "take_orphaned_txs c = (orphaned_txs c, c\<lparr>orphaned_txs := []\<rparr>)"

definition Blockchain_new :: "('d, 's, 'p) chain_env \<Rightarrow> 'd \<Rightarrow> Network \<Rightarrow> ((Rejection + unit) \<times> 'd Blockchain) option" where
  "Blockchain_new E db net =
     (case ChainState_default of None \<Rightarrow> None | Some st \<Rightarrow>
        reload_state E Commit
          \<lparr>bc_db = db, bc_network = net, bc_hardfork = HardFork_new net, bc_checkpoints = Checkpoints_new net,
           bc_state = st, trusted_below = 0, alt_txs = Map.empty, orphaned_txs = [], fixed_difficulty = None\<rparr>)"

definition trust_below :: "u64 \<Rightarrow> 'd Blockchain \<Rightarrow> 'd Blockchain" where
  "trust_below height c = c\<lparr>trusted_below := height\<rparr>"

definition set_fixed_difficulty :: "Difficulty option \<Rightarrow> 'd Blockchain \<Rightarrow> 'd Blockchain" where
  "set_fixed_difficulty difficulty c = c\<lparr>fixed_difficulty := difficulty\<rparr>"

end
