(* ===== verification/ChainInv.thy ===== *)
theory ChainInv
  imports Chain
begin

text \<open>
  What the chain promises over a store that keeps its documented contract. \<open>store_laws\<close> states the
  contract of the storage trait through a view of the store as the list of its blocks; reads may
  fail, but what they return is true of the view. Shown here: the cached state always describes
  the stored chain, whatever sequence of blocks, reorganisations and removals led to it; no key
  image is ever spent twice on the stored chain, and every stored block links to the one below it,
  carries the version its height demands and matches the checkpoints; popping stops above the
  genesis block and always returns.
\<close>

section \<open>The contract of the store\<close>

record stored =
  sd_info :: BlockInfo
  sd_block :: Block
  sd_txs :: "tx_body list"

abbreviation sd_hash :: "stored \<Rightarrow> Hash256" where "sd_hash e \<equiv> bi_hash (sd_info e)"

definition body_images :: "tx_body list \<Rightarrow> bytes list" where
  "body_images txs = concat (map (\<lambda>b. tx_rules_key_images (fst b)) txs)"

definition chain_images :: "stored list \<Rightarrow> bytes list" where
  "chain_images vs = concat (map (\<lambda>e. body_images (sd_txs e)) vs)"

text \<open>Reads: what is returned is true of the view.\<close>

definition read_laws :: "'d BlockchainDb \<Rightarrow> ('d \<Rightarrow> stored list) \<Rightarrow> 'd \<Rightarrow> bool" where
  "read_laws D view d \<longleftrightarrow>
     unat (db_height D d) = length (view d) \<and>
     (\<forall>h i. db_get_block_info D d h = Inr i \<longrightarrow> unat h < length (view d) \<and> i = sd_info (view d ! unat h)) \<and>
     (\<forall>h x. db_get_block_hash D d h = Inr x \<longrightarrow> unat h < length (view d) \<and> x = sd_hash (view d ! unat h)) \<and>
     (\<forall>h w. db_get_block_long_term_weight D d h = Inr w \<longrightarrow>
        unat h < length (view d) \<and> w = bi_long_term_block_weight (sd_info (view d ! unat h))) \<and>
     (\<forall>x h. db_get_block_height D d x = Inr h \<longrightarrow> unat h < length (view d) \<and> sd_hash (view d ! unat h) = x) \<and>
     (\<forall>x b. db_block_exists D d x = Inr b \<longrightarrow> b = (x \<in> sd_hash ` set (view d))) \<and>
     (\<forall>k b. db_has_key_image D d k = Inr b \<longrightarrow> b = (k \<in> set (chain_images (view d))))"

text \<open>Writes: a block is appended or nothing happens; the tip is removed or nothing happens; the
  alternative blocks are apart from the chain.\<close>

definition write_laws :: "'d BlockchainDb \<Rightarrow> ('d \<Rightarrow> stored list) \<Rightarrow> ('d \<Rightarrow> bool) \<Rightarrow> 'd \<Rightarrow> bool" where
  "write_laws D view ok d \<longleftrightarrow>
     (\<forall>blk blob w ltw cd coins txs r d'. db_add_block D d blk blob w ltw cd coins txs = (r, d') \<longrightarrow> ok d' \<and>
        (case r of Inl _ \<Rightarrow> view d' = view d
         | Inr _ \<Rightarrow> \<exists>i. view d' = view d @ [\<lparr>sd_info = i, sd_block = blk, sd_txs = txs\<rparr>] \<and>
             bi_height i = db_height D d \<and> bi_timestamp i = timestamp (header blk) \<and> bi_coins i = coins \<and>
             bi_weight i = w \<and> bi_cumulative_difficulty i = cd \<and> block_id blk = Some (bi_hash i) \<and>
             bi_long_term_block_weight i = ltw)) \<and>
     (\<forall>r d'. db_pop_block D d = (r, d') \<longrightarrow> ok d' \<and>
        (case r of Inl _ \<Rightarrow> view d' = view d | Inr _ \<Rightarrow> view d \<noteq> [] \<and> view d' = butlast (view d))) \<and>
     (\<forall>x data blob r d'. db_add_alt_block D d x data blob = (r, d') \<longrightarrow> ok d' \<and> view d' = view d) \<and>
     (\<forall>x r d'. db_remove_alt_block D d x = (r, d') \<longrightarrow> ok d' \<and> view d' = view d)"

text \<open>The contract of the trait \<open>BlockchainDb\<close>: what a read returns describes the stored chain, a write that fails changes
  nothing. \<open>height\<close> has no error, so the contract excludes an engine that fails there: \<open>LmdbDb::height\<close>
  answers zero then.\<close>

definition store_laws :: "'d BlockchainDb \<Rightarrow> ('d \<Rightarrow> stored list) \<Rightarrow> ('d \<Rightarrow> bool) \<Rightarrow> bool" where
  "store_laws D view ok \<longleftrightarrow> (\<forall>d. ok d \<longrightarrow> read_laws D view d \<and> write_laws D view ok d)"

text \<open>A store whose reads and removals of what exists do not fail.\<close>

definition store_total :: "'d BlockchainDb \<Rightarrow> ('d \<Rightarrow> stored list) \<Rightarrow> ('d \<Rightarrow> bool) \<Rightarrow> bool" where
  "store_total D view ok \<longleftrightarrow> (\<forall>d. ok d \<longrightarrow>
     (\<forall>h. unat h < length (view d) \<longrightarrow> (\<exists>i. db_get_block_info D d h = Inr i)) \<and>
     (\<forall>h. unat h < length (view d) \<longrightarrow> (\<exists>w. db_get_block_long_term_weight D d h = Inr w)) \<and>
     (view d \<noteq> [] \<longrightarrow> (\<exists>b d'. db_pop_block D d = (Inr b, d'))))"

lemma store_totalD:
  assumes "store_total D view ok" "ok d"
  shows "unat h < length (view d) \<Longrightarrow> \<exists>i. db_get_block_info D d h = Inr i"
    "unat h < length (view d) \<Longrightarrow> \<exists>w. db_get_block_long_term_weight D d h = Inr w"
    "view d \<noteq> [] \<Longrightarrow> \<exists>b d'. db_pop_block D d = (Inr b, d')"
  using assms unfolding store_total_def by meson+

lemma read_lawD:
  assumes "store_laws D view ok" "ok d"
  shows "unat (db_height D d) = length (view d)"
    "db_get_block_info D d h = Inr i \<Longrightarrow> unat h < length (view d) \<and> i = sd_info (view d ! unat h)"
    "db_get_block_hash D d h = Inr x \<Longrightarrow> unat h < length (view d) \<and> x = sd_hash (view d ! unat h)"
    "db_get_block_long_term_weight D d h = Inr w \<Longrightarrow>
       unat h < length (view d) \<and> w = bi_long_term_block_weight (sd_info (view d ! unat h))"
    "db_get_block_height D d x = Inr h \<Longrightarrow> unat h < length (view d) \<and> sd_hash (view d ! unat h) = x"
    "db_block_exists D d x = Inr b \<Longrightarrow> b = (x \<in> sd_hash ` set (view d))"
    "db_has_key_image D d k = Inr b \<Longrightarrow> b = (k \<in> set (chain_images (view d)))"
proof -
  have r: "read_laws D view d" using assms by (simp add: store_laws_def)
  show "unat (db_height D d) = length (view d)"
    "db_get_block_info D d h = Inr i \<Longrightarrow> unat h < length (view d) \<and> i = sd_info (view d ! unat h)"
    "db_get_block_hash D d h = Inr x \<Longrightarrow> unat h < length (view d) \<and> x = sd_hash (view d ! unat h)"
    "db_get_block_long_term_weight D d h = Inr w \<Longrightarrow>
       unat h < length (view d) \<and> w = bi_long_term_block_weight (sd_info (view d ! unat h))"
    "db_get_block_height D d x = Inr h \<Longrightarrow> unat h < length (view d) \<and> sd_hash (view d ! unat h) = x"
    "db_block_exists D d x = Inr b \<Longrightarrow> b = (x \<in> sd_hash ` set (view d))"
    "db_has_key_image D d k = Inr b \<Longrightarrow> b = (k \<in> set (chain_images (view d)))"
    using r by (simp_all add: read_laws_def)
qed

lemma add_block_law:
  assumes "store_laws D view ok" "ok d" "db_add_block D d blk blob w ltw cd coins txs = (r, d')"
  shows "ok d'" "r = Inl e \<Longrightarrow> view d' = view d"
    "r = Inr h \<Longrightarrow> \<exists>i. view d' = view d @ [\<lparr>sd_info = i, sd_block = blk, sd_txs = txs\<rparr>] \<and>
             bi_height i = db_height D d \<and> bi_timestamp i = timestamp (header blk) \<and> bi_coins i = coins \<and>
             bi_weight i = w \<and> bi_cumulative_difficulty i = cd \<and> block_id blk = Some (bi_hash i) \<and>
             bi_long_term_block_weight i = ltw"
proof -
  have "write_laws D view ok d" using assms(1,2) by (simp add: store_laws_def)
  then have "ok d' \<and> (case r of Inl _ \<Rightarrow> view d' = view d
      | Inr _ \<Rightarrow> \<exists>i. view d' = view d @ [\<lparr>sd_info = i, sd_block = blk, sd_txs = txs\<rparr>] \<and>
             bi_height i = db_height D d \<and> bi_timestamp i = timestamp (header blk) \<and> bi_coins i = coins \<and>
             bi_weight i = w \<and> bi_cumulative_difficulty i = cd \<and> block_id blk = Some (bi_hash i) \<and>
             bi_long_term_block_weight i = ltw)"
    using assms(3) by (simp add: write_laws_def)
  then show "ok d'" "r = Inl e \<Longrightarrow> view d' = view d"
    "r = Inr h \<Longrightarrow> \<exists>i. view d' = view d @ [\<lparr>sd_info = i, sd_block = blk, sd_txs = txs\<rparr>] \<and>
             bi_height i = db_height D d \<and> bi_timestamp i = timestamp (header blk) \<and> bi_coins i = coins \<and>
             bi_weight i = w \<and> bi_cumulative_difficulty i = cd \<and> block_id blk = Some (bi_hash i) \<and>
             bi_long_term_block_weight i = ltw"
    by simp_all
qed

lemma pop_block_law:
  assumes "store_laws D view ok" "ok d" "db_pop_block D d = (r, d')"
  shows "ok d'" "r = Inl e \<Longrightarrow> view d' = view d" "r = Inr b \<Longrightarrow> view d \<noteq> [] \<and> view d' = butlast (view d)"
proof -
  have "write_laws D view ok d" using assms(1,2) by (simp add: store_laws_def)
  then have "ok d' \<and> (case r of Inl _ \<Rightarrow> view d' = view d | Inr _ \<Rightarrow> view d \<noteq> [] \<and> view d' = butlast (view d))"
    using assms(3) by (simp add: write_laws_def)
  then show "ok d'" "r = Inl e \<Longrightarrow> view d' = view d" "r = Inr b \<Longrightarrow> view d \<noteq> [] \<and> view d' = butlast (view d)"
    by simp_all
qed

lemma alt_laws:
  assumes "store_laws D view ok" "ok d"
  shows "db_add_alt_block D d x data blob = (r, d') \<Longrightarrow> ok d' \<and> view d' = view d"
    "db_remove_alt_block D d x = (r, d') \<Longrightarrow> ok d' \<and> view d' = view d"
proof -
  have w: "write_laws D view ok d" using assms by (simp add: store_laws_def)
  show "db_add_alt_block D d x data blob = (r, d') \<Longrightarrow> ok d' \<and> view d' = view d"
    using w unfolding write_laws_def by meson
  show "db_remove_alt_block D d x = (r, d') \<Longrightarrow> ok d' \<and> view d' = view d"
    using w unfolding write_laws_def by meson
qed

section \<open>The cached state\<close>

definition cached :: "HardFork \<Rightarrow> stored list \<Rightarrow> ChainState \<Rightarrow> bool" where
  "cached hf vs st \<longleftrightarrow>
     window_inv (long_term st) \<and> capacity (long_term st) = 100000 \<and>
     order (long_term st) = last_n 100000 (map (\<lambda>e. bi_long_term_block_weight (sd_info e)) vs) \<and>
     recent_weights st = last_n 100 (map (\<lambda>e. bi_weight (sd_info e)) vs) \<and>
     difficulty_window st =
       last_n 735 (map (\<lambda>e. (bi_timestamp (sd_info e), bi_cumulative_difficulty (sd_info e))) vs) \<and>
     already_generated_coins st = (if vs = [] then 0 else bi_coins (sd_info (last vs))) \<and>
     cumulative_difficulty st = (if vs = [] then 0 else bi_cumulative_difficulty (sd_info (last vs))) \<and>
     (vs \<noteq> [] \<longrightarrow> weights st = compute_weight_limits st (required_version hf (word_of_nat (length vs))))"

lemma window_size: "unat LONG_TERM_BLOCK_WEIGHT_WINDOW_SIZE = 100000" "CRYPTONOTE_REWARD_BLOCKS_WINDOW = 100"
    "DIFFICULTY_WINDOW_CACHE = 735"
  by (simp_all add: LONG_TERM_BLOCK_WEIGHT_WINDOW_SIZE_def CRYPTONOTE_REWARD_BLOCKS_WINDOW_def DIFFICULTY_WINDOW_CACHE_def
      DIFFICULTY_BLOCKS_COUNT_def DIFFICULTY_WINDOW_def DIFFICULTY_LAG_def)

lemma default_state:
  "\<exists>st. ChainState_default = Some st \<and> cached hf [] st \<and> order (long_term st) = []"
proof -
  obtain w where w: "window_new = Some w" by (simp add: window_new_def with_capacity_def window_size)
  then have "window_inv w" "order w = []" "capacity w = 100000"
    using with_capacity_inv [of "unat LONG_TERM_BLOCK_WEIGHT_WINDOW_SIZE" w] by (simp_all add: window_new_def window_size)
  with w show ?thesis by (auto simp: ChainState_default_def cached_def last_n_def)
qed

lemma trim_front_last_n: "trim_front n xs = last_n n xs"
proof (induction n xs rule: trim_front.induct)
  case (1 n xs)
  show ?case
  proof (cases "n < length xs")
    case True
    then have "last_n n (tl xs) = last_n n xs" by (cases xs) (auto simp: last_n_def Suc_diff_le)
    with 1 True show ?thesis by (simp add: trim_front.simps)
  qed (simp add: trim_front.simps last_n_def)
qed

lemma map_last_n: "map f (last_n k xs) = last_n k (map f xs)"
  by (simp add: last_n_def drop_map)

text \<open>Advancing past a block keeps the cache in step with the view, and never panics.\<close>

lemma advance_cached:
  assumes "cached hf vs st" "unat height = length vs" "length vs + 1 < 2 ^ 64"
    "bi_timestamp i = timestamp (header blk)" "bi_coins i = vd_coins v" "bi_weight i = vd_weight v"
    "bi_cumulative_difficulty i = cumulative_difficulty st + vd_difficulty v"
    "bi_long_term_block_weight i = vd_long_term_weight v" "sd_info e = i"
  shows "\<exists>st'. advance_state hf height blk v st = Some st' \<and> cached hf (vs @ [e]) st'"
proof -
  note c = assms(1) [unfolded cached_def]
  obtain w where w: "push (long_term st) (vd_long_term_weight v) = Some w" "window_inv w" "capacity w = capacity (long_term st)"
      "order w = last_n (capacity (long_term st)) (order (long_term st) @ [vd_long_term_weight v])"
    using push_ok [of "long_term st"] c by blast
  have h: "height = word_of_nat (length vs)"
    by (simp add: assms(2) [symmetric])
  from w c show ?thesis
    by (auto simp: advance_state_def Let_def cached_def trim_front_last_n window_size last_n_step assms(4-9) h
        compute_weight_limits_def add.commute)
qed


section \<open>Reloading\<close>

lemma collect_Inr:
  "collect f xs = Inr ys \<longleftrightarrow> length ys = length xs \<and> (\<forall>k < length xs. f (xs ! k) = Inr (ys ! k))"
proof (induction xs arbitrary: ys)
  case Nil
  show ?case by auto
next
  case (Cons x xs)
  show ?case
  proof (cases ys)
    case (Cons y ys')
    then show ?thesis using Cons.IH [of ys'] by (auto simp: nth_Cons split: nat.split)
  qed auto
qed

lemma collect_total: "(\<And>x. x \<in> set xs \<Longrightarrow> \<exists>y. f x = Inr y) \<Longrightarrow> \<exists>ys. collect f xs = Inr ys"
  by (induction xs) fastforce+

lemma from_db_Inr [simp]: "from_db r = Inr x \<longleftrightarrow> r = Inr x"
  by (cases r) (auto simp: from_db_def)

lemma from_db_simps [simp]: "from_db (Inr x) = Inr x" "from_db (Inl e) = Inl (Storage (DbText e))"
  by (simp_all add: from_db_def)

lemma at_step_Inr [simp]: "at_step s r = Inr x \<longleftrightarrow> r = Inr x"
  by (cases r) (auto simp: at_step_def)

lemma at_step_simps [simp]: "at_step s (Inr x) = Inr x" "at_step s (Inl e) = Inl (reject s e)"
  by (simp_all add: at_step_def)

lemma length_u64_range [simp]: "length (u64_range a b) = unat b - unat a"
  by (simp add: u64_range_def)

lemma unat_u64_range: "k < unat b - unat a \<Longrightarrow> unat (u64_range a b ! k) = unat a + k"
proof -
  assume k: "k < unat b - unat a"
  then have "unat a + k < 2 ^ 64" using unat_bound [of b] by simp
  with k show ?thesis by (simp add: u64_range_def unat_of_nat flip: of_nat_add)
qed

text \<open>Reading a field over the last \<open>n\<close> heights gives the last \<open>n\<close> of the view.\<close>

lemma collect_tail:
  assumes "unat height = length vs" "unat start = length vs - n"
    "collect f (u64_range start height) = Inr ys"
    "\<And>h y. f h = Inr y \<Longrightarrow> unat h < length vs \<and> y = g (vs ! unat h)"
  shows "ys = last_n n (map g vs)"
proof (rule nth_equalityI)
  have l: "length ys = length vs - (length vs - n)" using assms(1-3) by (simp add: collect_Inr)
  then show "length ys = length (last_n n (map g vs))" by (simp add: last_n_def)
  fix k assume k: "k < length ys"
  then have "f (u64_range start height ! k) = Inr (ys ! k)" using assms(1-3) l by (simp add: collect_Inr)
  moreover have "unat (u64_range start height ! k) = length vs - n + k"
    using k l assms(1,2) by (simp add: unat_u64_range)
  ultimately have "ys ! k = g (vs ! (length vs - n + k))" using assms(4) by metis
  with k l show "ys ! k = last_n n (map g vs) ! k" by (simp add: last_n_def)
qed

lemma start_of_window: "unat (height - long_term_window height) = unat height - 100000"
proof -
  have "long_term_window height \<le> height" by (simp add: long_term_window_def)
  then have "unat (height - long_term_window height) = unat height - unat (long_term_window height)"
    by (simp add: unat_sub)
  also have "unat (long_term_window height) = min 100000 (unat height)"
    by (auto simp: long_term_window_def min_def word_le_nat_alt window_size)
  finally show ?thesis by simp
qed

lemma reload_cached:
  assumes "store_laws (en_db E) view ok" "ok (bc_db c)" "reload_value E c = Some (Inr st)"
  shows "cached (bc_hardfork c) (view (bc_db c)) st"
proof -
  let ?D = "en_db E" and ?d = "bc_db c" and ?vs = "view (bc_db c)" and ?h = "bc_height E c"
  note rl = read_lawD [OF assms(1,2)]
  have len: "unat ?h = length ?vs" using rl(1) by (simp add: bc_height_def)
  obtain st0 where st0: "ChainState_default = Some st0" "cached (bc_hardfork c) [] st0" "order (long_term st0) = []"
    using default_state by blast
  show ?thesis
  proof (cases "?h = 0")
    case True
    then have "?vs = []" using len by simp
    with True assms(3) st0(2) show ?thesis unfolding reload_value_def st0(1) by (simp add: Let_def)
  next
    case False
    then have ne: "?vs \<noteq> []" and h1: "unat (?h - 1) = length ?vs - 1"
      using len by (auto simp: unat_minus_one unat_eq_zero)
    let ?info = "\<lambda>h. from_db (db_get_block_info ?D ?d h)"
    obtain tip recent ltws win w where r:
        "?info (?h - 1) = Inr tip"
        "collect ?info (u64_range (saturating_sub ?h (word_of_nat CRYPTONOTE_REWARD_BLOCKS_WINDOW)) ?h) = Inr recent"
        "collect (\<lambda>h. from_db (db_get_block_long_term_weight ?D ?d h)) (u64_range (?h - long_term_window ?h) ?h) = Inr ltws"
        "collect ?info (u64_range (saturating_sub ?h (word_of_nat DIFFICULTY_WINDOW_CACHE)) ?h) = Inr win"
        "push_all ltws (long_term st0) = Some w"
        "st = (let st = st0\<lparr>already_generated_coins := bi_coins tip, cumulative_difficulty := bi_cumulative_difficulty tip,
                 recent_weights := map bi_weight recent, long_term := w,
                 difficulty_window := map (\<lambda>i. (bi_timestamp i, bi_cumulative_difficulty i)) win\<rparr>
               in st\<lparr>weights := compute_weight_limits st (current_version E c)\<rparr>)"
      using assms(3) False unfolding reload_value_def st0(1)
      by (auto simp: Let_def split: sum.splits option.splits)
    have info: "unat h < length ?vs \<and> y = sd_info (?vs ! unat h)" if "?info h = Inr y" for h y
      using rl(2) that by simp
    have tip: "tip = sd_info (last ?vs)" using info [OF r(1)] ne by (simp add: h1 last_conv_nth)
    have recent: "recent = last_n 100 (map sd_info ?vs)"
      by (rule collect_tail [OF len _ r(2) info]) (simp add: unat_saturating_sub window_size len)
    have win: "win = last_n 735 (map sd_info ?vs)"
      by (rule collect_tail [OF len _ r(4) info]) (simp add: unat_saturating_sub window_size len)
    have ltws: "ltws = last_n 100000 (map (\<lambda>e. bi_long_term_block_weight (sd_info e)) ?vs)"
      by (rule collect_tail [OF len _ r(3)]) (use rl(4) in \<open>auto simp: start_of_window len\<close>)
    have w: "window_inv w" "capacity w = 100000" "order w = last_n 100000 ltws"
      using push_all_ok [of "long_term st0" ltws] st0 r(5) by (auto simp: cached_def)
    have "last_n k (last_n k xs) = last_n k xs" for k and xs :: "u64 list" by (simp add: last_n_def)
    then have "order w = ltws" using w(3) ltws by simp
    moreover have "?h = word_of_nat (length ?vs)" by (simp add: len [symmetric])
    ultimately show ?thesis
      using w ltws ne tip by (simp add: r(6) Let_def cached_def recent win compute_weight_limits_def current_version_def comp_def map_last_n)
  qed
qed

lemma reload_returns:
  assumes "store_laws (en_db E) view ok" "store_total (en_db E) view ok" "ok (bc_db c)"
  shows "\<exists>st. reload_value E c = Some (Inr st)"
proof -
  let ?D = "en_db E" and ?d = "bc_db c" and ?vs = "view (bc_db c)" and ?h = "bc_height E c"
  have len: "unat ?h = length ?vs" using read_lawD(1) [OF assms(1,3)] by (simp add: bc_height_def)
  have t: "unat h < length ?vs \<Longrightarrow> \<exists>i. from_db (db_get_block_info ?D ?d h) = Inr i"
    "unat h < length ?vs \<Longrightarrow> \<exists>w. from_db (db_get_block_long_term_weight ?D ?d h) = Inr w" for h
    using assms(2,3) by (simp_all add: store_total_def)
  have rng: "unat x < length ?vs" if "x \<in> set (u64_range a ?h)" for a x
    using that len by (auto simp: in_set_conv_nth unat_u64_range)
  have ti: "\<exists>ys. collect (\<lambda>h. from_db (db_get_block_info ?D ?d h)) (u64_range a ?h) = Inr ys"
    and tw: "\<exists>ys. collect (\<lambda>h. from_db (db_get_block_long_term_weight ?D ?d h)) (u64_range a ?h) = Inr ys" for a
    by (rule collect_total, erule t(1) [OF rng], rule collect_total, erule t(2) [OF rng])
  obtain st0 where st0: "ChainState_default = Some st0" "cached (bc_hardfork c) [] st0" "order (long_term st0) = []"
    using default_state by blast
  show ?thesis
  proof (cases "?h = 0")
    case True
    then show ?thesis unfolding reload_value_def st0(1) by (simp add: Let_def)
  next
    case False
    then have "unat (?h - 1) < length ?vs"
      using len unat_gt_0 [of ?h] by (simp add: unat_minus_one)
    then obtain tip where "from_db (db_get_block_info ?D ?d (?h - 1)) = Inr tip" using t(1) by blast
    moreover obtain recent where
      "collect (\<lambda>h. from_db (db_get_block_info ?D ?d h)) (u64_range (saturating_sub ?h (word_of_nat CRYPTONOTE_REWARD_BLOCKS_WINDOW)) ?h) = Inr recent"
      using ti by blast
    moreover obtain ltws where
      "collect (\<lambda>h. from_db (db_get_block_long_term_weight ?D ?d h)) (u64_range (?h - long_term_window ?h) ?h) = Inr ltws"
      using tw by blast
    moreover obtain win where
      "collect (\<lambda>h. from_db (db_get_block_info ?D ?d h)) (u64_range (saturating_sub ?h (word_of_nat DIFFICULTY_WINDOW_CACHE)) ?h) = Inr win"
      using ti by blast
    moreover obtain w where "push_all ltws (long_term st0) = Some w"
      using push_all_ok [of "long_term st0" ltws] st0 by (auto simp: cached_def)
    ultimately show ?thesis using False unfolding reload_value_def st0(1) by (simp add: Let_def)
  qed
qed


section \<open>Reasoning about operations\<close>

text \<open>\<open>P\<close> before gives \<open>Q x\<close> after a result \<open>x\<close> and \<open>R\<close> after an error; a panic promises nothing.\<close>

definition triple :: "('d Blockchain \<Rightarrow> bool) \<Rightarrow> ('d, 'a) chain_op \<Rightarrow> ('a \<Rightarrow> 'd Blockchain \<Rightarrow> bool) \<Rightarrow> ('d Blockchain \<Rightarrow> bool) \<Rightarrow> bool" where
  "triple P m Q R \<longleftrightarrow> (\<forall>c r c'. P c \<longrightarrow> m c = Some (r, c') \<longrightarrow> (case r of Inl _ \<Rightarrow> R c' | Inr x \<Rightarrow> Q x c'))"

lemma triple_bind:
  assumes "triple P m Q R" "\<And>x. triple (Q x) (f x) Q' R"
  shows "triple P (op_bind m f) Q' R"
  unfolding triple_def
proof (intro allI impI)
  fix c r c' assume "P c" "op_bind m f c = Some (r, c')"
  then show "case r of Inl _ \<Rightarrow> R c' | Inr x \<Rightarrow> Q' x c'"
    using assms unfolding triple_def op_bind_def
    by (cases "m c") (fastforce split: sum.splits)+
qed

lemma triple_return: "(\<And>c. P c \<Longrightarrow> Q x c) \<Longrightarrow> triple P (op_return x) Q R"
  by (simp add: triple_def op_return_def)

lemma triple_fail: "(\<And>c. P c \<Longrightarrow> R c) \<Longrightarrow> triple P (op_fail e) Q R"
  by (simp add: triple_def op_fail_def)

lemma triple_read: "(\<And>c. P c \<Longrightarrow> R c) \<Longrightarrow> triple P (op_read f) (\<lambda>_. P) R"
  by (auto simp: triple_def op_read_def split: sum.splits)

lemma triple_modify: "(\<And>c. P c \<Longrightarrow> Q () (f c)) \<Longrightarrow> triple P (op_modify f) Q R"
  by (simp add: triple_def op_modify_def)

lemma triple_for: "(\<And>x. triple P (f x) (\<lambda>_. P) R) \<Longrightarrow> triple P (op_for f xs) (\<lambda>_. P) R"
proof (induction xs)
  case Nil
  show ?case by (simp add: triple_return)
next
  case (Cons x xs)
  show ?case by (simp, rule triple_bind [OF Cons.prems]) (rule Cons.IH [OF Cons.prems])
qed

lemma triple_write:
  assumes "\<And>c r d'. P c \<Longrightarrow> f (bc_db c) = (r, d') \<Longrightarrow> (case r of Inl _ \<Rightarrow> R (c\<lparr>bc_db := d'\<rparr>) | Inr x \<Rightarrow> Q x (c\<lparr>bc_db := d'\<rparr>))"
  shows "triple P (op_write s f) Q R"
  unfolding triple_def
proof (intro allI impI)
  fix c r c' assume "P c" "op_write s f c = Some (r, c')"
  moreover obtain r0 d' where "f (bc_db c) = (r0, d')" by (cases "f (bc_db c)")
  ultimately show "case r of Inl _ \<Rightarrow> R c' | Inr x \<Rightarrow> Q x c'"
    using assms [of c r0 d'] by (cases r0) (auto simp: op_write_def at_step_def from_db_def)
qed

lemma triple_weaken:
  assumes "triple P m Q R" "\<And>c. P' c \<Longrightarrow> P c" "\<And>x c. Q x c \<Longrightarrow> Q' x c" "\<And>c. R c \<Longrightarrow> R' c"
  shows "triple P' m Q' R'"
  unfolding triple_def
proof (intro allI impI)
  fix c r c' assume "P' c" "m c = Some (r, c')"
  then have "case r of Inl _ \<Rightarrow> R c' | Inr x \<Rightarrow> Q x c'" using assms(1) assms(2) [of c] unfolding triple_def by blast
  then show "case r of Inl _ \<Rightarrow> R' c' | Inr x \<Rightarrow> Q' x c'" using assms(3,4) by (auto split: sum.splits)
qed

lemma tripleD: "triple P m Q R \<Longrightarrow> P c \<Longrightarrow> m c = Some (r, c') \<Longrightarrow> (case r of Inl _ \<Rightarrow> R c' | Inr x \<Rightarrow> Q x c')"
  by (simp add: triple_def)

section \<open>Invariants of the stored chain\<close>

text \<open>A property of the chain that popping keeps, that does not depend on the caches, and that
  adding a validated block keeps, is kept by every operation.\<close>

definition chain_invariant :: "('d, 's, 'p::ab_group_add) chain_env \<Rightarrow> ('d Blockchain \<Rightarrow> bool) \<Rightarrow> bool" where
  "chain_invariant E P \<longleftrightarrow>
     (\<forall>blk blob txs now. triple P (chain_add_block E blk blob txs now) (\<lambda>_. P) P) \<and>
     (\<forall>c r d'. P c \<longrightarrow> db_pop_block (en_db E) (bc_db c) = (r, d') \<longrightarrow> P (c\<lparr>bc_db := d'\<rparr>)) \<and>
     (\<forall>c x data blob r d'. P c \<longrightarrow> db_add_alt_block (en_db E) (bc_db c) x data blob = (r, d') \<longrightarrow> P (c\<lparr>bc_db := d'\<rparr>)) \<and>
     (\<forall>c x r d'. P c \<longrightarrow> db_remove_alt_block (en_db E) (bc_db c) x = (r, d') \<longrightarrow> P (c\<lparr>bc_db := d'\<rparr>)) \<and>
     (\<forall>c st. P c \<longrightarrow> reload_value E c = Some (Inr st) \<longrightarrow> P (c\<lparr>bc_state := st\<rparr>)) \<and>
     (\<forall>c m. P c \<longrightarrow> P (c\<lparr>alt_txs := m\<rparr>)) \<and>
     (\<forall>c ts. P c \<longrightarrow> P (c\<lparr>orphaned_txs := ts\<rparr>))"

lemma chain_invariantD:
  assumes "chain_invariant E P"
  shows "triple P (chain_add_block E blk blob txs now) (\<lambda>_. P) P"
    "P c \<Longrightarrow> db_pop_block (en_db E) (bc_db c) = (rp, d') \<Longrightarrow> P (c\<lparr>bc_db := d'\<rparr>)"
    "P c \<Longrightarrow> db_add_alt_block (en_db E) (bc_db c) x data blob = (r, d') \<Longrightarrow> P (c\<lparr>bc_db := d'\<rparr>)"
    "P c \<Longrightarrow> db_remove_alt_block (en_db E) (bc_db c) x = (r, d') \<Longrightarrow> P (c\<lparr>bc_db := d'\<rparr>)"
    "P c \<Longrightarrow> reload_value E c = Some (Inr st) \<Longrightarrow> P (c\<lparr>bc_state := st\<rparr>)"
    "P c \<Longrightarrow> P (c\<lparr>alt_txs := m\<rparr>)"
    "P c \<Longrightarrow> P (c\<lparr>orphaned_txs := ts\<rparr>)"
  using assms unfolding chain_invariant_def by meson+

lemma keeps_reload:
  assumes I: "chain_invariant E P"
  shows "triple P (reload_state E s) (\<lambda>_. P) P"
  unfolding triple_def reload_state_def using chain_invariantD(5) [OF I] by (auto split: option.splits sum.splits)

lemma keeps_pop:
  assumes I: "chain_invariant E P"
  shows "triple P (op_write s (db_pop_block (en_db E))) (\<lambda>_. P) P"
  by (rule triple_write) (auto dest: chain_invariantD(2) [OF I] split: sum.splits)

lemma keeps_db_pop:
  assumes I: "chain_invariant E P"
  shows "triple P (db_pop E) (\<lambda>_. P) P"
  unfolding db_pop_def by (rule triple_bind [OF keeps_pop [OF I]]) (rule triple_return)

lemma keeps_pop_one:
  assumes I: "chain_invariant E P"
  shows "triple P (pop_one E) (\<lambda>_. P) P"
  unfolding pop_one_def by (rule triple_bind [OF keeps_pop [OF I]]) (auto intro: triple_modify chain_invariantD(7) [OF I] split: prod.splits)

lemma keeps_forget:
  assumes I: "chain_invariant E P"
  shows "triple P (forget_alt E l) (\<lambda>_. P) P"
  unfolding forget_alt_def
  by (rule triple_bind [where Q = "\<lambda>_. P"]) (auto intro!: triple_write triple_modify chain_invariantD(6) [OF I] dest: chain_invariantD(4) [OF I] split: sum.splits)

lemma keeps_file:
  assumes I: "chain_invariant E P"
  shows "triple P (file_popped E p) (\<lambda>_. P) P"
  unfolding file_popped_def Let_def
  by (rule triple_bind [where Q = "\<lambda>_. P"]) (auto intro!: triple_write triple_modify chain_invariantD(6) [OF I] dest: chain_invariantD(3) [OF I] split: sum.splits)

lemma keeps_restore:
  assumes I: "chain_invariant E P"
  shows "triple P (restore_block E now p) (\<lambda>_. P) P"
  unfolding triple_def restore_block_def
proof (intro allI impI)
  fix c r c' assume "P c" and r: "(case chain_add_block E (pp_block p) (block_to_blob (pp_block p)) (pp_txs p) now c of
        None \<Rightarrow> None
      | Some (Inl r, c') \<Rightarrow>
          Some (Inl (reject Commit (Storage (RestoreText (bi_height (pp_info p)) (rej_step r) (rej_error r)))), c')
      | Some (Inr _, c') \<Rightarrow> Some (Inr (), c')) = Some (r, c')"
  then obtain r0 where "chain_add_block E (pp_block p) (block_to_blob (pp_block p)) (pp_txs p) now c = Some (r0, c')"
    by (auto split: option.splits sum.splits)
  from tripleD [OF chain_invariantD(1) [OF I] \<open>P c\<close> this] show "case r of Inl _ \<Rightarrow> P c' | Inr x \<Rightarrow> P c'" by (auto split: sum.splits)
qed

lemma keeps_undo:
  assumes I: "chain_invariant E P"
  shows "triple P (undo_switch E now popped i bad rejected) Q P"
  unfolding undo_switch_def
  by (intro triple_bind [OF triple_for [OF keeps_db_pop [OF I]]] triple_bind [OF keeps_reload [OF I]]
      triple_bind [OF triple_for [OF keeps_restore [OF I]]] triple_bind [OF triple_for [OF keeps_forget [OF I]]] triple_fail)

lemma keeps_apply:
  assumes I: "chain_invariant E P"
  shows "triple P (apply_links E now popped i links) (\<lambda>_. P) P"
proof (induction links arbitrary: i)
  case Nil
  show ?case by (auto simp: triple_def)
next
  case (Cons a links)
  obtain l txs where a: "a = (l, txs)" by (cases a)
  show ?case unfolding triple_def
  proof (intro allI impI)
    fix c r c' assume P: "P c" and r: "apply_links E now popped i (a # links) c = Some (r, c')"
    then obtain r0 c0 where s: "chain_add_block E (al_block l) (al_blob l) txs now c = Some (r0, c0)"
      by (auto simp: a split: option.splits)
    from tripleD [OF chain_invariantD(1) [OF I] P s] have "P c0" by (auto split: sum.splits)
    then show "case r of Inl _ \<Rightarrow> P c' | Inr x \<Rightarrow> P c'"
    proof (cases r0)
      case (Inl e)
      with r s have "undo_switch E now popped i (map fst ((l, txs) # links)) e c0 = Some (r, c')" by (simp add: a)
      from tripleD [OF keeps_undo [OF I, where Q = "\<lambda>_. P"] \<open>P c0\<close> this] show ?thesis .
    next
      case (Inr x)
      with r s have "apply_links E now popped (Suc i) links c0 = Some (r, c')" by (simp add: a)
      from tripleD [OF Cons.IH \<open>P c0\<close> this] show ?thesis .
    qed
  qed
qed

lemma keeps_pop_down:
  assumes I: "chain_invariant E P"
  shows "triple P (pop_down E split popped) (\<lambda>_. P) P"
proof -
  have "P (snd y)" if "pop_down E split popped c = Some y" "P c" for c popped y
  proof -
    have "E = E \<longrightarrow> P c \<longrightarrow> P (snd y)"
    proof (rule pop_down.raw_induct [OF _ that(1), where P = "\<lambda>E' split popped c y. E' = E \<longrightarrow> P c \<longrightarrow> P (snd y)"], intro impI)
      fix f E' split popped c y
      assume IH: "\<And>E' split popped c y. f E' split popped c = Some y \<Longrightarrow> E' = E \<longrightarrow> P c \<longrightarrow> P (snd y)"
        and body: "(if split + 1 < bc_height E' c then
          case at_step Commit (from_db (db_get_block_info (en_db E') (bc_db c) (bc_height E' c - 1))) of
            Inl e \<Rightarrow> Some (Inl e, c)
          | Inr info \<Rightarrow>
             (case db_pop_block (en_db E') (bc_db c) of
                (Inl e, d) \<Rightarrow> Some (Inl (reject Commit (Storage (DbText e))), c\<lparr>bc_db := d\<rparr>)
              | (Inr (block, txs), d) \<Rightarrow>
                  f E' split (popped @ [\<lparr>pp_info = info, pp_block = block, pp_txs = map with_blob txs\<rparr>]) (c\<lparr>bc_db := d\<rparr>))
          else Some (Inr (rev popped), c)) = Some y" and "E' = E" "P c"
      then show "P (snd y)"
        by (auto split: if_splits sum.splits prod.splits dest: chain_invariantD(2) [OF I] IH)
    qed
    with that(2) show ?thesis by simp
  qed
  then show ?thesis by (fastforce simp: triple_def split: sum.splits)
qed

lemma keeps_switch:
  assumes I: "chain_invariant E P"
  shows "triple P (switch_to_alternative E chain split now) (\<lambda>_. P) P"
  unfolding switch_to_alternative_def Let_def
  by (intro triple_bind [OF triple_read] triple_bind [OF keeps_pop_down [OF I]] triple_bind [OF keeps_reload [OF I]]
      triple_bind [OF keeps_apply [OF I]] triple_bind [OF triple_for [OF keeps_file [OF I]]]
      triple_bind [OF triple_for [OF keeps_forget [OF I]]] triple_bind [OF triple_modify, where Q = "\<lambda>_. P"]
      triple_return chain_invariantD(7) [OF I])

lemma keeps_alternative:
  assumes I: "chain_invariant E P"
  shows "triple P (handle_alternative_block E blk blob txs now bid) (\<lambda>_. P) P"
proof -
  have t: "triple P (op_bind (op_write Commit (\<lambda>d. db_add_alt_block (en_db E) d bid data blob)) (\<lambda>_.
             op_bind (op_modify (\<lambda>c. c\<lparr>alt_txs := (alt_txs c)(bid \<mapsto> txs)\<rparr>)) (\<lambda>_ c.
               if alt_cumulative_difficulty data \<le> cumulative_difficulty (bc_state c) then op_return (AltChain height) c
               else switch_to_alternative E links split now c))) (\<lambda>_. P) P" for data height links split
  proof (rule triple_bind [where Q = "\<lambda>_. P"], goal_cases)
    case 1
    show ?case by (rule triple_write) (auto dest: chain_invariantD(3) [OF I] split: sum.splits)
  next
    case (2 x)
    show ?case
    proof (rule triple_bind [where Q = "\<lambda>_. P"], goal_cases)
      case 1
      show ?case by (rule triple_modify) (rule chain_invariantD(6) [OF I])
    next
      case (2 y)
      show ?case
        unfolding triple_def using keeps_switch [OF I, unfolded triple_def] by (auto simp: op_return_def)
    qed
  qed
  show ?thesis
    unfolding triple_def handle_alternative_block_def
    using t [unfolded triple_def] by (auto split: option.splits sum.splits)
qed

lemma handle_block_cases:
  assumes "handle_block E blk blob txs now c = Some (r, c')"
  obtains (same) "c' = c"
    | (alternative) bid where "handle_alternative_block E blk blob txs now bid c = Some (r, c')"
    | (extends) "chain_add_block E blk blob txs now c = Some (r, c')"
  using assms unfolding handle_block_def
  by (cases "block_id blk"; cases "at_step HaveIt (have_block E c (the (block_id blk)))"; cases "top_hash E c")
    (auto split: if_splits bool.splits)

lemma keeps_handle_block:
  assumes I: "chain_invariant E P"
  shows "triple P (handle_block E blk blob txs now) (\<lambda>_. P) P"
  unfolding triple_def
proof (intro allI impI)
  fix c r c' assume P: "P c" and r: "handle_block E blk blob txs now c = Some (r, c')"
  from r show "case r of Inl _ \<Rightarrow> P c' | Inr x \<Rightarrow> P c'"
  proof (cases rule: handle_block_cases)
    case same
    with P show ?thesis by (auto split: sum.splits)
  next
    case (alternative bid)
    from tripleD [OF keeps_alternative [OF I] P this] show ?thesis .
  next
    case extends
    from tripleD [OF chain_invariantD(1) [OF I] P this] show ?thesis .
  qed
qed

lemma keeps_pop_blocks:
  assumes I: "chain_invariant E P"
  shows "triple P (pop_blocks E n) (\<lambda>_. P) P"
proof -
  have t: "triple P (op_bind (op_for (\<lambda>_. pop_one E) [0 ..< k]) (\<lambda>_. op_bind (reload_state E Commit) (\<lambda>_. op_return m))) (\<lambda>_. P) P" for k m
    by (intro triple_bind [OF triple_for [OF keeps_pop_one [OF I]]] triple_bind [OF keeps_reload [OF I]] triple_return)
  show ?thesis unfolding triple_def
  proof (intro allI impI)
    fix c r c' assume P: "P c" and r: "pop_blocks E n c = Some (r, c')"
    from tripleD [OF t P r [unfolded pop_blocks_def Let_def]] show "case r of Inl _ \<Rightarrow> P c' | Inr x \<Rightarrow> P c'" .
  qed
qed

section \<open>What a validated block satisfies\<close>

lemma images_loop_Inr:
  assumes "store_laws (en_db E) view ok" "ok (bc_db c)"
  shows "images_loop E c S is = Inr S' \<Longrightarrow>
    S' = S \<union> set is \<and> distinct is \<and> set is \<inter> S = {} \<and> set is \<inter> set (chain_images (view (bc_db c))) = {}"
proof (induction "is" arbitrary: S)
  case Nil
  then show ?case by simp
next
  case (Cons i "is")
  then have i: "i \<notin> S" "i \<notin> set (chain_images (view (bc_db c)))" "images_loop E c (insert i S) is = Inr S'"
    using read_lawD(7) [OF assms, of i] by (auto split: if_splits)
  from Cons.IH [OF i(3)] i(1,2) show ?case by auto
qed

lemma transactions_loop_Inr:
  assumes "store_laws (en_db E) view ok" "ok (bc_db c)"
  shows "transactions_loop E c ver height now i H S fees pairs = Inr f \<Longrightarrow>
    distinct (body_images (map snd pairs)) \<and> set (body_images (map snd pairs)) \<inter> S = {} \<and>
    set (body_images (map snd pairs)) \<inter> set (chain_images (view (bc_db c))) = {}"
proof (induction pairs arbitrary: i H S fees)
  case Nil
  then show ?case by (simp add: body_images_def)
next
  case (Cons p pairs)
  obtain h tx blob where p: "p = (h, tx, blob)" by (cases p)
  from Cons.prems obtain S' H' fees' where
    l: "images_loop E c S (tx_rules_key_images tx) = Inr S'" and
    r: "transactions_loop E c ver height now (Suc i) H' S' fees' pairs = Inr f"
    by (auto simp: p Let_def split: if_splits)
  from images_loop_Inr [OF assms l] Cons.IH [OF r] show ?case
    by (auto simp: p body_images_def)
qed

lemma check_transactions_Inr:
  assumes "store_laws (en_db E) view ok" "ok (bc_db c)" "check_transactions E c blk txs height now = Inr f"
  shows "length txs = length (tx_hashes blk) \<and> distinct (body_images txs) \<and>
    set (body_images txs) \<inter> set (chain_images (view (bc_db c))) = {}"
proof -
  have l: "length txs = length (tx_hashes blk)"
    and t: "transactions_loop E c (major_version (header blk)) height now 0 {} {} 0 (zip (tx_hashes blk) txs) = Inr f"
    using assms(3) by (auto simp: check_transactions_def split: if_splits)
  have "map snd (zip (tx_hashes blk) txs) = txs" using l by simp
  with l transactions_loop_Inr [OF assms(1,2) t] show ?thesis by simp
qed

lemma validate_Inr:
  assumes "store_laws (en_db E) view ok" "ok (bc_db c)" "validate_block E c blk txs now = Some (Inr v)"
  obtains bid where "block_id blk = Some bid" "bid \<notin> sd_hash ` set (view (bc_db c))"
    "view (bc_db c) \<noteq> [] \<Longrightarrow> prev_id (header blk) = sd_hash (last (view (bc_db c)))"
    "hf_check (bc_hardfork c) (bc_height E c) (major_version (header blk)) (hard_fork_vote (header blk))"
    "checkpoint_check_block (bc_checkpoints c) (bc_height E c) bid"
    "vin (tx_prefix (miner_tx blk)) = [Gen (bc_height E c)]"
    "length txs = length (tx_hashes blk)" "distinct (body_images txs)"
    "set (body_images txs) \<inter> set (chain_images (view (bc_db c))) = {}"
    "\<exists>base fees. get_block_reward (wl_median (weights (bc_state c))) (vd_weight v)
        (already_generated_coins (bc_state c)) (major_version (header blk)) = Inr base \<and>
      (\<exists>reward. validate_miner_reward (major_version (header blk)) base fees
         (sum_list (map out_amount (vout (tx_prefix (miner_tx blk))))) = Inr reward \<and>
       vd_coins v = saturating_add (already_generated_coins (bc_state c)) (adjusted_base_reward reward))"
proof -
  let ?h = "bc_height E c"
  from assms(3) obtain bid d where b: "block_id blk = Some bid" and pl: "check_place E c blk bid now = Inr ()"
    and ct: "check_content E c blk bid txs now d = Some (Inr v)"
    by (auto simp: validate_block_def Let_def split: option.splits sum.splits)
  have len: "unat ?h = length (view (bc_db c))" using read_lawD(1) [OF assms(1,2)] by (simp add: bc_height_def)
  have new: "bid \<notin> sd_hash ` set (view (bc_db c))"
    using pl read_lawD(6) [OF assms(1,2), of bid] by (auto simp: check_place_def Let_def split: if_splits)
  have link: "prev_id (header blk) = sd_hash (last (view (bc_db c)))" if ne: "view (bc_db c) \<noteq> []"
  proof -
    have h0: "?h \<noteq> 0" using len ne by auto
    with pl obtain t where t: "top_hash E c = Some t" "prev_id (header blk) = t"
      by (auto simp: check_place_def Let_def split: if_splits option.splits)
    from t(1) h0 have "db_get_block_hash (en_db E) (bc_db c) (?h - 1) = Inr t"
      by (auto simp: top_hash_def Let_def split: sum.splits)
    from read_lawD(3) [OF assms(1,2) this] have "t = sd_hash (view (bc_db c) ! unat (?h - 1))" by simp
    with t(2) show ?thesis using h0 len ne by (simp add: unat_minus_one last_conv_nth)
  qed
  have hf: "hf_check (bc_hardfork c) ?h (major_version (header blk)) (hard_fork_vote (header blk))"
    using pl by (auto simp: check_place_def Let_def split: if_splits)
  have cp: "checkpoint_check_block (bc_checkpoints c) ?h bid" and rest: "check_rest E c blk txs now d = Some (Inr v)"
    using ct by (auto simp: check_content_def checkpoint_check_block_def Let_def split: option.splits if_splits)
  from rest obtain unlock fees base reward where
    pre: "prevalidate_miner_tx (en_curve E) blk (major_version (header blk)) ?h unlock = Inr ()" and
    tx: "check_transactions E c blk txs ?h now = Inr fees" and
    rw: "get_block_reward (wl_median (weights (bc_state c))) (vd_weight v) (already_generated_coins (bc_state c))
          (major_version (header blk)) = Inr base" and
    mr: "validate_miner_reward (major_version (header blk)) base fees
         (sum_list (map out_amount (vout (tx_prefix (miner_tx blk))))) = Inr reward" and
    co: "vd_coins v = saturating_add (already_generated_coins (bc_state c)) (adjusted_base_reward reward)"
    by (auto simp: check_rest_def Let_def split: option.splits sum.splits)
  have "vin (tx_prefix (miner_tx blk)) = [Gen ?h]"
    using pre by (auto simp: prevalidate_miner_tx_def check_coinbase_iff)
  with b new link hf cp check_transactions_Inr [OF assms(1,2) tx] rw mr co show thesis by (intro that) blast+
qed

section \<open>The stored chain is sound\<close>

definition block_sound :: "HardFork \<Rightarrow> Checkpoints \<Rightarrow> stored list \<Rightarrow> nat \<Rightarrow> bool" where
  "block_sound hf cps vs k \<longleftrightarrow>
     (let e = vs ! k; b = sd_block e in
      block_id b = Some (sd_hash e) \<and> bi_height (sd_info e) = word_of_nat k \<and>
      (0 < k \<longrightarrow> prev_id (header b) = sd_hash (vs ! (k - 1))) \<and>
      hf_check hf (word_of_nat k) (major_version (header b)) (hard_fork_vote (header b)) \<and>
      checkpoint_check_block cps (word_of_nat k) (sd_hash e) \<and>
      vin (tx_prefix (miner_tx b)) = [Gen (word_of_nat k)] \<and>
      length (sd_txs e) = length (tx_hashes b))"

definition chain_sound :: "HardFork \<Rightarrow> Checkpoints \<Rightarrow> stored list \<Rightarrow> bool" where
  "chain_sound hf cps vs \<longleftrightarrow>
     distinct (chain_images vs) \<and> distinct (map sd_hash vs) \<and> (\<forall>k < length vs. block_sound hf cps vs k)"

lemma chain_sound_Nil: "chain_sound hf cps []"
  by (simp add: chain_sound_def chain_images_def)

lemma chain_sound_butlast: "chain_sound hf cps vs \<Longrightarrow> chain_sound hf cps (butlast vs)"
proof (cases vs rule: rev_cases)
  case (snoc us e)
  assume "chain_sound hf cps vs"
  then have "block_sound hf cps (us @ [e]) k" if "k < length us" for k using that by (simp add: chain_sound_def snoc)
  then have "block_sound hf cps us k" if "k < length us" for k
    using that by (simp add: block_sound_def nth_append Let_def less_imp_diff_less)
  with \<open>chain_sound hf cps vs\<close> show ?thesis by (simp add: chain_sound_def snoc chain_images_def)
qed simp

lemma chain_sound_snoc:
  assumes "chain_sound hf cps vs" "distinct (body_images (sd_txs e))"
    "set (body_images (sd_txs e)) \<inter> set (chain_images vs) = {}" "sd_hash e \<notin> sd_hash ` set vs"
    "block_sound hf cps (vs @ [e]) (length vs)"
  shows "chain_sound hf cps (vs @ [e])"
proof -
  have "block_sound hf cps (vs @ [e]) k" if "k < length vs" for k
    using assms(1) that by (simp add: chain_sound_def block_sound_def nth_append Let_def less_imp_diff_less)
  with assms show ?thesis by (auto simp: chain_sound_def chain_images_def less_Suc_eq)
qed

definition sound_chain :: "('d \<Rightarrow> stored list) \<Rightarrow> ('d \<Rightarrow> bool) \<Rightarrow> 'd Blockchain \<Rightarrow> bool" where
  "sound_chain view ok c \<longleftrightarrow> ok (bc_db c) \<and> chain_sound (bc_hardfork c) (bc_checkpoints c) (view (bc_db c))"

lemma add_block_sound:
  assumes laws: "store_laws (en_db E) view ok"
  shows "triple (sound_chain view ok) (chain_add_block E blk blob txs now) (\<lambda>_. sound_chain view ok) (sound_chain view ok)"
  unfolding triple_def
proof (intro allI impI)
  fix c r c' assume s: "sound_chain view ok c" and r: "chain_add_block E blk blob txs now c = Some (r, c')"
  then have ok: "ok (bc_db c)" and cs: "chain_sound (bc_hardfork c) (bc_checkpoints c) (view (bc_db c))"
    by (simp_all add: sound_chain_def)
  have "sound_chain view ok c'"
  proof (cases "c' = c")
    case False
    with r obtain v where v: "validate_block E c blk txs now = Some (Inr v)" and cm: "commit_block E blk blob txs v c = Some (r, c')"
      by (auto simp: chain_add_block_def split: option.splits sum.splits)
    obtain q d' where q: "db_add_block (en_db E) (bc_db c) blk blob (vd_weight v) (vd_long_term_weight v)
        (cumulative_difficulty (bc_state c) + vd_difficulty v) (vd_coins v) txs = (q, d')"
      by (cases "db_add_block (en_db E) (bc_db c) blk blob (vd_weight v) (vd_long_term_weight v)
        (cumulative_difficulty (bc_state c) + vd_difficulty v) (vd_coins v) txs")
    have db: "bc_db c' = d'" "bc_hardfork c' = bc_hardfork c" "bc_checkpoints c' = bc_checkpoints c"
      using cm q by (auto simp: commit_block_def Let_def split: option.splits sum.splits)
    note al = add_block_law [OF laws ok q]
    show ?thesis
    proof (cases q)
      case (Inl e)
      with al(1,2) cs db show ?thesis by (simp add: sound_chain_def)
    next
      case (Inr h)
      from al(3) [OF this] obtain i where i: "view d' = view (bc_db c) @ [\<lparr>sd_info = i, sd_block = blk, sd_txs = txs\<rparr>]"
        "bi_height i = db_height (en_db E) (bc_db c)" "block_id blk = Some (bi_hash i)" by blast
      have hh: "bc_height E c = word_of_nat (length (view (bc_db c)))"
        by (simp add: read_lawD(1) [OF laws ok, symmetric] bc_height_def)
      from validate_Inr [OF laws ok v] i(3) show ?thesis
        using chain_sound_snoc [OF cs, of "\<lparr>sd_info = i, sd_block = blk, sd_txs = txs\<rparr>"] al(1) i(1,2) db hh
        by (auto simp: sound_chain_def block_sound_def nth_append last_conv_nth bc_height_def Let_def)
    qed
  qed (simp add: s)
  then show "case r of Inl _ \<Rightarrow> sound_chain view ok c' | Inr x \<Rightarrow> sound_chain view ok c'" by (auto split: sum.splits)
qed

lemma sound_invariant:
  assumes "store_laws (en_db E) view ok"
  shows "chain_invariant E (sound_chain view ok)"
  unfolding chain_invariant_def
proof (intro conjI allI impI)
  fix c r d' assume "sound_chain view ok c" "db_pop_block (en_db E) (bc_db c) = (r, d')"
  then show "sound_chain view ok (c\<lparr>bc_db := d'\<rparr>)"
    using pop_block_law [OF assms, of "bc_db c" r d'] chain_sound_butlast by (cases r) (auto simp: sound_chain_def)
next
  fix c x data blob r d' assume "sound_chain view ok c" "db_add_alt_block (en_db E) (bc_db c) x data blob = (r, d')"
  then show "sound_chain view ok (c\<lparr>bc_db := d'\<rparr>)"
    using alt_laws(1) [OF assms, of "bc_db c" x data blob r d'] by (auto simp: sound_chain_def)
next
  fix c x r d' assume "sound_chain view ok c" "db_remove_alt_block (en_db E) (bc_db c) x = (r, d')"
  then show "sound_chain view ok (c\<lparr>bc_db := d'\<rparr>)"
    using alt_laws(2) [OF assms, of "bc_db c" x r d'] by (auto simp: sound_chain_def)
qed (simp_all add: add_block_sound [OF assms], simp_all add: sound_chain_def)

section \<open>The cached state describes the stored chain\<close>

definition coherent :: "('d \<Rightarrow> stored list) \<Rightarrow> ('d \<Rightarrow> bool) \<Rightarrow> 'd Blockchain \<Rightarrow> bool" where
  "coherent view ok c \<longleftrightarrow> ok (bc_db c) \<and> cached (bc_hardfork c) (view (bc_db c)) (bc_state c)"

text \<open>Coherent, with at least \<open>n\<close> blocks; and only the store in order, with at least \<open>n\<close> blocks.\<close>

definition coherent_n :: "('d \<Rightarrow> stored list) \<Rightarrow> ('d \<Rightarrow> bool) \<Rightarrow> nat \<Rightarrow> 'd Blockchain \<Rightarrow> bool" where
  "coherent_n view ok n c \<longleftrightarrow> coherent view ok c \<and> n \<le> length (view (bc_db c))"

definition stale_n :: "('d \<Rightarrow> stored list) \<Rightarrow> ('d \<Rightarrow> bool) \<Rightarrow> nat \<Rightarrow> 'd Blockchain \<Rightarrow> bool" where
  "stale_n view ok n c \<longleftrightarrow> ok (bc_db c) \<and> n \<le> length (view (bc_db c))"

abbreviation nowhere :: "'d Blockchain \<Rightarrow> bool" where "nowhere \<equiv> \<lambda>_. False"

lemma add_block_coherent:
  assumes laws: "store_laws (en_db E) view ok"
  shows "triple (coherent_n view ok n) (chain_add_block E blk blob txs now)
    (\<lambda>_. coherent_n view ok (Suc n)) (coherent_n view ok n)"
  unfolding triple_def
proof (intro allI impI)
  fix c r c' assume s: "coherent_n view ok n c" and r: "chain_add_block E blk blob txs now c = Some (r, c')"
  then have ok: "ok (bc_db c)" and ca: "cached (bc_hardfork c) (view (bc_db c)) (bc_state c)" and n: "n \<le> length (view (bc_db c))"
    by (simp_all add: coherent_n_def coherent_def)
  show "case r of Inl _ \<Rightarrow> coherent_n view ok n c' | Inr x \<Rightarrow> coherent_n view ok (Suc n) c'"
  proof (cases "\<exists>e. validate_block E c blk txs now = Some (Inl e)")
    case True
    with r s show ?thesis by (auto simp: chain_add_block_def)
  next
    case False
    with r obtain v where cm: "commit_block E blk blob txs v c = Some (r, c')"
      by (auto simp: chain_add_block_def split: option.splits sum.splits)
    obtain q d' where q: "db_add_block (en_db E) (bc_db c) blk blob (vd_weight v) (vd_long_term_weight v)
        (cumulative_difficulty (bc_state c) + vd_difficulty v) (vd_coins v) txs = (q, d')"
      by (cases "db_add_block (en_db E) (bc_db c) blk blob (vd_weight v) (vd_long_term_weight v)
        (cumulative_difficulty (bc_state c) + vd_difficulty v) (vd_coins v) txs")
    note al = add_block_law [OF laws ok q]
    show ?thesis
    proof (cases q)
      case (Inl e)
      with cm q have "\<exists>e. r = Inl e" "c' = c\<lparr>bc_db := d'\<rparr>" by (auto simp: commit_block_def Let_def)
      with al(1,2) Inl ca n show ?thesis by (auto simp: coherent_n_def coherent_def)
    next
      case (Inr h)
      from al(3) [OF this] obtain i where i: "view d' = view (bc_db c) @ [\<lparr>sd_info = i, sd_block = blk, sd_txs = txs\<rparr>]"
        "bi_timestamp i = timestamp (header blk)" "bi_coins i = vd_coins v" "bi_weight i = vd_weight v"
        "bi_cumulative_difficulty i = cumulative_difficulty (bc_state c) + vd_difficulty v"
        "bi_long_term_block_weight i = vd_long_term_weight v" by blast
      have hh: "unat (bc_height E c) = length (view (bc_db c))" using read_lawD(1) [OF laws ok] by (simp add: bc_height_def)
      have "length (view (bc_db c)) + 1 < 2 ^ 64"
        using read_lawD(1) [OF laws al(1)] i(1) unat_bound [of "db_height (en_db E) d'"] by simp
      from advance_cached [OF ca hh this i(2-6), of "\<lparr>sd_info = i, sd_block = blk, sd_txs = txs\<rparr>"] obtain st' where
        st': "advance_state (bc_hardfork c) (bc_height E c) blk v (bc_state c) = Some st'"
        "cached (bc_hardfork c) (view d') st'" using i(1) by auto
      with cm q Inr have "\<exists>x. r = Inr x" "c' = c\<lparr>bc_db := d', bc_state := st'\<rparr>" by (auto simp: commit_block_def Let_def)
      with al(1) st'(2) n i(1) show ?thesis by (auto simp: coherent_n_def coherent_def)
    qed
  qed
qed

lemma reload_makes_coherent:
  assumes "store_laws (en_db E) view ok" "store_total (en_db E) view ok"
  shows "triple (stale_n view ok n) (reload_state E s) (\<lambda>_. coherent_n view ok n) nowhere"
  unfolding triple_def
proof (intro allI impI)
  fix c r c' assume c: "stale_n view ok n c" and r: "reload_state E s c = Some (r, c')"
  then have ok: "ok (bc_db c)" by (simp add: stale_n_def)
  obtain st where st: "reload_value E c = Some (Inr st)" using reload_returns [OF assms ok] by blast
  with r have "r = Inr ()" "c' = c\<lparr>bc_state := st\<rparr>" by (simp_all add: reload_state_def)
  with reload_cached [OF assms(1) ok st] c
  show "case r of Inl _ \<Rightarrow> nowhere c' | Inr x \<Rightarrow> coherent_n view ok n c'"
    by (simp add: coherent_n_def coherent_def stale_n_def)
qed

lemma pop_succeeds:
  assumes "store_laws (en_db E) view ok" "store_total (en_db E) view ok"
    and "stale_n view ok (Suc n) c" "db_pop_block (en_db E) (bc_db c) = (r, d')"
  shows "\<exists>x. r = Inr x" "stale_n view ok n (c\<lparr>bc_db := d'\<rparr>)"
proof -
  have ok: "ok (bc_db c)" and ne: "view (bc_db c) \<noteq> []" using assms(3) by (auto simp: stale_n_def)
  with store_totalD(3) [OF assms(2) ok] assms(4) show x: "\<exists>x. r = Inr x" by auto
  with pop_block_law [OF assms(1) ok assms(4)] assms(3) show "stale_n view ok n (c\<lparr>bc_db := d'\<rparr>)"
    by (auto simp: stale_n_def)
qed

lemma pops_succeed:
  assumes "store_laws (en_db E) view ok" "store_total (en_db E) view ok"
    and "\<And>n. triple (stale_n view ok (Suc n)) (f :: ('d, unit) chain_op) (\<lambda>_. stale_n view ok n) nowhere"
  shows "triple (stale_n view ok (length xs + n)) (op_for (\<lambda>_. f) xs) (\<lambda>_. stale_n view ok n) nowhere"
proof (induction xs)
  case Nil
  show ?case by (simp add: triple_return)
next
  case (Cons x xs)
  show ?case by (simp, rule triple_bind [OF assms(3)]) (rule Cons.IH)
qed

lemma db_pop_stale:
  assumes "store_laws (en_db E) view ok" "store_total (en_db E) view ok"
  shows "triple (stale_n view ok (Suc n)) (db_pop E) (\<lambda>_. stale_n view ok n) nowhere"
    "triple (stale_n view ok (Suc n)) (pop_one E) (\<lambda>_. stale_n view ok n) nowhere"
proof -
  have w: "triple (stale_n view ok (Suc n)) (op_write Commit (db_pop_block (en_db E))) (\<lambda>_. stale_n view ok n) nowhere"
    by (rule triple_write) (use pop_succeeds [OF assms] in \<open>fastforce split: sum.splits\<close>)
  show "triple (stale_n view ok (Suc n)) (db_pop E) (\<lambda>_. stale_n view ok n) nowhere"
    unfolding db_pop_def by (rule triple_bind [OF w]) (rule triple_return)
  show "triple (stale_n view ok (Suc n)) (pop_one E) (\<lambda>_. stale_n view ok n) nowhere"
    unfolding pop_one_def by (rule triple_bind [OF w]) (auto intro!: triple_modify simp: stale_n_def split: prod.splits)
qed

text \<open>Alternative blocks do not touch the chain or its cache.\<close>

lemma alt_ops_coherent:
  assumes "store_laws (en_db E) view ok"
  shows "triple (coherent view ok) (forget_alt E l) (\<lambda>_. coherent view ok) (coherent view ok)"
    "triple (coherent view ok) (file_popped E p) (\<lambda>_. coherent view ok) (coherent view ok)"
    "triple (coherent view ok) (op_write s (\<lambda>d. db_add_alt_block (en_db E) d bid data blob)) (\<lambda>_. coherent view ok) (coherent view ok)"
proof -
  have m: "triple (coherent view ok) (op_modify (\<lambda>c. c\<lparr>alt_txs := g c\<rparr>)) (\<lambda>_. coherent view ok) R" for g R
    by (rule triple_modify) (simp add: coherent_def)
  show "triple (coherent view ok) (op_write s (\<lambda>d. db_add_alt_block (en_db E) d bid data blob)) (\<lambda>_. coherent view ok) (coherent view ok)"
    for s bid data blob
    by (rule triple_write) (auto simp: coherent_def dest: alt_laws(1) [OF assms] split: sum.splits)
  then show "triple (coherent view ok) (file_popped E p) (\<lambda>_. coherent view ok) (coherent view ok)"
    unfolding file_popped_def Let_def by (rule triple_bind) (rule m)
  have "triple (coherent view ok) (op_write Commit (\<lambda>d. db_remove_alt_block (en_db E) d x)) (\<lambda>_. coherent view ok) (coherent view ok)" for x
    by (rule triple_write) (auto simp: coherent_def dest: alt_laws(2) [OF assms] split: sum.splits)
  then show "triple (coherent view ok) (forget_alt E l) (\<lambda>_. coherent view ok) (coherent view ok)"
    unfolding forget_alt_def by (rule triple_bind) (rule m)
qed

lemma restore_coherent:
  assumes "store_laws (en_db E) view ok"
  shows "triple (coherent view ok) (restore_block E now p) (\<lambda>_. coherent view ok) (coherent view ok)"
  unfolding triple_def restore_block_def
proof (intro allI impI)
  fix c r c' assume "coherent view ok c" and r: "(case chain_add_block E (pp_block p) (block_to_blob (pp_block p)) (pp_txs p) now c of
        None \<Rightarrow> None
      | Some (Inl r, c') \<Rightarrow>
          Some (Inl (reject Commit (Storage (RestoreText (bi_height (pp_info p)) (rej_step r) (rej_error r)))), c')
      | Some (Inr _, c') \<Rightarrow> Some (Inr (), c')) = Some (r, c')"
  then obtain r0 where "chain_add_block E (pp_block p) (block_to_blob (pp_block p)) (pp_txs p) now c = Some (r0, c')"
    by (auto split: option.splits sum.splits)
  from tripleD [OF add_block_coherent [OF assms, of 0] _ this] \<open>coherent view ok c\<close>
  show "case r of Inl _ \<Rightarrow> coherent view ok c' | Inr x \<Rightarrow> coherent view ok c'"
    by (auto simp: coherent_n_def split: sum.splits)
qed

lemma undo_coherent:
  assumes laws: "store_laws (en_db E) view ok" "store_total (en_db E) view ok"
  shows "triple (coherent_n view ok i) (undo_switch E now popped i bad rejected) Q (coherent view ok)"
proof -
  have p: "triple (coherent_n view ok i) (op_for (\<lambda>_. db_pop E) [0 ..< i]) (\<lambda>_. stale_n view ok 0) (coherent view ok)"
    using pops_succeed [OF laws db_pop_stale(1) [OF laws], of "[0 ..< i]" 0]
    by (rule triple_weaken) (auto simp: coherent_n_def coherent_def stale_n_def)
  have r: "triple (stale_n view ok 0) (reload_state E Commit) (\<lambda>_. coherent view ok) (coherent view ok)"
    using reload_makes_coherent [OF laws, of 0] by (rule triple_weaken) (auto simp: coherent_n_def)
  show ?thesis
    unfolding undo_switch_def
    by (intro triple_bind [OF p] triple_bind [OF r] triple_bind [OF triple_for [OF restore_coherent [OF laws(1)]]]
        triple_bind [OF triple_for [OF alt_ops_coherent(1) [OF laws(1)]]] triple_fail)
qed

lemma apply_coherent:
  assumes laws: "store_laws (en_db E) view ok" "store_total (en_db E) view ok"
  shows "triple (coherent_n view ok i) (apply_links E now popped i links) (\<lambda>_. coherent view ok) (coherent view ok)"
proof (induction links arbitrary: i)
  case Nil
  show ?case by (auto simp: triple_def coherent_n_def)
next
  case (Cons a links)
  obtain l txs where a: "a = (l, txs)" by (cases a)
  show ?case unfolding triple_def
  proof (intro allI impI)
    fix c r c' assume P: "coherent_n view ok i c" and r: "apply_links E now popped i (a # links) c = Some (r, c')"
    then obtain r0 c0 where s: "chain_add_block E (al_block l) (al_blob l) txs now c = Some (r0, c0)"
      by (auto simp: a split: option.splits)
    note t = tripleD [OF add_block_coherent [OF laws(1)] P s]
    show "case r of Inl _ \<Rightarrow> coherent view ok c' | Inr x \<Rightarrow> coherent view ok c'"
    proof (cases r0)
      case (Inl e)
      with r s have "undo_switch E now popped i (map fst ((l, txs) # links)) e c0 = Some (r, c')" by (simp add: a)
      moreover from t Inl have "coherent_n view ok i c0" by simp
      ultimately show ?thesis using tripleD [OF undo_coherent [OF laws, where Q = "\<lambda>_. coherent view ok"]] by blast
    next
      case (Inr x)
      with r s have "apply_links E now popped (Suc i) links c0 = Some (r, c')" by (simp add: a)
      moreover from t Inr have "coherent_n view ok (Suc i) c0" by simp
      ultimately show ?thesis using tripleD [OF Cons.IH] by blast
    qed
  qed
qed

text \<open>Popping to a split point returns, and leaves exactly the blocks up to it.\<close>

lemma pop_down_returns:
  assumes laws: "store_laws (en_db E) view ok" "store_total (en_db E) view ok" and ok: "ok (bc_db c)"
  shows "\<exists>ps d'. pop_down E split acc c = Some (Inr ps, c\<lparr>bc_db := d'\<rparr>) \<and> ok d' \<and>
    view d' = take (unat (split + 1)) (view (bc_db c)) \<and>
    length ps = length acc + (length (view (bc_db c)) - unat (split + 1))"
  using ok
proof (induction "length (view (bc_db c))" arbitrary: c acc)
  case 0
  then have h: "bc_height E c = 0" using read_lawD(1) [OF laws(1) 0(2)] by (simp add: bc_height_def unat_eq_zero)
  then show ?case using 0 by (subst pop_down.simps) (auto intro!: exI [of _ "bc_db c"])
next
  case (Suc n)
  have len: "unat (bc_height E c) = Suc n" using read_lawD(1) [OF laws(1) Suc.prems] Suc(2) by (simp add: bc_height_def)
  show ?case
  proof (cases "split + 1 < bc_height E c")
    case False
    then have "Suc n \<le> unat (split + 1)" using len by (simp add: word_less_nat_alt)
    with False Suc(2) Suc.prems show ?thesis by (subst pop_down.simps) (auto intro!: exI [of _ "bc_db c"])
  next
    case True
    then have lt: "unat (split + 1) < Suc n" using len by (simp add: word_less_nat_alt)
    have "bc_height E c \<noteq> 0" using len by auto
    then have "unat (bc_height E c - 1) < length (view (bc_db c))" using len Suc(2) by (simp add: unat_minus_one)
    then obtain i where i: "db_get_block_info (en_db E) (bc_db c) (bc_height E c - 1) = Inr i"
      using store_totalD(1) [OF laws(2) Suc.prems] by blast
    have "view (bc_db c) \<noteq> []" using Suc(2) by auto
    then obtain b txs d' where p: "db_pop_block (en_db E) (bc_db c) = (Inr (b, txs), d')"
      using store_totalD(3) [OF laws(2) Suc.prems] by (metis surj_pair)
    from pop_block_law [OF laws(1) Suc.prems p] have d': "ok d'" "view d' = butlast (view (bc_db c))" by auto
    let ?c = "c\<lparr>bc_db := d'\<rparr>" and ?acc = "acc @ [\<lparr>pp_info = i, pp_block = b, pp_txs = map with_blob txs\<rparr>]"
    have "n = length (view (bc_db ?c))" using d'(2) Suc(2) by simp
    from Suc(1) [OF this, of ?acc] d' obtain ps e where r: "pop_down E split ?acc ?c = Some (Inr ps, ?c\<lparr>bc_db := e\<rparr>)" "ok e"
      "view e = take (unat (split + 1)) (view d')" "length ps = length ?acc + (length (view d') - unat (split + 1))" by auto
    have "pop_down E split acc c = pop_down E split ?acc ?c"
      by (subst pop_down.simps) (simp add: True i p)
    with r lt d'(2) Suc(2) show ?thesis
      by (intro exI [of _ ps] exI [of _ e]) (auto simp: take_butlast)
  qed
qed

lemma switch_coherent:
  assumes laws: "store_laws (en_db E) view ok" "store_total (en_db E) view ok"
  shows "triple (coherent view ok) (switch_to_alternative E chain split now) (\<lambda>_. coherent view ok) (coherent view ok)"
proof -
  have p: "triple (coherent view ok) (pop_down E split []) (\<lambda>_. stale_n view ok 0) (coherent view ok)"
    unfolding triple_def
  proof (intro allI impI)
    fix c r c' assume "coherent view ok c" "pop_down E split [] c = Some (r, c')"
    then show "case r of Inl _ \<Rightarrow> coherent view ok c' | Inr x \<Rightarrow> stale_n view ok 0 c'"
      using pop_down_returns [OF laws, of c split "[]"] by (auto simp: coherent_def stale_n_def)
  qed
  have r: "triple (stale_n view ok 0) (reload_state E Commit) (\<lambda>_. coherent_n view ok 0) (coherent view ok)"
    using reload_makes_coherent [OF laws, of 0] by (rule triple_weaken) auto
  show ?thesis
    unfolding switch_to_alternative_def Let_def
    by (intro triple_bind [OF triple_read] triple_bind [OF p] triple_bind [OF r] triple_bind [OF apply_coherent [OF laws]]
        triple_bind [OF triple_for [OF alt_ops_coherent(2) [OF laws(1)]]]
        triple_bind [OF triple_for [OF alt_ops_coherent(1) [OF laws(1)]]]
        triple_bind [OF triple_modify, where Q = "\<lambda>_. coherent view ok"] triple_return)
      (auto simp: coherent_def)
qed

lemma handle_block_coherent:
  assumes laws: "store_laws (en_db E) view ok" "store_total (en_db E) view ok"
  shows "triple (coherent view ok) (handle_block E blk blob txs now) (\<lambda>_. coherent view ok) (coherent view ok)"
proof -
  have a: "triple (coherent view ok) (chain_add_block E blk blob txs now) (\<lambda>_. coherent view ok) (coherent view ok)"
    using add_block_coherent [OF laws(1), of 0] by (rule triple_weaken) (auto simp: coherent_n_def)
  have s: "triple (coherent view ok) (op_bind (op_write Commit (\<lambda>d. db_add_alt_block (en_db E) d bid data blob)) (\<lambda>_.
             op_bind (op_modify (\<lambda>c. c\<lparr>alt_txs := (alt_txs c)(bid \<mapsto> txs)\<rparr>)) (\<lambda>_ c.
               if alt_cumulative_difficulty data \<le> cumulative_difficulty (bc_state c) then op_return (AltChain height) c
               else switch_to_alternative E links split now c))) (\<lambda>_. coherent view ok) (coherent view ok)" for bid data height links split
  proof (intro triple_bind [OF alt_ops_coherent(3) [OF laws(1)]] triple_bind [where Q = "\<lambda>_. coherent view ok"], goal_cases)
    case (1 x)
    show ?case by (rule triple_modify) (simp add: coherent_def)
  next
    case (2 x y)
    show ?case
      unfolding triple_def using switch_coherent [OF laws, unfolded triple_def] by (auto simp: op_return_def)
  qed
  have h: "triple (coherent view ok) (handle_alternative_block E blk blob txs now bid) (\<lambda>_. coherent view ok) (coherent view ok)" for bid
    unfolding triple_def handle_alternative_block_def
    using s [unfolded triple_def] by (auto split: option.splits sum.splits)
  show ?thesis unfolding triple_def
  proof (intro allI impI)
    fix c r c' assume P: "coherent view ok c" and r: "handle_block E blk blob txs now c = Some (r, c')"
    from r show "case r of Inl _ \<Rightarrow> coherent view ok c' | Inr x \<Rightarrow> coherent view ok c'"
    proof (cases rule: handle_block_cases)
      case same
      with P show ?thesis by (auto split: sum.splits)
    next
      case (alternative bid)
      from tripleD [OF h P this] show ?thesis .
    next
      case extends
      from tripleD [OF a P this] show ?thesis .
    qed
  qed
qed

lemma pop_ones_return:
  assumes laws: "store_laws (en_db E) view ok" "store_total (en_db E) view ok"
  shows "ok (bc_db c) \<Longrightarrow> length xs \<le> length (view (bc_db c)) \<Longrightarrow>
    \<exists>c'. op_for (\<lambda>_. pop_one E) xs c = Some (Inr (), c') \<and> ok (bc_db c') \<and>
      view (bc_db c') = take (length (view (bc_db c)) - length xs) (view (bc_db c))"
proof (induction xs arbitrary: c)
  case Nil
  then show ?case by (simp add: op_return_def)
next
  case (Cons x xs)
  then have "view (bc_db c) \<noteq> []" by auto
  then obtain b txs d' where p: "db_pop_block (en_db E) (bc_db c) = (Inr (b, txs), d')"
    using store_totalD(3) [OF laws(2) Cons.prems(1)] by (metis surj_pair)
  from pop_block_law [OF laws(1) Cons.prems(1) p] have d': "ok d'" "view d' = butlast (view (bc_db c))" by auto
  let ?c = "c\<lparr>bc_db := d', orphaned_txs := orphaned_txs c @ map with_blob txs\<rparr>"
  have "pop_one E c = Some (Inr (), ?c)"
    by (simp add: pop_one_def op_bind_def op_write_def p op_modify_def)
  moreover have "length xs \<le> length (view (bc_db ?c))" "ok (bc_db ?c)" using d' Cons.prems(2) by auto
  from Cons.IH [OF this(2,1)] obtain c' where "op_for (\<lambda>_. pop_one E) xs ?c = Some (Inr (), c')"
    "ok (bc_db c')" "view (bc_db c') = take (length (view d') - length xs) (view d')" by auto
  ultimately show ?case
    using d'(2) Cons.prems by (intro exI [of _ c']) (auto simp: op_bind_def take_butlast)
qed

lemma pop_blocks_coherent:
  assumes laws: "store_laws (en_db E) view ok" "store_total (en_db E) view ok"
  shows "triple (coherent view ok) (pop_blocks E n) (\<lambda>_. coherent view ok) (coherent view ok)"
  unfolding triple_def
proof (intro allI impI)
  fix c r c' assume c: "coherent view ok c" and r: "pop_blocks E n c = Some (r, c')"
  then have ok: "ok (bc_db c)" by (simp add: coherent_def)
  define m where "m = min n (saturating_sub (bc_height E c) 1)"
  have "unat m \<le> unat (bc_height E c)"
    using unat_saturating_sub [of "bc_height E c" 1] by (auto simp: m_def min_def word_le_nat_alt)
  then have st: "stale_n view ok (length [0 ..< unat m] + 0) c"
    using ok read_lawD(1) [OF laws(1) ok] by (simp add: stale_n_def bc_height_def)
  have t: "triple (stale_n view ok (length [0 ..< unat m] + 0))
      (op_bind (op_for (\<lambda>_. pop_one E) [0 ..< unat m]) (\<lambda>_. op_bind (reload_state E Commit) (\<lambda>_. op_return m)))
      (\<lambda>_. coherent_n view ok 0) nowhere"
    by (rule triple_bind [OF pops_succeed [OF laws db_pop_stale(2) [OF laws]]], rule triple_bind [OF reload_makes_coherent [OF laws]])
      (rule triple_return)
  from tripleD [OF t st r [unfolded pop_blocks_def Let_def, folded m_def]]
  show "case r of Inl _ \<Rightarrow> coherent view ok c' | Inr x \<Rightarrow> coherent view ok c'"
    by (auto simp: coherent_n_def split: sum.splits)
qed

section \<open>Reachable chains\<close>

text \<open>The chains the program can be in: a new chain over a store, then blocks, removals and settings in any
  order. \<open>verify_transactions_with\<close> may install another transaction verifier before any block.\<close>

inductive chain_reach :: "('d, 's, 'p::ab_group_add) chain_env \<Rightarrow> 'd \<Rightarrow> Network \<Rightarrow> 'd Blockchain \<Rightarrow> bool"
  for E db net where
  start: "Blockchain_new E db net = Some (Inr (), c) \<Longrightarrow> chain_reach E db net c"
| block: "chain_reach E db net c \<Longrightarrow> handle_block (E\<lparr>en_verify := verifier\<rparr>) blk blob txs now c = Some (r, c') \<Longrightarrow> chain_reach E db net c'"
| pop: "chain_reach E db net c \<Longrightarrow> pop_blocks E n c = Some (r', c') \<Longrightarrow> chain_reach E db net c'"
| trust: "chain_reach E db net c \<Longrightarrow> chain_reach E db net (trust_below h c)"
| fixed: "chain_reach E db net c \<Longrightarrow> chain_reach E db net (set_fixed_difficulty d c)"
| orphans: "chain_reach E db net c \<Longrightarrow> chain_reach E db net (snd (take_orphaned_txs c))"

lemmas settings_defs = trust_below_def set_fixed_difficulty_def take_orphaned_txs_def

definition on_network :: "Network \<Rightarrow> 'd Blockchain \<Rightarrow> bool" where
  "on_network net c \<longleftrightarrow> bc_hardfork c = HardFork_new net \<and> bc_checkpoints c = Checkpoints_new net"

lemma network_invariant: "chain_invariant E (on_network net)"
proof -
  have "triple (on_network net) (chain_add_block E blk blob txs now) (\<lambda>_. on_network net) (on_network net)" for blk blob txs now
    unfolding triple_def chain_add_block_def commit_block_def Let_def
    by (auto simp: on_network_def split: option.splits sum.splits prod.splits)
  then show ?thesis unfolding chain_invariant_def by (simp add: on_network_def)
qed

lemma Blockchain_new_cases:
  assumes "Blockchain_new E db net = Some (Inr (), c)"
  shows "on_network net c" "bc_db c = db" "\<exists>c0. bc_db c0 = db \<and> bc_hardfork c0 = bc_hardfork c \<and> reload_value E c0 = Some (Inr (bc_state c))"
proof -
  obtain st where st: "ChainState_default = Some st" using default_state by blast
  let ?c0 = "\<lparr>bc_db = db, bc_network = net, bc_hardfork = HardFork_new net, bc_checkpoints = Checkpoints_new net,
     bc_state = st, trusted_below = 0, alt_txs = Map.empty, orphaned_txs = [], fixed_difficulty = None\<rparr>"
  from assms have "reload_state E Commit ?c0 = Some (Inr (), c)" unfolding Blockchain_new_def st by simp
  then obtain st' where r: "reload_value E ?c0 = Some (Inr st')" and c: "c = ?c0\<lparr>bc_state := st'\<rparr>"
    by (auto simp: reload_state_def split: option.splits sum.splits)
  from c show "on_network net c" "bc_db c = db" by (simp_all add: on_network_def)
  from r c show "\<exists>c0. bc_db c0 = db \<and> bc_hardfork c0 = bc_hardfork c \<and> reload_value E c0 = Some (Inr (bc_state c))"
    by (intro exI [of _ ?c0]) simp
qed

lemma reach_network: "chain_reach E db net c \<Longrightarrow> on_network net c"
proof (induction rule: chain_reach.induct)
  case (start c)
  then show ?case by (rule Blockchain_new_cases)
next
  case (block c verifier blk blob txs now r c')
  then show ?case using tripleD [OF keeps_handle_block [OF network_invariant]] by (fastforce split: sum.splits)
next
  case (pop c n r' c')
  then show ?case using tripleD [OF keeps_pop_blocks [OF network_invariant]] by (fastforce split: sum.splits)
qed (simp_all add: on_network_def settings_defs)

text \<open>C2. The cached state always describes the stored chain: over a store that keeps its contract
  and whose reads do not fail, whatever sequence of blocks, failed blocks, reorganisations and
  removals led to a chain, its weight windows, difficulty window, coin supply, cumulative
  difficulty and weight limits are those of the stored blocks.\<close>

theorem reachable_cache_coherent:
  assumes "store_laws (en_db E) view ok" "store_total (en_db E) view ok" "ok db" "chain_reach E db net c"
  shows "cached (HardFork_new net) (view (bc_db c)) (bc_state c)"
proof -
  from assms(4) have "coherent view ok c"
  proof (induction rule: chain_reach.induct)
    case (start c)
    from Blockchain_new_cases [OF this] obtain c0 where "bc_db c0 = db" "bc_db c = db" "bc_hardfork c0 = bc_hardfork c"
      "reload_value E c0 = Some (Inr (bc_state c))" by blast
    with reload_cached [OF assms(1), of c0] assms(3) show ?case by (simp add: coherent_def)
  next
    case (block c verifier blk blob txs now r c')
    then show ?case using tripleD [OF handle_block_coherent, of "E\<lparr>en_verify := verifier\<rparr>" view ok] assms(1,2) by (fastforce split: sum.splits)
  next
    case (pop c n r' c')
    then show ?case using tripleD [OF pop_blocks_coherent [OF assms(1,2)]] by (fastforce split: sum.splits)
  qed (simp_all add: coherent_def settings_defs)
  with reach_network [OF assms(4)] show ?thesis by (simp add: coherent_def on_network_def)
qed

text \<open>C1. No double spend, ever: starting from a sound stored chain, after any sequence of blocks,
  reorganisations and removals the key images of all transactions on the stored chain are
  distinct, and every block has its own id, links to the block below, carries the version its
  height demands, matches the checkpoints and claims its own height.\<close>

theorem reachable_chain_sound:
  assumes "store_laws (en_db E) view ok" "ok db" "chain_sound (HardFork_new net) (Checkpoints_new net) (view db)"
    "chain_reach E db net c"
  shows "chain_sound (HardFork_new net) (Checkpoints_new net) (view (bc_db c))"
proof -
  note I = sound_invariant [OF assms(1)]
  have J: "chain_invariant (E\<lparr>en_verify := v\<rparr>) (sound_chain view ok)" for v by (rule sound_invariant) (simp add: assms(1))
  from assms(4) have "sound_chain view ok c"
  proof (induction rule: chain_reach.induct)
    case (start c)
    with Blockchain_new_cases [OF this] assms(2,3) show ?case by (simp add: sound_chain_def on_network_def)
  next
    case (block c verifier blk blob txs now r c')
    then show ?case using tripleD [OF keeps_handle_block [OF J]] by (fastforce split: sum.splits)
  next
    case (pop c n r' c')
    then show ?case using tripleD [OF keeps_pop_blocks [OF I]] by (fastforce split: sum.splits)
  qed (simp_all add: sound_chain_def settings_defs)
  with reach_network [OF assms(4)] show ?thesis by (simp add: sound_chain_def on_network_def)
qed

text \<open>C15. Removing blocks always returns, removes as many as asked for but never the genesis
  block, says how many, and leaves the blocks below untouched.\<close>

theorem pop_blocks_keeps_genesis:
  assumes "store_laws (en_db E) view ok" "store_total (en_db E) view ok" "ok (bc_db c)"
  shows "\<exists>k c'. pop_blocks E n c = Some (Inr k, c') \<and> unat k = min (unat n) (length (view (bc_db c)) - 1) \<and>
    view (bc_db c') = take (length (view (bc_db c)) - unat k) (view (bc_db c))"
proof -
  define m where "m = min n (saturating_sub (bc_height E c) 1)"
  have m: "unat m = min (unat n) (length (view (bc_db c)) - 1)"
    using unat_saturating_sub [of "bc_height E c" 1] read_lawD(1) [OF assms(1,3)]
    by (auto simp: m_def min_def word_le_nat_alt bc_height_def)
  then have "length [0 ..< unat m] \<le> length (view (bc_db c))" by simp
  from pop_ones_return [OF assms(1,2,3) this] obtain c1 where
    c1: "op_for (\<lambda>_. pop_one E) [0 ..< unat m] c = Some (Inr (), c1)" "ok (bc_db c1)"
    "view (bc_db c1) = take (length (view (bc_db c)) - unat m) (view (bc_db c))" by auto
  obtain st where "reload_value E c1 = Some (Inr st)" using reload_returns [OF assms(1,2) c1(2)] by blast
  then have "pop_blocks E n c = Some (Inr m, c1\<lparr>bc_state := st\<rparr>)"
    by (simp add: pop_blocks_def Let_def m_def [symmetric] op_bind_def c1(1) reload_state_def op_return_def)
  with m c1(3) show ?thesis by auto
qed

section \<open>A store that keeps the contract\<close>

text \<open>A list of blocks, full at \<open>2 ^ 64 - 1\<close>, without alternative blocks.\<close>

definition list_db :: "stored list BlockchainDb" where
  "list_db =
     \<lparr>db_height = (\<lambda>d. word_of_nat (length d)),
      db_block_exists = (\<lambda>d x. Inr (x \<in> sd_hash ` set d)),
      db_get_block_hash = (\<lambda>d h. if unat h < length d then Inr (sd_hash (d ! unat h)) else Inl NotFound),
      db_get_block_height = (\<lambda>d x. let k = length (takeWhile (\<lambda>e. sd_hash e \<noteq> x) d) in
         if k < length d then Inr (word_of_nat k) else Inl NotFound),
      db_get_block_info = (\<lambda>d h. if unat h < length d then Inr (sd_info (d ! unat h)) else Inl NotFound),
      db_get_block_timestamp = (\<lambda>d h. if unat h < length d then Inr (bi_timestamp (sd_info (d ! unat h))) else Inl NotFound),
      db_get_block_long_term_weight = (\<lambda>d h.
         if unat h < length d then Inr (bi_long_term_block_weight (sd_info (d ! unat h))) else Inl NotFound),
      db_tx_exists = (\<lambda>d h. Inr (\<exists>e \<in> set d. h \<in> set (tx_hashes (sd_block e)))),
      db_get_num_outputs = (\<lambda>d a. Inr 0),
      db_has_key_image = (\<lambda>d k. Inr (k \<in> set (chain_images d))),
      db_add_alt_block = (\<lambda>d x data blob. (Inl ReadOnly, d)),
      db_get_alt_block = (\<lambda>d x. Inl NotFound),
      db_remove_alt_block = (\<lambda>d x. (Inr (), d)),
      db_add_block = (\<lambda>d blk blob w ltw cd coins txs.
         case block_id blk of
           None \<Rightarrow> (Inl NotFound, d)
         | Some bid \<Rightarrow>
             if length d + 1 < 2 ^ 64 then
               (Inr (word_of_nat (length d)), d @ [\<lparr>sd_info = \<lparr>bi_height = word_of_nat (length d), bi_timestamp = timestamp (header blk),
                  bi_coins = coins, bi_weight = w, bi_cumulative_difficulty = cd, bi_hash = bid, bi_cum_rct = 0,
                  bi_long_term_block_weight = ltw\<rparr>, sd_block = blk, sd_txs = txs\<rparr>])
             else (Inl ReadOnly, d)),
      db_pop_block = (\<lambda>d. if d = [] then (Inl NotFound, d)
         else (Inr (sd_block (last d), map fst (sd_txs (last d))), butlast d))\<rparr>"

definition list_ok :: "stored list \<Rightarrow> bool" where "list_ok d \<longleftrightarrow> length d < 2 ^ 64"

lemma list_db_laws: "store_laws list_db (\<lambda>d. d) list_ok"
  unfolding store_laws_def
proof (intro allI impI conjI)
  fix d assume ok: "list_ok d"
  have "unat h < length d \<and> sd_hash (d ! unat h) = x" if "db_get_block_height list_db d x = Inr h" for x h
    using that ok nth_length_takeWhile [of "\<lambda>e. sd_hash e \<noteq> x" d]
    by (auto simp: list_db_def list_ok_def Let_def unat_of_nat split: if_splits)
  then show "read_laws list_db (\<lambda>d. d) d"
    using ok by (simp add: read_laws_def) (simp add: list_db_def list_ok_def unat_of_nat split: if_splits)
  show "write_laws list_db (\<lambda>d. d) list_ok d"
    using ok by (auto simp: write_laws_def list_db_def list_ok_def split: option.splits if_splits)
qed

lemma list_db_total: "store_total list_db (\<lambda>d. d) list_ok"
  by (auto simp: store_total_def list_db_def)

definition sample_env :: "(stored list, zl, zl) chain_env" where
  "sample_env = \<lparr>en_db = list_db, en_may_skip = TrustingVerifier_may_skip, en_pow_hash = TrustingVerifier_pow_hash,
     en_verify = None, en_curve = zl_dalek, en_difficulty_v2 = (\<lambda>_ _ _ _ _. Some 1)\<rparr>"

lemma new_returns:
  assumes "store_laws (en_db E) view ok" "store_total (en_db E) view ok" "ok db"
  shows "\<exists>c. Blockchain_new E db net = Some (Inr (), c) \<and> bc_db c = db"
proof -
  obtain st where st: "ChainState_default = Some st" using default_state by blast
  let ?c0 = "\<lparr>bc_db = db, bc_network = net, bc_hardfork = HardFork_new net, bc_checkpoints = Checkpoints_new net,
     bc_state = st, trusted_below = 0, alt_txs = Map.empty, orphaned_txs = [], fixed_difficulty = None\<rparr>"
  obtain st' where "reload_value E ?c0 = Some (Inr st')" using reload_returns [OF assms(1,2), of ?c0] assms(3) by auto
  then show ?thesis unfolding Blockchain_new_def st by (simp add: reload_state_def)
qed

text \<open>A first block with nothing but its coinbase.\<close>

definition sample_genesis :: Block where
  "sample_genesis = \<lparr>header = \<lparr>major_version = 7, minor_version = 7, timestamp = 0, prev_id = NULL_HASH, nonce = 0,
      header_signature = Signature_ZERO, vote = 0\<rparr>,
    miner_tx = \<lparr>tx_prefix = \<lparr>version = 1, unlock_time = 60, vin = [Gen 0], vout = [], extra = []\<rparr>,
      tx_signatures = [], rct_signatures = RctSignatures_null, prefix_size = 0, unprunable_size = 0\<rparr>,
    tx_hashes = []\<rparr>"

lemma sample_genesis_id: "\<exists>bid. block_id sample_genesis = Some bid"
proof -
  have "transaction_hash (miner_tx sample_genesis) \<noteq> None" by (rule transaction_hash_total)
  then obtain h where "transaction_hash (miner_tx sample_genesis) = Some h" by blast
  moreover have "\<exists>r. tree_hash [h] = Some r" by (simp add: tree_hash_def Let_def TREE_HASH_MAX_COUNT_def)
  ultimately show ?thesis
    by (auto simp: block_id_def hashing_blob_def hashing_blob_inner_def tx_tree_hash_def Let_def sample_genesis_def)
qed

lemma sample_genesis_weight: "cumulative_block_weight sample_genesis [] = Some 7"
  by (simp add: cumulative_block_weight_def sample_genesis_def Transaction_write_def prefix_write_def writer_defs
      write_bytes_prefixed_eq TxIn_write_def varint_bytes.simps Let_def word_le_nat_alt)

lemma mainnet_first: "required_version (HardFork_new Mainnet) 0 = 7" "checkpoint_at (Checkpoints_new Mainnet) 0 = None"
proof -
  show "required_version (HardFork_new Mainnet) 0 = 7" by code_simp
  have "cp_height c \<noteq> 0" if "c \<in> set MAINNET_CHECKPOINTS" for c
    using that by (auto simp: MAINNET_CHECKPOINTS_def)
  then show "checkpoint_at (Checkpoints_new Mainnet) 0 = None"
    by (auto simp: checkpoint_at_def Checkpoints_new_def checkpoint_table_def find_None_iff)
qed

lemma sample_env_simps:
  "db_height (en_db sample_env) [] = 0" "db_block_exists (en_db sample_env) [] x = Inr False"
  "en_may_skip sample_env h" "en_curve sample_env = zl_dalek"
  by (simp_all add: sample_env_def list_db_def TrustingVerifier_may_skip_def)

lemma sample_genesis_valid:
  assumes "bc_db c = []" "on_network Mainnet c" "wl_median (weights (bc_state c)) = 300000" "already_generated_coins (bc_state c) = 0"
  shows "\<exists>v. validate_block sample_env c sample_genesis [] 0 = Some (Inr v)"
proof -
  obtain bid where b: "block_id sample_genesis = Some bid" using sample_genesis_id by blast
  have h: "bc_height sample_env c = 0" using assms(1) by (simp add: bc_height_def sample_env_simps)
  have hf: "bc_hardfork c = HardFork_new Mainnet" "bc_checkpoints c = Checkpoints_new Mainnet"
    using assms(2) by (simp_all add: on_network_def)
  have sg: "major_version (header sample_genesis) = 7" "vout (tx_prefix (miner_tx sample_genesis)) = []"
    by (simp_all add: sample_genesis_def)
  have "recent_timestamps sample_env c 7 = Inr []"
    by (simp add: recent_timestamps_def h timestamp_check_window_def BLOCKCHAIN_TIMESTAMP_CHECK_WINDOW_def)
  then have pl: "check_place sample_env c sample_genesis bid 0 = Inr ()"
    by (simp add: check_place_def Let_def h assms(1) sample_env_simps hf hf_check_def mainnet_first hard_fork_vote_def
        current_version_def sample_genesis_def check_block_timestamp_def saturating_add_def future_time_limit_def
        timestamp_check_window_def timestamp_constants)
  have u: "chain_unlock_time sample_env c 0 7 = Some (Inr 60)"
    by (simp add: chain_unlock_time_def HF_VERSION_DYNAMIC_UNLOCK_def HF_VERSION_FIXED_UNLOCK_def coinbase_unlock_time_def
        MINED_MONEY_UNLOCK_WINDOW_def)
  have p: "prevalidate_miner_tx zl_dalek sample_genesis 7 0 60 = Inr ()"
    by (simp add: prevalidate_miner_tx_def check_miner_signature_def gates_HF_VERSION_BLOCK_HEADER_MINER_SIG_def check_coinbase_iff)
      (simp add: sample_genesis_def targets_ok_def)
  have t: "check_transactions sample_env c sample_genesis [] 0 0 = Inr 0"
    by (simp add: check_transactions_def sample_genesis_def)
  have w: "get_block_reward 300000 7 0 7 = Inr 17592186044415"
    by (simp add: get_block_reward_eq get_min_block_weight_def BLOCK_GRANTED_FULL_REWARD_ZONE_V5_def
        base_reward_def emission_shift MONEY_SUPPLY_def drop_bit_eq_div Let_def)
  have m: "validate_miner_reward 7 17592186044415 0 0 = Inr \<lparr>adjusted_base_reward = 0, partial = True\<rparr>"
    by (simp add: validate_miner_reward_def checked_add_def checked_sub_def HF_VERSION_EXACT_COINBASE_def)
  have r: "\<exists>v. check_rest sample_env c sample_genesis [] 0 1 = Some (Inr v)"
    using w m by (simp add: check_rest_def sg h u p t sample_genesis_weight sample_env_simps assms(3,4) Let_def)
  show ?thesis
    using pl r b by (auto simp: validate_block_def Let_def h chain_next_difficulty_def check_pow_def sample_env_simps
        check_content_def hf mainnet_first)
qed

lemma default_state_fields:
  assumes "ChainState_default = Some st"
  shows "wl_median (weights st) = 300000" "already_generated_coins st = 0"
proof -
  obtain w where "st = \<lparr>weights = \<lparr>wl_median = BLOCK_GRANTED_FULL_REWARD_ZONE_V5, wl_limit = BLOCK_GRANTED_FULL_REWARD_ZONE_V5 * 2,
        long_term_effective_median = None\<rparr>, long_term = w, recent_weights = [], already_generated_coins = 0,
      cumulative_difficulty = 0, difficulty_window = []\<rparr>"
    using assms unfolding ChainState_default_def map_option_eq_Some by metis
  then show "wl_median (weights st) = 300000" "already_generated_coins st = 0"
    by (simp_all add: BLOCK_GRANTED_FULL_REWARD_ZONE_V5_def)
qed

lemma sample_env_laws:
  "store_laws (en_db sample_env) (\<lambda>d. d) list_ok" "store_total (en_db sample_env) (\<lambda>d. d) list_ok" "list_ok []"
proof -
  have D: "en_db sample_env = list_db" by (simp add: sample_env_def)
  show "store_laws (en_db sample_env) (\<lambda>d. d) list_ok" unfolding D by (rule list_db_laws)
  show "store_total (en_db sample_env) (\<lambda>d. d) list_ok" unfolding D by (rule list_db_total)
  show "list_ok []" by (simp add: list_ok_def)
qed

lemma sample_chain:
  "\<exists>c. chain_reach sample_env [] Mainnet c \<and> map sd_block (bc_db c) = [sample_genesis]"
proof -
  have D: "en_db sample_env = list_db" by (simp add: sample_env_def)
  note laws = sample_env_laws(1,2) and ok = sample_env_laws(3)
  obtain c where c: "Blockchain_new sample_env [] Mainnet = Some (Inr (), c)" "bc_db c = []"
    using new_returns [OF laws ok] by blast
  note n = Blockchain_new_cases [OF c(1)]
  obtain st where st: "ChainState_default = Some st" using default_state by blast
  obtain c0 where c0: "bc_db c0 = []" "bc_hardfork c0 = bc_hardfork c" "reload_value sample_env c0 = Some (Inr (bc_state c))"
    using n(3) by blast
  have ca: "cached (bc_hardfork c) [] (bc_state c)"
    using reload_cached [OF laws(1) _ c0(3)] c0(1,2) ok by simp
  have "reload_value sample_env c0 = Some (Inr st)"
    unfolding reload_value_def st by (simp add: bc_height_def c0(1) sample_env_simps)
  with c0(3) have "bc_state c = st" by simp
  then have s: "wl_median (weights (bc_state c)) = 300000" "already_generated_coins (bc_state c) = 0"
    using default_state_fields [OF st] by simp_all
  obtain v where v: "validate_block sample_env c sample_genesis [] 0 = Some (Inr v)"
    using sample_genesis_valid [OF c(2) n(1) s] by blast
  obtain bid where b: "block_id sample_genesis = Some bid" using sample_genesis_id by blast
  define i where "i = \<lparr>bi_height = 0, bi_timestamp = timestamp (header sample_genesis), bi_coins = vd_coins v, bi_weight = vd_weight v,
    bi_cumulative_difficulty = cumulative_difficulty (bc_state c) + vd_difficulty v, bi_hash = bid, bi_cum_rct = 0,
    bi_long_term_block_weight = vd_long_term_weight v\<rparr>"
  let ?e = "\<lparr>sd_info = i, sd_block = sample_genesis, sd_txs = []\<rparr>"
  have h: "bc_height sample_env c = 0" using c(2) by (simp add: bc_height_def sample_env_simps)
  obtain st' where a: "advance_state (bc_hardfork c) 0 sample_genesis v (bc_state c) = Some st'"
    using advance_cached [OF ca, of 0 i sample_genesis v ?e] by (auto simp: i_def)
  have "db_add_block (en_db sample_env) [] sample_genesis [] (vd_weight v) (vd_long_term_weight v)
      (cumulative_difficulty (bc_state c) + vd_difficulty v) (vd_coins v) [] = (Inr 0, [?e])"
    by (simp add: D list_db_def b i_def)
  then have "chain_add_block sample_env sample_genesis [] [] 0 c = Some (Inr (MainChain 0), c\<lparr>bc_db := [?e], bc_state := st'\<rparr>)"
    using v a by (simp add: chain_add_block_def commit_block_def h c(2) Let_def)
  moreover have "have_block sample_env c bid = Inr False"
    by (simp add: have_block_def c(2) sample_env_simps) (simp add: sample_env_def list_db_def)
  ultimately have "handle_block sample_env sample_genesis [] [] 0 c = Some (Inr (MainChain 0), c\<lparr>bc_db := [?e], bc_state := st'\<rparr>)"
    by (simp add: handle_block_def b top_hash_def h)
  moreover have V: "sample_env\<lparr>en_verify := None\<rparr> = sample_env" by (simp add: sample_env_def)
  ultimately have "chain_reach sample_env [] Mainnet (c\<lparr>bc_db := [?e], bc_state := st'\<rparr>)"
    using chain_reach.block [OF chain_reach.start [OF c(1)], of None] unfolding V by blast
  then show ?thesis by (intro exI) auto
qed

theorem reachable_cache_coherent_witness:
  "\<exists>c. chain_reach sample_env [] Mainnet c \<and> map sd_block (bc_db c) = [sample_genesis] \<and>
    cached (HardFork_new Mainnet) (bc_db c) (bc_state c)"
proof -
  obtain c where c: "chain_reach sample_env [] Mainnet c" "map sd_block (bc_db c) = [sample_genesis]"
    using sample_chain by (elim exE conjE)
  note w = reachable_cache_coherent [OF sample_env_laws c(1)]
  show ?thesis by (intro exI conjI) (rule c(1), rule c(2), rule w)
qed

theorem reachable_chain_sound_witness:
  "\<exists>c. chain_reach sample_env [] Mainnet c \<and> map sd_block (bc_db c) = [sample_genesis] \<and>
    chain_sound (HardFork_new Mainnet) (Checkpoints_new Mainnet) (bc_db c)"
proof -
  obtain c where c: "chain_reach sample_env [] Mainnet c" "map sd_block (bc_db c) = [sample_genesis]"
    using sample_chain by (elim exE conjE)
  note w = reachable_chain_sound [OF sample_env_laws(1,3) chain_sound_Nil c(1)]
  show ?thesis by (intro exI conjI) (rule c(1), rule c(2), rule w)
qed

theorem pop_blocks_keeps_genesis_witness:
  "\<exists>k c c'. map sd_block (bc_db c) = [sample_genesis] \<and> pop_blocks sample_env 5 c = Some (Inr k, c') \<and> k = 0 \<and> bc_db c' = bc_db c"
proof -
  obtain c where c: "chain_reach sample_env [] Mainnet c" "map sd_block (bc_db c) = [sample_genesis]"
    using sample_chain by (elim exE conjE)
  have l: "length (bc_db c) = 1" using arg_cong [OF c(2), of length] by (simp only: length_map list.size)
  then have "list_ok (bc_db c)" by (simp add: list_ok_def)
  from pop_blocks_keeps_genesis [OF sample_env_laws(1,2) this, of 5] obtain k c' where
    k: "pop_blocks sample_env 5 c = Some (Inr k, c')" "unat k = min (unat (5 :: u64)) (length (bc_db c) - 1)"
      "bc_db c' = take (length (bc_db c) - unat k) (bc_db c)"
    by (elim exE conjE)
  have "k = 0" using k(2) by (simp add: l unat_eq_zero)
  moreover from this have "bc_db c' = bc_db c" using k(3) by simp
  ultimately show ?thesis using c(2) k(1) by (intro exI conjI)
qed

end
