(* ===== verification/Lmdb.thy ===== *)
theory Lmdb
  imports Records Hashes RctOps BlockWeight
begin

text \<open>
  The block store, \<open>crates/wow-storage/src/lmdb.rs\<close> with \<open>semantics.rs\<close> and the sizes of \<open>env.rs\<close>.
  The LMDB engine is a C library behind \<open>raw.rs\<close>. Its calls are a record argument, and what the
  code relies on of it are the laws of the theory \<open>LmdbInv\<close>: a transaction sees a set of entries
  per table, a put replaces or inserts one, a delete removes, a commit makes the set the
  environment's. A transaction is a value; an operation that writes returns the next one. A failed
  operation has no next value, because the code abandons the transaction then.

  The operations of the trait are methods of \<open>LmdbDb\<close>; those that write go through \<open>write\<close>, which
  grows the map and runs the body in one transaction, twice if the first run found the map full.
  A panic (an undecodable built-in point in \<open>zero_commit\<close>) is the outcome \<open>Panic\<close>.
\<close>

section \<open>Output rules\<close>

definition INDEXING_BASE :: u64 where "INDEXING_BASE = 0"

datatype TxSlot = MinerSlot | BlockSlot usize

definition transaction_order :: "usize \<Rightarrow> TxSlot list" where
  "transaction_order num_block_txs = MinerSlot # map BlockSlot [0 ..< num_block_txs]"

definition next_amount_index :: "u64 \<Rightarrow> u64" where
  "next_amount_index existing_outputs_of_amount = existing_outputs_of_amount + INDEXING_BASE"

record StoredOutput =
  so_amount :: u64
  so_commitment :: "EcPoint option"

datatype 'e failure = Panic | Err 'e

fun stored_outputs_loop ::
  "('s, 'p::ab_group_add) dalek \<Rightarrow> Transaction \<Rightarrow> bool \<Rightarrow> usize \<Rightarrow> TxOut list \<Rightarrow> StoreError failure + StoredOutput list" where
  "stored_outputs_loop C tx is_miner i [] = Inr []"
| "stored_outputs_loop C tx is_miner i (x # xs) =
     and_then
       (if is_miner \<and> version (tx_prefix tx) = 2 then
          (case zero_commit C (out_amount x) of
             None \<Rightarrow> Inl Panic
           | Some c \<Rightarrow> Inr \<lparr>so_amount = 0, so_commitment = Some c\<rparr>)
        else if 1 < version (tx_prefix tx) then
          and_then (ok_or (list_get (out_pk (rct_signatures tx)) i) (Err (MissingOutPk i))) (\<lambda>mask.
          and_then (if rct_ty (rct_signatures tx) = RctBulletproofPlus
                    then ok_or (scalarmult8 C mask) (Err (UndecodableCommitment i)) else Inr mask) (\<lambda>c.
          Inr \<lparr>so_amount = out_amount x, so_commitment = Some c\<rparr>))
        else Inr \<lparr>so_amount = out_amount x, so_commitment = None\<rparr>) (\<lambda>so.
     and_then (stored_outputs_loop C tx is_miner (Suc i) xs) (\<lambda>sos. Inr (so # sos)))"

definition stored_outputs :: "('s, 'p::ab_group_add) dalek \<Rightarrow> Transaction \<Rightarrow> StoreError failure + StoredOutput list" where
  "stored_outputs C tx =
     (let is_miner = (case vin (tx_prefix tx) of Gen _ # _ \<Rightarrow> True | _ \<Rightarrow> False)
      in stored_outputs_loop C tx is_miner 0 (vout (tx_prefix tx)))"

definition spent_key_images :: "Transaction \<Rightarrow> bytes list" where
  "spent_key_images tx =
     List.map_filter (\<lambda>i. case i of ToKey _ _ k_image \<Rightarrow> Some k_image | _ \<Rightarrow> None) (vin (tx_prefix tx))"

definition split_tx_blob :: "bytes \<Rightarrow> usize \<Rightarrow> (bytes \<times> bytes) option" where
  "split_tx_blob blob usz = (if usz \<le> length blob then Some (take usz blob, drop usz blob) else None)"

section \<open>The engine\<close>

record MapInfo =
  mi_map_size :: u64
  mi_last_pgno :: u64
  mi_page_size :: u64

record ('e, 't) lmdb =
  lm_read_txn :: "'e \<Rightarrow> LmdbError + 't"
  lm_write_txn :: "'e \<Rightarrow> LmdbError + 't"
  lm_commit :: "'t \<Rightarrow> LmdbError + 'e"
  lm_entries :: "'t \<Rightarrow> Db \<Rightarrow> LmdbError + u64"
  lm_get :: "'t \<Rightarrow> Db \<Rightarrow> bytes \<Rightarrow> LmdbError + bytes option"
  lm_get_both :: "'t \<Rightarrow> Db \<Rightarrow> bytes \<Rightarrow> bytes \<Rightarrow> LmdbError + bytes option"
  lm_set :: "'t \<Rightarrow> Db \<Rightarrow> bytes \<Rightarrow> LmdbError + bool"
  lm_count :: "'t \<Rightarrow> Db \<Rightarrow> bytes \<Rightarrow> LmdbError + u64"
  lm_put :: "'t \<Rightarrow> Db \<Rightarrow> bytes \<Rightarrow> bytes \<Rightarrow> LmdbError + 't"
  lm_del :: "'t \<Rightarrow> Db \<Rightarrow> bytes \<Rightarrow> bytes option \<Rightarrow> LmdbError + bool \<times> 't"
  lm_clear_db :: "'t \<Rightarrow> Db \<Rightarrow> LmdbError + 't"
  lm_size_info :: "'e \<Rightarrow> LmdbError + MapInfo"
  lm_holds_txn :: "'e \<Rightarrow> bool"
  lm_set_map_size :: "'e \<Rightarrow> u64 \<Rightarrow> LmdbError + 'e"
  lm_available_space :: "'e \<Rightarrow> u64 option"
  lm_over_ninety :: "u64 \<Rightarrow> u64 \<Rightarrow> bool"

definition MDB_NOTFOUND :: int where "MDB_NOTFOUND = - 30798"
definition MDB_MAP_FULL :: int where "MDB_MAP_FULL = - 30792"

definition from_lmdb :: "LmdbError \<Rightarrow> DbError" where
  "from_lmdb e = (if lmdb_code e = MDB_NOTFOUND then NotFound else DbBackend (BackendLmdb e))"

text \<open>The question mark on an engine call and on a record decoder.\<close>

definition engine :: "LmdbError + 'a \<Rightarrow> DbError failure + 'a" where
  "engine r = (case r of Inl e \<Rightarrow> Inl (Err (from_lmdb e)) | Inr x \<Rightarrow> Inr x)"

definition decoded :: "RecordError + 'a \<Rightarrow> DbError failure + 'a" where
  "decoded r = (case r of Inl e \<Rightarrow> Inl (Err (DbRecord e)) | Inr x \<Rightarrow> Inr x)"

definition found :: "'a option \<Rightarrow> DbError failure + 'a" where
  "found r = ok_or r (Err NotFound)"

section \<open>Reading inside a transaction\<close>

definition block_info_in :: "('e, 't) lmdb \<Rightarrow> 't \<Rightarrow> u64 \<Rightarrow> DbError failure + BlockInfo" where
  "block_info_in L t height =
     and_then (engine (lm_get_both L t T_block_info ZEROKEY (u64_to_le_bytes height))) (\<lambda>r.
     and_then (found r) (\<lambda>raw. decoded (BlockInfo_decode raw)))"

definition block_height_in :: "('e, 't) lmdb \<Rightarrow> 't \<Rightarrow> Hash256 \<Rightarrow> DbError failure + u64" where
  "block_height_in L t h =
     and_then (engine (lm_get_both L t T_block_heights ZEROKEY h)) (\<lambda>r.
     and_then (found r) (\<lambda>raw.
     and_then (decoded (BlockHeight_decode raw)) (\<lambda>b. Inr (bh_height b))))"

definition tx_index_in :: "('e, 't) lmdb \<Rightarrow> 't \<Rightarrow> Hash256 \<Rightarrow> DbError failure + TxIndex" where
  "tx_index_in L t h =
     and_then (engine (lm_get_both L t T_tx_indices ZEROKEY h)) (\<lambda>r.
     and_then (found r) (\<lambda>raw. decoded (TxIndex_decode raw)))"

section \<open>The writer\<close>

definition add_output ::
  "('e, 't) lmdb \<Rightarrow> 't \<Rightarrow> Hash256 \<Rightarrow> u64 \<Rightarrow> bytes \<Rightarrow> u64 \<Rightarrow> u64 \<Rightarrow> u64 \<Rightarrow> bytes option \<Rightarrow> DbError failure + u64 \<times> 't" where
  "add_output L t tx_hash amount pubkey local_index unlock height cmt =
     and_then (engine (lm_entries L t T_output_txs)) (\<lambda>output_id.
     let outtx = \<lparr>ot_output_id = output_id, ot_tx_hash = tx_hash, ot_local_index = local_index\<rparr> in
     and_then (engine (lm_put L t T_output_txs ZEROKEY (OutTx_encode outtx))) (\<lambda>t.
     and_then (engine (lm_set L t T_output_amounts (u64_to_le_bytes amount))) (\<lambda>there.
     and_then (if there then engine (lm_count L t T_output_amounts (u64_to_le_bytes amount)) else Inr 0) (\<lambda>existing.
     let amount_index = next_amount_index existing;
         rec = \<lparr>ok_amount_index = amount_index, ok_output_id = output_id, ok_pubkey = pubkey,
                ok_unlock_time = unlock, ok_height = height, ok_commitment = cmt\<rparr> in
     and_then (engine (lm_put L t T_output_amounts (u64_to_le_bytes amount) (OutKey_encode rec))) (\<lambda>t.
     Inr (amount_index, t))))))"

fun put_key_images :: "('e, 't) lmdb \<Rightarrow> 't \<Rightarrow> bytes list \<Rightarrow> DbError failure + 't" where
  "put_key_images L t [] = Inr t"
| "put_key_images L t (ki # kis) =
     and_then (engine (lm_put L t T_spent_keys ZEROKEY ki)) (\<lambda>t. put_key_images L t kis)"

text \<open>The loop over the stored outputs; \<open>i\<close> is the index of the head.\<close>

fun add_outputs ::
  "('e, 't) lmdb \<Rightarrow> 't \<Rightarrow> Hash256 \<Rightarrow> Transaction \<Rightarrow> u64 \<Rightarrow> usize \<Rightarrow> StoredOutput list \<Rightarrow> DbError failure + u64 list \<times> 't" where
  "add_outputs L t tx_hash tx height i [] = Inr ([], t)"
| "add_outputs L t tx_hash tx height i (so # sos) =
     and_then (found (Option.bind (list_get (vout (tx_prefix tx)) i) (\<lambda>x. TxOutTarget_public_key (out_target x)))) (\<lambda>pubkey.
     and_then (add_output L t tx_hash (so_amount so) pubkey (word_of_nat i) (unlock_time (tx_prefix tx)) height
       (so_commitment so)) (\<lambda>(amount_index, t).
     and_then (add_outputs L t tx_hash tx height (Suc i) sos) (\<lambda>(ixs, t). Inr (amount_index # ixs, t))))"

definition store_failed :: "StoreError failure + 'a \<Rightarrow> DbError failure + 'a" where
  "store_failed r = (case r of Inl Panic \<Rightarrow> Inl Panic | Inl (Err e) \<Rightarrow> Inl (Err (DbBackend (StoreFailed e))) | Inr x \<Rightarrow> Inr x)"

definition add_transaction ::
  "('s, 'p::ab_group_add) dalek \<Rightarrow> ('e, 't) lmdb \<Rightarrow> 't \<Rightarrow> u64 \<Rightarrow> Transaction \<Rightarrow> bytes \<Rightarrow> DbError failure + 't" where
  "add_transaction C L t height tx blob =
     and_then (ok_or (transaction_hash_from_blob tx blob)
       (Err (DbBackend (OffsetMismatch (length blob) (prefix_size tx) (unprunable_size tx))))) (\<lambda>tx_hash.
     and_then (put_key_images L t (spent_key_images tx)) (\<lambda>t.
     and_then (engine (lm_entries L t T_txs_pruned)) (\<lambda>tx_id.
     let key = u64_to_le_bytes tx_id in
     and_then (ok_or (split_tx_blob blob (unprunable_size tx))
       (Err (DbRecord (WrongLength (unprunable_size tx) (length blob))))) (\<lambda>(prn, prunable).
     and_then (engine (lm_put L t T_txs_pruned key prn)) (\<lambda>t.
     and_then (engine (lm_put L t T_txs_prunable key prunable)) (\<lambda>t.
     and_then (case (if 1 < version (tx_prefix tx) then tx_prunable_hash_from_blob tx blob else None) of
                 Some h \<Rightarrow> engine (lm_put L t T_txs_prunable_hash key h) | None \<Rightarrow> Inr t) (\<lambda>t.
     let idx = \<lparr>ti_key = tx_hash, ti_tx_id = tx_id, ti_unlock_time = unlock_time (tx_prefix tx), ti_block_id = height\<rparr> in
     and_then (engine (lm_put L t T_tx_indices ZEROKEY (TxIndex_encode idx))) (\<lambda>t.
     and_then (store_failed (stored_outputs C tx)) (\<lambda>stored.
     and_then (add_outputs L t tx_hash tx height 0 stored) (\<lambda>(ixs, t).
     engine (lm_put L t T_tx_outputs key (encode_tx_outputs ixs))))))))))))"

fun add_transactions ::
  "('s, 'p::ab_group_add) dalek \<Rightarrow> ('e, 't) lmdb \<Rightarrow> 't \<Rightarrow> u64 \<Rightarrow> (Transaction \<times> bytes) list \<Rightarrow> DbError failure + 't" where
  "add_transactions C L t height [] = Inr t"
| "add_transactions C L t height ((tx, blob) # txs) =
     and_then (add_transaction C L t height tx blob) (\<lambda>t. add_transactions C L t height txs)"

definition writer_add_block ::
  "('s, 'p::ab_group_add) dalek \<Rightarrow> ('e, 't) lmdb \<Rightarrow> Block \<Rightarrow> bytes \<Rightarrow> u64 \<Rightarrow> u64 \<Rightarrow> u128 \<Rightarrow> u64 \<Rightarrow>
     (Transaction \<times> bytes) list \<Rightarrow> 't \<Rightarrow> DbError failure + u64 \<times> 't" where
  "writer_add_block C L blk blk_blob block_weight long_term_block_weight cumdiff coins_generated txs t =
     and_then (engine (lm_entries L t T_blocks)) (\<lambda>height.
     and_then (found (block_id blk)) (\<lambda>block_hash.
     and_then (if 0 < height then and_then (block_info_in L t (height - 1)) (\<lambda>i. Inr (bi_cum_rct i)) else Inr 0) (\<lambda>previous_cum_rct.
     let cum_rct = cumulative_rct_outputs height (major_version (header blk)) (version (tx_prefix (miner_tx blk)))
           (length (vout (tx_prefix (miner_tx blk))))
           (map (\<lambda>(tx, _). (version (tx_prefix tx), length (vout (tx_prefix tx)))) txs) previous_cum_rct;
         miner_blob = Transaction_write [] (miner_tx blk) in
     and_then (add_transaction C L t height (miner_tx blk) miner_blob) (\<lambda>t.
     and_then (add_transactions C L t height txs) (\<lambda>t.
     and_then (engine (lm_put L t T_blocks (u64_to_le_bytes height) blk_blob)) (\<lambda>t.
     let info = \<lparr>bi_height = height, bi_timestamp = timestamp (header blk), bi_coins = coins_generated,
                 bi_weight = block_weight, bi_cumulative_difficulty = cumdiff, bi_hash = block_hash,
                 bi_cum_rct = cum_rct, bi_long_term_block_weight = long_term_block_weight\<rparr> in
     and_then (engine (lm_put L t T_block_info ZEROKEY (BlockInfo_encode info))) (\<lambda>t.
     and_then (engine (lm_put L t T_block_heights ZEROKEY
       (BlockHeight_encode \<lparr>bh_hash = block_hash, bh_height = height\<rparr>))) (\<lambda>t.
     and_then (engine (lm_put L t T_hf_versions (u64_to_le_bytes height) [major_version (header blk)])) (\<lambda>t.
     Inr (height, t))))))))))"

section \<open>Removing\<close>

definition engine_del :: "('e, 't) lmdb \<Rightarrow> 't \<Rightarrow> Db \<Rightarrow> bytes \<Rightarrow> bytes option \<Rightarrow> DbError failure + 't" where
  "engine_del L t T k v = and_then (engine (lm_del L t T k v)) (\<lambda>(_, t). Inr t)"

text \<open>The body of \<open>for i in (0..stored.len()).rev()\<close>.\<close>

definition remove_output ::
  "('e, 't) lmdb \<Rightarrow> StoredOutput list \<Rightarrow> u64 list \<Rightarrow> usize \<Rightarrow> 't \<Rightarrow> DbError failure + 't" where
  "remove_output L stored indices i t =
     (let amount = u64_to_le_bytes (so_amount (stored ! i)) in
      and_then (found (list_get indices i)) (\<lambda>amount_index.
      and_then (engine (lm_get_both L t T_output_amounts amount (u64_to_le_bytes amount_index))) (\<lambda>r.
      and_then (found r) (\<lambda>raw.
      and_then (decoded (OutKey_decode raw)) (\<lambda>out.
      and_then (engine (lm_entries L t T_output_txs)) (\<lambda>tot.
      if ok_output_id out + 1 \<noteq> tot then
        Inl (Err (DbBackend (TipMismatch ''pop_block: output_id is not the last one'' (tot - 1) (ok_output_id out))))
      else
      and_then (engine_del L t T_output_amounts amount (Some (OutKey_encode out))) (\<lambda>t.
      and_then (engine (lm_get_both L t T_output_txs ZEROKEY (u64_to_le_bytes (ok_output_id out)))) (\<lambda>r.
      and_then (found r) (\<lambda>raw.
      and_then (decoded (OutTx_decode raw)) (\<lambda>outtx.
      engine_del L t T_output_txs ZEROKEY (Some (OutTx_encode outtx))))))))))))"

fun remove_outputs ::
  "('e, 't) lmdb \<Rightarrow> StoredOutput list \<Rightarrow> u64 list \<Rightarrow> usize \<Rightarrow> 't \<Rightarrow> DbError failure + 't" where
  "remove_outputs L stored indices 0 t = Inr t"
| "remove_outputs L stored indices (Suc i) t =
     and_then (remove_output L stored indices i t) (\<lambda>t. remove_outputs L stored indices i t)"

fun del_key_images :: "('e, 't) lmdb \<Rightarrow> 't \<Rightarrow> bytes list \<Rightarrow> DbError failure + 't" where
  "del_key_images L t [] = Inr t"
| "del_key_images L t (ki # kis) =
     and_then (engine_del L t T_spent_keys ZEROKEY (Some ki)) (\<lambda>t. del_key_images L t kis)"

definition stored_tx :: "('e, 't) lmdb \<Rightarrow> 't \<Rightarrow> bytes \<Rightarrow> DbError failure + Transaction" where
  "stored_tx L t key =
     and_then (engine (lm_get L t T_txs_pruned key)) (\<lambda>r.
     and_then (found r) (\<lambda>prn.
     and_then (engine (lm_get L t T_txs_prunable key)) (\<lambda>prunable.
     let blob = prn @ (case prunable of Some p \<Rightarrow> p | None \<Rightarrow> []) in
     case from_blob blob of
       Inl _ \<Rightarrow> Inl (Err (DbRecord (WrongLength 0 (length blob))))
     | Inr tx \<Rightarrow> Inr tx)))"

definition remove_transaction ::
  "('s, 'p::ab_group_add) dalek \<Rightarrow> ('e, 't) lmdb \<Rightarrow> Hash256 \<Rightarrow> 't \<Rightarrow> DbError failure + Transaction \<times> 't" where
  "remove_transaction C L tx_hash t =
     and_then (tx_index_in L t tx_hash) (\<lambda>idx.
     let key = u64_to_le_bytes (ti_tx_id idx) in
     and_then (stored_tx L t key) (\<lambda>tx.
     and_then (engine (lm_get L t T_tx_outputs key)) (\<lambda>r.
     and_then (found r) (\<lambda>raw.
     and_then (decoded (decode_tx_outputs raw)) (\<lambda>indices.
     and_then (store_failed (stored_outputs C tx)) (\<lambda>stored.
     and_then (remove_outputs L stored indices (length stored) t) (\<lambda>t.
     and_then (engine_del L t T_tx_outputs key None) (\<lambda>t.
     and_then (engine_del L t T_tx_indices ZEROKEY (Some (TxIndex_encode idx))) (\<lambda>t.
     and_then (engine_del L t T_txs_pruned key None) (\<lambda>t.
     and_then (engine_del L t T_txs_prunable key None) (\<lambda>t.
     and_then (engine_del L t T_txs_prunable_hash key None) (\<lambda>t.
     and_then (del_key_images L t (spent_key_images tx)) (\<lambda>t.
     Inr (tx, t))))))))))))))"

text \<open>The loop over the hashes in reverse; what it pushes is reversed at the end.\<close>

fun remove_transactions ::
  "('s, 'p::ab_group_add) dalek \<Rightarrow> ('e, 't) lmdb \<Rightarrow> Hash256 list \<Rightarrow> 't \<Rightarrow> DbError failure + Transaction list \<times> 't" where
  "remove_transactions C L [] t = Inr ([], t)"
| "remove_transactions C L (h # hs) t =
     and_then (remove_transaction C L h t) (\<lambda>(tx, t).
     and_then (remove_transactions C L hs t) (\<lambda>(txs, t). Inr (tx # txs, t)))"

definition writer_pop_block ::
  "('s, 'p::ab_group_add) dalek \<Rightarrow> ('e, 't) lmdb \<Rightarrow> 't \<Rightarrow> DbError failure + (Block \<times> Transaction list) \<times> 't" where
  "writer_pop_block C L t =
     and_then (engine (lm_entries L t T_blocks)) (\<lambda>height.
     if height = 0 then Inl (Err NotFound)
     else
     let tip = height - 1 in
     and_then (engine (lm_get L t T_blocks (u64_to_le_bytes tip))) (\<lambda>r.
     and_then (found r) (\<lambda>blob.
     and_then (case block_from_blob blob of
                 Inl _ \<Rightarrow> Inl (Err (DbRecord (WrongLength 0 (length blob)))) | Inr b \<Rightarrow> Inr b) (\<lambda>blk.
     and_then (remove_transactions C L (rev (tx_hashes blk)) t) (\<lambda>(popped, t).
     let miner_blob = Transaction_write [] (miner_tx blk) in
     and_then (found (transaction_hash_from_blob (miner_tx blk) miner_blob)) (\<lambda>miner_hash.
     and_then (remove_transaction C L miner_hash t) (\<lambda>(_, t).
     and_then (block_info_in L t tip) (\<lambda>info.
     and_then (engine_del L t T_block_info ZEROKEY (Some (BlockInfo_encode info))) (\<lambda>t.
     and_then (engine_del L t T_block_heights ZEROKEY
       (Some (BlockHeight_encode \<lparr>bh_hash = bi_hash info, bh_height = tip\<rparr>))) (\<lambda>t.
     and_then (engine_del L t T_blocks (u64_to_le_bytes tip) None) (\<lambda>t.
     and_then (engine_del L t T_hf_versions (u64_to_le_bytes tip) None) (\<lambda>t.
     Inr ((blk, rev popped), t)))))))))))))"

section \<open>The map\<close>

definition RESIZE_ADD_SIZE :: u64 where "RESIZE_ADD_SIZE = 2 ^ 30"

text \<open>The comparison of two doubles in the last branch is \<open>lm_over_ninety\<close>.\<close>

definition need_resize :: "(u64 \<Rightarrow> u64 \<Rightarrow> bool) \<Rightarrow> u64 \<Rightarrow> u64 \<Rightarrow> u64 \<Rightarrow> u64 \<Rightarrow> bool" where
  "need_resize over_ninety mapsize page_size last_pgno threshold =
     (let size_used = saturating_mul page_size last_pgno in
      if 0 < threshold then saturating_sub mapsize size_used < threshold
      else if mapsize = 0 then True
      else over_ninety size_used mapsize)"

definition resized_mapsize :: "u64 \<Rightarrow> u64 \<Rightarrow> u64 \<Rightarrow> u64" where
  "resized_mapsize mapsize page_size increase_size =
     (let new = saturating_add mapsize (if 0 < increase_size then increase_size else RESIZE_ADD_SIZE)
      in if 0 < page_size then saturating_add new (new mod page_size) else new)"

definition nearly_full :: "('e, 't) lmdb \<Rightarrow> MapInfo \<Rightarrow> bool" where
  "nearly_full L m = need_resize (lm_over_ninety L) (mi_map_size m) (mi_page_size m) (mi_last_pgno m) 0"

definition is_map_full :: "DbError \<Rightarrow> bool" where
  "is_map_full e = (case e of DbBackend (BackendLmdb l) \<Rightarrow> lmdb_code l = MDB_MAP_FULL | _ \<Rightarrow> False)"

text \<open>\<open>Env::resize\<close>; the gate refuses a thread that holds a transaction.\<close>

definition EINVAL :: int where "EINVAL = 22"

definition env_resize :: "('e, 't) lmdb \<Rightarrow> 'e \<Rightarrow> (MapInfo \<Rightarrow> u64 option) \<Rightarrow> (LmdbError + MapInfo) \<times> 'e" where
  "env_resize L e new_size =
     (if lm_holds_txn L e then
        (Inl \<lparr>lmdb_code = EINVAL, lmdb_op = ''mdb_env_set_mapsize with a transaction open on this thread''\<rparr>, e)
      else case lm_size_info L e of
        Inl err \<Rightarrow> (Inl err, e)
      | Inr now \<Rightarrow>
         (case new_size now of
            None \<Rightarrow> (lm_size_info L e, e)
          | Some sz \<Rightarrow>
             (case lm_set_map_size L e sz of
                Inl err \<Rightarrow> (Inl err, e)
              | Inr e' \<Rightarrow> (lm_size_info L e', e'))))"

definition grow_map :: "('e, 't) lmdb \<Rightarrow> 'e \<Rightarrow> (MapInfo \<Rightarrow> bool) \<Rightarrow> (DbError + unit) \<times> 'e" where
  "grow_map L e wanted =
     (if lm_holds_txn L e then (Inl ResizeWhileOpen, e)
      else case (case lm_available_space L e of
                   Some available \<Rightarrow> if available < RESIZE_ADD_SIZE then Some available else None
                 | None \<Rightarrow> None) of
        Some available \<Rightarrow> (Inl (DbBackend (NoRoomToGrow available RESIZE_ADD_SIZE)), e)
      | None \<Rightarrow>
         (case env_resize L e (\<lambda>m. if \<not> wanted m then None
                 else Some (resized_mapsize (mi_map_size m) (mi_page_size m) 0)) of
            (Inl err, e) \<Rightarrow> (Inl (from_lmdb err), e)
          | (Inr _, e) \<Rightarrow> (Inr (), e)))"

definition grow_if_nearly_full :: "('e, 't) lmdb \<Rightarrow> 'e \<Rightarrow> 'e" where
  "grow_if_nearly_full L e =
     (case lm_size_info L e of
        Inr m \<Rightarrow> if nearly_full L m then snd (grow_map L e (nearly_full L)) else e
      | Inl _ \<Rightarrow> e)"

section \<open>Write transactions\<close>

record 'e LmdbDb =
  ld_env :: 'e
  ld_read_only :: bool

text \<open>\<open>None\<close> is a panic of the body.\<close>

definition write_once :: "('e, 't) lmdb \<Rightarrow> ('t \<Rightarrow> DbError failure + 'a \<times> 't) \<Rightarrow> 'e \<Rightarrow> ((DbError + 'a) \<times> 'e) option" where
  "write_once L f e =
     (case lm_write_txn L e of
        Inl err \<Rightarrow> Some (Inl (from_lmdb err), e)
      | Inr t \<Rightarrow>
         (case f t of
            Inl Panic \<Rightarrow> None
          | Inl (Err x) \<Rightarrow> Some (Inl x, e)
          | Inr (a, t') \<Rightarrow>
             (case lm_commit L t' of
                Inl err \<Rightarrow> Some (Inl (from_lmdb err), e)
              | Inr e' \<Rightarrow> Some (Inr a, e'))))"

definition lmdb_write ::
  "('e, 't) lmdb \<Rightarrow> ('t \<Rightarrow> DbError failure + 'a \<times> 't) \<Rightarrow> 'e LmdbDb \<Rightarrow> ((DbError + 'a) \<times> 'e LmdbDb) option" where
  "lmdb_write L f db =
     (if ld_read_only db then Some (Inl ReadOnly, db)
      else
        let e = grow_if_nearly_full L (ld_env db); upd = map_option (\<lambda>(r, e). (r, db\<lparr>ld_env := e\<rparr>)) in
        case lm_size_info L e of
          Inl err \<Rightarrow> upd (Some (Inl (from_lmdb err), e))
        | Inr m \<Rightarrow>
           (case write_once L f e of
              None \<Rightarrow> None
            | Some (Inl x, e) \<Rightarrow>
                if is_map_full x then
                  (case grow_map L e (\<lambda>m'. mi_map_size m' \<le> mi_map_size m) of
                     (Inr _, e) \<Rightarrow> upd (write_once L f e)
                   | (Inl ResizeWhileOpen, e) \<Rightarrow> upd (Some (Inl x, e))
                   | (Inl g, e) \<Rightarrow> upd (Some (Inl g, e)))
                else upd (Some (Inl x, e))
            | Some (Inr a, e) \<Rightarrow> upd (Some (Inr a, e))))"

definition lmdb_add_block ::
  "('s, 'p::ab_group_add) dalek \<Rightarrow> ('e, 't) lmdb \<Rightarrow> 'e LmdbDb \<Rightarrow> Block \<Rightarrow> bytes \<Rightarrow> u64 \<Rightarrow> u64 \<Rightarrow> u128 \<Rightarrow> u64 \<Rightarrow>
     (Transaction \<times> bytes) list \<Rightarrow> ((DbError + u64) \<times> 'e LmdbDb) option" where
  "lmdb_add_block C L db blk blob w ltw cumdiff coins txs =
     lmdb_write L (writer_add_block C L blk blob w ltw cumdiff coins txs) db"

definition lmdb_pop_block ::
  "('s, 'p::ab_group_add) dalek \<Rightarrow> ('e, 't) lmdb \<Rightarrow> 'e LmdbDb \<Rightarrow> ((DbError + Block \<times> Transaction list) \<times> 'e LmdbDb) option" where
  "lmdb_pop_block C L db = lmdb_write L (writer_pop_block C L) db"

section \<open>Reads\<close>

definition lmdb_read :: "('e, 't) lmdb \<Rightarrow> 'e LmdbDb \<Rightarrow> ('t \<Rightarrow> DbError failure + 'a) \<Rightarrow> DbError failure + 'a" where
  "lmdb_read L db f = and_then (engine (lm_read_txn L (ld_env db))) f"

definition lmdb_height :: "('e, 't) lmdb \<Rightarrow> 'e LmdbDb \<Rightarrow> u64" where
  "lmdb_height L db = (case lmdb_read L db (\<lambda>t. engine (lm_entries L t T_blocks)) of Inr n \<Rightarrow> n | Inl _ \<Rightarrow> 0)"

definition zerokval_exists :: "('e, 't) lmdb \<Rightarrow> 'e LmdbDb \<Rightarrow> Db \<Rightarrow> bytes \<Rightarrow> DbError failure + bool" where
  "zerokval_exists L db T h =
     lmdb_read L db (\<lambda>t. and_then (engine (lm_get_both L t T ZEROKEY h)) (\<lambda>r. Inr (r \<noteq> None)))"

definition lmdb_block_exists :: "('e, 't) lmdb \<Rightarrow> 'e LmdbDb \<Rightarrow> Hash256 \<Rightarrow> DbError failure + bool" where
  "lmdb_block_exists L db h = zerokval_exists L db T_block_heights h"

definition lmdb_tx_exists :: "('e, 't) lmdb \<Rightarrow> 'e LmdbDb \<Rightarrow> Hash256 \<Rightarrow> DbError failure + bool" where
  "lmdb_tx_exists L db h = zerokval_exists L db T_tx_indices h"

definition lmdb_has_key_image :: "('e, 't) lmdb \<Rightarrow> 'e LmdbDb \<Rightarrow> bytes \<Rightarrow> DbError failure + bool" where
  "lmdb_has_key_image L db ki = zerokval_exists L db T_spent_keys ki"

definition lmdb_get_block_info :: "('e, 't) lmdb \<Rightarrow> 'e LmdbDb \<Rightarrow> u64 \<Rightarrow> DbError failure + BlockInfo" where
  "lmdb_get_block_info L db height = lmdb_read L db (\<lambda>t. block_info_in L t height)"

definition lmdb_get_block_hash :: "('e, 't) lmdb \<Rightarrow> 'e LmdbDb \<Rightarrow> u64 \<Rightarrow> DbError failure + Hash256" where
  "lmdb_get_block_hash L db height = and_then (lmdb_get_block_info L db height) (\<lambda>i. Inr (bi_hash i))"

definition lmdb_get_block_timestamp :: "('e, 't) lmdb \<Rightarrow> 'e LmdbDb \<Rightarrow> u64 \<Rightarrow> DbError failure + u64" where
  "lmdb_get_block_timestamp L db height = and_then (lmdb_get_block_info L db height) (\<lambda>i. Inr (bi_timestamp i))"

definition lmdb_get_block_weight :: "('e, 't) lmdb \<Rightarrow> 'e LmdbDb \<Rightarrow> u64 \<Rightarrow> DbError failure + u64" where
  "lmdb_get_block_weight L db height = and_then (lmdb_get_block_info L db height) (\<lambda>i. Inr (bi_weight i))"

definition lmdb_get_block_long_term_weight :: "('e, 't) lmdb \<Rightarrow> 'e LmdbDb \<Rightarrow> u64 \<Rightarrow> DbError failure + u64" where
  "lmdb_get_block_long_term_weight L db height =
     and_then (lmdb_get_block_info L db height) (\<lambda>i. Inr (bi_long_term_block_weight i))"

definition lmdb_get_block_cumulative_difficulty :: "('e, 't) lmdb \<Rightarrow> 'e LmdbDb \<Rightarrow> u64 \<Rightarrow> DbError failure + u128" where
  "lmdb_get_block_cumulative_difficulty L db height =
     and_then (lmdb_get_block_info L db height) (\<lambda>i. Inr (bi_cumulative_difficulty i))"

definition lmdb_get_block_already_generated_coins :: "('e, 't) lmdb \<Rightarrow> 'e LmdbDb \<Rightarrow> u64 \<Rightarrow> DbError failure + u64" where
  "lmdb_get_block_already_generated_coins L db height =
     and_then (lmdb_get_block_info L db height) (\<lambda>i. Inr (bi_coins i))"

definition lmdb_get_block_height :: "('e, 't) lmdb \<Rightarrow> 'e LmdbDb \<Rightarrow> Hash256 \<Rightarrow> DbError failure + u64" where
  "lmdb_get_block_height L db h = lmdb_read L db (\<lambda>t. block_height_in L t h)"

definition lmdb_get_block_blob :: "('e, 't) lmdb \<Rightarrow> 'e LmdbDb \<Rightarrow> u64 \<Rightarrow> DbError failure + bytes" where
  "lmdb_get_block_blob L db height =
     lmdb_read L db (\<lambda>t. and_then (engine (lm_get L t T_blocks (u64_to_le_bytes height))) found)"

fun each :: "('a \<Rightarrow> 'e + 'b) \<Rightarrow> 'a list \<Rightarrow> 'e + 'b list" where
  "each f [] = Inr []"
| "each f (x # xs) = and_then (f x) (\<lambda>y. and_then (each f xs) (\<lambda>ys. Inr (y # ys)))"

definition lmdb_get_block_cumulative_rct_outputs :: "('e, 't) lmdb \<Rightarrow> 'e LmdbDb \<Rightarrow> u64 list \<Rightarrow> DbError failure + u64 list" where
  "lmdb_get_block_cumulative_rct_outputs L db heights =
     lmdb_read L db (\<lambda>t. each (\<lambda>h. and_then (block_info_in L t h) (\<lambda>i. Inr (bi_cum_rct i))) heights)"

definition u64_span :: "u64 \<Rightarrow> u64 \<Rightarrow> u64 list" where
  "u64_span from to = map word_of_nat [unat from ..< unat to]"

definition lmdb_get_long_term_block_weight_median :: "('e, 't) lmdb \<Rightarrow> 'e LmdbDb \<Rightarrow> u64 \<Rightarrow> u64 \<Rightarrow> DbError failure + u64" where
  "lmdb_get_long_term_block_weight_median L db start cnt =
     (if cnt = 0 then Inr 0
      else lmdb_read L db (\<lambda>t.
        and_then (each (\<lambda>h. and_then (block_info_in L t h) (\<lambda>i. Inr (bi_long_term_block_weight i))) (u64_span start (start + cnt)))
          (\<lambda>ws. Inr (long_term_median ws))))"

record TxData =
  td_tx_id :: u64
  td_unlock_time :: u64
  td_block_height :: u64

definition lmdb_get_tx_data :: "('e, 't) lmdb \<Rightarrow> 'e LmdbDb \<Rightarrow> Hash256 \<Rightarrow> DbError failure + TxData" where
  "lmdb_get_tx_data L db h =
     lmdb_read L db (\<lambda>t. and_then (tx_index_in L t h) (\<lambda>idx.
       Inr \<lparr>td_tx_id = ti_tx_id idx, td_unlock_time = ti_unlock_time idx, td_block_height = ti_block_id idx\<rparr>))"

definition lmdb_get_tx_block_height :: "('e, 't) lmdb \<Rightarrow> 'e LmdbDb \<Rightarrow> Hash256 \<Rightarrow> DbError failure + u64" where
  "lmdb_get_tx_block_height L db h = and_then (lmdb_get_tx_data L db h) (\<lambda>d. Inr (td_block_height d))"

definition lmdb_get_tx_blob :: "('e, 't) lmdb \<Rightarrow> 'e LmdbDb \<Rightarrow> Hash256 \<Rightarrow> DbError failure + bytes" where
  "lmdb_get_tx_blob L db h =
     lmdb_read L db (\<lambda>t. and_then (tx_index_in L t h) (\<lambda>idx.
       let key = u64_to_le_bytes (ti_tx_id idx) in
       and_then (engine (lm_get L t T_txs_pruned key)) (\<lambda>r.
       and_then (found r) (\<lambda>prn.
       and_then (engine (lm_get L t T_txs_prunable key)) (\<lambda>p.
       Inr (prn @ (case p of Some p \<Rightarrow> p | None \<Rightarrow> [])))))))"

definition lmdb_get_pruned_tx_blob :: "('e, 't) lmdb \<Rightarrow> 'e LmdbDb \<Rightarrow> Hash256 \<Rightarrow> DbError failure + bytes" where
  "lmdb_get_pruned_tx_blob L db h =
     lmdb_read L db (\<lambda>t. and_then (tx_index_in L t h) (\<lambda>idx.
       and_then (engine (lm_get L t T_txs_pruned (u64_to_le_bytes (ti_tx_id idx)))) found))"

definition lmdb_get_prunable_tx_hash :: "('e, 't) lmdb \<Rightarrow> 'e LmdbDb \<Rightarrow> Hash256 \<Rightarrow> DbError failure + Hash256" where
  "lmdb_get_prunable_tx_hash L db h =
     lmdb_read L db (\<lambda>t. and_then (tx_index_in L t h) (\<lambda>idx.
       and_then (engine (lm_get L t T_txs_prunable_hash (u64_to_le_bytes (ti_tx_id idx)))) (\<lambda>r.
       and_then (found r) (\<lambda>raw.
         if length raw = 32 then Inr raw else Inl (Err (DbRecord (WrongLength 32 (length raw))))))))"

definition lmdb_get_tx_amount_output_indices :: "('e, 't) lmdb \<Rightarrow> 'e LmdbDb \<Rightarrow> u64 \<Rightarrow> usize \<Rightarrow> DbError failure + u64 list list" where
  "lmdb_get_tx_amount_output_indices L db tx_id n =
     lmdb_read L db (\<lambda>t. each (\<lambda>i.
       and_then (engine (lm_get L t T_tx_outputs (u64_to_le_bytes (tx_id + word_of_nat i)))) (\<lambda>r.
       and_then (found r) (\<lambda>raw. decoded (decode_tx_outputs raw)))) [0 ..< n])"

section \<open>Outputs\<close>

definition lmdb_get_num_outputs :: "('e, 't) lmdb \<Rightarrow> 'e LmdbDb \<Rightarrow> u64 \<Rightarrow> DbError failure + u64" where
  "lmdb_get_num_outputs L db amount =
     lmdb_read L db (\<lambda>t. and_then (engine (lm_set L t T_output_amounts (u64_to_le_bytes amount))) (\<lambda>there.
       if \<not> there then Inr 0 else engine (lm_count L t T_output_amounts (u64_to_le_bytes amount))))"

record OutputData =
  od_pubkey :: bytes
  od_unlock_time :: u64
  od_height :: u64
  od_commitment :: "bytes option"

definition output_data ::
  "('s, 'p::ab_group_add) dalek \<Rightarrow> OutKey \<Rightarrow> u64 \<Rightarrow> bool \<Rightarrow> DbError failure + OutputData" where
  "output_data C k amount with_commitment =
     and_then (if \<not> with_commitment then Inr None
               else case ok_commitment k of
                 Some c \<Rightarrow> Inr (Some c)
               | None \<Rightarrow> (case zero_commit C amount of None \<Rightarrow> Inl Panic | Some c \<Rightarrow> Inr (Some c))) (\<lambda>cmt.
     Inr \<lparr>od_pubkey = ok_pubkey k, od_unlock_time = ok_unlock_time k, od_height = ok_height k, od_commitment = cmt\<rparr>)"

definition lmdb_get_output_key ::
  "('s, 'p::ab_group_add) dalek \<Rightarrow> ('e, 't) lmdb \<Rightarrow> 'e LmdbDb \<Rightarrow> u64 \<Rightarrow> u64 \<Rightarrow> bool \<Rightarrow> DbError failure + OutputData" where
  "lmdb_get_output_key C L db amount index with_commitment =
     lmdb_read L db (\<lambda>t.
       and_then (engine (lm_get_both L t T_output_amounts (u64_to_le_bytes amount) (u64_to_le_bytes index))) (\<lambda>r.
       and_then (found r) (\<lambda>raw.
       and_then (decoded (OutKey_decode raw)) (\<lambda>k. output_data C k amount with_commitment))))"

fun output_keys_loop ::
  "('s, 'p::ab_group_add) dalek \<Rightarrow> ('e, 't) lmdb \<Rightarrow> 't \<Rightarrow> u64 list \<Rightarrow> bool \<Rightarrow> usize \<Rightarrow> u64 list \<Rightarrow> DbError failure + OutputData list" where
  "output_keys_loop C L t amounts allow_partial i [] = Inr []"
| "output_keys_loop C L t amounts allow_partial i (off # offs) =
     and_then (if length amounts = 1 then Inr (amounts ! 0) else found (list_get amounts i)) (\<lambda>amount.
     and_then (engine (lm_get_both L t T_output_amounts (u64_to_le_bytes amount) (u64_to_le_bytes off))) (\<lambda>r.
     case r of
       Some raw \<Rightarrow>
         and_then (decoded (OutKey_decode raw)) (\<lambda>k.
         and_then (output_data C k amount True) (\<lambda>x.
         and_then (output_keys_loop C L t amounts allow_partial (Suc i) offs) (\<lambda>xs. Inr (x # xs))))
     | None \<Rightarrow> if allow_partial then output_keys_loop C L t amounts allow_partial (Suc i) offs else Inl (Err NotFound)))"

definition lmdb_get_output_keys ::
  "('s, 'p::ab_group_add) dalek \<Rightarrow> ('e, 't) lmdb \<Rightarrow> 'e LmdbDb \<Rightarrow> u64 list \<Rightarrow> u64 list \<Rightarrow> bool \<Rightarrow> DbError failure + OutputData list" where
  "lmdb_get_output_keys C L db amounts offsets allow_partial =
     lmdb_read L db (\<lambda>t. output_keys_loop C L t amounts allow_partial 0 offsets)"

definition lmdb_get_output_tx_and_index_from_global ::
  "('e, 't) lmdb \<Rightarrow> 'e LmdbDb \<Rightarrow> u64 \<Rightarrow> DbError failure + Hash256 \<times> u64" where
  "lmdb_get_output_tx_and_index_from_global L db output_id =
     lmdb_read L db (\<lambda>t.
       and_then (engine (lm_get_both L t T_output_txs ZEROKEY (u64_to_le_bytes output_id))) (\<lambda>r.
       and_then (found r) (\<lambda>raw.
       and_then (decoded (OutTx_decode raw)) (\<lambda>x. Inr (ot_tx_hash x, ot_local_index x)))))"

definition lmdb_get_output_tx_and_index ::
  "('e, 't) lmdb \<Rightarrow> 'e LmdbDb \<Rightarrow> u64 \<Rightarrow> u64 \<Rightarrow> DbError failure + Hash256 \<times> u64" where
  "lmdb_get_output_tx_and_index L db amount index =
     lmdb_read L db (\<lambda>t.
       and_then (engine (lm_get_both L t T_output_amounts (u64_to_le_bytes amount) (u64_to_le_bytes index))) (\<lambda>r.
       and_then (found r) (\<lambda>raw.
       and_then (decoded (OutKey_decode raw)) (\<lambda>k. lmdb_get_output_tx_and_index_from_global L db (ok_output_id k)))))"

definition lmdb_get_output_distribution :: "('e, 't) lmdb \<Rightarrow> 'e LmdbDb \<Rightarrow> u64 \<Rightarrow> u64 \<Rightarrow> u64 \<Rightarrow> DbError failure + u64 list" where
  "lmdb_get_output_distribution L db amount from to =
     (if amount \<noteq> 0 then Inl (Err NotFound)
      else lmdb_get_block_cumulative_rct_outputs L db (map word_of_nat [unat from ..< Suc (unat to)]))"

section \<open>Versions, the pool and alternative blocks\<close>

definition put_one :: "('e, 't) lmdb \<Rightarrow> Db \<Rightarrow> bytes \<Rightarrow> bytes \<Rightarrow> 't \<Rightarrow> DbError failure + unit \<times> 't" where
  "put_one L T k v t = and_then (engine (lm_put L t T k v)) (\<lambda>t. Inr ((), t))"

definition lmdb_set_hard_fork_version ::
  "('e, 't) lmdb \<Rightarrow> 'e LmdbDb \<Rightarrow> u64 \<Rightarrow> u8 \<Rightarrow> ((DbError + unit) \<times> 'e LmdbDb) option" where
  "lmdb_set_hard_fork_version L db height ver = lmdb_write L (put_one L T_hf_versions (u64_to_le_bytes height) [ver]) db"

definition lmdb_get_hard_fork_version :: "('e, 't) lmdb \<Rightarrow> 'e LmdbDb \<Rightarrow> u64 \<Rightarrow> DbError failure + u8" where
  "lmdb_get_hard_fork_version L db height =
     lmdb_read L db (\<lambda>t. and_then (engine (lm_get L t T_hf_versions (u64_to_le_bytes height))) (\<lambda>r.
       and_then (found r) (\<lambda>raw. found (list_get raw 0))))"

definition lmdb_add_txpool_tx ::
  "('e, 't) lmdb \<Rightarrow> 'e LmdbDb \<Rightarrow> Hash256 \<Rightarrow> bytes \<Rightarrow> TxPoolMeta \<Rightarrow> ((DbError + unit) \<times> 'e LmdbDb) option" where
  "lmdb_add_txpool_tx L db h blob meta =
     lmdb_write L (\<lambda>t. and_then (put_one L T_txpool_meta h (TxPoolMeta_encode meta) t) (\<lambda>(_, t). put_one L T_txpool_blob h blob t)) db"

definition lmdb_update_txpool_tx ::
  "('e, 't) lmdb \<Rightarrow> 'e LmdbDb \<Rightarrow> Hash256 \<Rightarrow> TxPoolMeta \<Rightarrow> ((DbError + unit) \<times> 'e LmdbDb) option" where
  "lmdb_update_txpool_tx L db h meta = lmdb_write L (put_one L T_txpool_meta h (TxPoolMeta_encode meta)) db"

definition lmdb_remove_txpool_tx :: "('e, 't) lmdb \<Rightarrow> 'e LmdbDb \<Rightarrow> Hash256 \<Rightarrow> ((DbError + unit) \<times> 'e LmdbDb) option" where
  "lmdb_remove_txpool_tx L db h =
     lmdb_write L (\<lambda>t. and_then (engine_del L t T_txpool_meta h None) (\<lambda>t.
       and_then (engine_del L t T_txpool_blob h None) (\<lambda>t. Inr ((), t)))) db"

definition lmdb_get_txpool_tx_meta :: "('e, 't) lmdb \<Rightarrow> 'e LmdbDb \<Rightarrow> Hash256 \<Rightarrow> DbError failure + TxPoolMeta" where
  "lmdb_get_txpool_tx_meta L db h =
     lmdb_read L db (\<lambda>t. and_then (engine (lm_get L t T_txpool_meta h)) (\<lambda>r.
       and_then (found r) (\<lambda>raw. decoded (TxPoolMeta_decode raw))))"

definition lmdb_get_txpool_tx_blob :: "('e, 't) lmdb \<Rightarrow> 'e LmdbDb \<Rightarrow> Hash256 \<Rightarrow> DbError failure + bytes" where
  "lmdb_get_txpool_tx_blob L db h = lmdb_read L db (\<lambda>t. and_then (engine (lm_get L t T_txpool_blob h)) found)"

definition lmdb_add_alt_block ::
  "('e, 't) lmdb \<Rightarrow> 'e LmdbDb \<Rightarrow> Hash256 \<Rightarrow> AltBlockData \<Rightarrow> bytes \<Rightarrow> ((DbError + unit) \<times> 'e LmdbDb) option" where
  "lmdb_add_alt_block L db h data blob =
     (let rec = \<lparr>ab_height = alt_height data, ab_cumulative_weight = alt_cumulative_weight data,
                 ab_cumulative_difficulty = alt_cumulative_difficulty data,
                 ab_already_generated_coins = alt_already_generated_coins data, ab_blob = blob\<rparr>
      in lmdb_write L (put_one L T_alt_blocks h (AltBlock_encode rec)) db)"

definition AltBlockData_from :: "AltBlock \<Rightarrow> AltBlockData" where
  "AltBlockData_from a = \<lparr>alt_height = ab_height a, alt_cumulative_weight = ab_cumulative_weight a,
     alt_cumulative_difficulty = ab_cumulative_difficulty a, alt_already_generated_coins = ab_already_generated_coins a\<rparr>"

definition lmdb_get_alt_block :: "('e, 't) lmdb \<Rightarrow> 'e LmdbDb \<Rightarrow> Hash256 \<Rightarrow> DbError failure + AltBlockData \<times> bytes" where
  "lmdb_get_alt_block L db h =
     lmdb_read L db (\<lambda>t. and_then (engine (lm_get L t T_alt_blocks h)) (\<lambda>r.
       and_then (found r) (\<lambda>raw.
       and_then (decoded (AltBlock_decode raw)) (\<lambda>a. Inr (AltBlockData_from a, ab_blob a)))))"

definition lmdb_remove_alt_block :: "('e, 't) lmdb \<Rightarrow> 'e LmdbDb \<Rightarrow> Hash256 \<Rightarrow> ((DbError + unit) \<times> 'e LmdbDb) option" where
  "lmdb_remove_alt_block L db h =
     lmdb_write L (\<lambda>t. and_then (engine_del L t T_alt_blocks h None) (\<lambda>t. Inr ((), t))) db"

definition lmdb_get_alt_block_count :: "('e, 't) lmdb \<Rightarrow> 'e LmdbDb \<Rightarrow> DbError failure + u64" where
  "lmdb_get_alt_block_count L db = lmdb_read L db (\<lambda>t. engine (lm_entries L t T_alt_blocks))"

definition lmdb_drop_alt_blocks :: "('e, 't) lmdb \<Rightarrow> 'e LmdbDb \<Rightarrow> ((DbError + unit) \<times> 'e LmdbDb) option" where
  "lmdb_drop_alt_blocks L db =
     lmdb_write L (\<lambda>t. and_then (engine (lm_clear_db L t T_alt_blocks)) (\<lambda>t. Inr ((), t))) db"

fun correct_loop :: "('e, 't) lmdb \<Rightarrow> u64 \<Rightarrow> u128 list \<Rightarrow> 't \<Rightarrow> DbError failure + unit \<times> 't" where
  "correct_loop L height [] t = Inr ((), t)"
| "correct_loop L height (d # ds) t =
     and_then (block_info_in L t height) (\<lambda>info.
     and_then (engine_del L t T_block_info ZEROKEY (Some (BlockInfo_encode info))) (\<lambda>t.
     and_then (engine (lm_put L t T_block_info ZEROKEY (BlockInfo_encode (info\<lparr>bi_cumulative_difficulty := d\<rparr>)))) (\<lambda>t.
     correct_loop L (height + 1) ds t)))"

definition lmdb_correct_block_cumulative_difficulties ::
  "('e, 't) lmdb \<Rightarrow> 'e LmdbDb \<Rightarrow> u64 \<Rightarrow> u128 list \<Rightarrow> ((DbError + unit) \<times> 'e LmdbDb) option" where
  "lmdb_correct_block_cumulative_difficulties L db start values = lmdb_write L (correct_loop L start values) db"

definition lmdb_resize_barrier :: "('e, 't) lmdb \<Rightarrow> 'e LmdbDb \<Rightarrow> (DbError + unit) \<times> 'e LmdbDb" where
  "lmdb_resize_barrier L db =
     (if ld_read_only db then (Inl ReadOnly, db)
      else case grow_map L (ld_env db) (\<lambda>_. True) of (r, e) \<Rightarrow> (r, db\<lparr>ld_env := e\<rparr>))"

section \<open>Opening\<close>

definition STORE_VERSION :: u32 where "STORE_VERSION = 5"

definition check_version :: "u32 option \<Rightarrow> VersionVerdict" where
  "check_version fnd = (case fnd of None \<Rightarrow> Fresh
     | Some v \<Rightarrow> if v = STORE_VERSION then Current else if v < STORE_VERSION then NeedsMigration v else TooNew v)"

definition is_writable :: "VersionVerdict \<Rightarrow> bool" where
  "is_writable v = (case v of Fresh \<Rightarrow> True | Current \<Rightarrow> True | _ \<Rightarrow> False)"

text \<open>The name \<open>version\<close> in ASCII.\<close>

definition PROPERTY_VERSION :: bytes where "PROPERTY_VERSION = [118, 101, 114, 115, 105, 111, 110]"

definition read_version :: "('e, 't) lmdb \<Rightarrow> 't \<Rightarrow> DbError failure + VersionVerdict" where
  "read_version L t =
     and_then (engine (lm_get L t T_properties (property_key PROPERTY_VERSION))) (\<lambda>r.
     case r of
       None \<Rightarrow> Inr (check_version None)
     | Some v \<Rightarrow> if length v = 4 then Inr (check_version (Some (u32_from_le_bytes v)))
         else Inl (Err (DbRecord (WrongLength 4 (length v)))))"

text \<open>What opening for writing does to the tables: clear the starting heights, write the version
  into a fresh database. The environment after it is committed even when the version is refused.\<close>

definition open_tables_rw :: "('e, 't) lmdb \<Rightarrow> 't \<Rightarrow> DbError failure + VersionVerdict \<times> 't" where
  "open_tables_rw L t =
     and_then (engine (lm_clear_db L t T_hf_starting_heights)) (\<lambda>t.
     and_then (read_version L t) (\<lambda>ver.
     if ver = Fresh then
       and_then (engine (lm_put L t T_properties (property_key PROPERTY_VERSION) (u32_to_le_bytes STORE_VERSION))) (\<lambda>t. Inr (ver, t))
     else Inr (ver, t)))"

definition lmdb_open :: "('e, 't) lmdb \<Rightarrow> bool \<Rightarrow> 'e \<Rightarrow> DbError failure + VersionVerdict \<times> 'e LmdbDb" where
  "lmdb_open L read_only e =
     (if read_only then
        and_then (engine (lm_read_txn L e)) (\<lambda>t.
        and_then (read_version L t) (\<lambda>ver.
        Inr (ver, \<lparr>ld_env = e, ld_read_only = True\<rparr>)))
      else
        let e = (case lm_size_info L e of
                   Inr m \<Rightarrow> if nearly_full L m then snd (grow_map L e (nearly_full L)) else e
                 | Inl _ \<Rightarrow> e) in
        and_then (engine (lm_write_txn L e)) (\<lambda>t.
        and_then (open_tables_rw L t) (\<lambda>(ver, t).
        and_then (engine (lm_commit L t)) (\<lambda>e.
        if \<not> is_writable ver then Inl (Err (DbBackend (VersionError ver)))
        else Inr (ver, \<lparr>ld_env = e, ld_read_only = False\<rparr>)))))"

definition genesis_hash :: "('e, 't) lmdb \<Rightarrow> 'e LmdbDb \<Rightarrow> DbError failure + Hash256 option" where
  "genesis_hash L db =
     lmdb_read L db (\<lambda>t. and_then (engine (lm_entries L t T_blocks)) (\<lambda>n.
       if n = 0 then Inr None else and_then (block_info_in L t 0) (\<lambda>i. Inr (Some (bi_hash i)))))"

definition check_tip :: "('e, 't) lmdb \<Rightarrow> 'e LmdbDb \<Rightarrow> DbError failure + unit" where
  "check_tip L db =
     lmdb_read L db (\<lambda>t. and_then (engine (lm_entries L t T_blocks)) (\<lambda>height.
       if height = 0 then Inr ()
       else
         let tip = height - 1; mismatch = (\<lambda>what expected fnd. Inl (Err (DbBackend (TipMismatch what expected fnd)))) in
         and_then (engine (lm_entries L t T_block_info)) (\<lambda>info_entries.
         if info_entries \<noteq> height then mismatch ''block_info entry count'' height info_entries
         else
         and_then (engine (lm_entries L t T_block_heights)) (\<lambda>heights_entries.
         if heights_entries \<noteq> height then mismatch ''block_heights entry count'' height heights_entries
         else
         and_then (block_info_in L t tip) (\<lambda>info.
         and_then (block_height_in L t (bi_hash info)) (\<lambda>back.
         if back \<noteq> tip then mismatch ''block_heights disagrees about the tip'' tip back
         else Inr ()))))))"

end
