(* ===== verification/LmdbLaws.thy ===== *)
theory LmdbLaws
  imports Lmdb
begin

text \<open>
  What the block store relies on of the LMDB engine. The contents of a transaction are a set of
  entries (table, key, value). A table with duplicates holds one value per key and comparator class,
  the others one value per key; \<open>put_entry\<close> and \<open>del_entry\<close> say what a put and a delete do to the set.
  \<open>txn_laws\<close> and \<open>env_laws\<close> state the documented behaviour of the calls of \<open>raw.rs\<close>: every call may
  fail with an engine error other than not-found, and answers from the set when it does not.
  \<open>outcome\<close> is the weakest precondition of a fallible step: which errors it may end in, and what
  holds of its result.
\<close>

section \<open>Tables as sets\<close>

type_synonym entry = "Db \<times> bytes \<times> bytes"

definition tbl :: "entry set \<Rightarrow> Db \<Rightarrow> (bytes \<times> bytes) set" where
  "tbl D T = {(k, v). (T, k, v) \<in> D}"

definition grp :: "entry set \<Rightarrow> Db \<Rightarrow> bytes \<Rightarrow> bytes set" where
  "grp D T k = {v. (T, k, v) \<in> D}"

definition dup_table :: "Db \<Rightarrow> bool" where
  "dup_table T = (case table_of T of Some tb \<Rightarrow> tb_dup_sort tb | None \<Rightarrow> False)"

definition cmp_equal :: "Cmp \<Rightarrow> bytes \<Rightarrow> bytes \<Rightarrow> bool" where
  "cmp_equal c a b = (case c of
     CmpDefault \<Rightarrow> a = b
   | CmpUint64 \<Rightarrow> compare_uint64 a b = Equal
   | CmpHash32 \<Rightarrow> compare_hash32 a b = Equal
   | CmpString \<Rightarrow> compare_string a b = Equal)"

definition same_dup :: "Db \<Rightarrow> bytes \<Rightarrow> bytes \<Rightarrow> bool" where
  "same_dup T a b = (case table_of T of Some tb \<Rightarrow> cmp_equal (tb_dup_cmp tb) a b | None \<Rightarrow> a = b)"

text \<open>Two values that cannot stand under one key together.\<close>

definition clash :: "Db \<Rightarrow> bytes \<Rightarrow> bytes \<Rightarrow> bool" where
  "clash T a b \<longleftrightarrow> \<not> dup_table T \<or> same_dup T a b"

definition put_entry :: "Db \<Rightarrow> bytes \<Rightarrow> bytes \<Rightarrow> entry set \<Rightarrow> entry set" where
  "put_entry T k v D = insert (T, k, v) {(T', k', v') \<in> D. \<not> (T' = T \<and> k' = k \<and> clash T v v')}"

definition del_entry :: "Db \<Rightarrow> bytes \<Rightarrow> bytes option \<Rightarrow> entry set \<Rightarrow> entry set" where
  "del_entry T k w D =
     {(T', k', v') \<in> D. \<not> (T' = T \<and> k' = k \<and> (case w of None \<Rightarrow> True | Some v \<Rightarrow> same_dup T v v'))}"

text \<open>What the engine documents of a transaction.\<close>

definition quiet :: "LmdbError + 'a \<Rightarrow> bool" where
  "quiet r \<longleftrightarrow> (case r of Inl e \<Rightarrow> lmdb_code e \<noteq> MDB_NOTFOUND | Inr _ \<Rightarrow> True)"

definition read_txn_laws :: "('e, 't) lmdb \<Rightarrow> ('t \<Rightarrow> entry set) \<Rightarrow> 't \<Rightarrow> bool" where
  "read_txn_laws L cont t \<longleftrightarrow>
     finite (cont t) \<and>
     (\<forall>T k v v'. (T, k, v) \<in> cont t \<longrightarrow> (T, k, v') \<in> cont t \<longrightarrow> clash T v v' \<longrightarrow> v = v') \<and>
     (\<forall>T. quiet (lm_entries L t T) \<and> (\<forall>n. lm_entries L t T = Inr n \<longrightarrow> unat n = card (tbl (cont t) T))) \<and>
     (\<forall>T k. quiet (lm_get L t T k) \<and> (\<forall>r. lm_get L t T k = Inr r \<longrightarrow>
        (case r of None \<Rightarrow> grp (cont t) T k = {} | Some v \<Rightarrow> (T, k, v) \<in> cont t))) \<and>
     (\<forall>T k v. quiet (lm_get_both L t T k v) \<and> (\<forall>r. lm_get_both L t T k v = Inr r \<longrightarrow>
        (case r of None \<Rightarrow> \<forall>v' \<in> grp (cont t) T k. \<not> same_dup T v v'
         | Some v' \<Rightarrow> (T, k, v') \<in> cont t \<and> same_dup T v v'))) \<and>
     (\<forall>T k. quiet (lm_set L t T k) \<and> (\<forall>b. lm_set L t T k = Inr b \<longrightarrow> b = (grp (cont t) T k \<noteq> {}))) \<and>
     (\<forall>T k. quiet (lm_count L t T k) \<and> (\<forall>n. lm_count L t T k = Inr n \<longrightarrow> grp (cont t) T k \<noteq> {} \<longrightarrow>
        unat n = card (grp (cont t) T k)))"

definition write_txn_laws :: "('e, 't) lmdb \<Rightarrow> ('t \<Rightarrow> entry set) \<Rightarrow> 't \<Rightarrow> bool" where
  "write_txn_laws L cont t \<longleftrightarrow>
     (\<forall>T k v. quiet (lm_put L t T k v) \<and> (\<forall>t'. lm_put L t T k v = Inr t' \<longrightarrow> cont t' = put_entry T k v (cont t))) \<and>
     (\<forall>T k w. quiet (lm_del L t T k w) \<and> (\<forall>b t'. lm_del L t T k w = Inr (b, t') \<longrightarrow> cont t' = del_entry T k w (cont t))) \<and>
     (\<forall>T t'. lm_clear_db L t T = Inr t' \<longrightarrow> cont t' = {(T', kv) \<in> cont t. T' \<noteq> T})"

definition txn_laws :: "('e, 't) lmdb \<Rightarrow> ('t \<Rightarrow> entry set) \<Rightarrow> bool" where
  "txn_laws L cont \<longleftrightarrow> (\<forall>t. read_txn_laws L cont t \<and> write_txn_laws L cont t)"

text \<open>And of an environment: a transaction starts from what is committed, a commit replaces it, a
  larger map leaves it.\<close>

definition env_laws :: "('e, 't) lmdb \<Rightarrow> ('t \<Rightarrow> entry set) \<Rightarrow> ('e \<Rightarrow> entry set) \<Rightarrow> bool" where
  "env_laws L cont stored \<longleftrightarrow>
     (\<forall>e t. lm_read_txn L e = Inr t \<longrightarrow> cont t = stored e) \<and>
     (\<forall>e t. lm_write_txn L e = Inr t \<longrightarrow> cont t = stored e) \<and>
     (\<forall>t e. lm_commit L t = Inr e \<longrightarrow> stored e = cont t) \<and>
     (\<forall>e n e'. lm_set_map_size L e n = Inr e' \<longrightarrow> stored e' = stored e) \<and>
     (\<forall>e. quiet (lm_read_txn L e) \<and> quiet (lm_write_txn L e) \<and> quiet (lm_size_info L e)) \<and>
     (\<forall>t. quiet (lm_commit L t)) \<and> (\<forall>e n. quiet (lm_set_map_size L e n))"

section \<open>Outcomes\<close>

definition outcome :: "('e \<Rightarrow> bool) \<Rightarrow> 'e + 'a \<Rightarrow> ('a \<Rightarrow> bool) \<Rightarrow> bool" where
  "outcome X r Q = (case r of Inl e \<Rightarrow> X e | Inr x \<Rightarrow> Q x)"

lemma outcome_simps [simp]:
  "outcome X (and_then r f) Q = outcome X r (\<lambda>x. outcome X (f x) Q)"
  "outcome X (Inr x) Q = Q x"
  "outcome X (Inl e) Q = X e"
  by (auto simp: outcome_def and_then_def split: sum.splits)

lemma outcome_mono: "outcome X r P \<Longrightarrow> (\<And>x. P x \<Longrightarrow> Q x) \<Longrightarrow> outcome X r Q"
  by (auto simp: outcome_def split: sum.splits)

lemma outcome_found [simp]: "outcome X (found r) Q = (case r of None \<Rightarrow> X (Err NotFound) | Some x \<Rightarrow> Q x)"
  by (simp add: found_def ok_or_def split: option.split)

lemma outcome_decoded: "dec = Inr x \<Longrightarrow> outcome X (decoded dec) Q = Q x"
  by (simp add: decoded_def)

text \<open>The errors of the engine itself.\<close>

definition is_engine :: "DbError failure \<Rightarrow> bool" where
  "is_engine f \<longleftrightarrow> (\<exists>le. f = Err (DbBackend (BackendLmdb le)))"

definition tolerates :: "(DbError failure \<Rightarrow> bool) \<Rightarrow> bool" where
  "tolerates X \<longleftrightarrow> (\<forall>f. is_engine f \<longrightarrow> X f)"

lemma tolerates_simps [simp]: "tolerates is_engine" "tolerates (\<lambda>_. True)"
  by (simp_all add: tolerates_def)

lemma outcome_engine:
  assumes "tolerates X" "quiet r" "\<And>x. r = Inr x \<Longrightarrow> Q x"
  shows "outcome X (engine r) Q"
  using assms by (auto simp: outcome_def engine_def quiet_def tolerates_def is_engine_def from_lmdb_def split: sum.splits)

lemma txn_lawsD:
  assumes "txn_laws L cont"
  shows "finite (cont t)"
    and "(T, k, v) \<in> cont t \<Longrightarrow> (T, k, v') \<in> cont t \<Longrightarrow> clash T v v' \<Longrightarrow> v = v'"
    and "tolerates X \<Longrightarrow> (\<And>n. unat n = card (tbl (cont t) T) \<Longrightarrow> Q1 n) \<Longrightarrow> outcome X (engine (lm_entries L t T)) Q1"
    and "tolerates X \<Longrightarrow> (\<And>v. (T, k, v) \<in> cont t \<Longrightarrow> Q2 (Some v)) \<Longrightarrow> (grp (cont t) T k = {} \<Longrightarrow> Q2 None) \<Longrightarrow>
      outcome X (engine (lm_get L t T k)) Q2"
    and "tolerates X \<Longrightarrow> (\<And>v'. (T, k, v') \<in> cont t \<Longrightarrow> same_dup T v v' \<Longrightarrow> Q2 (Some v')) \<Longrightarrow>
      (\<forall>v' \<in> grp (cont t) T k. \<not> same_dup T v v' \<Longrightarrow> Q2 None) \<Longrightarrow> outcome X (engine (lm_get_both L t T k v)) Q2"
    and "tolerates X \<Longrightarrow> Q3 (grp (cont t) T k \<noteq> {}) \<Longrightarrow> outcome X (engine (lm_set L t T k)) Q3"
    and "tolerates X \<Longrightarrow> grp (cont t) T k \<noteq> {} \<Longrightarrow> (\<And>n. unat n = card (grp (cont t) T k) \<Longrightarrow> Q1 n) \<Longrightarrow>
      outcome X (engine (lm_count L t T k)) Q1"
    and "tolerates X \<Longrightarrow> (\<And>t'. cont t' = put_entry T k v (cont t) \<Longrightarrow> Q4 t') \<Longrightarrow> outcome X (engine (lm_put L t T k v)) Q4"
    and "tolerates X \<Longrightarrow> (\<And>t'. cont t' = del_entry T k w (cont t) \<Longrightarrow> Q4 t') \<Longrightarrow> outcome X (engine_del L t T k w) Q4"
proof -
  have r: "read_txn_laws L cont t" and w: "write_txn_laws L cont t" using assms by (simp_all add: txn_laws_def)
  note r' = r [unfolded read_txn_laws_def] and w' = w [unfolded write_txn_laws_def]
  note l_fin = r' [THEN conjunct1]
  note l_unq = r' [THEN conjunct2, THEN conjunct1]
  note l_ent = r' [THEN conjunct2, THEN conjunct2, THEN conjunct1]
  note l_get = r' [THEN conjunct2, THEN conjunct2, THEN conjunct2, THEN conjunct1]
  note l_both = r' [THEN conjunct2, THEN conjunct2, THEN conjunct2, THEN conjunct2, THEN conjunct1]
  note l_set = r' [THEN conjunct2, THEN conjunct2, THEN conjunct2, THEN conjunct2, THEN conjunct2, THEN conjunct1]
  note l_cnt = r' [THEN conjunct2, THEN conjunct2, THEN conjunct2, THEN conjunct2, THEN conjunct2, THEN conjunct2]
  note l_put = w' [THEN conjunct1]
  note l_del = w' [THEN conjunct2, THEN conjunct1]
  note l_clr = w' [THEN conjunct2, THEN conjunct2]
  show "finite (cont t)" by (rule l_fin)
  show "(T, k, v) \<in> cont t \<Longrightarrow> (T, k, v') \<in> cont t \<Longrightarrow> clash T v v' \<Longrightarrow> v = v'" using l_unq by blast
  show "outcome X (engine (lm_entries L t T)) Q1" if "tolerates X" "\<And>n. unat n = card (tbl (cont t) T) \<Longrightarrow> Q1 n"
    using l_ent that by (intro outcome_engine) blast+
  show "outcome X (engine (lm_get L t T k)) Q2"
    if q: "tolerates X" "\<And>v. (T, k, v) \<in> cont t \<Longrightarrow> Q2 (Some v)" "grp (cont t) T k = {} \<Longrightarrow> Q2 None"
  proof (rule outcome_engine [OF q(1)])
    show "quiet (lm_get L t T k)" using l_get by blast
    fix x assume "lm_get L t T k = Inr x"
    with l_get have "case x of None \<Rightarrow> grp (cont t) T k = {} | Some v \<Rightarrow> (T, k, v) \<in> cont t" by blast
    with q(2,3) show "Q2 x" by (cases x) simp_all
  qed
  show "outcome X (engine (lm_get_both L t T k v)) Q2"
    if q: "tolerates X" "\<And>v'. (T, k, v') \<in> cont t \<Longrightarrow> same_dup T v v' \<Longrightarrow> Q2 (Some v')"
      "\<forall>v' \<in> grp (cont t) T k. \<not> same_dup T v v' \<Longrightarrow> Q2 None"
  proof (rule outcome_engine [OF q(1)])
    show "quiet (lm_get_both L t T k v)" using l_both by blast
    fix x assume "lm_get_both L t T k v = Inr x"
    with l_both have "case x of None \<Rightarrow> \<forall>v' \<in> grp (cont t) T k. \<not> same_dup T v v' | Some v' \<Rightarrow> (T, k, v') \<in> cont t \<and> same_dup T v v'"
      by blast
    with q(2,3) show "Q2 x" by (cases x) simp_all
  qed
  show "outcome X (engine (lm_set L t T k)) Q3" if q: "tolerates X" "Q3 (grp (cont t) T k \<noteq> {})"
  proof (rule outcome_engine [OF q(1)])
    show "quiet (lm_set L t T k)" using l_set by blast
    fix x assume "lm_set L t T k = Inr x"
    with l_set have "x = (grp (cont t) T k \<noteq> {})" by blast
    with q(2) show "Q3 x" by simp
  qed
  show "outcome X (engine (lm_count L t T k)) Q1"
    if "tolerates X" "grp (cont t) T k \<noteq> {}" "\<And>n. unat n = card (grp (cont t) T k) \<Longrightarrow> Q1 n"
    using l_cnt that by (intro outcome_engine) blast+
  show "outcome X (engine (lm_put L t T k v)) Q4" if "tolerates X" "\<And>t'. cont t' = put_entry T k v (cont t) \<Longrightarrow> Q4 t'"
    using l_put that by (intro outcome_engine) blast+
  show "outcome X (engine_del L t T k w) Q4" if q: "tolerates X" "\<And>t'. cont t' = del_entry T k w (cont t) \<Longrightarrow> Q4 t'"
  proof -
    have "outcome X (engine (lm_del L t T k w)) (\<lambda>p. Q4 (snd p))"
    proof (rule outcome_engine [OF q(1)])
      show "quiet (lm_del L t T k w)" using l_del by blast
      fix x assume "lm_del L t T k w = Inr x"
      with l_del have "cont (snd x) = del_entry T k w (cont t)" by (cases x) simp
      then show "Q4 (snd x)" by (rule q(2))
    qed
    then show ?thesis by (simp add: engine_del_def case_prod_unfold)
  qed
qed

section \<open>The tables of the store\<close>

lemma usize_cmp_Equal [simp]: "usize_cmp a b = Equal \<longleftrightarrow> a = b"
  by (simp add: usize_cmp_def)

lemmas table_simps = table_of_def TABLES_def table_int_def table_int_dup_def table_plain_def

lemma plain_tables [simp]:
  "\<not> dup_table T_blocks" "\<not> dup_table T_txs_pruned" "\<not> dup_table T_txs_prunable" "\<not> dup_table T_tx_outputs"
  "\<not> dup_table T_hf_versions" "\<not> dup_table T_alt_blocks"
  by (simp_all add: dup_table_def table_simps)

lemma dup_tables [simp]:
  "dup_table T_block_info" "dup_table T_block_heights" "dup_table T_txs_prunable_hash" "dup_table T_tx_indices"
  "dup_table T_output_txs" "dup_table T_output_amounts" "dup_table T_spent_keys"
  by (simp_all add: dup_table_def table_simps)

definition key8 :: "bytes \<Rightarrow> nat" where "key8 v = le_nat (take 8 v)"
definition le_key32 :: "bytes \<Rightarrow> nat" where "le_key32 v = le_nat (take 32 v)"

lemma same_dup_simps [simp]:
  "same_dup T_block_info a b \<longleftrightarrow> key8 a = key8 b"
  "same_dup T_output_txs a b \<longleftrightarrow> key8 a = key8 b"
  "same_dup T_output_amounts a b \<longleftrightarrow> key8 a = key8 b"
  "same_dup T_txs_prunable_hash a b \<longleftrightarrow> key8 a = key8 b"
  "same_dup T_block_heights a b \<longleftrightarrow> le_key32 a = le_key32 b"
  "same_dup T_tx_indices a b \<longleftrightarrow> le_key32 a = le_key32 b"
  "same_dup T_spent_keys a b \<longleftrightarrow> le_key32 a = le_key32 b"
  by (simp_all add: same_dup_def table_simps cmp_equal_def compare_uint64_le compare_hash32_le key8_def le_key32_def)

lemma clash_simps [simp]: "\<not> dup_table T \<Longrightarrow> clash T a b" "dup_table T \<Longrightarrow> clash T a b \<longleftrightarrow> same_dup T a b"
  by (simp_all add: clash_def)

lemma key8_u64 [simp]: "key8 (u64_to_le_bytes n @ r) = unat n" "key8 (u64_to_le_bytes n) = unat n"
proof -
  have "le_nat (le_bytes 8 (unat n)) = unat n" using unat_bound [of n] by (simp add: le_nat_le_bytes)
  then show "key8 (u64_to_le_bytes n @ r) = unat n" "key8 (u64_to_le_bytes n) = unat n"
    by (simp_all add: key8_def u64_to_le_bytes_def)
qed

lemma le_key32_append [simp]: "length h = 32 \<Longrightarrow> le_key32 (h @ r) = le_key32 h"
  by (simp add: le_key32_def)

lemma le_key32_inj: "length a = 32 \<Longrightarrow> length b = 32 \<Longrightarrow> le_key32 a = le_key32 b \<longleftrightarrow> a = b"
  by (metis le_key32_def le_bytes_le_nat take_all order_refl)

lemma u64_bytes_inj [simp]: "u64_to_le_bytes a = u64_to_le_bytes b \<longleftrightarrow> a = b"
  by (metis from_to_le_bytes(3))

lemma put_fresh:
  "(\<And>v'. (T, k, v') \<in> D \<Longrightarrow> \<not> clash T v v') \<Longrightarrow> put_entry T k v D = insert (T, k, v) D"
  by (auto simp: put_entry_def)

lemma del_one:
  "same_dup T v v \<Longrightarrow> (\<And>v'. (T, k, v') \<in> D \<Longrightarrow> \<not> same_dup T v v') \<Longrightarrow>
    del_entry T k (Some v) (insert (T, k, v) D) = D"
  by (auto simp: del_entry_def)

lemma del_key: "(\<And>v'. (T, k, v') \<notin> D) \<Longrightarrow> del_entry T k None (insert (T, k, v) D) = D"
  by (auto simp: del_entry_def)

lemma del_absent: "(\<And>v'. (T, k, v') \<notin> D) \<Longrightarrow> del_entry T k None D = D"
  by (auto simp: del_entry_def)

lemma tbl_insert: "tbl (insert (T', k, v) D) T = (if T' = T then insert (k, v) (tbl D T) else tbl D T)"
  and tbl_union: "tbl (D \<union> D') T = tbl D T \<union> tbl D' T"
  and grp_insert: "grp (insert (T', k', v) D) T k = (if T' = T \<and> k' = k then insert v (grp D T k) else grp D T k)"
  and grp_union: "grp (D \<union> D') T k = grp D T k \<union> grp D' T k"
  by (auto simp: tbl_def grp_def)

lemma finite_tbl [intro]: "finite D \<Longrightarrow> finite (tbl D T)"
proof -
  assume "finite D"
  moreover have "tbl D T \<subseteq> (\<lambda>(T, k, v). (k, v)) ` D" by (force simp: tbl_def)
  ultimately show ?thesis by (metis finite_surj)
qed

lemma finite_grp [intro]: "finite D \<Longrightarrow> finite (grp D T k)"
proof -
  assume "finite D"
  moreover have "grp D T k \<subseteq> (\<lambda>(T, k, v). v) ` D" by (force simp: grp_def)
  ultimately show ?thesis by (metis finite_surj)
qed

text \<open>Entries of other tables do not matter to a table.\<close>

definition outside :: "Db set \<Rightarrow> entry set \<Rightarrow> bool" where
  "outside Ts R \<longleftrightarrow> (\<forall>(T, k, v) \<in> R. T \<notin> Ts)"

lemma outside_frame:
  "outside Ts R \<Longrightarrow> T \<in> Ts \<Longrightarrow> tbl (D \<union> R) T = tbl D T"
  "outside Ts R \<Longrightarrow> T \<in> Ts \<Longrightarrow> grp (D \<union> R) T k = grp D T k"
  "outside Ts R \<Longrightarrow> T \<in> Ts \<Longrightarrow> (T, k, v) \<in> R \<Longrightarrow> False"
  by (auto simp: outside_def tbl_def grp_def)

end
