(* ===== verification/LmdbTx.thy ===== *)
theory LmdbTx
  imports LmdbLaws
begin

text \<open>
  The transactions of the store. Storing an output numbers it with the counts of the tables; removing
  outputs in reverse order takes the tables back step by step (\<open>remove_outputs_outcome\<close>). A
  transaction adds exactly \<open>tx_own\<close>, its outputs and its index record (\<open>add_transaction_outcome\<close>), and
  removing it takes exactly these away (\<open>remove_transaction_outcome\<close>), whatever the other tables
  hold (\<open>tx_frame\<close>). The last section lifts both to the transactions of a block.
\<close>

section \<open>Outputs\<close>

text \<open>Output numbers are below the number of outputs, amount indices below the number of outputs of
  the amount.\<close>

definition dense_outputs :: "entry set \<Rightarrow> bool" where
  "dense_outputs D \<longleftrightarrow>
     (\<forall>k v. (T_output_txs, k, v) \<in> D \<longrightarrow> key8 v < card (tbl D T_output_txs)) \<and>
     (\<forall>k v. (T_output_amounts, k, v) \<in> D \<longrightarrow> key8 v < card (grp D T_output_amounts k))"

definition out_pubkey :: "Transaction \<Rightarrow> usize \<Rightarrow> bytes" where
  "out_pubkey tx i = (case TxOutTarget_public_key (out_target (vout (tx_prefix tx) ! i)) of Some k \<Rightarrow> k | None \<Rightarrow> [])"

definition out_tx :: "entry set \<Rightarrow> Hash256 \<Rightarrow> usize \<Rightarrow> OutTx" where
  "out_tx D h i = \<lparr>ot_output_id = word_of_nat (card (tbl D T_output_txs)), ot_tx_hash = h, ot_local_index = word_of_nat i\<rparr>"

definition amount_ix :: "entry set \<Rightarrow> StoredOutput \<Rightarrow> u64" where
  "amount_ix D so = word_of_nat (card (grp D T_output_amounts (u64_to_le_bytes (so_amount so))))"

definition out_rec :: "entry set \<Rightarrow> Transaction \<Rightarrow> u64 \<Rightarrow> usize \<Rightarrow> StoredOutput \<Rightarrow> OutKey" where
  "out_rec D tx height i so = \<lparr>ok_amount_index = amount_ix D so, ok_output_id = word_of_nat (card (tbl D T_output_txs)),
     ok_pubkey = out_pubkey tx i, ok_unlock_time = unlock_time (tx_prefix tx), ok_height = height, ok_commitment = so_commitment so\<rparr>"

definition out_step :: "Hash256 \<Rightarrow> Transaction \<Rightarrow> u64 \<Rightarrow> usize \<Rightarrow> StoredOutput \<Rightarrow> entry set \<Rightarrow> entry set" where
  "out_step h tx height i so D =
     insert (T_output_amounts, u64_to_le_bytes (so_amount so), OutKey_encode (out_rec D tx height i so))
       (insert (T_output_txs, ZEROKEY, OutTx_encode (out_tx D h i)) D)"

primrec out_state :: "Hash256 \<Rightarrow> Transaction \<Rightarrow> u64 \<Rightarrow> StoredOutput list \<Rightarrow> entry set \<Rightarrow> nat \<Rightarrow> entry set" where
  "out_state h tx height sos D 0 = D"
| "out_state h tx height sos D (Suc i) = out_step h tx height i (sos ! i) (out_state h tx height sos D i)"

text \<open>Room for the numbers: what the entry counts of the engine guarantee.\<close>

definition out_room :: "entry set \<Rightarrow> StoredOutput \<Rightarrow> bool" where
  "out_room D so \<longleftrightarrow> card (tbl D T_output_txs) < 2 ^ 64 \<and> card (grp D T_output_amounts (u64_to_le_bytes (so_amount so))) < 2 ^ 64"

definition wf_stored :: "Transaction \<Rightarrow> usize \<Rightarrow> StoredOutput \<Rightarrow> bool" where
  "wf_stored tx i so \<longleftrightarrow> length (out_pubkey tx i) = 32 \<and> (\<forall>c. so_commitment so = Some c \<longrightarrow> length c = 32)"

lemma unat_card: "n < 2 ^ 64 \<Longrightarrow> unat (word_of_nat n :: u64) = n"
  by simp

lemma out_step_keys:
  assumes "length h = 32" "wf_stored tx i so" "out_room D so"
  shows "key8 (OutTx_encode (out_tx D h i)) = card (tbl D T_output_txs)"
    "key8 (OutKey_encode (out_rec D tx height i so)) = card (grp D T_output_amounts (u64_to_le_bytes (so_amount so)))"
    "wf_out_key (out_rec D tx height i so)"
proof -
  show w: "wf_out_key (out_rec D tx height i so)" using assms(2) by (simp add: wf_out_key_def out_rec_def wf_stored_def)
  show "key8 (OutTx_encode (out_tx D h i)) = card (tbl D T_output_txs)"
    using assms(1,3) by (simp add: OutTx_layout out_tx_def out_room_def)
  show "key8 (OutKey_encode (out_rec D tx height i so)) = card (grp D T_output_amounts (u64_to_le_bytes (so_amount so)))"
    using assms(3) by (simp add: OutKey_layout [OF w]) (simp add: out_rec_def amount_ix_def out_room_def)
qed

lemma dense_fresh:
  assumes "dense_outputs D"
  shows "key8 v = card (tbl D T_output_txs) \<Longrightarrow> (T_output_txs, k, v') \<in> D \<Longrightarrow> key8 v \<noteq> key8 v'"
    "key8 v = card (grp D T_output_amounts k) \<Longrightarrow> (T_output_amounts, k, v') \<in> D \<Longrightarrow> key8 v \<noteq> key8 v'"
  using assms unfolding dense_outputs_def by (metis less_irrefl)+

lemma out_step_cards:
  assumes "finite D" "dense_outputs D" "length h = 32" "wf_stored tx i so" "out_room D so"
  shows "card (tbl (out_step h tx height i so D) T_output_txs) = Suc (card (tbl D T_output_txs))"
    "card (grp (out_step h tx height i so D) T_output_amounts k) =
       (if k = u64_to_le_bytes (so_amount so) then Suc (card (grp D T_output_amounts k)) else card (grp D T_output_amounts k))"
    "dense_outputs (out_step h tx height i so D)"
proof -
  note k = out_step_keys [OF assms(3,4,5)]
  have n1: "(ZEROKEY, OutTx_encode (out_tx D h i)) \<notin> tbl D T_output_txs"
    using dense_fresh(1) [OF assms(2) k(1)] by (auto simp: tbl_def)
  have n2: "OutKey_encode (out_rec D tx height i so) \<notin> grp D T_output_amounts (u64_to_le_bytes (so_amount so))"
    using dense_fresh(2) [OF assms(2) k(2)] by (auto simp: grp_def)
  show c1: "card (tbl (out_step h tx height i so D) T_output_txs) = Suc (card (tbl D T_output_txs))"
    using n1 assms(1) by (simp add: out_step_def tbl_insert finite_tbl)
  show c2: "card (grp (out_step h tx height i so D) T_output_amounts k) =
       (if k = u64_to_le_bytes (so_amount so) then Suc (card (grp D T_output_amounts k)) else card (grp D T_output_amounts k))" for k
    using n2 assms(1) by (auto simp: out_step_def grp_insert finite_grp)
  show "dense_outputs (out_step h tx height i so D)"
    unfolding dense_outputs_def c1 c2
  proof (intro conjI allI impI)
    fix q v assume "(T_output_txs, q, v) \<in> out_step h tx height i so D"
    then show "key8 v < Suc (card (tbl D T_output_txs))"
      using assms(2) k(1) by (auto simp: out_step_def dense_outputs_def less_Suc_eq)
  next
    fix q v assume "(T_output_amounts, q, v) \<in> out_step h tx height i so D"
    then show "key8 v < (if q = u64_to_le_bytes (so_amount so) then Suc (card (grp D T_output_amounts q)) else card (grp D T_output_amounts q))"
      using assms(2) k(2) by (auto simp: out_step_def dense_outputs_def less_Suc_eq)
  qed
qed

lemma put_out_tx:
  assumes "dense_outputs D" "length h = 32" "card (tbl D T_output_txs) < 2 ^ 64"
  shows "put_entry T_output_txs ZEROKEY (OutTx_encode (out_tx D h i)) D = insert (T_output_txs, ZEROKEY, OutTx_encode (out_tx D h i)) D"
proof (rule put_fresh)
  fix v' assume v: "(T_output_txs, ZEROKEY, v') \<in> D"
  have "key8 (OutTx_encode (out_tx D h i)) = card (tbl D T_output_txs)" using assms(2,3) by (simp add: OutTx_layout out_tx_def)
  from dense_fresh(1) [OF assms(1) this v] show "\<not> clash T_output_txs (OutTx_encode (out_tx D h i)) v'" by simp
qed

lemma put_out_rec:
  assumes "dense_outputs D" "length h = 32" "wf_stored tx i so" "out_room D so"
  shows "put_entry T_output_amounts (u64_to_le_bytes (so_amount so)) (OutKey_encode (out_rec D tx height i so))
     (insert (T_output_txs, ZEROKEY, OutTx_encode (out_tx D h i)) D) = out_step h tx height i so D"
  unfolding out_step_def
  by (rule put_fresh) (use dense_fresh(2) [OF assms(1) out_step_keys(2) [OF assms(2-4)]] in auto)

lemma add_output_outcome:
  assumes "txn_laws L cont" "tolerates X" "dense_outputs (cont t)" "length h = 32" "wf_stored tx i so"
    "\<And>t'. out_room (cont t) so \<Longrightarrow> cont t' = out_step h tx height i so (cont t) \<Longrightarrow> Q (amount_ix (cont t) so, t')"
  shows "outcome X (add_output L t h (so_amount so) (out_pubkey tx i) (word_of_nat i) (unlock_time (tx_prefix tx)) height
    (so_commitment so)) Q"
proof -
  let ?D = "cont t" and ?a = "u64_to_le_bytes (so_amount so)"
  note L = txn_lawsD [OF assms(1)]
  have put2: "outcome X (engine (lm_put L t1 T_output_amounts ?a (OutKey_encode \<lparr>ok_amount_index = next_amount_index ex, ok_output_id = oid,
       ok_pubkey = out_pubkey tx i, ok_unlock_time = unlock_time (tx_prefix tx), ok_height = height, ok_commitment = so_commitment so\<rparr>)))
       (\<lambda>t2. Q (next_amount_index ex, t2))"
    if oid: "unat oid = card (tbl ?D T_output_txs)" and ex: "unat ex = card (grp ?D T_output_amounts ?a)"
      and t1: "cont t1 = insert (T_output_txs, ZEROKEY, OutTx_encode (out_tx ?D h i)) ?D" for oid ex :: u64 and t1
  proof -
    have room: "out_room ?D so" using oid ex unat_bound [of oid] unat_bound [of ex] by (simp add: out_room_def)
    have ix: "next_amount_index ex = amount_ix ?D so"
      by (simp add: next_amount_index_def INDEXING_BASE_def amount_ix_def flip: ex)
    have rc: "\<lparr>ok_amount_index = next_amount_index ex, ok_output_id = oid, ok_pubkey = out_pubkey tx i,
        ok_unlock_time = unlock_time (tx_prefix tx), ok_height = height, ok_commitment = so_commitment so\<rparr> = out_rec ?D tx height i so"
      by (simp add: out_rec_def ix flip: oid)
    show ?thesis unfolding rc
      by (rule L(8) [OF assms(2)]) (simp add: ix t1 put_out_rec [OF assms(3-5) room] assms(6) [OF room])
  qed
  show ?thesis unfolding add_output_def Let_def outcome_simps
  proof (rule L(3) [OF assms(2)])
    fix oid :: u64 assume oid: "unat oid = card (tbl ?D T_output_txs)"
    have o: "\<lparr>ot_output_id = oid, ot_tx_hash = h, ot_local_index = word_of_nat i\<rparr> = out_tx ?D h i"
      by (simp add: out_tx_def flip: oid)
    have "card (tbl ?D T_output_txs) < 2 ^ 64" using oid unat_bound [of oid] by simp
    note f1 = put_out_tx [OF assms(3,4) this]
    show "outcome X (engine (lm_put L t T_output_txs ZEROKEY (OutTx_encode \<lparr>ot_output_id = oid, ot_tx_hash = h, ot_local_index = word_of_nat i\<rparr>)))
      (\<lambda>t1. outcome X (engine (lm_set L t1 T_output_amounts ?a)) (\<lambda>there.
         outcome X (if there then engine (lm_count L t1 T_output_amounts ?a) else Inr 0) (\<lambda>ex.
         outcome X (engine (lm_put L t1 T_output_amounts ?a (OutKey_encode \<lparr>ok_amount_index = next_amount_index ex, ok_output_id = oid,
           ok_pubkey = out_pubkey tx i, ok_unlock_time = unlock_time (tx_prefix tx), ok_height = height, ok_commitment = so_commitment so\<rparr>)))
           (\<lambda>t2. Q (next_amount_index ex, t2)))))"
      unfolding o
      apply (rule L(8) [OF assms(2)])
      subgoal premises t1 for t1
      proof -
        have g: "grp (cont t1) T_output_amounts ?a = grp ?D T_output_amounts ?a" by (simp add: t1 f1 grp_insert)
        note p = put2 [OF oid _ t1 [unfolded f1]]
        show ?thesis
          by (rule L(6) [OF assms(2)], cases "grp ?D T_output_amounts ?a = {}")
            (auto simp: g intro!: p L(7) [OF assms(2)])
      qed
      done
  qed
qed

definition out_indices :: "Hash256 \<Rightarrow> Transaction \<Rightarrow> u64 \<Rightarrow> StoredOutput list \<Rightarrow> entry set \<Rightarrow> nat \<Rightarrow> u64 list" where
  "out_indices h tx height sos D i = map (\<lambda>j. amount_ix (out_state h tx height sos D j) (sos ! j)) [i ..< length sos]"

text \<open>The outputs of a transaction can be stored one after the other.\<close>

definition storable :: "Hash256 \<Rightarrow> Transaction \<Rightarrow> StoredOutput list \<Rightarrow> bool" where
  "storable h tx sos \<longleftrightarrow> length h = 32 \<and> length sos \<le> length (vout (tx_prefix tx)) \<and> (\<forall>i < length sos. wf_stored tx i (sos ! i))"

lemma storable_pubkey:
  assumes "storable h tx sos" "i < length sos"
  shows "Option.bind (list_get (vout (tx_prefix tx)) i) (\<lambda>x. TxOutTarget_public_key (out_target x)) = Some (out_pubkey tx i)"
  using assms by (auto simp: storable_def wf_stored_def out_pubkey_def split: option.splits)

lemma add_outputs_outcome:
  assumes "txn_laws L cont" "tolerates X" "storable h tx sos"
    "cont t = out_state h tx height sos D i" "dense_outputs (cont t)" "i \<le> length sos"
    "\<And>t'. cont t' = out_state h tx height sos D (length sos) \<Longrightarrow> dense_outputs (cont t') \<Longrightarrow>
       (\<And>j. i \<le> j \<Longrightarrow> j < length sos \<Longrightarrow> out_room (out_state h tx height sos D j) (sos ! j)) \<Longrightarrow>
       Q (out_indices h tx height sos D i, t')"
  shows "outcome X (add_outputs L t h tx height i (drop i sos)) Q"
  using assms(4-7)
proof (induction "length sos - i" arbitrary: i t Q)
  case 0
  then show ?case by (simp add: out_indices_def)
next
  case (Suc n)
  then have i: "i < length sos" by simp
  then have d: "drop i sos = sos ! i # drop (Suc i) sos" by (simp add: Cons_nth_drop_Suc)
  have w: "wf_stored tx i (sos ! i)" and l: "length h = 32" using assms(3) i by (simp_all add: storable_def)
  note fin = txn_lawsD(1) [OF assms(1)]
  show ?case
    unfolding d add_outputs.simps outcome_simps outcome_found storable_pubkey [OF assms(3) i] option.case
  proof (rule add_output_outcome [OF assms(1,2) Suc.prems(2) l w])
    fix t' assume room: "out_room (cont t) (sos ! i)" and t': "cont t' = out_step h tx height i (sos ! i) (cont t)"
    have s: "cont t' = out_state h tx height sos D (Suc i)" by (simp add: t' Suc.prems(1))
    have dn: "dense_outputs (cont t')" unfolding t' by (rule out_step_cards(3) [OF fin Suc.prems(2) l w room])
    have "outcome X (add_outputs L t' h tx height (Suc i) (drop (Suc i) sos)) (\<lambda>p. Q (amount_ix (cont t) (sos ! i) # fst p, snd p))"
    proof (rule Suc.hyps(1) [OF _ s dn])
      show "n = length sos - Suc i" "Suc i \<le> length sos" using Suc.hyps(2) i by simp_all
      fix t'' assume t'': "cont t'' = out_state h tx height sos D (length sos)" "dense_outputs (cont t'')"
        "\<And>j. Suc i \<le> j \<Longrightarrow> j < length sos \<Longrightarrow> out_room (out_state h tx height sos D j) (sos ! j)"
      have "out_room (out_state h tx height sos D j) (sos ! j)" if "i \<le> j" "j < length sos" for j
        using that t''(3) room Suc.prems(1) by (cases "i = j") simp_all
      from Suc.prems(4) [OF t''(1,2) this]
      show "Q (amount_ix (cont t) (sos ! i) # fst (out_indices h tx height sos D (Suc i), t''), snd (out_indices h tx height sos D (Suc i), t''))"
        using i by (simp add: out_indices_def upt_conv_Cons Suc.prems(1))
    qed
    then show "outcome X (case (amount_ix (cont t) (sos ! i), t') of (amount_index, t) \<Rightarrow>
        and_then (add_outputs L t h tx height (Suc i) (drop (Suc i) sos)) (\<lambda>(ixs, t). Inr (amount_index # ixs, t))) Q"
      by (simp add: case_prod_unfold)
  qed
qed


section \<open>Removing outputs\<close>

lemma get_both_one:
  assumes "txn_laws L cont" "tolerates X" "cont t = insert (T, k, v) D" "same_dup T w v"
    "\<And>v'. (T, k, v') \<in> D \<Longrightarrow> \<not> same_dup T w v'" "Q (Some v)"
  shows "outcome X (engine (lm_get_both L t T k w)) Q"
proof (rule txn_lawsD(5) [OF assms(1,2)])
  fix v' assume "(T, k, v') \<in> cont t" "same_dup T w v'"
  with assms(3,5) have "v' = v" by auto
  with assms(6) show "Q (Some v')" by simp
next
  assume "\<forall>v' \<in> grp (cont t) T k. \<not> same_dup T w v'"
  with assms(3,4) show "Q None" by (simp add: grp_insert)
qed

lemma remove_output_outcome:
  assumes "txn_laws L cont" "tolerates X" "length h = 32" "wf_stored tx i (sos ! i)" "out_room D (sos ! i)" "dense_outputs D" "finite D"
    "cont t = out_step h tx height i (sos ! i) D" "i < length ixs" "ixs ! i = amount_ix D (sos ! i)"
    "\<And>t'. cont t' = D \<Longrightarrow> Q t'"
  shows "outcome X (remove_output L sos ixs i t) Q"
proof -
  let ?so = "sos ! i" and ?a = "u64_to_le_bytes (so_amount (sos ! i))"
  let ?rec = "out_rec D tx height i (sos ! i)" and ?otx = "out_tx D h i"
  let ?D1 = "insert (T_output_txs, ZEROKEY, OutTx_encode ?otx) D"
  note k = out_step_keys [OF assms(3,4,5)] and L = txn_lawsD [OF assms(1)]
  note f1 = dense_fresh(1) [OF assms(6) k(1)] and f2 = dense_fresh(2) [OF assms(6) k(2)]
  have ix: "unat (amount_ix D ?so) = card (grp D T_output_amounts ?a)" using assms(5) by (simp add: amount_ix_def out_room_def)
  have oid: "unat (ok_output_id ?rec) = card (tbl D T_output_txs)" using assms(5) by (simp add: out_rec_def out_room_def)
  have S: "cont t = insert (T_output_amounts, ?a, OutKey_encode ?rec) ?D1" by (simp add: assms(8) out_step_def)
  have last: "outcome X (and_then (engine (lm_get_both L t1 T_output_txs ZEROKEY (u64_to_le_bytes (ok_output_id ?rec)))) (\<lambda>r.
      and_then (found r) (\<lambda>raw. and_then (decoded (OutTx_decode raw)) (\<lambda>outtx.
      engine_del L t1 T_output_txs ZEROKEY (Some (OutTx_encode outtx)))))) Q" if t1: "cont t1 = ?D1" for t1
    unfolding outcome_simps
  proof (rule get_both_one [OF assms(1,2) t1])
    show "same_dup T_output_txs (u64_to_le_bytes (ok_output_id ?rec)) (OutTx_encode ?otx)" by (simp add: k oid)
    show "\<not> same_dup T_output_txs (u64_to_le_bytes (ok_output_id ?rec)) v'" if "(T_output_txs, ZEROKEY, v') \<in> D" for v'
      using f1 [OF that] by (simp add: k oid)
    have d: "del_entry T_output_txs ZEROKEY (Some (OutTx_encode ?otx)) ?D1 = D" by (rule del_one) (use f1 in auto)
    have "OutTx_decode (OutTx_encode ?otx) = Inr ?otx" using assms(3) by (intro out_tx.dec_enc) (simp add: out_tx_def)
    then show "outcome X (found (Some (OutTx_encode ?otx))) (\<lambda>raw. outcome X (decoded (OutTx_decode raw))
        (\<lambda>outtx. outcome X (engine_del L t1 T_output_txs ZEROKEY (Some (OutTx_encode outtx))) Q))"
      by (simp add: outcome_decoded) (rule L(9) [OF assms(2)], simp add: t1 d assms(11))
  qed
  have e1: "same_dup T_output_amounts (u64_to_le_bytes (amount_ix D ?so)) (OutKey_encode ?rec)" by (simp add: k ix)
  have e2: "\<not> same_dup T_output_amounts (u64_to_le_bytes (amount_ix D ?so)) v'" if "(T_output_amounts, ?a, v') \<in> ?D1" for v'
    using f2 that by (simp add: k ix)
  have d: "del_entry T_output_amounts ?a (Some (OutKey_encode ?rec)) (cont t) = ?D1"
    unfolding S by (rule del_one) (use f2 in auto)
  have c: "card (tbl (cont t) T_output_txs) = Suc (card (tbl D T_output_txs))"
    unfolding assms(8) by (rule out_step_cards(1) [OF assms(7,6,3,4,5)])
  have tot: "ok_output_id ?rec + 1 = n" if "unat n = card (tbl (cont t) T_output_txs)" for n :: u64
  proof -
    have "of_nat (unat n) = (of_nat (Suc (unat (ok_output_id ?rec))) :: u64)" by (simp only: that oid c)
    then show ?thesis by simp
  qed
  show ?thesis unfolding remove_output_def Let_def
    apply (simp only: assms(10) list_get_in_range [OF assms(9)] outcome_simps outcome_found option.case)
    apply (rule get_both_one [OF assms(1,2) S e1 e2], assumption)
    apply (simp only: outcome_simps outcome_found option.case outcome_decoded [OF out_key.dec_enc [OF k(3)]])
    apply (rule L(3) [OF assms(2)])
    subgoal premises p for n
      apply (simp only: tot [OF p] simp_thms if_False outcome_simps)
      apply (rule L(9) [OF assms(2)])
      apply (rule last [unfolded outcome_simps], simp only: d)
      done
    done
qed


definition outs_room :: "Hash256 \<Rightarrow> Transaction \<Rightarrow> u64 \<Rightarrow> StoredOutput list \<Rightarrow> entry set \<Rightarrow> bool" where
  "outs_room h tx height sos D \<longleftrightarrow> (\<forall>j < length sos. out_room (out_state h tx height sos D j) (sos ! j))"

lemma out_state_inv:
  assumes "storable h tx sos" "finite D" "dense_outputs D" "outs_room h tx height sos D" "n \<le> length sos"
  shows "finite (out_state h tx height sos D n) \<and> dense_outputs (out_state h tx height sos D n)"
  using assms(5)
proof (induction n)
  case (Suc n)
  then have i: "finite (out_state h tx height sos D n)" "dense_outputs (out_state h tx height sos D n)" and n: "n < length sos" by simp_all
  have "wf_stored tx n (sos ! n)" "length h = 32" "out_room (out_state h tx height sos D n) (sos ! n)"
    using assms(1,4) n by (simp_all add: storable_def outs_room_def)
  with out_step_cards(3) [OF i] i(1) show ?case by (simp add: out_step_def)
qed (use assms(2,3) in simp)

lemma out_indices_0:
  "length (out_indices h tx height sos D 0) = length sos"
  "i < length sos \<Longrightarrow> out_indices h tx height sos D 0 ! i = amount_ix (out_state h tx height sos D i) (sos ! i)"
  by (simp_all add: out_indices_def)

lemma remove_outputs_outcome:
  assumes "txn_laws L cont" "tolerates X" "storable h tx sos" "finite D" "dense_outputs D" "outs_room h tx height sos D"
    "cont t = out_state h tx height sos D n" "n \<le> length sos" "\<And>t'. cont t' = D \<Longrightarrow> Q t'"
  shows "outcome X (remove_outputs L sos (out_indices h tx height sos D 0) n t) Q"
  using assms(7-)
proof (induction n arbitrary: t)
  case (Suc n)
  then have n: "n < length sos" by simp
  note inv = out_state_inv [OF assms(3-6), of n]
  have w: "wf_stored tx n (sos ! n)" "length h = 32" "out_room (out_state h tx height sos D n) (sos ! n)"
    using assms(3,6) n by (simp_all add: storable_def outs_room_def)
  show ?case unfolding remove_outputs.simps outcome_simps
    by (rule remove_output_outcome [OF assms(1,2) w(2,1,3)])
      (use inv n Suc.prems in \<open>auto simp: out_indices_0 intro: Suc.IH\<close>)
qed simp

text \<open>What other tables hold does not matter to the outputs.\<close>

lemma outputs_frame:
  assumes "outside {T_output_txs, T_output_amounts} R"
  shows "out_state h tx height sos (D \<union> R) n = out_state h tx height sos D n \<union> R"
    and "out_room (D \<union> R) so = out_room D so"
    and "dense_outputs (D \<union> R) = dense_outputs D"
    and "amount_ix (D \<union> R) so = amount_ix D so"
proof -
  note f = outside_frame(1,2) [OF assms, of T_output_txs, simplified] outside_frame(1,2) [OF assms, of T_output_amounts, simplified]
  note g = outside_frame(3) [OF assms, of T_output_txs, simplified] outside_frame(3) [OF assms, of T_output_amounts, simplified]
  show "out_state h tx height sos (D \<union> R) n = out_state h tx height sos D n \<union> R"
    by (induction n) (simp_all add: out_step_def out_rec_def out_tx_def amount_ix_def f)
  show "out_room (D \<union> R) so = out_room D so" by (simp add: out_room_def f)
  show "dense_outputs (D \<union> R) = dense_outputs D" unfolding dense_outputs_def f using g by blast
  show "amount_ix (D \<union> R) so = amount_ix D so" by (simp add: amount_ix_def f)
qed

lemma outs_frame:
  assumes "outside {T_output_txs, T_output_amounts} R"
  shows "outs_room h tx height sos (D \<union> R) = outs_room h tx height sos D"
    and "out_indices h tx height sos (D \<union> R) i = out_indices h tx height sos D i"
  by (simp_all add: outs_room_def out_indices_def outputs_frame [OF assms])

lemma out_state_other:
  "T \<notin> {T_output_txs, T_output_amounts} \<Longrightarrow> (T, k, v) \<in> out_state h tx height sos D n \<longleftrightarrow> (T, k, v) \<in> D"
  by (induction n) (auto simp: out_step_def)

section \<open>A transaction\<close>

text \<open>What is stored of a transaction: itself, its bytes, its hash and its outputs as the output
  tables have them.\<close>

record stored_item =
  it_tx :: Transaction
  it_blob :: bytes
  it_hash :: Hash256
  it_outs :: "StoredOutput list"

definition next_tx :: "entry set \<Rightarrow> u64" where
  "next_tx D = word_of_nat (card (tbl D T_txs_pruned))"

definition prunable_part :: "stored_item \<Rightarrow> Hash256 option" where
  "prunable_part x = (if 1 < version (tx_prefix (it_tx x)) then tx_prunable_hash_from_blob (it_tx x) (it_blob x) else None)"

definition tx_own :: "u64 \<Rightarrow> stored_item \<Rightarrow> u64 \<Rightarrow> entry set" where
  "tx_own height x n =
     (let key = u64_to_le_bytes n in
      {(T_tx_indices, ZEROKEY, TxIndex_encode \<lparr>ti_key = it_hash x, ti_tx_id = n,
         ti_unlock_time = unlock_time (tx_prefix (it_tx x)), ti_block_id = height\<rparr>),
       (T_txs_pruned, key, take (unprunable_size (it_tx x)) (it_blob x)),
       (T_txs_prunable, key, drop (unprunable_size (it_tx x)) (it_blob x))} \<union>
      (\<lambda>p. (T_txs_prunable_hash, key, p)) ` set_option (prunable_part x) \<union>
      (\<lambda>ki. (T_spent_keys, ZEROKEY, ki)) ` set (spent_key_images (it_tx x)))"

definition tx_after :: "u64 \<Rightarrow> stored_item \<Rightarrow> entry set \<Rightarrow> entry set" where
  "tx_after height x D =
     insert (T_tx_outputs, u64_to_le_bytes (next_tx D), encode_tx_outputs (out_indices (it_hash x) (it_tx x) height (it_outs x) D 0))
       (out_state (it_hash x) (it_tx x) height (it_outs x) (D \<union> tx_own height x (next_tx D)) (length (it_outs x)))"

definition dense_txs :: "entry set \<Rightarrow> bool" where
  "dense_txs D \<longleftrightarrow>
     (\<forall>T k v. (T, k, v) \<in> D \<longrightarrow> T \<in> {T_txs_pruned, T_txs_prunable, T_txs_prunable_hash, T_tx_outputs} \<longrightarrow>
        key8 k < card (tbl D T_txs_pruned)) \<and>
     (\<forall>ki. (T_spent_keys, ZEROKEY, ki) \<in> D \<longrightarrow> length ki = 32)"

definition fresh_item :: "stored_item \<Rightarrow> entry set \<Rightarrow> bool" where
  "fresh_item x D \<longleftrightarrow> (\<forall>v. (T_tx_indices, ZEROKEY, v) \<in> D \<longrightarrow> le_key32 v \<noteq> le_key32 (it_hash x)) \<and>
     (\<forall>ki \<in> set (spent_key_images (it_tx x)). (T_spent_keys, ZEROKEY, ki) \<notin> D)"

definition wf_item :: "('s, 'p::ab_group_add) dalek \<Rightarrow> stored_item \<Rightarrow> bool" where
  "wf_item C x \<longleftrightarrow> from_blob (it_blob x) = Inr (it_tx x) \<and> unprunable_size (it_tx x) \<le> length (it_blob x) \<and>
     transaction_hash_from_blob (it_tx x) (it_blob x) = Some (it_hash x) \<and> stored_outputs C (it_tx x) = Inr (it_outs x) \<and>
     storable (it_hash x) (it_tx x) (it_outs x) \<and> (\<forall>ki \<in> set (spent_key_images (it_tx x)). length ki = 32)"

definition tx_room :: "u64 \<Rightarrow> stored_item \<Rightarrow> entry set \<Rightarrow> bool" where
  "tx_room height x D \<longleftrightarrow> card (tbl D T_txs_pruned) < 2 ^ 64 \<and> outs_room (it_hash x) (it_tx x) height (it_outs x) D"

lemma put_key_images_outcome:
  assumes "txn_laws L cont" "tolerates X" "\<And>ki. (T_spent_keys, ZEROKEY, ki) \<in> cont t \<Longrightarrow> length ki = 32"
    "\<forall>ki \<in> set kis. length ki = 32" "\<And>t'. cont t' = cont t \<union> (\<lambda>ki. (T_spent_keys, ZEROKEY, ki)) ` set kis \<Longrightarrow> Q t'"
  shows "outcome X (put_key_images L t kis) Q"
  using assms(3-)
proof (induction kis arbitrary: t)
  case (Cons ki kis)
  have p: "put_entry T_spent_keys ZEROKEY ki (cont t) = insert (T_spent_keys, ZEROKEY, ki) (cont t)"
    using Cons.prems(1,2) by (force simp: put_entry_def le_key32_inj)
  show ?case unfolding put_key_images.simps outcome_simps
  proof (rule txn_lawsD(8) [OF assms(1,2)], unfold p)
    fix t' assume t': "cont t' = insert (T_spent_keys, ZEROKEY, ki) (cont t)"
    show "outcome X (put_key_images L t' kis) Q"
      by (rule Cons.IH) (use Cons.prems t' in auto)
  qed
qed simp

lemma del_key_images_outcome:
  assumes "txn_laws L cont" "tolerates X" "\<And>ki. (T_spent_keys, ZEROKEY, ki) \<in> cont t \<Longrightarrow> length ki = 32"
    "\<forall>ki \<in> set kis. length ki = 32" "\<And>t'. cont t' = cont t - (\<lambda>ki. (T_spent_keys, ZEROKEY, ki)) ` set kis \<Longrightarrow> Q t'"
  shows "outcome X (del_key_images L t kis) Q"
  using assms(3-)
proof (induction kis arbitrary: t)
  case (Cons ki kis)
  have p: "del_entry T_spent_keys ZEROKEY (Some ki) (cont t) = cont t - {(T_spent_keys, ZEROKEY, ki)}"
    using Cons.prems(1,2) by (force simp: del_entry_def le_key32_inj)
  show ?case unfolding del_key_images.simps outcome_simps
  proof (rule txn_lawsD(9) [OF assms(1,2)], unfold p)
    fix t' assume t': "cont t' = cont t - {(T_spent_keys, ZEROKEY, ki)}"
    show "outcome X (del_key_images L t' kis) Q"
    proof (rule Cons.IH)
      show "Q t''" if "cont t'' = cont t' - (\<lambda>ki. (T_spent_keys, ZEROKEY, ki)) ` set kis" for t''
        by (rule Cons.prems(3)) (simp add: that t' Diff_insert2 [of _ _ "(\<lambda>ki. (T_spent_keys, ZEROKEY, ki)) ` set kis"])
    qed (use Cons.prems t' in auto)
  qed
qed simp


lemma unat_next_tx: "card (tbl D T_txs_pruned) < 2 ^ 64 \<Longrightarrow> unat (next_tx D) = card (tbl D T_txs_pruned)"
  by (simp add: next_tx_def)

lemma fresh_key:
  assumes "dense_txs D" "card (tbl D T_txs_pruned) < 2 ^ 64" "T \<in> {T_txs_pruned, T_txs_prunable, T_txs_prunable_hash, T_tx_outputs}"
  shows "(T, u64_to_le_bytes (next_tx D), v) \<notin> D"
  using assms unat_next_tx [OF assms(2)] unfolding dense_txs_def by (metis key8_u64(2) less_irrefl)

lemma tx_own_outside: "outside {T_output_txs, T_output_amounts} (tx_own height x n)"
  by (auto simp: outside_def tx_own_def Let_def)

lemma finite_tx_own: "finite (tx_own height x n)"
  by (simp add: tx_own_def Let_def)

lemma tx_own_mem:
  "(T_tx_outputs, k, v) \<notin> tx_own height x n"
  "(T_tx_indices, k, v) \<in> tx_own height x n \<longleftrightarrow> k = ZEROKEY \<and> v = TxIndex_encode \<lparr>ti_key = it_hash x, ti_tx_id = n,
     ti_unlock_time = unlock_time (tx_prefix (it_tx x)), ti_block_id = height\<rparr>"
  "(T_txs_pruned, k, v) \<in> tx_own height x n \<longleftrightarrow> k = u64_to_le_bytes n \<and> v = take (unprunable_size (it_tx x)) (it_blob x)"
  "(T_txs_prunable, k, v) \<in> tx_own height x n \<longleftrightarrow> k = u64_to_le_bytes n \<and> v = drop (unprunable_size (it_tx x)) (it_blob x)"
  "(T_txs_prunable_hash, k, v) \<in> tx_own height x n \<longleftrightarrow> k = u64_to_le_bytes n \<and> prunable_part x = Some v"
  "(T_spent_keys, k, v) \<in> tx_own height x n \<longleftrightarrow> k = ZEROKEY \<and> v \<in> set (spent_key_images (it_tx x))"
  by (auto simp: tx_own_def Let_def)

lemma tx_after_eq:
  "tx_after height x D = out_state (it_hash x) (it_tx x) height (it_outs x) D (length (it_outs x)) \<union> tx_own height x (next_tx D) \<union>
     {(T_tx_outputs, u64_to_le_bytes (next_tx D), encode_tx_outputs (out_indices (it_hash x) (it_tx x) height (it_outs x) D 0))}"
  by (simp add: tx_after_def outputs_frame(1) [OF tx_own_outside])

lemma put_step:
  assumes "txn_laws L cont" "tolerates X" "cont t = D" "\<And>v'. (T, k, v') \<in> D \<Longrightarrow> \<not> clash T v v'"
    "\<And>t'. cont t' = insert (T, k, v) D \<Longrightarrow> Q t'"
  shows "outcome X (engine (lm_put L t T k v)) Q"
  by (rule txn_lawsD(8) [OF assms(1,2)]) (simp add: assms(3,5) put_fresh [OF assms(4)])

lemma put_option_step:
  assumes "txn_laws L cont" "tolerates X" "cont t = D" "\<And>v'. (T, k, v') \<notin> D"
    "\<And>t'. cont t' = (\<lambda>p. (T, k, p)) ` set_option po \<union> D \<Longrightarrow> Q t'"
  shows "outcome X (case po of Some p \<Rightarrow> engine (lm_put L t T k p) | None \<Rightarrow> Inr t) Q"
  using assms(3-) by (cases po) (auto intro!: put_step [OF assms(1,2)])

lemma add_transaction_outcome:
  assumes "txn_laws L cont" "tolerates X" "wf_item C x" "dense_outputs (cont t)" "dense_txs (cont t)" "fresh_item x (cont t)"
    "\<And>t'. cont t' = tx_after height x (cont t) \<Longrightarrow> tx_room height x (cont t) \<Longrightarrow> Q t'"
  shows "outcome X (add_transaction C L t height (it_tx x) (it_blob x)) Q"
proof -
  let ?D = "cont t" and ?tx = "it_tx x" and ?blob = "it_blob x" and ?h = "it_hash x" and ?sos = "it_outs x"
  let ?key = "u64_to_le_bytes (next_tx ?D)"
  let ?idx = "\<lparr>ti_key = ?h, ti_tx_id = next_tx ?D, ti_unlock_time = unlock_time (tx_prefix ?tx), ti_block_id = height\<rparr>"
  let ?S = "(\<lambda>ki. (T_spent_keys, ZEROKEY, ki)) ` set (spent_key_images ?tx)"
  let ?E = "insert (T_txs_prunable, ?key, drop (unprunable_size ?tx) ?blob)
    (insert (T_txs_pruned, ?key, take (unprunable_size ?tx) ?blob) (?D \<union> ?S))"
  let ?P = "(\<lambda>p. (T_txs_prunable_hash, ?key, p)) ` set_option (prunable_part x)"
  let ?M = "?D \<union> tx_own height x (next_tx ?D)"
  have w: "unprunable_size ?tx \<le> length ?blob" "transaction_hash_from_blob ?tx ?blob = Some ?h" "stored_outputs C ?tx = Inr ?sos"
    "storable ?h ?tx ?sos" "\<forall>ki \<in> set (spent_key_images ?tx). length ki = 32" and l: "length ?h = 32"
    using assms(3) by (simp_all add: wf_item_def storable_def)
  have own: "insert (T_tx_indices, ZEROKEY, TxIndex_encode ?idx) (?P \<union> ?E) = ?M" by (auto simp: tx_own_def Let_def)
  have tail: "outcome X (add_outputs L t5 ?h ?tx height 0 ?sos) (\<lambda>p. outcome X
      (engine (lm_put L (snd p) T_tx_outputs ?key (encode_tx_outputs (fst p)))) Q)"
    if t5: "cont t5 = ?M" and room: "card (tbl ?D T_txs_pruned) < 2 ^ 64" for t5
  proof (rule add_outputs_outcome [OF assms(1,2) w(4), where i = 0 and D = ?M, simplified drop_0])
    show "cont t5 = out_state ?h ?tx height ?sos ?M 0" "dense_outputs (cont t5)"
      using assms(4) by (simp_all add: t5 outputs_frame(3) [OF tx_own_outside])
    fix t' assume t': "cont t' = out_state ?h ?tx height ?sos ?M (length ?sos)"
      and r: "\<And>j. 0 \<le> j \<Longrightarrow> j < length ?sos \<Longrightarrow> out_room (out_state ?h ?tx height ?sos ?M j) (?sos ! j)"
    have "tx_room height x ?D" using r room by (simp add: tx_room_def outs_room_def outputs_frame(1,2) [OF tx_own_outside])
    then show "outcome X (engine (lm_put L (snd (out_indices ?h ?tx height ?sos ?M 0, t')) T_tx_outputs ?key
        (encode_tx_outputs (fst (out_indices ?h ?tx height ?sos ?M 0, t'))))) Q"
      using fresh_key [OF assms(5) room, of T_tx_outputs]
      by (intro put_step [OF assms(1,2), where D = "out_state ?h ?tx height ?sos ?M (length ?sos)"] assms(7))
        (simp_all add: t' out_state_other tx_own_mem tx_after_def outs_frame(2) [OF tx_own_outside])
  qed simp
  have mid: "outcome X (engine (lm_put L t4 T_tx_indices ZEROKEY (TxIndex_encode ?idx))) (\<lambda>t5.
       outcome X (add_outputs L t5 ?h ?tx height 0 ?sos) (\<lambda>p. outcome X
      (engine (lm_put L (snd p) T_tx_outputs ?key (encode_tx_outputs (fst p)))) Q))"
    if t4: "cont t4 = ?P \<union> ?E" and room: "card (tbl ?D T_txs_pruned) < 2 ^ 64" for t4
    by (rule put_step [OF assms(1,2) t4])
      (use assms(6) l tail [OF _ room] own in \<open>auto simp: fresh_item_def TxIndex_layout\<close>)
  have pt: "outcome X (case (if 1 < version (tx_prefix ?tx) then tx_prunable_hash_from_blob ?tx ?blob else None) of
      Some p \<Rightarrow> engine (lm_put L t3 T_txs_prunable_hash ?key p) | None \<Rightarrow> Inr t3) (\<lambda>t4. outcome X (engine (lm_put L t4 T_tx_indices ZEROKEY (TxIndex_encode ?idx))) (\<lambda>t5.
       outcome X (add_outputs L t5 ?h ?tx height 0 ?sos) (\<lambda>p. outcome X
      (engine (lm_put L (snd p) T_tx_outputs ?key (encode_tx_outputs (fst p)))) Q)))"
    if t3: "cont t3 = ?E" and room: "card (tbl ?D T_txs_pruned) < 2 ^ 64" for t3
    unfolding prunable_part_def [symmetric]
    by (rule put_option_step [OF assms(1,2) t3 _ mid [OF _ room]])
      (use fresh_key [OF assms(5) room, of T_txs_prunable_hash] in auto)
  have sf: "store_failed (stored_outputs C ?tx) = Inr ?sos" by (simp add: store_failed_def w(3))
  have sp: "split_tx_blob ?blob (unprunable_size ?tx) = Some (take (unprunable_size ?tx) ?blob, drop (unprunable_size ?tx) ?blob)"
    by (simp add: split_tx_blob_def w(1))
  show ?thesis
    unfolding add_transaction_def Let_def w(2) sf sp ok_or_def option.case outcome_simps case_prod_conv
  proof (rule put_key_images_outcome [OF assms(1,2)])
    fix t1 assume t1: "cont t1 = ?D \<union> ?S"
    have c: "tbl (cont t1) T_txs_pruned = tbl ?D T_txs_pruned" by (auto simp: t1 tbl_def)
    show "outcome X (engine (lm_entries L t1 T_txs_pruned)) (\<lambda>tx_id.
         outcome X (engine (lm_put L t1 T_txs_pruned (u64_to_le_bytes tx_id) (take (unprunable_size ?tx) ?blob))) (\<lambda>t.
         outcome X (engine (lm_put L t T_txs_prunable (u64_to_le_bytes tx_id) (drop (unprunable_size ?tx) ?blob))) (\<lambda>t.
         outcome X (case (if 1 < version (tx_prefix ?tx) then tx_prunable_hash_from_blob ?tx ?blob else None) of
            Some h \<Rightarrow> engine (lm_put L t T_txs_prunable_hash (u64_to_le_bytes tx_id) h) | None \<Rightarrow> Inr t) (\<lambda>t.
         outcome X (engine (lm_put L t T_tx_indices ZEROKEY (TxIndex_encode \<lparr>ti_key = ?h, ti_tx_id = tx_id,
            ti_unlock_time = unlock_time (tx_prefix ?tx), ti_block_id = height\<rparr>))) (\<lambda>t.
         outcome X (add_outputs L t ?h ?tx height 0 ?sos) (\<lambda>x. outcome X (case x of (ixs, t) \<Rightarrow>
            engine (lm_put L t T_tx_outputs (u64_to_le_bytes tx_id) (encode_tx_outputs ixs))) Q))))))"
    proof (rule txn_lawsD(3) [OF assms(1,2)], unfold c)
      fix n :: u64 assume n: "unat n = card (tbl ?D T_txs_pruned)"
      have nt: "n = next_tx ?D" by (simp add: next_tx_def flip: n)
      have room: "card (tbl ?D T_txs_pruned) < 2 ^ 64" using n unat_bound [of n] by simp
      show "outcome X (engine (lm_put L t1 T_txs_pruned (u64_to_le_bytes n) (take (unprunable_size ?tx) ?blob))) (\<lambda>t.
         outcome X (engine (lm_put L t T_txs_prunable (u64_to_le_bytes n) (drop (unprunable_size ?tx) ?blob))) (\<lambda>t.
         outcome X (case (if 1 < version (tx_prefix ?tx) then tx_prunable_hash_from_blob ?tx ?blob else None) of
            Some h \<Rightarrow> engine (lm_put L t T_txs_prunable_hash (u64_to_le_bytes n) h) | None \<Rightarrow> Inr t) (\<lambda>t.
         outcome X (engine (lm_put L t T_tx_indices ZEROKEY (TxIndex_encode \<lparr>ti_key = ?h, ti_tx_id = n,
            ti_unlock_time = unlock_time (tx_prefix ?tx), ti_block_id = height\<rparr>))) (\<lambda>t.
         outcome X (add_outputs L t ?h ?tx height 0 ?sos) (\<lambda>x. outcome X (case x of (ixs, t) \<Rightarrow>
            engine (lm_put L t T_tx_outputs (u64_to_le_bytes n) (encode_tx_outputs ixs))) Q)))))"
        unfolding nt case_prod_unfold
        using fresh_key [OF assms(5) room, of T_txs_pruned] fresh_key [OF assms(5) room, of T_txs_prunable]
        by (intro put_step [OF assms(1,2) t1] put_step [OF assms(1,2), where D = "insert _ _"] pt [OF _ room]) auto
    qed
  qed (use assms(5) w(5) in \<open>simp_all add: dense_txs_def\<close>)
qed


section \<open>Removing a transaction\<close>

definition tx_ready :: "('s, 'p::ab_group_add) dalek \<Rightarrow> u64 \<Rightarrow> stored_item \<Rightarrow> entry set \<Rightarrow> bool" where
  "tx_ready C height x D \<longleftrightarrow> finite D \<and> wf_item C x \<and> dense_outputs D \<and> dense_txs D \<and> fresh_item x D \<and> tx_room height x D"

abbreviation item_index :: "u64 \<Rightarrow> stored_item \<Rightarrow> u64 \<Rightarrow> TxIndex" where
  "item_index height x n \<equiv> \<lparr>ti_key = it_hash x, ti_tx_id = n, ti_unlock_time = unlock_time (tx_prefix (it_tx x)), ti_block_id = height\<rparr>"

abbreviation item_ixs :: "u64 \<Rightarrow> stored_item \<Rightarrow> entry set \<Rightarrow> u64 list" where
  "item_ixs height x D \<equiv> out_indices (it_hash x) (it_tx x) height (it_outs x) D 0"

lemma tx_after_mem:
  assumes "T \<notin> {T_output_txs, T_output_amounts}"
  shows "(T, k, v) \<in> tx_after height x D \<longleftrightarrow> (T, k, v) \<in> D \<or> (T, k, v) \<in> tx_own height x (next_tx D) \<or>
    T = T_tx_outputs \<and> k = u64_to_le_bytes (next_tx D) \<and> v = encode_tx_outputs (item_ixs height x D)"
  unfolding tx_after_eq using out_state_other [OF assms] by auto

lemma tx_unwind:
  assumes "tx_ready C height x D"
  shows "del_entry T_txs_prunable_hash (u64_to_le_bytes (next_tx D)) None
    (del_entry T_txs_prunable (u64_to_le_bytes (next_tx D)) None
    (del_entry T_txs_pruned (u64_to_le_bytes (next_tx D)) None
    (del_entry T_tx_indices ZEROKEY (Some (TxIndex_encode (item_index height x (next_tx D))))
    (del_entry T_tx_outputs (u64_to_le_bytes (next_tx D)) None
      (D \<union> tx_own height x (next_tx D) \<union> {(T_tx_outputs, u64_to_le_bytes (next_tx D), v)}))))) =
    D \<union> (\<lambda>ki. (T_spent_keys, ZEROKEY, ki)) ` set (spent_key_images (it_tx x))"
proof -
  have r: "dense_txs D" "card (tbl D T_txs_pruned) < 2 ^ 64" "length (it_hash x) = 32"
    and i: "\<And>v. (T_tx_indices, ZEROKEY, v) \<in> D \<Longrightarrow> le_key32 v \<noteq> le_key32 (it_hash x)"
    using assms by (simp_all add: tx_ready_def tx_room_def wf_item_def storable_def fresh_item_def)
  note f = fresh_key [OF r(1,2), of T_txs_prunable_hash] fresh_key [OF r(1,2), of T_txs_prunable]
    fresh_key [OF r(1,2), of T_txs_pruned] fresh_key [OF r(1,2), of T_tx_outputs]
  show ?thesis unfolding del_entry_def tx_own_def Let_def using f r(3)
    by (auto simp: TxIndex_layout dest: i)
qed

lemma get_one:
  assumes "txn_laws L cont" "tolerates X" "\<And>v'. (T, k, v') \<in> cont t \<longleftrightarrow> v' = v" "Q (Some v)"
  shows "outcome X (engine (lm_get L t T k)) Q"
  by (rule txn_lawsD(4) [OF assms(1,2)]) (use assms(3,4) in \<open>auto simp: grp_def\<close>)

lemma del_step:
  assumes "txn_laws L cont" "tolerates X" "cont t = D" "\<And>t'. cont t' = del_entry T k w D \<Longrightarrow> Q t'"
  shows "outcome X (engine_del L t T k w) Q"
  by (rule txn_lawsD(9) [OF assms(1,2)]) (simp add: assms(3,4))

lemma remove_transaction_outcome:
  assumes "txn_laws L cont" "tolerates X" "tx_ready C height x D" "cont t = tx_after height x D"
    "\<And>t'. cont t' = D \<Longrightarrow> Q (it_tx x, t')"
  shows "outcome X (remove_transaction C L (it_hash x) t) Q"
proof -
  let ?n = "next_tx D" and ?tx = "it_tx x" and ?h = "it_hash x" and ?sos = "it_outs x"
  let ?key = "u64_to_le_bytes (next_tx D)"
  let ?R = "tx_own height x ?n \<union> {(T_tx_outputs, ?key, encode_tx_outputs (item_ixs height x D))}"
  have w: "wf_item C x" "dense_txs D" "dense_outputs D" "finite D" "card (tbl D T_txs_pruned) < 2 ^ 64"
    "outs_room ?h ?tx height ?sos D" "fresh_item x D"
    using assms(3) by (simp_all add: tx_ready_def tx_room_def)
  have v: "storable ?h ?tx ?sos" "length ?h = 32" "from_blob (it_blob x) = Inr ?tx" "stored_outputs C ?tx = Inr ?sos"
    "\<forall>ki \<in> set (spent_key_images ?tx). length ki = 32"
    using w(1) by (simp_all add: wf_item_def storable_def)
  note fk = fresh_key [OF w(2,5)]
  have out: "outside {T_output_txs, T_output_amounts} ?R" using tx_own_outside [of height x ?n] by (auto simp: outside_def)
  have st: "cont t = out_state ?h ?tx height ?sos (D \<union> ?R) (length ?sos)"
    unfolding assms(4) tx_after_eq outputs_frame(1) [OF out] by blast
  have fin: "finite (D \<union> ?R)" and den: "dense_outputs (D \<union> ?R)" and rm: "outs_room ?h ?tx height ?sos (D \<union> ?R)"
    using w(3,4,6) finite_tx_own [of height x ?n]
    by (simp_all add: outputs_frame(3) [OF out] outs_frame(1) [OF out] del: Un_insert_right)
  have g: "(T_txs_pruned, ?key, v') \<in> cont t \<longleftrightarrow> v' = take (unprunable_size ?tx) (it_blob x)"
    "(T_txs_prunable, ?key, v') \<in> cont t \<longleftrightarrow> v' = drop (unprunable_size ?tx) (it_blob x)"
    "(T_tx_outputs, ?key, v') \<in> cont t \<longleftrightarrow> v' = encode_tx_outputs (item_ixs height x D)" for v'
    using fk by (simp_all add: assms(4) tx_after_mem tx_own_mem)
  have idx: "outcome X (tx_index_in L t ?h) P" if "P (item_index height x ?n)" for P
    unfolding tx_index_in_def outcome_simps
  proof (rule txn_lawsD(5) [OF assms(1,2)])
    fix v' assume "(T_tx_indices, ZEROKEY, v') \<in> cont t" "same_dup T_tx_indices ?h v'"
    with w(7) have "v' = TxIndex_encode (item_index height x ?n)"
      by (auto simp: assms(4) tx_after_mem tx_own_mem fresh_item_def)
    then show "outcome X (found (Some v')) (\<lambda>raw. outcome X (decoded (TxIndex_decode raw)) P)"
      using that v(2) by (simp add: outcome_decoded [OF tx_index.dec_enc])
  next
    assume "\<forall>v' \<in> grp (cont t) T_tx_indices ZEROKEY. \<not> same_dup T_tx_indices ?h v'"
    moreover have "TxIndex_encode (item_index height x ?n) \<in> grp (cont t) T_tx_indices ZEROKEY"
      by (simp add: assms(4) tx_after_mem tx_own_mem grp_def)
    ultimately show "outcome X (found None) (\<lambda>raw. outcome X (decoded (TxIndex_decode raw)) P)"
      using v(2) by (auto simp: TxIndex_layout)
  qed
  have sx: "outcome X (stored_tx L t ?key) P" if "P ?tx" for P
    unfolding stored_tx_def outcome_simps
    by (rule get_one [OF assms(1,2) g(1)], simp, rule get_one [OF assms(1,2) g(2)]) (simp add: v(3) that Let_def)
  have dels: "outcome X (engine_del L t T_tx_outputs ?key None) (\<lambda>t.
      outcome X (engine_del L t T_tx_indices ZEROKEY (Some (TxIndex_encode (item_index height x ?n)))) (\<lambda>t.
      outcome X (engine_del L t T_txs_pruned ?key None) (\<lambda>t. outcome X (engine_del L t T_txs_prunable ?key None) (\<lambda>t.
      outcome X (engine_del L t T_txs_prunable_hash ?key None) (\<lambda>t.
      outcome X (del_key_images L t (spent_key_images ?tx)) (\<lambda>t. Q (?tx, t)))))))" if t: "cont t = D \<union> ?R" for t
    apply (rule del_step [OF assms(1,2) t], rule del_step [OF assms(1,2)], assumption, rule del_step [OF assms(1,2)], assumption,
        rule del_step [OF assms(1,2)], assumption, rule del_step [OF assms(1,2)], assumption)
    subgoal premises p for t1 t2 t3 t4 t5
    proof -
      have c: "cont t5 = D \<union> (\<lambda>ki. (T_spent_keys, ZEROKEY, ki)) ` set (spent_key_images ?tx)"
        using p(5) tx_unwind [OF assms(3)] by (simp add: Un_assoc)
      have d: "cont t5 - (\<lambda>ki. (T_spent_keys, ZEROKEY, ki)) ` set (spent_key_images ?tx) = D"
        using w(7) by (auto simp: c fresh_item_def)
      show ?thesis
      proof (rule del_key_images_outcome [OF assms(1,2) _ v(5) assms(5)])
        show "length ki = 32" if "(T_spent_keys, ZEROKEY, ki) \<in> cont t5" for ki
          using that v(5) w(2) by (auto simp: c dense_txs_def)
        show "cont t' = D" if "cont t' = cont t5 - (\<lambda>ki. (T_spent_keys, ZEROKEY, ki)) ` set (spent_key_images ?tx)" for t'
          using that by (simp only: d)
      qed
    qed
    done
  show ?thesis unfolding remove_transaction_def Let_def outcome_simps
    apply (rule idx, simp only: TxIndex.simps, rule sx)
    apply (rule get_one [OF assms(1,2) g(3)])
    apply (simp only: outcome_found option.case outcome_decoded [OF tx_outputs.dec_enc [OF TrueI]] store_failed_def v(4) sum.case outcome_simps)
    apply (rule remove_outputs_outcome [OF assms(1,2) v(1) fin den rm st order_refl, unfolded outs_frame(2) [OF out]])
    apply (rule dels, assumption)
    done
qed


section \<open>The transactions of a block\<close>

primrec txs_state :: "u64 \<Rightarrow> stored_item list \<Rightarrow> entry set \<Rightarrow> entry set" where
  "txs_state height [] D = D"
| "txs_state height (x # xs) D = txs_state height xs (tx_after height x D)"

primrec txs_ready :: "('s, 'p::ab_group_add) dalek \<Rightarrow> u64 \<Rightarrow> stored_item list \<Rightarrow> entry set \<Rightarrow> bool" where
  "txs_ready C height [] D \<longleftrightarrow> True"
| "txs_ready C height (x # xs) D \<longleftrightarrow> tx_ready C height x D \<and> txs_ready C height xs (tx_after height x D)"

definition fresh_items :: "stored_item list \<Rightarrow> entry set \<Rightarrow> bool" where
  "fresh_items xs D \<longleftrightarrow> distinct (map it_hash xs) \<and> distinct (concat (map (\<lambda>x. spent_key_images (it_tx x)) xs)) \<and>
     (\<forall>x \<in> set xs. fresh_item x D)"

lemma txs_snoc [simp]:
  "txs_state height (xs @ [x]) D = tx_after height x (txs_state height xs D)"
  "txs_ready C height (xs @ [x]) D \<longleftrightarrow> txs_ready C height xs D \<and> tx_ready C height x (txs_state height xs D)"
  by (induction xs arbitrary: D) auto

lemma tx_after_inv:
  assumes "tx_ready C height x D"
  shows "finite (tx_after height x D)" "dense_outputs (tx_after height x D)" "dense_txs (tx_after height x D)"
proof -
  let ?n = "next_tx D" and ?key = "u64_to_le_bytes (next_tx D)"
  let ?R = "tx_own height x ?n \<union> {(T_tx_outputs, ?key, encode_tx_outputs (item_ixs height x D))}"
  have w: "wf_item C x" "dense_txs D" "dense_outputs D" "finite D" "card (tbl D T_txs_pruned) < 2 ^ 64"
    "outs_room (it_hash x) (it_tx x) height (it_outs x) D" "storable (it_hash x) (it_tx x) (it_outs x)"
    using assms by (simp_all add: tx_ready_def tx_room_def wf_item_def)
  have out: "outside {T_output_txs, T_output_amounts} ?R" using tx_own_outside [of height x ?n] by (auto simp: outside_def)
  note o = out_state_inv [OF w(7,4,3,6) order_refl]
  show fin: "finite (tx_after height x D)" unfolding tx_after_eq using o finite_tx_own by simp
  show "dense_outputs (tx_after height x D)"
    unfolding tx_after_eq Un_assoc outputs_frame(3) [OF out] using o by blast
  have t: "tbl (tx_after height x D) T_txs_pruned = insert (?key, take (unprunable_size (it_tx x)) (it_blob x)) (tbl D T_txs_pruned)"
    by (auto simp: tbl_def tx_after_mem tx_own_mem)
  have c: "card (tbl (tx_after height x D) T_txs_pruned) = Suc (card (tbl D T_txs_pruned))"
  proof -
    have "(?key, v) \<notin> tbl D T_txs_pruned" for v using fresh_key [OF w(2,5), of T_txs_pruned] by (simp add: tbl_def)
    with finite_tbl [OF w(4)] show ?thesis by (simp add: t)
  qed
  have k: "key8 ?key = card (tbl D T_txs_pruned)" by (simp add: unat_next_tx [OF w(5)])
  show "dense_txs (tx_after height x D)"
    unfolding dense_txs_def c
  proof (intro conjI allI impI)
    fix T q v assume q: "(T, q, v) \<in> tx_after height x D" and T: "T \<in> {T_txs_pruned, T_txs_prunable, T_txs_prunable_hash, T_tx_outputs}"
    have "(T, q, v) \<in> D \<or> q = ?key" using q T by (auto simp: tx_after_mem tx_own_mem)
    moreover have "key8 q < card (tbl D T_txs_pruned)" if "(T, q, v) \<in> D" using w(2) that T unfolding dense_txs_def by blast
    ultimately show "key8 q < Suc (card (tbl D T_txs_pruned))" using k by auto
  next
    fix ki assume "(T_spent_keys, ZEROKEY, ki) \<in> tx_after height x D"
    then show "length ki = 32" using w(1,2) by (auto simp: tx_after_mem tx_own_mem dense_txs_def wf_item_def)
  qed
qed

lemma fresh_after:
  assumes "wf_item C x" "wf_item C y" "fresh_item y D" "it_hash x \<noteq> it_hash y"
    "set (spent_key_images (it_tx x)) \<inter> set (spent_key_images (it_tx y)) = {}"
  shows "fresh_item y (tx_after height x D)"
proof -
  have "length (it_hash x) = 32" "length (it_hash y) = 32" using assms(1,2) by (simp_all add: wf_item_def storable_def)
  with assms(3-5) show ?thesis
    by (auto simp: fresh_item_def tx_after_mem tx_own_mem TxIndex_layout le_key32_inj)
qed

lemma add_transactions_outcome:
  assumes "txn_laws L cont" "tolerates X" "\<forall>x \<in> set xs. wf_item C x" "dense_outputs (cont t)" "dense_txs (cont t)"
    "fresh_items xs (cont t)" "\<And>t'. cont t' = txs_state height xs (cont t) \<Longrightarrow> txs_ready C height xs (cont t) \<Longrightarrow> Q t'"
  shows "outcome X (add_transactions C L t height (map (\<lambda>x. (it_tx x, it_blob x)) xs)) Q"
  using assms(3-)
proof (induction xs arbitrary: t)
  case (Cons x xs)
  have x: "wf_item C x" "fresh_item x (cont t)" using Cons.prems by (simp_all add: fresh_items_def)
  show ?case unfolding list.map add_transactions.simps outcome_simps
  proof (rule add_transaction_outcome [OF assms(1,2) x(1) Cons.prems(2,3) x(2)])
    fix t' assume t': "cont t' = tx_after height x (cont t)" and r: "tx_room height x (cont t)"
    have rd: "tx_ready C height x (cont t)"
      using x Cons.prems(2,3) r txn_lawsD(1) [OF assms(1)] by (simp add: tx_ready_def)
    show "outcome X (add_transactions C L t' height (map (\<lambda>x. (it_tx x, it_blob x)) xs)) Q"
    proof (rule Cons.IH)
      show "dense_outputs (cont t')" "dense_txs (cont t')" using tx_after_inv [OF rd] by (simp_all add: t')
      show "fresh_items xs (cont t')"
        unfolding fresh_items_def t'
      proof (intro conjI ballI)
        fix y assume y: "y \<in> set xs"
        show "fresh_item y (tx_after height x (cont t))"
          by (rule fresh_after [OF x(1)]) (use Cons.prems y in \<open>auto simp: fresh_items_def\<close>)
      qed (use Cons.prems in \<open>auto simp: fresh_items_def\<close>)
    qed (use Cons.prems rd t' in auto)
  qed
qed simp

lemma remove_transactions_outcome:
  assumes "txn_laws L cont" "tolerates X" "txs_ready C height xs D" "cont t = txs_state height xs D"
    "\<And>t'. cont t' = D \<Longrightarrow> Q (rev (map it_tx xs), t')"
  shows "outcome X (remove_transactions C L (rev (map it_hash xs)) t) Q"
  using assms(3-)
proof (induction xs arbitrary: t Q rule: rev_induct)
  case (snoc x xs)
  have x: "tx_ready C height x (txs_state height xs D)" "cont t = tx_after height x (txs_state height xs D)"
    using snoc.prems by simp_all
  show ?case
    by (simp, rule remove_transaction_outcome [OF assms(1,2) x], simp, rule snoc.IH) (use snoc.prems in simp_all)
qed simp

definition tx_tables :: "Db set" where
  "tx_tables = {T_txs_pruned, T_txs_prunable, T_txs_prunable_hash, T_tx_outputs, T_tx_indices, T_spent_keys, T_output_txs, T_output_amounts}"

lemma dense_txs_frame:
  assumes "outside tx_tables R"
  shows "dense_txs (D \<union> R) = dense_txs D" "fresh_item x (D \<union> R) = fresh_item x D"
proof -
  have p: "tbl (D \<union> R) T_txs_pruned = tbl D T_txs_pruned"
    by (rule outside_frame(1) [OF assms]) (simp add: tx_tables_def)
  have m: "(T, k, v) \<in> D \<union> R \<longleftrightarrow> (T, k, v) \<in> D" if "T \<in> tx_tables" for T k v
    using outside_frame(3) [OF assms that] by blast
  have sub: "{T_txs_pruned, T_txs_prunable, T_txs_prunable_hash, T_tx_outputs} \<subseteq> tx_tables" "T_spent_keys \<in> tx_tables" "T_tx_indices \<in> tx_tables"
    by (simp_all add: tx_tables_def)
  show "dense_txs (D \<union> R) = dense_txs D"
    unfolding dense_txs_def p m [OF sub(2)] using m [OF subsetD [OF sub(1)]] by blast
  show "fresh_item x (D \<union> R) = fresh_item x D" unfolding fresh_item_def m [OF sub(2)] m [OF sub(3)] by simp
qed

lemma tx_frame:
  assumes "outside tx_tables R" "finite R"
  shows "tx_after height x (D \<union> R) = tx_after height x D \<union> R" "tx_ready C height x (D \<union> R) = tx_ready C height x D"
proof -
  have o: "outside {T_output_txs, T_output_amounts} R" using assms(1) by (auto simp: outside_def tx_tables_def)
  have p: "tbl (D \<union> R) T_txs_pruned = tbl D T_txs_pruned"
    by (rule outside_frame(1) [OF assms(1)]) (simp add: tx_tables_def)
  then have n: "next_tx (D \<union> R) = next_tx D" by (simp add: next_tx_def)
  show "tx_after height x (D \<union> R) = tx_after height x D \<union> R"
    unfolding tx_after_eq n outputs_frame(1) [OF o] outs_frame(2) [OF o] by blast
  show "tx_ready C height x (D \<union> R) = tx_ready C height x D"
    using assms(2)
    by (simp add: tx_ready_def tx_room_def p outs_frame(1) [OF o] outputs_frame(3) [OF o] dense_txs_frame [OF assms(1)])
qed

lemma txs_frame:
  assumes "outside tx_tables R" "finite R"
  shows "txs_state height xs (D \<union> R) = txs_state height xs D \<union> R" "txs_ready C height xs (D \<union> R) = txs_ready C height xs D"
  by (induction xs arbitrary: D) (simp_all add: tx_frame [OF assms])

end
