(* ===== verification/LmdbInv.thy ===== *)
theory LmdbInv
  imports LmdbTx
begin

text \<open>
  Blocks of the store: adding a block and popping it over any engine with the laws, the atomicity
  of write transactions with their map growth and second run, reading back what was added, and a
  list-backed engine that satisfies the laws.
\<close>

section \<open>A block\<close>

text \<open>Block numbers are dense, and every block has its record.\<close>

definition dense_blocks :: "entry set \<Rightarrow> bool" where
  "dense_blocks D \<longleftrightarrow>
     (\<forall>T k v. (T, k, v) \<in> D \<longrightarrow> T \<in> {T_blocks, T_hf_versions} \<longrightarrow> key8 k < card (tbl D T_blocks)) \<and>
     (\<forall>v. (T_block_info, ZEROKEY, v) \<in> D \<longrightarrow> key8 v < card (tbl D T_blocks)) \<and>
     (\<forall>n < card (tbl D T_blocks). \<exists>r. length (bi_hash r) = 32 \<and> unat (bi_height r) = n \<and> (T_block_info, ZEROKEY, BlockInfo_encode r) \<in> D)"

definition tables_ok :: "entry set \<Rightarrow> bool" where
  "tables_ok D \<longleftrightarrow> dense_outputs D \<and> dense_txs D \<and> dense_blocks D"

definition block_own :: "Block \<Rightarrow> bytes \<Rightarrow> BlockInfo \<Rightarrow> entry set" where
  "block_own blk blob info =
     {(T_blocks, u64_to_le_bytes (bi_height info), blob), (T_block_info, ZEROKEY, BlockInfo_encode info),
      (T_block_heights, ZEROKEY, BlockHeight_encode \<lparr>bh_hash = bi_hash info, bh_height = bi_height info\<rparr>),
      (T_hf_versions, u64_to_le_bytes (bi_height info), [major_version (header blk)])}"

definition storable_block :: "('s, 'p::ab_group_add) dalek \<Rightarrow> Block \<Rightarrow> bytes \<Rightarrow> stored_item \<Rightarrow> stored_item list \<Rightarrow> bool" where
  "storable_block C blk blob m xs \<longleftrightarrow> block_from_blob blob = Inr blk \<and> block_id blk \<noteq> None \<and>
     it_tx m = miner_tx blk \<and> it_blob m = Transaction_write [] (miner_tx blk) \<and> tx_hashes blk = map it_hash xs \<and>
     (\<forall>x \<in> set (m # xs). wf_item C x)"

definition fresh_block :: "Block \<Rightarrow> stored_item list \<Rightarrow> entry set \<Rightarrow> bool" where
  "fresh_block blk xs D \<longleftrightarrow> fresh_items xs D \<and>
     (\<forall>v. (T_block_heights, ZEROKEY, v) \<in> D \<longrightarrow> (\<forall>h. block_id blk = Some h \<longrightarrow> le_key32 v \<noteq> le_key32 h))"

lemma length_block_id: "block_id b = Some h \<Longrightarrow> length h = 32"
  by (auto simp: block_id_def split: option.splits)

lemma tx_own_other: "T \<notin> tx_tables \<Longrightarrow> (T, k, v) \<notin> tx_own height x n"
  by (auto simp: tx_tables_def tx_own_def Let_def)

lemma txs_state_other: "T \<notin> tx_tables \<Longrightarrow> (T, k, v) \<in> txs_state height xs D \<longleftrightarrow> (T, k, v) \<in> D"
proof (induction xs arbitrary: D)
  case (Cons x xs)
  have "(T, k, v) \<in> tx_after height x D \<longleftrightarrow> (T, k, v) \<in> D"
    using Cons.prems tx_own_other [OF Cons.prems] by (subst tx_after_mem) (auto simp: tx_tables_def)
  with Cons show ?case by simp
qed simp

lemma txs_state_inv:
  "txs_ready C height xs D \<Longrightarrow> finite D \<Longrightarrow> dense_outputs D \<Longrightarrow> dense_txs D \<Longrightarrow>
     finite (txs_state height xs D) \<and> dense_outputs (txs_state height xs D) \<and> dense_txs (txs_state height xs D)"
  by (induction xs arbitrary: D) (auto dest: tx_after_inv)

lemma block_own_outside: "outside tx_tables (block_own blk blob info)" "finite (block_own blk blob info)"
  by (auto simp: outside_def tx_tables_def block_own_def)

lemma block_own_outs: "outside {T_output_txs, T_output_amounts} (block_own blk blob info)"
  by (auto simp: outside_def block_own_def)

definition block_after :: "Block \<Rightarrow> bytes \<Rightarrow> BlockInfo \<Rightarrow> stored_item list \<Rightarrow> entry set \<Rightarrow> entry set" where
  "block_after blk blob info xs D = txs_state (bi_height info) xs D \<union> block_own blk blob info"

lemma block_after_other:
  "T \<notin> tx_tables \<Longrightarrow> (T, k, v) \<in> block_after blk blob info xs D \<longleftrightarrow> (T, k, v) \<in> D \<or> (T, k, v) \<in> block_own blk blob info"
  by (simp add: block_after_def txs_state_other)

lemma fresh_height:
  assumes "dense_blocks D" "unat n = card (tbl D T_blocks)"
  shows "(T_blocks, u64_to_le_bytes n, v) \<notin> D" "(T_hf_versions, u64_to_le_bytes n, v) \<notin> D"
    "(T_block_info, ZEROKEY, w) \<in> D \<Longrightarrow> key8 w \<noteq> unat n"
  using assms unfolding dense_blocks_def by (metis insert_iff key8_u64(2) less_irrefl)+

lemma block_after_card:
  assumes "dense_blocks D" "finite D" "unat (bi_height info) = card (tbl D T_blocks)"
  shows "card (tbl (block_after blk blob info xs D) T_blocks) = Suc (card (tbl D T_blocks))"
proof -
  have "T_blocks \<notin> tx_tables" by (simp add: tx_tables_def)
  then have "tbl (block_after blk blob info xs D) T_blocks = insert (u64_to_le_bytes (bi_height info), blob) (tbl D T_blocks)"
    by (auto simp: tbl_def block_after_other block_own_def)
  moreover have "(u64_to_le_bytes (bi_height info), blob) \<notin> tbl D T_blocks"
    using fresh_height(1) [OF assms(1,3)] by (simp add: tbl_def)
  ultimately show ?thesis using finite_tbl [OF assms(2)] by simp
qed

lemma block_after_ok:
  assumes "tables_ok D" "finite D" "txs_ready C (bi_height info) xs D" "unat (bi_height info) = card (tbl D T_blocks)"
    "length (bi_hash info) = 32"
  shows "tables_ok (block_after blk blob info xs D)"
proof -
  have d: "dense_outputs D" "dense_txs D" "dense_blocks D" using assms(1) by (simp_all add: tables_ok_def)
  note i = txs_state_inv [OF assms(3,2) d(1,2)]
  have "dense_outputs (block_after blk blob info xs D)" "dense_txs (block_after blk blob info xs D)"
    using i by (simp_all add: block_after_def outputs_frame(3) [OF block_own_outs]
      dense_txs_frame(1) [OF block_own_outside(1)])
  moreover have "dense_blocks (block_after blk blob info xs D)"
    unfolding dense_blocks_def block_after_card [OF d(3) assms(2,4)]
  proof (intro conjI allI impI)
    fix T q v assume q: "(T, q, v) \<in> block_after blk blob info xs D" and T: "T \<in> {T_blocks, T_hf_versions}"
    have "(T, q, v) \<in> D \<or> q = u64_to_le_bytes (bi_height info)"
      using q T block_after_other [of T] by (auto simp: tx_tables_def block_own_def)
    moreover have "key8 q < card (tbl D T_blocks)" if "(T, q, v) \<in> D" using d(3) that T unfolding dense_blocks_def by blast
    ultimately show "key8 q < Suc (card (tbl D T_blocks))" using assms(4) by auto
  next
    fix v assume "(T_block_info, ZEROKEY, v) \<in> block_after blk blob info xs D"
    then have "(T_block_info, ZEROKEY, v) \<in> D \<or> v = BlockInfo_encode info"
      using block_after_other [of T_block_info] by (simp add: tx_tables_def block_own_def)
    moreover have "key8 v < card (tbl D T_blocks)" if "(T_block_info, ZEROKEY, v) \<in> D" using d(3) that unfolding dense_blocks_def by blast
    ultimately show "key8 v < Suc (card (tbl D T_blocks))" using assms(4,5) by (auto simp: BlockInfo_layout)
  next
    fix n assume n: "n < Suc (card (tbl D T_blocks))"
    have m: "(T_block_info, ZEROKEY, v) \<in> block_after blk blob info xs D \<longleftrightarrow> (T_block_info, ZEROKEY, v) \<in> D \<or> v = BlockInfo_encode info" for v
      using block_after_other [of T_block_info] by (simp add: tx_tables_def block_own_def)
    show "\<exists>r. length (bi_hash r) = 32 \<and> unat (bi_height r) = n \<and> (T_block_info, ZEROKEY, BlockInfo_encode r) \<in> block_after blk blob info xs D"
    proof (cases "n = card (tbl D T_blocks)")
      case True
      with m assms(4,5) show ?thesis by blast
    next
      case False
      with n have "n < card (tbl D T_blocks)" by simp
      with d(3) m show ?thesis unfolding dense_blocks_def by blast
    qed
  qed
  ultimately show ?thesis by (simp add: tables_ok_def)
qed


lemma block_info_outcome:
  assumes "txn_laws L cont" "tolerates X" "(T_block_info, ZEROKEY, BlockInfo_encode r) \<in> cont t" "length (bi_hash r) = 32"
    "bi_height r = n" "Q r"
  shows "outcome X (block_info_in L t n) Q"
  unfolding block_info_in_def outcome_simps
proof (rule txn_lawsD(5) [OF assms(1,2)])
  fix v assume v: "(T_block_info, ZEROKEY, v) \<in> cont t" "same_dup T_block_info (u64_to_le_bytes n) v"
  have "v = BlockInfo_encode r"
    by (rule txn_lawsD(2) [OF assms(1) v(1) assms(3)]) (use v(2) assms(4,5) in \<open>simp add: BlockInfo_layout\<close>)
  then show "outcome X (found (Some v)) (\<lambda>raw. outcome X (decoded (BlockInfo_decode raw)) Q)"
    using assms(4,6) by (simp add: outcome_decoded [OF block_info.dec_enc])
next
  assume "\<forall>v' \<in> grp (cont t) T_block_info ZEROKEY. \<not> same_dup T_block_info (u64_to_le_bytes n) v'"
  with assms(3,4,5) show "outcome X (found None) (\<lambda>raw. outcome X (decoded (BlockInfo_decode raw)) Q)"
    by (auto simp: grp_def BlockInfo_layout)
qed

lemma put_block_outcome:
  assumes "txn_laws L cont" "tolerates X" "cont t = D" "dense_blocks D'" "unat (bi_height info) = card (tbl D' T_blocks)"
    "length (bi_hash info) = 32" "\<And>v. (T_block_heights, ZEROKEY, v) \<in> D' \<Longrightarrow> le_key32 v \<noteq> le_key32 (bi_hash info)"
    "\<And>T k v. T \<notin> tx_tables \<Longrightarrow> (T, k, v) \<in> D \<longleftrightarrow> (T, k, v) \<in> D'"
    "\<And>t'. cont t' = D \<union> block_own blk blob info \<Longrightarrow> Q t'"
  shows "outcome X (engine (lm_put L t T_blocks (u64_to_le_bytes (bi_height info)) blob)) (\<lambda>t.
    outcome X (engine (lm_put L t T_block_info ZEROKEY (BlockInfo_encode info))) (\<lambda>t.
    outcome X (engine (lm_put L t T_block_heights ZEROKEY (BlockHeight_encode \<lparr>bh_hash = bi_hash info, bh_height = bi_height info\<rparr>))) (\<lambda>t.
    outcome X (engine (lm_put L t T_hf_versions (u64_to_le_bytes (bi_height info)) [major_version (header blk)])) Q)))"
proof -
  have T: "T_blocks \<notin> tx_tables" "T_block_info \<notin> tx_tables" "T_block_heights \<notin> tx_tables" "T_hf_versions \<notin> tx_tables"
    by (simp_all add: tx_tables_def)
  note m = T [THEN assms(8)] and f = fresh_height [OF assms(4,5)]
  show ?thesis
  proof (rule put_step [OF assms(1,2,3)], use f(1) m(1) in blast)
    fix t1 assume t1: "cont t1 = insert (T_blocks, u64_to_le_bytes (bi_height info), blob) D"
    show "outcome X (engine (lm_put L t1 T_block_info ZEROKEY (BlockInfo_encode info))) (\<lambda>t.
      outcome X (engine (lm_put L t T_block_heights ZEROKEY (BlockHeight_encode \<lparr>bh_hash = bi_hash info, bh_height = bi_height info\<rparr>))) (\<lambda>t.
      outcome X (engine (lm_put L t T_hf_versions (u64_to_le_bytes (bi_height info)) [major_version (header blk)])) Q))"
    proof (rule put_step [OF assms(1,2) t1])
      show "\<not> clash T_block_info (BlockInfo_encode info) v'"
        if "(T_block_info, ZEROKEY, v') \<in> insert (T_blocks, u64_to_le_bytes (bi_height info), blob) D" for v'
        using that f(3) [of v'] by (simp add: m BlockInfo_layout [OF assms(6)])
      fix t2 assume t2: "cont t2 = insert (T_block_info, ZEROKEY, BlockInfo_encode info) (insert (T_blocks, u64_to_le_bytes (bi_height info), blob) D)"
      show "outcome X (engine (lm_put L t2 T_block_heights ZEROKEY (BlockHeight_encode \<lparr>bh_hash = bi_hash info, bh_height = bi_height info\<rparr>))) (\<lambda>t.
        outcome X (engine (lm_put L t T_hf_versions (u64_to_le_bytes (bi_height info)) [major_version (header blk)])) Q)"
        apply (rule put_step [OF assms(1,2) t2])
        subgoal for v' using assms(7) [of v'] by (auto simp: m BlockHeight_layout assms(6))
        apply (rule put_step [OF assms(1,2)], assumption)
        subgoal for t' v' using f(2) by (simp add: m)
        apply (rule assms(9))
        apply (simp add: block_own_def insert_commute)
        done
    qed
  qed
qed

lemma add_block_outcome:
  assumes "txn_laws L cont" "tolerates X" "tables_ok (cont t)" "storable_block C blk blob m xs" "fresh_block blk (m # xs) (cont t)"
    "\<And>info t'. bi_weight info = w \<Longrightarrow> bi_long_term_block_weight info = ltw \<Longrightarrow> bi_cumulative_difficulty info = cd \<Longrightarrow> bi_coins info = coins \<Longrightarrow>
       block_id blk = Some (bi_hash info) \<Longrightarrow> unat (bi_height info) = card (tbl (cont t) T_blocks) \<Longrightarrow>
       txs_ready C (bi_height info) (m # xs) (cont t) \<Longrightarrow> cont t' = block_after blk blob info (m # xs) (cont t) \<Longrightarrow> Q (bi_height info, t')"
  shows "outcome X (writer_add_block C L blk blob w ltw cd coins (map (\<lambda>x. (it_tx x, it_blob x)) xs) t) Q"
proof -
  obtain h where h: "block_id blk = Some h" using assms(4) by (auto simp: storable_block_def)
  have s: "it_tx m = miner_tx blk" "Transaction_write [] (miner_tx blk) = it_blob m" "\<forall>x \<in> set (m # xs). wf_item C x"
    using assms(4) by (simp_all add: storable_block_def)
  have d: "dense_outputs (cont t)" "dense_txs (cont t)" "dense_blocks (cont t)" using assms(3) by (simp_all add: tables_ok_def)
  have fr: "fresh_items (m # xs) (cont t)" "\<And>v. (T_block_heights, ZEROKEY, v) \<in> cont t \<Longrightarrow> le_key32 v \<noteq> le_key32 h"
    using assms(5) h by (simp_all add: fresh_block_def)
  have adds: "outcome X (add_transaction C L t height (it_tx m) (it_blob m)) (\<lambda>t.
      outcome X (add_transactions C L t height (map (\<lambda>x. (it_tx x, it_blob x)) xs)) P)"
    if "\<And>t'. cont t' = txs_state height (m # xs) (cont t) \<Longrightarrow> txs_ready C height (m # xs) (cont t) \<Longrightarrow> P t'" for height P
    using add_transactions_outcome [OF assms(1,2) s(3) d(1,2) fr(1), of height P] that by simp
  show ?thesis unfolding writer_add_block_def Let_def outcome_simps
  proof (rule txn_lawsD(3) [OF assms(1,2)])
    fix n :: u64 assume n: "unat n = card (tbl (cont t) T_blocks)"
    have body: "outcome X (add_transaction C L t n (it_tx m) (it_blob m)) (\<lambda>t.
      outcome X (add_transactions C L t n (map (\<lambda>x. (it_tx x, it_blob x)) xs)) (\<lambda>t.
      outcome X (engine (lm_put L t T_blocks (u64_to_le_bytes n) blob)) (\<lambda>t.
      outcome X (engine (lm_put L t T_block_info ZEROKEY (BlockInfo_encode \<lparr>bi_height = n, bi_timestamp = ts, bi_coins = coins,
                 bi_weight = w, bi_cumulative_difficulty = cd, bi_hash = h, bi_cum_rct = rct, bi_long_term_block_weight = ltw\<rparr>))) (\<lambda>t.
      outcome X (engine (lm_put L t T_block_heights ZEROKEY (BlockHeight_encode \<lparr>bh_hash = h, bh_height = n\<rparr>))) (\<lambda>t.
      outcome X (engine (lm_put L t T_hf_versions (u64_to_le_bytes n) [major_version (header blk)])) (\<lambda>t. Q (n, t)))))))" for rct ts
    proof (rule adds)
      fix t' assume t': "cont t' = txs_state n (m # xs) (cont t)" and r: "txs_ready C n (m # xs) (cont t)"
      let ?info = "\<lparr>bi_height = n, bi_timestamp = ts, bi_coins = coins,
                 bi_weight = w, bi_cumulative_difficulty = cd, bi_hash = h, bi_cum_rct = rct, bi_long_term_block_weight = ltw\<rparr>"
      show "outcome X (engine (lm_put L t' T_blocks (u64_to_le_bytes n) blob)) (\<lambda>t.
        outcome X (engine (lm_put L t T_block_info ZEROKEY (BlockInfo_encode ?info))) (\<lambda>t.
        outcome X (engine (lm_put L t T_block_heights ZEROKEY (BlockHeight_encode \<lparr>bh_hash = h, bh_height = n\<rparr>))) (\<lambda>t.
        outcome X (engine (lm_put L t T_hf_versions (u64_to_le_bytes n) [major_version (header blk)])) (\<lambda>t. Q (n, t)))))"
        by (rule put_block_outcome [OF assms(1,2) t' d(3), where info = ?info, simplified BlockInfo.simps])
          (use n r length_block_id [OF h] fr(2) txs_state_other assms(6) [of ?info] h in \<open>auto simp: block_after_def simp del: txs_state.simps\<close>)
    qed
    have info: "outcome X (if 0 < n then and_then (block_info_in L t (n - 1)) (\<lambda>i. Inr (bi_cum_rct i)) else Inr 0) P" if "\<And>r. P r" for P
    proof (cases "0 < n")
      case True
      then have "unat (n - 1) < card (tbl (cont t) T_blocks)" using n unat_gt_0 [of n] by (simp add: unat_minus_one word_greater_zero_iff del: unat_gt_0)
      then obtain r where "length (bi_hash r) = 32" "bi_height r = n - 1" "(T_block_info, ZEROKEY, BlockInfo_encode r) \<in> cont t"
        using d(3) word_unat_eq_iff unfolding dense_blocks_def by blast
      then show ?thesis using True that by (auto intro!: block_info_outcome [OF assms(1,2)])
    qed (use that in simp)
    show "outcome X (found (block_id blk)) (\<lambda>block_hash. outcome X
        (if 0 < n then and_then (block_info_in L t (n - 1)) (\<lambda>i. Inr (bi_cum_rct i)) else Inr 0) (\<lambda>rct.
        outcome X (add_transaction C L t n (miner_tx blk) (Transaction_write [] (miner_tx blk))) (\<lambda>t.
        outcome X (add_transactions C L t n (map (\<lambda>x. (it_tx x, it_blob x)) xs)) (\<lambda>t.
        outcome X (engine (lm_put L t T_blocks (u64_to_le_bytes n) blob)) (\<lambda>t.
        outcome X (engine (lm_put L t T_block_info ZEROKEY (BlockInfo_encode \<lparr>bi_height = n, bi_timestamp = timestamp (header blk), bi_coins = coins,
                 bi_weight = w, bi_cumulative_difficulty = cd, bi_hash = block_hash,
                 bi_cum_rct = cumulative_rct_outputs n (major_version (header blk)) (version (tx_prefix (miner_tx blk)))
                   (length (vout (tx_prefix (miner_tx blk))))
                   (map (\<lambda>(tx, _). (version (tx_prefix tx), length (vout (tx_prefix tx)))) (map (\<lambda>x. (it_tx x, it_blob x)) xs)) rct,
                 bi_long_term_block_weight = ltw\<rparr>))) (\<lambda>t.
        outcome X (engine (lm_put L t T_block_heights ZEROKEY (BlockHeight_encode \<lparr>bh_hash = block_hash, bh_height = n\<rparr>))) (\<lambda>t.
        outcome X (engine (lm_put L t T_hf_versions (u64_to_le_bytes n) [major_version (header blk)])) (\<lambda>t. Q (n, t)))))))))"
      unfolding h outcome_found option.case s(2) by (rule info) (rule body [unfolded s(1)])
  qed
qed


lemma block_unwind:
  assumes "dense_blocks D" "unat (bi_height info) = card (tbl D T_blocks)" "length (bi_hash info) = 32"
    "\<And>v. (T_block_heights, ZEROKEY, v) \<in> D \<Longrightarrow> le_key32 v \<noteq> le_key32 (bi_hash info)"
  shows "del_entry T_hf_versions (u64_to_le_bytes (bi_height info)) None
    (del_entry T_blocks (u64_to_le_bytes (bi_height info)) None
    (del_entry T_block_heights ZEROKEY (Some (BlockHeight_encode \<lparr>bh_hash = bi_hash info, bh_height = bi_height info\<rparr>))
    (del_entry T_block_info ZEROKEY (Some (BlockInfo_encode info)) (D \<union> block_own blk blob info)))) = D"
  using fresh_height(1,2) [OF assms(1,2)]
  by (auto simp: del_entry_def block_own_def BlockInfo_layout BlockHeight_layout assms(3)
      dest: assms(4) fresh_height(3) [OF assms(1,2)])

lemma pop_block_outcome:
  assumes "txn_laws L cont" "tolerates X" "finite D" "dense_blocks D" "storable_block C blk blob m xs" "fresh_block blk (m # xs) D"
    "block_id blk = Some (bi_hash info)" "unat (bi_height info) = card (tbl D T_blocks)" "txs_ready C (bi_height info) (m # xs) D"
    "cont t = block_after blk blob info (m # xs) D" "\<And>t'. cont t' = D \<Longrightarrow> Q ((blk, map it_tx xs), t')"
  shows "outcome X (writer_pop_block C L t) Q"
proof -
  let ?n = "bi_height info" and ?B = "block_own blk blob info"
  let ?M = "tx_after ?n m (D \<union> ?B)"
  have s: "block_from_blob blob = Inr blk" "it_tx m = miner_tx blk" "Transaction_write [] (miner_tx blk) = it_blob m"
    "tx_hashes blk = map it_hash xs" "transaction_hash_from_blob (miner_tx blk) (it_blob m) = Some (it_hash m)"
    using assms(5) unfolding storable_block_def wf_item_def by (metis list.set_intros(1))+
  have l: "length (bi_hash info) = 32" by (rule length_block_id [OF assms(7)])
  have fh: "\<And>v. (T_block_heights, ZEROKEY, v) \<in> D \<Longrightarrow> le_key32 v \<noteq> le_key32 (bi_hash info)"
    using assms(6,7) by (simp add: fresh_block_def)
  note fr = txs_frame(1) [OF block_own_outside, of ?n "m # xs" D blk blob info]
  have st: "cont t = txs_state ?n xs ?M" using fr by (simp add: assms(10) block_after_def)
  have rd: "txs_ready C ?n xs ?M" "tx_ready C ?n m (D \<union> ?B)"
    using assms(9) txs_frame(2) [OF block_own_outside, of C ?n "m # xs" D blk blob info] by simp_all
  have blob: "(T_blocks, u64_to_le_bytes ?n, v) \<in> cont t \<longleftrightarrow> v = blob" for v
    using fresh_height(1) [OF assms(4,8)] block_after_other [of T_blocks]
    by (simp add: assms(10) tx_tables_def block_own_def)
  have dels: "outcome X (block_info_in L t' ?n) (\<lambda>info.
      outcome X (engine_del L t' T_block_info ZEROKEY (Some (BlockInfo_encode info))) (\<lambda>t.
      outcome X (engine_del L t T_block_heights ZEROKEY (Some (BlockHeight_encode \<lparr>bh_hash = bi_hash info, bh_height = ?n\<rparr>))) (\<lambda>t.
      outcome X (engine_del L t T_blocks (u64_to_le_bytes ?n) None) (\<lambda>t.
      outcome X (engine_del L t T_hf_versions (u64_to_le_bytes ?n) None) (\<lambda>t. Q ((blk, map it_tx xs), t))))))" if t': "cont t' = D \<union> ?B" for t'
  proof (rule block_info_outcome [OF assms(1,2) _ l])
    show "(T_block_info, ZEROKEY, BlockInfo_encode info) \<in> cont t'" by (simp add: t' block_own_def)
    show "outcome X (engine_del L t' T_block_info ZEROKEY (Some (BlockInfo_encode info))) (\<lambda>t.
      outcome X (engine_del L t T_block_heights ZEROKEY (Some (BlockHeight_encode \<lparr>bh_hash = bi_hash info, bh_height = ?n\<rparr>))) (\<lambda>t.
      outcome X (engine_del L t T_blocks (u64_to_le_bytes ?n) None) (\<lambda>t.
      outcome X (engine_del L t T_hf_versions (u64_to_le_bytes ?n) None) (\<lambda>t. Q ((blk, map it_tx xs), t)))))"
      apply (rule del_step [OF assms(1,2) t'], rule del_step [OF assms(1,2)], assumption, rule del_step [OF assms(1,2)], assumption,
          rule del_step [OF assms(1,2)], assumption)
      apply (rule assms(11))
      apply (simp only: block_unwind [OF assms(4,8) l fh])
      done
  qed simp
  show ?thesis unfolding writer_pop_block_def Let_def outcome_simps
  proof (rule txn_lawsD(3) [OF assms(1,2)])
    fix k :: u64 assume k: "unat k = card (tbl (cont t) T_blocks)"
    have sc: "unat k = Suc (unat ?n)" unfolding k assms(10) by (simp add: block_after_card [OF assms(4,3,8)] assms(8))
    then have k0: "k \<noteq> 0" by auto
    then have k1: "k - 1 = ?n" using sc by (simp add: word_unat_eq_iff unat_minus_one)
    show "outcome X (if k = 0 then Inl (Err NotFound) else
       and_then (engine (lm_get L t T_blocks (u64_to_le_bytes (k - 1)))) (\<lambda>r.
       and_then (found r) (\<lambda>blob.
       and_then (case block_from_blob blob of
                   Inl _ \<Rightarrow> Inl (Err (DbRecord (WrongLength 0 (length blob)))) | Inr b \<Rightarrow> Inr b) (\<lambda>blk.
       and_then (remove_transactions C L (rev (tx_hashes blk)) t) (\<lambda>(popped, t).
       and_then (found (transaction_hash_from_blob (miner_tx blk) (Transaction_write [] (miner_tx blk)))) (\<lambda>miner_hash.
       and_then (remove_transaction C L miner_hash t) (\<lambda>(_, t).
       and_then (block_info_in L t (k - 1)) (\<lambda>info.
       and_then (engine_del L t T_block_info ZEROKEY (Some (BlockInfo_encode info))) (\<lambda>t.
       and_then (engine_del L t T_block_heights ZEROKEY
         (Some (BlockHeight_encode \<lparr>bh_hash = bi_hash info, bh_height = k - 1\<rparr>))) (\<lambda>t.
       and_then (engine_del L t T_blocks (u64_to_le_bytes (k - 1)) None) (\<lambda>t.
       and_then (engine_del L t T_hf_versions (u64_to_le_bytes (k - 1)) None) (\<lambda>t.
       Inr ((blk, rev popped), t))))))))))))) Q"
      unfolding if_not_P [OF k0] k1 outcome_simps
      apply (rule get_one [OF assms(1,2) blob])
      apply (simp only: outcome_found option.case s outcome_simps sum.case)
      apply (rule remove_transactions_outcome [OF assms(1,2) rd(1) st])
      apply (simp only: case_prod_conv outcome_simps outcome_found option.case s)
      apply (rule remove_transaction_outcome [OF assms(1,2) rd(2)], assumption)
      apply (simp only: case_prod_conv outcome_simps rev_rev_ident)
      apply (rule dels, assumption)
      done
  qed
qed


section \<open>Write transactions\<close>

text \<open>What a write can fail with when its body only fails with the engine.\<close>

definition outage :: "DbError \<Rightarrow> bool" where
  "outage e \<longleftrightarrow> e = ReadOnly \<or> (\<exists>l. e = DbBackend (BackendLmdb l)) \<or> (\<exists>a b. e = DbBackend (NoRoomToGrow a b))"

text \<open>A write keeps what is stored, or does what its body does.\<close>

definition atomic :: "('e \<Rightarrow> entry set) \<Rightarrow> entry set \<Rightarrow> ('a \<Rightarrow> entry set \<Rightarrow> bool) \<Rightarrow> (DbError + 'a) \<times> 'e \<Rightarrow> bool" where
  "atomic stored D P p \<longleftrightarrow> (case fst p of Inl x \<Rightarrow> outage x \<and> stored (snd p) = D | Inr a \<Rightarrow> P a (stored (snd p)))"

lemma atomic_simps [simp]:
  "atomic stored D P (Inl x, e) \<longleftrightarrow> outage x \<and> stored e = D"
  "atomic stored D P (Inr a, e) \<longleftrightarrow> P a (stored e)"
  by (simp_all add: atomic_def)

lemma outage_quiet: "quiet (Inl err) \<Longrightarrow> outage (from_lmdb err)"
  by (simp add: quiet_def outage_def from_lmdb_def)

lemma env_lawsD:
  assumes "env_laws L cont stored"
  shows "lm_write_txn L e = Inr t \<Longrightarrow> cont t = stored e" "lm_commit L t = Inr e \<Longrightarrow> stored e = cont t"
    "lm_set_map_size L e n = Inr e' \<Longrightarrow> stored e' = stored e"
    "lm_write_txn L e = Inl err \<Longrightarrow> outage (from_lmdb err)" "lm_commit L t = Inl err \<Longrightarrow> outage (from_lmdb err)"
    "lm_size_info L e = Inl err \<Longrightarrow> outage (from_lmdb err)" "lm_set_map_size L e n = Inl err \<Longrightarrow> outage (from_lmdb err)"
proof -
  note l = assms [unfolded env_laws_def]
  show "lm_write_txn L e = Inr t \<Longrightarrow> cont t = stored e" "lm_commit L t = Inr e \<Longrightarrow> stored e = cont t"
    "lm_set_map_size L e n = Inr e' \<Longrightarrow> stored e' = stored e" using l by blast+
  show "lm_write_txn L e = Inl err \<Longrightarrow> outage (from_lmdb err)" "lm_commit L t = Inl err \<Longrightarrow> outage (from_lmdb err)"
    "lm_size_info L e = Inl err \<Longrightarrow> outage (from_lmdb err)" "lm_set_map_size L e n = Inl err \<Longrightarrow> outage (from_lmdb err)"
    using l outage_quiet by metis+
qed

lemma grow_map_stored:
  assumes "env_laws L cont stored" "grow_map L e wanted = (r, e')"
  shows "stored e' = stored e" "r = Inl g \<Longrightarrow> g = ResizeWhileOpen \<or> outage g"
proof -
  have ei: "outage (from_lmdb \<lparr>lmdb_code = EINVAL, lmdb_op = s\<rparr>)" for s
    by (simp add: outage_def from_lmdb_def EINVAL_def MDB_NOTFOUND_def)
  have nr: "outage (DbBackend (NoRoomToGrow a b))" for a b by (simp add: outage_def)
  note g = assms(2) [unfolded grow_map_def env_resize_def]
  note l = env_lawsD [OF assms(1)]
  show "stored e' = stored e"
    using g by (auto split: if_splits option.splits sum.splits prod.splits dest: l(3))
  show "g = ResizeWhileOpen \<or> outage g" if "r = Inl g"
    using g that ei nr by (auto split: if_splits option.splits sum.splits prod.splits dest: l(6,7))
qed

lemma grow_if_stored: "env_laws L cont stored \<Longrightarrow> stored (grow_if_nearly_full L e) = stored e"
  using grow_map_stored(1) [of L cont stored e "nearly_full L"]
  by (cases "grow_map L e (nearly_full L)") (auto simp: grow_if_nearly_full_def split: sum.splits)

lemma write_once_atomic:
  assumes "env_laws L cont stored" "\<And>t. cont t = stored e \<Longrightarrow> outcome is_engine (f t) (\<lambda>(a, t'). P a (cont t'))"
  shows "\<exists>r e'. write_once L f e = Some (r, e') \<and> atomic stored (stored e) P (r, e')"
proof (cases "lm_write_txn L e")
  case (Inl err)
  then show ?thesis using env_lawsD(4) [OF assms(1)] by (simp add: write_once_def)
next
  case (Inr t)
  then have o: "outcome is_engine (f t) (\<lambda>(a, t'). P a (cont t'))" by (intro assms(2) env_lawsD(1) [OF assms(1)])
  show ?thesis
  proof (cases "f t")
    case (Inl x)
    with o Inr show ?thesis by (auto simp: write_once_def is_engine_def outage_def)
  next
    case (Inr p)
    with o \<open>lm_write_txn L e = Inr t\<close> env_lawsD(2,5) [OF assms(1), of "snd p"]
    show ?thesis by (cases "lm_commit L (snd p)") (auto simp: write_once_def case_prod_unfold)
  qed
qed

lemma write_atomic:
  assumes "env_laws L cont stored" "\<And>t. cont t = stored (ld_env db) \<Longrightarrow> outcome is_engine (f t) (\<lambda>(a, t'). P a (cont t'))"
  shows "\<exists>r db'. lmdb_write L f db = Some (r, db') \<and> atomic stored (stored (ld_env db)) P (r, ld_env db')"
proof (cases "ld_read_only db")
  case True
  then show ?thesis by (simp add: lmdb_write_def outage_def)
next
  case False
  let ?D = "stored (ld_env db)" and ?e = "grow_if_nearly_full L (ld_env db)"
  have once: "\<exists>r e'. write_once L f e = Some (r, e') \<and> atomic stored ?D P (r, e')" if e: "stored e = ?D" for e
    using write_once_atomic [OF assms(1), of e f P] assms(2) by (simp add: e)
  have e0: "stored ?e = ?D" by (rule grow_if_stored [OF assms(1)])
  show ?thesis
  proof (cases "lm_size_info L ?e")
    case (Inl err)
    with False e0 env_lawsD(6) [OF assms(1) Inl] show ?thesis by (simp add: lmdb_write_def Let_def)
  next
    case (Inr m)
    obtain r e1 where w: "write_once L f ?e = Some (r, e1)" "atomic stored ?D P (r, e1)" using once [OF e0] by blast
    show ?thesis
    proof (cases r)
      case (Inr a)
      with False w \<open>lm_size_info L ?e = Inr m\<close> show ?thesis by (simp add: lmdb_write_def Let_def)
    next
      case (Inl x)
      with w have x: "outage x" "stored e1 = ?D" by simp_all
      obtain g e2 where g: "grow_map L e1 (\<lambda>m'. mi_map_size m' \<le> mi_map_size m) = (g, e2)" by force
      note gm = grow_map_stored [OF assms(1) g]
      obtain r2 e3 where w2: "write_once L f e2 = Some (r2, e3)" "atomic stored ?D P (r2, e3)" using once [of e2] gm(1) x(2) by auto
      show ?thesis using False w w2 x gm g Inl \<open>lm_size_info L ?e = Inr m\<close>
        by (cases g) (auto simp: lmdb_write_def Let_def outage_def split: DbError.splits)
    qed
  qed
qed


section \<open>Reading back\<close>

lemma get_present:
  assumes "txn_laws L cont" "tolerates X" "(T, k, v) \<in> cont t" "\<not> dup_table T" "Q (Some v)"
  shows "outcome X (engine (lm_get L t T k)) Q"
proof (rule txn_lawsD(4) [OF assms(1,2)])
  fix v' assume "(T, k, v') \<in> cont t"
  from txn_lawsD(2) [OF assms(1) this assms(3)] assms(4,5) show "Q (Some v')" by simp
next
  assume "grp (cont t) T k = {}"
  with assms(3) show "Q None" by (auto simp: grp_def)
qed

lemma get_both_present:
  assumes "txn_laws L cont" "tolerates X" "(T, k, v) \<in> cont t" "dup_table T" "same_dup T w v"
    "\<And>v'. same_dup T w v' \<Longrightarrow> same_dup T v' v" "Q (Some v)"
  shows "outcome X (engine (lm_get_both L t T k w)) Q"
proof (rule txn_lawsD(5) [OF assms(1,2)])
  fix v' assume "(T, k, v') \<in> cont t" "same_dup T w v'"
  with txn_lawsD(2) [OF assms(1) this(1) assms(3)] assms(4,6,7) show "Q (Some v')" by simp
next
  assume "\<forall>v' \<in> grp (cont t) T k. \<not> same_dup T w v'"
  with assms(3,5) show "Q None" by (auto simp: grp_def)
qed

lemma out_state_mono: "D \<subseteq> out_state h tx height sos D n"
  by (induction n) (auto simp: out_step_def)

lemma tx_after_has: "D \<union> tx_own height x (next_tx D) \<subseteq> tx_after height x D"
  using out_state_mono [of D] unfolding tx_after_eq by blast

lemma txs_state_mono: "D \<subseteq> txs_state height xs D"
proof (induction xs arbitrary: D)
  case (Cons y ys)
  show ?case using Cons.IH [of "tx_after height y D"] tx_after_has [of D height y] by (simp only: txs_state.simps) blast
qed simp

lemma txs_state_has: "x \<in> set xs \<Longrightarrow> \<exists>n. tx_own height x n \<subseteq> txs_state height xs D"
proof (induction xs arbitrary: D)
  case (Cons y ys)
  show ?case
  proof (cases "x = y")
    case True
    then show ?thesis using txs_state_mono [of "tx_after height y D" height ys] tx_after_has [of D height y]
      by (simp only: txs_state.simps) blast
  next
    case False
    with Cons show ?thesis by simp
  qed
qed simp

text \<open>The reads that must answer, on what is stored of a block and its transactions.\<close>

definition answers :: "DbError failure + 'a \<Rightarrow> 'a \<Rightarrow> bool" where
  "answers r x \<longleftrightarrow> outcome is_engine r (\<lambda>y. y = x)"

lemma read_answers:
  assumes "env_laws L cont stored" "\<And>t. cont t = stored (ld_env db) \<Longrightarrow> outcome is_engine (f t) (\<lambda>y. y = x)"
  shows "answers (lmdb_read L db f) x"
proof -
  have "quiet (lm_read_txn L (ld_env db))" "lm_read_txn L (ld_env db) = Inr t \<Longrightarrow> cont t = stored (ld_env db)" for t
    using assms(1) unfolding env_laws_def by blast+
  then show ?thesis
    unfolding answers_def lmdb_read_def outcome_simps by (intro outcome_engine) (auto intro: assms(2))
qed

lemma tx_reads:
  assumes "txn_laws L cont" "tolerates X" "wf_item C x" "tx_own height x n \<subseteq> cont t"
  shows "Q1 (item_index height x n) \<Longrightarrow> outcome X (tx_index_in L t (it_hash x)) Q1"
    and "Q2 (Some (take (unprunable_size (it_tx x)) (it_blob x))) \<Longrightarrow> outcome X (engine (lm_get L t T_txs_pruned (u64_to_le_bytes n))) Q2"
    and "Q2 (Some (drop (unprunable_size (it_tx x)) (it_blob x))) \<Longrightarrow> outcome X (engine (lm_get L t T_txs_prunable (u64_to_le_bytes n))) Q2"
    and "ki \<in> set (spent_key_images (it_tx x)) \<Longrightarrow> Q2 (Some ki) \<Longrightarrow> outcome X (engine (lm_get_both L t T_spent_keys ZEROKEY ki)) Q2"
proof -
  have l: "length (it_hash x) = 32" using assms(3) by (simp add: wf_item_def storable_def)
  have m: "(T_tx_indices, ZEROKEY, TxIndex_encode (item_index height x n)) \<in> cont t"
    "(T_txs_pruned, u64_to_le_bytes n, take (unprunable_size (it_tx x)) (it_blob x)) \<in> cont t"
    "(T_txs_prunable, u64_to_le_bytes n, drop (unprunable_size (it_tx x)) (it_blob x)) \<in> cont t"
    by (rule subsetD [OF assms(4)], simp add: tx_own_mem)+
  show "outcome X (tx_index_in L t (it_hash x)) Q1" if "Q1 (item_index height x n)"
    unfolding tx_index_in_def outcome_simps
    by (rule get_both_present [OF assms(1,2) m(1)], simp, simp add: TxIndex_layout l, simp add: TxIndex_layout l,
        simp add: outcome_decoded [OF tx_index.dec_enc] l that)
  show "outcome X (engine (lm_get L t T_txs_pruned (u64_to_le_bytes n))) Q2" if "Q2 (Some (take (unprunable_size (it_tx x)) (it_blob x)))"
    by (rule get_present [OF assms(1,2) m(2)]) (use that in simp_all)
  show "outcome X (engine (lm_get L t T_txs_prunable (u64_to_le_bytes n))) Q2" if "Q2 (Some (drop (unprunable_size (it_tx x)) (it_blob x)))"
    by (rule get_present [OF assms(1,2) m(3)]) (use that in simp_all)
  show "outcome X (engine (lm_get_both L t T_spent_keys ZEROKEY ki)) Q2" if k: "ki \<in> set (spent_key_images (it_tx x))" "Q2 (Some ki)"
    by (rule get_both_present [OF assms(1,2), where v = ki], rule subsetD [OF assms(4)]) (simp_all add: tx_own_mem k)
qed

lemma block_reads:
  assumes "txn_laws L cont" "tolerates X" "block_own blk blob info \<subseteq> cont t" "length (bi_hash info) = 32"
  shows "Q1 (Some blob) \<Longrightarrow> outcome X (engine (lm_get L t T_blocks (u64_to_le_bytes (bi_height info)))) Q1"
    and "Q2 (bi_height info) \<Longrightarrow> outcome X (block_height_in L t (bi_hash info)) Q2"
    and "Q3 info \<Longrightarrow> outcome X (block_info_in L t (bi_height info)) Q3"
proof -
  have m: "(T_blocks, u64_to_le_bytes (bi_height info), blob) \<in> cont t" "(T_block_info, ZEROKEY, BlockInfo_encode info) \<in> cont t"
    "(T_block_heights, ZEROKEY, BlockHeight_encode \<lparr>bh_hash = bi_hash info, bh_height = bi_height info\<rparr>) \<in> cont t"
    using assms(3) by (simp_all add: block_own_def)
  show "outcome X (engine (lm_get L t T_blocks (u64_to_le_bytes (bi_height info)))) Q1" if "Q1 (Some blob)"
    by (rule get_present [OF assms(1,2) m(1)]) (use that in simp_all)
  show "outcome X (block_height_in L t (bi_hash info)) Q2" if "Q2 (bi_height info)"
    unfolding block_height_in_def outcome_simps
    by (rule get_both_present [OF assms(1,2) m(3)], simp, simp add: BlockHeight_layout assms(4), simp add: BlockHeight_layout assms(4),
        simp add: outcome_decoded [OF block_height.dec_enc] assms(4) that)
  show "outcome X (block_info_in L t (bi_height info)) Q3" if "Q3 info"
    by (rule block_info_outcome [OF assms(1,2) m(2) assms(4)]) (use that in simp_all)
qed

section \<open>An engine\<close>

text \<open>A list of entries with the laws of the engine: the newest entry of a clash counts.\<close>

definition clashing :: "entry \<Rightarrow> entry \<Rightarrow> bool" where
  "clashing x y \<longleftrightarrow> fst x = fst y \<and> fst (snd x) = fst (snd y) \<and> clash (fst x) (snd (snd x)) (snd (snd y))"

definition norm_put :: "entry \<Rightarrow> entry list \<Rightarrow> entry list" where
  "norm_put x xs = x # filter (\<lambda>y. \<not> clashing x y) xs"

definition norm_entries :: "entry list \<Rightarrow> entry list" where
  "norm_entries xs = foldr norm_put xs []"

definition hit :: "Db \<Rightarrow> bytes \<Rightarrow> entry \<Rightarrow> bool" where
  "hit T k x \<longleftrightarrow> fst x = T \<and> fst (snd x) = k"

definition list_number :: "nat \<Rightarrow> LmdbError + u64" where
  "list_number n = (if n < 2 ^ 64 then Inr (word_of_nat n) else Inl \<lparr>lmdb_code = EINVAL, lmdb_op = ''count''\<rparr>)"

definition list_engine :: "(entry list, entry list) lmdb" where
  "list_engine = \<lparr>lm_read_txn = Inr, lm_write_txn = Inr, lm_commit = Inr,
     lm_entries = (\<lambda>t T. list_number (length (filter (\<lambda>x. fst x = T) (norm_entries t)))),
     lm_get = (\<lambda>t T k. Inr (map_option (snd \<circ> snd) (find (hit T k) (norm_entries t)))),
     lm_get_both = (\<lambda>t T k v. Inr (map_option (snd \<circ> snd) (find (\<lambda>x. hit T k x \<and> same_dup T v (snd (snd x))) (norm_entries t)))),
     lm_set = (\<lambda>t T k. Inr (list_ex (hit T k) (norm_entries t))),
     lm_count = (\<lambda>t T k. list_number (length (filter (hit T k) (norm_entries t)))),
     lm_put = (\<lambda>t T k v. Inr ((T, k, v) # t)),
     lm_del = (\<lambda>t T k w. Inr (True, filter (\<lambda>x. \<not> (hit T k x \<and> (case w of None \<Rightarrow> True | Some v \<Rightarrow> same_dup T v (snd (snd x))))) (norm_entries t))),
     lm_clear_db = (\<lambda>t T. Inr (filter (\<lambda>x. fst x \<noteq> T) (norm_entries t))),
     lm_size_info = (\<lambda>_. Inr \<lparr>mi_map_size = 2 ^ 30, mi_last_pgno = 0, mi_page_size = 4096\<rparr>),
     lm_holds_txn = (\<lambda>_. False), lm_set_map_size = (\<lambda>e _. Inr e), lm_available_space = (\<lambda>_. None),
     lm_over_ninety = (\<lambda>_ _. False)\<rparr>"

definition list_cont :: "entry list \<Rightarrow> entry set" where
  "list_cont t = set (norm_entries t)"

lemma clash_refl_sym: "clash T a a" "clash T a b \<Longrightarrow> clash T b a"
  by (cases T; simp add: clash_def same_dup_def dup_table_def table_simps cmp_equal_def compare_uint64_le compare_hash32_le)+

abbreviation clash_free :: "entry list \<Rightarrow> bool" where
  "clash_free \<equiv> sorted_wrt (\<lambda>x y. \<not> clashing x y)"

lemma norm_clash_free: "clash_free (norm_entries xs)"
  by (induction xs) (simp_all add: norm_entries_def norm_put_def sorted_wrt_filter)

lemma norm_fixed: "clash_free xs \<Longrightarrow> norm_entries xs = xs"
  by (induction xs) (simp_all add: norm_entries_def norm_put_def filter_id_conv)

lemma clash_free_distinct: "clash_free xs \<Longrightarrow> distinct xs"
  by (induction xs) (auto simp: clashing_def clash_refl_sym(1))

lemma clash_free_unique:
  "clash_free xs \<Longrightarrow> (T, k, v) \<in> set xs \<Longrightarrow> (T, k, v') \<in> set xs \<Longrightarrow> clash T v v' \<Longrightarrow> v = v'"
proof (induction xs)
  case (Cons x xs)
  from Cons.prems(4) have "clash T v' v" by (rule clash_refl_sym(2))
  with Cons show ?case by (auto simp: clashing_def)
qed simp

lemma list_counts:
  "length (filter (\<lambda>x. fst x = T) (norm_entries t)) = card (tbl (list_cont t) T)"
  "length (filter (hit T k) (norm_entries t)) = card (grp (list_cont t) T k)"
proof -
  have d: "length (filter P (norm_entries t)) = card (set (filter P (norm_entries t)))" for P
    by (rule distinct_card [symmetric], rule distinct_filter, rule clash_free_distinct [OF norm_clash_free])
  have "tbl (list_cont t) T = snd ` set (filter (\<lambda>x. fst x = T) (norm_entries t))"
    by (force simp: tbl_def list_cont_def)
  moreover have "inj_on snd (set (filter (\<lambda>x. fst x = T) (norm_entries t)))" by (auto simp: inj_on_def)
  ultimately show "length (filter (\<lambda>x. fst x = T) (norm_entries t)) = card (tbl (list_cont t) T)"
    unfolding d by (simp only: card_image)
  have "grp (list_cont t) T k = (snd \<circ> snd) ` set (filter (hit T k) (norm_entries t))"
    by (force simp: grp_def list_cont_def hit_def)
  moreover have "inj_on (snd \<circ> snd) (set (filter (hit T k) (norm_entries t)))" by (auto simp: inj_on_def hit_def)
  ultimately show "length (filter (hit T k) (norm_entries t)) = card (grp (list_cont t) T k)"
    unfolding d by (simp only: card_image)
qed

lemma list_number_law: "quiet (list_number n)" "list_number n = Inr m \<Longrightarrow> unat m = n"
  by (auto simp: list_number_def quiet_def EINVAL_def MDB_NOTFOUND_def split: if_splits)

lemma quiet_Inr [simp]: "quiet (Inr x)"
  by (simp add: quiet_def)

lemma list_read_laws: "read_txn_laws list_engine list_cont t"
proof -
  have find: "find P xs = Some x \<Longrightarrow> x \<in> set xs \<and> P x" for P and x :: entry and xs
    by (induction xs) (auto split: if_splits)
  show ?thesis
    unfolding read_txn_laws_def
  proof (intro conjI allI impI)
    show "finite (list_cont t)" by (simp add: list_cont_def)
    show "v = v'" if "(T, k, v) \<in> list_cont t" "(T, k, v') \<in> list_cont t" "clash T v v'" for T k v v'
      using clash_free_unique [OF norm_clash_free] that by (auto simp: list_cont_def)
    show "quiet (lm_entries list_engine t T)" for T by (simp add: list_engine_def list_number_law)
    show "unat n = card (tbl (list_cont t) T)" if "lm_entries list_engine t T = Inr n" for T n
      using list_number_law(2) [of _ n] that by (simp add: list_engine_def list_counts)
    show "quiet (lm_get list_engine t T k)" for T k by (simp add: list_engine_def)
    show "case r of None \<Rightarrow> grp (list_cont t) T k = {} | Some v \<Rightarrow> (T, k, v) \<in> list_cont t" if "lm_get list_engine t T k = Inr r" for T k r
      using that by (auto simp: list_engine_def list_cont_def grp_def hit_def find_None_iff dest!: find split: option.splits)
    show "quiet (lm_get_both list_engine t T k v)" for T k v by (simp add: list_engine_def)
    show "case r of None \<Rightarrow> \<forall>v' \<in> grp (list_cont t) T k. \<not> same_dup T v v' | Some v' \<Rightarrow> (T, k, v') \<in> list_cont t \<and> same_dup T v v'"
      if "lm_get_both list_engine t T k v = Inr r" for T k v r
      using that by (auto simp: list_engine_def list_cont_def grp_def hit_def find_None_iff dest!: find split: option.splits)
    show "quiet (lm_set list_engine t T k)" for T k by (simp add: list_engine_def)
    show "b = (grp (list_cont t) T k \<noteq> {})" if "lm_set list_engine t T k = Inr b" for T k b
      using that by (force simp: list_engine_def list_cont_def grp_def hit_def list_ex_iff)
    show "quiet (lm_count list_engine t T k)" for T k by (simp add: list_engine_def list_number_law)
    show "unat n = card (grp (list_cont t) T k)" if "lm_count list_engine t T k = Inr n" for T k n
      using list_number_law(2) [of _ n] that by (simp add: list_engine_def list_counts)
  qed
qed

lemma list_write_laws: "write_txn_laws list_engine list_cont t"
proof -
  have n: "norm_entries (filter P (norm_entries t)) = filter P (norm_entries t)" for P
    by (rule norm_fixed) (rule sorted_wrt_filter [OF norm_clash_free])
  have p: "norm_entries (x # t) = norm_put x (norm_entries t)" for x by (simp add: norm_entries_def)
  show ?thesis unfolding write_txn_laws_def
    by (auto simp: list_engine_def list_cont_def n p norm_put_def put_entry_def del_entry_def clashing_def hit_def
        split: option.splits)
qed

lemma list_txn_laws: "txn_laws list_engine list_cont"
  by (simp add: txn_laws_def list_read_laws list_write_laws)

lemma list_env_laws: "env_laws list_engine list_cont list_cont"
  by (simp add: env_laws_def list_engine_def)


section \<open>The store\<close>

definition sample_item :: stored_item where
  "sample_item = \<lparr>it_tx = sample_tx, it_blob = Transaction_write [] sample_tx, it_hash = the (transaction_hash sample_tx),
     it_outs = [\<lparr>so_amount = 0, so_commitment = scalarmult8 zl_dalek (replicate 32 4)\<rparr>]\<rparr>"

definition lone_block :: Block where
  "lone_block = sample_block\<lparr>tx_hashes := []\<rparr>"

lemma transaction_hash_length: "transaction_hash_from_blob tx b = Some h \<Longrightarrow> length h = 32"
  by (auto simp: transaction_hash_from_blob_def Let_def split: if_splits)

lemma wf_sample_item: "wf_item zl_dalek sample_item"
proof -
  have h: "transaction_hash_from_blob sample_tx (Transaction_write [] sample_tx) = Some (the (transaction_hash sample_tx))"
    using transaction_hash_sample canonical_blob_hash [OF wf_sample_tx] by auto
  obtain c where c: "scalarmult8 zl_dalek (replicate 32 4) = Some c" "length c = 32"
  proof -
    have k: "canonical_loop ((replicate 32 4)[31 := replicate 32 4 ! 31 AND 0x7f]) 32" "replicate 32 4 ! 31 AND 0x80 = (0 :: u8)" by code_simp+
    show ?thesis using that k by (auto simp: scalarmult8_def zl_dalek_def decode_point_def Let_def)
  qed
  have o: "stored_outputs zl_dalek sample_tx = Inr [\<lparr>so_amount = 0, so_commitment = Some c\<rparr>]"
    using c by (simp add: stored_outputs_def sample_tx_def ok_or_def)
  have "storable (the (transaction_hash sample_tx)) sample_tx [\<lparr>so_amount = 0, so_commitment = Some c\<rparr>]"
    using c transaction_hash_length [OF h] by (simp add: storable_def wf_stored_def out_pubkey_def sample_tx_def)
  moreover have "spent_key_images sample_tx = [replicate 32 7]" by (simp add: spent_key_images_def sample_tx_def map_filter_simps)
  ultimately show ?thesis
    using h o c from_blob_sample from_blob_bounds [OF from_blob_sample] by (simp add: wf_item_def sample_item_def)
qed

lemma storable_lone: "storable_block zl_dalek lone_block (block_to_blob lone_block) sample_item []"
proof -
  have "wf_block lone_block" using wf_sample_block by (simp add: wf_block_def lone_block_def keys32_def)
  then have "block_from_blob (block_to_blob lone_block) = Inr lone_block"
    using block_c.read_new [of lone_block "[]"] by (simp add: block_from_blob_def block_to_blob_def)
  moreover have "block_id lone_block \<noteq> None"
  proof -
    obtain h where h: "transaction_hash sample_tx = Some h" using transaction_hash_sample ..
    moreover have "\<exists>r. tree_hash [h] = Some r" by (simp add: tree_hash_def Let_def TREE_HASH_MAX_COUNT_def)
    ultimately show ?thesis
      by (auto simp: block_id_def hashing_blob_def hashing_blob_inner_def tx_tree_hash_def Let_def lone_block_def sample_block_def)
  qed
  ultimately show ?thesis using wf_sample_item by (simp add: storable_block_def sample_item_def lone_block_def sample_block_def)
qed

lemma empty_tables: "tables_ok {}" "fresh_block blk [x] {} \<longleftrightarrow> distinct (spent_key_images (it_tx x))"
  by (simp_all add: tables_ok_def dense_outputs_def dense_txs_def dense_blocks_def fresh_block_def fresh_items_def fresh_item_def tbl_def)

lemma list_engine_simps:
  "lm_put list_engine t T k v = Inr ((T, k, v) # t)"
  "lm_entries list_engine t T = list_number (length (filter (\<lambda>x. fst x = T) (norm_entries t)))"
  "lm_set list_engine t T k = Inr (list_ex (hit T k) (norm_entries t))"
  "lm_write_txn list_engine e = Inr e" "lm_commit list_engine t = Inr t"
  "lm_size_info list_engine e = Inr \<lparr>mi_map_size = 2 ^ 30, mi_last_pgno = 0, mi_page_size = 4096\<rparr>"
  "\<not> lm_over_ninety list_engine a b"
  by (simp_all add: list_engine_def)

lemma norm_entries_simps:
  "norm_entries [] = []"
  "norm_entries (x # t) = x # filter (\<lambda>y. \<not> clashing x y) (norm_entries t)"
  "list_number 0 = Inr 0" "engine (Inr y) = Inr y"
  by (simp_all add: norm_entries_def norm_put_def list_number_def engine_def)

lemma lone_added: "\<exists>db1. lmdb_add_block zl_dalek list_engine \<lparr>ld_env = [], ld_read_only = False\<rparr> lone_block (block_to_blob lone_block) 300 300 7 5
    (map (\<lambda>x. (it_tx x, it_blob x)) ([] :: stored_item list)) = Some (Inr 0, db1)"
proof -
  obtain h where h: "block_id lone_block = Some h" using storable_lone by (auto simp: storable_block_def)
  note w = wf_sample_item [unfolded wf_item_def sample_item_def, simplified stored_item.simps]
  obtain c where o: "stored_outputs zl_dalek sample_tx = Inr [\<lparr>so_amount = 0, so_commitment = c\<rparr>]" using w by auto
  have ki: "spent_key_images sample_tx = [replicate 32 7]" by (simp add: spent_key_images_def sample_tx_def)
  have pk: "vout (tx_prefix sample_tx) = [\<lparr>out_amount = 0, out_target = OutToTaggedKey (replicate 32 9) 0x5a\<rparr>]" by (simp add: sample_tx_def)
  have tx: "miner_tx lone_block = sample_tx" by (simp add: lone_block_def sample_block_def)
  have "\<exists>t. add_transaction zl_dalek list_engine [] 0 sample_tx (Transaction_write [] sample_tx) = Inr t"
    using w by (cases "if 1 < version (tx_prefix sample_tx) then tx_prunable_hash_from_blob sample_tx (Transaction_write [] sample_tx) else None")
     (simp_all add: add_transaction_def o ki ok_or_def split_tx_blob_def store_failed_def list_engine_simps norm_entries_simps
        Let_def found_def pk add_output_def hit_def clashing_def)
  then show ?thesis
    by (auto simp: lmdb_add_block_def lmdb_write_def writer_add_block_def write_once_def grow_if_nearly_full_def nearly_full_def
        need_resize_def list_engine_simps norm_entries_simps tx h found_def ok_or_def Let_def)
qed

definition added :: "('s, 'p::ab_group_add) dalek \<Rightarrow> Block \<Rightarrow> bytes \<Rightarrow> u64 \<Rightarrow> u64 \<Rightarrow> u128 \<Rightarrow> u64 \<Rightarrow> stored_item list \<Rightarrow>
    entry set \<Rightarrow> u64 \<Rightarrow> entry set \<Rightarrow> bool" where
  "added C blk blob w ltw cd coins xs D h D1 \<longleftrightarrow> (\<exists>info. h = bi_height info \<and> finite D \<and> block_id blk = Some (bi_hash info) \<and>
     bi_weight info = w \<and> bi_long_term_block_weight info = ltw \<and> bi_cumulative_difficulty info = cd \<and> bi_coins info = coins \<and>
     unat (bi_height info) = card (tbl D T_blocks) \<and> txs_ready C (bi_height info) xs D \<and> D1 = block_after blk blob info xs D)"

lemma add_block_atomic:
  assumes "txn_laws L cont" "env_laws L cont stored" "tables_ok (stored (ld_env db))"
    "storable_block C blk blob m xs" "fresh_block blk (m # xs) (stored (ld_env db))"
  shows "\<exists>r db1. lmdb_add_block C L db blk blob w ltw cd coins (map (\<lambda>x. (it_tx x, it_blob x)) xs) = Some (r, db1) \<and>
    atomic stored (stored (ld_env db)) (added C blk blob w ltw cd coins (m # xs) (stored (ld_env db))) (r, ld_env db1)"
  unfolding lmdb_add_block_def
proof (rule write_atomic [OF assms(2)])
  let ?D = "stored (ld_env db)"
  fix t assume t: "cont t = ?D"
  show "outcome is_engine (writer_add_block C L blk blob w ltw cd coins (map (\<lambda>x. (it_tx x, it_blob x)) xs) t)
      (\<lambda>(h, t'). added C blk blob w ltw cd coins (m # xs) ?D h (cont t'))"
  proof (rule add_block_outcome [OF assms(1) tolerates_simps(1) _ assms(4)], unfold t case_prod_conv)
    have "finite ?D" using txn_lawsD(1) [OF assms(1), of t] by (simp only: t)
    then show "added C blk blob w ltw cd coins (m # xs) ?D (bi_height info) (cont t')"
      if "bi_weight info = w" "bi_long_term_block_weight info = ltw" "bi_cumulative_difficulty info = cd" "bi_coins info = coins"
        "block_id blk = Some (bi_hash info)" "unat (bi_height info) = card (tbl ?D T_blocks)"
        "txs_ready C (bi_height info) (m # xs) ?D" "cont t' = block_after blk blob info (m # xs) ?D" for info t'
      unfolding added_def using that by blast
  qed (fact assms(3), fact assms(5))
qed

text \<open>C16. Adding a block and popping it: over an engine that keeps its tables as documented, a block
  whose parts are well formed and new to the tables is either stored at the next height, keeping
  every numbering dense, or refused by an outage with the tables as they were. Popping then returns
  exactly the block and its transactions and leaves exactly the tables from before the add, or is
  refused by an outage with nothing changed. Neither panics, and neither fails with a missing or
  malformed record.\<close>

theorem pop_undoes_add:
  assumes "txn_laws L cont" "env_laws L cont stored" "tables_ok (stored (ld_env db))"
    "storable_block C blk blob m xs" "fresh_block blk (m # xs) (stored (ld_env db))"
  shows "\<exists>r db1. lmdb_add_block C L db blk blob w ltw cd coins (map (\<lambda>x. (it_tx x, it_blob x)) xs) = Some (r, db1) \<and>
    (case r of
       Inl e \<Rightarrow> outage e \<and> stored (ld_env db1) = stored (ld_env db)
     | Inr height \<Rightarrow> unat height = card (tbl (stored (ld_env db)) T_blocks) \<and> tables_ok (stored (ld_env db1)) \<and>
         (\<exists>r2 db2. lmdb_pop_block C L db1 = Some (r2, db2) \<and>
            (case r2 of
               Inl e \<Rightarrow> outage e \<and> stored (ld_env db2) = stored (ld_env db1)
             | Inr popped \<Rightarrow> popped = (blk, map it_tx xs) \<and> stored (ld_env db2) = stored (ld_env db))))"
proof -
  let ?D = "stored (ld_env db)"
  obtain r db1 where r: "lmdb_add_block C L db blk blob w ltw cd coins (map (\<lambda>x. (it_tx x, it_blob x)) xs) = Some (r, db1)"
    "atomic stored ?D (added C blk blob w ltw cd coins (m # xs) ?D) (r, ld_env db1)"
    using add_block_atomic [OF assms, of w ltw cd coins] by (elim exE conjE)
  show ?thesis
  proof (cases r)
    case (Inl e)
    with r show ?thesis by (simp only: atomic_simps) simp
  next
    case (Inr h)
    obtain info where i: "h = bi_height info" "finite ?D" "block_id blk = Some (bi_hash info)"
      "unat (bi_height info) = card (tbl ?D T_blocks)" "txs_ready C (bi_height info) (m # xs) ?D"
      "stored (ld_env db1) = block_after blk blob info (m # xs) ?D"
      using r(2) unfolding Inr atomic_simps added_def by (elim exE conjE)
    have db: "dense_blocks ?D" using assms(3) by (simp add: tables_ok_def)
    have pop: "outcome is_engine (writer_pop_block C L t) (\<lambda>(p, t'). p = (blk, map it_tx xs) \<and> cont t' = ?D)"
      if "cont t = stored (ld_env db1)" for t
      by (rule pop_block_outcome [OF assms(1) tolerates_simps(1) i(2) db assms(4,5) i(3,4,5)]) (simp_all add: that i(6))
    have "\<exists>r2 db2. lmdb_pop_block C L db1 = Some (r2, db2) \<and>
        atomic stored (stored (ld_env db1)) (\<lambda>p D2. p = (blk, map it_tx xs) \<and> D2 = ?D) (r2, ld_env db2)"
      unfolding lmdb_pop_block_def by (rule write_atomic [OF assms(2)]) (rule pop)
    then obtain r2 db2 where p: "lmdb_pop_block C L db1 = Some (r2, db2)"
      "atomic stored (stored (ld_env db1)) (\<lambda>p D2. p = (blk, map it_tx xs) \<and> D2 = ?D) (r2, ld_env db2)" by (elim exE conjE)
    have "tables_ok (stored (ld_env db1))"
      unfolding i(6) by (rule block_after_ok [OF assms(3) i(2,5,4) length_block_id [OF i(3)]])
    moreover have "case r2 of Inl e \<Rightarrow> outage e \<and> stored (ld_env db2) = stored (ld_env db1)
        | Inr popped \<Rightarrow> popped = (blk, map it_tx xs) \<and> stored (ld_env db2) = ?D"
      using p(2) by (cases r2) (simp_all only: atomic_simps sum.case)
    ultimately show ?thesis using r(1) p(1) i(1,4) Inr by auto
  qed
qed


theorem pop_undoes_add_witness:
  "\<exists>db1. lmdb_add_block zl_dalek list_engine \<lparr>ld_env = [], ld_read_only = False\<rparr> lone_block (block_to_blob lone_block) 300 300 7 5
      (map (\<lambda>x. (it_tx x, it_blob x)) ([] :: stored_item list)) = Some (Inr 0, db1) \<and> tables_ok (list_cont (ld_env db1)) \<and>
    (\<exists>r2 db2. lmdb_pop_block zl_dalek list_engine db1 = Some (r2, db2) \<and>
       (case r2 of
          Inl e \<Rightarrow> outage e \<and> list_cont (ld_env db2) = list_cont (ld_env db1)
        | Inr popped \<Rightarrow> popped = (lone_block, map it_tx ([] :: stored_item list)) \<and> list_cont (ld_env db2) = list_cont []))"
proof -
  have e: "list_cont [] = {}" by (simp add: list_cont_def norm_entries_def)
  have "distinct (spent_key_images (it_tx sample_item))" by (simp add: sample_item_def spent_key_images_def sample_tx_def)
  then have "tables_ok (list_cont (ld_env \<lparr>ld_env = [], ld_read_only = False\<rparr>))"
    "fresh_block lone_block [sample_item] (list_cont (ld_env \<lparr>ld_env = [], ld_read_only = False\<rparr>))"
    by (simp_all add: e empty_tables)
  note p = pop_undoes_add [OF list_txn_laws list_env_laws this(1) storable_lone this(2), of 300 300 7 5]
  from lone_added p show ?thesis by (elim exE conjE) (simp only: option.inject prod.inject sum.case LmdbDb.simps, blast)
qed

lemma added_block_reads:
  assumes "txn_laws L cont" "env_laws L cont stored" "tables_ok (stored (ld_env db))"
    "storable_block C blk blob m xs" "fresh_block blk (m # xs) (stored (ld_env db))"
    "lmdb_add_block C L db blk blob w ltw cd coins (map (\<lambda>x. (it_tx x, it_blob x)) xs) = Some (Inr height, db1)"
    "block_id blk = Some h"
  shows "answers (lmdb_get_block_blob L db1 height) blob" "answers (lmdb_get_block_height L db1 h) height"
    "answers (lmdb_get_block_hash L db1 height) h" "answers (lmdb_get_block_weight L db1 height) w"
    "answers (lmdb_get_block_cumulative_difficulty L db1 height) cd" "answers (lmdb_get_block_already_generated_coins L db1 height) coins"
    "\<forall>x \<in> set (m # xs). answers (lmdb_get_tx_blob L db1 (it_hash x)) (it_blob x) \<and>
       answers (lmdb_get_tx_block_height L db1 (it_hash x)) height \<and>
       (\<forall>ki \<in> set (spent_key_images (it_tx x)). answers (lmdb_has_key_image L db1 ki) True)"
proof -
  let ?D = "stored (ld_env db)"
  have "added C blk blob w ltw cd coins (m # xs) ?D height (stored (ld_env db1))"
    using add_block_atomic [OF assms(1-5), of w ltw cd coins] by (simp add: assms(6))
  then obtain info where i: "height = bi_height info" "bi_hash info = h" "bi_weight info = w" "bi_cumulative_difficulty info = cd"
    "bi_coins info = coins" "stored (ld_env db1) = block_after blk blob info (m # xs) ?D" using assms(7) unfolding added_def by auto
  have l: "length (bi_hash info) = 32" using length_block_id [OF assms(7)] i(2) by simp
  have own: "block_own blk blob info \<subseteq> cont t" if "cont t = stored (ld_env db1)" for t by (simp add: that i(6) block_after_def)
  note rd = read_answers [OF assms(2)]
  note br = block_reads [OF assms(1) tolerates_simps(1) own l]
  show "answers (lmdb_get_block_blob L db1 height) blob" unfolding lmdb_get_block_blob_def
    by (rule rd, simp only: outcome_simps i(1), rule br(1)) simp_all
  show "answers (lmdb_get_block_height L db1 h) height" unfolding lmdb_get_block_height_def i(2) [symmetric]
    by (rule rd, rule br(2)) (simp_all add: i(1))
  have info: "answers (and_then (lmdb_get_block_info L db1 height) (\<lambda>i. Inr (g i))) (g info)" for g :: "BlockInfo \<Rightarrow> 'z"
  proof -
    have "answers (lmdb_get_block_info L db1 height) info" unfolding lmdb_get_block_info_def by (rule rd) (simp only: i(1), rule br(3), simp_all)
    then show ?thesis unfolding answers_def outcome_simps by (rule outcome_mono) simp
  qed
  show "answers (lmdb_get_block_hash L db1 height) h" "answers (lmdb_get_block_weight L db1 height) w"
    "answers (lmdb_get_block_cumulative_difficulty L db1 height) cd" "answers (lmdb_get_block_already_generated_coins L db1 height) coins"
    unfolding lmdb_get_block_hash_def lmdb_get_block_weight_def lmdb_get_block_cumulative_difficulty_def
      lmdb_get_block_already_generated_coins_def i(2-5) [symmetric] by (rule info)+
  show "\<forall>x \<in> set (m # xs). answers (lmdb_get_tx_blob L db1 (it_hash x)) (it_blob x) \<and>
       answers (lmdb_get_tx_block_height L db1 (it_hash x)) height \<and>
       (\<forall>ki \<in> set (spent_key_images (it_tx x)). answers (lmdb_has_key_image L db1 ki) True)"
  proof
    fix x assume x: "x \<in> set (m # xs)"
    obtain n where "tx_own height x n \<subseteq> txs_state height (m # xs) ?D" using txs_state_has [OF x] by blast
    then have n: "tx_own height x n \<subseteq> cont t" if "cont t = stored (ld_env db1)" for t using that i(1,6) by (simp add: block_after_def le_supI1)
    have w: "wf_item C x" using assms(4) x unfolding storable_block_def by blast
    note tr = tx_reads [OF assms(1) tolerates_simps(1) w n]
    have "answers (lmdb_get_tx_blob L db1 (it_hash x)) (it_blob x)" unfolding lmdb_get_tx_blob_def Let_def
      by (rule rd, simp only: outcome_simps, rule tr(1), assumption, simp only: TxIndex.simps, rule tr(2), assumption,
          simp only: outcome_found option.case, rule tr(3), assumption, simp)
    moreover have "answers (lmdb_get_tx_data L db1 (it_hash x))
        \<lparr>td_tx_id = n, td_unlock_time = unlock_time (tx_prefix (it_tx x)), td_block_height = height\<rparr>"
      unfolding lmdb_get_tx_data_def by (rule rd, simp only: outcome_simps, rule tr(1), assumption, simp)
    then have "answers (lmdb_get_tx_block_height L db1 (it_hash x)) height"
      unfolding answers_def lmdb_get_tx_block_height_def outcome_simps by (rule outcome_mono) simp
    moreover have "answers (lmdb_has_key_image L db1 ki) True" if "ki \<in> set (spent_key_images (it_tx x))" for ki
      unfolding lmdb_has_key_image_def zerokval_exists_def
      by (rule rd, simp only: outcome_simps, rule tr(4), assumption, rule that, simp)
    ultimately show "answers (lmdb_get_tx_blob L db1 (it_hash x)) (it_blob x) \<and>
       answers (lmdb_get_tx_block_height L db1 (it_hash x)) height \<and>
       (\<forall>ki \<in> set (spent_key_images (it_tx x)). answers (lmdb_has_key_image L db1 ki) True)" by blast
  qed
qed



end
