(* ===== verification/Spec2Isabelle.thy ===== *)
theory Spec2Isabelle
  imports TxExtra Block TxWeight Difficulty BlockWeight Timestamp Fee ClsagSig BppComplete TxRules ChainInv LmdbInv
begin

text \<open>
  \<^bold>\<open>A verification library for a Wownero node and wallet written in Rust.\<close>

  \<^bold>\<open>The program.\<close> The workspace implements the Wownero cryptocurrency: the binary archive that
  transactions and blocks travel in (\<open>crates/wow-serialize\<close>), the data types themselves
  (\<open>crates/wow-types\<close>), the cryptography (\<open>crates/wow-crypto\<close>), the consensus rules
  (\<open>crates/wow-consensus\<close>), the chain that applies them (\<open>crates/wow-core\<close>) over a key-value
  store (\<open>crates/wow-storage\<close>), the peer-to-peer network (\<open>crates/wow-p2p\<close>), the wallet
  (\<open>crates/wow-wallet\<close>) and the binaries. A block that arrives is parsed by the archive, hashed by
  the types, checked by the consensus rules against what the chain knows, and its transactions
  are checked by the signatures of the cryptography. This library models that path from the bytes
  up: every later layer calls the definitions of the earlier ones, as the code does.

  \<^bold>\<open>Conventions.\<close> A struct is a \<open>record\<close>, an enum a \<open>datatype\<close>, a fixed-width integer a word of its
  width (\<open>u8\<close>, \<open>u32\<close>, \<open>u64\<close>, \<open>u128\<close>), so that \<open>+\<close>, \<open>-\<close> and \<open>*\<close> wrap as in the release profile; saturating
  and checked arithmetic are the functions of \<open>Prelude\<close>. A \<open>usize\<close> that counts bytes or elements in
  memory is a \<open>nat\<close>. \<open>Result\<close> is a sum with the error on the left, \<open>Option\<close> an option. A function
  that can panic, or a loop that can run for ever, returns an option around its result, and
  \<open>None\<close> is that outcome; wherever such a function has a property, the property says when the
  result is there. Loops are recursive functions with a termination proof, or
  \<open>partial_function\<close> where the end depends on data the code does not control (the clawback loop,
  rejection sampling, popping a store). A method that mutates \<open>self\<close> takes the record and returns it
  updated. Names are those of the code, with a prefix where two types share a method name.

  \<^bold>\<open>Theories and sources.\<close>
  \<^item> \<open>Prelude\<close>: machine integers, bytes, results, shared list and word lemmas.
  \<^item> \<open>Varint\<close>, \<open>Binary\<close>: \<open>wow-serialize/src/varint.rs\<close>, \<open>error.rs\<close> and \<open>binary.rs\<close>. The reader is the rest
    of the input; the writer is the bytes so far. \<open>Binary\<close> also has the locale of codecs, a writer and
    a reader that undo each other, whose interpretations carry the round trips above.
  \<^item> \<open>Rct\<close>, \<open>Tx\<close>, \<open>TxExtra\<close>, \<open>Block\<close>, \<open>Hashes\<close>, \<open>TxWeight\<close>, \<open>PowDifficulty\<close>: \<open>wow-types\<close> (\<open>rct.rs\<close>, \<open>tx.rs\<close>,
    \<open>limits.rs\<close>, \<open>tx_extra.rs\<close>, \<open>block.rs\<close>, \<open>hashes.rs\<close>, \<open>weight.rs\<close>, \<open>difficulty.rs\<close>).
  \<^item> \<open>Keccak\<close>, \<open>Hash\<close>: the sponge, \<open>cn_fast_hash\<close> and \<open>tree_hash\<close> of \<open>wow-crypto\<close>.
  \<^item> \<open>Field\<close>, \<open>FieldBytes\<close>, \<open>HashToPoint\<close>: \<open>wow-crypto/src/field.rs\<close>, five 51-bit limbs in 64-bit words with
    128-bit products.
  \<^item> \<open>Dalek\<close>: the interface to the curve25519-dalek package, which is not part of the repository. It
    is a record of its operations; \<open>lawful\<close> states what the package documents (the points are a
    group, the scalars a ring, encodings are injective, the order is prime). \<open>zl_dalek\<close> is a concrete
    record for which \<open>lawful\<close> is proved, so that no property rests on an empty hypothesis.
  \<^item> \<open>Ops\<close>, \<open>Keys\<close>, \<open>RctOps\<close>, \<open>RandomScalar\<close>, \<open>Signature\<close>, \<open>ClsagSig\<close>: \<open>wow-crypto\<close> (\<open>ops.rs\<close>, \<open>keys.rs\<close>, \<open>rct.rs\<close>,
    \<open>random.rs\<close>, \<open>signature.rs\<close>, \<open>clsag.rs\<close>).
  \<^item> \<open>Bpp\<close>: \<open>wow-crypto/src/bulletproofs_plus.rs\<close>, the generators, the transcript, the prover with its
    attempts and halving rounds, and the batch verifier with its checks and its one multi-scalar
    sum. \<open>BppAlg\<close> (the locale \<open>scalar_module\<close>: linear combinations of points, interpreted on the
    package's instance), \<open>BppLoops\<close> (the index loops as lists), \<open>BppRounds\<close> (a prover round and the
    challenge the verifier reads back), \<open>BppSum\<close> (the verifier's sum) and \<open>BppComplete\<close> carry the proof
    that the verifier accepts what the prover returns, under \<open>range_laws\<close>; \<open>z3_dalek\<close> is an instance.
  \<^item> \<open>Constants\<close>, \<open>HardFork\<close>, \<open>Emission\<close>, \<open>OrdMap\<close> (the standard library's ordered map), \<open>BlockWeight\<close>,
    \<open>Timestamp\<close>, \<open>Fee\<close>, \<open>Difficulty\<close>, \<open>TxRules\<close>, \<open>Checkpoints\<close>: \<open>wow-consensus\<close>.
  \<^item> \<open>Chain\<close>: \<open>wow-core\<close>: \<open>Blockchain\<close> with its cached \<open>ChainState\<close>, \<open>add_block\<close> in its twelve steps,
    alternative chains, the switch to one and its undoing, \<open>pop_blocks\<close>. The storage trait, the proof
    of work and the transaction verifier are the code's own seams and a record argument here.
  \<^item> \<open>ChainInv\<close>: the contract of the storage trait as predicates over a view of the store
    (\<open>store_laws\<close>: what is read is true, a write appends, removes or does nothing; \<open>store_total\<close>: reads
    of what exists do not fail), a small logic of triples for chain operations, the reachable
    chains, and a list-backed store that keeps the contract. The contract is stated of a store whose
    engine answers; \<open>LmdbDb::height\<close> answers zero when the engine fails, which is outside of it. Any
    transaction verifier may be installed between two steps of a chain.
  \<^item> \<open>Records\<close>, \<open>Lmdb\<close>: \<open>wow-storage\<close> (\<open>records.rs\<close>, \<open>comparator.rs\<close>, \<open>tables.rs\<close>, \<open>lmdb.rs\<close>): the packed
    records, the key orders, the writers that add and remove a block, its transactions, outputs and
    key images, and the reads. The LMDB engine itself is not in the repository: it is a record of
    the operations the code calls, with the laws \<open>txn_laws\<close> and \<open>env_laws\<close>, kept by \<open>list_engine\<close>.
    \<open>LmdbLaws\<close>, \<open>LmdbTx\<close> and \<open>LmdbInv\<close> follow a block through the tables.

  \<^bold>\<open>What is shown.\<close> \<^emph>\<open>Chain:\<close> whatever sequence of blocks, failed blocks, reorganisations and
  removals led to a chain, no key image is spent twice on it, its blocks link, carry the right
  version and match the checkpoints, and the cached state is that of the stored blocks; removing
  blocks returns and keeps the genesis block. \<^emph>\<open>Store:\<close> a block that is added can be read back
  under its height and hash, and removing it restores the tables it found. \<^emph>\<open>Rules:\<close> exactly which coinbases, transactions,
  ring sizes and RingCT types are accepted; a miner who holds the output key can sign a block that
  passes. \<^emph>\<open>Archive and types:\<close> writing and reading back are inverse for transactions, blocks and
  extra fields; the strict reader of variable-length integers accepts canonical bytes only. \<^emph>\<open>Hashes:\<close>
  the tree hash is the Merkle root of its leaves; if two computations of a tree hash, block id,
  signing data or transaction hash agree, then what they bind is equal, or two different messages
  that they hash at the same place have the same digest (\<open>collides\<close>). \<^emph>\<open>Cryptography:\<close> limb arithmetic
  refines arithmetic modulo the prime; sender and receiver derive the same one-time keys;
  signatures, ring signatures and CLSAG signatures made with the right secret verify, and so do
  the range proofs the prover returns. \<^emph>\<open>Consensus
  arithmetic:\<close> the 256-bit products and quotients are exact, the reward is its formula and never
  overdraws the supply, the sliding median refines a sorted list, fees are monotone, the
  difficulty algorithms return, with no index out of range and no division by zero.

  \<^bold>\<open>Not modelled.\<close> Version 2 of the difficulty algorithm and the RandomWOW virtual machine compute
  in IEEE doubles; they are values supplied to the model. The LMDB engine and curve25519-dalek
  are packages the repository only calls. The peer-to-peer protocol and its portable-storage
  encoding (\<open>epee\<close>), sockets, TLS, HTTP, JSON, the console and the user interfaces are input and
  output around the modelled rules. The CryptoNight hash, the text encodings of addresses and
  seeds, the wallet and the memory pool are components of their own, which the modelled path does
  not call; they are left out so far.
\<close>

end
